(* ===== verification/Bridge_Prelude.thy ===== *)
theory Bridge_Prelude
  imports Complex_Main "HOL-Library.Word" "HOL-Library.AList"
begin

text \<open>
  What the components of the bridge share: JavaScript strings as lists of UTF-16 code units,
  thrown errors as values, programs over a mutable state that may throw (a thrown error keeps
  the state changes made before it, as in JavaScript), the insertion-ordered \<open>Map\<close> as an
  association list, and invariants of step relations.
\<close>

section \<open>Strings\<close>

text \<open>A JavaScript string is a sequence of 16-bit code units.\<close>

type_synonym ustring = "16 word list"

type_synonym bytes = "8 word list"

definition code_unit :: "char \<Rightarrow> 16 word" where
  "code_unit c = of_nat (of_char c)"

text \<open>\<open>ustr ''abc''\<close> is the string literal of the source.\<close>

definition ustr :: "string \<Rightarrow> ustring" where
  "ustr s = map code_unit s"

section \<open>Errors and programs\<close>

text \<open>
  \<open>Err m\<close> is \<open>new Error(m)\<close>, \<open>ConfigErr p m\<close> the \<open>ConfigError\<close> of the configuration
  module, \<open>TypeErr m\<close> a \<open>TypeError\<close>; \<open>Foreign\<close> is whatever an injected callback threw.
\<close>

datatype error =
    Err string
  | ConfigErr ustring string
  | TypeErr string
  | Foreign

type_synonym 'a result = "error + 'a"

text \<open>A program over the state \<open>'s\<close>: it returns or throws, and the state is updated either way.\<close>

type_synonym ('s, 'a) prog = "'s \<Rightarrow> 'a result \<times> 's"

definition retE :: "'a \<Rightarrow> ('s, 'a) prog" where
  "retE x = (\<lambda>s. (Inr x, s))"

definition throwE :: "error \<Rightarrow> ('s, 'a) prog" where
  "throwE e = (\<lambda>s. (Inl e, s))"

definition liftE :: "'a result \<Rightarrow> ('s, 'a) prog" where
  "liftE r = (\<lambda>s. (r, s))"

definition getE :: "('s \<Rightarrow> 'a) \<Rightarrow> ('s, 'a) prog" where
  "getE f = (\<lambda>s. (Inr (f s), s))"

definition modE :: "('s \<Rightarrow> 's) \<Rightarrow> ('s, unit) prog" where
  "modE f = (\<lambda>s. (Inr (), f s))"

definition bindE :: "('s, 'a) prog \<Rightarrow> ('a \<Rightarrow> ('s, 'b) prog) \<Rightarrow> ('s, 'b) prog" where
  "bindE m f = (\<lambda>s. case m s of (Inl e, s') \<Rightarrow> (Inl e, s') | (Inr x, s') \<Rightarrow> f x s')"

definition seqE :: "('s, 'a) prog \<Rightarrow> ('s, 'b) prog \<Rightarrow> ('s, 'b) prog" where
  "seqE m n = bindE m (\<lambda>_. n)"

text \<open>\<open>if (b) throw e;\<close>\<close>

definition throwIf :: "bool \<Rightarrow> error \<Rightarrow> ('s, unit) prog" where
  "throwIf b e = (if b then throwE e else retE ())"

text \<open>\<open>try { m } catch (e) { h }\<close>: the handler runs in the state the body left behind.\<close>

definition catchE :: "('s, 'a) prog \<Rightarrow> (error \<Rightarrow> ('s, 'a) prog) \<Rightarrow> ('s, 'a) prog" where
  "catchE m h = (\<lambda>s. case m s of (Inl e, s') \<Rightarrow> h e s' | (Inr x, s') \<Rightarrow> (Inr x, s'))"

text \<open>Sequencing of pure checks: the first failing one is the result.\<close>

definition bindR :: "'a result \<Rightarrow> ('a \<Rightarrow> 'b result) \<Rightarrow> 'b result" where
  "bindR r f = (case r of Inl e \<Rightarrow> Inl e | Inr x \<Rightarrow> f x)"

definition failIf :: "bool \<Rightarrow> error \<Rightarrow> unit result" where
  "failIf b e = (if b then Inl e else Inr ())"

text \<open>\<open>xs.map(f)\<close> where \<open>f\<close> may throw: elements are visited in order.\<close>

fun mapR :: "('a \<Rightarrow> 'b result) \<Rightarrow> 'a list \<Rightarrow> 'b list result" where
  "mapR f [] = Inr []"
| "mapR f (x # xs) = bindR (f x) (\<lambda>y. bindR (mapR f xs) (\<lambda>ys. Inr (y # ys)))"

text \<open>The same loop over a mutable state.\<close>

fun mapE :: "('a \<Rightarrow> ('s, 'b) prog) \<Rightarrow> 'a list \<Rightarrow> ('s, 'b list) prog" where
  "mapE f [] = retE []"
| "mapE f (x # xs) = bindE (f x) (\<lambda>y. bindE (mapE f xs) (\<lambda>ys. retE (y # ys)))"

text \<open>\<open>for (const x of xs) f(x);\<close>\<close>

fun forE :: "('a \<Rightarrow> ('s, unit) prog) \<Rightarrow> 'a list \<Rightarrow> ('s, unit) prog" where
  "forE f [] = retE ()"
| "forE f (x # xs) = seqE (f x) (forE f xs)"

text \<open>\<open>keeps P m\<close>: whether \<open>m\<close> returns or throws, it keeps \<open>P\<close>.\<close>

definition keeps :: "('s \<Rightarrow> bool) \<Rightarrow> ('s, 'a) prog \<Rightarrow> bool" where
  "keeps P m \<longleftrightarrow> (\<forall>s. P s \<longrightarrow> P (snd (m s)))"

text \<open>
  \<open>wp m Q E s\<close>: run from \<open>s\<close>, \<open>m\<close> either returns \<open>x\<close> in a state satisfying \<open>Q x\<close> or throws
  \<open>e\<close> in a state satisfying \<open>E e\<close>.
\<close>

definition wp :: "('s, 'a) prog \<Rightarrow> ('a \<Rightarrow> 's \<Rightarrow> bool) \<Rightarrow> (error \<Rightarrow> 's \<Rightarrow> bool) \<Rightarrow> 's \<Rightarrow> bool" where
  "wp m Q E s = (case m s of (Inl e, s') \<Rightarrow> E e s' | (Inr x, s') \<Rightarrow> Q x s')"

section \<open>Step relations\<close>

inductive reachable :: "('s \<Rightarrow> bool) \<Rightarrow> ('s \<Rightarrow> 's \<Rightarrow> bool) \<Rightarrow> 's \<Rightarrow> bool"
  for start :: "'s \<Rightarrow> bool" and trans_step :: "'s \<Rightarrow> 's \<Rightarrow> bool" where
  reach_start: "start s \<Longrightarrow> reachable start trans_step s"
| reach_step: "reachable start trans_step s \<Longrightarrow> trans_step s t \<Longrightarrow> reachable start trans_step t"

section \<open>Lemmas on strings\<close>

lemma unat_code_unit: "unat (code_unit c) = of_char c"
proof -
  have "of_char c < (256 :: nat)" by simp
  then have "of_char c mod 65536 = (of_char c :: nat)" by (intro mod_less) linarith
  then show ?thesis by (simp add: code_unit_def unat_of_nat)
qed

lemma code_unit_inject [simp]: "code_unit c = code_unit d \<longleftrightarrow> c = d"
proof
  assume "code_unit c = code_unit d"
  then have "of_char c = (of_char d :: nat)" by (metis unat_code_unit)
  then show "c = d" by simp
qed simp

lemma ustr_Nil [simp]: "ustr [] = []"
  by (simp add: ustr_def)

lemma ustr_Cons: "ustr (c # s) = code_unit c # ustr s"
  by (simp add: ustr_def)

lemma ustr_append: "ustr (s @ t) = ustr s @ ustr t"
  by (simp add: ustr_def)

lemma length_ustr [simp]: "length (ustr s) = length s"
  by (simp add: ustr_def)

lemma ustr_inject [simp]: "ustr s = ustr t \<longleftrightarrow> s = t"
  unfolding ustr_def by (rule inj_map_eq_map) (simp add: inj_def)

section \<open>Lemmas on programs\<close>

named_theorems prog_simps
named_theorems keeps_rules

lemma prog_run [prog_simps]:
  "retE x s = (Inr x, s)" "throwE e s = (Inl e, s)" "liftE r s = (r, s)"
  "getE f s = (Inr (f s), s)" "modE g s = (Inr (), g s)"
  by (simp_all add: retE_def throwE_def liftE_def getE_def modE_def)

lemma throwIf_run [prog_simps]: "throwIf b e s = (if b then Inl e else Inr (), s)"
  by (simp add: throwIf_def prog_simps)

lemma bindE_run [prog_simps]:
  "bindE m f s = (case m s of (Inl e, s') \<Rightarrow> (Inl e, s') | (Inr x, s') \<Rightarrow> f x s')"
  by (simp add: bindE_def)

lemma seqE_run [prog_simps]:
  "seqE m n s = (case m s of (Inl e, s') \<Rightarrow> (Inl e, s') | (Inr x, s') \<Rightarrow> n s')"
  by (simp add: seqE_def bindE_def)

lemma catchE_run [prog_simps]:
  "catchE m h s = (case m s of (Inl e, s') \<Rightarrow> h e s' | (Inr x, s') \<Rightarrow> (Inr x, s'))"
  by (simp add: catchE_def)

lemma bindR_simps [simp]: "bindR (Inl e) f = Inl e" "bindR (Inr x) f = f x"
  by (simp_all add: bindR_def)

lemma bindR_eq_Inr [simp]: "bindR r f = Inr y \<longleftrightarrow> (\<exists>x. r = Inr x \<and> f x = Inr y)"
  by (cases r) auto

lemma failIf_eq_Inr [simp]: "failIf b e = Inr u \<longleftrightarrow> \<not> b"
  by (cases u) (simp add: failIf_def)

lemma mapR_cong [fundef_cong]:
  "xs = ys \<Longrightarrow> (\<And>x. x \<in> set ys \<Longrightarrow> f x = g x) \<Longrightarrow> mapR f xs = mapR g ys"
  by (induction ys arbitrary: xs) auto

lemma mapR_eq_Inr: "mapR f xs = Inr ys \<longleftrightarrow> list_all2 (\<lambda>x y. f x = Inr y) xs ys"
proof (induction xs arbitrary: ys)
  case Nil
  show ?case by (cases ys) auto
next
  case (Cons x xs)
  then show ?case by (cases ys) auto
qed

lemma bindE_eq_Inr:
  "bindE m f s = (Inr y, s') \<longleftrightarrow> (\<exists>x t. m s = (Inr x, t) \<and> f x t = (Inr y, s'))"
  by (auto simp: bindE_run split: prod.splits sum.splits)

lemma seqE_eq_Inr:
  "seqE m n s = (Inr y, s') \<longleftrightarrow> (\<exists>x t. m s = (Inr x, t) \<and> n t = (Inr y, s'))"
  by (simp add: seqE_def bindE_eq_Inr)

lemma prog_eq_Inr:
  "retE x s = (Inr y, s') \<longleftrightarrow> x = y \<and> s = s'" "throwE e s = (Inr y, s') \<longleftrightarrow> False"
  "liftE r s = (Inr y, s') \<longleftrightarrow> r = Inr y \<and> s = s'" "getE g s = (Inr y, s') \<longleftrightarrow> g s = y \<and> s = s'"
  by (auto simp: prog_run)

lemma unit_prog_eq_Inr:
  "modE g s = (Inr u, s') \<longleftrightarrow> g s = s'" "throwIf b e s = (Inr u, s') \<longleftrightarrow> \<not> b \<and> s = s'"
  by (auto simp: prog_run throwIf_run)

lemmas run_Inr = bindE_eq_Inr seqE_eq_Inr prog_eq_Inr unit_prog_eq_Inr

lemma keepsI: "(\<And>s r s'. P s \<Longrightarrow> m s = (r, s') \<Longrightarrow> P s') \<Longrightarrow> keeps P m"
  by (metis keeps_def prod.collapse)

lemma keepsD: "keeps P m \<Longrightarrow> P s \<Longrightarrow> m s = (r, s') \<Longrightarrow> P s'"
  by (metis keeps_def snd_conv)

lemma keeps_pure [keeps_rules]:
  "keeps P (retE x)" "keeps P (throwE e)" "keeps P (liftE r)" "keeps P (getE f)"
  "keeps P (throwIf b e)"
  by (simp_all add: keeps_def prog_simps)

lemma keeps_modE [keeps_rules]: "(\<And>s. P s \<Longrightarrow> P (f s)) \<Longrightarrow> keeps P (modE f)"
  by (simp add: keeps_def prog_simps)

lemma keeps_bindE [keeps_rules]: "keeps P m \<Longrightarrow> (\<And>x. keeps P (f x)) \<Longrightarrow> keeps P (bindE m f)"
  by (auto simp: keeps_def prog_simps split: prod.splits sum.splits)

lemma keeps_seqE [keeps_rules]: "keeps P m \<Longrightarrow> keeps P n \<Longrightarrow> keeps P (seqE m n)"
  by (simp add: seqE_def keeps_bindE)

lemma keeps_catchE [keeps_rules]: "keeps P m \<Longrightarrow> (\<And>e. keeps P (h e)) \<Longrightarrow> keeps P (catchE m h)"
  by (auto simp: keeps_def prog_simps split: prod.splits sum.splits)

lemma keeps_mapE [keeps_rules]: "(\<And>x. x \<in> set xs \<Longrightarrow> keeps P (f x)) \<Longrightarrow> keeps P (mapE f xs)"
  by (induction xs) (auto intro!: keeps_rules)

lemma keeps_forE [keeps_rules]: "(\<And>x. x \<in> set xs \<Longrightarrow> keeps P (f x)) \<Longrightarrow> keeps P (forE f xs)"
  by (induction xs) (auto intro!: keeps_rules)

lemma keeps_if [keeps_rules]:
  "(b \<Longrightarrow> keeps P m) \<Longrightarrow> (\<not> b \<Longrightarrow> keeps P n) \<Longrightarrow> keeps P (if b then m else n)"
  by simp

named_theorems wp_simps

lemma wp_prims [wp_simps]:
  "wp (retE x) Q E s = Q x s" "wp (throwE e) Q E s = E e s"
  "wp (getE f) Q E s = Q (f s) s"
  by (simp_all add: wp_def prog_simps)

lemma wp_unit_prims [wp_simps]:
  "wp (modE g) Q E s = Q () (g s)" "wp (throwIf b e) Q E s = (if b then E e s else Q () s)"
  by (simp_all add: wp_def prog_simps)

lemma wp_liftE [wp_simps]: "wp (liftE r) Q E s = (case r of Inl e \<Rightarrow> E e s | Inr x \<Rightarrow> Q x s)"
  by (simp add: wp_def prog_simps split: sum.split)

lemma wp_bindE [wp_simps]: "wp (bindE m f) Q E s = wp m (\<lambda>x. wp (f x) Q E) E s"
  by (auto simp: wp_def prog_simps split: prod.splits sum.splits)

lemma wp_seqE [wp_simps]: "wp (seqE m n) Q E s = wp m (\<lambda>_. wp n Q E) E s"
  by (simp add: seqE_def wp_bindE)

lemma wp_catchE [wp_simps]: "wp (catchE m h) Q E s = wp m Q (\<lambda>e. wp (h e) Q E) s"
  by (auto simp: wp_def prog_simps split: prod.splits sum.splits)

lemma wp_if [wp_simps]: "wp (if b then m else n) Q E s = (if b then wp m Q E s else wp n Q E s)"
  by simp

lemma wp_mono:
  "wp m Q E s \<Longrightarrow> (\<And>x s'. Q x s' \<Longrightarrow> Q' x s') \<Longrightarrow> (\<And>e s'. E e s' \<Longrightarrow> E' e s') \<Longrightarrow> wp m Q' E' s"
  by (auto simp: wp_def split: prod.splits sum.splits)

lemma wpD: "wp m Q E s \<Longrightarrow> m s = (r, s') \<Longrightarrow> (case r of Inl e \<Rightarrow> E e s' | Inr x \<Rightarrow> Q x s')"
  by (auto simp: wp_def split: sum.splits)

lemma wp_keeps:
  "keeps I m \<Longrightarrow> I s \<Longrightarrow> (\<And>x s'. I s' \<Longrightarrow> Q x s') \<Longrightarrow> (\<And>e s'. I s' \<Longrightarrow> E e s') \<Longrightarrow> wp m Q E s"
  by (auto simp: wp_def split: prod.splits sum.splits dest: keepsD)

lemma keeps_wp: "keeps I m \<longleftrightarrow> (\<forall>s. I s \<longrightarrow> wp m (\<lambda>_. I) (\<lambda>_. I) s)"
  by (auto simp: wp_def keeps_def split: prod.splits sum.splits) (metis prod.collapse sum.exhaust)+

section \<open>Lemmas on insertion-ordered maps\<close>

text \<open>
  \<open>AList.update\<close> replaces in place or appends, which is \<open>Map.set\<close>; \<open>AList.delete\<close> is
  \<open>Map.delete\<close>; \<open>map_of\<close> is \<open>Map.get\<close>; the keys of a map are distinct.
\<close>

abbreviation keys :: "('k \<times> 'v) list \<Rightarrow> 'k list" where
  "keys m \<equiv> map fst m"

lemma keys_update: "keys (AList.update k v m) = (if k \<in> set (keys m) then keys m else keys m @ [k])"
  by (simp add: update_keys)

lemma map_of_delete [simp]: "map_of (AList.delete k m) = (map_of m)(k := None)"
  by (rule delete_conv')

lemma map_of_update [simp]: "map_of (AList.update k v m) = (map_of m)(k \<mapsto> v)"
  by (rule update_conv')

lemma set_map_entry: "p \<in> set (AList.map_entry k f m) \<Longrightarrow> \<exists>v. (fst p, v) \<in> set m \<and> (snd p = v \<or> snd p = f v)"
  by (cases p, induction m) (auto split: if_splits)

lemma update_new: "map_of m k = None \<Longrightarrow> AList.update k v m = m @ [(k, v)]"
  by (induction m) (auto split: if_splits)

lemma distinct_keys_delete: "distinct (keys m) \<Longrightarrow> distinct (keys (AList.delete k m))"
  by (rule distinct_delete)

lemma set_delete: "p \<in> set (AList.delete k m) \<longleftrightarrow> p \<in> set m \<and> fst p \<noteq> k"
  by (induction m) auto

lemma length_update:
  "length (AList.update k v m) = (if k \<in> set (keys m) then length m else Suc (length m))"
  by (induction m) auto

lemma length_delete_le: "length (AList.delete k m) \<le> length m"
  by (rule length_delete_le)

lemma sum_list_delete:
  fixes f :: "'k \<times> 'v \<Rightarrow> int"
  shows "distinct (keys m) \<Longrightarrow> map_of m k = Some v \<Longrightarrow>
    sum_list (map f (AList.delete k m)) = sum_list (map f m) - f (k, v)"
proof (induction m)
  case Nil
  then show ?case by simp
next
  case (Cons p m)
  obtain k' v' where p: "p = (k', v')" by fastforce
  show ?case
  proof (cases "k' = k")
    case True
    with Cons.prems p have "k \<notin> set (keys m)" and "v' = v" by auto
    moreover from \<open>k \<notin> set (keys m)\<close> have "AList.delete k m = m" by (simp add: delete_id)
    ultimately show ?thesis using True p by simp
  next
    case False
    with Cons p show ?thesis by simp
  qed
qed

lemma sum_list_update:
  fixes f :: "'k \<times> 'v \<Rightarrow> int"
  shows "distinct (keys m) \<Longrightarrow> map_of m k = Some v \<Longrightarrow>
    sum_list (map f (AList.update k w m)) = sum_list (map f m) - f (k, v) + f (k, w)"
  by (induction m) (auto split: if_splits)

lemma sum_list_update_new:
  fixes f :: "'k \<times> 'v \<Rightarrow> int"
  shows "map_of m k = None \<Longrightarrow>
    sum_list (map f (AList.update k w m)) = sum_list (map f m) + f (k, w)"
  by (induction m) (auto split: if_splits)

lemma map_of_in_set: "map_of m k = Some v \<Longrightarrow> (k, v) \<in> set m"
  by (rule map_of_SomeD)

lemma set_update_cases:
  "p \<in> set (AList.update k v m) \<Longrightarrow> p = (k, v) \<or> p \<in> set m"
  by (induction m) (auto split: if_splits)

lemma map_entry_eq_update:
  "map_of m k = Some v \<Longrightarrow> AList.map_entry k f m = AList.update k (f v) m"
  by (induction m) (auto split: if_splits)

lemma keys_map_entry [simp]: "keys (AList.map_entry k f m) = keys m"
  by (induction m) auto

lemma length_map_entry [simp]: "length (AList.map_entry k f m) = length m"
  by (induction m) auto

lemma map_of_map_entry':
  "map_of (AList.map_entry k f m) = (case map_of m k of None \<Rightarrow> map_of m | Some v \<Rightarrow> (map_of m)(k \<mapsto> f v))"
  by (cases "map_of m k") (auto simp: map_of_map_entry fun_eq_iff)

lemma map_entry_twice [simp]:
  "AList.map_entry k g (AList.map_entry k f m) = AList.map_entry k (\<lambda>v. g (f v)) m"
  by (induction m) auto

section \<open>Invariants of step relations\<close>

locale invariant_system =
  fixes start :: "'s \<Rightarrow> bool"
    and trans_step :: "'s \<Rightarrow> 's \<Rightarrow> bool"
    and inv :: "'s \<Rightarrow> bool"
  assumes inv_start: "start s \<Longrightarrow> inv s"
    and inv_step: "inv s \<Longrightarrow> trans_step s t \<Longrightarrow> inv t"
begin

lemma reachable_inv: "reachable start trans_step s \<Longrightarrow> inv s"
  by (induction rule: reachable.induct) (blast intro: inv_start inv_step)+

end

end
