(* ===== verification/JS_Number.thy ===== *)
theory JS_Number
  imports Bridge_Prelude "HOL-Library.Log_Nat"
begin

text \<open>
  JavaScript numbers (IEEE 754 binary64, a finite one by its exact rational value; the two
  zeroes are identified), the comparisons and the rounded arithmetic the code uses, the
  \<open>Number\<close> predicates, and the decimal text of a \<open>bigint\<close>.
\<close>

section \<open>Numbers\<close>

datatype number = NaN | NegInfinity | Num rat | Infinity

abbreviation NumI :: "int \<Rightarrow> number" where
  "NumI i \<equiv> Num (of_int i)"

text \<open>The exponent of the leading binary digit of a positive rational.\<close>

definition ilog2 :: "rat \<Rightarrow> int" where
  "ilog2 x =
     (let (a, b) = quotient_of x;
          k = int (floorlog 2 (nat a)) - int (floorlog 2 (nat b))
      in if 2 powi k \<le> x then k else k - 1)"

text \<open>Rounding to the nearest integer, a tie to the even one.\<close>

definition rne :: "rat \<Rightarrow> int" where
  "rne x =
     (let f = \<lfloor>x\<rfloor>; d = x - of_int f
      in if d < 1 / 2 then f else if 1 / 2 < d then f + 1 else if even f then f else f + 1)"

text \<open>
  Rounding to \<open>p\<close> significant bits with least exponent \<open>emin\<close>, and the number that results;
  the overflow threshold is \<open>2 ^ emax\<close>.
\<close>

definition fl :: "nat \<Rightarrow> int \<Rightarrow> rat \<Rightarrow> rat" where
  "fl p emin x =
     (if x = 0 then 0
      else let e = max (ilog2 \<bar>x\<bar> - (int p - 1)) emin
           in of_int (rne (x / 2 powi e)) * 2 powi e)"

definition to_ieee :: "nat \<Rightarrow> int \<Rightarrow> nat \<Rightarrow> rat \<Rightarrow> number" where
  "to_ieee p emin emax x =
     (let y = fl p emin x
      in if 2 ^ emax \<le> y then Infinity else if y \<le> - (2 ^ emax) then NegInfinity else Num y)"

definition to_double :: "rat \<Rightarrow> number" where
  "to_double x = to_ieee 53 (- 1074) 1024 x"

definition to_single :: "rat \<Rightarrow> number" where
  "to_single x = to_ieee 24 (- 149) 128 x"

text \<open>\<open>Math.fround\<close>\<close>

fun fround :: "number \<Rightarrow> number" where
  "fround (Num x) = to_single x"
| "fround n = n"

text \<open>\<open>a < b\<close> and \<open>a <= b\<close>; every comparison with \<open>NaN\<close> is false.\<close>

fun num_less :: "number \<Rightarrow> number \<Rightarrow> bool" where
  "num_less (Num x) (Num y) = (x < y)"
| "num_less NegInfinity (Num y) = True"
| "num_less NegInfinity Infinity = True"
| "num_less (Num x) Infinity = True"
| "num_less _ _ = False"

fun num_le :: "number \<Rightarrow> number \<Rightarrow> bool" where
  "num_le (Num x) (Num y) = (x \<le> y)"
| "num_le NegInfinity (Num y) = True"
| "num_le NegInfinity NegInfinity = True"
| "num_le NegInfinity Infinity = True"
| "num_le (Num x) Infinity = True"
| "num_le Infinity Infinity = True"
| "num_le _ _ = False"

fun num_add :: "number \<Rightarrow> number \<Rightarrow> number" where
  "num_add (Num x) (Num y) = to_double (x + y)"
| "num_add NaN _ = NaN"
| "num_add _ NaN = NaN"
| "num_add Infinity NegInfinity = NaN"
| "num_add NegInfinity Infinity = NaN"
| "num_add Infinity _ = Infinity"
| "num_add _ Infinity = Infinity"
| "num_add NegInfinity _ = NegInfinity"
| "num_add _ NegInfinity = NegInfinity"

fun num_neg :: "number \<Rightarrow> number" where
  "num_neg (Num x) = Num (- x)"
| "num_neg Infinity = NegInfinity"
| "num_neg NegInfinity = Infinity"
| "num_neg NaN = NaN"

definition num_sub :: "number \<Rightarrow> number \<Rightarrow> number" where
  "num_sub a b = num_add a (num_neg b)"

text \<open>Division of a positive number; the code divides by validated positive numbers only.\<close>

fun num_div :: "number \<Rightarrow> number \<Rightarrow> number" where
  "num_div (Num x) (Num y) =
     (if y \<noteq> 0 then to_double (x / y) else if 0 < x then Infinity else if x < 0 then NegInfinity else NaN)"
| "num_div (Num x) Infinity = Num 0"
| "num_div (Num x) NegInfinity = Num 0"
| "num_div Infinity (Num y) = (if y < 0 then NegInfinity else Infinity)"
| "num_div NegInfinity (Num y) = (if y < 0 then Infinity else NegInfinity)"
| "num_div _ _ = NaN"

section \<open>Predicates of Number\<close>

definition MAX_SAFE_INTEGER :: int where
  "MAX_SAFE_INTEGER = 9007199254740991"

fun isFinite :: "number \<Rightarrow> bool" where
  "isFinite (Num _) = True"
| "isFinite _ = False"

fun isInteger :: "number \<Rightarrow> bool" where
  "isInteger (Num x) = (of_int \<lfloor>x\<rfloor> = x)"
| "isInteger _ = False"

fun isSafeInteger :: "number \<Rightarrow> bool" where
  "isSafeInteger (Num x) = (of_int \<lfloor>x\<rfloor> = x \<and> \<bar>\<lfloor>x\<rfloor>\<bar> \<le> MAX_SAFE_INTEGER)"
| "isSafeInteger _ = False"

text \<open>The integer a validated number stands for.\<close>

fun num_int :: "number \<Rightarrow> int" where
  "num_int (Num x) = \<lfloor>x\<rfloor>"
| "num_int _ = 0"

section \<open>Decimal text of integers\<close>

definition digit :: "nat \<Rightarrow> char" where
  "digit d = char_of (48 + d)"

fun show_nat :: "nat \<Rightarrow> string" where
  "show_nat n = (if n < 10 then [digit n] else show_nat (n div 10) @ [digit (n mod 10)])"

definition show_int :: "int \<Rightarrow> string" where
  "show_int i = (if i < 0 then CHR ''-'' # show_nat (nat (- i)) else show_nat (nat i))"

text \<open>\<open>BigInt(text)\<close> of a string of decimal digits.\<close>

definition digit_value :: "16 word \<Rightarrow> nat" where
  "digit_value c = unat c - 48"

definition read_nat :: "ustring \<Rightarrow> nat" where
  "read_nat s = foldl (\<lambda>n c. 10 * n + digit_value c) 0 s"

definition is_digit :: "16 word \<Rightarrow> bool" where
  "is_digit c \<longleftrightarrow> 48 \<le> unat c \<and> unat c \<le> 57"

section \<open>Lemmas\<close>

declare show_nat.simps [simp del]

lemma isSafeInteger_iff:
  "isSafeInteger n \<longleftrightarrow> (\<exists>i. n = NumI i \<and> \<bar>i\<bar> \<le> MAX_SAFE_INTEGER)"
proof (cases n)
  case (Num x)
  then show ?thesis by (auto intro: exI [of _ "\<lfloor>x\<rfloor>"])
qed auto

lemma isSafeInteger_NumI [simp]: "isSafeInteger (NumI i) \<longleftrightarrow> \<bar>i\<bar> \<le> MAX_SAFE_INTEGER"
  by simp

lemma isSafeInteger_finite: "isSafeInteger n \<Longrightarrow> isFinite n"
  by (cases n) auto

lemma isFinite_iff: "isFinite n \<longleftrightarrow> (\<exists>x. n = Num x)"
  by (cases n) auto

lemma num_less_irrefl [simp]: "\<not> num_less a a"
  by (cases a) auto

lemma num_less_trans: "num_less a b \<Longrightarrow> num_less b c \<Longrightarrow> num_less a c"
  by (cases a; cases b; cases c) auto

lemma num_le_trans: "num_le a b \<Longrightarrow> num_le b c \<Longrightarrow> num_le a c"
  by (cases a; cases b; cases c) auto

lemma num_le_less_trans: "num_le a b \<Longrightarrow> num_less b c \<Longrightarrow> num_less a c"
  by (cases a; cases b; cases c) auto

lemma num_less_le_trans: "num_less a b \<Longrightarrow> num_le b c \<Longrightarrow> num_less a c"
  by (cases a; cases b; cases c) auto

lemma num_less_imp_le: "num_less a b \<Longrightarrow> num_le a b"
  by (cases a; cases b) auto

lemma num_not_less: "a \<noteq> NaN \<Longrightarrow> b \<noteq> NaN \<Longrightarrow> \<not> num_less a b \<longleftrightarrow> num_le b a"
  by (cases a; cases b) auto

lemma num_le_refl [simp]: "a \<noteq> NaN \<Longrightarrow> num_le a a"
  by (cases a) auto

subsection \<open>The leading binary digit\<close>

lemma ilog2_bounds:
  assumes "0 < x"
  shows "2 powi ilog2 x \<le> x" and "x < 2 powi (ilog2 x + 1)"
proof -
  obtain a b where ab: "quotient_of x = (a, b)" by fastforce
  have b: "0 < b" using quotient_of_denom_pos [OF ab] .
  have x: "x = of_int a / of_int b" using quotient_of_div [OF ab] .
  have a: "0 < a" using assms b by (simp add: x zero_less_divide_iff)
  define la lb where "la = floorlog 2 (nat a)" and "lb = floorlog 2 (nat b)"
  have bits: "2 ^ (floorlog 2 n - 1) \<le> n" "n < 2 ^ floorlog 2 n" "0 < floorlog 2 n"
    if "0 < n" for n :: nat
    using floorlog_bounds [of n 2] that by (cases "floorlog 2 n"; simp)+
  have a1: "2 powi (int la - 1) \<le> (of_int a :: rat)" and a2: "of_int a < (2 powi int la :: rat)"
  proof -
    have "(of_nat (2 ^ (la - 1)) :: rat) \<le> of_nat (nat a)"
      using bits(1) [of "nat a"] a unfolding la_def of_nat_le_iff by simp
    moreover have "int la - 1 = int (la - 1)" using bits(3) [of "nat a"] a by (simp add: la_def)
    ultimately show "2 powi (int la - 1) \<le> (of_int a :: rat)" using a by (simp del: of_nat_diff)
    have "(of_nat (nat a) :: rat) < of_nat (2 ^ la)"
      using bits(2) [of "nat a"] a unfolding la_def of_nat_less_iff by simp
    then show "of_int a < (2 powi int la :: rat)" using a by simp
  qed
  have b1: "2 powi (int lb - 1) \<le> (of_int b :: rat)" and b2: "of_int b < (2 powi int lb :: rat)"
  proof -
    have "(of_nat (2 ^ (lb - 1)) :: rat) \<le> of_nat (nat b)"
      using bits(1) [of "nat b"] b unfolding lb_def of_nat_le_iff by simp
    moreover have "int lb - 1 = int (lb - 1)" using bits(3) [of "nat b"] b by (simp add: lb_def)
    ultimately show "2 powi (int lb - 1) \<le> (of_int b :: rat)" using b by (simp del: of_nat_diff)
    have "(of_nat (nat b) :: rat) < of_nat (2 ^ lb)"
      using bits(2) [of "nat b"] b unfolding lb_def of_nat_less_iff by simp
    then show "of_int b < (2 powi int lb :: rat)" using b by simp
  qed
  have lo: "2 powi (int la - int lb - 1) \<le> x"
  proof -
    have "2 powi (int la - int lb - 1) = (2 powi (int la - 1) / 2 powi int lb :: rat)"
      by (simp add: power_int_diff power_int_minus field_simps power_int_add)
    also have "\<dots> \<le> of_int a / of_int b"
      using a a1 b2 b by (intro frac_le) auto
    finally show ?thesis by (simp add: x)
  qed
  have hi: "x < 2 powi (int la - int lb + 1)"
  proof -
    have "of_int a / of_int b < (2 powi int la / 2 powi (int lb - 1) :: rat)"
      using a2 b1 a by (intro frac_less) auto
    also have "\<dots> = 2 powi (int la - int lb + 1)"
      by (simp add: power_int_diff power_int_add field_simps)
    finally show ?thesis by (simp add: x)
  qed
  have eq: "ilog2 x = (if 2 powi (int la - int lb) \<le> x then int la - int lb else int la - int lb - 1)"
    by (simp add: ilog2_def ab la_def lb_def)
  from lo hi show "2 powi ilog2 x \<le> x" and "x < 2 powi (ilog2 x + 1)"
    unfolding eq by (auto simp: not_le)
qed

subsection \<open>Rounding\<close>

lemma rne_of_int [simp]: "rne (of_int i) = i"
  by (simp add: rne_def)

lemma rne_bounds: "\<lfloor>x\<rfloor> \<le> rne x" "rne x \<le> \<lfloor>x\<rfloor> + 1"
  by (simp_all add: rne_def Let_def)

lemma rne_mono: "x \<le> y \<Longrightarrow> rne x \<le> rne y"
proof -
  assume xy: "x \<le> y"
  then have f: "\<lfloor>x\<rfloor> \<le> \<lfloor>y\<rfloor>" by (rule floor_mono)
  show ?thesis
  proof (cases "\<lfloor>x\<rfloor> = \<lfloor>y\<rfloor>")
    case True
    with xy show ?thesis by (simp add: rne_def Let_def)
  next
    case False
    with f have "\<lfloor>x\<rfloor> + 1 \<le> \<lfloor>y\<rfloor>" by simp
    with rne_bounds(2) [of x] rne_bounds(1) [of y] show ?thesis by linarith
  qed
qed

lemma rne_ge_int: "of_int i \<le> x \<Longrightarrow> i \<le> rne x"
  using rne_mono [of "of_int i" x] by simp

lemma rne_le_int: "x \<le> of_int i \<Longrightarrow> rne x \<le> i"
  using rne_mono [of x "of_int i"] by simp

text \<open>A value on the grid of its own exponent is not changed.\<close>

lemma fl_exact:
  assumes "x = of_int i * 2 powi k"
    and "ilog2 \<bar>x\<bar> - (int p - 1) \<le> k" and "emin \<le> k"
  shows "fl p emin x = x"
proof (cases "x = 0")
  case False
  define e where "e = max (ilog2 \<bar>x\<bar> - (int p - 1)) emin"
  have ek: "e \<le> k" using assms by (simp add: e_def)
  have "x / 2 powi e = of_int i * 2 powi (k - e)"
    by (simp add: assms(1) power_int_diff)
  also have "\<dots> = of_int (i * 2 ^ nat (k - e))"
    using ek by (simp add: power_int_def)
  finally have "of_int (rne (x / 2 powi e)) = x / 2 powi e" by (simp only: rne_of_int)
  with False show ?thesis by (simp add: fl_def Let_def flip: e_def)
qed (simp add: fl_def)

lemma ilog2_less:
  assumes "0 < x" and "x < 2 powi k"
  shows "ilog2 x < k"
proof -
  have "2 powi ilog2 x < (2 :: rat) powi k"
    using ilog2_bounds(1) [OF assms(1)] assms(2) by linarith
  then show ?thesis
    by (metis not_le power_int_increasing one_le_numeral)
qed

lemma to_double_int:
  assumes "\<bar>i\<bar> \<le> 9007199254740992"
  shows "to_double (of_int i) = NumI i"
proof -
  have "fl 53 (- 1074) (of_int i) = of_int i"
  proof (cases "\<bar>i\<bar> = 9007199254740992")
    case True
    have "(of_int i :: rat) = of_int (sgn i) * 2 powi 53"
      using True by (cases "0 \<le> i") auto
    moreover have "ilog2 \<bar>of_int i\<bar> < 54"
      by (rule ilog2_less) (use True in \<open>auto simp flip: of_int_abs\<close>)
    ultimately show ?thesis by (intro fl_exact [where k = 53]) auto
  next
    case False
    show ?thesis
    proof (cases "i = 0")
      case nz: False
      from False assms have "\<bar>i\<bar> < 2 ^ 53" by simp
      then have "\<bar>of_int i :: rat\<bar> < of_int (2 ^ 53)" unfolding of_int_abs [symmetric] of_int_less_iff .
      then have "ilog2 \<bar>of_int i\<bar> < 53"
        using nz by (intro ilog2_less) auto
      then show ?thesis by (intro fl_exact [where i = i and k = 0]) auto
    qed (simp add: fl_def)
  qed
  moreover have "\<bar>of_int i :: rat\<bar> < 2 ^ 1024"
  proof -
    have "\<bar>of_int i :: rat\<bar> \<le> of_int 9007199254740992"
      using assms unfolding of_int_abs [symmetric] of_int_le_iff .
    also have "\<dots> < 2 ^ 54" by simp
    also have "\<dots> < (2 :: rat) ^ 1024" by (rule power_strict_increasing) auto
    finally show ?thesis .
  qed
  ultimately show ?thesis by (auto simp: to_double_def to_ieee_def Let_def abs_less_iff)
qed

lemma num_add_int:
  "\<bar>i + j\<bar> \<le> 9007199254740992 \<Longrightarrow> num_add (NumI i) (NumI j) = NumI (i + j)"
  using to_double_int [of "i + j"] by simp

lemma rne_minus: "rne (- x) = - rne x"
proof (cases "of_int \<lfloor>x\<rfloor> = x")
  case True
  then obtain i where "x = of_int i" by metis
  then show ?thesis using rne_of_int [of "- i"] by simp
next
  case False
  then have f: "\<lfloor>- x\<rfloor> = - \<lfloor>x\<rfloor> - 1" by (intro floor_unique) linarith+
  show ?thesis unfolding rne_def Let_def f by auto
qed

lemma fl_minus: "fl p emin (- x) = - fl p emin x"
  by (simp add: fl_def Let_def rne_minus)

lemma fl_nonneg: "0 \<le> x \<Longrightarrow> 0 \<le> fl p emin x"
  using rne_ge_int [of 0 "x / _"] by (simp add: fl_def Let_def)

lemma ilog2_mono: "0 < x \<Longrightarrow> x \<le> y \<Longrightarrow> ilog2 x \<le> ilog2 y"
  using ilog2_bounds(2) [of y] by (intro zle_add1_eq_le [THEN iffD1] ilog2_less) linarith+

lemma fl_mono_pos:
  assumes "0 < x" and "x \<le> y" and "0 < p"
  shows "fl p emin x \<le> fl p emin y"
proof -
  define ex where "ex = max (ilog2 x - (int p - 1)) emin"
  define ey where "ey = max (ilog2 y - (int p - 1)) emin"
  have fx: "fl p emin x = of_int (rne (x / 2 powi ex)) * 2 powi ex"
    and fy: "fl p emin y = of_int (rne (y / 2 powi ey)) * 2 powi ey"
    using assms by (simp_all add: fl_def Let_def ex_def ey_def)
  have exy: "ex \<le> ey" using ilog2_mono [OF assms(1,2)] by (auto simp: ex_def ey_def)
  show ?thesis
  proof (cases "ex = ey")
    case True
    have "rne (x / 2 powi ex) \<le> rne (y / 2 powi ex)"
      using assms by (intro rne_mono divide_right_mono) auto
    then show ?thesis by (simp add: fx fy True [symmetric])
  next
    case False
    with exy have lt: "ex < ey" by simp
    then have ey: "ey = ilog2 y - (int p - 1)" by (auto simp: ey_def ex_def)
    have "ilog2 x - (int p - 1) \<le> ex" by (simp add: ex_def)
    then have "x < 2 powi (ex + int p)"
      using ilog2_bounds(2) [OF assms(1)] power_int_increasing [of "ilog2 x + 1" "ex + int p" "2 :: rat"]
      by simp
    then have "x / 2 powi ex \<le> 2 powi int p" by (simp add: power_int_add field_simps)
    then have "x / 2 powi ex \<le> of_int (2 ^ p)" by simp
    then have "rne (x / 2 powi ex) \<le> 2 ^ p" by (rule rne_le_int)
    then have "(of_int (rne (x / 2 powi ex)) :: rat) \<le> of_int (2 ^ p)" unfolding of_int_le_iff .
    then have "fl p emin x \<le> of_int (2 ^ p) * 2 powi ex" unfolding fx by (intro mult_right_mono) auto
    also have "\<dots> = 2 powi (ex + int p)" by (simp add: power_int_add mult.commute)
    also have "\<dots> \<le> 2 powi (ey + int p - 1)" using lt by (intro power_int_increasing) auto
    also have "\<dots> = of_int (2 ^ (p - 1)) * 2 powi ey"
      using assms(3) by (cases p) (simp_all add: power_int_add mult.commute)
    also have "\<dots> \<le> fl p emin y"
    proof -
      have "2 powi (ey + int p - 1) \<le> y"
        using ilog2_bounds(1) [of y] assms by (simp add: ey algebra_simps)
      then have "of_int (2 ^ (p - 1)) \<le> y / 2 powi ey"
        using assms(3) by (cases p) (simp_all add: power_int_add field_simps)
      then have "2 ^ (p - 1) \<le> rne (y / 2 powi ey)" by (rule rne_ge_int)
      then have "(of_int (2 ^ (p - 1)) :: rat) \<le> of_int (rne (y / 2 powi ey))" unfolding of_int_le_iff .
      then show ?thesis unfolding fy by (intro mult_right_mono) auto
    qed
    finally show ?thesis .
  qed
qed

lemma fl_mono:
  assumes "x \<le> y" and "0 < p"
  shows "fl p emin x \<le> fl p emin y"
proof (cases "0 < x")
  case True
  then show ?thesis using assms by (intro fl_mono_pos)
next
  case x: False
  show ?thesis
  proof (cases "y < 0")
    case True
    then have "fl p emin (- y) \<le> fl p emin (- x)" using assms by (intro fl_mono_pos) auto
    then show ?thesis by (simp add: fl_minus)
  next
    case False
    have "0 \<le> fl p emin (- x)" using x by (intro fl_nonneg) simp
    moreover have "0 \<le> fl p emin y" using False by (intro fl_nonneg) simp
    ultimately show ?thesis by (simp add: fl_minus)
  qed
qed

lemma to_double_mono: "x \<le> y \<Longrightarrow> num_le (to_double x) (to_double y)"
  using fl_mono [of x y 53 "- 1074"] by (auto simp: to_double_def to_ieee_def Let_def)

lemma to_double_not_NaN [simp]: "to_double x \<noteq> NaN"
  by (simp add: to_double_def to_ieee_def Let_def)

subsection \<open>Rounding twice, and the rounding error\<close>

lemma rne_error: "\<bar>of_int (rne x) - x\<bar> \<le> 1 / 2"
  unfolding rne_def Let_def by (auto simp: abs_if) linarith+

lemma fl_error:
  assumes "0 < x" and "ilog2 x - (int p - 1) \<le> e" and "emin \<le> e"
  shows "\<bar>fl p emin x - x\<bar> \<le> 2 powi e / 2"
proof -
  define k where "k = max (ilog2 x - (int p - 1)) emin"
  have ke: "k \<le> e" using assms by (simp add: k_def)
  have "fl p emin x - x = (of_int (rne (x / 2 powi k)) - x / 2 powi k) * 2 powi k"
    using assms(1) by (simp add: fl_def Let_def left_diff_distrib flip: k_def)
  then have "\<bar>fl p emin x - x\<bar> = \<bar>of_int (rne (x / 2 powi k)) - x / 2 powi k\<bar> * 2 powi k"
    by (simp add: abs_mult)
  also have "\<dots> \<le> 1 / 2 * 2 powi k" by (intro mult_right_mono rne_error) auto
  also have "\<dots> \<le> 2 powi e / 2" using power_int_increasing [OF ke, of "2 :: rat"] by simp
  finally show ?thesis .
qed

lemma fl_idem_pos:
  assumes "0 < x" and "0 < p"
  shows "fl p emin (fl p emin x) = fl p emin x"
proof -
  define e m where "e = max (ilog2 x - (int p - 1)) emin" and "m = rne (x / 2 powi e)"
  have y: "fl p emin x = of_int m * 2 powi e" using assms by (simp add: fl_def Let_def e_def m_def)
  have "ilog2 x + 1 \<le> e + int p" by (simp add: e_def)
  then have "x < 2 powi (e + int p)"
    using ilog2_bounds(2) [OF assms(1)] power_int_increasing [of "ilog2 x + 1" "e + int p" "2 :: rat"] by simp
  then have "x / 2 powi e \<le> of_int (2 ^ p)" by (simp add: power_int_add field_simps)
  then have m: "m \<le> 2 ^ p" unfolding m_def by (rule rne_le_int)
  have "0 \<le> m" unfolding m_def using assms by (intro rne_ge_int) simp
  then consider "m = 0" | "0 < m" "m < 2 ^ p" | "m = 2 ^ p" using m by linarith
  then show ?thesis
  proof cases
    case 1
    then have "fl p emin x = 0" by (simp add: y)
    then show ?thesis by (simp only:) (simp add: fl_def)
  next
    case 2
    then have "(of_int m :: rat) < of_int (2 ^ p)" by (simp only: of_int_less_iff)
    then have "(of_int m :: rat) * 2 powi e < 2 powi (int p) * 2 powi e"
      by (intro mult_strict_right_mono) auto
    also have "\<dots> = 2 powi (int p + e)" by (simp add: power_int_add)
    finally have "ilog2 (of_int m * 2 powi e) < int p + e" using 2 by (intro ilog2_less) auto
    moreover have "\<bar>of_int m * 2 powi e :: rat\<bar> = of_int m * 2 powi e" using 2 by simp
    ultimately show ?thesis
      unfolding y by (intro fl_exact [where i = m and k = e]) (auto simp: e_def)
  next
    case 3
    then have eq: "of_int m * 2 powi e = (2 :: rat) powi (int p + e)" by (simp add: power_int_add)
    have "(2 :: rat) powi (int p + e) < 2 powi (int p + e + 1)" by (rule power_int_strict_increasing) auto
    then have "ilog2 (2 powi (int p + e)) < int p + e + 1" by (intro ilog2_less) auto
    with assms(2) show ?thesis
      unfolding y eq by (intro fl_exact [where i = 1 and k = "int p + e"]) (auto simp: e_def)
  qed
qed

lemma fl_idem: "0 < p \<Longrightarrow> fl p emin (fl p emin x) = fl p emin x"
proof (cases x "0 :: rat" rule: linorder_cases)
  case less
  assume "0 < p"
  with less have "fl p emin (fl p emin (- x)) = fl p emin (- x)" by (intro fl_idem_pos) auto
  then show ?thesis by (simp add: fl_minus)
qed (simp_all add: fl_idem_pos, simp add: fl_def)

lemma fround_idem: "fround (fround n) = fround n"
proof (cases n)
  case (Num x)
  then show ?thesis by (auto simp: to_single_def to_ieee_def Let_def fl_idem)
qed simp_all

subsection \<open>Decimal text\<close>

lemma of_char_digit: "d < 10 \<Longrightarrow> of_char (digit d) = 48 + d"
  by (simp add: digit_def)

lemma digit_0: "digit 0 = CHR ''0''"
proof -
  have "of_char (digit 0) = (of_char (CHR ''0'') :: nat)" by (simp add: of_char_digit)
  then show ?thesis by (simp only: of_char_eq_iff)
qed

lemma digit_value_digit: "d < 10 \<Longrightarrow> digit_value (code_unit (digit d)) = d"
  by (simp add: digit_value_def unat_code_unit of_char_digit)

lemma is_digit_digit: "d < 10 \<Longrightarrow> is_digit (code_unit (digit d))"
  by (simp add: is_digit_def unat_code_unit of_char_digit)

lemma read_nat_snoc: "read_nat (s @ [c]) = 10 * read_nat s + digit_value c"
  by (simp add: read_nat_def)

lemma read_show_nat [simp]: "read_nat (ustr (show_nat n)) = n"
proof (induction n rule: show_nat.induct)
  case (1 n)
  show ?case
  proof (cases "n < 10")
    case True
    then show ?thesis
      by (simp add: show_nat.simps [of n] ustr_def read_nat_def digit_value_digit)
  next
    case False
    then have "ustr (show_nat n) = ustr (show_nat (n div 10)) @ [code_unit (digit (n mod 10))]"
      by (subst show_nat.simps) (simp add: ustr_def)
    with "1.IH" False show ?thesis by (simp add: read_nat_snoc digit_value_digit)
  qed
qed

lemma show_nat_inject [simp]: "show_nat m = show_nat n \<longleftrightarrow> m = n"
  by (metis read_show_nat)

lemma show_nat_digits: "list_all is_digit (ustr (show_nat n))"
proof (induction n rule: show_nat.induct)
  case (1 n)
  then show ?case
    by (subst show_nat.simps) (auto simp: ustr_def is_digit_digit)
qed

lemma show_nat_not_Nil [simp]: "show_nat n \<noteq> []"
  by (subst show_nat.simps) simp

lemma hd_show_nat: "0 < n \<Longrightarrow> hd (show_nat n) \<noteq> CHR ''0''"
proof (induction n rule: show_nat.induct)
  case (1 n)
  show ?case
  proof (cases "n < 10")
    case True
    with "1.prems" have "of_char (digit n) \<noteq> (of_char (CHR ''0'') :: nat)"
      by (simp add: of_char_digit)
    then have "digit n \<noteq> CHR ''0''" by metis
    with True show ?thesis by (simp add: show_nat.simps [of n])
  next
    case False
    with "1.IH" have "hd (show_nat (n div 10)) \<noteq> CHR ''0''" by simp
    with False show ?thesis by (subst show_nat.simps) simp
  qed
qed

lemma length_show_nat: "n < 10 ^ k \<Longrightarrow> 0 < k \<Longrightarrow> length (show_nat n) \<le> k"
proof (induction n arbitrary: k rule: show_nat.induct)
  case (1 n)
  show ?case
  proof (cases "n < 10")
    case True
    with "1.prems" show ?thesis by (simp add: show_nat.simps [of n])
  next
    case False
    with "1.prems" obtain j where k: "k = Suc j" and j: "0 < j"
      by (cases k; cases "k - 1") auto
    from "1.prems" k have "n div 10 < 10 ^ j" by (simp add: div_less_iff_less_mult mult.commute)
    with "1.IH" False j have "length (show_nat (n div 10)) \<le> j" by simp
    with False k show ?thesis by (subst show_nat.simps) simp
  qed
qed

lemma code_unit_digit_value: "is_digit c \<Longrightarrow> code_unit (digit (digit_value c)) = c"
proof -
  assume c: "is_digit c"
  then have "unat (code_unit (digit (digit_value c))) = unat c"
    using of_char_digit [of "unat c - 48"] by (auto simp: is_digit_def digit_value_def unat_code_unit)
  then show ?thesis by (simp only: unsigned_word_eqI)
qed

lemma digit_value_less: "is_digit c \<Longrightarrow> digit_value c < 10"
  by (auto simp: is_digit_def digit_value_def)

lemma read_nat_pos: "list_all is_digit s \<Longrightarrow> s \<noteq> [] \<Longrightarrow> hd s \<noteq> code_unit (CHR ''0'') \<Longrightarrow> 0 < read_nat s"
proof (induction s rule: rev_induct)
  case Nil
  then show ?case by simp
next
  case (snoc c s)
  show ?case
  proof (cases "s = []")
    case True
    have "digit_value c \<noteq> 0"
    proof
      assume "digit_value c = 0"
      with code_unit_digit_value [of c] snoc.prems have "c = code_unit (CHR ''0'')"
        by (simp add: digit_0)
      with True snoc.prems show False by simp
    qed
    with True show ?thesis by (simp add: read_nat_def)
  next
    case False
    with snoc have "0 < read_nat s" by simp
    then show ?thesis by (simp add: read_nat_snoc)
  qed
qed

text \<open>A digit string without a leading zero is the text of its value.\<close>

lemma show_read_nat:
  assumes "list_all is_digit s" and "s \<noteq> []" and "hd s = code_unit (CHR ''0'') \<longrightarrow> length s = 1"
  shows "ustr (show_nat (read_nat s)) = s"
  using assms
proof (induction s rule: rev_induct)
  case Nil
  then show ?case by simp
next
  case (snoc c s)
  have c: "is_digit c" using snoc.prems by simp
  show ?case
  proof (cases "s = []")
    case True
    have "read_nat (s @ [c]) = digit_value c" by (simp add: True read_nat_def)
    with c True show ?thesis
      by (simp add: show_nat.simps [of "digit_value c"] digit_value_less ustr_def code_unit_digit_value)
  next
    case False
    with snoc.prems have nz: "hd s \<noteq> code_unit (CHR ''0'')" by auto
    with snoc False have IH: "ustr (show_nat (read_nat s)) = s" by auto
    from nz snoc.prems False have "0 < read_nat s" by (intro read_nat_pos) auto
    then have "show_nat (10 * read_nat s + digit_value c) = show_nat (read_nat s) @ [digit (digit_value c)]"
      using digit_value_less [OF c] by (subst show_nat.simps) simp
    with IH c show ?thesis by (simp add: read_nat_snoc ustr_append ustr_Cons code_unit_digit_value)
  qed
qed

end
