(* ===== verification/JS_Regex.thy ===== *)
theory JS_Regex
  imports JS_Number
begin

text \<open>
  The anchored regular expressions of the source, \<open>/^...$/\<close>, as a datatype with an executable
  matcher by derivatives, its agreement with the declarative reading of the expression, and the
  shapes the validators use.
\<close>

section \<open>Expressions and the matcher\<close>

datatype (dead 'a) rx =
    RNone
  | REps
  | RSet "'a \<Rightarrow> bool"
  | RSeq "'a rx" "'a rx"
  | RAlt "'a rx" "'a rx"
  | RStar "'a rx"
  | RRep nat nat "'a rx"

inductive rx_in :: "'a list \<Rightarrow> 'a rx \<Rightarrow> bool" where
  in_eps: "rx_in [] REps"
| in_set: "p c \<Longrightarrow> rx_in [c] (RSet p)"
| in_seq: "rx_in s a \<Longrightarrow> rx_in t b \<Longrightarrow> rx_in (s @ t) (RSeq a b)"
| in_alt1: "rx_in s a \<Longrightarrow> rx_in s (RAlt a b)"
| in_alt2: "rx_in s b \<Longrightarrow> rx_in s (RAlt a b)"
| in_star0: "rx_in [] (RStar a)"
| in_star: "rx_in s a \<Longrightarrow> rx_in t (RStar a) \<Longrightarrow> rx_in (s @ t) (RStar a)"
| in_rep0: "rx_in [] (RRep 0 n a)"
| in_rep: "rx_in s a \<Longrightarrow> rx_in t (RRep (m - 1) n a) \<Longrightarrow> rx_in (s @ t) (RRep m (Suc n) a)"

fun nullable :: "'a rx \<Rightarrow> bool" where
  "nullable RNone = False"
| "nullable REps = True"
| "nullable (RSet p) = False"
| "nullable (RSeq a b) = (nullable a \<and> nullable b)"
| "nullable (RAlt a b) = (nullable a \<or> nullable b)"
| "nullable (RStar a) = True"
| "nullable (RRep m n a) = (m = 0 \<or> (nullable a \<and> m \<le> n))"

fun mkSeq :: "'a rx \<Rightarrow> 'a rx \<Rightarrow> 'a rx" where
  "mkSeq RNone b = RNone"
| "mkSeq REps b = b"
| "mkSeq a b = RSeq a b"

fun mkAlt :: "'a rx \<Rightarrow> 'a rx \<Rightarrow> 'a rx" where
  "mkAlt RNone b = b"
| "mkAlt a RNone = a"
| "mkAlt a b = RAlt a b"

fun deriv :: "'a \<Rightarrow> 'a rx \<Rightarrow> 'a rx" where
  "deriv c RNone = RNone"
| "deriv c REps = RNone"
| "deriv c (RSet p) = (if p c then REps else RNone)"
| "deriv c (RSeq a b) =
     (if nullable a then mkAlt (mkSeq (deriv c a) b) (deriv c b) else mkSeq (deriv c a) b)"
| "deriv c (RAlt a b) = mkAlt (deriv c a) (deriv c b)"
| "deriv c (RStar a) = mkSeq (deriv c a) (RStar a)"
| "deriv c (RRep m n a) =
     (case n of 0 \<Rightarrow> RNone | Suc k \<Rightarrow> mkSeq (deriv c a) (RRep (m - 1) k a))"

fun rx_match :: "'a rx \<Rightarrow> 'a list \<Rightarrow> bool" where
  "rx_match r [] = nullable r"
| "rx_match r (c # s) = rx_match (deriv c r) s"

section \<open>Character classes\<close>

text \<open>The classes of the source, on code units: a range, a single character, \<open>[A-Za-z]\<close> and so on.\<close>

definition range_cls :: "nat \<Rightarrow> nat \<Rightarrow> 16 word \<Rightarrow> bool" where
  "range_cls lo hi c \<longleftrightarrow> lo \<le> unat c \<and> unat c \<le> hi"

definition char_cls :: "char \<Rightarrow> 16 word \<Rightarrow> bool" where
  "char_cls d c \<longleftrightarrow> c = code_unit d"

definition digit_cls :: "16 word \<Rightarrow> bool" where
  "digit_cls c \<longleftrightarrow> range_cls 48 57 c"

definition alpha_cls :: "16 word \<Rightarrow> bool" where
  "alpha_cls c \<longleftrightarrow> range_cls 65 90 c \<or> range_cls 97 122 c"

definition alnum_cls :: "16 word \<Rightarrow> bool" where
  "alnum_cls c \<longleftrightarrow> alpha_cls c \<or> digit_cls c"

definition one_of :: "string \<Rightarrow> 16 word \<Rightarrow> bool" where
  "one_of ds c \<longleftrightarrow> list_ex (\<lambda>d. char_cls d c) ds"

text \<open>A literal text.\<close>

fun rlit :: "string \<Rightarrow> 16 word rx" where
  "rlit [] = REps"
| "rlit (d # ds) = RSeq (RSet (char_cls d)) (rlit ds)"

text \<open>\<open>a+\<close> and \<open>a?\<close>\<close>

definition rplus :: "'a rx \<Rightarrow> 'a rx" where
  "rplus a = RSeq a (RStar a)"

definition ropt :: "'a rx \<Rightarrow> 'a rx" where
  "ropt a = RAlt a REps"

section \<open>The matcher decides the expression\<close>

inductive_simps in_none [simp]: "rx_in s RNone"
inductive_simps in_eps_iff [simp]: "rx_in s REps"
inductive_simps in_set_iff [simp]: "rx_in s (RSet p)"
inductive_simps in_seq_iff: "rx_in s (RSeq a b)"
inductive_simps in_alt_iff [simp]: "rx_in s (RAlt a b)"
inductive_simps in_rep_iff: "rx_in s (RRep m n a)"
inductive_cases in_starE: "rx_in s (RStar a)"

lemma in_mkSeq [simp]: "rx_in s (mkSeq a b) \<longleftrightarrow> rx_in s (RSeq a b)"
  by (cases a) (simp_all add: in_seq_iff)

lemma in_mkAlt [simp]: "rx_in s (mkAlt a b) \<longleftrightarrow> rx_in s (RAlt a b)"
  by (cases a; cases b) simp_all

lemma rep_all_eps: "rx_in [] a \<Longrightarrow> m \<le> n \<Longrightarrow> rx_in [] (RRep m n a)"
proof (induction n arbitrary: m)
  case 0
  then show ?case by (simp add: in_rep0)
next
  case (Suc n)
  then show ?case
    using in_rep [of "[]" a "[]" m n] by (cases m) (auto intro: in_rep0)
qed

lemma in_rep_bounds: "rx_in s (RRep m n a) \<Longrightarrow> m \<le> n"
proof (induction n arbitrary: s m)
  case 0
  then show ?case by (auto simp: in_rep_iff [of s])
next
  case (Suc n)
  from Suc.prems show ?case
    by (subst (asm) in_rep_iff) (auto dest: Suc.IH)
qed

lemma nullable_iff: "nullable r \<longleftrightarrow> rx_in [] r"
proof (induction r)
  case (RRep m n a)
  show ?case
  proof
    assume "nullable (RRep m n a)"
    then show "rx_in [] (RRep m n a)"
      using RRep.IH rep_all_eps by (auto intro: in_rep0)
  next
    assume r: "rx_in [] (RRep m n a)"
    then have "m \<le> n" by (rule in_rep_bounds)
    moreover from r have "m = 0 \<or> rx_in [] a" by (subst (asm) in_rep_iff) auto
    ultimately show "nullable (RRep m n a)" using RRep.IH by auto
  qed
qed (auto simp: in_seq_iff intro: in_star0)

lemma in_star_Cons: "rx_in (c # s) (RStar a) \<longleftrightarrow> (\<exists>t v. s = t @ v \<and> rx_in (c # t) a \<and> rx_in v (RStar a))"
proof
  assume "rx_in (c # s) (RStar a)"
  then show "\<exists>t v. s = t @ v \<and> rx_in (c # t) a \<and> rx_in v (RStar a)"
    by (induction "c # s" "RStar a" arbitrary: s rule: rx_in.induct)
      (auto simp: append_eq_Cons_conv Cons_eq_append_conv)
next
  assume "\<exists>t v. s = t @ v \<and> rx_in (c # t) a \<and> rx_in v (RStar a)"
  then show "rx_in (c # s) (RStar a)"
    using in_star [of "c # _" a] by fastforce
qed

lemma in_rep_Cons:
  "rx_in (c # s) (RRep m (Suc n) a) \<longleftrightarrow>
     (\<exists>t v. s = t @ v \<and> rx_in (c # t) a \<and> rx_in v (RRep (m - 1) n a))"
proof
  assume "rx_in (c # s) (RRep m (Suc n) a)"
  then show "\<exists>t v. s = t @ v \<and> rx_in (c # t) a \<and> rx_in v (RRep (m - 1) n a)"
  proof (induction n arbitrary: m)
    case 0
    from 0 show ?case
      by (subst (asm) in_rep_iff)
        (auto simp: Cons_eq_append_conv in_rep_iff [where n = 0])
  next
    case (Suc n)
    from Suc.prems obtain x y where xy: "c # s = x @ y" "rx_in x a" "rx_in y (RRep (m - 1) (Suc n) a)"
      by (subst (asm) in_rep_iff) auto
    show ?case
    proof (cases x)
      case Nil
      with xy have "rx_in (c # s) (RRep (m - 1) (Suc n) a)" by simp
      then obtain t v where tv: "s = t @ v" "rx_in (c # t) a" "rx_in v (RRep (m - 1 - 1) n a)"
        using Suc.IH by blast
      have "rx_in v (RRep (m - 1) (Suc n) a)"
        using in_rep [of "[]" a v "m - 1" n] tv(3) xy(2) Nil by simp
      with tv show ?thesis by blast
    next
      case (Cons d x')
      with xy show ?thesis by auto
    qed
  qed
next
  assume "\<exists>t v. s = t @ v \<and> rx_in (c # t) a \<and> rx_in v (RRep (m - 1) n a)"
  then show "rx_in (c # s) (RRep m (Suc n) a)"
    using in_rep [of "c # _" a] by fastforce
qed

lemma deriv_iff: "rx_in s (deriv c r) \<longleftrightarrow> rx_in (c # s) r"
proof (induction r arbitrary: s)
  case (RSeq a b)
  show ?case
    using RSeq.IH nullable_iff [of a]
    by (auto simp: in_seq_iff Cons_eq_append_conv)
next
  case (RStar a)
  then show ?case by (auto simp: in_star_Cons in_seq_iff)
next
  case (RRep m n a)
  show ?case
  proof (cases n)
    case 0
    then show ?thesis by (simp add: in_rep_iff [of "c # s"])
  next
    case (Suc k)
    with RRep.IH show ?thesis by (auto simp: in_rep_Cons in_seq_iff)
  qed
qed auto

theorem rx_match_iff: "rx_match r s \<longleftrightarrow> rx_in s r"
  by (induction s arbitrary: r) (simp_all add: nullable_iff deriv_iff)

section \<open>The shapes the validators use\<close>

named_theorems rx_simps

lemma match_set [rx_simps]: "rx_in s (RSet p) \<longleftrightarrow> (\<exists>c. s = [c] \<and> p c)"
  by auto

lemma match_seq: "rx_in s (RSeq a b) \<longleftrightarrow> (\<exists>x y. s = x @ y \<and> rx_in x a \<and> rx_in y b)"
  by (auto simp: in_seq_iff)

lemma match_seq_set [rx_simps]: "rx_in s (RSeq (RSet p) b) \<longleftrightarrow> (\<exists>c t. s = c # t \<and> p c \<and> rx_in t b)"
  by (simp add: in_seq_iff) (metis append_Cons append_Nil)

lemma match_star_set [rx_simps]: "rx_in s (RStar (RSet p)) \<longleftrightarrow> list_all p s"
proof (induction s)
  case Nil
  then show ?case by (simp add: in_star0)
next
  case (Cons c s)
  then show ?case by (auto simp: in_star_Cons)
qed

lemma match_rep_set [rx_simps]:
  "rx_in s (RRep m n (RSet p)) \<longleftrightarrow> m \<le> length s \<and> length s \<le> n \<and> list_all p s \<and> m \<le> n"
proof (induction s arbitrary: m n)
  case Nil
  then show ?case by (auto simp flip: nullable_iff)
next
  case (Cons c s)
  show ?case
  proof (cases n)
    case 0
    then show ?thesis by (simp add: in_rep_iff [of "c # s"])
  next
    case (Suc k)
    with Cons show ?thesis by (auto simp: in_rep_Cons)
  qed
qed

lemma match_rlit [rx_simps]: "rx_in s (rlit ds) \<longleftrightarrow> s = ustr ds"
  by (induction ds arbitrary: s) (auto simp: match_seq_set char_cls_def ustr_Cons)

declare rlit.simps [simp del]

lemma match_opt [rx_simps]: "rx_in s (ropt a) \<longleftrightarrow> rx_in s a \<or> s = []"
  by (auto simp: ropt_def)

lemma match_plus_set [rx_simps]: "rx_in s (rplus (RSet p)) \<longleftrightarrow> s \<noteq> [] \<and> list_all p s"
  by (auto simp: rplus_def match_seq_set match_star_set neq_Nil_conv)

lemma digit_cls_is_digit: "digit_cls = is_digit"
  by (simp add: fun_eq_iff digit_cls_def range_cls_def is_digit_def)

end
