(* ===== verification/JS_Value.thy ===== *)
theory JS_Value
  imports JS_Regex
begin

text \<open>
  The JavaScript values the bridge inspects at run time: what \<open>JSON.parse\<close>, the YAML reader
  and the ROS addon hand over as \<open>unknown\<close>. Arrays keep their holes, accessors and further own
  keys, objects their prototype and property attributes, because the validators look at them.
\<close>

datatype 'v slot = Hole | Data 'v | Accessor

datatype okey = Key ustring | Symbol

text \<open>An own property: its \<open>enumerable\<close> attribute and its value, or an accessor.\<close>

datatype 'v oprop = OData bool 'v | OAccessor bool

datatype proto = ObjectPrototype | NullPrototype | OtherPrototype

datatype jsval =
    Undefined
  | Null
  | Bool bool
  | Number number
  | BigInt int
  | Str ustring
  | Bytes bytes
  | Func
  | Arr "jsval slot list" nat
  | Obj proto "(okey \<times> jsval oprop) list"

text \<open>A plain array, and a plain object with the given properties in their order.\<close>

definition mk_arr :: "jsval list \<Rightarrow> jsval" where
  "mk_arr vs = Arr (map Data vs) 0"

definition mk_prop :: "ustring \<times> jsval \<Rightarrow> okey \<times> jsval oprop" where
  "mk_prop p = (Key (fst p), OData True (snd p))"

definition mk_obj :: "(ustring \<times> jsval) list \<Rightarrow> jsval" where
  "mk_obj kvs = Obj ObjectPrototype (map mk_prop kvs)"

text \<open>\<open>Object.keys\<close>: the enumerable string keys.\<close>

fun prop_key :: "okey \<times> jsval oprop \<Rightarrow> ustring option" where
  "prop_key (Key k, OData True v) = Some k"
| "prop_key (Key k, OAccessor True) = Some k"
| "prop_key _ = None"

fun object_keys :: "jsval \<Rightarrow> ustring list" where
  "object_keys (Obj p ps) = List.map_filter prop_key ps"
| "object_keys _ = []"

text \<open>\<open>o[k]\<close> for a data property; anything else reads as \<open>undefined\<close>.\<close>

fun get_prop :: "jsval \<Rightarrow> ustring \<Rightarrow> jsval" where
  "get_prop (Obj p ps) k = (case map_of ps (Key k) of Some (OData e v) \<Rightarrow> v | _ \<Rightarrow> Undefined)"
| "get_prop _ k = Undefined"

text \<open>\<open>Object.hasOwn(o, k)\<close>\<close>

fun has_own :: "jsval \<Rightarrow> ustring \<Rightarrow> bool" where
  "has_own (Obj p ps) k = (map_of ps (Key k) \<noteq> None)"
| "has_own _ k = False"

text \<open>The own keys of an object are distinct, in JavaScript always.\<close>

fun js_ok :: "jsval \<Rightarrow> bool" where
  "js_ok (Obj p ps) =
     (distinct (map fst ps) \<and> list_all (\<lambda>q. case snd q of OData e v \<Rightarrow> js_ok v | OAccessor e \<Rightarrow> True) ps)"
| "js_ok (Arr slots n) = list_all (\<lambda>s. case s of Data v \<Rightarrow> js_ok v | _ \<Rightarrow> True) slots"
| "js_ok _ = True"

section \<open>Lemmas\<close>

lemma object_keys_mk_obj [simp]: "object_keys (mk_obj kvs) = map fst kvs"
  by (induction kvs) (auto simp: mk_obj_def mk_prop_def map_filter_def)

lemma map_of_mk_prop: "map_of (map mk_prop kvs) (Key k) = map_option (OData True) (map_of kvs k)"
  by (induction kvs) (auto simp: mk_prop_def)

lemma get_prop_mk_obj [simp]:
  "get_prop (mk_obj kvs) k = (case map_of kvs k of None \<Rightarrow> Undefined | Some v \<Rightarrow> v)"
  by (simp add: mk_obj_def map_of_mk_prop split: option.split)

lemma has_own_mk_obj [simp]: "has_own (mk_obj kvs) k \<longleftrightarrow> k \<in> set (map fst kvs)"
  by (simp add: mk_obj_def map_of_mk_prop map_of_eq_None_iff)

lemma get_prop_ok: "js_ok v \<Longrightarrow> js_ok (get_prop v k)"
proof (cases v)
  case (Obj p ps)
  assume "js_ok v"
  then show ?thesis
    using Obj by (auto simp: list_all_iff split: option.split oprop.split dest!: map_of_SomeD)
qed auto

lemma distinct_object_keys: "js_ok v \<Longrightarrow> distinct (object_keys v)"
proof (cases v)
  case (Obj p ps)
  assume "js_ok v"
  then have "distinct (map fst ps)" using Obj by simp
  moreover have "set (List.map_filter prop_key qs) \<subseteq> {k. Key k \<in> fst ` set qs}" for qs
    by (induction qs) (auto simp: map_filter_def image_iff elim: prop_key.elims split: option.splits)
  ultimately have "distinct (List.map_filter prop_key ps)"
    by (induction ps) (fastforce simp: map_filter_def image_iff elim: prop_key.elims split: option.splits)+
  with Obj show ?thesis by simp
qed auto

end
