(* ===== verification/Session_Validation.thy ===== *)
theory Session_Validation
  imports JS_Value
begin

text \<open>
  \<open>session/validation.ts\<close>: the limits, identifiers and sequence numbers every other component
  checks its inputs with.
\<close>

section \<open>The checks\<close>

definition positiveLimit :: "number \<Rightarrow> unit result" where
  "positiveLimit n =
     (if \<not> isSafeInteger n \<or> num_le n (NumI 0) then Inl (Err ''invalid_limit'') else Inr ())"

text \<open>\<open>/^[\x21-\x7e]{1,256}$/\<close>\<close>

definition identifier_rx :: "16 word rx" where
  "identifier_rx = RRep 1 256 (RSet (range_cls 33 126))"

fun identifier_v :: "jsval \<Rightarrow> unit result" where
  "identifier_v (Str s) = (if rx_match identifier_rx s then Inr () else Inl (Err ''invalid_identifier''))"
| "identifier_v _ = Inl (Err ''invalid_identifier'')"

text \<open>\<open>/^(0|[1-9][0-9]{0,19})$/\<close>\<close>

definition sequence_rx :: "16 word rx" where
  "sequence_rx = RAlt (rlit ''0'') (RSeq (RSet (range_cls 49 57)) (RRep 0 19 (RSet (range_cls 48 57))))"

fun sequence :: "jsval \<Rightarrow> int result" where
  "sequence (Str s) =
     (if \<not> rx_match sequence_rx s then Inl (Err ''invalid_sequence'')
      else if int (read_nat s) > 18446744073709551615 then Inl (Err ''invalid_sequence'')
      else Inr (int (read_nat s)))"
| "sequence _ = Inl (Err ''invalid_sequence'')"

section \<open>What they accept\<close>

lemma positiveLimit_Inr [simp]:
  "positiveLimit n = Inr u \<longleftrightarrow> (\<exists>i. n = NumI i \<and> 0 < i \<and> i \<le> MAX_SAFE_INTEGER)"
proof -
  have "positiveLimit n = Inr u \<longleftrightarrow> isSafeInteger n \<and> \<not> num_le n (NumI 0)"
    by (cases u) (simp add: positiveLimit_def)
  also have "\<dots> \<longleftrightarrow> (\<exists>i. n = NumI i \<and> 0 < i \<and> i \<le> MAX_SAFE_INTEGER)"
    unfolding isSafeInteger_iff by (auto simp: not_le)
  finally show ?thesis .
qed

lemma positiveLimit_Inl: "positiveLimit n = Inl e \<Longrightarrow> e = Err ''invalid_limit''"
  by (auto simp: positiveLimit_def split: if_splits)

lemma identifier_Inr [simp]:
  "identifier_v v = Inr x \<longleftrightarrow>
     (\<exists>s. v = Str s \<and> 1 \<le> length s \<and> length s \<le> 256 \<and> list_all (range_cls 33 126) s)"
  by (cases v) (auto simp: rx_match_iff identifier_rx_def rx_simps)

lemma identifier_Inl: "identifier_v v = Inl e \<Longrightarrow> e = Err ''invalid_identifier''"
  by (cases v) (auto split: if_splits)

lemma range_cls_digit: "range_cls 48 57 = is_digit"
  by (simp add: fun_eq_iff range_cls_def is_digit_def)

lemma unat_zero_char: "unat (code_unit (CHR ''0'')) = 48"
  by (simp add: unat_code_unit)

lemma is_digit_zero [simp]: "is_digit (code_unit (CHR ''0''))"
  by (simp add: is_digit_def unat_zero_char)

lemma range_cls_nonzero_digit: "range_cls 49 57 c \<longleftrightarrow> is_digit c \<and> c \<noteq> code_unit (CHR ''0'')"
proof -
  have "c = code_unit (CHR ''0'') \<longleftrightarrow> unat c = 48"
    by (metis unsigned_word_eqI unat_zero_char)
  then show ?thesis by (auto simp: range_cls_def is_digit_def)
qed

lemma sequence_rx_iff:
  "rx_match sequence_rx s \<longleftrightarrow>
     s \<noteq> [] \<and> length s \<le> 20 \<and> list_all is_digit s \<and> (hd s = code_unit (CHR ''0'') \<longrightarrow> length s = 1)"
  by (cases s)
    (auto simp: rx_match_iff sequence_rx_def rx_simps range_cls_digit range_cls_nonzero_digit ustr_def)


lemma sequence_Inr_imp:
  assumes "sequence v = Inr n"
  shows "0 \<le> n \<and> n < 2 ^ 64 \<and> v = Str (ustr (show_nat (nat n)))"
proof (cases v)
  case (Str s)
  with assms have m: "rx_match sequence_rx s" and n: "n = int (read_nat s)" "n \<le> 18446744073709551615"
    by (auto split: if_splits)
  from m have "ustr (show_nat (read_nat s)) = s"
    unfolding sequence_rx_iff by (intro show_read_nat) auto
  with n Str show ?thesis by simp
qed (use assms in auto)

lemma sequence_show:
  assumes "n < 2 ^ 64"
  shows "sequence (Str (ustr (show_nat n))) = Inr (int n)"
proof -
  let ?s = "ustr (show_nat n)"
  have "length (show_nat n) \<le> 20" using assms by (intro length_show_nat) auto
  moreover have "hd ?s = code_unit (CHR ''0'') \<longrightarrow> length ?s = 1"
  proof (cases "n = 0")
    case True
    then show ?thesis by (simp add: show_nat.simps)
  next
    case False
    then have "hd (show_nat n) \<noteq> CHR ''0''" by (intro hd_show_nat) simp
    then show ?thesis by (simp add: ustr_def hd_map)
  qed
  ultimately have "rx_match sequence_rx ?s"
    unfolding sequence_rx_iff using show_nat_digits [of n] by (auto simp: ustr_def)
  with assms show ?thesis by simp
qed

text \<open>
  C22: The sequence parser accepts exactly the canonical decimal texts of the unsigned 64-bit
  integers, and returns the integer written: no other value, no leading zero, sign, space or
  larger number is accepted.
\<close>

theorem sequence_canonical_uint64:
  "sequence v = Inr n \<longleftrightarrow> 0 \<le> n \<and> n < 2 ^ 64 \<and> v = Str (ustr (show_nat (nat n)))"
  using sequence_Inr_imp [of v n] sequence_show [of "nat n"] by auto

declare identifier_v.simps [simp del] sequence.simps [simp del]

end
