(* ===== verification/Delivery_Queue.thy ===== *)
theory Delivery_Queue
  imports Session_Validation "HOL-Library.Sublist"
begin

text \<open>
  \<open>session/delivery-queue.ts\<close>: the bounded send queue of one peer. A stream is an object in the
  map \<open>streams\<close>; its mutation is an update of the entry under its identifier. Limits are kept
  as integers once \<open>positiveLimit\<close> has accepted them.
\<close>

section \<open>State\<close>

datatype policy = Latest | Reliable

record stream =
  s_policy :: policy
  s_maxMessages :: int
  s_messages :: "bytes list"
  s_stopped :: bool

record queueOptions =
  maxStreams :: int
  maxBytes :: int
  maxMessageBytes :: int

record queue =
  q_options :: queueOptions
  q_streams :: "(ustring \<times> stream) list"
  q_bytes :: int
  q_dropped :: int

section \<open>Operations\<close>

definition newDeliveryQueue :: "number \<Rightarrow> number \<Rightarrow> number \<Rightarrow> queue result" where
  "newDeliveryQueue nStreams nBytes nSingle =
     bindR (positiveLimit nStreams) (\<lambda>_.
     bindR (positiveLimit nBytes) (\<lambda>_.
     bindR (positiveLimit nSingle) (\<lambda>_.
     bindR (failIf (num_less nBytes nSingle) (Err ''invalid_limit'')) (\<lambda>_.
     Inr \<lparr>q_options = \<lparr>maxStreams = num_int nStreams, maxBytes = num_int nBytes,
                       maxMessageBytes = num_int nSingle\<rparr>,
          q_streams = [], q_bytes = 0, q_dropped = 0\<rparr>))))"

definition stream_of :: "ustring \<Rightarrow> (queue, stream) prog" where
  "stream_of sid =
     bindE (getE (\<lambda>q. map_of (q_streams q) sid)) (\<lambda>found.
       case found of None \<Rightarrow> throwE (Err ''unknown_stream'') | Some s \<Rightarrow> retE s)"

text \<open>Mutation of the stream object registered under \<open>sid\<close>.\<close>

definition set_stream :: "ustring \<Rightarrow> (stream \<Rightarrow> stream) \<Rightarrow> (queue, unit) prog" where
  "set_stream sid f = modE (\<lambda>q. q\<lparr>q_streams := AList.map_entry sid f (q_streams q)\<rparr>)"

definition add_bytes :: "int \<Rightarrow> (queue, unit) prog" where
  "add_bytes n = modE (\<lambda>q. q\<lparr>q_bytes := q_bytes q + n\<rparr>)"

definition add_dropped :: "int \<Rightarrow> (queue, unit) prog" where
  "add_dropped n = modE (\<lambda>q. q\<lparr>q_dropped := q_dropped q + n\<rparr>)"

definition message_bytes :: "bytes list \<Rightarrow> int" where
  "message_bytes ms = sum_list (map (\<lambda>m. int (length m)) ms)"

text \<open>\<open>release\<close>: \<open>for (const message of stream.messages) this.bytes -= ...; messages.length = 0\<close>\<close>

definition release :: "ustring \<Rightarrow> stream \<Rightarrow> (queue, unit) prog" where
  "release sid s =
     seqE (add_bytes (- message_bytes (s_messages s)))
          (set_stream sid (\<lambda>t. t\<lparr>s_messages := []\<rparr>))"

definition register :: "ustring \<Rightarrow> string \<Rightarrow> number \<Rightarrow> (queue, unit) prog" where
  "register sid pol maxMessages =
     seqE (liftE (identifier_v (Str sid)))
    (seqE (liftE (positiveLimit maxMessages))
    (seqE (throwIf (pol \<noteq> ''latest'' \<and> pol \<noteq> ''reliable'') (Err ''invalid_policy''))
    (seqE (throwIf (pol = ''latest'' \<and> maxMessages \<noteq> NumI 1) (Err ''invalid_limit''))
    (bindE (getE (\<lambda>q. q)) (\<lambda>q.
     seqE (throwIf (map_of (q_streams q) sid \<noteq> None) (Err ''duplicate_stream''))
    (seqE (throwIf (int (length (q_streams q)) \<ge> maxStreams (q_options q)) (Err ''stream_limit''))
    (modE (\<lambda>q. q\<lparr>q_streams := AList.update sid
       \<lparr>s_policy = (if pol = ''latest'' then Latest else Reliable),
        s_maxMessages = num_int maxMessages, s_messages = [], s_stopped = False\<rparr>
       (q_streams q)\<rparr>))))))))"

definition enqueue :: "ustring \<Rightarrow> bytes \<Rightarrow> (queue, bool) prog" where
  "enqueue sid message =
     bindE (stream_of sid) (\<lambda>s.
     bindE (getE q_options) (\<lambda>options.
     seqE (throwIf (s_stopped s) (Err ''slow_consumer''))
    (seqE (throwIf (length message = 0 \<or> int (length message) > maxMessageBytes options)
             (Err ''message_size''))
    (seqE (if s_policy s = Latest \<and> s_messages s \<noteq> []
           then seqE (add_dropped (int (length (s_messages s)))) (release sid s)
           else retE ())
    (bindE (stream_of sid) (\<lambda>s.
     bindE (getE q_bytes) (\<lambda>pending.
     if int (length (s_messages s)) \<ge> s_maxMessages s
        \<or> int (length message) > maxBytes options - pending
     then if s_policy s = Reliable
          then seqE (set_stream sid (\<lambda>t. t\<lparr>s_stopped := True\<rparr>))
              (seqE (release sid s) (throwE (Err ''slow_consumer'')))
          else seqE (add_dropped 1) (retE False)
     else seqE (set_stream sid (\<lambda>t. t\<lparr>s_messages := s_messages t @ [message]\<rparr>))
         (seqE (add_bytes (int (length message))) (retE True)))))))))"

definition dequeue :: "ustring \<Rightarrow> (queue, bytes option) prog" where
  "dequeue sid =
     bindE (stream_of sid) (\<lambda>s.
     seqE (throwIf (s_stopped s) (Err ''slow_consumer''))
     (case s_messages s of
        [] \<Rightarrow> retE None
      | m # ms \<Rightarrow>
          seqE (set_stream sid (\<lambda>t. t\<lparr>s_messages := ms\<rparr>))
         (seqE (add_bytes (- int (length m))) (retE (Some m)))))"

definition peek :: "ustring \<Rightarrow> (queue, bytes option) prog" where
  "peek sid =
     bindE (stream_of sid) (\<lambda>s.
     seqE (throwIf (s_stopped s) (Err ''slow_consumer''))
     (case s_messages s of [] \<Rightarrow> retE None | m # _ \<Rightarrow> retE (Some m)))"

definition closeStream :: "ustring \<Rightarrow> (queue, unit) prog" where
  "closeStream sid =
     bindE (stream_of sid) (\<lambda>s.
     seqE (release sid s) (modE (\<lambda>q. q\<lparr>q_streams := AList.delete sid (q_streams q)\<rparr>)))"

definition clear_queue :: "(queue, unit) prog" where
  "clear_queue = modE (\<lambda>q. q\<lparr>q_streams := [], q_bytes := 0\<rparr>)"

record queueStats =
  st_bytes :: int
  st_streams :: int
  st_dropped :: int

definition queue_stats :: "queue \<Rightarrow> queueStats" where
  "queue_stats q = \<lparr>st_bytes = q_bytes q, st_streams = int (length (q_streams q)), st_dropped = q_dropped q\<rparr>"

section \<open>Invariant\<close>

definition total_bytes :: "(ustring \<times> stream) list \<Rightarrow> int" where
  "total_bytes m = sum_list (map (\<lambda>p. message_bytes (s_messages (snd p))) m)"

definition stream_ok :: "queueOptions \<Rightarrow> stream \<Rightarrow> bool" where
  "stream_ok opt s \<longleftrightarrow>
     0 < s_maxMessages s \<and> int (length (s_messages s)) \<le> s_maxMessages s
     \<and> (s_policy s = Latest \<longrightarrow> s_maxMessages s = 1 \<and> \<not> s_stopped s)
     \<and> (s_stopped s \<longrightarrow> s_messages s = [])
     \<and> list_all (\<lambda>m. 0 < length m \<and> int (length m) \<le> maxMessageBytes opt) (s_messages s)"

definition options_ok :: "queueOptions \<Rightarrow> bool" where
  "options_ok opt \<longleftrightarrow>
     0 < maxStreams opt \<and> 0 < maxMessageBytes opt \<and> maxMessageBytes opt \<le> maxBytes opt
     \<and> maxBytes opt \<le> MAX_SAFE_INTEGER \<and> maxStreams opt \<le> MAX_SAFE_INTEGER"

definition queue_inv :: "queue \<Rightarrow> bool" where
  "queue_inv q \<longleftrightarrow>
     options_ok (q_options q) \<and> distinct (keys (q_streams q))
     \<and> int (length (q_streams q)) \<le> maxStreams (q_options q)
     \<and> q_bytes q = total_bytes (q_streams q) \<and> q_bytes q \<le> maxBytes (q_options q)
     \<and> (\<forall>sid s. map_of (q_streams q) sid = Some s \<longrightarrow> stream_ok (q_options q) s)"

section \<open>Lemmas\<close>

lemmas queue_prims = stream_of_def set_stream_def add_bytes_def add_dropped_def release_def

lemma message_bytes_simps [simp]:
  "message_bytes [] = 0" "message_bytes (m # ms) = int (length m) + message_bytes ms"
  "message_bytes (ms @ ns) = message_bytes ms + message_bytes ns"
  by (simp_all add: message_bytes_def)

lemma message_bytes_nonneg: "0 \<le> message_bytes ms"
  by (induction ms) auto

lemma total_bytes_nonneg: "0 \<le> total_bytes m"
  unfolding total_bytes_def by (induction m) (auto simp: message_bytes_nonneg)

lemma total_bytes_map_entry:
  assumes "distinct (keys m)" and "map_of m k = Some s"
  shows "total_bytes (AList.map_entry k f m) =
    total_bytes m - message_bytes (s_messages s) + message_bytes (s_messages (f s))"
  using sum_list_update [OF assms, of "\<lambda>p. message_bytes (s_messages (snd p))" "f s"]
  by (simp add: total_bytes_def map_entry_eq_update [OF assms(2)])

lemma total_bytes_delete:
  assumes "distinct (keys m)" and "map_of m k = Some s"
  shows "total_bytes (AList.delete k m) = total_bytes m - message_bytes (s_messages s)"
  using sum_list_delete [OF assms, of "\<lambda>p. message_bytes (s_messages (snd p))"]
  by (simp add: total_bytes_def)


lemma queue_inv_entry:
  assumes "queue_inv q" and "map_of (q_streams q) sid = Some s" and "stream_ok (q_options q) (f s)"
    and "b = q_bytes q - message_bytes (s_messages s) + message_bytes (s_messages (f s))"
    and "b \<le> maxBytes (q_options q)"
  shows "queue_inv (q\<lparr>q_streams := AList.map_entry sid f (q_streams q), q_bytes := b, q_dropped := d\<rparr>)"
  using assms by (auto simp: queue_inv_def total_bytes_map_entry map_of_map_entry')

lemma queue_inv_stream: "queue_inv q \<Longrightarrow> map_of (q_streams q) sid = Some s \<Longrightarrow> stream_ok (q_options q) s"
  by (simp add: queue_inv_def)

lemma queue_inv_bytes:
  "queue_inv q \<Longrightarrow> map_of (q_streams q) sid = Some s \<Longrightarrow> message_bytes (s_messages s) \<le> q_bytes q"
  using total_bytes_delete [of "q_streams q" sid s] total_bytes_nonneg [of "AList.delete sid (q_streams q)"]
  by (simp add: queue_inv_def)

subsection \<open>What each operation does\<close>

text \<open>The operations as equations on the entry of the stream, branch by branch.\<close>

definition room :: "queue \<Rightarrow> stream \<Rightarrow> bytes \<Rightarrow> bool" where
  "room q s m \<longleftrightarrow>
     int (length (s_messages s)) < s_maxMessages s
     \<and> int (length m) \<le> maxBytes (q_options q) - q_bytes q"

definition size_ok :: "queue \<Rightarrow> bytes \<Rightarrow> bool" where
  "size_ok q m \<longleftrightarrow> m \<noteq> [] \<and> int (length m) \<le> maxMessageBytes (q_options q)"

lemma stream_of_run:
  "stream_of sid q = (case map_of (q_streams q) sid of None \<Rightarrow> Inl (Err ''unknown_stream'') | Some s \<Rightarrow> Inr s, q)"
  by (simp add: stream_of_def prog_simps split: option.split)

lemma enqueue_unknown: "map_of (q_streams q) sid = None \<Longrightarrow> enqueue sid m q = (Inl (Err ''unknown_stream''), q)"
  by (simp add: enqueue_def prog_simps stream_of_run)

lemma enqueue_stopped:
  "map_of (q_streams q) sid = Some s \<Longrightarrow> s_stopped s \<Longrightarrow> enqueue sid m q = (Inl (Err ''slow_consumer''), q)"
  by (simp add: enqueue_def prog_simps stream_of_run)

lemma enqueue_size:
  "map_of (q_streams q) sid = Some s \<Longrightarrow> \<not> s_stopped s \<Longrightarrow> \<not> size_ok q m \<Longrightarrow>
     enqueue sid m q = (Inl (Err ''message_size''), q)"
  by (auto simp: enqueue_def prog_simps stream_of_run size_ok_def)

lemma enqueue_reliable:
  assumes "map_of (q_streams q) sid = Some s" and "\<not> s_stopped s" and "size_ok q m"
    and "s_policy s = Reliable"
  shows "enqueue sid m q =
    (if room q s m
     then (Inr True, q\<lparr>q_streams := AList.map_entry sid (\<lambda>t. t\<lparr>s_messages := s_messages t @ [m]\<rparr>) (q_streams q),
                       q_bytes := q_bytes q + int (length m)\<rparr>)
     else (Inl (Err ''slow_consumer''),
           q\<lparr>q_streams := AList.map_entry sid (\<lambda>t. t\<lparr>s_stopped := True, s_messages := []\<rparr>) (q_streams q),
             q_bytes := q_bytes q - message_bytes (s_messages s)\<rparr>))"
  using assms
  by (auto simp: enqueue_def prog_simps stream_of_run size_ok_def room_def release_def set_stream_def
      add_bytes_def add_dropped_def not_le not_less)

lemma enqueue_latest:
  assumes "map_of (q_streams q) sid = Some s" and "\<not> s_stopped s" and "size_ok q m"
    and "s_policy s = Latest" and "0 < s_maxMessages s"
  shows "enqueue sid m q =
    (let b = q_bytes q - message_bytes (s_messages s); d = q_dropped q + int (length (s_messages s))
     in if int (length m) \<le> maxBytes (q_options q) - b
        then (Inr True, q\<lparr>q_streams := AList.map_entry sid (\<lambda>t. t\<lparr>s_messages := [m]\<rparr>) (q_streams q),
                          q_bytes := b + int (length m), q_dropped := d\<rparr>)
        else (Inr False, q\<lparr>q_streams := AList.map_entry sid (\<lambda>t. t\<lparr>s_messages := []\<rparr>) (q_streams q),
                           q_bytes := b, q_dropped := d + 1\<rparr>))"
proof (cases "s_messages s = []")
  case True
  moreover have "AList.map_entry sid (\<lambda>t. t\<lparr>s_messages := s_messages t @ [m]\<rparr>) (q_streams q)
      = AList.map_entry sid (\<lambda>t. t\<lparr>s_messages := [m]\<rparr>) (q_streams q)"
    and "AList.map_entry sid (\<lambda>t. t\<lparr>s_messages := []\<rparr>) (q_streams q) = q_streams q"
    using True assms(1) by (simp_all add: map_entry_eq_update update_triv)
  ultimately show ?thesis
    using assms
    by (auto simp: enqueue_def prog_simps stream_of_run size_ok_def set_stream_def
        add_bytes_def add_dropped_def not_le not_less)
next
  case False
  then show ?thesis
    using assms
    by (auto simp: enqueue_def prog_simps stream_of_run size_ok_def release_def set_stream_def
        add_bytes_def add_dropped_def not_le not_less map_of_map_entry' Let_def)
qed


lemma dequeue_run:
  "map_of (q_streams q) sid = Some s \<Longrightarrow> \<not> s_stopped s \<Longrightarrow>
   dequeue sid q = (case s_messages s of
      [] \<Rightarrow> (Inr None, q)
    | m # ms \<Rightarrow> (Inr (Some m), q\<lparr>q_streams := AList.map_entry sid (\<lambda>t. t\<lparr>s_messages := ms\<rparr>) (q_streams q),
                                 q_bytes := q_bytes q - int (length m)\<rparr>))"
  by (simp add: dequeue_def prog_simps stream_of_run set_stream_def add_bytes_def split: list.split)

lemma dequeue_failing:
  "map_of (q_streams q) sid = None \<Longrightarrow> dequeue sid q = (Inl (Err ''unknown_stream''), q)"
  "map_of (q_streams q) sid = Some s \<Longrightarrow> s_stopped s \<Longrightarrow> dequeue sid q = (Inl (Err ''slow_consumer''), q)"
  by (simp_all add: dequeue_def prog_simps stream_of_run)

lemma peek_run:
  "peek sid q =
    (case map_of (q_streams q) sid of
       None \<Rightarrow> Inl (Err ''unknown_stream'')
     | Some s \<Rightarrow> if s_stopped s then Inl (Err ''slow_consumer'')
                 else Inr (case s_messages s of [] \<Rightarrow> None | m # ms \<Rightarrow> Some m), q)"
  by (simp add: peek_def prog_simps stream_of_run split: option.split list.split)

lemma closeStream_run:
  "map_of (q_streams q) sid = Some s \<Longrightarrow>
   closeStream sid q = (Inr (), q\<lparr>q_streams := AList.delete sid (q_streams q),
                                  q_bytes := q_bytes q - message_bytes (s_messages s)\<rparr>)"
proof -
  assume "map_of (q_streams q) sid = Some s"
  moreover have "AList.delete sid (AList.map_entry sid f m) = AList.delete sid m" for f and m :: "(ustring \<times> stream) list"
    by (induction m) auto
  ultimately show ?thesis
    by (simp add: closeStream_def prog_simps stream_of_run release_def set_stream_def add_bytes_def)
qed

lemma closeStream_unknown:
  "map_of (q_streams q) sid = None \<Longrightarrow> closeStream sid q = (Inl (Err ''unknown_stream''), q)"
  by (simp add: closeStream_def prog_simps stream_of_run)

text \<open>The registration that \<open>register\<close> adds.\<close>

definition fresh_stream :: "string \<Rightarrow> number \<Rightarrow> stream" where
  "fresh_stream pol n = \<lparr>s_policy = (if pol = ''latest'' then Latest else Reliable),
     s_maxMessages = num_int n, s_messages = [], s_stopped = False\<rparr>"

lemma register_run:
  "register sid pol n q =
    (case identifier_v (Str sid) of Inl e \<Rightarrow> (Inl e, q) | Inr _ \<Rightarrow>
    (case positiveLimit n of Inl e \<Rightarrow> (Inl e, q) | Inr _ \<Rightarrow>
     if pol \<noteq> ''latest'' \<and> pol \<noteq> ''reliable'' then (Inl (Err ''invalid_policy''), q)
     else if pol = ''latest'' \<and> n \<noteq> NumI 1 then (Inl (Err ''invalid_limit''), q)
     else if map_of (q_streams q) sid \<noteq> None then (Inl (Err ''duplicate_stream''), q)
     else if int (length (q_streams q)) \<ge> maxStreams (q_options q) then (Inl (Err ''stream_limit''), q)
     else (Inr (), q\<lparr>q_streams := q_streams q @ [(sid, fresh_stream pol n)]\<rparr>)))"
  by (simp add: register_def prog_simps fresh_stream_def update_new
      del: positiveLimit_Inr identifier_Inr of_int_1 split: sum.split)

lemma register_Inr:
  "register sid pol n q = (Inr x, q') \<longleftrightarrow>
     identifier_v (Str sid) = Inr () \<and> positiveLimit n = Inr () \<and> (pol = ''latest'' \<or> pol = ''reliable'')
     \<and> (pol = ''latest'' \<longrightarrow> n = NumI 1) \<and> map_of (q_streams q) sid = None
     \<and> int (length (q_streams q)) < maxStreams (q_options q)
     \<and> q' = q\<lparr>q_streams := q_streams q @ [(sid, fresh_stream pol n)]\<rparr>"
  unfolding register_run
  by (auto simp del: positiveLimit_Inr identifier_Inr simp: not_le split: sum.splits if_splits)

lemma register_Inl: "register sid pol n q = (Inl e, q') \<Longrightarrow> q' = q"
  unfolding register_run by (auto split: sum.splits if_splits)

subsection \<open>Every operation keeps the invariant\<close>

lemma newDeliveryQueue_inv: "newDeliveryQueue a b c = Inr q \<Longrightarrow> queue_inv q"
  by (auto simp: newDeliveryQueue_def queue_inv_def options_ok_def total_bytes_def not_less)

lemma queue_inv_append:
  assumes "queue_inv q" and "map_of (q_streams q) sid = None"
    and "int (length (q_streams q)) < maxStreams (q_options q)"
    and "stream_ok (q_options q) s" and "s_messages s = []"
  shows "queue_inv (q\<lparr>q_streams := q_streams q @ [(sid, s)]\<rparr>)"
proof -
  have "sid \<notin> fst ` set (q_streams q)" using assms(2) by (simp add: map_of_eq_None_iff)
  then show ?thesis
    using assms by (auto simp: queue_inv_def total_bytes_def map_add_def split: option.splits)
qed

lemma fresh_stream_ok:
  "positiveLimit n = Inr () \<Longrightarrow> (pol = ''latest'' \<longrightarrow> n = NumI 1) \<Longrightarrow> stream_ok opt (fresh_stream pol n)"
  by (auto simp: stream_ok_def fresh_stream_def)

lemma register_inv:
  assumes "queue_inv q" and run: "register sid pol n q = (r, q')"
  shows "queue_inv q'"
proof (cases r)
  case (Inl e)
  with assms show ?thesis by (auto dest: register_Inl)
next
  case (Inr x)
  with run have q': "q' = q\<lparr>q_streams := q_streams q @ [(sid, fresh_stream pol n)]\<rparr>"
    and new: "map_of (q_streams q) sid = None" "int (length (q_streams q)) < maxStreams (q_options q)"
    and ok: "positiveLimit n = Inr ()" "pol = ''latest'' \<longrightarrow> n = NumI 1"
    unfolding Inr register_Inr by auto
  show ?thesis
    unfolding q' using assms(1) new fresh_stream_ok [OF ok]
    by (rule queue_inv_append) (simp add: fresh_stream_def)
qed

lemma enqueue_inv:
  assumes inv: "queue_inv q" and run: "enqueue sid m q = (r, q')"
  shows "queue_inv q'"
proof (cases "map_of (q_streams q) sid")
  case None
  with inv run show ?thesis by (simp add: enqueue_unknown)
next
  case (Some s)
  note ok = queue_inv_stream [OF inv Some] and bytes = queue_inv_bytes [OF inv Some]
  have total: "q_bytes q \<le> maxBytes (q_options q)" using inv by (simp add: queue_inv_def)
  consider "s_stopped s" | "\<not> s_stopped s" "\<not> size_ok q m"
    | "\<not> s_stopped s" "size_ok q m" "s_policy s = Reliable"
    | "\<not> s_stopped s" "size_ok q m" "s_policy s = Latest"
    by (cases "s_policy s") auto
  then show ?thesis
  proof cases
    case 1
    with run inv show ?thesis by (simp add: enqueue_stopped [OF Some])
  next
    case 2
    with run inv show ?thesis by (simp add: enqueue_size [OF Some])
  next
    case 3
    have "queue_inv (q\<lparr>q_streams := AList.map_entry sid (\<lambda>t. t\<lparr>s_messages := s_messages t @ [m]\<rparr>) (q_streams q),
        q_bytes := q_bytes q + int (length m), q_dropped := q_dropped q\<rparr>)" if "room q s m"
      using ok 3 that by (intro queue_inv_entry [OF inv Some]) (auto simp: stream_ok_def room_def size_ok_def)
    moreover have "queue_inv (q\<lparr>q_streams := AList.map_entry sid (\<lambda>t. t\<lparr>s_stopped := True, s_messages := []\<rparr>) (q_streams q),
        q_bytes := q_bytes q - message_bytes (s_messages s), q_dropped := q_dropped q\<rparr>)"
      using ok 3 total message_bytes_nonneg [of "s_messages s"]
      by (intro queue_inv_entry [OF inv Some]) (auto simp: stream_ok_def)
    ultimately show ?thesis
      using run by (auto simp: enqueue_reliable [OF Some 3] split: if_splits)
  next
    case 4
    with ok have pos: "0 < s_maxMessages s" by (simp add: stream_ok_def)
    have "queue_inv (q\<lparr>q_streams := AList.map_entry sid (\<lambda>t. t\<lparr>s_messages := [m]\<rparr>) (q_streams q),
        q_bytes := q_bytes q - message_bytes (s_messages s) + int (length m), q_dropped := d\<rparr>)"
      if "int (length m) \<le> maxBytes (q_options q) - (q_bytes q - message_bytes (s_messages s))" for d
      using ok 4 that by (intro queue_inv_entry [OF inv Some]) (auto simp: stream_ok_def size_ok_def)
    moreover have "queue_inv (q\<lparr>q_streams := AList.map_entry sid (\<lambda>t. t\<lparr>s_messages := []\<rparr>) (q_streams q),
        q_bytes := q_bytes q - message_bytes (s_messages s), q_dropped := d\<rparr>)" for d
      using ok 4 total message_bytes_nonneg [of "s_messages s"]
      by (intro queue_inv_entry [OF inv Some]) (auto simp: stream_ok_def)
    ultimately show ?thesis
      using run by (auto simp: enqueue_latest [OF Some 4 pos] Let_def split: if_splits)
  qed
qed

lemma dequeue_inv:
  assumes inv: "queue_inv q" and run: "dequeue sid q = (r, q')"
  shows "queue_inv q'"
proof (cases "map_of (q_streams q) sid")
  case None
  with inv run show ?thesis by (simp add: dequeue_failing)
next
  case (Some s)
  note ok = queue_inv_stream [OF inv Some]
  have total: "q_bytes q \<le> maxBytes (q_options q)" using inv by (simp add: queue_inv_def)
  show ?thesis
  proof (cases "s_stopped s")
    case True
    with inv run show ?thesis by (simp add: dequeue_failing(2) [OF Some])
  next
    case False
    have "queue_inv (q\<lparr>q_streams := AList.map_entry sid (\<lambda>t. t\<lparr>s_messages := ms\<rparr>) (q_streams q),
        q_bytes := q_bytes q - int (length m), q_dropped := q_dropped q\<rparr>)" if "s_messages s = m # ms" for m ms
      using ok False total that by (intro queue_inv_entry [OF inv Some]) (auto simp: stream_ok_def)
    with run inv show ?thesis by (auto simp: dequeue_run [OF Some False] split: list.splits)
  qed
qed

lemma peek_inv: "queue_inv q \<Longrightarrow> peek sid q = (r, q') \<Longrightarrow> queue_inv q'"
  by (simp add: peek_run)

lemma closeStream_inv:
  assumes inv: "queue_inv q" and run: "closeStream sid q = (r, q')"
  shows "queue_inv q'"
proof (cases "map_of (q_streams q) sid")
  case None
  with inv run show ?thesis by (simp add: closeStream_unknown)
next
  case (Some s)
  have "length (AList.delete sid (q_streams q)) \<le> length (q_streams q)" by (rule length_delete_le)
  with inv run Some message_bytes_nonneg [of "s_messages s"] show ?thesis
    by (auto simp: closeStream_run queue_inv_def total_bytes_delete distinct_keys_delete split: if_splits)
qed

lemma clear_queue_inv: "queue_inv q \<Longrightarrow> clear_queue q = (r, q') \<Longrightarrow> queue_inv q'"
  by (auto simp: clear_queue_def prog_simps queue_inv_def total_bytes_def options_ok_def)

lemmas queue_ops_inv = register_inv enqueue_inv dequeue_inv peek_inv closeStream_inv clear_queue_inv


section \<open>The queue over its lifetime\<close>

text \<open>
  The steps of a queue are the calls of its public operations, in any order and with any
  arguments. The log keeps, per stream identifier and since its registration, the messages
  \<open>enqueue\<close> accepted (it returned true) and those \<open>dequeue\<close> handed out.
\<close>

record qlog =
  l_queue :: queue
  l_accepted :: "ustring \<Rightarrow> bytes list"
  l_taken :: "ustring \<Rightarrow> bytes list"

inductive qlog_step :: "qlog \<Rightarrow> qlog \<Rightarrow> bool" where
  registered: "register sid pol n (l_queue l) = (Inr (), q') \<Longrightarrow>
     qlog_step l (l\<lparr>l_queue := q', l_accepted := (l_accepted l)(sid := []), l_taken := (l_taken l)(sid := [])\<rparr>)"
| not_registered: "register sid pol n (l_queue l) = (Inl e, q') \<Longrightarrow> qlog_step l (l\<lparr>l_queue := q'\<rparr>)"
| accepted: "enqueue sid m (l_queue l) = (Inr True, q') \<Longrightarrow>
     qlog_step l (l\<lparr>l_queue := q', l_accepted := (l_accepted l)(sid := l_accepted l sid @ [m])\<rparr>)"
| not_accepted: "enqueue sid m (l_queue l) = (r, q') \<Longrightarrow> r \<noteq> Inr True \<Longrightarrow> qlog_step l (l\<lparr>l_queue := q'\<rparr>)"
| taken: "dequeue sid (l_queue l) = (Inr (Some m), q') \<Longrightarrow>
     qlog_step l (l\<lparr>l_queue := q', l_taken := (l_taken l)(sid := l_taken l sid @ [m])\<rparr>)"
| not_taken: "dequeue sid (l_queue l) = (r, q') \<Longrightarrow> (\<forall>m. r \<noteq> Inr (Some m)) \<Longrightarrow> qlog_step l (l\<lparr>l_queue := q'\<rparr>)"
| peeked: "peek sid (l_queue l) = (r, q') \<Longrightarrow> qlog_step l (l\<lparr>l_queue := q'\<rparr>)"
| stream_closed: "closeStream sid (l_queue l) = (r, q') \<Longrightarrow> qlog_step l (l\<lparr>l_queue := q'\<rparr>)"
| cleared: "clear_queue (l_queue l) = (r, q') \<Longrightarrow> qlog_step l (l\<lparr>l_queue := q'\<rparr>)"

definition qlog_start :: "qlog \<Rightarrow> bool" where
  "qlog_start l \<longleftrightarrow> (\<exists>a b c. newDeliveryQueue a b c = Inr (l_queue l))"

text \<open>
  What the logs say of a registered stream: a reliable one has lost nothing, a latest one holds
  at most the newest accepted message and handed out a subsequence of the accepted ones.
\<close>

definition log_ok :: "stream \<Rightarrow> bytes list \<Rightarrow> bytes list \<Rightarrow> bool" where
  "log_ok s acc tak \<longleftrightarrow>
     (case s_policy s of
        Reliable \<Rightarrow> if s_stopped s then prefix tak acc else acc = tak @ s_messages s
      | Latest \<Rightarrow> subseq (tak @ s_messages s) acc \<and> (s_messages s \<noteq> [] \<longrightarrow> last acc = hd (s_messages s)))"

definition qlog_inv :: "qlog \<Rightarrow> bool" where
  "qlog_inv l \<longleftrightarrow> queue_inv (l_queue l)
     \<and> (\<forall>sid s. map_of (q_streams (l_queue l)) sid = Some s \<longrightarrow> log_ok s (l_accepted l sid) (l_taken l sid))"

lemma qlog_inv_entry:
  assumes "qlog_inv l" and "map_of (q_streams (l_queue l)) sid = Some s" and "queue_inv q'"
    and "q_streams q' = AList.map_entry sid f (q_streams (l_queue l))"
    and "log_ok (f s) (acc sid) (tak sid)"
    and "\<And>j. j \<noteq> sid \<Longrightarrow> acc j = l_accepted l j \<and> tak j = l_taken l j"
  shows "qlog_inv (l\<lparr>l_queue := q', l_accepted := acc, l_taken := tak\<rparr>)"
  using assms by (auto simp: qlog_inv_def map_of_map_entry')

lemma subseq_drop_tail: "subseq (xs @ ys) zs \<Longrightarrow> subseq xs zs"
  by (meson list_emb_append2 prefix_imp_subseq prefix_def subseq_order.order_trans)

lemma log_ok_register: "log_ok (fresh_stream pol n) [] []"
  by (simp add: log_ok_def fresh_stream_def)

lemma enqueue_True:
  assumes inv: "queue_inv q" and run: "enqueue sid m q = (Inr True, q')"
  obtains s where "map_of (q_streams q) sid = Some s" and "\<not> s_stopped s"
    and "q_streams q' = AList.map_entry sid
      (\<lambda>t. t\<lparr>s_messages := (if s_policy s = Latest then [m] else s_messages t @ [m])\<rparr>) (q_streams q)"
proof (cases "map_of (q_streams q) sid")
  case None
  with run show ?thesis by (simp add: enqueue_unknown)
next
  case (Some s)
  have ns: "\<not> s_stopped s" using run by (auto simp: enqueue_stopped [OF Some])
  have sz: "size_ok q m" using run ns by (auto dest: enqueue_size [OF Some])
  have pos: "0 < s_maxMessages s" using queue_inv_stream [OF inv Some] by (simp add: stream_ok_def)
  show ?thesis
  proof (cases "s_policy s")
    case Latest
    with run show ?thesis
      by (intro that [OF Some ns])
        (auto simp: enqueue_latest [OF Some ns sz _ pos] Let_def split: if_splits)
  next
    case Reliable
    with run show ?thesis
      by (intro that [OF Some ns])
        (auto simp: enqueue_reliable [OF Some ns sz] split: if_splits)
  qed
qed

lemma enqueue_not_True:
  assumes inv: "queue_inv q" and run: "enqueue sid m q = (r, q')" and "r \<noteq> Inr True"
  shows "q_streams q' = q_streams q \<or>
    (\<exists>s f. map_of (q_streams q) sid = Some s \<and> q_streams q' = AList.map_entry sid f (q_streams q)
       \<and> \<not> s_stopped s \<and> s_policy (f s) = s_policy s \<and> s_messages (f s) = []
       \<and> (s_policy s = Reliable \<longrightarrow> s_stopped (f s)))"
proof (cases "map_of (q_streams q) sid")
  case None
  with run show ?thesis by (auto simp: enqueue_unknown)
next
  case (Some s)
  show ?thesis
  proof (cases "s_stopped s \<or> \<not> size_ok q m")
    case True
    with run Some show ?thesis by (cases "s_stopped s") (auto simp: enqueue_stopped enqueue_size)
  next
    case False
    then have ns: "\<not> s_stopped s" and sz: "size_ok q m" by auto
    have pos: "0 < s_maxMessages s" using queue_inv_stream [OF inv Some] by (simp add: stream_ok_def)
    show ?thesis
    proof (cases "s_policy s")
      case Latest
      with run \<open>r \<noteq> Inr True\<close> ns show ?thesis
        by (intro disjI2 exI [of _ s] exI [of _ "\<lambda>t. t\<lparr>s_messages := []\<rparr>"])
          (auto simp: enqueue_latest [OF Some ns sz _ pos] Let_def Some split: if_splits)
    next
      case Reliable
      with run \<open>r \<noteq> Inr True\<close> ns show ?thesis
        by (intro disjI2 exI [of _ s] exI [of _ "\<lambda>t. t\<lparr>s_stopped := True, s_messages := []\<rparr>"])
          (auto simp: enqueue_reliable [OF Some ns sz] Some split: if_splits)
    qed
  qed
qed

lemma dequeue_Some:
  assumes "dequeue sid q = (Inr (Some m), q')"
  obtains s ms where "map_of (q_streams q) sid = Some s" and "\<not> s_stopped s" and "s_messages s = m # ms"
    and "q_streams q' = AList.map_entry sid (\<lambda>t. t\<lparr>s_messages := ms\<rparr>) (q_streams q)"
proof (cases "map_of (q_streams q) sid")
  case None
  with assms show ?thesis by (simp add: dequeue_failing)
next
  case (Some s)
  with assms have "\<not> s_stopped s" by (auto simp: dequeue_failing(2))
  with assms Some that show ?thesis by (auto simp: dequeue_run split: list.splits)
qed

lemma dequeue_not_Some: "dequeue sid q = (r, q') \<Longrightarrow> \<forall>m. r \<noteq> Inr (Some m) \<Longrightarrow> q' = q"
  by (cases "map_of (q_streams q) sid"; cases "s_stopped (the (map_of (q_streams q) sid))")
    (auto simp: dequeue_failing dequeue_run split: list.splits)

lemma qlog_step_inv:
  assumes "qlog_inv l" and "qlog_step l l'"
  shows "qlog_inv l'"
  using assms(2,1)
proof (induction rule: qlog_step.induct)
  case (registered sid pol n l q')
  then have "queue_inv q'" by (auto simp: qlog_inv_def dest: register_inv)
  moreover from registered have "q' = (l_queue l)\<lparr>q_streams := q_streams (l_queue l) @ [(sid, fresh_stream pol n)]\<rparr>"
    and "map_of (q_streams (l_queue l)) sid = None"
    unfolding register_Inr by auto
  ultimately show ?case
    using registered.prems
    by (auto simp: qlog_inv_def log_ok_register map_add_def split: option.splits if_splits)
next
  case (not_registered sid pol n l e q')
  then show ?case by (auto dest: register_Inl)
next
  case (accepted sid m l q')
  then have inv: "queue_inv (l_queue l)" by (simp add: qlog_inv_def)
  obtain s where s: "map_of (q_streams (l_queue l)) sid = Some s" "\<not> s_stopped s"
    and q': "q_streams q' = AList.map_entry sid
      (\<lambda>t. t\<lparr>s_messages := (if s_policy s = Latest then [m] else s_messages t @ [m])\<rparr>) (q_streams (l_queue l))"
    using enqueue_True [OF inv accepted.hyps] .
  from accepted.prems s have "log_ok s (l_accepted l sid) (l_taken l sid)" by (simp add: qlog_inv_def)
  then have "qlog_inv (l\<lparr>l_queue := q', l_accepted := (l_accepted l)(sid := l_accepted l sid @ [m]), l_taken := l_taken l\<rparr>)"
    using s enqueue_inv [OF inv accepted.hyps]
    by (intro qlog_inv_entry [OF accepted.prems s(1) _ q'])
      (auto simp: log_ok_def dest: subseq_drop_tail intro: list_emb_append_mono split: policy.splits)
  then show ?case by simp
next
  case (not_accepted sid m l r q')
  then have inv: "queue_inv (l_queue l)" by (simp add: qlog_inv_def)
  note inv' = enqueue_inv [OF inv not_accepted.hyps(1)]
  from enqueue_not_True [OF inv not_accepted.hyps] show ?case
  proof (elim disjE exE conjE)
    assume "q_streams q' = q_streams (l_queue l)"
    with inv' not_accepted.prems show ?thesis by (simp add: qlog_inv_def)
  next
    fix s f
    assume s: "map_of (q_streams (l_queue l)) sid = Some s"
      and q': "q_streams q' = AList.map_entry sid f (q_streams (l_queue l))"
      and f: "\<not> s_stopped s" "s_policy (f s) = s_policy s" "s_messages (f s) = []"
        "s_policy s = Reliable \<longrightarrow> s_stopped (f s)"
    from not_accepted.prems s have "log_ok s (l_accepted l sid) (l_taken l sid)" by (simp add: qlog_inv_def)
    then have "qlog_inv (l\<lparr>l_queue := q', l_accepted := l_accepted l, l_taken := l_taken l\<rparr>)"
      using f inv' by (intro qlog_inv_entry [OF not_accepted.prems s _ q'])
        (auto simp: log_ok_def dest: subseq_drop_tail split: policy.splits)
    then show ?thesis by simp
  qed
next
  case (taken sid l m q')
  then have inv: "queue_inv (l_queue l)" by (simp add: qlog_inv_def)
  obtain s ms where s: "map_of (q_streams (l_queue l)) sid = Some s" "\<not> s_stopped s" "s_messages s = m # ms"
    and q': "q_streams q' = AList.map_entry sid (\<lambda>t. t\<lparr>s_messages := ms\<rparr>) (q_streams (l_queue l))"
    using dequeue_Some [OF taken.hyps] .
  have "int (length (s_messages s)) \<le> s_maxMessages s" "s_policy s = Latest \<longrightarrow> s_maxMessages s = 1"
    using queue_inv_stream [OF inv s(1)] by (auto simp: stream_ok_def)
  with s have one: "s_policy s = Latest \<longrightarrow> ms = []" by auto
  from taken.prems s have "log_ok s (l_accepted l sid) (l_taken l sid)" by (simp add: qlog_inv_def)
  then have "qlog_inv (l\<lparr>l_queue := q', l_accepted := l_accepted l, l_taken := (l_taken l)(sid := l_taken l sid @ [m])\<rparr>)"
    using s one dequeue_inv [OF inv taken.hyps]
    by (intro qlog_inv_entry [OF taken.prems s(1) _ q']) (auto simp: log_ok_def split: policy.splits)
  then show ?case by simp
next
  case (not_taken sid l r q')
  then show ?case by (auto dest: dequeue_not_Some)
next
  case (peeked sid l r q')
  then show ?case by (auto simp: peek_run)
next
  case (stream_closed sid l r q')
  then have "queue_inv q'" by (auto simp: qlog_inv_def dest: closeStream_inv)
  with stream_closed show ?case
    by (cases "map_of (q_streams (l_queue l)) sid")
      (auto simp: qlog_inv_def closeStream_run closeStream_unknown split: if_splits)
next
  case (cleared l r q')
  then have "queue_inv q'" by (auto simp: qlog_inv_def dest: clear_queue_inv)
  with cleared show ?case by (auto simp: qlog_inv_def clear_queue_def prog_simps)
qed

lemma newDeliveryQueue_empty: "newDeliveryQueue a b c = Inr q \<Longrightarrow> q_streams q = []"
  by (auto simp: newDeliveryQueue_def)

lemma qlog_start_inv: "qlog_start l \<Longrightarrow> qlog_inv l"
  by (auto simp: qlog_start_def qlog_inv_def newDeliveryQueue_inv newDeliveryQueue_empty)

interpretation dq: invariant_system qlog_start qlog_step qlog_inv
  by unfold_locales (blast intro: qlog_start_inv qlog_step_inv)+


section \<open>Properties\<close>

text \<open>
  C11: In every state a delivery queue can reach, the byte counter is exactly the size of the
  pending messages, it never exceeds the peer's byte budget, and neither the number of streams nor
  the messages of a stream exceed their limits; a stopped stream holds nothing.
\<close>

theorem queue_accounting:
  assumes "reachable qlog_start qlog_step l" and "q = l_queue l"
  shows "q_bytes q = total_bytes (q_streams q) \<and> 0 \<le> q_bytes q \<and> q_bytes q \<le> maxBytes (q_options q)
    \<and> int (length (q_streams q)) \<le> maxStreams (q_options q)
    \<and> (\<forall>sid s. map_of (q_streams q) sid = Some s \<longrightarrow>
         int (length (s_messages s)) \<le> s_maxMessages s \<and> (s_stopped s \<longrightarrow> s_messages s = []))"
proof -
  have "queue_inv q" using dq.reachable_inv [OF assms(1)] assms(2) by (simp add: qlog_inv_def)
  then show ?thesis by (auto simp: queue_inv_def stream_ok_def total_bytes_nonneg)
qed

text \<open>
  C10: A reliable stream loses, repeats and reorders nothing: as long as it is not stopped, the
  messages accepted since its registration are the ones handed out followed by the pending ones;
  after a stop what was handed out is still a prefix of what was accepted.
\<close>

theorem reliable_stream_fifo:
  assumes "reachable qlog_start qlog_step l"
    and "map_of (q_streams (l_queue l)) sid = Some s" and "s_policy s = Reliable"
  shows "(\<not> s_stopped s \<longrightarrow> l_accepted l sid = l_taken l sid @ s_messages s)
    \<and> prefix (l_taken l sid) (l_accepted l sid)"
proof -
  have "log_ok s (l_accepted l sid) (l_taken l sid)"
    using dq.reachable_inv [OF assms(1)] assms(2) by (simp add: qlog_inv_def)
  with assms(3) show ?thesis by (auto simp: log_ok_def split: if_splits)
qed

text \<open>
  A latest stream never delivers a stale value: at most one message is pending and it is the
  newest accepted one, and what was handed out is a subsequence of what was accepted.
\<close>

theorem latest_stream_newest:
  assumes "reachable qlog_start qlog_step l"
    and "map_of (q_streams (l_queue l)) sid = Some s" and "s_policy s = Latest"
  shows "length (s_messages s) \<le> 1 \<and> \<not> s_stopped s
    \<and> (\<forall>m \<in> set (s_messages s). m = last (l_accepted l sid))
    \<and> subseq (l_taken l sid) (l_accepted l sid)"
proof -
  have inv: "qlog_inv l" using assms(1) by (rule dq.reachable_inv)
  then have "queue_inv (l_queue l)" by (simp add: qlog_inv_def)
  from queue_inv_stream [OF this assms(2)] assms(3)
  have "length (s_messages s) \<le> 1" and "\<not> s_stopped s" by (auto simp: stream_ok_def)
  moreover from this have "s_messages s = [] \<or> (\<exists>m. s_messages s = [m])" by (cases "s_messages s") auto
  moreover from inv assms(2) have "log_ok s (l_accepted l sid) (l_taken l sid)" by (simp add: qlog_inv_def)
  with assms(3) have "subseq (l_taken l sid @ s_messages s) (l_accepted l sid)"
    and "s_messages s \<noteq> [] \<longrightarrow> last (l_accepted l sid) = hd (s_messages s)"
    by (auto simp: log_ok_def)
  ultimately show ?thesis by (auto dest: subseq_drop_tail)
qed

text \<open>
  Overflow of a reliable stream is never presented as delivery: the call throws
  \<open>slow_consumer\<close>, the bytes of the stream are released, every other stream is untouched, and the
  stream keeps refusing enqueue, dequeue and peek until it is closed and registered again.
\<close>

theorem reliable_overflow_stops:
  assumes inv: "queue_inv q" and s: "map_of (q_streams q) sid = Some s" "s_policy s = Reliable" "\<not> s_stopped s"
    and size: "size_ok q m" and full: "\<not> room q s m"
    and run: "enqueue sid m q = (r, q')"
  shows "r = Inl (Err ''slow_consumer'')
    \<and> q_bytes q' = q_bytes q - message_bytes (s_messages s)
    \<and> (\<forall>other. other \<noteq> sid \<longrightarrow> map_of (q_streams q') other = map_of (q_streams q) other)
    \<and> (\<forall>n. enqueue sid n q' = (Inl (Err ''slow_consumer''), q'))
    \<and> dequeue sid q' = (Inl (Err ''slow_consumer''), q') \<and> peek sid q' = (Inl (Err ''slow_consumer''), q')
    \<and> fst (closeStream sid q') = Inr () \<and> map_of (q_streams (snd (closeStream sid q'))) sid = None"
proof -
  from run have r: "r = Inl (Err ''slow_consumer'')"
    and q': "q' = q\<lparr>q_streams := AList.map_entry sid (\<lambda>t. t\<lparr>s_stopped := True, s_messages := []\<rparr>) (q_streams q),
                     q_bytes := q_bytes q - message_bytes (s_messages s)\<rparr>"
    using full by (auto simp: enqueue_reliable [OF s(1,3) size s(2)])
  have s': "map_of (q_streams q') sid = Some (s\<lparr>s_stopped := True, s_messages := []\<rparr>)"
    using s by (simp add: q' map_of_map_entry')
  show ?thesis
    using r enqueue_stopped [OF s'] dequeue_failing(2) [OF s'] closeStream_run [OF s']
    by (auto simp: peek_run s') (auto simp: q' map_of_map_entry' s)
qed

section \<open>Witnesses\<close>

text \<open>A queue with one reliable and one latest stream of small limits, driven to an overflow.\<close>

definition example_queue :: queue where
  "example_queue =
     \<lparr>q_options = \<lparr>maxStreams = 2, maxBytes = 8, maxMessageBytes = 4\<rparr>,
      q_streams = [(ustr ''odom'', \<lparr>s_policy = Latest, s_maxMessages = 1, s_messages = [[7]], s_stopped = False\<rparr>),
                   (ustr ''ctl'', \<lparr>s_policy = Reliable, s_maxMessages = 1, s_messages = [[1, 2]], s_stopped = False\<rparr>)],
      q_bytes = 3, q_dropped = 0\<rparr>"

definition example_log :: qlog where
  "example_log = \<lparr>l_queue = example_queue,
     l_accepted = (\<lambda>_. [])(ustr ''odom'' := [[7]], ustr ''ctl'' := [[1, 2]]), l_taken = (\<lambda>_. [])\<rparr>"

lemma example_identifiers:
  "identifier_v (Str (ustr ''odom'')) = Inr ()" "identifier_v (Str (ustr ''ctl'')) = Inr ()"
  by (simp_all only: identifier_Inr) (simp_all add: ustr_def range_cls_def unat_code_unit)

lemma example_log_reachable: "reachable qlog_start qlog_step example_log"
proof -
  define opt where "opt = \<lparr>maxStreams = 2, maxBytes = 8, maxMessageBytes = 4\<rparr>"
  define l0 where "l0 = \<lparr>l_queue = \<lparr>q_options = opt, q_streams = [], q_bytes = 0, q_dropped = 0\<rparr>,
    l_accepted = (\<lambda>_. []), l_taken = (\<lambda>_. [])\<rparr>"
  define s1 where "s1 = \<lparr>s_policy = Latest, s_maxMessages = 1, s_messages = [], s_stopped = False\<rparr>"
  define s2 where "s2 = \<lparr>s_policy = Reliable, s_maxMessages = 1, s_messages = [], s_stopped = False\<rparr>"
  define l1 where "l1 = l0\<lparr>l_queue := (l_queue l0)\<lparr>q_streams := [(ustr ''odom'', s1)]\<rparr>\<rparr>"
  define l2 where "l2 = l1\<lparr>l_queue := (l_queue l1)\<lparr>q_streams := [(ustr ''odom'', s1), (ustr ''ctl'', s2)]\<rparr>\<rparr>"
  define l3 where "l3 = l2\<lparr>l_queue := (l_queue l2)\<lparr>q_streams := [(ustr ''odom'', s1\<lparr>s_messages := [[7]]\<rparr>), (ustr ''ctl'', s2)],
    q_bytes := 1\<rparr>, l_accepted := (l_accepted l2)(ustr ''odom'' := [[7]])\<rparr>"
  note defs = opt_def l0_def s1_def s2_def l1_def l2_def l3_def
  have "newDeliveryQueue (NumI 2) (NumI 8) (NumI 4) = Inr (l_queue l0)"
    by (simp add: newDeliveryQueue_def positiveLimit_def MAX_SAFE_INTEGER_def defs failIf_def)
  then have "reachable qlog_start qlog_step l0"
    by (intro reach_start) (auto simp: qlog_start_def)
  moreover have "qlog_step l0 l1"
    using qlog_step.registered [of "ustr ''odom''" "''latest''" "NumI 1" l0 "l_queue l1"] example_identifiers
    by (simp add: defs register_run fresh_stream_def positiveLimit_def MAX_SAFE_INTEGER_def fun_upd_idem)
  moreover have "qlog_step l1 l2"
    using qlog_step.registered [of "ustr ''ctl''" "''reliable''" "NumI 1" l1 "l_queue l2"] example_identifiers
    by (simp add: defs register_run fresh_stream_def positiveLimit_def MAX_SAFE_INTEGER_def fun_upd_idem)
  moreover have "qlog_step l2 l3"
    using qlog_step.accepted [of "ustr ''odom''" "[7]" l2 "l_queue l3"]
    by (simp add: defs enqueue_latest size_ok_def)
  moreover have "qlog_step l3 example_log"
    using qlog_step.accepted [of "ustr ''ctl''" "[1, 2]" l3 "example_queue"]
    by (simp add: defs enqueue_reliable size_ok_def room_def example_queue_def example_log_def)
  ultimately show ?thesis by (meson reach_step)
qed

lemma example_streams:
  "map_of (q_streams example_queue) (ustr ''odom'') =
     Some \<lparr>s_policy = Latest, s_maxMessages = 1, s_messages = [[7]], s_stopped = False\<rparr>"
  "map_of (q_streams example_queue) (ustr ''ctl'') =
     Some \<lparr>s_policy = Reliable, s_maxMessages = 1, s_messages = [[1, 2]], s_stopped = False\<rparr>"
  by (simp_all add: example_queue_def)

lemma l_queue_example [simp]: "l_queue example_log = example_queue"
  by (simp add: example_log_def)

theorem queue_accounting_witness:
  "reachable qlog_start qlog_step example_log \<and> q_bytes example_queue = total_bytes (q_streams example_queue)"
  using queue_accounting [OF example_log_reachable refl] example_log_reachable by simp

theorem reliable_stream_fifo_witness:
  "reachable qlog_start qlog_step example_log
   \<and> l_accepted example_log (ustr ''ctl'') = l_taken example_log (ustr ''ctl'') @ [[1, 2]]"
  using reliable_stream_fifo [OF example_log_reachable, of "ustr ''ctl''"] example_log_reachable
  by (simp add: example_streams)

theorem latest_stream_newest_witness:
  "reachable qlog_start qlog_step example_log \<and> [7] = last (l_accepted example_log (ustr ''odom''))"
  using latest_stream_newest [OF example_log_reachable, of "ustr ''odom''"] example_log_reachable
  by (simp add: example_streams)

theorem reliable_overflow_stops_witness:
  "queue_inv example_queue
   \<and> fst (enqueue (ustr ''ctl'') [3] example_queue) = Inl (Err ''slow_consumer'')
   \<and> q_bytes (snd (enqueue (ustr ''ctl'') [3] example_queue)) = 1"
proof -
  have inv: "queue_inv example_queue"
    using dq.reachable_inv [OF example_log_reachable] by (simp add: qlog_inv_def)
  have "size_ok example_queue [3]"
    and "\<not> room example_queue \<lparr>s_policy = Reliable, s_maxMessages = 1, s_messages = [[1, 2]], s_stopped = False\<rparr> [3]"
    by (simp_all add: size_ok_def room_def example_queue_def)
  then show ?thesis
    using reliable_overflow_stops [OF inv example_streams(2) _ _ _ _ surjective_pairing, of "[3]"] inv
    by (simp add: example_queue_def)
qed

end
