(* ===== verification/Command_Guard.thy ===== *)
theory Command_Guard
  imports Session_Validation
begin

text \<open>
  \<open>session/command-guard.ts\<close>: the authority over robot commands. The injected \<open>authorize\<close> hook may
  call back into the guard, so it is a program over the guard's state (\<open>hook\<close>); a reading of the
  injected clock is an argument. A ticket is the object \<open>prepare\<close> returns: its closure lives in
  \<open>g_tickets\<close> and is named by its index. \<open>g_trace\<close> is a history variable: one entry for each call
  of a \<open>publish\<close> callback, in order. Limits are integers once \<open>positiveLimit\<close> has accepted them.
\<close>

section \<open>State\<close>

record commandIdentity =
  c_sessionId :: ustring
  c_epoch :: ustring
  c_handle :: ustring
  c_topic :: ustring

record commandRequest =
  r_sessionId :: ustring
  r_epoch :: ustring
  r_handle :: ustring
  r_leaseId :: ustring
  r_seq :: ustring

record lease =
  lease_id :: ustring
  expiresAt :: number

record handleState =
  h_identity :: commandIdentity
  h_leaseMs :: int
  h_lease :: "lease option"
  h_received :: int
  h_published :: int

datatype phase = POpen | PArm | PReceive | PPublish

record ticket =
  t_request :: commandRequest
  t_seq :: int
  t_consumed :: bool

record publication =
  p_ticket :: nat
  p_identity :: commandIdentity
  p_lease :: lease
  p_seq :: int
  p_time :: number

record guard =
  g_maxSessions :: int
  g_maxHandles :: int
  g_leaseMs :: int
  g_prefix :: ustring
  g_nextId :: nat
  g_lastTime :: number
  g_sessions :: "(ustring \<times> ustring) list"
  g_handles :: "(ustring \<times> handleState) list"
  g_closed :: bool
  g_tickets :: "ticket list"
  g_trace :: "publication list"

type_synonym hook = "commandIdentity \<Rightarrow> phase \<Rightarrow> (guard, jsval) prog"

section \<open>Operations\<close>

text \<open>\<open>now()\<close>: a clock reading must be finite, within the safe integers, and not run backwards.\<close>

definition guard_now :: "number \<Rightarrow> (guard, number) prog" where
  "guard_now clock =
     bindE (getE g_lastTime) (\<lambda>last.
     seqE (throwIf (\<not> isFinite clock \<or> num_less (NumI MAX_SAFE_INTEGER) clock \<or> num_less clock last)
             (Err ''invalid_clock''))
    (seqE (modE (\<lambda>g. g\<lparr>g_lastTime := clock\<rparr>)) (retE clock)))"

definition assertOpen :: "(guard, unit) prog" where
  "assertOpen = bindE (getE g_closed) (\<lambda>closed. throwIf closed (Err ''guard_closed''))"

definition id_text :: "ustring \<Rightarrow> nat \<Rightarrow> ustring" where
  "id_text pre n = pre @ ustr '':'' @ ustr (show_nat n)"

definition guard_id :: "(guard, ustring) prog" where
  "guard_id =
     seqE (modE (\<lambda>g. g\<lparr>g_nextId := g_nextId g + 1\<rparr>)) (getE (\<lambda>g. id_text (g_prefix g) (g_nextId g)))"

definition authorize :: "hook \<Rightarrow> commandIdentity \<Rightarrow> phase \<Rightarrow> (guard, unit) prog" where
  "authorize hook ident ph =
     bindE (hook ident ph) (\<lambda>verdict. throwIf (verdict \<noteq> Bool True) (Err ''unauthorized''))"

definition owned :: "ustring \<Rightarrow> ustring \<Rightarrow> (guard, handleState) prog" where
  "owned sessionId handle =
     seqE assertOpen
    (bindE (getE (\<lambda>g. map_of (g_handles g) handle)) (\<lambda>found.
       case found of
         None \<Rightarrow> throwE (Err ''invalid_owner'')
       | Some st \<Rightarrow>
           if c_sessionId (h_identity st) \<noteq> sessionId then throwE (Err ''invalid_owner'') else retE st))"

text \<open>The constructor: a non-function callback is refused, and the clock is read once.\<close>

definition newCommandGuard ::
    "number \<Rightarrow> number \<Rightarrow> number \<Rightarrow> bool \<Rightarrow> bool \<Rightarrow> ustring \<Rightarrow> number \<Rightarrow> guard result" where
  "newCommandGuard nSessions nHandles nLease clockIsFunction authorizeIsFunction pre clock =
     bindR (positiveLimit nSessions) (\<lambda>_.
     bindR (positiveLimit nHandles) (\<lambda>_.
     bindR (positiveLimit nLease) (\<lambda>_.
     bindR (failIf (\<not> clockIsFunction \<or> \<not> authorizeIsFunction) (Err ''invalid_callback'')) (\<lambda>_.
     (case guard_now clock
        \<lparr>g_maxSessions = num_int nSessions, g_maxHandles = num_int nHandles, g_leaseMs = num_int nLease,
         g_prefix = pre, g_nextId = 0, g_lastTime = NumI 0, g_sessions = [], g_handles = [],
         g_closed = False, g_tickets = [], g_trace = []\<rparr>
      of (Inl e, _) \<Rightarrow> Inl e | (Inr _, g) \<Rightarrow> Inr g)))))"

definition openSession :: "ustring \<Rightarrow> (guard, ustring) prog" where
  "openSession epoch =
     seqE assertOpen
    (seqE (liftE (identifier_v (Str epoch)))
    (bindE (getE (\<lambda>g. int (length (g_sessions g)) \<ge> g_maxSessions g)) (\<lambda>full.
     seqE (throwIf full (Err ''session_limit''))
    (bindE guard_id (\<lambda>sid.
     seqE (modE (\<lambda>g. g\<lparr>g_sessions := AList.update sid epoch (g_sessions g)\<rparr>)) (retE sid))))))"

text \<open>\<open>/^\/(?:[A-Za-z_][A-Za-z0-9_]*\/)*[A-Za-z_][A-Za-z0-9_]*$/\<close>\<close>

definition head_cls :: "16 word \<Rightarrow> bool" where
  "head_cls c \<longleftrightarrow> alpha_cls c \<or> char_cls (CHR ''_'') c"

definition tail_cls :: "16 word \<Rightarrow> bool" where
  "tail_cls c \<longleftrightarrow> alnum_cls c \<or> char_cls (CHR ''_'') c"

definition name_rx :: "16 word rx" where
  "name_rx = RSeq (RSet head_cls) (RStar (RSet tail_cls))"

definition topic_rx :: "16 word rx" where
  "topic_rx = RSeq (rlit ''/'') (RSeq (RStar (RSeq name_rx (rlit ''/''))) name_rx)"

definition fresh_handle :: "commandIdentity \<Rightarrow> int \<Rightarrow> handleState" where
  "fresh_handle ident leaseMs =
     \<lparr>h_identity = ident, h_leaseMs = leaseMs, h_lease = None, h_received = -1, h_published = -1\<rparr>"

definition openHandle :: "hook \<Rightarrow> ustring \<Rightarrow> ustring \<Rightarrow> number option \<Rightarrow> (guard, ustring) prog" where
  "openHandle hook sessionId topic leaseArg =
     seqE assertOpen
    (bindE (getE (\<lambda>g. case leaseArg of None \<Rightarrow> NumI (g_leaseMs g) | Some n \<Rightarrow> n)) (\<lambda>leaseMs.
     seqE (liftE (positiveLimit leaseMs))
    (bindE (getE (\<lambda>g. map_of (g_sessions g) sessionId)) (\<lambda>found.
     case found of
       None \<Rightarrow> throwE (Err ''unknown_session'')
     | Some epoch \<Rightarrow>
         seqE (throwIf (\<not> rx_match topic_rx topic \<or> length topic > 247) (Err ''invalid_topic''))
        (bindE guard_id (\<lambda>handle.
         let ident = \<lparr>c_sessionId = sessionId, c_epoch = epoch, c_handle = handle, c_topic = topic\<rparr> in
         seqE (authorize hook ident POpen)
        (bindE (getE (\<lambda>g. map_of (g_sessions g) sessionId = None)) (\<lambda>gone.
         seqE (throwIf gone (Err ''unknown_session''))
        (bindE (getE (\<lambda>g. int (length (g_handles g)) \<ge> g_maxHandles g)) (\<lambda>full.
         seqE (throwIf full (Err ''handle_limit''))
        (seqE (modE (\<lambda>g. g\<lparr>g_handles := AList.update handle (fresh_handle ident (num_int leaseMs)) (g_handles g)\<rparr>))
              (retE handle))))))))))))"

text \<open>A live lease of another session on the topic: the first loop of \<open>arm\<close>.\<close>

definition writer_busy :: "guard \<Rightarrow> ustring \<Rightarrow> ustring \<Rightarrow> number \<Rightarrow> bool" where
  "writer_busy g topic sessionId now \<longleftrightarrow>
     list_ex (\<lambda>(_, c). c_topic (h_identity c) = topic \<and> c_sessionId (h_identity c) \<noteq> sessionId
                \<and> (case h_lease c of None \<Rightarrow> False | Some l \<Rightarrow> num_less now (expiresAt l))) (g_handles g)"

definition clear_leases :: "ustring \<Rightarrow> guard \<Rightarrow> guard" where
  "clear_leases topic g =
     g\<lparr>g_handles := map (\<lambda>(k, c). (k, if c_topic (h_identity c) = topic then c\<lparr>h_lease := None\<rparr> else c))
                        (g_handles g)\<rparr>"

text \<open>Mutation of the registered handle object.\<close>

definition set_handle :: "ustring \<Rightarrow> (handleState \<Rightarrow> handleState) \<Rightarrow> (guard, unit) prog" where
  "set_handle handle f = modE (\<lambda>g. g\<lparr>g_handles := AList.map_entry handle f (g_handles g)\<rparr>)"

definition arm :: "hook \<Rightarrow> number \<Rightarrow> ustring \<Rightarrow> ustring \<Rightarrow> (guard, lease) prog" where
  "arm hook clock sessionId handle =
     bindE (owned sessionId handle) (\<lambda>st0.
     seqE (authorize hook (h_identity st0) PArm)
    (bindE (owned sessionId handle) (\<lambda>st.
     bindE (guard_now clock) (\<lambda>now.
     bindE (getE (\<lambda>g. writer_busy g (c_topic (h_identity st)) sessionId now)) (\<lambda>busy.
     seqE (throwIf busy (Err ''writer_busy''))
    (let expires = num_add now (NumI (h_leaseMs st)) in
     seqE (throwIf (num_less (NumI MAX_SAFE_INTEGER) expires) (Err ''invalid_clock''))
    (seqE (modE (clear_leases (c_topic (h_identity st))))
    (bindE guard_id (\<lambda>leaseId.
     let l = \<lparr>lease_id = leaseId, expiresAt = expires\<rparr> in
     seqE (set_handle handle (\<lambda>c. c\<lparr>h_lease := Some l\<rparr>)) (retE l)))))))))) "

definition validate :: "hook \<Rightarrow> number \<Rightarrow> commandRequest \<Rightarrow> phase \<Rightarrow> (guard, handleState) prog" where
  "validate hook clock request ph =
     bindE (owned (r_sessionId request) (r_handle request)) (\<lambda>st0.
     seqE (authorize hook (h_identity st0) ph)
    (bindE (owned (r_sessionId request) (r_handle request)) (\<lambda>st.
     seqE (throwIf (r_epoch request \<noteq> c_epoch (h_identity st)) (Err ''invalid_epoch''))
    (case h_lease st of
       None \<Rightarrow> throwE (Err ''invalid_lease'')
     | Some l \<Rightarrow>
         seqE (throwIf (r_leaseId request \<noteq> lease_id l) (Err ''invalid_lease''))
        (bindE (guard_now clock) (\<lambda>now.
         seqE (throwIf (num_le (expiresAt l) now) (Err ''lease_expired''))
         (retE st)))))))"

definition prepare :: "hook \<Rightarrow> number \<Rightarrow> commandRequest \<Rightarrow> (guard, nat) prog" where
  "prepare hook clock request =
     bindE (liftE (sequence (Str (r_seq request)))) (\<lambda>seq.
     bindE (validate hook clock request PReceive) (\<lambda>st.
     seqE (throwIf (seq \<le> h_received st) (Err ''stale_sequence''))
    (seqE (set_handle (r_handle request) (\<lambda>c. c\<lparr>h_received := seq\<rparr>))
    (bindE (getE (\<lambda>g. length (g_tickets g))) (\<lambda>t.
     seqE (modE (\<lambda>g. g\<lparr>g_tickets := g_tickets g @ [\<lparr>t_request = request, t_seq = seq, t_consumed = False\<rparr>]\<rparr>))
          (retE t))))))"

text \<open>
  \<open>ticket.publish(callback)\<close> of the \<open>t\<close>-th ticket; \<open>None\<close> stands for an argument that is not a
  function. \<open>record_publication\<close> is the history of the callback being called.
\<close>

definition record_publication :: "nat \<Rightarrow> handleState \<Rightarrow> int \<Rightarrow> guard \<Rightarrow> guard" where
  "record_publication t st seq g =
     g\<lparr>g_trace := g_trace g @
        (case h_lease st of None \<Rightarrow> []
         | Some l \<Rightarrow> [\<lparr>p_ticket = t, p_identity = h_identity st, p_lease = l, p_seq = seq, p_time = g_lastTime g\<rparr>])\<rparr>"

definition ticket_publish :: "hook \<Rightarrow> number \<Rightarrow> nat \<Rightarrow> (guard, unit) prog option \<Rightarrow> (guard, unit) prog" where
  "ticket_publish hook clock t callback =
     bindE (getE (\<lambda>g. g_tickets g ! t)) (\<lambda>tk.
     seqE (throwIf (t_consumed tk) (Err ''ticket_consumed''))
    (seqE (modE (\<lambda>g. g\<lparr>g_tickets := (g_tickets g)[t := tk\<lparr>t_consumed := True\<rparr>]\<rparr>))
    (case callback of
       None \<Rightarrow> throwE (Err ''invalid_callback'')
     | Some publish \<Rightarrow>
         bindE (validate hook clock (t_request tk) PPublish) (\<lambda>current.
         seqE (throwIf (t_seq tk \<le> h_published current) (Err ''stale_sequence''))
        (seqE (set_handle (r_handle (t_request tk)) (\<lambda>c. c\<lparr>h_published := t_seq tk\<rparr>))
        (seqE (modE (record_publication t current (t_seq tk)))
         publish))))))"

definition closeHandle :: "ustring \<Rightarrow> ustring \<Rightarrow> (guard, unit) prog" where
  "closeHandle sessionId handle =
     bindE (owned sessionId handle) (\<lambda>_.
     modE (\<lambda>g. g\<lparr>g_handles := AList.delete handle (g_handles g)\<rparr>))"

definition revokeSession :: "ustring \<Rightarrow> (guard, unit) prog" where
  "revokeSession sessionId =
     seqE (modE (\<lambda>g. g\<lparr>g_sessions := AList.delete sessionId (g_sessions g)\<rparr>))
          (modE (\<lambda>g. g\<lparr>g_handles := filter (\<lambda>(_, st). c_sessionId (h_identity st) \<noteq> sessionId) (g_handles g)\<rparr>))"

definition guard_close :: "(guard, unit) prog" where
  "guard_close = modE (\<lambda>g. g\<lparr>g_closed := True, g_sessions := [], g_handles := []\<rparr>)"

definition guard_stats :: "guard \<Rightarrow> nat \<times> nat" where
  "guard_stats g = (length (g_sessions g), length (g_handles g))"

section \<open>Callers\<close>

text \<open>
  A caller of the guard, hooks and publish callbacks included, as a tree: each call carries the
  clock reading it sees, the calls its hook makes back into the guard and the hook's verdict
  (\<open>Inl\<close> when the hook throws), and likewise for the publish callback. A ticket that \<open>prepare\<close>
  has not returned cannot be used.
\<close>

datatype guard_call =
    COpenSession ustring
  | COpenHandle ustring ustring "number option" "guard_call list" "jsval result"
  | CArm number ustring ustring "guard_call list" "jsval result"
  | CPrepare number commandRequest "guard_call list" "jsval result"
  | CPublish number nat "guard_call list" "jsval result" "guard_call list" "unit result"
  | CPublishNoFunction nat
  | CCloseHandle ustring ustring
  | CRevoke ustring
  | CClose

fun run_call :: "guard_call \<Rightarrow> guard \<Rightarrow> guard"
  and run_calls :: "guard_call list \<Rightarrow> guard \<Rightarrow> guard" where
  "run_call (COpenSession epoch) g = snd (openSession epoch g)"
| "run_call (COpenHandle sid topic ms script verdict) g =
     snd (openHandle (\<lambda>_ _ h. (verdict, run_calls script h)) sid topic ms g)"
| "run_call (CArm clock sid handle script verdict) g =
     snd (arm (\<lambda>_ _ h. (verdict, run_calls script h)) clock sid handle g)"
| "run_call (CPrepare clock request script verdict) g =
     snd (prepare (\<lambda>_ _ h. (verdict, run_calls script h)) clock request g)"
| "run_call (CPublish clock t script verdict callback outcome) g =
     (if t < length (g_tickets g)
      then snd (ticket_publish (\<lambda>_ _ h. (verdict, run_calls script h)) clock t
                  (Some (\<lambda>h. (outcome, run_calls callback h))) g)
      else g)"
| "run_call (CPublishNoFunction t) g =
     (if t < length (g_tickets g)
      then snd (ticket_publish (\<lambda>_ _ h. (Inl Foreign, h)) (NumI 0) t None g) else g)"
| "run_call (CCloseHandle sid handle) g = snd (closeHandle sid handle g)"
| "run_call (CRevoke sid) g = snd (revokeSession sid g)"
| "run_call CClose g = snd (guard_close g)"
| "run_calls [] g = g"
| "run_calls (c # cs) g = run_calls cs (run_call c g)"

section \<open>Invariant\<close>

definition issued :: "guard \<Rightarrow> ustring \<Rightarrow> bool" where
  "issued g x \<longleftrightarrow> (\<exists>n \<le> g_nextId g. x = id_text (g_prefix g) n)"

text \<open>\<open>x\<close> was issued no later than \<open>y\<close>.\<close>

definition issued_before :: "ustring \<Rightarrow> ustring \<Rightarrow> ustring \<Rightarrow> bool" where
  "issued_before pre x y \<longleftrightarrow> (\<exists>m n. m \<le> n \<and> x = id_text pre m \<and> y = id_text pre n)"

definition handle_ok :: "guard \<Rightarrow> ustring \<Rightarrow> handleState \<Rightarrow> bool" where
  "handle_ok g h st \<longleftrightarrow>
     c_handle (h_identity st) = h \<and> issued g h
     \<and> map_of (g_sessions g) (c_sessionId (h_identity st)) = Some (c_epoch (h_identity st))
     \<and> 0 < h_leaseMs st \<and> h_published st \<le> h_received st \<and> h_received st < 2 ^ 64
     \<and> (\<forall>e \<in> set (g_trace g). c_handle (p_identity e) = h \<longrightarrow> p_seq e \<le> h_published st)
     \<and> (\<forall>l. h_lease st = Some l \<longrightarrow> issued g (lease_id l) \<and> expiresAt l \<noteq> NaN
          \<and> (\<forall>e \<in> set (g_trace g). c_topic (p_identity e) = c_topic (h_identity st) \<longrightarrow>
               issued_before (g_prefix g) (lease_id (p_lease e)) (lease_id l)))"

definition ticket_ok :: "guard \<Rightarrow> ticket \<Rightarrow> bool" where
  "ticket_ok g tk \<longleftrightarrow>
     issued g (r_handle (t_request tk)) \<and> t_seq tk < 2 ^ 64
     \<and> (\<forall>st. map_of (g_handles g) (r_handle (t_request tk)) = Some st \<longrightarrow> t_seq tk \<le> h_received st)"

definition entry_ok :: "guard \<Rightarrow> publication \<Rightarrow> bool" where
  "entry_ok g e \<longleftrightarrow>
     issued g (c_handle (p_identity e)) \<and> issued g (lease_id (p_lease e))
     \<and> num_less (p_time e) (expiresAt (p_lease e)) \<and> num_le (p_time e) (g_lastTime g)
     \<and> p_ticket e < length (g_tickets g) \<and> t_consumed (g_tickets g ! p_ticket e)"

definition entry_order :: "ustring \<Rightarrow> publication \<Rightarrow> publication \<Rightarrow> bool" where
  "entry_order pre e f \<longleftrightarrow>
     (c_handle (p_identity e) = c_handle (p_identity f) \<longrightarrow> p_seq e < p_seq f)
     \<and> (c_topic (p_identity e) = c_topic (p_identity f) \<longrightarrow>
          issued_before pre (lease_id (p_lease e)) (lease_id (p_lease f)))
     \<and> p_ticket e \<noteq> p_ticket f \<and> num_le (p_time e) (p_time f)"

text \<open>The topic on which a handle holds a lease.\<close>

definition lease_topic :: "(ustring \<times> handleState) list \<Rightarrow> ustring \<Rightarrow> ustring option" where
  "lease_topic hs h =
     (case map_of hs h of None \<Rightarrow> None
      | Some st \<Rightarrow> if h_lease st = None then None else Some (c_topic (h_identity st)))"

definition exclusive_leases :: "(ustring \<times> handleState) list \<Rightarrow> bool" where
  "exclusive_leases hs \<longleftrightarrow>
     (\<forall>h h' topic. lease_topic hs h = Some topic \<and> lease_topic hs h' = Some topic \<longrightarrow> h = h')"

definition registry_ok :: "guard \<Rightarrow> bool" where
  "registry_ok g \<longleftrightarrow>
     0 < g_maxSessions g \<and> 0 < g_maxHandles g \<and> 0 < g_leaseMs g \<and> g_leaseMs g \<le> MAX_SAFE_INTEGER
     \<and> distinct (keys (g_sessions g)) \<and> distinct (keys (g_handles g))
     \<and> int (length (g_sessions g)) \<le> g_maxSessions g \<and> int (length (g_handles g)) \<le> g_maxHandles g
     \<and> (g_closed g \<longrightarrow> g_sessions g = [] \<and> g_handles g = [])
     \<and> (\<forall>sid e. map_of (g_sessions g) sid = Some e \<longrightarrow> issued g sid)
     \<and> isFinite (g_lastTime g)"

definition guard_inv :: "guard \<Rightarrow> bool" where
  "guard_inv g \<longleftrightarrow>
     registry_ok g \<and> exclusive_leases (g_handles g)
     \<and> (\<forall>h st. map_of (g_handles g) h = Some st \<longrightarrow> handle_ok g h st)
     \<and> (\<forall>tk \<in> set (g_tickets g). ticket_ok g tk)
     \<and> (\<forall>e \<in> set (g_trace g). entry_ok g e)
     \<and> sorted_wrt (entry_order (g_prefix g)) (g_trace g)"

text \<open>
  How a guard may evolve: identifiers are never reused, a session keeps its epoch, a discarded
  session or handle never comes back and never publishes again, and neither does a used ticket.
\<close>

definition ticket_evolves :: "ticket \<Rightarrow> ticket \<Rightarrow> bool" where
  "ticket_evolves t t' \<longleftrightarrow>
     t_request t' = t_request t \<and> t_seq t' = t_seq t \<and> (t_consumed t \<longrightarrow> t_consumed t')"

definition dead_handle :: "guard \<Rightarrow> ustring \<Rightarrow> bool" where
  "dead_handle g h \<longleftrightarrow> issued g h \<and> map_of (g_handles g) h = None"

definition dead_session :: "guard \<Rightarrow> ustring \<Rightarrow> bool" where
  "dead_session g sid \<longleftrightarrow> issued g sid \<and> map_of (g_sessions g) sid = None"

definition entry_new :: "guard \<Rightarrow> publication \<Rightarrow> bool" where
  "entry_new g e \<longleftrightarrow>
     \<not> dead_session g (c_sessionId (p_identity e)) \<and> \<not> dead_handle g (c_handle (p_identity e))
     \<and> (p_ticket e < length (g_tickets g) \<longrightarrow> \<not> t_consumed (g_tickets g ! p_ticket e))"

definition guard_evolves :: "guard \<Rightarrow> guard \<Rightarrow> bool" where
  "guard_evolves g g' \<longleftrightarrow>
     g_prefix g' = g_prefix g \<and> g_maxSessions g' = g_maxSessions g \<and> g_maxHandles g' = g_maxHandles g
     \<and> g_nextId g \<le> g_nextId g' \<and> (g_closed g \<longrightarrow> g_closed g')
     \<and> (\<forall>sid. issued g sid \<longrightarrow> map_of (g_sessions g') sid = None \<or> map_of (g_sessions g') sid = map_of (g_sessions g) sid)
     \<and> (\<forall>h. dead_handle g h \<longrightarrow> map_of (g_handles g') h = None)
     \<and> (\<exists>olds news. g_tickets g' = olds @ news \<and> list_all2 ticket_evolves (g_tickets g) olds
          \<and> (\<forall>tk \<in> set news. \<not> dead_handle g (r_handle (t_request tk))))
     \<and> (\<exists>new. g_trace g' = g_trace g @ new \<and> (\<forall>e \<in> set new. entry_new g e))"

text \<open>A piece of code that keeps the invariant and lets the guard evolve only in this way.\<close>

definition guard_safe :: "(guard, 'a) prog \<Rightarrow> bool" where
  "guard_safe m \<longleftrightarrow> (\<forall>g. guard_inv g \<longrightarrow> guard_inv (snd (m g)) \<and> guard_evolves g (snd (m g)))"

section \<open>Lemmas on identifiers and evolution\<close>

lemma id_text_inject [simp]: "id_text pre m = id_text pre n \<longleftrightarrow> m = n"
  by (simp add: id_text_def show_nat_inject)

lemma issued_next: "issued g x \<Longrightarrow> x \<noteq> id_text (g_prefix g) (Suc (g_nextId g))"
  by (auto simp: issued_def)

lemma issued_mono: "issued g x \<Longrightarrow> g_prefix g' = g_prefix g \<Longrightarrow> g_nextId g \<le> g_nextId g' \<Longrightarrow> issued g' x"
  by (auto simp: issued_def intro: le_trans)

lemma issued_before_next: "issued g x \<Longrightarrow> issued_before (g_prefix g) x (id_text (g_prefix g) (Suc (g_nextId g)))"
  by (auto simp: issued_def issued_before_def intro: le_SucI)

lemma issued_before_refl: "issued g x \<Longrightarrow> issued_before (g_prefix g) x x"
  by (auto simp: issued_def issued_before_def)

lemma ticket_evolves_refl [simp]: "ticket_evolves t t"
  by (simp add: ticket_evolves_def)

lemma list_ticket_evolves_refl [simp]: "list_all2 ticket_evolves ts ts"
  by (rule list_all2_refl) simp

lemma guard_evolves_refl [simp]: "guard_evolves g g"
proof -
  have "\<exists>olds news. g_tickets g = olds @ news \<and> list_all2 ticket_evolves (g_tickets g) olds
      \<and> (\<forall>tk \<in> set news. \<not> dead_handle g (r_handle (t_request tk)))"
    by (intro exI [of _ "g_tickets g"] exI [of _ "[]"]) simp
  then show ?thesis by (simp add: guard_evolves_def dead_handle_def)
qed

lemma guard_evolves_dead:
  assumes "guard_evolves g g'"
  shows "issued g x \<Longrightarrow> issued g' x" "dead_handle g h \<Longrightarrow> dead_handle g' h"
    "dead_session g sid \<Longrightarrow> dead_session g' sid"
proof -
  show i: "issued g x \<Longrightarrow> issued g' x" for x
    using assms by (auto simp: guard_evolves_def intro: issued_mono)
  show "dead_handle g h \<Longrightarrow> dead_handle g' h"
    using assms i by (auto simp: guard_evolves_def dead_handle_def)
  show "dead_session g sid \<Longrightarrow> dead_session g' sid"
    using assms i unfolding guard_evolves_def dead_session_def by metis
qed

lemma guard_evolves_ticket:
  assumes "guard_evolves g g'" and "t < length (g_tickets g)"
  shows "t < length (g_tickets g') \<and> ticket_evolves (g_tickets g ! t) (g_tickets g' ! t)"
proof -
  from assms(1) obtain olds news where "g_tickets g' = olds @ news" "list_all2 ticket_evolves (g_tickets g) olds"
    by (auto simp: guard_evolves_def)
  with assms(2) show ?thesis
    using list_all2_lengthD [of ticket_evolves "g_tickets g" olds] by (auto simp: nth_append list_all2_nthD)
qed

lemma entry_new_back:
  assumes "guard_evolves g g'" and "entry_new g' e"
  shows "entry_new g e"
  using assms(2) guard_evolves_dead [OF assms(1)] guard_evolves_ticket [OF assms(1), of "p_ticket e"]
  by (auto simp: entry_new_def ticket_evolves_def)

lemma ticket_evolves_trans: "ticket_evolves a b \<Longrightarrow> ticket_evolves b c \<Longrightarrow> ticket_evolves a c"
  by (simp add: ticket_evolves_def)

lemma guard_evolves_trans:
  assumes 1: "guard_evolves a b" and 2: "guard_evolves b c"
  shows "guard_evolves a c"
proof -
  obtain o1 n1 where t1: "g_tickets b = o1 @ n1" "list_all2 ticket_evolves (g_tickets a) o1"
      "\<forall>tk \<in> set n1. \<not> dead_handle a (r_handle (t_request tk))"
    using 1 by (auto simp: guard_evolves_def)
  obtain o2 n2 where t2: "g_tickets c = o2 @ n2" "list_all2 ticket_evolves (g_tickets b) o2"
      "\<forall>tk \<in> set n2. \<not> dead_handle b (r_handle (t_request tk))"
    using 2 by (auto simp: guard_evolves_def)
  from t2(2) t1(1) obtain p q where pq: "o2 = p @ q" "list_all2 ticket_evolves o1 p" "list_all2 ticket_evolves n1 q"
    by (auto simp: list_all2_append1)
  have "list_all2 ticket_evolves (g_tickets a) p"
    using list_all2_trans [OF ticket_evolves_trans t1(2) pq(2)] .
  moreover have "\<not> dead_handle a (r_handle (t_request tk))" if "tk \<in> set (q @ n2)" for tk
  proof (cases "tk \<in> set q")
    case True
    then obtain i where i: "i < length q" "tk = q ! i" by (metis in_set_conv_nth)
    with pq(3) have "ticket_evolves (n1 ! i) tk" "i < length n1"
      by (auto simp: list_all2_nthD2 list_all2_lengthD)
    then show ?thesis using t1(3) by (auto simp: ticket_evolves_def)
  next
    case False
    with that t2(3) show ?thesis using guard_evolves_dead(2) [OF 1] by auto
  qed
  ultimately have tickets: "\<exists>olds news. g_tickets c = olds @ news \<and> list_all2 ticket_evolves (g_tickets a) olds
      \<and> (\<forall>tk \<in> set news. \<not> dead_handle a (r_handle (t_request tk)))"
    using t2(1) pq(1) by (metis append.assoc)
  obtain w1 where w1: "g_trace b = g_trace a @ w1" "\<forall>e \<in> set w1. entry_new a e"
    using 1 by (auto simp: guard_evolves_def)
  obtain w2 where w2: "g_trace c = g_trace b @ w2" "\<forall>e \<in> set w2. entry_new b e"
    using 2 by (auto simp: guard_evolves_def)
  have trace: "\<exists>new. g_trace c = g_trace a @ new \<and> (\<forall>e \<in> set new. entry_new a e)"
    using w1 w2 entry_new_back [OF 1] by (intro exI [of _ "w1 @ w2"]) auto
  have "map_of (g_sessions c) sid = None \<or> map_of (g_sessions c) sid = map_of (g_sessions a) sid"
    if "issued a sid" for sid
    using 1 2 that guard_evolves_dead(1) [OF 1, of sid] unfolding guard_evolves_def by metis
  moreover have "map_of (g_handles c) h = None" if "dead_handle a h" for h
    using 2 guard_evolves_dead(2) [OF 1 that] by (simp add: guard_evolves_def)
  ultimately show ?thesis
    using 1 2 tickets trace unfolding guard_evolves_def by (smt (verit) le_trans)
qed

definition unused_handle :: "guard \<Rightarrow> ustring \<Rightarrow> bool" where
  "unused_handle g h \<longleftrightarrow> dead_handle g h
     \<and> (\<forall>e \<in> set (g_trace g). c_handle (p_identity e) \<noteq> h)
     \<and> (\<forall>tk \<in> set (g_tickets g). r_handle (t_request tk) \<noteq> h)"

lemma unused_handle_evolves:
  assumes "unused_handle g h" and "guard_evolves g g'"
  shows "unused_handle g' h"
proof -
  obtain olds news where t: "g_tickets g' = olds @ news" "list_all2 ticket_evolves (g_tickets g) olds"
      "\<forall>tk \<in> set news. \<not> dead_handle g (r_handle (t_request tk))"
    using assms(2) by (auto simp: guard_evolves_def)
  obtain new where "g_trace g' = g_trace g @ new" "\<forall>e \<in> set new. entry_new g e"
    using assms(2) by (auto simp: guard_evolves_def)
  then have "\<forall>e \<in> set (g_trace g'). c_handle (p_identity e) \<noteq> h"
    using assms(1) by (auto simp: unused_handle_def entry_new_def)
  moreover have "r_handle (t_request tk) \<noteq> h" if "tk \<in> set olds" for tk
  proof -
    from that obtain i where "i < length olds" "tk = olds ! i" by (metis in_set_conv_nth)
    then have "ticket_evolves (g_tickets g ! i) tk" "i < length (g_tickets g)"
      using t(2) by (auto simp: list_all2_nthD2 list_all2_lengthD)
    then show ?thesis using assms(1) by (auto simp: unused_handle_def ticket_evolves_def)
  qed
  ultimately show ?thesis
    using assms guard_evolves_dead(2) [OF assms(2)] t by (auto simp: unused_handle_def)
qed

lemma evolves_add_session:
  assumes "guard_evolves g0 g" and "\<not> issued g0 sid"
  shows "guard_evolves g0 (g\<lparr>g_sessions := AList.update sid e (g_sessions g)\<rparr>)"
  using assms by (auto simp: guard_evolves_def)

lemma evolves_add_handle:
  assumes "guard_evolves g0 g" and "\<not> issued g0 h"
  shows "guard_evolves g0 (g\<lparr>g_handles := AList.update h st (g_handles g)\<rparr>)"
  using assms by (auto simp: guard_evolves_def dead_handle_def)

text \<open>Evolution of the registrations only.\<close>

lemma evolves_registry:
  assumes "g_prefix g' = g_prefix g" "g_maxSessions g' = g_maxSessions g" "g_maxHandles g' = g_maxHandles g"
    and "g_nextId g \<le> g_nextId g'" "g_closed g \<longrightarrow> g_closed g'"
    and "\<And>sid. map_of (g_sessions g') sid = None \<or> map_of (g_sessions g') sid = map_of (g_sessions g) sid"
    and "\<And>h. map_of (g_handles g) h = None \<Longrightarrow> map_of (g_handles g') h = None"
    and "g_tickets g' = g_tickets g" "g_trace g' = g_trace g"
  shows "guard_evolves g g'"
proof -
  have "\<exists>olds news. g_tickets g' = olds @ news \<and> list_all2 ticket_evolves (g_tickets g) olds
      \<and> (\<forall>tk \<in> set news. \<not> dead_handle g (r_handle (t_request tk)))"
    by (intro exI [of _ "g_tickets g"] exI [of _ "[]"]) (simp add: assms)
  moreover have "\<exists>new. g_trace g' = g_trace g @ new \<and> (\<forall>e \<in> set new. entry_new g e)"
    by (intro exI [of _ "[]"]) (simp add: assms)
  ultimately show ?thesis
    unfolding guard_evolves_def using assms(1-7)
    by (intro conjI allI impI) (assumption | (auto simp: dead_handle_def)[1])+
qed

lemma issued_updates [simp]:
  "issued (g\<lparr>g_sessions := a\<rparr>) x = issued g x" "issued (g\<lparr>g_handles := b\<rparr>) x = issued g x"
  "issued (g\<lparr>g_lastTime := c\<rparr>) x = issued g x" "issued (g\<lparr>g_tickets := d\<rparr>) x = issued g x"
  "issued (g\<lparr>g_trace := e\<rparr>) x = issued g x" "issued (g\<lparr>g_closed := f\<rparr>) x = issued g x"
  by (simp_all add: issued_def)

lemma issued_Suc: "issued g x \<Longrightarrow> issued (g\<lparr>g_nextId := Suc (g_nextId g)\<rparr>) x"
  by (auto simp: issued_def le_SucI)

lemmas guard_inv_defs = guard_inv_def registry_ok_def handle_ok_def ticket_ok_def entry_ok_def

section \<open>The state changes keep the invariant\<close>

lemma inv_next_id:
  assumes "guard_inv g"
  shows "guard_inv (g\<lparr>g_nextId := Suc (g_nextId g)\<rparr>)"
  using assms by (auto simp: guard_inv_defs issued_Suc)

lemma next_id_unused:
  assumes "guard_inv g"
  shows "unused_handle (g\<lparr>g_nextId := Suc (g_nextId g)\<rparr>) (id_text (g_prefix g) (Suc (g_nextId g)))"
proof -
  let ?x = "id_text (g_prefix g) (Suc (g_nextId g))"
  have "map_of (g_handles g) ?x = None"
    using assms issued_next [of g ?x] by (cases "map_of (g_handles g) ?x") (auto simp: guard_inv_def handle_ok_def)
  moreover have "issued (g\<lparr>g_nextId := Suc (g_nextId g)\<rparr>) ?x" by (auto simp: issued_def)
  ultimately show ?thesis
    using assms by (auto simp: unused_handle_def dead_handle_def guard_inv_def entry_ok_def ticket_ok_def
        dest: issued_next)
qed

lemma evolves_next_id: "guard_evolves g (g\<lparr>g_nextId := Suc (g_nextId g)\<rparr>)"
  by (rule evolves_registry) auto

lemma inv_add_session:
  assumes "guard_inv g" and "\<not> g_closed g" and "map_of (g_sessions g) sid = None" and "issued g sid"
    and "int (length (g_sessions g)) < g_maxSessions g"
  shows "guard_inv (g\<lparr>g_sessions := AList.update sid e (g_sessions g)\<rparr>)"
proof -
  have "c_sessionId (h_identity st) \<noteq> sid" if "map_of (g_handles g) h = Some st" for h st
    using assms(1,3) that by (fastforce simp: guard_inv_def handle_ok_def)
  then show ?thesis
    using assms by (auto simp: guard_inv_defs length_update map_of_eq_None_iff distinct_update)
qed

lemma inv_add_handle:
  assumes "guard_inv g" and "map_of (g_sessions g) (c_sessionId ident) = Some (c_epoch ident)"
    and "unused_handle g (c_handle ident)" and "0 < ms"
    and "int (length (g_handles g)) < g_maxHandles g"
  shows "guard_inv (g\<lparr>g_handles := AList.update (c_handle ident) (fresh_handle ident ms) (g_handles g)\<rparr>)"
proof -
  let ?hs = "AList.update (c_handle ident) (fresh_handle ident ms) (g_handles g)"
  have "lease_topic ?hs = lease_topic (g_handles g)"
    using assms(3) by (auto simp: fun_eq_iff lease_topic_def unused_handle_def dead_handle_def fresh_handle_def)
  then have "exclusive_leases ?hs" using assms(1) by (simp add: guard_inv_def exclusive_leases_def)
  then show ?thesis
    using assms
    by (auto simp: guard_inv_defs unused_handle_def dead_handle_def fresh_handle_def length_update
        distinct_update map_of_eq_None_iff split: if_splits)
qed

lemma inv_set_time:
  assumes "guard_inv g" and "isFinite clock" and "\<not> num_less clock (g_lastTime g)"
  shows "guard_inv (g\<lparr>g_lastTime := clock\<rparr>)"
proof -
  from assms have "num_le (g_lastTime g) clock"
    by (subst num_not_less [symmetric]) (auto simp: guard_inv_def registry_ok_def isFinite_iff)
  then show ?thesis using assms by (auto simp: guard_inv_defs intro: num_le_trans)
qed

lemma evolves_set_time: "guard_evolves g (g\<lparr>g_lastTime := clock\<rparr>)"
  by (rule evolves_registry) auto

text \<open>The new lease of \<open>arm\<close>, all leases on the topic cleared before.\<close>

definition grant :: "ustring \<Rightarrow> ustring \<Rightarrow> number \<Rightarrow> guard \<Rightarrow> guard" where
  "grant topic handle expires g =
     (clear_leases topic g)\<lparr>g_nextId := Suc (g_nextId g),
        g_handles := AList.map_entry handle
          (\<lambda>c. c\<lparr>h_lease := Some \<lparr>lease_id = id_text (g_prefix g) (Suc (g_nextId g)), expiresAt = expires\<rparr>\<rparr>)
          (g_handles (clear_leases topic g))\<rparr>"

lemma grant_fields [simp]:
  "g_sessions (grant topic handle x g) = g_sessions g" "g_trace (grant topic handle x g) = g_trace g"
  "g_tickets (grant topic handle x g) = g_tickets g" "g_prefix (grant topic handle x g) = g_prefix g"
  "g_maxSessions (grant topic handle x g) = g_maxSessions g" "g_maxHandles (grant topic handle x g) = g_maxHandles g"
  "g_leaseMs (grant topic handle x g) = g_leaseMs g" "g_closed (grant topic handle x g) = g_closed g"
  "g_lastTime (grant topic handle x g) = g_lastTime g" "g_nextId (grant topic handle x g) = Suc (g_nextId g)"
  by (simp_all add: grant_def clear_leases_def)

lemma keys_grant: "keys (g_handles (grant topic handle x g)) = keys (g_handles g)"
  by (simp add: grant_def clear_leases_def comp_def case_prod_beta)

lemma length_grant: "length (g_handles (grant topic handle x g)) = length (g_handles g)"
  by (simp add: grant_def clear_leases_def)

lemma closed_grant: "g_handles (grant topic handle x g) = [] \<longleftrightarrow> g_handles g = []"
  by (metis length_0_conv length_grant)

lemma map_of_clear_leases:
  "map_of (g_handles (clear_leases topic g)) h =
     map_option (\<lambda>c. if c_topic (h_identity c) = topic then c\<lparr>h_lease := None\<rparr> else c) (map_of (g_handles g) h)"
  by (simp add: clear_leases_def map_of_map)

lemma handle_grant:
  "map_of (g_handles (grant topic handle x g)) h =
     map_option (\<lambda>c.
       if h = handle
       then c\<lparr>h_lease := Some \<lparr>lease_id = id_text (g_prefix g) (Suc (g_nextId g)), expiresAt = x\<rparr>\<rparr>
       else if c_topic (h_identity c) = topic then c\<lparr>h_lease := None\<rparr> else c) (map_of (g_handles g) h)"
  by (cases "map_of (g_handles g) h"; cases "map_of (g_handles g) handle")
    (auto simp: grant_def map_of_map_entry' map_of_clear_leases)

lemma issued_grant: "issued g x \<Longrightarrow> issued (grant topic handle y g) x"
  by (erule issued_mono) auto

lemma inv_grant:
  assumes "guard_inv g" and "map_of (g_handles g) handle = Some st" and "c_topic (h_identity st) = topic"
    and "x \<noteq> NaN"
  shows "guard_inv (grant topic handle x g)"
proof -
  let ?g = "grant topic handle x g"
  have new: "issued ?g (id_text (g_prefix g) (Suc (g_nextId g)))" by (auto simp: issued_def)
  have "registry_ok ?g"
    using assms(1) by (auto simp: guard_inv_def registry_ok_def keys_grant length_grant closed_grant issued_grant)
  moreover have "k = handle \<and> t = topic \<or> t \<noteq> topic \<and> lease_topic (g_handles g) k = Some t"
    if "lease_topic (g_handles ?g) k = Some t" for k t
    using that assms(2,3) by (auto simp: lease_topic_def handle_grant split: option.splits if_splits)
  then have "exclusive_leases (g_handles ?g)"
    using assms(1) unfolding guard_inv_def exclusive_leases_def by blast
  moreover have "handle_ok ?g h c" if "map_of (g_handles ?g) h = Some c" for h c
  proof -
    from that obtain d where d: "map_of (g_handles g) h = Some d" and c: "c = (if h = handle
       then d\<lparr>h_lease := Some \<lparr>lease_id = id_text (g_prefix g) (Suc (g_nextId g)), expiresAt = x\<rparr>\<rparr>
       else if c_topic (h_identity d) = topic then d\<lparr>h_lease := None\<rparr> else d)"
      by (auto simp: handle_grant)
    have "handle_ok g h d" and "\<forall>e \<in> set (g_trace g). entry_ok g e" using assms(1) d by (auto simp: guard_inv_def)
    then show ?thesis
      using new assms(4) by (auto simp: c handle_ok_def entry_ok_def issued_grant intro: issued_before_next)
  qed
  moreover have "ticket_ok ?g tk" if "tk \<in> set (g_tickets g)" for tk
    using assms(1) that by (auto simp: guard_inv_def ticket_ok_def handle_grant issued_grant)
  moreover have "entry_ok ?g e" if "e \<in> set (g_trace g)" for e
    using assms(1) that by (auto simp: guard_inv_def entry_ok_def issued_grant)
  ultimately show ?thesis using assms(1) by (simp add: guard_inv_def)
qed

lemma evolves_grant: "guard_evolves g (grant topic handle x g)"
  by (rule evolves_registry) (auto simp: handle_grant)

text \<open>The reservation made by \<open>prepare\<close>.\<close>

definition reserve :: "commandRequest \<Rightarrow> int \<Rightarrow> guard \<Rightarrow> guard" where
  "reserve request seq g =
     g\<lparr>g_handles := AList.map_entry (r_handle request) (\<lambda>c. c\<lparr>h_received := seq\<rparr>) (g_handles g),
       g_tickets := g_tickets g @ [\<lparr>t_request = request, t_seq = seq, t_consumed = False\<rparr>]\<rparr>"

lemma inv_reserve:
  assumes "guard_inv g" and st: "map_of (g_handles g) (r_handle request) = Some st"
    and seq: "h_received st < seq" "seq < 2 ^ 64"
  shows "guard_inv (reserve request seq g)"
proof -
  let ?g = "reserve request seq g"
  have h: "map_of (g_handles ?g) = (map_of (g_handles g))(r_handle request \<mapsto> st\<lparr>h_received := seq\<rparr>)"
    by (simp add: reserve_def map_of_map_entry' st)
  have i: "issued ?g = issued g" by (simp add: fun_eq_iff issued_def reserve_def)
  have f: "g_sessions ?g = g_sessions g" "g_trace ?g = g_trace g" "g_prefix ?g = g_prefix g"
    "g_lastTime ?g = g_lastTime g"
    "g_tickets ?g = g_tickets g @ [\<lparr>t_request = request, t_seq = seq, t_consumed = False\<rparr>]"
    by (simp_all add: reserve_def)
  have ok: "handle_ok g (r_handle request) st" using assms by (simp add: guard_inv_def)
  have "registry_ok ?g"
    using assms(1) by (simp add: guard_inv_def registry_ok_def i) (simp add: reserve_def)
  moreover have "lease_topic (g_handles ?g) = lease_topic (g_handles g)"
    by (auto simp: fun_eq_iff lease_topic_def h st)
  then have "exclusive_leases (g_handles ?g)" using assms(1) by (simp add: guard_inv_def exclusive_leases_def)
  moreover have "handle_ok ?g k c" if "map_of (g_handles ?g) k = Some c" for k c
    using assms(1) ok seq that by (auto simp: h handle_ok_def i f guard_inv_def split: if_splits)
  moreover have "ticket_ok ?g tk" if "tk \<in> set (g_tickets ?g)" for tk
    using assms(1) seq ok that st
    by (fastforce simp: ticket_ok_def h i f guard_inv_def handle_ok_def split: if_splits)
  moreover have "entry_ok ?g e" if "e \<in> set (g_trace g)" for e
    using assms(1) that by (auto simp: guard_inv_def entry_ok_def i f nth_append)
  ultimately show ?thesis using assms(1) by (simp add: guard_inv_def f)
qed

lemma evolves_reserve:
  assumes "map_of (g_handles g) (r_handle request) = Some st"
  shows "guard_evolves g (reserve request seq g)"
proof -
  have "\<exists>olds news. g_tickets (reserve request seq g) = olds @ news \<and> list_all2 ticket_evolves (g_tickets g) olds
      \<and> (\<forall>tk \<in> set news. \<not> dead_handle g (r_handle (t_request tk)))"
    by (intro exI [of _ "g_tickets g"] exI [of _ "[\<lparr>t_request = request, t_seq = seq, t_consumed = False\<rparr>]"])
      (simp add: assms reserve_def dead_handle_def)
  moreover have "map_of (g_handles (reserve request seq g)) h = None" if "dead_handle g h" for h
    using that by (auto simp: reserve_def dead_handle_def map_of_map_entry' assms)
  ultimately show ?thesis
    unfolding guard_evolves_def by (intro conjI allI impI) (assumption | (auto simp: reserve_def)[1])+
qed

text \<open>A ticket is marked as used before anything else happens.\<close>

definition consume :: "nat \<Rightarrow> guard \<Rightarrow> guard" where
  "consume t g = g\<lparr>g_tickets := (g_tickets g)[t := (g_tickets g ! t)\<lparr>t_consumed := True\<rparr>]\<rparr>"

lemma inv_consume:
  assumes "guard_inv g" and "t < length (g_tickets g)"
  shows "guard_inv (consume t g)"
proof -
  let ?g = "consume t g"
  have i: "issued ?g = issued g" by (simp add: fun_eq_iff issued_def consume_def)
  have f: "g_sessions ?g = g_sessions g" "g_handles ?g = g_handles g" "g_trace ?g = g_trace g"
    "g_prefix ?g = g_prefix g" "g_lastTime ?g = g_lastTime g" "length (g_tickets ?g) = length (g_tickets g)"
    by (simp_all add: consume_def)
  have "ticket_ok ?g tk" if tk: "tk \<in> set (g_tickets ?g)" for tk
  proof -
    from tk have "tk \<in> insert ((g_tickets g ! t)\<lparr>t_consumed := True\<rparr>) (set (g_tickets g))"
      unfolding consume_def by simp (metis insertE set_update_subset_insert subsetD)
    moreover from assms have "ticket_ok g (g_tickets g ! t)" by (simp add: guard_inv_def)
    ultimately show ?thesis
      using assms(1) by (auto simp: guard_inv_def ticket_ok_def i f)
  qed
  moreover have "t_consumed (g_tickets ?g ! k)" if "t_consumed (g_tickets g ! k)" for k
    using assms(2) that by (auto simp: consume_def nth_list_update)
  then have "entry_ok ?g e" if "e \<in> set (g_trace g)" for e
    using assms that by (auto simp: guard_inv_def entry_ok_def i f)
  moreover have "registry_ok ?g"
    using assms(1) by (simp add: guard_inv_def registry_ok_def i) (simp add: consume_def)
  moreover have "handle_ok ?g h st = handle_ok g h st" for h st
    by (simp add: handle_ok_def i f)
  ultimately show ?thesis using assms(1) by (simp add: guard_inv_def f)
qed

lemma evolves_consume:
  assumes "t < length (g_tickets g)"
  shows "guard_evolves g (consume t g)"
proof -
  have "list_all2 ticket_evolves (g_tickets g) (g_tickets (consume t g))"
    using assms by (auto simp: list_all2_conv_all_nth consume_def nth_list_update ticket_evolves_def)
  then have "\<exists>olds news. g_tickets (consume t g) = olds @ news \<and> list_all2 ticket_evolves (g_tickets g) olds
      \<and> (\<forall>tk \<in> set news. \<not> dead_handle g (r_handle (t_request tk)))"
    by (intro exI [of _ "g_tickets (consume t g)"] exI [of _ "[]"]) simp
  then show ?thesis
    unfolding guard_evolves_def
    by (intro conjI allI impI) (assumption | (auto simp: consume_def dead_handle_def)[1])+
qed

text \<open>The publication: the sequence number is recorded and the callback is called.\<close>

definition commit :: "nat \<Rightarrow> ustring \<Rightarrow> handleState \<Rightarrow> int \<Rightarrow> guard \<Rightarrow> guard" where
  "commit t handle st seq g =
     record_publication t st seq (g\<lparr>g_handles := AList.map_entry handle (\<lambda>c. c\<lparr>h_published := seq\<rparr>) (g_handles g)\<rparr>)"

definition entry_of :: "nat \<Rightarrow> handleState \<Rightarrow> lease \<Rightarrow> int \<Rightarrow> number \<Rightarrow> publication" where
  "entry_of t st l seq now =
     \<lparr>p_ticket = t, p_identity = h_identity st, p_lease = l, p_seq = seq, p_time = now\<rparr>"

lemma commit_eq:
  "h_lease st = Some l \<Longrightarrow> commit t handle st seq g =
     g\<lparr>g_handles := AList.map_entry handle (\<lambda>c. c\<lparr>h_published := seq\<rparr>) (g_handles g),
       g_trace := g_trace g @ [entry_of t st l seq (g_lastTime g)]\<rparr>"
  by (simp add: commit_def record_publication_def entry_of_def)

lemma inv_commit:
  assumes inv: "guard_inv g" and st: "map_of (g_handles g) handle = Some st" and l: "h_lease st = Some l"
    and time: "num_less (g_lastTime g) (expiresAt l)"
    and seq: "h_published st < seq" "seq \<le> h_received st"
    and t: "t < length (g_tickets g)" "t_consumed (g_tickets g ! t)" "\<forall>e \<in> set (g_trace g). p_ticket e \<noteq> t"
  shows "guard_inv (commit t handle st seq g)"
proof -
  let ?g = "commit t handle st seq g" and ?e = "entry_of t st l seq (g_lastTime g)"
  have f: "g_sessions ?g = g_sessions g" "g_trace ?g = g_trace g @ [?e]" "g_prefix ?g = g_prefix g"
    "g_lastTime ?g = g_lastTime g" "g_tickets ?g = g_tickets g"
    and h: "map_of (g_handles ?g) = (map_of (g_handles g))(handle \<mapsto> st\<lparr>h_published := seq\<rparr>)"
    by (simp_all add: commit_eq l map_of_map_entry' st)
  have i: "issued ?g = issued g" by (simp add: fun_eq_iff issued_def commit_eq [OF l])
  have e: "p_identity ?e = h_identity st" "p_lease ?e = l" "p_seq ?e = seq" "p_time ?e = g_lastTime g" "p_ticket ?e = t"
    by (simp_all add: entry_of_def)
  have ok: "handle_ok g handle st" using inv st by (simp add: guard_inv_def)
  have fin: "g_lastTime g \<noteq> NaN" using inv by (auto simp: guard_inv_def registry_ok_def isFinite_iff)
  have "registry_ok ?g"
    using inv by (simp add: guard_inv_def registry_ok_def i) (simp add: commit_eq [OF l])
  moreover have lt: "lease_topic (g_handles ?g) = lease_topic (g_handles g)"
    by (auto simp: fun_eq_iff lease_topic_def h st)
  then have "exclusive_leases (g_handles ?g)" using inv by (simp add: guard_inv_def exclusive_leases_def)
  moreover have "handle_ok ?g k c" if c: "map_of (g_handles ?g) k = Some c" for k c
  proof (cases "k = handle")
    case True
    with c have "c = st\<lparr>h_published := seq\<rparr>" by (simp add: h)
    with True ok seq show ?thesis
      by (auto simp: handle_ok_def i f e l intro: issued_before_refl)
  next
    case False
    with c have k: "map_of (g_handles g) k = Some c" by (simp add: h)
    with inv have okc: "handle_ok g k c" by (simp add: guard_inv_def)
    have "c_topic (h_identity st) \<noteq> c_topic (h_identity c)" if "h_lease c = Some x" for x
      using inv False k st l that unfolding guard_inv_def exclusive_leases_def lease_topic_def by fastforce
    with okc ok False show ?thesis by (auto simp: handle_ok_def i f e)
  qed
  moreover have "ticket_ok ?g tk" if "tk \<in> set (g_tickets g)" for tk
    using inv that st by (fastforce simp: guard_inv_def ticket_ok_def i h split: if_splits)
  moreover have "entry_ok ?g x" if "x \<in> set (g_trace ?g)" for x
    using inv that ok time t fin l by (auto simp: guard_inv_def entry_ok_def i f e handle_ok_def)
  moreover have "sorted_wrt (entry_order (g_prefix g)) (g_trace ?g)"
    using inv ok t seq l by (fastforce simp: guard_inv_def f sorted_wrt_append entry_order_def e handle_ok_def entry_ok_def)
  ultimately show ?thesis by (simp add: guard_inv_def f)
qed

lemma evolves_commit:
  assumes "guard_evolves g0 g" and "map_of (g_handles g) handle = Some st" and "h_lease st = Some l"
    and "entry_new g0 (entry_of t st l seq (g_lastTime g))"
  shows "guard_evolves g0 (commit t handle st seq g)"
proof -
  obtain new where "g_trace g = g_trace g0 @ new" "\<forall>e \<in> set new. entry_new g0 e"
    using assms(1) by (auto simp: guard_evolves_def)
  then have "\<exists>new. g_trace (commit t handle st seq g) = g_trace g0 @ new \<and> (\<forall>e \<in> set new. entry_new g0 e)"
    using assms(4) by (intro exI [of _ "new @ [entry_of t st l seq (g_lastTime g)]"]) (auto simp: commit_eq [OF assms(3)])
  moreover have "map_of (g_handles (commit t handle st seq g)) h = None" if "dead_handle g0 h" for h
  proof -
    have "map_of (g_handles g) h = None" using assms(1) that by (simp add: guard_evolves_def)
    then show ?thesis using assms(2) by (auto simp: commit_eq [OF assms(3)] map_of_map_entry')
  qed
  ultimately show ?thesis
    using assms(1) unfolding guard_evolves_def
    by (intro conjI allI impI) (assumption | (simp add: commit_eq [OF assms(3)]))+
qed

text \<open>Registrations are only ever removed together with everything that depends on them.\<close>

lemma exclusive_leases_submap:
  assumes "exclusive_leases hs" and "\<And>h st. map_of hs' h = Some st \<Longrightarrow> map_of hs h = Some st"
  shows "exclusive_leases hs'"
proof -
  have "lease_topic hs h = Some t" if "lease_topic hs' h = Some t" for h t
    using that assms(2) by (auto simp: lease_topic_def split: option.splits if_splits)
  then show ?thesis using assms(1) unfolding exclusive_leases_def by blast
qed

lemma inv_remove:
  assumes inv: "guard_inv g"
    and "distinct (keys ss)" "distinct (keys hs)" "length ss \<le> length (g_sessions g)" "length hs \<le> length (g_handles g)"
    and "closed' \<longrightarrow> ss = [] \<and> hs = []" "g_closed g \<longrightarrow> closed'"
    and "\<And>sid e. map_of ss sid = Some e \<Longrightarrow> map_of (g_sessions g) sid = Some e"
    and "\<And>h st. map_of hs h = Some st \<Longrightarrow> map_of (g_handles g) h = Some st
           \<and> map_of ss (c_sessionId (h_identity st)) = map_of (g_sessions g) (c_sessionId (h_identity st))"
  shows "guard_inv (g\<lparr>g_sessions := ss, g_handles := hs, g_closed := closed'\<rparr>)
    \<and> guard_evolves g (g\<lparr>g_sessions := ss, g_handles := hs, g_closed := closed'\<rparr>)"
proof
  let ?g = "g\<lparr>g_sessions := ss, g_handles := hs, g_closed := closed'\<rparr>"
  have i: "issued ?g = issued g" by (simp add: fun_eq_iff issued_def)
  have "issued g sid" if "map_of ss sid = Some e" for sid e
    using inv assms(8) [OF that] by (simp add: guard_inv_def registry_ok_def)
  then have "registry_ok ?g"
    using inv assms(2-7) by (simp add: guard_inv_def registry_ok_def i)
  moreover have "exclusive_leases hs"
    using inv assms(9) by (auto simp: guard_inv_def intro: exclusive_leases_submap)
  moreover have "handle_ok ?g h st" if "map_of hs h = Some st" for h st
    using inv assms(9) [OF that] by (auto simp: guard_inv_def handle_ok_def i)
  moreover have "ticket_ok ?g tk" if "tk \<in> set (g_tickets g)" for tk
    using inv that assms(9) by (auto simp: guard_inv_def ticket_ok_def i)
  moreover have "entry_ok ?g e" if "e \<in> set (g_trace g)" for e
    using inv that by (auto simp: guard_inv_def entry_ok_def i)
  ultimately show "guard_inv ?g" using inv by (simp add: guard_inv_def)
  have "map_of ss sid = None \<or> map_of ss sid = map_of (g_sessions g) sid" for sid
    using assms(8) [of sid] by (cases "map_of ss sid") auto
  moreover have "map_of hs h = None" if "map_of (g_handles g) h = None" for h
    using assms(9) [of h] that by (cases "map_of hs h") auto
  ultimately show "guard_evolves g ?g" using assms(7) by (intro evolves_registry) auto
qed

section \<open>The operations are safe\<close>

text \<open>The outcome every operation has to reach, whether it returns or throws.\<close>

abbreviation safe_from :: "guard \<Rightarrow> 'x \<Rightarrow> guard \<Rightarrow> bool" where
  "safe_from g0 \<equiv> \<lambda>_ g. guard_inv g \<and> guard_evolves g0 g"

lemma guard_safe_wp: "guard_safe m \<longleftrightarrow> (\<forall>g. guard_inv g \<longrightarrow> wp m (safe_from g) (safe_from g) g)"
  by (auto simp: guard_safe_def wp_def split: prod.splits sum.splits) (metis prod.collapse sum.exhaust snd_conv)+

lemma guard_safeI: "(\<And>g. guard_inv g \<Longrightarrow> wp m (safe_from g) (safe_from g) g) \<Longrightarrow> guard_safe m"
  by (simp add: guard_safe_wp)

lemma wp_safe:
  assumes "guard_safe m" and "guard_inv g"
    and "\<And>x s. guard_inv s \<Longrightarrow> guard_evolves g s \<Longrightarrow> Q x s"
    and "\<And>e s. guard_inv s \<Longrightarrow> guard_evolves g s \<Longrightarrow> E e s"
  shows "wp m Q E g"
  using assms unfolding guard_safe_wp by (blast intro: wp_mono)

lemma wp_authorize:
  assumes "\<And>i p. guard_safe (hook i p)" and "guard_inv g"
    and "\<And>s. guard_inv s \<Longrightarrow> guard_evolves g s \<Longrightarrow> Q () s"
    and "\<And>e s. guard_inv s \<Longrightarrow> guard_evolves g s \<Longrightarrow> E e s"
  shows "wp (authorize hook ident ph) Q E g"
  unfolding authorize_def wp_simps by (rule wp_safe [OF assms(1,2)]) (use assms(3,4) in auto)

lemma wp_owned:
  "wp (owned sid handle) Q E g =
     (if g_closed g then E (Err ''guard_closed'') g
      else case map_of (g_handles g) handle of
             None \<Rightarrow> E (Err ''invalid_owner'') g
           | Some st \<Rightarrow> if c_sessionId (h_identity st) \<noteq> sid then E (Err ''invalid_owner'') g else Q st g)"
  by (simp add: owned_def assertOpen_def wp_simps split: option.split)

lemma wp_guard_now:
  "wp (guard_now clock) Q E g =
     (if \<not> isFinite clock \<or> num_less (NumI MAX_SAFE_INTEGER) clock \<or> num_less clock (g_lastTime g)
      then E (Err ''invalid_clock'') g else Q clock (g\<lparr>g_lastTime := clock\<rparr>))"
  by (simp add: guard_now_def wp_simps)

lemma wp_guard_id:
  "wp guard_id Q E g = Q (id_text (g_prefix g) (Suc (g_nextId g))) (g\<lparr>g_nextId := Suc (g_nextId g)\<rparr>)"
  by (simp add: guard_id_def wp_simps)

lemmas guard_wps = wp_simps wp_owned wp_guard_now wp_guard_id

lemma inv_session_issued: "guard_inv g \<Longrightarrow> map_of (g_sessions g) sid = Some e \<Longrightarrow> issued g sid"
  unfolding guard_inv_def registry_ok_def by blast

lemma openSession_safe: "guard_safe (openSession epoch)"
proof (rule guard_safeI)
  fix g assume inv: "guard_inv g"
  let ?x = "id_text (g_prefix g) (Suc (g_nextId g))" and ?g = "g\<lparr>g_nextId := Suc (g_nextId g)\<rparr>"
  have "\<not> issued g ?x" by (auto simp: issued_def)
  moreover from this inv have "map_of (g_sessions g) ?x = None"
    by (cases "map_of (g_sessions g) ?x") (auto simp: guard_inv_def registry_ok_def)
  moreover have "issued ?g ?x" by (auto simp: issued_def)
  ultimately have "guard_inv (?g\<lparr>g_sessions := AList.update ?x epoch (g_sessions ?g)\<rparr>)
      \<and> guard_evolves g (?g\<lparr>g_sessions := AList.update ?x epoch (g_sessions ?g)\<rparr>)"
    if "\<not> g_closed g" "int (length (g_sessions g)) < g_maxSessions g"
    using inv that
    by (intro conjI inv_add_session inv_next_id evolves_add_session evolves_next_id) auto
  then show "wp (openSession epoch) (safe_from g) (safe_from g) g"
    using inv by (auto simp: openSession_def assertOpen_def guard_wps split: sum.split)
qed

lemma openHandle_safe:
  assumes "\<And>i p. guard_safe (hook i p)"
  shows "guard_safe (openHandle hook sid topic ms)"
proof (rule guard_safeI)
  fix g assume inv: "guard_inv g"
  let ?x = "id_text (g_prefix g) (Suc (g_nextId g))" and ?g = "g\<lparr>g_nextId := Suc (g_nextId g)\<rparr>"
  have fresh: "\<not> issued g ?x" by (auto simp: issued_def)
  have add: "guard_inv (s\<lparr>g_handles := AList.update ?x (fresh_handle ident n) (g_handles s)\<rparr>)
      \<and> guard_evolves g (s\<lparr>g_handles := AList.update ?x (fresh_handle ident n) (g_handles s)\<rparr>)"
    if s: "guard_inv s" "guard_evolves ?g s" and e: "map_of (g_sessions g) sid = Some epoch"
      and i: "ident = \<lparr>c_sessionId = sid, c_epoch = epoch, c_handle = ?x, c_topic = topic\<rparr>"
      and "0 < n" "map_of (g_sessions s) sid = Some e'" "int (length (g_handles s)) < g_maxHandles s" for s epoch ident n e'
  proof
    have "issued ?g sid" using inv_session_issued [OF inv e] by (rule issued_Suc)
    with s(2) e that(6) have "map_of (g_sessions s) sid = Some epoch"
      unfolding guard_evolves_def by fastforce
    moreover have "unused_handle s ?x" using next_id_unused [OF inv] s(2) by (rule unused_handle_evolves)
    ultimately show "guard_inv (s\<lparr>g_handles := AList.update ?x (fresh_handle ident n) (g_handles s)\<rparr>)"
      using inv_add_handle [of s ident n] s that by (simp add: i)
    show "guard_evolves g (s\<lparr>g_handles := AList.update ?x (fresh_handle ident n) (g_handles s)\<rparr>)"
      using guard_evolves_trans [OF evolves_next_id s(2)] fresh by (rule evolves_add_handle)
  qed
  have ev: "guard_evolves g s" if "guard_evolves ?g s" for s
    using guard_evolves_trans [OF evolves_next_id that] .
  show "wp (openHandle hook sid topic ms) (safe_from g) (safe_from g) g"
    using inv
    by (auto simp: openHandle_def assertOpen_def guard_wps Let_def ev add not_le
        split: sum.split option.split intro!: wp_authorize [OF assms] inv_next_id)
qed

lemma set_time_safe:
  assumes "guard_inv g" and "guard_evolves g0 g" and "isFinite clock" and "\<not> num_less clock (g_lastTime g)"
  shows "guard_inv (g\<lparr>g_lastTime := clock\<rparr>) \<and> guard_evolves g0 (g\<lparr>g_lastTime := clock\<rparr>)"
  using assms by (auto intro: inv_set_time guard_evolves_trans evolves_set_time)

lemma arm_safe:
  assumes "\<And>i p. guard_safe (hook i p)"
  shows "guard_safe (arm hook clock sid handle)"
proof (rule guard_safeI)
  fix g assume inv: "guard_inv g"
  have grant_eq: "(clear_leases topic s)\<lparr>g_nextId := Suc (g_nextId (clear_leases topic s)),
        g_handles := AList.map_entry handle
          (h_lease_update (\<lambda>_. Some \<lparr>lease_id = id_text (g_prefix (clear_leases topic s)) (Suc (g_nextId (clear_leases topic s))), expiresAt = x\<rparr>))
          (g_handles (clear_leases topic s))\<rparr> = grant topic handle x s" for topic s x
    by (simp add: grant_def clear_leases_def)
  have granted: "guard_inv (grant (c_topic (h_identity st)) handle x (s\<lparr>g_lastTime := clock\<rparr>))
      \<and> guard_evolves g (grant (c_topic (h_identity st)) handle x (s\<lparr>g_lastTime := clock\<rparr>))"
    if "guard_inv s" "guard_evolves g s" "isFinite clock" "\<not> num_less clock (g_lastTime s)"
      "map_of (g_handles s) handle = Some st" "x = num_add clock (NumI (h_leaseMs st))" for s st x
    using set_time_safe [OF that(1-4)] that(3,5,6)
    by (auto simp: isFinite_iff intro!: inv_grant guard_evolves_trans [OF _ evolves_grant])
  show "wp (arm hook clock sid handle) (safe_from g) (safe_from g) g"
    using inv
    by (auto simp: arm_def guard_wps Let_def set_handle_def grant_eq set_time_safe granted
        split: option.split intro!: wp_authorize [OF assms])
qed

text \<open>What \<open>validate\<close> guarantees of the handle it returns.\<close>

definition validated :: "commandRequest \<Rightarrow> handleState \<Rightarrow> guard \<Rightarrow> bool" where
  "validated request st g \<longleftrightarrow>
     \<not> g_closed g \<and> map_of (g_handles g) (r_handle request) = Some st
     \<and> c_sessionId (h_identity st) = r_sessionId request \<and> c_epoch (h_identity st) = r_epoch request
     \<and> (\<exists>l. h_lease st = Some l \<and> lease_id l = r_leaseId request \<and> num_less (g_lastTime g) (expiresAt l))"

lemma wp_validate:
  assumes "\<And>i p. guard_safe (hook i p)" and "guard_inv g"
    and Q: "\<And>st s. guard_inv s \<Longrightarrow> guard_evolves g s \<Longrightarrow> validated request st s
      \<Longrightarrow> \<exists>st0. map_of (g_handles g) (r_handle request) = Some st0 \<and> c_sessionId (h_identity st0) = r_sessionId request
      \<Longrightarrow> Q st s"
    and E: "\<And>e s. guard_inv s \<Longrightarrow> guard_evolves g s \<Longrightarrow> E e s"
  shows "wp (validate hook clock request ph) Q E g"
proof -
  have ret: "Q st (s\<lparr>g_lastTime := clock\<rparr>)"
    if "guard_inv s" "guard_evolves g s" "isFinite clock" "\<not> num_less clock (g_lastTime s)"
      "\<not> g_closed s" "map_of (g_handles s) (r_handle request) = Some st"
      "c_sessionId (h_identity st) = r_sessionId request" "r_epoch request = c_epoch (h_identity st)"
      "h_lease st = Some l" "r_leaseId request = lease_id l" "\<not> num_le (expiresAt l) clock"
      "map_of (g_handles g) (r_handle request) = Some st0" "c_sessionId (h_identity st0) = r_sessionId request"
    for s st l st0
  proof (rule Q)
    show "guard_inv (s\<lparr>g_lastTime := clock\<rparr>)" using that by (intro inv_set_time)
    show "guard_evolves g (s\<lparr>g_lastTime := clock\<rparr>)"
      using that(2) evolves_set_time by (rule guard_evolves_trans)
    have "clock \<noteq> NaN" using that(3) by (auto simp: isFinite_iff)
    moreover have "expiresAt l \<noteq> NaN" using that(1,6,9) by (auto simp: guard_inv_def handle_ok_def)
    ultimately have "num_less clock (expiresAt l)" using that(11) by (metis num_not_less)
    with that show "validated request st (s\<lparr>g_lastTime := clock\<rparr>)"
      by (auto simp: validated_def)
  qed (use that in auto)
  show ?thesis
    using assms(2) E
    by (auto simp: validate_def guard_wps split: option.split intro!: wp_authorize [OF assms(1)] E simp: set_time_safe)
      (rule ret; assumption)
qed

lemma prepare_safe:
  assumes "\<And>i p. guard_safe (hook i p)"
  shows "guard_safe (prepare hook clock request)"
proof (rule guard_safeI)
  fix g assume inv: "guard_inv g"
  have reserved: "guard_inv (reserve request seq s) \<and> guard_evolves g (reserve request seq s)"
    if "guard_inv s" "guard_evolves g s" "validated request st s" "h_received st < seq"
      "sequence (Str (r_seq request)) = Inr seq" for s st seq
    using that sequence_Inr_imp [OF that(5)]
    by (auto simp: validated_def intro!: inv_reserve guard_evolves_trans [OF _ evolves_reserve])
  show "wp (prepare hook clock request) (safe_from g) (safe_from g) g"
    using inv reserved
    by (auto simp: prepare_def guard_wps set_handle_def reserve_def split: sum.split
        intro!: wp_validate [OF assms])
qed

lemma wp_ticket_publish:
  assumes hook: "\<And>i p. guard_safe (hook i p)" and inv: "guard_inv g" and t: "t < length (g_tickets g)"
    and Q: "\<And>s st l. guard_inv s \<Longrightarrow> guard_evolves g s \<Longrightarrow>
      guard_inv (commit t (r_handle (t_request (g_tickets g ! t))) st (t_seq (g_tickets g ! t)) s) \<Longrightarrow>
      guard_evolves g (commit t (r_handle (t_request (g_tickets g ! t))) st (t_seq (g_tickets g ! t)) s) \<Longrightarrow>
      validated (t_request (g_tickets g ! t)) st s \<Longrightarrow>
      wp publish Q E (commit t (r_handle (t_request (g_tickets g ! t))) st (t_seq (g_tickets g ! t)) s)"
    and E: "\<And>e s. guard_inv s \<Longrightarrow> guard_evolves g s \<Longrightarrow> E e s"
  shows "wp (ticket_publish hook clock t (Some publish)) Q E g"
proof -
  let ?tk = "g_tickets g ! t" and ?g = "consume t g"
  note con = inv_consume [OF inv t] evolves_consume [OF t]
  have ev: "guard_evolves g s" if "guard_evolves ?g s" for s using con(2) that by (rule guard_evolves_trans)
  have run: "wp publish Q E (commit t (r_handle (t_request ?tk)) st (t_seq ?tk) s)"
    if s: "guard_inv s" "guard_evolves ?g s" "validated (t_request ?tk) st s" "h_published st < t_seq ?tk"
      and ok: "\<not> t_consumed ?tk"
      and st0: "map_of (g_handles ?g) (r_handle (t_request ?tk)) = Some st0"
      "c_sessionId (h_identity st0) = r_sessionId (t_request ?tk)" for s st st0
  proof -
    obtain l where st: "map_of (g_handles s) (r_handle (t_request ?tk)) = Some st" and l: "h_lease st = Some l"
      and time: "num_less (g_lastTime s) (expiresAt l)"
      using s(3) by (auto simp: validated_def)
    have tk: "t < length (g_tickets s)" "t_consumed (g_tickets s ! t)" "t_seq (g_tickets s ! t) = t_seq ?tk"
      "t_request (g_tickets s ! t) = t_request ?tk"
      using guard_evolves_ticket [OF s(2), of t] t by (auto simp: consume_def ticket_evolves_def)
    then have "ticket_ok s (g_tickets s ! t)" using s(1) by (simp add: guard_inv_def)
    then have le: "t_seq ?tk \<le> h_received st" using tk st by (auto simp: ticket_ok_def)
    obtain new where new: "g_trace s = g_trace g @ new" "\<forall>e \<in> set new. entry_new ?g e"
      using s(2) by (auto simp: guard_evolves_def consume_def)
    have "\<forall>e \<in> set (g_trace g). p_ticket e \<noteq> t" using inv ok by (auto simp: guard_inv_def entry_ok_def)
    with new t have unused: "\<forall>e \<in> set (g_trace s). p_ticket e \<noteq> t" by (auto simp: entry_new_def consume_def)
    have h: "handle_ok s (r_handle (t_request ?tk)) st" "handle_ok ?g (r_handle (t_request ?tk)) st0"
      using s(1) st con(1) st0 by (auto simp: guard_inv_def)
    have st0': "map_of (g_handles g) (r_handle (t_request ?tk)) = Some st0" "handle_ok g (r_handle (t_request ?tk)) st0"
      using st0 inv by (simp_all add: consume_def guard_inv_def)
    then have "entry_new g (entry_of t st l (t_seq ?tk) (g_lastTime s))"
      using h ok s(3) st0(2)
      by (auto simp: entry_new_def entry_of_def dead_handle_def dead_session_def handle_ok_def validated_def)
    then show ?thesis
      using s st l time le tk unused
      by (intro Q inv_commit evolves_commit ev) auto
  qed
  show ?thesis
    using inv
    by (auto simp: ticket_publish_def guard_wps set_handle_def E consume_def [symmetric] commit_def [symmetric]
        intro!: wp_validate [OF hook con(1)] E ev) (rule run; assumption?; simp)
qed

lemma ticket_publish_safe:
  assumes "\<And>i p. guard_safe (hook i p)" and "guard_safe publish" and "guard_inv g" and "t < length (g_tickets g)"
  shows "wp (ticket_publish hook clock t (Some publish)) (safe_from g) (safe_from g) g"
  by (rule wp_ticket_publish [OF assms(1,3,4)])
    (auto intro: wp_safe [OF assms(2)] guard_evolves_trans)

lemma ticket_publish_None_safe:
  assumes "guard_inv g" and "t < length (g_tickets g)"
  shows "wp (ticket_publish hook clock t None) (safe_from g) (safe_from g) g"
  using assms inv_consume evolves_consume
  by (auto simp: ticket_publish_def guard_wps consume_def)

lemma closeHandle_safe: "guard_safe (closeHandle sid handle)"
proof (rule guard_safeI)
  fix g assume inv: "guard_inv g"
  let ?hs = "AList.delete handle (g_handles g)"
  have "guard_inv (g\<lparr>g_sessions := g_sessions g, g_handles := ?hs, g_closed := g_closed g\<rparr>)
     \<and> guard_evolves g (g\<lparr>g_sessions := g_sessions g, g_handles := ?hs, g_closed := g_closed g\<rparr>)"
    using inv
    by (intro inv_remove) (auto simp: guard_inv_def registry_ok_def distinct_keys_delete length_delete_le split: if_splits)
  then show "wp (closeHandle sid handle) (safe_from g) (safe_from g) g"
    using inv by (simp add: closeHandle_def guard_wps split: option.split)
qed

lemma map_of_filter_entries:
  "distinct (keys m) \<Longrightarrow> map_of (filter (\<lambda>(_, v). P v) m) k =
     (case map_of m k of None \<Rightarrow> None | Some v \<Rightarrow> if P v then Some v else None)"
  by (induction m) (auto simp: map_of_eq_None_iff rev_image_eqI split: option.splits)

lemma revokeSession_safe: "guard_safe (revokeSession sid)"
proof (rule guard_safeI)
  fix g assume inv: "guard_inv g"
  let ?ss = "AList.delete sid (g_sessions g)"
    and ?hs = "filter (\<lambda>(_, st). c_sessionId (h_identity st) \<noteq> sid) (g_handles g)"
  have d: "distinct (keys (g_handles g))" "distinct (keys (g_sessions g))"
    using inv by (auto simp: guard_inv_def registry_ok_def)
  have "guard_inv (g\<lparr>g_sessions := ?ss, g_handles := ?hs, g_closed := g_closed g\<rparr>)
     \<and> guard_evolves g (g\<lparr>g_sessions := ?ss, g_handles := ?hs, g_closed := g_closed g\<rparr>)"
  proof (intro inv_remove [OF inv])
    show "distinct (keys ?hs)" using d by (simp add: distinct_map_filter)
  qed (use inv d in \<open>auto simp: guard_inv_def registry_ok_def distinct_keys_delete length_delete_le
        map_of_filter_entries split: if_splits option.splits\<close>)
  then show "wp (revokeSession sid) (safe_from g) (safe_from g) g"
    by (simp add: revokeSession_def guard_wps)
qed

lemma guard_close_safe: "guard_safe guard_close"
proof (rule guard_safeI)
  fix g assume inv: "guard_inv g"
  have "guard_inv (g\<lparr>g_sessions := [], g_handles := [], g_closed := True\<rparr>)
     \<and> guard_evolves g (g\<lparr>g_sessions := [], g_handles := [], g_closed := True\<rparr>)"
    using inv by (intro inv_remove) auto
  moreover have "g\<lparr>g_closed := True, g_sessions := [], g_handles := []\<rparr> =
      g\<lparr>g_sessions := [], g_handles := [], g_closed := True\<rparr>" by simp
  ultimately show "wp guard_close (safe_from g) (safe_from g) g"
    by (simp only: guard_close_def wp_unit_prims)
qed

lemma wp_state: "wp m (safe_from g) (safe_from g) h \<Longrightarrow> guard_inv (snd (m h)) \<and> guard_evolves g (snd (m h))"
  by (auto simp: wp_def split: prod.splits sum.splits)

lemma guard_safe_state: "guard_safe m \<Longrightarrow> guard_inv g \<Longrightarrow> guard_inv (snd (m g)) \<and> guard_evolves g (snd (m g))"
  by (simp add: guard_safe_def)

text \<open>Whatever the callers, hooks and callbacks do, every execution is safe.\<close>

lemma run_calls_safe_if:
  assumes "\<And>c g. c \<in> set cs \<Longrightarrow> guard_inv g \<Longrightarrow> guard_inv (run_call c g) \<and> guard_evolves g (run_call c g)"
  shows "guard_safe (\<lambda>g. (r, run_calls cs g))"
proof -
  have "guard_inv (run_calls cs g) \<and> guard_evolves g (run_calls cs g)" if "guard_inv g" for g
    using assms that
  proof (induction cs arbitrary: g)
    case (Cons c cs)
    then have "guard_inv (run_call c g) \<and> guard_evolves g (run_call c g)" by simp
    with Cons show ?case by simp (metis guard_evolves_trans)
  qed simp
  then show ?thesis by (simp add: guard_safe_def)
qed

lemma run_call_safe: "guard_inv g \<Longrightarrow> guard_inv (run_call c g) \<and> guard_evolves g (run_call c g)"
proof (induction c arbitrary: g)
  case (COpenHandle sid topic ms script verdict)
  then show ?case by (simp add: guard_safe_state openHandle_safe run_calls_safe_if)
next
  case (CArm clock sid handle script verdict)
  then show ?case by (simp add: guard_safe_state arm_safe run_calls_safe_if)
next
  case (CPrepare clock request script verdict)
  then show ?case by (simp add: guard_safe_state prepare_safe run_calls_safe_if)
next
  case (CPublish clock t script verdict callback outcome)
  have "guard_safe (\<lambda>g. (verdict, run_calls script g))" "guard_safe (\<lambda>g. (outcome, run_calls callback g))"
    by (rule run_calls_safe_if, use CPublish in blast)+
  then have "wp (ticket_publish (\<lambda>_ _ h. (verdict, run_calls script h)) clock t
      (Some (\<lambda>h. (outcome, run_calls callback h)))) (safe_from g) (safe_from g) g" if "t < length (g_tickets g)"
    using CPublish.prems that by (intro ticket_publish_safe)
  then show ?case using CPublish.prems by (auto dest: wp_state)
next
  case (CPublishNoFunction t)
  then show ?case using wp_state [OF ticket_publish_None_safe [of g t]] by simp
qed (simp_all add: guard_safe_state openSession_safe closeHandle_safe revokeSession_safe guard_close_safe)

lemma run_calls_safe: "guard_inv g \<Longrightarrow> guard_inv (run_calls cs g) \<and> guard_evolves g (run_calls cs g)"
  using run_calls_safe_if [of cs] run_call_safe by (simp add: guard_safe_def)

lemma newCommandGuard_inv:
  assumes "newCommandGuard a b c f1 f2 pre clock = Inr g"
  shows "guard_inv g \<and> g_trace g = [] \<and> g_prefix g = pre"
  using assms
  by (auto simp: newCommandGuard_def guard_now_def prog_simps guard_inv_def registry_ok_def
      exclusive_leases_def lease_topic_def split: if_splits prod.splits sum.splits)

section \<open>Properties\<close>

text \<open>A hook that calls back into the guard as the script says and then answers with the verdict.\<close>

definition scripted :: "guard_call list \<Rightarrow> jsval result \<Rightarrow> hook" where
  "scripted script verdict = (\<lambda>_ _ g. (verdict, run_calls script g))"

lemma scripted_safe: "guard_safe (scripted script verdict i p)"
  by (simp add: scripted_def run_calls_safe_if run_call_safe)

lemma reachable_guard_inv:
  "newCommandGuard a b c f1 f2 pre clock = Inr g0 \<Longrightarrow> guard_inv (run_calls cs g0) \<and> guard_evolves g0 (run_calls cs g0)"
  by (simp add: newCommandGuard_inv run_calls_safe)

text \<open>
  Whatever calls are made, by clients, by authorization hooks or by publish callbacks, the
  guard never holds more sessions or handles than configured, every handle belongs to an open
  session and carries the epoch of that session, and at most one handle holds a lease on a topic.
\<close>

theorem guard_registrations:
  assumes "newCommandGuard (NumI a) (NumI b) c f1 f2 pre clock = Inr g0" and "g = run_calls cs g0"
  shows "int (length (g_sessions g)) \<le> a \<and> int (length (g_handles g)) \<le> b
    \<and> (\<forall>h st. map_of (g_handles g) h = Some st \<longrightarrow>
         c_handle (h_identity st) = h
         \<and> map_of (g_sessions g) (c_sessionId (h_identity st)) = Some (c_epoch (h_identity st)))
    \<and> exclusive_leases (g_handles g)"
proof -
  have "guard_inv g" and "guard_evolves g0 g" using reachable_guard_inv [OF assms(1)] assms(2) by auto
  moreover have "g_maxSessions g0 = a" "g_maxHandles g0 = b"
    using assms(1) by (auto simp: newCommandGuard_def guard_now_def prog_simps split: if_splits prod.splits sum.splits)
  ultimately show ?thesis
    by (auto simp: guard_inv_def registry_ok_def handle_ok_def guard_evolves_def)
qed

text \<open>
  C1: The commands that reach the robot are ordered: of two publish callbacks that were run, the
  later one has a larger sequence number if both came through one handle; on one topic it used a
  lease issued no earlier, so a writer that lost the topic never publishes after its successor has;
  no ticket is used twice; and each ran before its lease expired, at nondecreasing times.
\<close>

theorem guard_publications:
  assumes "newCommandGuard a b c f1 f2 pre clock = Inr g0" and "tr = g_trace (run_calls cs g0)"
    and "i < j" and "j < length tr"
  shows "(c_handle (p_identity (tr ! i)) = c_handle (p_identity (tr ! j)) \<longrightarrow> p_seq (tr ! i) < p_seq (tr ! j))
    \<and> (c_topic (p_identity (tr ! i)) = c_topic (p_identity (tr ! j)) \<longrightarrow>
         (\<exists>m n. m \<le> n \<and> lease_id (p_lease (tr ! i)) = id_text pre m \<and> lease_id (p_lease (tr ! j)) = id_text pre n))
    \<and> p_ticket (tr ! i) \<noteq> p_ticket (tr ! j) \<and> num_le (p_time (tr ! i)) (p_time (tr ! j))
    \<and> num_less (p_time (tr ! i)) (expiresAt (p_lease (tr ! i)))
    \<and> num_less (p_time (tr ! j)) (expiresAt (p_lease (tr ! j)))"
proof -
  have inv: "guard_inv (run_calls cs g0)" and "guard_evolves g0 (run_calls cs g0)"
    using reachable_guard_inv [OF assms(1)] by auto
  then have pre: "g_prefix (run_calls cs g0) = pre"
    using newCommandGuard_inv [OF assms(1)] by (simp add: guard_evolves_def)
  with inv assms(2) have "sorted_wrt (entry_order pre) tr" and "\<forall>e \<in> set tr. entry_ok (run_calls cs g0) e"
    by (auto simp: guard_inv_def)
  with assms(3,4) have "entry_order pre (tr ! i) (tr ! j)"
    and "entry_ok (run_calls cs g0) (tr ! i)" "entry_ok (run_calls cs g0) (tr ! j)"
    by (auto simp: sorted_wrt_iff_nth_less)
  then show ?thesis by (auto simp: entry_order_def entry_ok_def issued_before_def)
qed

text \<open>
  C12: Revocation is final: once a session has been revoked, no command of it is ever published
  and its identifier is never registered again, whatever calls follow.
\<close>

theorem revoked_session_silent:
  assumes "newCommandGuard a b c f1 f2 pre clock = Inr g0" and "g = run_calls before g0"
    and "map_of (g_sessions g) sid = Some epoch"
    and "g' = run_calls after (snd (revokeSession sid g))"
  shows "\<exists>new. g_trace g' = g_trace g @ new \<and> (\<forall>e \<in> set new. c_sessionId (p_identity e) \<noteq> sid)
    \<and> map_of (g_sessions g') sid = None"
proof -
  let ?r = "snd (revokeSession sid g)"
  have inv: "guard_inv g" using reachable_guard_inv [OF assms(1)] assms(2) by auto
  then have "issued g sid" using assms(3) by (rule inv_session_issued)
  then have dead: "dead_session ?r sid" and "g_trace ?r = g_trace g"
    by (auto simp: revokeSession_def prog_simps dead_session_def issued_def)
  have ev: "guard_evolves ?r g'"
    using run_calls_safe guard_safe_state [OF revokeSession_safe inv] assms(4) by blast
  then have "map_of (g_sessions g') sid = None"
    using guard_evolves_dead(3) [OF ev dead] by (simp add: dead_session_def)
  moreover from ev obtain new where "g_trace g' = g_trace ?r @ new" "\<forall>e \<in> set new. entry_new ?r e"
    by (auto simp: guard_evolves_def)
  ultimately show ?thesis
    using dead \<open>g_trace ?r = g_trace g\<close> by (intro exI [of _ new]) (auto simp: entry_new_def)
qed

lemma prepare_Inr:
  assumes "prepare hook clock request g = (Inr t, g1)"
  obtains seq st s where "sequence (Str (r_seq request)) = Inr seq"
    "validate hook clock request PReceive g = (Inr st, s)" "h_received st < seq"
    "g1 = reserve request seq s" "t = length (g_tickets s)"
proof -
  obtain seq where seq: "sequence (Str (r_seq request)) = Inr seq"
    using assms by (cases "sequence (Str (r_seq request))") (auto simp: prepare_def prog_simps)
  obtain r s where v: "validate hook clock request PReceive g = (r, s)" by fastforce
  with seq assms obtain st where st: "r = Inr st" by (cases r) (auto simp: prepare_def prog_simps)
  have "prepare hook clock request g =
      (if seq \<le> h_received st then (Inl (Err ''stale_sequence''), s)
       else (Inr (length (g_tickets s)), reserve request seq s))"
    using seq v st by (simp add: prepare_def prog_simps set_handle_def reserve_def)
  with assms seq v st that show ?thesis by (auto split: if_splits)
qed

lemma validate_state:
  assumes "\<And>i p. guard_safe (hook i p)" and "guard_inv g"
    and "validate hook clock request ph g = (Inr st, s)"
  shows "validated request st s \<and> guard_inv s \<and> guard_evolves g s"
proof -
  have "wp (validate hook clock request ph) (\<lambda>st s. validated request st s \<and> guard_inv s \<and> guard_evolves g s) (\<lambda>_ _. True) g"
    by (rule wp_validate [OF assms(1,2)]) auto
  with assms(3) show ?thesis by (simp add: wp_def)
qed

lemmas scripted_validate = validate_state [of "scripted script verdict" for script verdict, OF scripted_safe]

text \<open>
  C2: The publish callback of a ticket is run only with full authority. For any hook behaviour,
  \<open>publish\<close> either throws without running the callback, or runs it exactly once, as its last
  action, in a state in which the guard is open, the handle is registered to the requesting session
  under the requested epoch, its lease is the requested one and has not expired, and the sequence
  number, larger than every published one, has just been recorded.
\<close>

theorem publish_needs_authority:
  assumes "newCommandGuard a b c f1 f2 pre clock0 = Inr g0" and "g = run_calls cs g0"
    and "t < length (g_tickets g)" and "request = t_request (g_tickets g ! t)" and "seq = t_seq (g_tickets g ! t)"
  shows "(\<exists>e s. \<forall>publish. ticket_publish (scripted script verdict) clock t (Some publish) g = (Inl e, s))
    \<or> (\<exists>st s. validated request st s \<and> h_published st < seq \<and> \<not> t_consumed (g_tickets g ! t)
        \<and> (\<forall>publish. ticket_publish (scripted script verdict) clock t (Some publish) g =
             publish (commit t (r_handle request) st seq s)))"
proof -
  let ?hook = "scripted script verdict" and ?tk = "g_tickets g ! t"
  have inv: "guard_inv g" using reachable_guard_inv [OF assms(1)] assms(2) by auto
  obtain r s where v: "validate ?hook clock request PPublish (consume t g) = (r, s)" by fastforce
  have run: "ticket_publish ?hook clock t (Some publish) g =
      (if t_consumed ?tk then (Inl (Err ''ticket_consumed''), g)
       else case r of Inl e \<Rightarrow> (Inl e, s)
        | Inr st \<Rightarrow> if seq \<le> h_published st then (Inl (Err ''stale_sequence''), s)
                    else publish (commit t (r_handle request) st seq s))" for publish
    using v by (auto simp: ticket_publish_def prog_simps assms(4,5) consume_def commit_def set_handle_def split: sum.split)
  show ?thesis
  proof (cases r)
    case (Inl e)
    then show ?thesis unfolding run by (cases "t_consumed ?tk") auto
  next
    case (Inr st)
    with v have "validated request st s"
      using scripted_validate [OF inv_consume [OF inv assms(3)]] by blast
    then have "?thesis" if "\<not> t_consumed ?tk" "\<not> seq \<le> h_published st"
      unfolding run using that Inr by (intro disjI2 exI [of _ st] exI [of _ s]) auto
    with Inr show ?thesis unfolding run by (cases "t_consumed ?tk"; cases "seq \<le> h_published st") auto
  qed
qed

text \<open>
  C20: No replay: once a command has been accepted by \<open>prepare\<close>, a command of the same handle with
  the same sequence number is refused ever after, whatever happened to the first one.
\<close>

theorem no_replay:
  assumes "newCommandGuard a b c f1 f2 pre clock0 = Inr g0" and "g = run_calls cs g0"
    and "prepare (scripted script verdict) clock request g = (Inr t, g1)"
    and "g2 = run_calls cs' g1"
    and "r_handle request' = r_handle request" and "r_seq request' = r_seq request"
  shows "\<exists>e. fst (prepare (scripted script' verdict') clock' request' g2) = Inl e"
proof (cases "fst (prepare (scripted script' verdict') clock' request' g2)")
  case (Inr t')
  have inv: "guard_inv g" using reachable_guard_inv [OF assms(1)] assms(2) by auto
  obtain seq st s where q: "sequence (Str (r_seq request)) = Inr seq" and g1: "g1 = reserve request seq s"
    using prepare_Inr [OF assms(3)] .
  define k where "k = length (g_tickets s)"
  have k: "k < length (g_tickets g1)" "t_request (g_tickets g1 ! k) = request" "t_seq (g_tickets g1 ! k) = seq"
    by (auto simp: g1 reserve_def k_def)
  have inv1: "guard_inv g1"
    using guard_safe_state [OF prepare_safe [of "scripted script verdict", OF scripted_safe] inv, of clock request]
    by (simp add: assms(3))
  from Inr have "prepare (scripted script' verdict') clock' request' g2 =
      (Inr t', snd (prepare (scripted script' verdict') clock' request' g2))"
    by (metis prod.collapse)
  then obtain seq' st' s' where seq': "sequence (Str (r_seq request')) = Inr seq'"
    and v: "validate (scripted script' verdict') clock' request' PReceive g2 = (Inr st', s')" and "h_received st' < seq'"
    using prepare_Inr by metis
  moreover have "guard_inv g2" and e2: "guard_evolves g1 g2" using run_calls_safe [OF inv1] assms(4) by auto
  ultimately have "validated request' st' s'" "guard_inv s'" and e3: "guard_evolves g2 s'"
    using scripted_validate [OF _ v] by auto
  moreover have "ticket_evolves (g_tickets g1 ! k) (g_tickets s' ! k)" "k < length (g_tickets s')"
    using guard_evolves_ticket [OF guard_evolves_trans [OF e2 e3] k(1)] by auto
  moreover from this \<open>guard_inv s'\<close> have "ticket_ok s' (g_tickets s' ! k)" by (simp add: guard_inv_def)
  ultimately have "seq \<le> h_received st'"
    using k assms(5) by (auto simp: ticket_ok_def ticket_evolves_def validated_def)
  with \<open>h_received st' < seq'\<close> seq' q assms(6) show ?thesis by simp
qed auto

text \<open>
  \<open>arm\<close> is an exclusive, time-limited grant. With an approving hook and an integral clock
  reading it either refuses with \<open>writer_busy\<close>, leaving every registration as it was, when another
  session holds a live lease on the topic, or returns a fresh lease that expires exactly the
  configured duration later, after which the handle is the only lease holder on its topic and every
  other handle keeps its session, sequence state and, on other topics, its lease.
\<close>

theorem arm_exclusive_writer:
  assumes inv: "guard_inv g" and st: "map_of (g_handles g) handle = Some st" "c_sessionId (h_identity st) = sid"
    and clock: "\<not> num_less (NumI now) (g_lastTime g)" "\<bar>now + h_leaseMs st\<bar> \<le> MAX_SAFE_INTEGER" "\<bar>now\<bar> \<le> MAX_SAFE_INTEGER"
    and run: "arm (\<lambda>_ _ s. (Inr (Bool True), s)) (NumI now) sid handle g = (r, g')"
  shows "if writer_busy g (c_topic (h_identity st)) sid (NumI now)
    then r = Inl (Err ''writer_busy'') \<and> g_handles g' = g_handles g \<and> g_sessions g' = g_sessions g
    else \<exists>l. r = Inr l \<and> expiresAt l = NumI (now + h_leaseMs st) \<and> \<not> issued g (lease_id l)
      \<and> map_of (g_handles g') handle = Some (st\<lparr>h_lease := Some l\<rparr>)
      \<and> (\<forall>h c. h \<noteq> handle \<longrightarrow> map_of (g_handles g) h = Some c \<longrightarrow>
           map_of (g_handles g') h =
             Some (if c_topic (h_identity c) = c_topic (h_identity st) then c\<lparr>h_lease := None\<rparr> else c))"
proof -
  have open': "\<not> g_closed g" using inv st by (auto simp: guard_inv_def registry_ok_def)
  let ?g = "g\<lparr>g_lastTime := NumI now\<rparr>" and ?topic = "c_topic (h_identity st)"
  have add: "num_add (NumI now) (NumI (h_leaseMs st)) = NumI (now + h_leaseMs st)"
    using clock(2) by (intro num_add_int) (simp add: MAX_SAFE_INTEGER_def)
  then have sum: "to_double (rat_of_int now + rat_of_int (h_leaseMs st)) = NumI (now + h_leaseMs st)" by simp
  have "\<not> MAX_SAFE_INTEGER < now + h_leaseMs st" using clock(2) by simp
  then have late: "\<not> num_less (NumI MAX_SAFE_INTEGER) (NumI (now + h_leaseMs st))" by (simp del: of_int_add)
  have busy: "writer_busy ?g ?topic sid (NumI now) = writer_busy g ?topic sid (NumI now)"
    by (simp add: writer_busy_def)
  have "wp (arm (\<lambda>_ _ s. (Inr (Bool True), s)) (NumI now) sid handle)
     (\<lambda>l s. \<not> writer_busy g ?topic sid (NumI now)
        \<and> l = \<lparr>lease_id = id_text (g_prefix g) (Suc (g_nextId g)), expiresAt = NumI (now + h_leaseMs st)\<rparr>
        \<and> s = grant ?topic handle (NumI (now + h_leaseMs st)) ?g)
     (\<lambda>e s. writer_busy g ?topic sid (NumI now) \<and> e = Err ''writer_busy'' \<and> s = ?g) g"
    using st open' clock
    by (simp add: arm_def authorize_def guard_wps wp_def [of "\<lambda>s. (Inr (Bool True), s)"] busy sum late Let_def set_handle_def
        del: of_int_add)
      (auto simp: grant_def clear_leases_def)
  from wpD [OF this run] show ?thesis
    using st by (cases r) (auto simp: handle_grant issued_def)
qed

section \<open>Witnesses\<close>

text \<open>One session, one handle on \<open>/a/b\<close>, one lease, and two commands under it.\<close>

abbreviation ex_id :: "nat \<Rightarrow> ustring" where
  "ex_id n \<equiv> id_text (ustr ''u'') n"

abbreviation approve :: "jsval result" where
  "approve \<equiv> Inr (Bool True)"

definition example_guard :: guard where
  "example_guard = \<lparr>g_maxSessions = 2, g_maxHandles = 4, g_leaseMs = 250, g_prefix = ustr ''u'', g_nextId = 0,
     g_lastTime = NumI 5, g_sessions = [], g_handles = [], g_closed = False, g_tickets = [], g_trace = []\<rparr>"

definition example_request :: "nat \<Rightarrow> commandRequest" where
  "example_request n = \<lparr>r_sessionId = ex_id 1, r_epoch = ustr ''e'', r_handle = ex_id 2, r_leaseId = ex_id 3,
     r_seq = ustr (show_nat n)\<rparr>"

definition example_setup :: "guard_call list" where
  "example_setup = [COpenSession (ustr ''e''), COpenHandle (ex_id 1) (ustr ''/a/b'') None [] approve,
     CArm (NumI 10) (ex_id 1) (ex_id 2) [] approve]"

definition example_calls :: "guard_call list" where
  "example_calls =
     [CPrepare (NumI 20) (example_request 7) [] approve, CPublish (NumI 30) 0 [] approve [] (Inr ()),
      CPrepare (NumI 40) (example_request 9) [] approve, CPublish (NumI 50) 1 [] approve [] (Inr ())]"

lemma example_guard_new:
  "newCommandGuard (NumI 2) (NumI 4) (NumI 250) True True (ustr ''u'') (NumI 5) = Inr example_guard"
  by (simp add: newCommandGuard_def positiveLimit_def MAX_SAFE_INTEGER_def failIf_def guard_now_def prog_simps
      example_guard_def isFinite_iff)

lemma example_topic: "rx_match topic_rx (ustr ''/a/b'')"
  by (simp add: topic_rx_def name_rx_def rlit.simps ustr_def char_cls_def head_cls_def tail_cls_def alpha_cls_def
      alnum_cls_def range_cls_def digit_cls_def unat_code_unit)

lemma example_epoch: "identifier_v (Str (ustr ''e'')) = Inr ()"
  by (simp only: identifier_Inr) (simp add: ustr_def range_cls_def unat_code_unit)

definition example_handle :: handleState where
  "example_handle =
     \<lparr>h_identity = \<lparr>c_sessionId = ex_id 1, c_epoch = ustr ''e'', c_handle = ex_id 2, c_topic = ustr ''/a/b''\<rparr>,
      h_leaseMs = 250, h_lease = Some \<lparr>lease_id = ex_id 3, expiresAt = NumI 260\<rparr>, h_received = -1, h_published = -1\<rparr>"

definition example_armed :: guard where
  "example_armed = example_guard\<lparr>g_nextId := 3, g_lastTime := NumI 10, g_sessions := [(ex_id 1, ustr ''e'')],
     g_handles := [(ex_id 2, example_handle)]\<rparr>"

lemma example_add: "to_double (260 :: rat) = NumI 260"
  using to_double_int [of 260] by simp

lemmas op_defs = openSession_def openHandle_def arm_def prepare_def ticket_publish_def validate_def owned_def
  authorize_def guard_now_def guard_id_def assertOpen_def set_handle_def clear_leases_def writer_busy_def
  fresh_handle_def record_publication_def

lemma example_setup_run: "run_calls example_setup example_guard = example_armed"
  by (simp add: example_setup_def example_guard_def example_armed_def example_handle_def op_defs prog_simps
      example_topic example_epoch positiveLimit_def isFinite_iff MAX_SAFE_INTEGER_def example_add Let_def)

lemma example_calls_run:
  "map p_seq (g_trace (run_calls example_calls example_armed)) = [7, 9]"
  by (simp add: example_calls_def example_guard_def example_armed_def example_handle_def op_defs prog_simps
      isFinite_iff MAX_SAFE_INTEGER_def Let_def example_request_def sequence_show)

lemma run_calls_append: "run_calls (cs @ ds) g = run_calls ds (run_calls cs g)"
  by (induction cs arbitrary: g) auto

lemma example_armed_inv: "guard_inv example_armed"
  using reachable_guard_inv [OF example_guard_new, of example_setup] by (simp add: example_setup_run)

theorem guard_registrations_witness:
  "newCommandGuard (NumI 2) (NumI 4) (NumI 250) True True (ustr ''u'') (NumI 5) = Inr example_guard
   \<and> length (g_handles (run_calls example_setup example_guard)) = 1
   \<and> exclusive_leases (g_handles (run_calls example_setup example_guard))"
  using guard_registrations [OF example_guard_new refl, of example_setup] example_guard_new
  by (simp add: example_setup_run) (simp add: example_armed_def)

theorem guard_publications_witness:
  "\<exists>tr. tr = g_trace (run_calls (example_setup @ example_calls) example_guard) \<and> length tr = 2
     \<and> p_ticket (tr ! 0) \<noteq> p_ticket (tr ! 1) \<and> num_less (p_time (tr ! 0)) (expiresAt (p_lease (tr ! 0)))"
proof -
  let ?tr = "g_trace (run_calls (example_setup @ example_calls) example_guard)"
  have "map p_seq ?tr = [7, 9]" by (simp add: run_calls_append example_setup_run example_calls_run)
  then have "length ?tr = 2" by (metis length_map list.size(3,4) One_nat_def Suc_1 add_Suc_right add.right_neutral)
  with guard_publications [OF example_guard_new refl, of 0 1 "example_setup @ example_calls"] show ?thesis by simp
qed

theorem revoked_session_silent_witness:
  "map_of (g_sessions example_armed) (ex_id 1) = Some (ustr ''e'')
   \<and> map_of (g_sessions (run_calls example_calls (snd (revokeSession (ex_id 1) example_armed)))) (ex_id 1) = None"
proof -
  have s: "map_of (g_sessions example_armed) (ex_id 1) = Some (ustr ''e'')" by (simp add: example_armed_def)
  from revoked_session_silent [OF example_guard_new refl _ refl, of example_setup "ex_id 1" "ustr ''e''" example_calls]
  show ?thesis using s by (auto simp: example_setup_run)
qed

definition example_pending :: "guard_call list" where
  "example_pending = example_setup @ [CPrepare (NumI 20) (example_request 7) [] approve]"

lemma example_pending_run:
  "g_tickets (run_calls example_pending example_guard) =
     [\<lparr>t_request = example_request 7, t_seq = 7, t_consumed = False\<rparr>]"
  by (simp add: example_pending_def run_calls_append example_setup_run)
    (simp add: example_guard_def example_armed_def example_handle_def op_defs prog_simps
      isFinite_iff MAX_SAFE_INTEGER_def Let_def example_request_def sequence_show)

theorem publish_needs_authority_witness:
  "\<exists>g. g = run_calls example_pending example_guard \<and> 0 < length (g_tickets g)
     \<and> ((\<exists>e s. \<forall>publish. ticket_publish (scripted [] approve) (NumI 30) 0 (Some publish) g = (Inl e, s))
        \<or> (\<exists>st s. validated (example_request 7) st s))"
  using publish_needs_authority [OF example_guard_new refl, of 0 example_pending _ _ "[]" approve "NumI 30"]
  by (auto simp: example_pending_run)

theorem no_replay_witness:
  "\<exists>g1. prepare (scripted [] approve) (NumI 20) (example_request 7) example_armed = (Inr 0, g1)
     \<and> (\<exists>e. fst (prepare (scripted [] approve) (NumI 40) (example_request 7) g1) = Inl e)"
proof -
  let ?p = "prepare (scripted [] approve) (NumI 20) (example_request 7) example_armed"
  have "fst ?p = Inr 0"
    by (simp add: example_guard_def example_armed_def example_handle_def op_defs prog_simps scripted_def
      isFinite_iff MAX_SAFE_INTEGER_def Let_def example_request_def sequence_show)
  then have p: "?p = (Inr 0, snd ?p)" by (metis prod.collapse)
  show ?thesis
    using p no_replay [OF example_guard_new refl, of "[]" approve "NumI 20" "example_request 7" example_setup 0 "snd ?p"
        "snd ?p" "[]" "example_request 7" "[]" approve "NumI 40"]
    by (auto simp: example_setup_run)
qed

theorem arm_exclusive_writer_witness:
  "guard_inv example_armed
   \<and> (\<exists>l. fst (arm (\<lambda>_ _ s. (Inr (Bool True), s)) (NumI 20) (ex_id 1) (ex_id 2) example_armed) = Inr l
        \<and> expiresAt l = NumI 270)"
proof -
  have h: "map_of (g_handles example_armed) (ex_id 2) = Some example_handle"
    by (simp add: example_armed_def)
  have "\<not> writer_busy example_armed (ustr ''/a/b'') (ex_id 1) (NumI 20)"
    by (simp add: writer_busy_def example_armed_def example_handle_def)
  moreover have "c_sessionId (h_identity example_handle) = ex_id 1" "c_topic (h_identity example_handle) = ustr ''/a/b''"
    "h_leaseMs example_handle = 250" "g_lastTime example_armed = NumI 10"
    by (simp_all add: example_handle_def example_armed_def)
  ultimately show ?thesis
    using arm_exclusive_writer [OF example_armed_inv h _ _ _ _ surjective_pairing, of "ex_id 1" 20] example_armed_inv
    by (auto simp: MAX_SAFE_INTEGER_def)
qed

end
