(* ===== verification/JS_Text.thy ===== *)
theory JS_Text
  imports JS_Value
begin

text \<open>
  Text encodings of the standard library: UTF-16 strings to UTF-8 bytes (\<open>TextEncoder\<close>,
  \<open>Buffer.byteLength\<close>), and base64 (\<open>Buffer.toString('base64')\<close>, \<open>Buffer.from(s, 'base64')\<close>).
\<close>

section \<open>UTF-8\<close>

definition high_surrogate :: "16 word \<Rightarrow> bool" where
  "high_surrogate c \<longleftrightarrow> range_cls 0xD800 0xDBFF c"

definition low_surrogate :: "16 word \<Rightarrow> bool" where
  "low_surrogate c \<longleftrightarrow> range_cls 0xDC00 0xDFFF c"

text \<open>
  The test of \<open>/[\uD800-\uDBFF](?![\uDC00-\uDFFF])|(?<![\uD800-\uDBFF])[\uDC00-\uDFFF]/u\<close>: some
  surrogate is not part of a pair.
\<close>

fun lone_surrogate :: "ustring \<Rightarrow> bool" where
  "lone_surrogate [] = False"
| "lone_surrogate (c # s) =
     (if high_surrogate c then
        (case s of [] \<Rightarrow> True | d # t \<Rightarrow> if low_surrogate d then lone_surrogate t else True)
      else if low_surrogate c then True
      else lone_surrogate s)"

text \<open>The code points of a string; a surrogate without its partner is replaced by U+FFFD.\<close>

fun code_points :: "ustring \<Rightarrow> nat list" where
  "code_points [] = []"
| "code_points (c # s) =
     (if high_surrogate c then
        (case s of
           [] \<Rightarrow> [0xFFFD]
         | d # t \<Rightarrow>
             if low_surrogate d
             then (0x10000 + (unat c - 0xD800) * 0x400 + (unat d - 0xDC00)) # code_points t
             else 0xFFFD # code_points s)
      else if low_surrogate c then 0xFFFD # code_points s
      else unat c # code_points s)"

definition utf8_bytes :: "nat \<Rightarrow> bytes" where
  "utf8_bytes p =
     map of_nat
      (if p < 0x80 then [p]
       else if p < 0x800 then [0xC0 + p div 64, 0x80 + p mod 64]
       else if p < 0x10000 then [0xE0 + p div 4096, 0x80 + p div 64 mod 64, 0x80 + p mod 64]
       else [0xF0 + p div 262144, 0x80 + p div 4096 mod 64, 0x80 + p div 64 mod 64, 0x80 + p mod 64])"

definition utf8_encode :: "ustring \<Rightarrow> bytes" where
  "utf8_encode s = concat (map utf8_bytes (code_points s))"

text \<open>\<open>Buffer.byteLength(s, 'utf8')\<close>\<close>

definition utf8_length :: "ustring \<Rightarrow> nat" where
  "utf8_length s = length (utf8_encode s)"

section \<open>Searching and splitting\<close>

text \<open>\<open>s.startsWith(p)\<close>\<close>

definition starts_with :: "ustring \<Rightarrow> ustring \<Rightarrow> bool" where
  "starts_with p s \<longleftrightarrow> take (length p) s = p"

text \<open>\<open>s.includes(p)\<close>\<close>

fun includes_text :: "ustring \<Rightarrow> ustring \<Rightarrow> bool" where
  "includes_text p [] = (p = [])"
| "includes_text p (c # s) = (starts_with p (c # s) \<or> includes_text p s)"

text \<open>\<open>s.split(sep)\<close> for a separator that is not empty; \<open>acc\<close> is the current piece.\<close>

function split_pieces :: "ustring \<Rightarrow> ustring \<Rightarrow> ustring \<Rightarrow> ustring list" where
  "split_pieces sep acc [] = [acc]"
| "split_pieces sep acc (c # s) =
     (if starts_with sep (c # s) then acc # split_pieces sep [] (drop (length sep - 1) s)
      else split_pieces sep (acc @ [c]) s)"
  by pat_completeness auto

termination
  by (relation "measure (\<lambda>(sep, acc, s). length s)") auto

definition split_on :: "ustring \<Rightarrow> ustring \<Rightarrow> ustring list" where
  "split_on sep s = split_pieces sep [] s"

text \<open>\<open>xs.join(sep)\<close>\<close>

fun join :: "ustring \<Rightarrow> ustring list \<Rightarrow> ustring" where
  "join sep [] = []"
| "join sep [x] = x"
| "join sep (x # y # xs) = x @ sep @ join sep (y # xs)"

text \<open>White space and line terminators: what \<open>\s\<close> matches and \<open>trim\<close> removes.\<close>

definition js_space :: "16 word \<Rightarrow> bool" where
  "js_space c \<longleftrightarrow>
     (9 \<le> c \<and> c \<le> 13) \<or> c \<in> {0x20, 0xA0, 0x1680, 0x2028, 0x2029, 0x202F, 0x205F, 0x3000, 0xFEFF}
     \<or> (0x2000 \<le> c \<and> c \<le> 0x200A)"

definition trim :: "ustring \<Rightarrow> ustring" where
  "trim s = rev (dropWhile js_space (rev (dropWhile js_space s)))"

text \<open>\<open>toLowerCase\<close> of an ASCII text.\<close>

definition lower_unit :: "16 word \<Rightarrow> 16 word" where
  "lower_unit c = (if range_cls 65 90 c then c + 32 else c)"

definition to_lower :: "ustring \<Rightarrow> ustring" where
  "to_lower s = map lower_unit s"

section \<open>Base64\<close>

definition b64_char :: "nat \<Rightarrow> 16 word" where
  "b64_char n =
     of_nat (if n < 26 then 65 + n else if n < 52 then 71 + n else if n < 62 then n - 4 else if n = 62 then 43 else 47)"

definition b64_value :: "16 word \<Rightarrow> nat" where
  "b64_value c =
     (let u = unat c in
      if 65 \<le> u \<and> u \<le> 90 then u - 65 else if 97 \<le> u \<and> u \<le> 122 then u - 71
      else if 48 \<le> u \<and> u \<le> 57 then u + 4 else if u = 43 then 62 else 63)"

definition b64_pad :: "16 word" where
  "b64_pad = code_unit (CHR ''='')"

fun b64_encode :: "bytes \<Rightarrow> ustring" where
  "b64_encode [] = []"
| "b64_encode [a] = [b64_char (unat a div 4), b64_char (unat a mod 4 * 16), b64_pad, b64_pad]"
| "b64_encode [a, b] =
     [b64_char (unat a div 4), b64_char (unat a mod 4 * 16 + unat b div 16), b64_char (unat b mod 16 * 4), b64_pad]"
| "b64_encode (a # b # c # r) =
     [b64_char (unat a div 4), b64_char (unat a mod 4 * 16 + unat b div 16),
      b64_char (unat b mod 16 * 4 + unat c div 64), b64_char (unat c mod 64)] @ b64_encode r"

text \<open>Decoding of a text made of complete groups of four, as the validator requires before decoding.\<close>

fun b64_decode :: "ustring \<Rightarrow> bytes" where
  "b64_decode (w # x # y # z # r) =
     (let p = b64_value w * 4 + b64_value x div 16;
          q = b64_value x mod 16 * 16 + b64_value y div 4;
          s = b64_value y mod 4 * 64 + b64_value z
      in if z = b64_pad then (if y = b64_pad then [of_nat p] else [of_nat p, of_nat q])
         else [of_nat p, of_nat q, of_nat s] @ b64_decode r)"
| "b64_decode _ = []"

text \<open>\<open>/^(?:[A-Za-z0-9+/]{4})*(?:[A-Za-z0-9+/]{2}==|[A-Za-z0-9+/]{3}=)?$/\<close>\<close>

definition b64_cls :: "16 word \<Rightarrow> bool" where
  "b64_cls c \<longleftrightarrow> alnum_cls c \<or> one_of ''+/'' c"

definition b64_rx :: "16 word rx" where
  "b64_rx =
     RSeq (RStar (RRep 4 4 (RSet b64_cls)))
          (ropt (RAlt (RSeq (RRep 2 2 (RSet b64_cls)) (rlit ''=='')) (RSeq (RRep 3 3 (RSet b64_cls)) (rlit ''=''))))"

section \<open>Lemmas\<close>

lemma starts_with_iff: "starts_with p s \<longleftrightarrow> (\<exists>t. s = p @ t)"
  by (metis append_eq_conv_conj append_take_drop_id starts_with_def)

lemma join_Cons: "xs \<noteq> [] \<Longrightarrow> join sep (x # xs) = x @ sep @ join sep xs"
  by (cases xs) simp_all

lemma split_pieces_not_Nil [simp]: "split_pieces sep acc s \<noteq> []"
  by (induction sep acc s rule: split_pieces.induct) auto

lemma join_split_pieces: "sep \<noteq> [] \<Longrightarrow> join sep (split_pieces sep acc s) = acc @ s"
proof (induction sep acc s rule: split_pieces.induct)
  case (2 sep acc c s)
  show ?case
  proof (cases "starts_with sep (c # s)")
    case True
    then obtain t where t: "c # s = sep @ t" by (auto simp: starts_with_iff)
    with 2(3) have "drop (length sep - 1) s = t" by (cases sep) auto
    moreover from this True 2 have "join sep (split_pieces sep [] t) = t" by simp
    ultimately have "join sep (split_pieces sep acc (c # s)) = acc @ sep @ t" using True by (simp add: join_Cons)
    with t show ?thesis by simp
  next
    case False
    with 2 show ?thesis by simp
  qed
qed simp

lemma join_split_on: "sep \<noteq> [] \<Longrightarrow> join sep (split_on sep s) = s"
  by (simp add: split_on_def join_split_pieces)

lemma split_on_not_Nil [simp]: "split_on sep s \<noteq> []"
  by (simp add: split_on_def)

lemma unat_b64_char:
  "n < 64 \<Longrightarrow> unat (b64_char n) =
     (if n < 26 then 65 + n else if n < 52 then 71 + n else if n < 62 then n - 4 else if n = 62 then 43 else 47)"
  unfolding b64_char_def by (subst unat_of_nat) auto

lemma b64_value_char [simp]: "n < 64 \<Longrightarrow> b64_value (b64_char n) = n"
  by (auto simp: b64_value_def unat_b64_char Let_def)

lemma b64_char_not_pad [simp]: "n < 64 \<Longrightarrow> b64_char n \<noteq> b64_pad"
  using unat_b64_char [of n] by (auto simp: b64_pad_def unat_code_unit split: if_splits)

lemma b64_cls_char: "n < 64 \<Longrightarrow> b64_cls (b64_char n)"
proof -
  assume n: "n < 64"
  have "b64_char n = code_unit d \<longleftrightarrow> unat (b64_char n) = of_char d" for d
    by (metis unat_code_unit unsigned_word_eqI)
  with n show ?thesis
    by (auto simp: b64_cls_def alnum_cls_def alpha_cls_def digit_cls_def range_cls_def one_of_def char_cls_def unat_b64_char)
qed

lemma byte_split:
  fixes a :: "8 word"
  shows "unat a div 4 < 64" "unat a mod 4 * 16 < 64" "k < 16 \<Longrightarrow> unat a mod 4 * 16 + k < 64"
    "unat a mod 16 * 4 < 64" "k < 4 \<Longrightarrow> unat a mod 16 * 4 + k < 64" "unat a div 16 < 16" "unat a div 64 < 4"
proof -
  have "unat a < 256" using unsigned_less [of a, where ?'a = nat] by simp
  then show "unat a div 4 < 64" "unat a div 16 < 16" "unat a div 64 < 4" by auto
qed auto

lemma byte_join:
  fixes a b c :: "8 word"
  shows "(of_nat (unat a div 4 * 4 + unat a mod 4) :: 8 word) = a"
    "(of_nat (unat a div 16 * 16 + unat a mod 16) :: 8 word) = a"
    "(of_nat (unat a div 64 * 64 + unat a mod 64) :: 8 word) = a"
  by (simp_all only: div_mult_mod_eq of_nat_unat ucast_id)

lemma b64_group:
  fixes a b c :: "8 word"
  shows "(unat a mod 4 * 16 + unat b div 16) div 16 = unat a mod 4"
    "(unat a mod 4 * 16) div 16 = unat a mod 4"
    "(unat a mod 4 * 16 + unat b div 16) mod 16 = unat b div 16"
    "(unat b mod 16 * 4 + unat c div 64) div 4 = unat b mod 16"
    "(unat b mod 16 * 4) div 4 = unat b mod 16"
    "(unat b mod 16 * 4 + unat c div 64) mod 4 = unat c div 64"
  using byte_split(6) [of b] byte_split(7) [of c] by auto

lemma b64_roundtrip [simp]: "b64_decode (b64_encode bs) = bs"
  by (induction bs rule: b64_encode.induct)
    (simp_all add: byte_split b64_group byte_join Let_def)

lemma length_b64_encode: "length (b64_encode bs) = 4 * ((length bs + 2) div 3)"
proof (induction bs rule: b64_encode.induct)
  case (4 a b c r)
  have "(length (a # b # c # r) + 2) div 3 = Suc ((length r + 2) div 3)" by simp
  with 4 show ?case by simp
qed auto

lemma match_rep_4: "list_all p [a, b, c, d] \<Longrightarrow> rx_in [a, b, c, d] (RRep 4 4 (RSet p))"
  by (simp add: match_rep_set)

lemma b64_rx_group: "rx_in s b64_rx \<Longrightarrow> list_all b64_cls [a, b, c, d] \<Longrightarrow> rx_in ([a, b, c, d] @ s) b64_rx"
proof -
  assume "rx_in s b64_rx" and g: "list_all b64_cls [a, b, c, d]"
  then obtain x y where s: "s = x @ y" "rx_in x (RStar (RRep 4 4 (RSet b64_cls)))"
    and y: "rx_in y (ropt (RAlt (RSeq (RRep 2 2 (RSet b64_cls)) (rlit ''=='')) (RSeq (RRep 3 3 (RSet b64_cls)) (rlit ''=''))))"
    unfolding b64_rx_def match_seq by blast
  have "rx_in ([a, b, c, d] @ x) (RStar (RRep 4 4 (RSet b64_cls)))"
    using match_rep_4 [OF g] s(2) by (rule in_star)
  from in_seq [OF this y] show ?thesis by (simp add: b64_rx_def s(1))
qed

lemma b64_encode_matches: "rx_match b64_rx (b64_encode bs)"
  unfolding rx_match_iff
proof (induction bs rule: b64_encode.induct)
  case 1
  show ?case by (simp add: b64_rx_def match_seq match_opt in_star0)
next
  case (2 a)
  have "rx_in ([b64_char (unat a div 4), b64_char (unat a mod 4 * 16)] @ ustr ''=='')
      (RSeq (RRep 2 2 (RSet b64_cls)) (rlit ''==''))"
    by (rule in_seq) (simp_all add: match_rep_set match_rlit b64_cls_char byte_split)
  then have "rx_in ([] @ b64_encode [a]) b64_rx"
    unfolding b64_rx_def by (intro in_seq in_star0) (simp add: match_opt b64_pad_def ustr_def)
  then show ?case by simp
next
  case (3 a b)
  have "rx_in ([b64_char (unat a div 4), b64_char (unat a mod 4 * 16 + unat b div 16), b64_char (unat b mod 16 * 4)] @ ustr ''='')
      (RSeq (RRep 3 3 (RSet b64_cls)) (rlit ''=''))"
    by (rule in_seq) (simp_all add: match_rep_set match_rlit b64_cls_char byte_split)
  then have "rx_in ([] @ b64_encode [a, b]) b64_rx"
    unfolding b64_rx_def by (intro in_seq in_star0) (simp add: match_opt b64_pad_def ustr_def)
  then show ?case by simp
next
  case (4 a b c r)
  then show ?case
    unfolding b64_encode.simps by (rule b64_rx_group) (simp add: b64_cls_char byte_split)
qed

end
