(* ===== verification/JS_JSON.thy ===== *)
theory JS_JSON
  imports JS_Text
begin

text \<open>
  \<open>JSON.stringify\<close> and \<open>JSON.parse\<close>, with the decimal text of a number, the order of object keys, and
  the strict UTF-8 decoder \<open>new TextDecoder('utf-8', { fatal: true })\<close>.
\<close>

section \<open>Decimal text of a number\<close>

text \<open>The \<open>n\<close> with \<open>10 ^ (n - 1) \<le> x < 10 ^ n\<close>, for positive \<open>x\<close>.\<close>

definition ilog10 :: "rat \<Rightarrow> int" where
  "ilog10 x =
     (let (a, b) = quotient_of x;
          d = int (floorlog 10 (nat a)) - int (floorlog 10 (nat b))
      in if 10 powi d \<le> x then d + 1 else d)"

text \<open>The digits \<open>s\<close> of length \<open>k\<close> that read back as \<open>x\<close>, the closer candidate first.\<close>

definition digits_of_length :: "rat \<Rightarrow> int \<Rightarrow> nat \<Rightarrow> int option" where
  "digits_of_length x n k =
     (let y = x / 10 powi (n - int k); lo = \<lfloor>y\<rfloor>; hi = lo + 1;
          good = (\<lambda>s. to_double (of_int s * 10 powi (n - int k)) = Num x)
      in if y - of_int lo \<le> of_int hi - y
         then (if good lo then Some lo else if good hi then Some hi else None)
         else (if good hi then Some hi else if good lo then Some lo else None))"

text \<open>The fewest digits that do, with the exponent; a candidate that carried into the next power of ten is shifted.\<close>

fun shortest :: "rat \<Rightarrow> int \<Rightarrow> nat list \<Rightarrow> int \<times> nat \<times> int" where
  "shortest x n [] = (0, 1, n)"
| "shortest x n (k # ks) =
     (case digits_of_length x n k of
        Some s \<Rightarrow> if s = 10 ^ k then (10 ^ (k - 1), k, n + 1) else (s, k, n)
      | None \<Rightarrow> shortest x n ks)"

definition zeros :: "int \<Rightarrow> string" where
  "zeros n = replicate (nat n) (CHR ''0'')"

text \<open>\<open>Number::toString\<close> of a positive number, from its shortest digits.\<close>

definition show_pos :: "rat \<Rightarrow> string" where
  "show_pos x =
     (let (s, k, n) = shortest x (ilog10 x) [1..<18]; ds = show_nat (nat s); e = n - 1
      in if int k \<le> n \<and> n \<le> 21 then ds @ zeros (n - int k)
         else if 0 < n \<and> n \<le> 21 then take (nat n) ds @ ''.'' @ drop (nat n) ds
         else if - 6 < n \<and> n \<le> 0 then ''0.'' @ zeros (- n) @ ds
         else hd ds # (if k = 1 then [] else CHR ''.'' # tl ds) @ ''e''
              @ (if 0 \<le> e then ''+'' else ''-'') @ show_nat (nat \<bar>e\<bar>))"

fun num_to_string :: "number \<Rightarrow> string" where
  "num_to_string NaN = ''NaN''"
| "num_to_string Infinity = ''Infinity''"
| "num_to_string NegInfinity = ''-Infinity''"
| "num_to_string (Num x) =
     (if x = 0 then ''0'' else if x < 0 then CHR ''-'' # show_pos (- x) else show_pos x)"

section \<open>\<open>JSON.stringify\<close>\<close>

definition hex_digit :: "nat \<Rightarrow> char" where
  "hex_digit d = (if d < 10 then digit d else char_of (87 + d))"

definition hex4 :: "nat \<Rightarrow> ustring" where
  "hex4 n = ustr [hex_digit (n div 4096 mod 16), hex_digit (n div 256 mod 16), hex_digit (n div 16 mod 16), hex_digit (n mod 16)]"

definition backslash :: "16 word" where
  "backslash = 92"

definition quote :: "16 word" where
  "quote = 34"

definition escape_unit :: "16 word \<Rightarrow> ustring" where
  "escape_unit c =
     (if c = quote then [backslash, quote]
      else if c = backslash then [backslash, backslash]
      else if c = 8 then [backslash, code_unit (CHR ''b'')]
      else if c = 9 then [backslash, code_unit (CHR ''t'')]
      else if c = 10 then [backslash, code_unit (CHR ''n'')]
      else if c = 12 then [backslash, code_unit (CHR ''f'')]
      else if c = 13 then [backslash, code_unit (CHR ''r'')]
      else if unat c < 32 then [backslash, code_unit (CHR ''u'')] @ hex4 (unat c)
      else [c])"

text \<open>A surrogate without its partner is written as an escape.\<close>

fun escape :: "ustring \<Rightarrow> ustring" where
  "escape [] = []"
| "escape (c # s) =
     (if high_surrogate c then
        (case s of
           [] \<Rightarrow> [backslash, code_unit (CHR ''u'')] @ hex4 (unat c)
         | d # t \<Rightarrow> if low_surrogate d then c # d # escape t
                    else [backslash, code_unit (CHR ''u'')] @ hex4 (unat c) @ escape s)
      else if low_surrogate c then [backslash, code_unit (CHR ''u'')] @ hex4 (unat c) @ escape s
      else escape_unit c @ escape s)"

definition json_quote :: "ustring \<Rightarrow> ustring" where
  "json_quote s = quote # escape s @ [quote]"

text \<open>
  \<open>Inr None\<close> is the result \<open>undefined\<close>; a \<open>bigint\<close> throws. A slot without a value is written as
  \<open>null\<close>, a property without one is left out.
\<close>

fun stringify :: "jsval \<Rightarrow> ustring option result" where
  "stringify Undefined = Inr None"
| "stringify Func = Inr None"
| "stringify Null = Inr (Some (ustr ''null''))"
| "stringify (Bool b) = Inr (Some (ustr (if b then ''true'' else ''false'')))"
| "stringify (Number n) = Inr (Some (ustr (if isFinite n then num_to_string n else ''null'')))"
| "stringify (BigInt i) = Inl (TypeErr ''Do not know how to serialize a BigInt'')"
| "stringify (Str s) = Inr (Some (json_quote s))"
| "stringify (Bytes bs) =
     Inr (Some (ustr ''{'' @ join (ustr '','')
       (map (\<lambda>i. json_quote (ustr (show_nat i)) @ ustr '':'' @ ustr (show_nat (unat (bs ! i)))) [0..<length bs]) @ ustr ''}''))"
| "stringify (Arr slots extra) =
     bindR (mapR (\<lambda>s. case s of
         Data v \<Rightarrow> bindR (stringify v) (\<lambda>t. Inr (case t of Some x \<Rightarrow> x | None \<Rightarrow> ustr ''null''))
       | _ \<Rightarrow> Inr (ustr ''null'')) slots) (\<lambda>xs.
     Inr (Some (ustr ''['' @ join (ustr '','') xs @ ustr '']'')))"
| "stringify (Obj p ps) =
     bindR (mapR (\<lambda>q. case q of
         (Key k, OData True v) \<Rightarrow>
           bindR (stringify v) (\<lambda>t. Inr (case t of Some x \<Rightarrow> [json_quote k @ ustr '':'' @ x] | None \<Rightarrow> []))
       | _ \<Rightarrow> Inr []) ps) (\<lambda>xs.
     Inr (Some (ustr ''{'' @ join (ustr '','') (concat xs) @ ustr ''}'')))"

section \<open>Object keys\<close>

text \<open>
  Setting a property: an existing one keeps its place, a new array index goes among the leading
  indices in ascending order, any other new key to the end.
\<close>

definition index_rx :: "16 word rx" where
  "index_rx = RAlt (rlit ''0'') (RSeq (RSet (range_cls 49 57)) (RStar (RSet (range_cls 48 57))))"

definition array_index :: "ustring \<Rightarrow> bool" where
  "array_index k \<longleftrightarrow> rx_match index_rx k \<and> read_nat k < 4294967295"

fun insert_index :: "ustring \<Rightarrow> 'v \<Rightarrow> (ustring \<times> 'v) list \<Rightarrow> (ustring \<times> 'v) list" where
  "insert_index k v [] = [(k, v)]"
| "insert_index k v ((j, w) # ps) =
     (if array_index j \<and> read_nat j < read_nat k then (j, w) # insert_index k v ps else (k, v) # (j, w) # ps)"

definition obj_put :: "ustring \<Rightarrow> 'v \<Rightarrow> (ustring \<times> 'v) list \<Rightarrow> (ustring \<times> 'v) list" where
  "obj_put k v ps =
     (if k \<in> set (keys ps) then AList.update k v ps
      else if array_index k then insert_index k v ps else ps @ [(k, v)])"

section \<open>\<open>JSON.parse\<close>\<close>

definition json_space :: "16 word \<Rightarrow> bool" where
  "json_space c \<longleftrightarrow> c = 9 \<or> c = 10 \<or> c = 13 \<or> c = 32"

definition skip_ws :: "ustring \<Rightarrow> ustring" where
  "skip_ws s = dropWhile json_space s"

fun hex_value :: "16 word \<Rightarrow> nat option" where
  "hex_value c =
     (if range_cls 48 57 c then Some (unat c - 48)
      else if range_cls 65 70 c then Some (unat c - 55)
      else if range_cls 97 102 c then Some (unat c - 87) else None)"

fun unescape :: "16 word \<Rightarrow> 16 word option" where
  "unescape c =
     (if c = quote \<or> c = backslash \<or> c = code_unit (CHR ''/'') then Some c
      else if c = code_unit (CHR ''b'') then Some 8
      else if c = code_unit (CHR ''f'') then Some 12
      else if c = code_unit (CHR ''n'') then Some 10
      else if c = code_unit (CHR ''r'') then Some 13
      else if c = code_unit (CHR ''t'') then Some 9 else None)"

fun hex_unit :: "16 word \<Rightarrow> 16 word \<Rightarrow> 16 word \<Rightarrow> 16 word \<Rightarrow> 16 word option" where
  "hex_unit a b c d =
     (case (hex_value a, hex_value b, hex_value c, hex_value d) of
        (Some w, Some x, Some y, Some z) \<Rightarrow> Some (of_nat (w * 4096 + x * 256 + y * 16 + z))
      | _ \<Rightarrow> None)"

text \<open>The rest of a string after its opening quote: the string and what follows the closing quote.\<close>

fun read_string :: "ustring \<Rightarrow> (ustring \<times> ustring) option" where
  "read_string [] = None"
| "read_string (c # s) =
     (if c = quote then Some ([], s)
      else if unat c < 32 then None
      else if c = backslash then
        (case s of
           [] \<Rightarrow> None
         | e # t \<Rightarrow>
             if e = code_unit (CHR ''u'') then
               (case t of
                  h1 # h2 # h3 # h4 # r \<Rightarrow>
                    (case hex_unit h1 h2 h3 h4 of
                       None \<Rightarrow> None
                     | Some u \<Rightarrow> map_option (\<lambda>(x, y). (u # x, y)) (read_string r))
                | _ \<Rightarrow> None)
             else
               (case unescape e of
                  None \<Rightarrow> None
                | Some u \<Rightarrow> map_option (\<lambda>(x, y). (u # x, y)) (read_string t)))
      else map_option (\<lambda>(x, y). (c # x, y)) (read_string s))"

text \<open>Parts of a number: integer digits, fraction digits, exponent.\<close>

definition read_whole :: "ustring \<Rightarrow> (ustring \<times> ustring) option" where
  "read_whole s =
     (case s of
        [] \<Rightarrow> None
      | c # t \<Rightarrow>
          if c = code_unit (CHR ''0'') then Some ([c], t)
          else if is_digit c then Some (takeWhile is_digit s, dropWhile is_digit s) else None)"

definition read_fraction :: "ustring \<Rightarrow> (ustring \<times> ustring) option" where
  "read_fraction s =
     (case s of
        c # d # t \<Rightarrow>
          if c = code_unit (CHR ''.'')
          then if is_digit d then Some (takeWhile is_digit (d # t), dropWhile is_digit (d # t)) else None
          else Some ([], s)
      | [c] \<Rightarrow> if c = code_unit (CHR ''.'') then None else Some ([], s)
      | [] \<Rightarrow> Some ([], s))"

definition read_exponent :: "ustring \<Rightarrow> (int \<times> ustring) option" where
  "read_exponent s =
     (case s of
        [] \<Rightarrow> Some (0, s)
      | c # t \<Rightarrow>
          if c = code_unit (CHR ''e'') \<or> c = code_unit (CHR ''E'') then
            (let (sg, u) = (case t of
                 d # r \<Rightarrow> if d = code_unit (CHR ''-'') then (- 1, r) else if d = code_unit (CHR ''+'') then (1, r) else (1, t)
               | [] \<Rightarrow> (1 :: int, t))
             in case u of
                  d # r \<Rightarrow> if is_digit d then Some (sg * int (read_nat (takeWhile is_digit u)), dropWhile is_digit u) else None
                | [] \<Rightarrow> None)
          else Some (0, s))"

definition read_number :: "ustring \<Rightarrow> (number \<times> ustring) option" where
  "read_number s =
     (let (sg, u) = (case s of c # t \<Rightarrow> if c = code_unit (CHR ''-'') then (- 1, t) else (1, s) | [] \<Rightarrow> (1 :: rat, s))
      in case read_whole u of
           None \<Rightarrow> None
         | Some (whole, v) \<Rightarrow>
             (case read_fraction v of
                None \<Rightarrow> None
              | Some (fracs, w) \<Rightarrow>
                  (case read_exponent w of
                     None \<Rightarrow> None
                   | Some (e, r) \<Rightarrow>
                       Some (to_double (sg * of_nat (read_nat (whole @ fracs)) * 10 powi (e - int (length fracs))), r))))"

definition starts :: "string \<Rightarrow> ustring \<Rightarrow> bool" where
  "starts lit s \<longleftrightarrow> take (length lit) s = ustr lit"

fun parse_value :: "nat \<Rightarrow> ustring \<Rightarrow> (jsval \<times> ustring) option"
  and parse_members :: "nat \<Rightarrow> (ustring \<times> jsval) list \<Rightarrow> ustring \<Rightarrow> (jsval \<times> ustring) option"
  and parse_elements :: "nat \<Rightarrow> jsval list \<Rightarrow> ustring \<Rightarrow> (jsval \<times> ustring) option" where
  "parse_value 0 s = None"
| "parse_value (Suc n) s0 =
     (let s = skip_ws s0 in
      if starts ''{'' s then
        (let t = skip_ws (tl s) in if starts ''}'' t then Some (mk_obj [], tl t) else parse_members n [] t)
      else if starts ''['' s then
        (let t = skip_ws (tl s) in if starts '']'' t then Some (mk_arr [], tl t) else parse_elements n [] t)
      else if s \<noteq> [] \<and> hd s = quote then map_option (\<lambda>(x, r). (Str x, r)) (read_string (tl s))
      else if starts ''true'' s then Some (Bool True, drop 4 s)
      else if starts ''false'' s then Some (Bool False, drop 5 s)
      else if starts ''null'' s then Some (Null, drop 4 s)
      else map_option (\<lambda>(x, r). (Number x, r)) (read_number s))"
| "parse_members 0 acc s = None"
| "parse_members (Suc n) acc s =
     (if s \<noteq> [] \<and> hd s = quote then
        (case read_string (tl s) of
           None \<Rightarrow> None
         | Some (k, r) \<Rightarrow>
             (let c = skip_ws r in
              if starts '':'' c then
                (case parse_value n (tl c) of
                   None \<Rightarrow> None
                 | Some (v, r') \<Rightarrow>
                     (let d = skip_ws r'; acc' = obj_put k v acc in
                      if starts '','' d then parse_members n acc' (skip_ws (tl d))
                      else if starts ''}'' d then Some (mk_obj acc', tl d) else None))
              else None))
      else None)"
| "parse_elements 0 acc s = None"
| "parse_elements (Suc n) acc s =
     (case parse_value n s of
        None \<Rightarrow> None
      | Some (v, r) \<Rightarrow>
          (let d = skip_ws r; acc' = acc @ [v] in
           if starts '','' d then parse_elements n acc' (tl d)
           else if starts '']'' d then Some (mk_arr acc', tl d) else None))"

text \<open>Every nested call has consumed a character within two levels, so this fuel is never exhausted.\<close>

definition json_parse :: "ustring \<Rightarrow> jsval result" where
  "json_parse s =
     (case parse_value (2 * length s + 2) s of
        Some (v, r) \<Rightarrow> if skip_ws r = [] then Inr v else Inl (Err ''SyntaxError'')
      | None \<Rightarrow> Inl (Err ''SyntaxError''))"

section \<open>Strict UTF-8 decoding\<close>

definition continuation :: "8 word \<Rightarrow> bool" where
  "continuation b \<longleftrightarrow> 0x80 \<le> unat b \<and> unat b \<le> 0xBF"

definition utf16_units :: "nat \<Rightarrow> ustring" where
  "utf16_units p =
     (if p < 0x10000 then [of_nat p]
      else [of_nat (0xD800 + (p - 0x10000) div 0x400), of_nat (0xDC00 + (p - 0x10000) mod 0x400)])"

text \<open>Overlong forms, surrogates, values above U+10FFFF and incomplete sequences are errors.\<close>

fun utf8_decode :: "bytes \<Rightarrow> ustring option" where
  "utf8_decode [] = Some []"
| "utf8_decode (a # r) =
     (let x = unat a in
      if x < 0x80 then map_option (\<lambda>t. utf16_units x @ t) (utf8_decode r)
      else if 0xC2 \<le> x \<and> x \<le> 0xDF then
        (case r of
           b # r2 \<Rightarrow>
             if continuation b
             then map_option (\<lambda>t. utf16_units ((x - 0xC0) * 64 + (unat b - 0x80)) @ t) (utf8_decode r2) else None
         | _ \<Rightarrow> None)
      else if 0xE0 \<le> x \<and> x \<le> 0xEF then
        (case r of
           b # c # r3 \<Rightarrow>
             (let p = (x - 0xE0) * 4096 + (unat b - 0x80) * 64 + (unat c - 0x80) in
              if continuation b \<and> continuation c \<and> 0x800 \<le> p \<and> \<not> (0xD800 \<le> p \<and> p \<le> 0xDFFF)
              then map_option (\<lambda>t. utf16_units p @ t) (utf8_decode r3) else None)
         | _ \<Rightarrow> None)
      else if 0xF0 \<le> x \<and> x \<le> 0xF4 then
        (case r of
           b # c # d # r4 \<Rightarrow>
             (let p = (x - 0xF0) * 262144 + (unat b - 0x80) * 4096 + (unat c - 0x80) * 64 + (unat d - 0x80) in
              if continuation b \<and> continuation c \<and> continuation d \<and> 0x10000 \<le> p \<and> p \<le> 0x10FFFF
              then map_option (\<lambda>t. utf16_units p @ t) (utf8_decode r4) else None)
         | _ \<Rightarrow> None)
      else None)"

text \<open>
  \<open>Buffer.toString('utf8')\<close>: the lenient decoder. \<open>lead_range\<close> is the number of continuation bytes a
  lead byte announces and the range of the first of them; the longest prefix of a sequence that could
  still be completed is replaced by one U+FFFD.
\<close>

fun lead_range :: "nat \<Rightarrow> (nat \<times> nat \<times> nat) option" where
  "lead_range x =
     (if 0xC2 \<le> x \<and> x \<le> 0xDF then Some (1, 0x80, 0xBF)
      else if x = 0xE0 then Some (2, 0xA0, 0xBF)
      else if x = 0xED then Some (2, 0x80, 0x9F)
      else if 0xE1 \<le> x \<and> x \<le> 0xEF then Some (2, 0x80, 0xBF)
      else if x = 0xF0 then Some (3, 0x90, 0xBF)
      else if x = 0xF4 then Some (3, 0x80, 0x8F)
      else if 0xF1 \<le> x \<and> x \<le> 0xF3 then Some (3, 0x80, 0xBF)
      else None)"

definition continuations :: "nat \<times> nat \<times> nat \<Rightarrow> bytes \<Rightarrow> bytes" where
  "continuations rng r =
     (case (rng, r) of
        ((n, lo, hi), b # t) \<Rightarrow>
          if lo \<le> unat b \<and> unat b \<le> hi then b # takeWhile continuation (take (n - 1) t) else []
      | _ \<Rightarrow> [])"

definition scalar_value :: "nat \<Rightarrow> bytes \<Rightarrow> nat" where
  "scalar_value x cs =
     foldl (\<lambda>p b. p * 64 + (unat b - 0x80)) (if length cs = 1 then x - 0xC0 else if length cs = 2 then x - 0xE0 else x - 0xF0) cs"

function utf8_lossy :: "bytes \<Rightarrow> ustring" where
  "utf8_lossy [] = []"
| "utf8_lossy (a # r) =
     (let x = unat a in
      if x < 0x80 then of_nat x # utf8_lossy r
      else case lead_range x of
             None \<Rightarrow> 0xFFFD # utf8_lossy r
           | Some rng \<Rightarrow>
               let cs = continuations rng r in
               (if length cs = fst rng then utf16_units (scalar_value x cs) else [0xFFFD]) @ utf8_lossy (drop (length cs) r))"
  by pat_completeness auto

termination
  by (relation "measure length") auto

text \<open>A leading byte order mark is dropped.\<close>

definition text_decode :: "bytes \<Rightarrow> ustring result" where
  "text_decode bs =
     (case utf8_decode (if take 3 bs = [0xEF, 0xBB, 0xBF] then drop 3 bs else bs) of
        Some s \<Rightarrow> Inr s | None \<Rightarrow> Inl (TypeErr ''The encoded data was not valid''))"

section \<open>The text of a safe integer is its decimal text\<close>

lemma to_double_int_inject:
  assumes "to_double (of_int j) = NumI i" and "\<bar>i\<bar> \<le> MAX_SAFE_INTEGER"
  shows "j = i"
proof -
  have lo: "\<not> j < - 9007199254740992"
  proof
    assume "j < - 9007199254740992"
    then have "num_le (to_double (of_int j)) (to_double (of_int (- 9007199254740992)))" by (intro to_double_mono) simp
    moreover have "to_double (of_int (- 9007199254740992)) = NumI (- 9007199254740992)" by (intro to_double_int) simp
    ultimately have "num_le (NumI i) (NumI (- 9007199254740992))" using assms(1) by (simp only:)
    then have "rat_of_int i \<le> rat_of_int (- 9007199254740992)" by (simp only: num_le.simps)
    with assms(2) show False unfolding of_int_le_iff by (simp add: MAX_SAFE_INTEGER_def)
  qed
  have hi: "\<not> 9007199254740992 < j"
  proof
    assume "9007199254740992 < j"
    then have "num_le (to_double (of_int 9007199254740992)) (to_double (of_int j))" by (intro to_double_mono) simp
    moreover have "to_double (of_int 9007199254740992) = NumI 9007199254740992" by (intro to_double_int) simp
    ultimately have "num_le (NumI 9007199254740992) (NumI i)" using assms(1) by (simp only:)
    then have "rat_of_int 9007199254740992 \<le> rat_of_int i" by (simp only: num_le.simps)
    with assms(2) show False unfolding of_int_le_iff by (simp add: MAX_SAFE_INTEGER_def)
  qed
  have "to_double (of_int j) = NumI j" using lo hi by (intro to_double_int) linarith
  with assms(1) show ?thesis by simp
qed

lemma ilog10_int:
  assumes "0 < i"
  shows "ilog10 (of_int i) = int (floorlog 10 (nat i))"
proof -
  have q: "quotient_of (of_int i) = (i, 1)" by (simp add: of_int_rat quotient_of_Fract)
  have f: "10 ^ (floorlog 10 (nat i) - 1) \<le> nat i" "0 < floorlog 10 (nat i)"
    using assms floorlog_bounds [of "nat i" 10] by (auto simp: floorlog_def)
  have one: "floorlog 10 1 = 1" by (simp add: floorlog_def)
  have "rat_of_nat (10 ^ (floorlog 10 (nat i) - 1)) \<le> rat_of_nat (nat i)" using f(1) by (simp only: of_nat_le_iff)
  then have "(10 :: rat) powi (int (floorlog 10 (nat i)) - 1) \<le> of_int i"
    using f(2) assms by (simp add: power_int_def nat_diff_distrib)
  then show ?thesis using one by (simp add: ilog10_def q Let_def)
qed

lemma powi_nat_diff: "k \<le> n \<Longrightarrow> (10 :: rat) powi (int n - int k) = of_int (10 ^ (n - k))"
  by (simp add: power_int_def nat_diff_distrib)

lemma digits_of_length_int:
  assumes "0 < i" and "i \<le> MAX_SAFE_INTEGER" and "k \<le> n" and "digits_of_length (of_int i) (int n) k = Some s"
  shows "s * 10 ^ (n - k) = i"
proof -
  have "to_double (of_int s * 10 powi (int n - int k)) = NumI i"
    using assms(4) by (auto simp: digits_of_length_def Let_def split: if_splits)
  then have "to_double (of_int (s * 10 ^ (n - k))) = NumI i" by (simp add: powi_nat_diff [OF assms(3)])
  then show ?thesis by (rule to_double_int_inject) (use assms in simp)
qed

lemma digits_of_length_full: "0 < i \<Longrightarrow> i \<le> MAX_SAFE_INTEGER \<Longrightarrow> digits_of_length (of_int i) (int n) n = Some i"
  using to_double_int [of i] by (simp add: digits_of_length_def Let_def MAX_SAFE_INTEGER_def)

lemma shortest_int:
  assumes "0 < i" and "i \<le> MAX_SAFE_INTEGER" and "i < 10 ^ n" and "a \<le> n" and "n < b"
  shows "\<exists>k s. shortest (of_int i) (int n) [a..<b] = (s, k, int n) \<and> k \<le> n \<and> s * 10 ^ (n - k) = i"
  using assms(4)
proof (induction "n - a" arbitrary: a)
  case 0
  then have "[a..<b] = n # [Suc n..<b]" using assms(5) by (simp add: upt_rec)
  with assms show ?case by (simp add: digits_of_length_full)
next
  case (Suc d)
  then have l: "[a..<b] = a # [Suc a..<b]" using assms(5) by (simp add: upt_rec)
  show ?case
  proof (cases "digits_of_length (of_int i) (int n) a")
    case None
    then show ?thesis using Suc.hyps(1) [of "Suc a"] Suc.hyps(2) Suc.prems by (simp add: l)
  next
    case (Some s)
    then have s: "s * 10 ^ (n - a) = i" using assms Suc.prems by (intro digits_of_length_int) auto
    have "s \<noteq> 10 ^ a"
    proof
      assume "s = 10 ^ a"
      then have "i = 10 ^ n" using s Suc.prems by (simp flip: power_add)
      with assms(3) show False by simp
    qed
    with Some s Suc.prems show ?thesis by (simp add: l)
  qed
qed

lemma show_nat_shift: "0 < s \<Longrightarrow> show_nat (s * 10 ^ m) = show_nat s @ replicate m (CHR ''0'')"
proof (induction m)
  case (Suc m)
  have "show_nat (s * 10 ^ Suc m) = show_nat (s * 10 ^ m) @ [digit 0]"
    using Suc.prems by (subst show_nat.simps) (simp add: mult.left_commute)
  with Suc show ?case by (simp add: digit_0 replicate_append_same)
qed simp

lemma show_pos_int:
  assumes "0 < i" and "i \<le> MAX_SAFE_INTEGER"
  shows "show_pos (of_int i) = show_nat (nat i)"
proof -
  define n where "n = floorlog 10 (nat i)"
  have b: "nat i < 10 ^ n" "0 < n" using assms floorlog_bounds [of "nat i" 10] by (auto simp: n_def floorlog_def)
  have "n \<le> 16" unfolding n_def using assms by (intro floorlog_leI) (auto simp: MAX_SAFE_INTEGER_def)
  have "i < 10 ^ n" using b(1) assms by (metis nat_less_iff of_nat_numeral of_nat_power less_imp_le)
  then obtain k s where k: "shortest (of_int i) (int n) [1..<18] = (s, k, int n)" "k \<le> n" "s * 10 ^ (n - k) = i"
    using shortest_int [of i n 1 18] assms b \<open>n \<le> 16\<close> by auto
  have "0 < s" using k(3) assms(1) by (metis zero_less_mult_pos2 zero_less_numeral zero_less_power)
  then have "nat i = nat s * 10 ^ (n - k)" using k(3) by (metis nat_mult_distrib less_imp_le nat_numeral nat_power_eq zero_le_numeral)
  then have "show_nat (nat i) = show_nat (nat s) @ zeros (int n - int k)"
    using \<open>0 < s\<close> k(2) by (simp add: show_nat_shift zeros_def nat_diff_distrib)
  with k \<open>n \<le> 16\<close> show ?thesis
    by (simp add: show_pos_def ilog10_int [OF assms(1)] flip: n_def)
qed

lemma num_to_string_int:
  assumes "\<bar>i\<bar> \<le> MAX_SAFE_INTEGER"
  shows "num_to_string (NumI i) = show_int i"
proof (cases i "0 :: int" rule: linorder_cases)
  case less
  then have "show_pos (of_int (- i)) = show_nat (nat (- i))" using assms by (intro show_pos_int) auto
  with less show ?thesis by (simp add: show_int_def)
next
  case greater
  then have "show_pos (of_int i) = show_nat (nat i)" using assms by (intro show_pos_int) auto
  with greater show ?thesis by (simp add: show_int_def)
qed (simp add: show_int_def show_nat.simps digit_0)

end
