(* ===== verification/Codec.thy ===== *)
theory Codec
  imports JS_JSON Session_Validation
begin

text \<open>
  \<open>codec/schema.ts\<close>, \<open>codec/scalars.ts\<close> and \<open>codec/index.ts\<close>: validation of schemas and options,
  and the conversion between native ROS values and JSON values in both directions. The node counter
  of a conversion is the state of a program; the recursion is over the remaining depth, so that a
  schema or value of any shape is converted in finitely many steps. A schema field carries the
  properties of an object in the order of \<open>Object.keys\<close>.
\<close>

section \<open>Schemas and options\<close>

record lengthBounds =
  lb_length :: "int option"
  lb_maxLength :: "int option"

datatype field =
    FBoolean
  | FString lengthBounds
  | FInteger int bool
  | FFloat int
  | FBytes lengthBounds
  | FArray lengthBounds field
  | FObject "(ustring \<times> field) list"

record codecOptions =
  maxDepth :: int
  maxArrayLength :: int
  maxStringBytes :: int
  maxByteLength :: int
  maxNodes :: int
  allowNonFinite :: bool

definition invalid :: "string \<Rightarrow> error" where
  "invalid reason = TypeErr (''Invalid codec value: '' @ reason)"

definition requireValue :: "bool \<Rightarrow> string \<Rightarrow> unit result" where
  "requireValue condition reason = failIf (\<not> condition) (invalid reason)"

section \<open>\<open>schema.ts\<close>\<close>

text \<open>\<open>record(value)\<close>: a plain object all of whose own properties are enumerable data properties.\<close>

fun own_keys_ok :: "(okey \<times> jsval oprop) list \<Rightarrow> unit result" where
  "own_keys_ok [] = Inr ()"
| "own_keys_ok ((Symbol, _) # ps) = Inl (invalid ''symbol key'')"
| "own_keys_ok ((Key k, OData True v) # ps) = own_keys_ok ps"
| "own_keys_ok ((Key k, _) # ps) = Inl (invalid ''object data property'')"

fun record_v :: "jsval \<Rightarrow> jsval result" where
  "record_v (Obj p ps) =
     (if p \<noteq> ObjectPrototype \<and> p \<noteq> NullPrototype then Inl (invalid ''object prototype'')
      else bindR (own_keys_ok ps) (\<lambda>_. Inr (Obj p ps)))"
| "record_v (Bytes bs) = Inl (invalid ''object prototype'')"
| "record_v _ = Inl (invalid ''object type'')"

definition length_option :: "jsval \<Rightarrow> int option result" where
  "length_option v =
     (case v of
        Undefined \<Rightarrow> Inr None
      | Number n \<Rightarrow>
          if isSafeInteger n \<and> num_le (NumI 0) n then Inr (Some (num_int n)) else Inl (invalid ''schema length'')
      | _ \<Rightarrow> Inl (invalid ''schema length''))"

definition lengths :: "jsval \<Rightarrow> lengthBounds result" where
  "lengths f =
     bindR (length_option (get_prop f (ustr ''length''))) (\<lambda>l.
     bindR (length_option (get_prop f (ustr ''maxLength''))) (\<lambda>m.
     bindR (requireValue (case (l, m) of (Some a, Some b) \<Rightarrow> a \<le> b | _ \<Rightarrow> True) ''schema length conflict'') (\<lambda>_.
     Inr \<lparr>lb_length = l, lb_maxLength = m\<rparr>)))"

text \<open>
  The defaults, and an option: a given one replaces the default. Among the keys of the merged
  object array indices come first, then the known options, then the other unknown ones.
\<close>

definition option_names :: "ustring list" where
  "option_names =
     map ustr [''maxDepth'', ''maxArrayLength'', ''maxStringBytes'', ''maxByteLength'', ''maxNodes'', ''allowNonFinite'']"

definition limit_option :: "jsval \<Rightarrow> string \<Rightarrow> int \<Rightarrow> int result" where
  "limit_option overrides key dflt =
     (if has_own overrides (ustr key)
      then case get_prop overrides (ustr key) of
             Number n \<Rightarrow>
               if isSafeInteger n \<and> num_less (NumI 0) n then Inr (num_int n) else Inl (invalid ''positive codec limit'')
           | _ \<Rightarrow> Inl (invalid ''positive codec limit'')
      else Inr dflt)"

definition codecOptions_v :: "jsval \<Rightarrow> codecOptions result" where
  "codecOptions_v overrides =
     bindR (record_v overrides) (\<lambda>_.
     bindR (requireValue (\<not> list_ex array_index (object_keys overrides)) ''unknown codec option'') (\<lambda>_.
     bindR (limit_option overrides ''maxDepth'' 32) (\<lambda>d.
     bindR (limit_option overrides ''maxArrayLength'' 4096) (\<lambda>a.
     bindR (limit_option overrides ''maxStringBytes'' 16384) (\<lambda>s.
     bindR (limit_option overrides ''maxByteLength'' 16384) (\<lambda>b.
     bindR (limit_option overrides ''maxNodes'' 32768) (\<lambda>n.
     bindR (if has_own overrides (ustr ''allowNonFinite'')
            then case get_prop overrides (ustr ''allowNonFinite'') of
                   Bool x \<Rightarrow> Inr x | _ \<Rightarrow> Inl (invalid ''non-finite option'')
            else Inr True) (\<lambda>x.
     bindR (requireValue (list_all (\<lambda>k. k \<in> set option_names) (object_keys overrides)) ''unknown codec option'') (\<lambda>_.
     Inr \<lparr>maxDepth = d, maxArrayLength = a, maxStringBytes = s, maxByteLength = b, maxNodes = n,
          allowNonFinite = x\<rparr>)))))))))"

text \<open>\<open>++nodes <= options.maxNodes\<close>\<close>

definition count_node :: "int \<Rightarrow> string \<Rightarrow> (int, unit) prog" where
  "count_node limit reason =
     seqE (modE (\<lambda>n. n + 1)) (bindE (getE (\<lambda>n. n)) (\<lambda>n. throwIf (\<not> n \<le> limit) (invalid reason)))"

text \<open>\<open>snapshotSchema\<close>; the first argument is the number of levels \<open>depth <= options.maxDepth\<close> still allows.\<close>

definition is_number :: "jsval \<Rightarrow> int list \<Rightarrow> bool" where
  "is_number v ns \<longleftrightarrow> list_ex (\<lambda>i. v = Number (NumI i)) ns"

primrec snapshot_visit :: "nat \<Rightarrow> codecOptions \<Rightarrow> jsval \<Rightarrow> (int, field) prog" where
  "snapshot_visit 0 opt f = throwE (invalid ''schema complexity'')"
| "snapshot_visit (Suc d) opt f =
     seqE (count_node (maxNodes opt) ''schema complexity'')
    (seqE (liftE (record_v f))
    (let kind = get_prop f (ustr ''kind'') in
     if kind = Str (ustr ''boolean'') then retE FBoolean
     else if kind = Str (ustr ''string'') then bindE (liftE (lengths f)) (\<lambda>b. retE (FString b))
     else if kind = Str (ustr ''integer'') then
       (let bits = get_prop f (ustr ''bits''); sgnd = get_prop f (ustr ''signed'') in
        seqE (liftE (requireValue (is_number bits [8, 16, 32, 64] \<and> (sgnd = Bool True \<or> sgnd = Bool False)) ''integer schema''))
             (retE (FInteger (case bits of Number n \<Rightarrow> num_int n | _ \<Rightarrow> 0) (sgnd = Bool True))))
     else if kind = Str (ustr ''float'') then
       (let bits = get_prop f (ustr ''bits'') in
        seqE (liftE (requireValue (is_number bits [32, 64]) ''float schema''))
             (retE (FFloat (case bits of Number n \<Rightarrow> num_int n | _ \<Rightarrow> 0))))
     else if kind = Str (ustr ''bytes'') then bindE (liftE (lengths f)) (\<lambda>b. retE (FBytes b))
     else if kind = Str (ustr ''array'') then
       bindE (liftE (lengths f)) (\<lambda>b.
       bindE (snapshot_visit d opt (get_prop f (ustr ''element''))) (\<lambda>e. retE (FArray b e)))
     else if kind = Str (ustr ''object'') then
       bindE (liftE (record_v (get_prop f (ustr ''fields'')))) (\<lambda>fs.
       bindE (mapE (\<lambda>k. bindE (snapshot_visit d opt (get_prop fs k)) (\<lambda>c. retE (k, c))) (object_keys fs)) (\<lambda>cs.
       retE (FObject cs)))
     else throwE (invalid ''unknown schema kind'')))"

definition snapshotSchema :: "jsval \<Rightarrow> codecOptions \<Rightarrow> field result" where
  "snapshotSchema f opt = fst (snapshot_visit (nat (maxDepth opt + 1)) opt f 0)"

section \<open>\<open>scalars.ts\<close>\<close>

definition checkLength :: "int \<Rightarrow> lengthBounds \<Rightarrow> int \<Rightarrow> unit result" where
  "checkLength len b limit =
     bindR (requireValue (len \<le> limit) ''resource length limit'') (\<lambda>_.
     bindR (requireValue (case lb_length b of None \<Rightarrow> True | Some l \<Rightarrow> len = l) ''fixed length'') (\<lambda>_.
     requireValue (case lb_maxLength b of None \<Rightarrow> True | Some m \<Rightarrow> len \<le> m) ''bounded length''))"

text \<open>\<open>/^(0|-?[1-9][0-9]*)$/\<close> and \<open>BigInt(text)\<close>\<close>

definition decimal_rx :: "16 word rx" where
  "decimal_rx =
     RAlt (rlit ''0'') (RSeq (ropt (rlit ''-'')) (RSeq (RSet (range_cls 49 57)) (RStar (RSet (range_cls 48 57)))))"

fun read_int :: "ustring \<Rightarrow> int" where
  "read_int [] = 0"
| "read_int (c # s) = (if c = code_unit (CHR ''-'') then - int (read_nat s) else int (read_nat (c # s)))"

definition int_min :: "int \<Rightarrow> bool \<Rightarrow> int" where
  "int_min bits sgnd = (if sgnd then - (2 ^ nat (bits - 1)) else 0)"

definition int_max :: "int \<Rightarrow> bool \<Rightarrow> int" where
  "int_max bits sgnd = (if sgnd then 2 ^ nat (bits - 1) - 1 else 2 ^ nat bits - 1)"

definition parse_integer :: "int \<Rightarrow> jsval \<Rightarrow> bool \<Rightarrow> int result" where
  "parse_integer bits v encode =
     (if bits = 64 then
        if encode then (case v of BigInt i \<Rightarrow> Inr i | _ \<Rightarrow> Inl (invalid ''64-bit integer type''))
        else (case v of
                Str s \<Rightarrow>
                  bindR (requireValue (length s \<le> 20) ''64-bit decimal length'') (\<lambda>_.
                  bindR (requireValue (rx_match decimal_rx s) ''canonical decimal'') (\<lambda>_.
                  Inr (read_int s)))
              | _ \<Rightarrow> Inl (invalid ''64-bit decimal length''))
      else (case v of
              Number n \<Rightarrow> bindR (requireValue (isInteger n) ''integer type'') (\<lambda>_. Inr (num_int n))
            | _ \<Rightarrow> Inl (invalid ''integer type'')))"

definition integer_v :: "int \<Rightarrow> bool \<Rightarrow> jsval \<Rightarrow> bool \<Rightarrow> jsval result" where
  "integer_v bits sgnd v encode =
     bindR (parse_integer bits v encode) (\<lambda>parsed.
     bindR (requireValue (int_min bits sgnd \<le> parsed \<and> parsed \<le> int_max bits sgnd) ''integer range'') (\<lambda>_.
     Inr (if bits \<noteq> 64 then Number (NumI parsed)
          else if encode then Str (ustr (show_int parsed)) else BigInt parsed)))"

fun nonfinite_tag :: "number \<Rightarrow> string" where
  "nonfinite_tag NaN = ''NaN''"
| "nonfinite_tag Infinity = ''Infinity''"
| "nonfinite_tag NegInfinity = ''-Infinity''"
| "nonfinite_tag (Num x) = []"

definition read_tag :: "ustring \<Rightarrow> number" where
  "read_tag s = (if s = ustr ''NaN'' then NaN else if s = ustr ''Infinity'' then Infinity else NegInfinity)"

definition floating_v :: "int \<Rightarrow> jsval \<Rightarrow> bool \<Rightarrow> bool \<Rightarrow> jsval result" where
  "floating_v bits v encode allow =
     (case v of
        Str s \<Rightarrow>
          if \<not> encode
          then bindR (requireValue (allow \<and> (s = ustr ''NaN'' \<or> s = ustr ''Infinity'' \<or> s = ustr ''-Infinity'')) ''float tag'')
                 (\<lambda>_. Inr (Number (read_tag s)))
          else Inl (invalid ''float type'')
      | Number n \<Rightarrow>
          if \<not> isFinite n
          then bindR (requireValue (encode \<and> allow) ''non-finite float'') (\<lambda>_. Inr (Str (ustr (nonfinite_tag n))))
          else (let r = (if bits = 32 then fround n else n) in
                bindR (requireValue (isFinite r) ''float32 overflow'') (\<lambda>_. Inr (Number r)))
      | _ \<Rightarrow> Inl (invalid ''float type''))"

text \<open>\<open>4 * Math.ceil(limit / 3)\<close>, the quotient rounded as a double.\<close>

definition encoded_limit :: "int \<Rightarrow> int" where
  "encoded_limit limit = 4 * (case num_div (NumI limit) (NumI 3) of Num q \<Rightarrow> \<lceil>q\<rceil> | _ \<Rightarrow> 0)"

definition bytes_v :: "lengthBounds \<Rightarrow> jsval \<Rightarrow> bool \<Rightarrow> int \<Rightarrow> jsval result" where
  "bytes_v b v encode limit =
     (if encode then
        (case v of
           Bytes bs \<Rightarrow> bindR (checkLength (int (length bs)) b limit) (\<lambda>_. Inr (Str (b64_encode bs)))
         | _ \<Rightarrow> Inl (invalid ''byte array type''))
      else
        (case v of
           Str s \<Rightarrow>
             bindR (requireValue (int (length s) \<le> encoded_limit limit) ''encoded byte limit'') (\<lambda>_.
             bindR (requireValue (rx_match b64_rx s) ''base64 syntax'') (\<lambda>_.
             let decoded = b64_decode s in
             bindR (requireValue (b64_encode decoded = s) ''canonical base64'') (\<lambda>_.
             bindR (checkLength (int (length decoded)) b limit) (\<lambda>_.
             Inr (Bytes decoded)))))
         | _ \<Rightarrow> Inl (invalid ''base64 type'')))"

fun scalar :: "field \<Rightarrow> jsval \<Rightarrow> bool \<Rightarrow> codecOptions \<Rightarrow> jsval result" where
  "scalar FBoolean v encode opt = (case v of Bool x \<Rightarrow> Inr (Bool x) | _ \<Rightarrow> Inl (invalid ''boolean type''))"
| "scalar (FString b) v encode opt =
     (case v of
        Str s \<Rightarrow>
          bindR (requireValue (\<not> lone_surrogate s) ''unpaired surrogate'') (\<lambda>_.
          bindR (checkLength (int (utf8_length s)) b (maxStringBytes opt)) (\<lambda>_. Inr (Str s)))
      | _ \<Rightarrow> Inl (invalid ''string type''))"
| "scalar (FInteger bits sgnd) v encode opt = integer_v bits sgnd v encode"
| "scalar (FFloat bits) v encode opt = floating_v bits v encode (allowNonFinite opt)"
| "scalar (FBytes b) v encode opt = bytes_v b v encode (maxByteLength opt)"
| "scalar _ v encode opt = Inr Undefined"

section \<open>\<open>index.ts\<close>\<close>

text \<open>The number of own keys of an array besides \<open>length\<close>.\<close>

definition array_own_keys :: "jsval slot list \<Rightarrow> nat \<Rightarrow> nat" where
  "array_own_keys slots extra = length (filter (\<lambda>s. s \<noteq> Hole) slots) + extra"

fun slot_data :: "jsval slot \<Rightarrow> jsval result" where
  "slot_data (Data v) = Inr v"
| "slot_data _ = Inl (invalid ''array data property'')"

primrec convert_visit :: "nat \<Rightarrow> codecOptions \<Rightarrow> bool \<Rightarrow> field \<Rightarrow> jsval \<Rightarrow> (int, jsval) prog" where
  "convert_visit 0 opt encode f v = throwE (invalid ''payload complexity'')"
| "convert_visit (Suc d) opt encode f v =
     seqE (count_node (maxNodes opt) ''payload complexity'')
     (case f of
        FArray b el \<Rightarrow>
          (case v of
             Arr slots extra \<Rightarrow>
               seqE (liftE (checkLength (int (length slots)) b (maxArrayLength opt)))
              (seqE (liftE (requireValue (array_own_keys slots extra = length slots) ''array keys''))
              (bindE (mapE (\<lambda>s. bindE (liftE (slot_data s)) (convert_visit d opt encode el)) slots) (\<lambda>vs.
               retE (mk_arr vs))))
           | _ \<Rightarrow> throwE (invalid ''array type''))
      | FObject fs \<Rightarrow>
          bindE (liftE (record_v v)) (\<lambda>object.
          seqE (liftE (requireValue (length (object_keys object) = length fs) ''object field count''))
         (bindE (mapE (\<lambda>(name, g).
             seqE (liftE (requireValue (has_own object name) ''missing field''))
            (bindE (convert_visit d opt encode g (get_prop object name)) (\<lambda>w. retE (name, w)))) fs) (\<lambda>kvs.
          retE (mk_obj kvs))))
      | _ \<Rightarrow> liftE (scalar f v encode opt))"

definition convert :: "codecOptions \<Rightarrow> field \<Rightarrow> jsval \<Rightarrow> bool \<Rightarrow> jsval result" where
  "convert opt schema input encode = fst (convert_visit (nat (maxDepth opt + 1)) opt encode schema input 0)"

record codec =
  cd_options :: codecOptions
  cd_schema :: field

definition createCodec :: "jsval \<Rightarrow> jsval \<Rightarrow> codec result" where
  "createCodec descriptor overrides =
     bindR (codecOptions_v overrides) (\<lambda>opt.
     bindR (snapshotSchema descriptor opt) (\<lambda>schema.
     Inr \<lparr>cd_options = opt, cd_schema = schema\<rparr>))"

definition codec_encode :: "codec \<Rightarrow> jsval \<Rightarrow> jsval result" where
  "codec_encode c native = convert (cd_options c) (cd_schema c) native True"

definition codec_decode :: "codec \<Rightarrow> jsval \<Rightarrow> jsval result" where
  "codec_decode c wire = convert (cd_options c) (cd_schema c) wire False"

section \<open>Well-formed schemas\<close>

definition bounds_ok :: "lengthBounds \<Rightarrow> bool" where
  "bounds_ok b \<longleftrightarrow>
     (case lb_length b of None \<Rightarrow> True | Some l \<Rightarrow> 0 \<le> l \<and> (case lb_maxLength b of None \<Rightarrow> True | Some m \<Rightarrow> l \<le> m))
     \<and> (case lb_maxLength b of None \<Rightarrow> True | Some m \<Rightarrow> 0 \<le> m)"

fun field_ok :: "field \<Rightarrow> bool" where
  "field_ok (FInteger bits sgnd) = (bits \<in> {8, 16, 32, 64})"
| "field_ok (FFloat bits) = (bits \<in> {32, 64})"
| "field_ok (FString b) = bounds_ok b"
| "field_ok (FBytes b) = bounds_ok b"
| "field_ok (FArray b el) = (bounds_ok b \<and> field_ok el)"
| "field_ok (FObject fs) = (distinct (keys fs) \<and> list_all (\<lambda>p. field_ok (snd p)) fs)"
| "field_ok FBoolean = True"

definition codec_options_ok :: "codecOptions \<Rightarrow> bool" where
  "codec_options_ok opt \<longleftrightarrow>
     0 < maxDepth opt \<and> 0 < maxArrayLength opt \<and> 0 < maxStringBytes opt \<and> 0 < maxNodes opt
     \<and> 0 < maxByteLength opt \<and> maxByteLength opt \<le> MAX_SAFE_INTEGER"

section \<open>Scalars\<close>

lemma requireValue_Inr [simp]: "requireValue c r = Inr u \<longleftrightarrow> c"
  by (simp add: requireValue_def)

lemma requireValue_True [simp]: "requireValue True r = Inr ()"
  by simp

lemma bindE_liftE_Inr [simp]: "bindE (liftE (Inr x)) f = f x"
  by (simp add: fun_eq_iff prog_simps)

lemma encoded_limit_enough:
  assumes "0 < limit" and "limit \<le> MAX_SAFE_INTEGER" and "int len \<le> limit"
  shows "4 * int ((len + 2) div 3) \<le> encoded_limit limit"
proof -
  let ?x = "of_int limit / 3 :: rat"
  have x: "0 < ?x" using assms(1) by simp
  have "(of_int limit :: rat) \<le> of_int MAX_SAFE_INTEGER" using assms(2) by (simp only: of_int_le_iff)
  then have x52: "?x < 2 powi 52" by (simp add: MAX_SAFE_INTEGER_def)
  have "ilog2 ?x < 52" using x x52 by (rule ilog2_less)
  then have err: "\<bar>fl 53 (- 1074) ?x - ?x\<bar> \<le> 2 powi (- 1) / 2" using x by (intro fl_error) auto
  then have err4: "\<bar>fl 53 (- 1074) ?x - ?x\<bar> \<le> 1 / 4" by (simp add: power_int_minus)
  have small: "\<bar>fl 53 (- 1074) ?x\<bar> < 2 ^ 1024"
  proof -
    have "\<bar>fl 53 (- 1074) ?x\<bar> \<le> 2 powi 52 + 1" using err4 x x52 by linarith
    also have "\<dots> < 2 ^ 54" by simp
    also have "\<dots> < (2 :: rat) ^ 1024" by (rule power_strict_increasing) auto
    finally show ?thesis .
  qed
  then have enc: "encoded_limit limit = 4 * \<lceil>fl 53 (- 1074) ?x\<rceil>"
    by (auto simp: encoded_limit_def to_double_def to_ieee_def Let_def abs_less_iff)
  show ?thesis
  proof (cases "len = 0")
    case True
    have "0 \<le> fl 53 (- 1074) ?x" using x by (intro fl_nonneg) simp
    with True show ?thesis by (simp add: enc)
  next
    case False
    define m where "m = (len + 2) div 3"
    have "3 * m \<le> len + 2" by (simp add: m_def)
    then have "3 * int m - 2 \<le> limit" using assms(3) by linarith
    then have "(of_int (3 * int m - 2) :: rat) \<le> of_int limit" by (simp only: of_int_le_iff)
    then have "of_nat m - 2 / 3 \<le> ?x" by simp
    moreover have "?x - 1 / 4 \<le> fl 53 (- 1074) ?x" using err4 by linarith
    ultimately have "of_nat m - 1 < fl 53 (- 1074) ?x" by linarith
    then have "int m \<le> \<lceil>fl 53 (- 1074) ?x\<rceil>" by linarith
    then show ?thesis by (simp add: enc m_def)
  qed
qed

lemma read_int_show: "read_int (ustr (show_int i)) = i"
proof (cases "i < 0")
  case True
  then show ?thesis by (simp add: show_int_def ustr_Cons)
next
  case False
  obtain c s where cs: "ustr (show_nat (nat i)) = c # s" by (cases "ustr (show_nat (nat i))") (auto simp: ustr_def)
  with show_nat_digits [of "nat i"] have "is_digit c" by simp
  then have "c \<noteq> code_unit (CHR ''-'')" by (auto simp: is_digit_def unat_code_unit)
  with False cs [symmetric] show ?thesis by (simp add: show_int_def cs) (simp flip: cs)
qed

lemma show_pos_matches:
  assumes "0 < n"
  shows "\<exists>c s. ustr (show_nat n) = c # s \<and> range_cls 49 57 c \<and> list_all (range_cls 48 57) s"
proof -
  obtain c s where cs: "ustr (show_nat n) = c # s" by (cases "ustr (show_nat n)") (auto simp: ustr_def)
  have "hd (ustr (show_nat n)) = code_unit (hd (show_nat n))" by (simp add: ustr_def hd_map)
  then have "c \<noteq> code_unit (CHR ''0'')" using hd_show_nat [OF assms] cs by simp
  moreover have "is_digit c" "list_all is_digit s" using show_nat_digits [of n] cs by simp_all
  ultimately show ?thesis using cs by (auto simp: range_cls_nonzero_digit range_cls_digit)
qed

lemma decimal_rx_show: "rx_match decimal_rx (ustr (show_int i))"
proof (cases "i = 0")
  case True
  then show ?thesis by (simp add: rx_match_iff decimal_rx_def rx_simps show_int_def show_nat.simps digit_0)
next
  case False
  define n where "n = nat \<bar>i\<bar>"
  have "0 < n" using False by (simp add: n_def)
  then obtain c s where cs: "ustr (show_nat n) = c # s" "range_cls 49 57 c" "list_all (range_cls 48 57) s"
    using show_pos_matches by blast
  let ?tail = "RSeq (RSet (range_cls 49 57)) (RStar (RSet (range_cls 48 57)))"
  have t: "rx_in (ustr (show_nat n)) ?tail" using cs by (simp add: rx_simps)
  have "rx_in ((if i < 0 then ustr ''-'' else []) @ ustr (show_nat n)) (RSeq (ropt (rlit ''-'')) ?tail)"
    by (intro in_seq t) (simp add: rx_simps)
  moreover have "ustr (show_int i) = (if i < 0 then ustr ''-'' else []) @ ustr (show_nat n)"
    by (simp add: show_int_def n_def ustr_Cons)
  ultimately show ?thesis by (simp add: rx_match_iff decimal_rx_def)
qed

lemma length_show_int: "- (10 ^ 19) < i \<Longrightarrow> i < 10 ^ 20 \<Longrightarrow> length (show_int i) \<le> 20"
proof (cases "i < 0")
  case True
  assume "- (10 ^ 19) < i"
  then have "nat (- i) < 10 ^ 19" using True by (simp add: nat_less_iff)
  then have "length (show_nat (nat (- i))) \<le> 19" by (intro length_show_nat) auto
  with True show ?thesis by (simp add: show_int_def)
next
  case False
  assume "i < 10 ^ 20"
  then have "nat i < 10 ^ 20" using False by (simp add: nat_less_iff)
  then have "length (show_nat (nat i)) \<le> 20" by (intro length_show_nat) auto
  with False show ?thesis by (simp add: show_int_def)
qed

lemma integer_roundtrip:
  assumes "bits \<in> {8, 16, 32, 64}" and "integer_v bits sgnd v encode = Inr w"
  shows "\<exists>v'. integer_v bits sgnd w (\<not> encode) = Inr v' \<and> integer_v bits sgnd v' encode = Inr w"
proof -
  obtain i where p: "parse_integer bits v encode = Inr i"
    and r: "int_min bits sgnd \<le> i" "i \<le> int_max bits sgnd"
    and w: "w = (if bits \<noteq> 64 then Number (NumI i) else if encode then Str (ustr (show_int i)) else BigInt i)"
    using assms(2) by (auto simp: integer_v_def)
  have again: "parse_integer bits (if bits \<noteq> 64 then Number (NumI i) else if enc then BigInt i else Str (ustr (show_int i))) enc = Inr i"
    for enc
  proof (cases "bits = 64")
    case True
    with r have "length (show_int i) \<le> 20"
      by (intro length_show_int) (auto simp: int_min_def int_max_def split: if_splits)
    with True show ?thesis by (simp add: parse_integer_def decimal_rx_show read_int_show)
  next
    case False
    then show ?thesis by (simp add: parse_integer_def)
  qed
  have full: "integer_v bits sgnd (if bits \<noteq> 64 then Number (NumI i) else if enc then BigInt i else Str (ustr (show_int i))) enc =
      Inr (if bits \<noteq> 64 then Number (NumI i) else if enc then Str (ustr (show_int i)) else BigInt i)" for enc
    using r unfolding integer_v_def again by simp
  show ?thesis
    using full [of "\<not> encode"] full [of encode]
    by (intro exI [of _ "if bits \<noteq> 64 then Number (NumI i) else if encode then BigInt i else Str (ustr (show_int i))"])
      (auto simp: w split: if_splits)
qed

lemma read_nonfinite_tag: "\<not> isFinite n \<Longrightarrow> read_tag (ustr (nonfinite_tag n)) = n"
  by (cases n) (simp_all add: read_tag_def)

lemma nonfinite_tag_cases:
  "\<not> isFinite n \<Longrightarrow> ustr (nonfinite_tag n) = ustr ''NaN'' \<or> ustr (nonfinite_tag n) = ustr ''Infinity''
     \<or> ustr (nonfinite_tag n) = ustr ''-Infinity''"
  by (cases n) simp_all

lemma floating_roundtrip:
  assumes "floating_v bits v encode allow = Inr w"
  shows "\<exists>v'. floating_v bits w (\<not> encode) allow = Inr v' \<and> floating_v bits v' encode allow = Inr w"
proof (cases v)
  case (Str s)
  with assms have enc: "\<not> encode" and "allow" and s: "s = ustr ''NaN'' \<or> s = ustr ''Infinity'' \<or> s = ustr ''-Infinity''"
    and w: "w = Number (read_tag s)"
    by (auto simp: floating_v_def split: if_splits)
  then have "\<not> isFinite (read_tag s)" "ustr (nonfinite_tag (read_tag s)) = s" by (auto simp: read_tag_def)
  with enc \<open>allow\<close> s w show ?thesis by (intro exI [of _ "Str s"]) (auto simp: floating_v_def)
next
  case (Number n)
  show ?thesis
  proof (cases "isFinite n")
    case True
    define r where "r = (if bits = 32 then fround n else n)"
    with True Number assms have r: "isFinite r" "w = Number r" by (auto simp: floating_v_def Let_def)
    have "(if bits = 32 then fround r else r) = r" by (simp add: r_def fround_idem)
    with r show ?thesis by (intro exI [of _ "Number r"]) (auto simp: floating_v_def Let_def)
  next
    case False
    with Number assms have "encode" "allow" and w: "w = Str (ustr (nonfinite_tag n))"
      by (auto simp: floating_v_def)
    with False show ?thesis
      using nonfinite_tag_cases [OF False]
      by (intro exI [of _ "Number n"]) (auto simp: floating_v_def read_nonfinite_tag)
  qed
qed (use assms in \<open>auto simp: floating_v_def\<close>)

lemma bytes_roundtrip:
  assumes "codec_options_ok opt" and "bytes_v b v encode (maxByteLength opt) = Inr w"
  shows "\<exists>v'. bytes_v b w (\<not> encode) (maxByteLength opt) = Inr v' \<and> bytes_v b v' encode (maxByteLength opt) = Inr w"
proof -
  obtain bs where c: "checkLength (int (length bs)) b (maxByteLength opt) = Inr ()"
    and w: "w = (if encode then Str (b64_encode bs) else Bytes bs)"
    using assms(2) by (cases v) (auto simp: bytes_v_def Let_def split: if_splits)
  have len: "int (length bs) \<le> maxByteLength opt" using c by (simp add: checkLength_def)
  have "int (length (b64_encode bs)) \<le> encoded_limit (maxByteLength opt)"
    using encoded_limit_enough [OF _ _ len] assms(1) by (simp add: codec_options_ok_def length_b64_encode)
  then have "bytes_v b (Str (b64_encode bs)) False (maxByteLength opt) = Inr (Bytes bs)"
    using c by (simp add: bytes_v_def b64_encode_matches)
  moreover have "bytes_v b (Bytes bs) True (maxByteLength opt) = Inr (Str (b64_encode bs))"
    using c by (simp add: bytes_v_def)
  ultimately show ?thesis
    by (intro exI [of _ "if encode then Bytes bs else Str (b64_encode bs)"]) (auto simp: w)
qed

lemma scalar_roundtrip:
  assumes "codec_options_ok opt" and "field_ok f" and "scalar f v encode opt = Inr w"
    and "\<nexists>b el. f = FArray b el" and "\<nexists>fs. f = FObject fs"
  shows "\<exists>v'. scalar f w (\<not> encode) opt = Inr v' \<and> scalar f v' encode opt = Inr w"
proof (cases f)
  case FBoolean
  with assms(3) show ?thesis by (cases v) auto
next
  case (FString b)
  with assms(3) show ?thesis by (cases v) auto
next
  case (FInteger bits sgnd)
  with assms(2,3) integer_roundtrip show ?thesis by simp
next
  case (FFloat bits)
  with assms(3) floating_roundtrip show ?thesis by simp
next
  case (FBytes b)
  with assms(1,3) bytes_roundtrip show ?thesis by simp
qed (use assms in auto)

section \<open>Trees\<close>

lemma mapE_Cons_Inr:
  "mapE f (x # xs) n = (Inr ys, n') \<longleftrightarrow>
     (\<exists>y zs m. f x n = (Inr y, m) \<and> mapE f xs m = (Inr zs, n') \<and> ys = y # zs)"
  by (auto simp: run_Inr)

lemma mapE_Nil_Inr: "mapE f [] n = (Inr ys, n') \<longleftrightarrow> ys = [] \<and> n' = n"
  by (auto simp: run_Inr)

lemma mapE_length: "mapE f xs n = (Inr ys, n') \<Longrightarrow> length ys = length xs"
  by (induction xs arbitrary: n ys) (auto simp: mapE_Nil_Inr mapE_Cons_Inr simp del: mapE.simps)

lemma mapE_map: "mapE f (map h xs) = mapE (\<lambda>x. f (h x)) xs"
  by (induction xs) simp_all

lemma mapE_roundtrip:
  assumes "\<And>x y n n'. x \<in> set xs \<Longrightarrow> f x n = (Inr y, n') \<Longrightarrow> \<exists>x'. g y n = (Inr x', n') \<and> h x' n = (Inr y, n')"
    and "mapE f xs n = (Inr ys, n')"
  shows "\<exists>xs'. mapE g ys n = (Inr xs', n') \<and> mapE h xs' n = (Inr ys, n')"
  using assms
proof (induction xs arbitrary: n ys)
  case (Cons x xs)
  from Cons.prems(2) obtain y zs m where y: "f x n = (Inr y, m)" and zs: "mapE f xs m = (Inr zs, n')" and ys: "ys = y # zs"
    unfolding mapE_Cons_Inr by blast
  from Cons.prems(1) [OF _ y] obtain x' where x': "g y n = (Inr x', m)" "h x' n = (Inr y, m)" by auto
  have "\<exists>xs'. mapE g zs m = (Inr xs', n') \<and> mapE h xs' m = (Inr zs, n')"
    by (rule Cons.IH [OF _ zs]) (erule (1) Cons.prems(1) [OF list.set_intros(2)])
  then obtain xs' where "mapE g zs m = (Inr xs', n')" "mapE h xs' m = (Inr zs, n')" by blast
  with x' show ?case by (intro exI [of _ "x' # xs'"]) (simp add: ys prog_simps)
qed (auto simp: run_Inr)

text \<open>The loop over the fields of an object.\<close>

abbreviation visit_fields ::
    "nat \<Rightarrow> codecOptions \<Rightarrow> bool \<Rightarrow> jsval \<Rightarrow> (ustring \<times> field) list \<Rightarrow> (int, (ustring \<times> jsval) list) prog" where
  "visit_fields d opt encode object \<equiv> mapE (\<lambda>(name, g).
      seqE (liftE (requireValue (has_own object name) ''missing field''))
     (bindE (convert_visit d opt encode g (get_prop object name)) (\<lambda>w. retE (name, w))))"

definition has_entries :: "jsval \<Rightarrow> (ustring \<times> jsval) list \<Rightarrow> bool" where
  "has_entries object kvs \<longleftrightarrow> list_all (\<lambda>(k, v). has_own object k \<and> get_prop object k = v) kvs"

lemma visit_fields_Cons:
  "visit_fields d opt encode object ((name, g) # fs) n = (Inr kvs, n') \<longleftrightarrow>
     (\<exists>w m rest. has_own object name \<and> convert_visit d opt encode g (get_prop object name) n = (Inr w, m)
        \<and> visit_fields d opt encode object fs m = (Inr rest, n') \<and> kvs = (name, w) # rest)"
  by (auto simp: mapE_Cons_Inr run_Inr simp del: mapE.simps)

lemma visit_fields_roundtrip:
  assumes "\<And>name g v w n n'. (name, g) \<in> set fs \<Longrightarrow> convert_visit d opt encode g v n = (Inr w, n') \<Longrightarrow>
      \<exists>v'. convert_visit d opt (\<not> encode) g w n = (Inr v', n') \<and> convert_visit d opt encode g v' n = (Inr w, n')"
    and "visit_fields d opt encode object fs n = (Inr kvs, n')"
  shows "\<exists>kvs'. keys kvs' = keys fs \<and> keys kvs = keys fs
    \<and> (\<forall>object'. has_entries object' kvs \<longrightarrow> visit_fields d opt (\<not> encode) object' fs n = (Inr kvs', n'))
    \<and> (\<forall>object'. has_entries object' kvs' \<longrightarrow> visit_fields d opt encode object' fs n = (Inr kvs, n'))"
  using assms
proof (induction fs arbitrary: n kvs)
  case Nil
  then show ?case by (intro exI [of _ "[]"]) (auto simp: run_Inr)
next
  case (Cons p fs)
  obtain name g where p: "p = (name, g)" by fastforce
  from Cons.prems(2) obtain w m rest where w: "convert_visit d opt encode g (get_prop object name) n = (Inr w, m)"
    and rest: "visit_fields d opt encode object fs m = (Inr rest, n')" and kvs: "kvs = (name, w) # rest"
    unfolding p visit_fields_Cons by blast
  from Cons.prems(1) [of name g, OF _ w] obtain v' where
    v': "convert_visit d opt (\<not> encode) g w n = (Inr v', m)" "convert_visit d opt encode g v' n = (Inr w, m)"
    using p by auto
  obtain kvs' where k: "keys kvs' = keys fs" "keys rest = keys fs"
    "\<And>object'. has_entries object' rest \<Longrightarrow> visit_fields d opt (\<not> encode) object' fs m = (Inr kvs', n')"
    "\<And>object'. has_entries object' kvs' \<Longrightarrow> visit_fields d opt encode object' fs m = (Inr rest, n')"
    using Cons.IH [OF _ rest] Cons.prems(1) [OF list.set_intros(2)] by blast
  show ?case
    using k v' by (intro exI [of _ "(name, v') # kvs'"]) (auto simp: p kvs visit_fields_Cons has_entries_def simp del: mapE.simps)
qed

lemma own_keys_ok_mk_prop: "own_keys_ok (map mk_prop kvs) = Inr ()"
  by (induction kvs) (simp_all add: mk_prop_def)

lemma record_v_mk_obj [simp]: "record_v (mk_obj kvs) = Inr (mk_obj kvs)"
  by (simp add: mk_obj_def own_keys_ok_mk_prop)

lemma has_entries_mk_obj: "distinct (keys kvs) \<Longrightarrow> has_entries (mk_obj kvs) kvs"
  by (auto simp: has_entries_def list_all_iff rev_image_eqI)

lemma array_own_keys_Data [simp]: "array_own_keys (map Data vs) 0 = length vs"
  by (induction vs) (simp_all add: array_own_keys_def)

theorem visit_roundtrip:
  assumes "codec_options_ok opt" and "field_ok f" and "convert_visit d opt encode f v n = (Inr w, n')"
  shows "\<exists>v'. convert_visit d opt (\<not> encode) f w n = (Inr v', n') \<and> convert_visit d opt encode f v' n = (Inr w, n')"
  using assms(2,3)
proof (induction d arbitrary: f v w n n')
  case 0
  then show ?case by (simp add: run_Inr)
next
  case (Suc d)
  obtain m where cnt: "count_node (maxNodes opt) ''payload complexity'' n = (Inr (), m)"
    using Suc.prems(2) by (auto simp: run_Inr simp del: mapE.simps)
  show ?case
  proof (cases f)
    case (FArray b el)
    with Suc.prems cnt obtain slots extra vs where v: "v = Arr slots extra" and w: "w = mk_arr vs"
      and len: "checkLength (int (length slots)) b (maxArrayLength opt) = Inr ()"
      and run: "mapE (\<lambda>s. bindE (liftE (slot_data s)) (convert_visit d opt encode el)) slots m = (Inr vs, n')"
      by (cases v) (auto simp: run_Inr simp del: mapE.simps)
    have "\<exists>xs. mapE (convert_visit d opt (\<not> encode) el) vs m = (Inr xs, n')
        \<and> mapE (convert_visit d opt encode el) xs m = (Inr vs, n')"
      using Suc.prems(1) FArray
      by (intro mapE_roundtrip [OF _ run]) (auto simp: run_Inr intro: Suc.IH)
    then obtain xs where xs: "mapE (convert_visit d opt (\<not> encode) el) vs m = (Inr xs, n')"
        "mapE (convert_visit d opt encode el) xs m = (Inr vs, n')" by blast
    have "length vs = length slots" "length xs = length slots"
      using mapE_length [OF run] mapE_length [OF xs(1)] by simp_all
    with FArray len cnt xs w show ?thesis
      by (intro exI [of _ "mk_arr xs"]) (simp add: mk_arr_def prog_simps mapE_map)
  next
    case (FObject fs)
    with Suc.prems cnt obtain object kvs where w: "w = mk_obj kvs"
      and run: "visit_fields d opt encode object fs m = (Inr kvs, n')"
      by (auto simp: run_Inr simp del: mapE.simps)
    have "\<exists>kvs'. keys kvs' = keys fs \<and> keys kvs = keys fs
      \<and> (\<forall>object'. has_entries object' kvs \<longrightarrow> visit_fields d opt (\<not> encode) object' fs m = (Inr kvs', n'))
      \<and> (\<forall>object'. has_entries object' kvs' \<longrightarrow> visit_fields d opt encode object' fs m = (Inr kvs, n'))"
      using Suc.prems(1) FObject
      by (intro visit_fields_roundtrip [OF _ run] Suc.IH) (auto simp: list_all_iff)
    then obtain kvs' where names: "keys kvs' = keys fs" "keys kvs = keys fs"
      and bwd: "\<And>object'. has_entries object' kvs \<Longrightarrow> visit_fields d opt (\<not> encode) object' fs m = (Inr kvs', n')"
      and fwd: "\<And>object'. has_entries object' kvs' \<Longrightarrow> visit_fields d opt encode object' fs m = (Inr kvs, n')"
      by blast
    have "distinct (keys fs)" using Suc.prems(1) FObject by simp
    then have "has_entries (mk_obj kvs) kvs" "has_entries (mk_obj kvs') kvs'"
      by (simp_all add: has_entries_mk_obj names)
    note k = names bwd [OF this(1)] fwd [OF this(2)]
    have "length kvs = length fs" "length kvs' = length fs" using k(1,2) by (metis length_map)+
    with FObject cnt k w show ?thesis
      by (intro exI [of _ "mk_obj kvs'"]) (simp add: prog_simps)
  qed (use Suc.prems cnt scalar_roundtrip [OF assms(1) Suc.prems(1)] in
      \<open>force simp: prog_simps run_Inr simp del: scalar.simps\<close>)+
qed

lemma convert_back:
  assumes "codec_options_ok opt" and "field_ok f" and "convert opt f v encode = Inr w"
  shows "\<exists>v'. convert opt f w (\<not> encode) = Inr v' \<and> convert opt f v' encode = Inr w"
  using visit_roundtrip [OF assms(1,2)] assms(3) unfolding convert_def by (metis fst_conv prod.collapse)

section \<open>What a conversion returns\<close>

definition fits :: "int \<Rightarrow> lengthBounds \<Rightarrow> int \<Rightarrow> bool" where
  "fits len b limit \<longleftrightarrow>
     len \<le> limit \<and> (case lb_length b of None \<Rightarrow> True | Some l \<Rightarrow> len = l)
     \<and> (case lb_maxLength b of None \<Rightarrow> True | Some m \<Rightarrow> len \<le> m)"

text \<open>
  \<open>typed opt wire f v\<close>: \<open>v\<close> is a value of the field \<open>f\<close>, on the wire a JSON value (no \<open>bigint\<close>,
  no byte array, no number that is not finite), natively the value the ROS side expects.
\<close>

inductive typed :: "codecOptions \<Rightarrow> bool \<Rightarrow> field \<Rightarrow> jsval \<Rightarrow> bool" for opt :: codecOptions and wire :: bool where
  typed_boolean: "typed opt wire FBoolean (Bool x)"
| typed_string: "\<not> lone_surrogate s \<Longrightarrow> fits (int (utf8_length s)) b (maxStringBytes opt) \<Longrightarrow>
    typed opt wire (FString b) (Str s)"
| typed_small: "bits \<noteq> 64 \<Longrightarrow> int_min bits sgnd \<le> i \<Longrightarrow> i \<le> int_max bits sgnd \<Longrightarrow>
    typed opt wire (FInteger bits sgnd) (Number (NumI i))"
| typed_large: "int_min 64 sgnd \<le> i \<Longrightarrow> i \<le> int_max 64 sgnd \<Longrightarrow>
    v = (if wire then Str (ustr (show_int i)) else BigInt i) \<Longrightarrow> typed opt wire (FInteger 64 sgnd) v"
| typed_finite: "isFinite n \<Longrightarrow> (bits = 32 \<Longrightarrow> fround n = n) \<Longrightarrow> typed opt wire (FFloat bits) (Number n)"
| typed_nonfinite: "\<not> isFinite n \<Longrightarrow> allowNonFinite opt \<Longrightarrow>
    v = (if wire then Str (ustr (nonfinite_tag n)) else Number n) \<Longrightarrow> typed opt wire (FFloat bits) v"
| typed_bytes: "fits (int (length bs)) b (maxByteLength opt) \<Longrightarrow>
    v = (if wire then Str (b64_encode bs) else Bytes bs) \<Longrightarrow> typed opt wire (FBytes b) v"
| typed_array: "fits (int (length vs)) b (maxArrayLength opt) \<Longrightarrow> (\<And>v. v \<in> set vs \<Longrightarrow> typed opt wire el v) \<Longrightarrow>
    typed opt wire (FArray b el) (mk_arr vs)"
| typed_object: "keys kvs = keys fs \<Longrightarrow>
    (\<And>i. i < length fs \<Longrightarrow> typed opt wire (snd (fs ! i)) (snd (kvs ! i))) \<Longrightarrow>
    typed opt wire (FObject fs) (mk_obj kvs)"

lemma checkLength_within [simp]: "checkLength len b limit = Inr u \<longleftrightarrow> fits len b limit"
  by (auto simp: checkLength_def fits_def)

lemma scalar_typed:
  assumes "scalar f v encode opt = Inr w" and "\<nexists>b el. f = FArray b el" and "\<nexists>fs. f = FObject fs"
  shows "typed opt encode f w"
proof (cases f)
  case FBoolean
  with assms show ?thesis by (cases v) (auto intro: typed.intros)
next
  case (FString b)
  with assms show ?thesis by (cases v) (auto intro: typed.intros)
next
  case (FInteger bits sgnd)
  with assms obtain i where i: "int_min bits sgnd \<le> i" "i \<le> int_max bits sgnd"
    and w: "w = (if bits \<noteq> 64 then Number (NumI i) else if encode then Str (ustr (show_int i)) else BigInt i)"
    by (auto simp: integer_v_def)
  show ?thesis
  proof (cases "bits = 64")
    case True
    with i w FInteger show ?thesis using typed_large [of sgnd i w encode opt] by simp
  next
    case False
    with i w FInteger show ?thesis using typed_small [of bits sgnd i opt encode] by simp
  qed
next
  case (FFloat bits)
  show ?thesis
  proof (cases v)
    case (Str s)
    with assms FFloat have "\<not> encode" "allowNonFinite opt" "w = Number (read_tag s)" "\<not> isFinite (read_tag s)"
      by (auto simp: floating_v_def read_tag_def split: if_splits)
    with FFloat show ?thesis by (auto intro!: typed_nonfinite)
  next
    case (Number n)
    with assms FFloat show ?thesis
      by (auto simp: floating_v_def Let_def fround_idem intro!: typed_finite typed_nonfinite split: if_splits)
  qed (use assms FFloat in \<open>auto simp: floating_v_def\<close>)
next
  case (FBytes b)
  with assms show ?thesis
    by (cases v) (auto simp: bytes_v_def Let_def intro!: typed_bytes split: if_splits)
qed (use assms in auto)

lemma mapE_all:
  "mapE f xs n = (Inr ys, n') \<Longrightarrow> (\<And>x y m m'. x \<in> set xs \<Longrightarrow> f x m = (Inr y, m') \<Longrightarrow> P x y) \<Longrightarrow>
     list_all2 P xs ys"
proof (induction xs arbitrary: n ys)
  case (Cons x xs)
  then obtain y zs m where "f x n = (Inr y, m)" "mapE f xs m = (Inr zs, n')" "ys = y # zs"
    unfolding mapE_Cons_Inr by blast
  then show ?case using Cons.IH [of m zs] Cons.prems(2) by auto
qed (auto simp: run_Inr)

lemma visit_typed: "convert_visit d opt encode f v n = (Inr w, n') \<Longrightarrow> typed opt encode f w"
proof (induction d arbitrary: f v w n n')
  case 0
  then show ?case by (simp add: run_Inr)
next
  case (Suc d)
  show ?case
  proof (cases f)
    case (FArray b el)
    with Suc.prems obtain slots m vs where w: "w = mk_arr vs"
      and len: "fits (int (length slots)) b (maxArrayLength opt)"
      and run: "mapE (\<lambda>s. bindE (liftE (slot_data s)) (convert_visit d opt encode el)) slots m = (Inr vs, n')"
      by (cases v) (auto simp: run_Inr simp del: mapE.simps)
    have "list_all2 (\<lambda>s x. typed opt encode el x) slots vs"
      by (rule mapE_all [OF run]) (auto simp: run_Inr intro: Suc.IH)
    then show ?thesis
      using len FArray w by (auto simp: list_all2_conv_all_nth in_set_conv_nth intro!: typed_array)
  next
    case (FObject fs)
    with Suc.prems obtain object m kvs where w: "w = mk_obj kvs"
      and run: "visit_fields d opt encode object fs m = (Inr kvs, n')"
      by (auto simp: run_Inr simp del: mapE.simps)
    have "list_all2 (\<lambda>p q. fst p = fst q \<and> typed opt encode (snd p) (snd q)) fs kvs"
      by (rule mapE_all [OF run]) (auto simp: run_Inr intro: Suc.IH)
    then show ?thesis
      using FObject w by (auto simp: list_all2_conv_all_nth list_eq_iff_nth_eq intro!: typed_object)
  qed (use Suc.prems scalar_typed in \<open>fastforce simp: run_Inr simp del: scalar.simps\<close>)+
qed

section \<open>Created codecs\<close>

lemma lengths_ok: "lengths f = Inr b \<Longrightarrow> bounds_ok b"
proof -
  have nn: "length_option v = Inr (Some a) \<Longrightarrow> 0 \<le> a" for v a
    by (cases v) (auto simp: length_option_def isSafeInteger_iff split: if_splits)
  assume "lengths f = Inr b"
  then obtain l m where lm: "length_option (get_prop f (ustr ''length'')) = Inr l"
      "length_option (get_prop f (ustr ''maxLength'')) = Inr m"
    and c: "case (l, m) of (Some x, Some y) \<Rightarrow> x \<le> y | _ \<Rightarrow> True" and b: "b = \<lparr>lb_length = l, lb_maxLength = m\<rparr>"
    by (auto simp: lengths_def)
  then show ?thesis
    using nn [of "get_prop f (ustr ''length'')"] nn [of "get_prop f (ustr ''maxLength'')"]
    by (cases l; cases m) (simp_all add: bounds_ok_def)
qed

lemma snapshot_field_ok: "snapshot_visit d opt f n = (Inr g, n') \<Longrightarrow> js_ok f \<Longrightarrow> field_ok g"
proof (induction d arbitrary: f g n n')
  case 0
  then show ?case by (simp add: run_Inr)
next
  case (Suc d)
  note step = Suc.prems(1) [unfolded snapshot_visit.simps Let_def]
  consider "g = FBoolean" | b where "lengths f = Inr b" "g = FString b \<or> g = FBytes b"
    | bits where "g = FInteger bits (get_prop f (ustr ''signed'') = Bool True)" "bits \<in> {8, 16, 32, 64}" | bits where "g = FFloat bits" "bits \<in> {32, 64}"
    | b e m where "lengths f = Inr b" "g = FArray b e" "snapshot_visit d opt (get_prop f (ustr ''element'')) m = (Inr e, n')"
    | fs cs m where "record_v (get_prop f (ustr ''fields'')) = Inr fs" "g = FObject cs"
      "mapE (\<lambda>k. bindE (snapshot_visit d opt (get_prop fs k)) (\<lambda>c. retE (k, c))) (object_keys fs) m = (Inr cs, n')"
    using step
    by (auto simp: run_Inr is_number_def simp del: mapE.simps split: if_splits)
  then show ?case
  proof cases
    case (5 b e m)
    then show ?thesis using Suc.IH get_prop_ok [OF Suc.prems(2)] lengths_ok by auto
  next
    case (6 fs cs m)
    have fs: "fs = get_prop f (ustr ''fields'')"
      using 6(1) by (cases "get_prop f (ustr ''fields'')") (auto split: if_splits)
    then have ok: "js_ok fs" using get_prop_ok [OF Suc.prems(2)] by simp
    have "list_all2 (\<lambda>k c. fst c = k \<and> field_ok (snd c)) (object_keys fs) cs"
      using ok by (intro mapE_all [OF 6(3)]) (auto simp: run_Inr intro: Suc.IH get_prop_ok)
    then have "keys cs = object_keys fs" "list_all (\<lambda>p. field_ok (snd p)) cs"
      by (auto simp: list_all2_conv_all_nth list_eq_iff_nth_eq list_all_length)
    then show ?thesis using 6(2) distinct_object_keys [OF ok] by simp
  qed (use lengths_ok in auto)
qed

lemma limit_option_pos: "limit_option o' k d = Inr i \<Longrightarrow> 0 < d \<Longrightarrow> d \<le> MAX_SAFE_INTEGER \<Longrightarrow> 0 < i \<and> i \<le> MAX_SAFE_INTEGER"
  by (auto simp: limit_option_def isSafeInteger_iff split: if_splits jsval.splits)

lemma codecOptions_ok:
  assumes "codecOptions_v o' = Inr opt"
  shows "codec_options_ok opt"
proof -
  have "\<exists>k. limit_option o' k 32 = Inr (maxDepth opt)" "\<exists>k. limit_option o' k 4096 = Inr (maxArrayLength opt)"
    "\<exists>k. limit_option o' k 16384 = Inr (maxStringBytes opt)" "\<exists>k. limit_option o' k 16384 = Inr (maxByteLength opt)"
    "\<exists>k. limit_option o' k 32768 = Inr (maxNodes opt)"
    using assms unfolding codecOptions_v_def by fastforce+
  then show ?thesis
    using limit_option_pos [of o'] by (fastforce simp: codec_options_ok_def MAX_SAFE_INTEGER_def)
qed

lemma createCodec_ok:
  assumes "createCodec descriptor overrides = Inr c" and "js_ok descriptor"
  shows "codec_options_ok (cd_options c) \<and> field_ok (cd_schema c)"
proof -
  obtain opt schema where "codecOptions_v overrides = Inr opt" "snapshotSchema descriptor opt = Inr schema"
    and "c = \<lparr>cd_options = opt, cd_schema = schema\<rparr>"
    using assms(1) by (auto simp: createCodec_def)
  moreover from this have "field_ok schema"
    using snapshot_field_ok [OF _ assms(2)] unfolding snapshotSchema_def by (metis prod.collapse)
  ultimately show ?thesis using codecOptions_ok by simp
qed

section \<open>Properties\<close>

text \<open>
  C23: A codec built from a schema converts without loss in both directions: whatever it encodes it
  also decodes, to a native value with the same encoding, and whatever it decodes it also encodes,
  to a wire value with the same decoding. This holds at every depth, width and node limit, because
  both directions meet the same limits.
\<close>

theorem codec_roundtrip:
  assumes "createCodec descriptor overrides = Inr c" and "js_ok descriptor"
  shows "(codec_encode c native = Inr wire \<longrightarrow>
      (\<exists>native'. codec_decode c wire = Inr native' \<and> codec_encode c native' = Inr wire))
    \<and> (codec_decode c wire = Inr native \<longrightarrow>
      (\<exists>wire'. codec_encode c native = Inr wire' \<and> codec_decode c wire' = Inr native))"
proof -
  have ok: "codec_options_ok (cd_options c)" "field_ok (cd_schema c)" using createCodec_ok [OF assms] by auto
  show ?thesis using convert_back [OF ok, where encode = True] convert_back [OF ok, where encode = False] by (simp add: codec_encode_def codec_decode_def)
qed

text \<open>
  C24: What a codec returns always has the type of its schema. An encoded value is a JSON value:
  64-bit integers are decimal texts, byte arrays base64 texts, infinities and NaN tagged texts, and
  only where the options allow them; a decoded value lies in the integer ranges, length bounds and
  float precision of the ROS type.
\<close>

theorem codec_result_typed:
  "(codec_encode c native = Inr wire \<longrightarrow> typed (cd_options c) True (cd_schema c) wire)
   \<and> (codec_decode c wire' = Inr native' \<longrightarrow> typed (cd_options c) False (cd_schema c) native')"
  using visit_typed unfolding codec_encode_def codec_decode_def convert_def by (metis prod.collapse)

section \<open>Witnesses\<close>

text \<open>A schema with a 64-bit stamp and a byte payload.\<close>

definition example_schema :: jsval where
  "example_schema = mk_obj [(ustr ''kind'', Str (ustr ''object'')), (ustr ''fields'', mk_obj
     [(ustr ''stamp'', mk_obj [(ustr ''kind'', Str (ustr ''integer'')), (ustr ''bits'', Number (NumI 64)), (ustr ''signed'', Bool True)]),
      (ustr ''data'', mk_obj [(ustr ''kind'', Str (ustr ''bytes'')), (ustr ''maxLength'', Number (NumI 4))])])]"

definition example_codec :: codec where
  "example_codec =
     \<lparr>cd_options = \<lparr>maxDepth = 32, maxArrayLength = 4096, maxStringBytes = 16384, maxByteLength = 16384, maxNodes = 32768,
        allowNonFinite = True\<rparr>,
      cd_schema = FObject [(ustr ''stamp'', FInteger 64 True), (ustr ''data'', FBytes \<lparr>lb_length = None, lb_maxLength = Some 4\<rparr>)]\<rparr>"

definition example_native :: jsval where
  "example_native = mk_obj [(ustr ''stamp'', BigInt (- 5)), (ustr ''data'', Bytes [255])]"

lemma example_codec_created: "createCodec example_schema (mk_obj []) = Inr example_codec"
  by (simp add: createCodec_def codecOptions_v_def limit_option_def snapshotSchema_def example_schema_def example_codec_def
      numeral_eq_Suc prog_simps count_node_def is_number_def lengths_def length_option_def MAX_SAFE_INTEGER_def)

lemma example_schema_ok: "js_ok example_schema"
  by (simp add: example_schema_def mk_obj_def mk_prop_def)

lemma example_encode:
  "codec_encode example_codec example_native =
     Inr (mk_obj [(ustr ''stamp'', Str (ustr (show_int (- 5)))), (ustr ''data'', Str (b64_encode [255]))])"
  by (simp add: codec_encode_def convert_def example_codec_def example_native_def numeral_eq_Suc prog_simps
      count_node_def integer_v_def parse_integer_def int_min_def int_max_def bytes_v_def fits_def checkLength_def
      del: b64_encode.simps)

theorem codec_roundtrip_witness:
  "\<exists>wire native'. createCodec example_schema (mk_obj []) = Inr example_codec
     \<and> codec_encode example_codec example_native = Inr wire
     \<and> codec_decode example_codec wire = Inr native' \<and> codec_encode example_codec native' = Inr wire"
  using codec_roundtrip [OF example_codec_created example_schema_ok] example_encode example_codec_created by blast

theorem codec_result_typed_witness:
  "typed (cd_options example_codec) True (cd_schema example_codec)
     (mk_obj [(ustr ''stamp'', Str (ustr (show_int (- 5)))), (ustr ''data'', Str (b64_encode [255]))])"
  using codec_result_typed example_encode by blast

end
