(* ===== verification/Config.thy ===== *)
theory Config
  imports JS_Text Command_Guard
begin

text \<open>
  \<open>config/validation.ts\<close>, \<open>config/binding.ts\<close> and \<open>config/index.ts\<close>: the startup configuration. The
  YAML reader is a third-party package: it is the parameter \<open>yaml\<close>, which returns the plain value of
  a document or fails (parse errors, warnings, aliases and custom tags alike). The remapping
  \<open>resolveTopic\<close> of the ROS adapter is a parameter too.
\<close>

section \<open>Validated data\<close>

datatype reliability = QReliable | QBestEffort
datatype durability = QVolatile | QTransientLocal
datatype direction = RosToWeb | WebToRos
datatype delivery = DReliable | DRealtime
datatype queuePolicy = PLatest | PFifo

record qos =
  q_reliability :: reliability
  q_durability :: durability
  q_depth :: int

record access =
  a_publishScope :: ustring
  a_exclusiveWriter :: bool

record topicBinding =
  publicName :: ustring
  rosTopic :: ustring
  rosType :: ustring
  b_direction :: direction
  b_qos :: qos
  b_delivery :: delivery
  maxRateHz :: number
  b_policy :: queuePolicy
  b_maxMessages :: int
  b_access :: "access option"
  b_commandGuard :: "int option"

record configOptions =
  availableTypes :: "ustring list"
  o_maxConfigBytes :: "jsval"
  o_maxTopics :: "jsval"
  resolveTopic :: "(ustring \<Rightarrow> ustring) option"

record limits =
  maxPeers :: int
  lim_maxMessageBytes :: int
  maxPeerQueueBytes :: int
  maxChannelBufferedBytes :: int

record bridgeConfig =
  robotId :: ustring
  cfg_limits :: limits
  cfg_topics :: "topicBinding list"

section \<open>\<open>validation.ts\<close>\<close>

definition dot :: "ustring \<Rightarrow> ustring \<Rightarrow> ustring" where
  "dot path key = path @ ustr ''.'' @ key"

text \<open>\<open>Object.keys\<close> of a value whose \<open>typeof\<close> is \<open>object\<close>.\<close>

fun enum_keys :: "jsval \<Rightarrow> ustring list" where
  "enum_keys (Obj p ps) = object_keys (Obj p ps)"
| "enum_keys (Bytes bs) = map (\<lambda>i. ustr (show_nat i)) [0..<length bs]"
| "enum_keys _ = []"

definition is_object :: "jsval \<Rightarrow> bool" where
  "is_object v \<longleftrightarrow> (case v of Obj p ps \<Rightarrow> True | Bytes bs \<Rightarrow> True | _ \<Rightarrow> False)"

fun known_keys :: "ustring list \<Rightarrow> ustring list \<Rightarrow> ustring \<Rightarrow> unit result" where
  "known_keys [] allowed path = Inr ()"
| "known_keys (k # ks) allowed path =
     (if k \<notin> set allowed then Inl (ConfigErr (dot path k) ''unknown field'') else known_keys ks allowed path)"

definition record_c :: "jsval \<Rightarrow> ustring list \<Rightarrow> ustring \<Rightarrow> jsval result" where
  "record_c v allowed path =
     (if \<not> is_object v then Inl (ConfigErr path ''object required'')
      else bindR (known_keys (enum_keys v) allowed path) (\<lambda>_. Inr v))"

definition string_c :: "jsval \<Rightarrow> 16 word rx \<Rightarrow> ustring \<Rightarrow> ustring result" where
  "string_c v pattern path =
     (case v of
        Str s \<Rightarrow> if rx_match pattern s then Inr s else Inl (ConfigErr path ''invalid string'')
      | _ \<Rightarrow> Inl (ConfigErr path ''invalid string''))"

definition positive :: "jsval \<Rightarrow> ustring \<Rightarrow> bool \<Rightarrow> number result" where
  "positive v path integer =
     (case v of
        Number n \<Rightarrow>
          if \<not> isFinite n \<or> num_le n (NumI 0) then Inl (ConfigErr path ''positive finite number required'')
          else if integer \<and> \<not> isSafeInteger n then Inl (ConfigErr path ''safe integer required'')
          else Inr n
      | _ \<Rightarrow> Inl (ConfigErr path ''positive finite number required''))"

text \<open>Integer mode, with the integer that results.\<close>

definition positive_int :: "jsval \<Rightarrow> ustring \<Rightarrow> int result" where
  "positive_int v path = bindR (positive v path True) (\<lambda>n. Inr (num_int n))"

text \<open>An enumeration value: the table pairs each literal of the source with the constructor it stands for.\<close>

definition choice :: "jsval \<Rightarrow> (string \<times> 'a) list \<Rightarrow> ustring \<Rightarrow> 'a result" where
  "choice v table path =
     (case v of
        Str s \<Rightarrow> (case map_of (map (\<lambda>(k, x). (ustr k, x)) table) s of
                    Some x \<Rightarrow> Inr x | None \<Rightarrow> Inl (ConfigErr path ''unsupported value''))
      | _ \<Rightarrow> Inl (ConfigErr path ''unsupported value''))"

definition boolean_c :: "jsval \<Rightarrow> ustring \<Rightarrow> bool result" where
  "boolean_c v path = (case v of Bool b \<Rightarrow> Inr b | _ \<Rightarrow> Inl (ConfigErr path ''boolean required''))"

text \<open>\<open>/^(?:\/[A-Za-z_][A-Za-z0-9_]*)+$/\<close>\<close>

definition topicName_rx :: "16 word rx" where
  "topicName_rx = rplus (RSeq (rlit ''/'') name_rx)"

definition topicName :: "jsval \<Rightarrow> ustring \<Rightarrow> ustring result" where
  "topicName v path =
     bindR (string_c v topicName_rx path) (\<lambda>name.
     bindR (failIf (length name > 247) (ConfigErr path ''topic name too long'')) (\<lambda>_.
     Inr name))"

definition readDocument :: "(ustring \<Rightarrow> jsval result) \<Rightarrow> ustring \<Rightarrow> int \<Rightarrow> jsval result" where
  "readDocument yaml source maxBytes =
     (if int (utf8_length source) > maxBytes then Inl (ConfigErr (ustr ''$'') ''invalid document size'')
      else case yaml source of
             Inl e \<Rightarrow> Inl (ConfigErr (ustr ''$'') ''invalid YAML; aliases and custom tags are unsupported'')
           | Inr v \<Rightarrow> Inr v)"

section \<open>\<open>binding.ts\<close>\<close>

abbreviation field_of :: "jsval \<Rightarrow> string \<Rightarrow> jsval" where
  "field_of m k \<equiv> get_prop m (ustr k)"

definition rosQos :: "jsval \<Rightarrow> ustring \<Rightarrow> qos result" where
  "rosQos v path =
     (let loc = path @ ustr ''.ros_qos'' in
      bindR (record_c v (map ustr [''reliability'', ''durability'', ''history'', ''depth'']) loc) (\<lambda>m.
      bindR (choice (field_of m ''reliability'') [(''reliable'', QReliable), (''best_effort'', QBestEffort)]
               (loc @ ustr ''.reliability'')) (\<lambda>r.
      bindR (choice (field_of m ''durability'') [(''volatile'', QVolatile), (''transient_local'', QTransientLocal)]
               (loc @ ustr ''.durability'')) (\<lambda>d.
      bindR (choice (field_of m ''history'') [(''keep_last'', ())] (loc @ ustr ''.history'')) (\<lambda>_.
      bindR (positive_int (field_of m ''depth'') (loc @ ustr ''.depth'')) (\<lambda>n.
      Inr \<lparr>q_reliability = r, q_durability = d, q_depth = n\<rparr>))))))"

text \<open>\<open>/^[A-Za-z0-9_.:-]+$/\<close>\<close>

definition scope_rx :: "16 word rx" where
  "scope_rx = rplus (RSet (\<lambda>c. alnum_cls c \<or> one_of ''_.:-'' c))"

definition parseAccess :: "jsval \<Rightarrow> direction \<Rightarrow> ustring \<Rightarrow> access option result" where
  "parseAccess v dir path =
     (if v = Undefined then Inr None
      else if dir \<noteq> WebToRos then Inl (ConfigErr path ''access requires web_to_ros'')
      else let loc = path @ ustr ''.access'' in
        bindR (record_c v (map ustr [''publish_scope'', ''exclusive_writer'']) loc) (\<lambda>m.
        bindR (string_c (field_of m ''publish_scope'') scope_rx (loc @ ustr ''.publish_scope'')) (\<lambda>s.
        bindR (boolean_c (field_of m ''exclusive_writer'') (loc @ ustr ''.exclusive_writer'')) (\<lambda>x.
        Inr (Some \<lparr>a_publishScope = s, a_exclusiveWriter = x\<rparr>)))))"

definition exclusive :: "access option \<Rightarrow> bool" where
  "exclusive a \<longleftrightarrow> (case a of None \<Rightarrow> False | Some x \<Rightarrow> a_exclusiveWriter x)"

definition parseGuard :: "jsval \<Rightarrow> direction \<Rightarrow> durability \<Rightarrow> access option \<Rightarrow> ustring \<Rightarrow> int option result" where
  "parseGuard v dir durability acc path =
     (if v = Undefined then
        (if exclusive acc then Inl (ConfigErr path ''exclusive writer requires command guard'') else Inr None)
      else let loc = path @ ustr ''.command_guard'' in
        bindR (record_c v (map ustr [''required'', ''lease_ms'']) loc) (\<lambda>m.
        bindR (failIf (field_of m ''required'' \<noteq> Bool True) (ConfigErr path ''command guard must be required'')) (\<lambda>_.
        bindR (failIf (dir \<noteq> WebToRos \<or> durability \<noteq> QVolatile \<or> \<not> exclusive acc)
                 (ConfigErr path ''command requires web_to_ros, volatile and exclusive writer'')) (\<lambda>_.
        bindR (positive_int (field_of m ''lease_ms'') (loc @ ustr ''.lease_ms'')) (\<lambda>ms.
        Inr (Some ms))))))"

text \<open>\<open>/^[A-Za-z][A-Za-z0-9_]*\/msg\/[A-Za-z][A-Za-z0-9_]*$/\<close>\<close>

definition type_part_rx :: "16 word rx" where
  "type_part_rx = RSeq (RSet alpha_cls) (RStar (RSet tail_cls))"

definition rosType_rx :: "16 word rx" where
  "rosType_rx = RSeq type_part_rx (RSeq (rlit ''/msg/'') type_part_rx)"

definition binding :: "ustring \<Rightarrow> jsval \<Rightarrow> configOptions \<Rightarrow> topicBinding result" where
  "binding name v opt =
     (let path = ustr ''topics.'' @ name in
      bindR (record_c v (map ustr [''ros_topic'', ''ros_type'', ''direction'', ''ros_qos'', ''delivery'', ''max_rate_hz'',
               ''queue'', ''access'', ''command_guard'']) path) (\<lambda>m.
      bindR (topicName (Str name) path) (\<lambda>public.
      bindR (topicName (if field_of m ''ros_topic'' = Undefined then Str name else field_of m ''ros_topic'')
               (path @ ustr ''.ros_topic'')) (\<lambda>target.
      bindR (topicName (Str (case resolveTopic opt of None \<Rightarrow> target | Some f \<Rightarrow> f target))
               (path @ ustr ''.resolved_topic'')) (\<lambda>resolved.
      bindR (string_c (field_of m ''ros_type'') rosType_rx (path @ ustr ''.ros_type'')) (\<lambda>type.
      bindR (failIf (type \<notin> set (availableTypes opt)) (ConfigErr path ''type unavailable'')) (\<lambda>_.
      bindR (choice (field_of m ''direction'') [(''ros_to_web'', RosToWeb), (''web_to_ros'', WebToRos)]
               (path @ ustr ''.direction'')) (\<lambda>dir.
      bindR (rosQos (field_of m ''ros_qos'') path) (\<lambda>qos.
      bindR (choice (field_of m ''delivery'') [(''reliable'', DReliable), (''realtime'', DRealtime)]
               (path @ ustr ''.delivery'')) (\<lambda>delivery.
      bindR (positive (field_of m ''max_rate_hz'') (path @ ustr ''.max_rate_hz'') False) (\<lambda>rate.
      bindR (record_c (field_of m ''queue'') (map ustr [''policy'', ''max_messages'']) (path @ ustr ''.queue'')) (\<lambda>q.
      bindR (choice (field_of q ''policy'') [(''latest'', PLatest), (''fifo'', PFifo)] (path @ ustr ''.queue.policy'')) (\<lambda>pol.
      bindR (positive_int (field_of q ''max_messages'') (path @ ustr ''.queue.max_messages'')) (\<lambda>maxMessages.
      bindR (failIf ((delivery = DReliable) \<noteq> (pol = PFifo)) (ConfigErr path ''delivery/queue conflict'')) (\<lambda>_.
      bindR (failIf (pol = PLatest \<and> maxMessages \<noteq> 1) (ConfigErr path ''latest requires one message'')) (\<lambda>_.
      bindR (parseAccess (field_of m ''access'') dir path) (\<lambda>acc.
      bindR (parseGuard (field_of m ''command_guard'') dir (q_durability qos) acc path) (\<lambda>guard.
      Inr \<lparr>publicName = public, rosTopic = resolved, rosType = type, b_direction = dir, b_qos = qos,
           b_delivery = delivery, maxRateHz = rate, b_policy = pol, b_maxMessages = maxMessages,
           b_access = acc, b_commandGuard = guard\<rparr>))))))))))))))))))"

text \<open>
  \<open>outputContract\<close>: the tuple of which the source compares the JSON texts. On these values (strings,
  booleans, finite numbers, objects with fixed keys) equal texts are equal tuples.
\<close>

definition outputContract ::
    "topicBinding \<Rightarrow> ustring \<times> qos \<times> access option \<times> int option \<times> number \<times> delivery \<times> queuePolicy \<times> int" where
  "outputContract t =
     (rosType t, b_qos t, b_access t, b_commandGuard t, maxRateHz t, b_delivery t, b_policy t, b_maxMessages t)"

fun check_outputs :: "(ustring \<times> topicBinding) list \<Rightarrow> topicBinding list \<Rightarrow> unit result" where
  "check_outputs outputs [] = Inr ()"
| "check_outputs outputs (t # ts) =
     (if b_direction t \<noteq> WebToRos then check_outputs outputs ts
      else case map_of outputs (rosTopic t) of
             Some previous \<Rightarrow>
               if outputContract previous \<noteq> outputContract t
               then Inl (ConfigErr (ustr ''topics.'' @ publicName t) ''conflicting ROS output binding'')
               else check_outputs (AList.update (rosTopic t) t outputs) ts
           | None \<Rightarrow> check_outputs (AList.update (rosTopic t) t outputs) ts)"

definition checkOutputs :: "topicBinding list \<Rightarrow> unit result" where
  "checkOutputs ts = check_outputs [] ts"

section \<open>\<open>index.ts\<close>\<close>

definition parseLimits :: "jsval \<Rightarrow> limits result" where
  "parseLimits v =
     bindR (record_c v (map ustr [''max_peers'', ''max_message_bytes'', ''max_peer_queue_bytes'',
              ''max_channel_buffered_bytes'', ''video'']) (ustr ''limits'')) (\<lambda>m.
     bindR (positive_int (field_of m ''max_peers'') (ustr ''limits.max_peers'')) (\<lambda>peers.
     bindR (positive_int (field_of m ''max_message_bytes'') (ustr ''limits.max_message_bytes'')) (\<lambda>message.
     bindR (positive_int (field_of m ''max_peer_queue_bytes'') (ustr ''limits.max_peer_queue_bytes'')) (\<lambda>queue.
     bindR (positive_int (field_of m ''max_channel_buffered_bytes'') (ustr ''limits.max_channel_buffered_bytes'')) (\<lambda>buffered.
     bindR (failIf (message > 16384 \<or> message > queue \<or> message > buffered)
              (ConfigErr (ustr ''limits'') ''inconsistent message or buffer limits'')) (\<lambda>_.
     Inr \<lparr>maxPeers = peers, lim_maxMessageBytes = message, maxPeerQueueBytes = queue,
          maxChannelBufferedBytes = buffered\<rparr>))))))"

text \<open>\<open>/^[A-Za-z0-9_-]+$/\<close>\<close>

definition robot_rx :: "16 word rx" where
  "robot_rx = rplus (RSet (\<lambda>c. alnum_cls c \<or> one_of ''_-'' c))"

definition orDefault :: "jsval \<Rightarrow> int \<Rightarrow> jsval" where
  "orDefault v d = (if v = Undefined \<or> v = Null then Number (NumI d) else v)"

definition parseBridgeConfig :: "(ustring \<Rightarrow> jsval result) \<Rightarrow> ustring \<Rightarrow> configOptions \<Rightarrow> bridgeConfig result" where
  "parseBridgeConfig yaml source opt =
     bindR (positive_int (orDefault (o_maxConfigBytes opt) 1048576) (ustr ''maxConfigBytes'')) (\<lambda>maxBytes.
     bindR (positive_int (orDefault (o_maxTopics opt) 256) (ustr ''maxTopics'')) (\<lambda>maxTopics.
     bindR (readDocument yaml source maxBytes) (\<lambda>document.
     bindR (record_c document (map ustr [''version'', ''robot_id'', ''limits'', ''topics'', ''video'', ''video_tracks''])
              (ustr ''$'')) (\<lambda>m.
     bindR (failIf (field_of m ''version'' \<noteq> Number (NumI 1)) (ConfigErr (ustr ''version'') ''unsupported version'')) (\<lambda>_.
     bindR (string_c (field_of m ''robot_id'') robot_rx (ustr ''robot_id'')) (\<lambda>robot.
     bindR (parseLimits (field_of m ''limits'')) (\<lambda>lim.
     bindR (record_c (field_of m ''topics'') (enum_keys (field_of m ''topics'')) (ustr ''topics'')) (\<lambda>entries.
     let names = enum_keys entries in
     bindR (failIf (names = [] \<or> int (length names) > maxTopics) (ConfigErr (ustr ''topics'') ''invalid topic count'')) (\<lambda>_.
     bindR (mapR (\<lambda>name. binding name (get_prop entries name) opt) names) (\<lambda>topics.
     bindR (checkOutputs topics) (\<lambda>_.
     Inr \<lparr>robotId = robot, cfg_limits = lim, cfg_topics = topics\<rparr>)))))))))))"

section \<open>What is accepted\<close>

definition limit_ok :: "int \<Rightarrow> bool" where
  "limit_ok i \<longleftrightarrow> 0 < i \<and> i \<le> MAX_SAFE_INTEGER"

definition topic_ok :: "ustring \<Rightarrow> bool" where
  "topic_ok s \<longleftrightarrow> rx_match topicName_rx s \<and> length s \<le> 247"

definition binding_ok :: "configOptions \<Rightarrow> topicBinding \<Rightarrow> bool" where
  "binding_ok opt t \<longleftrightarrow>
     topic_ok (publicName t) \<and> topic_ok (rosTopic t) \<and> rosType t \<in> set (availableTypes opt)
     \<and> limit_ok (q_depth (b_qos t)) \<and> isFinite (maxRateHz t) \<and> num_less (NumI 0) (maxRateHz t)
     \<and> limit_ok (b_maxMessages t) \<and> (b_delivery t = DReliable \<longleftrightarrow> b_policy t = PFifo)
     \<and> (b_policy t = PLatest \<longrightarrow> b_maxMessages t = 1)
     \<and> (b_access t \<noteq> None \<longrightarrow> b_direction t = WebToRos)
     \<and> (b_commandGuard t \<noteq> None \<longleftrightarrow> exclusive (b_access t))
     \<and> (case b_commandGuard t of None \<Rightarrow> True
        | Some ms \<Rightarrow> limit_ok ms \<and> b_direction t = WebToRos \<and> q_durability (b_qos t) = QVolatile)"

definition limits_ok :: "limits \<Rightarrow> bool" where
  "limits_ok l \<longleftrightarrow>
     limit_ok (maxPeers l) \<and> limit_ok (lim_maxMessageBytes l) \<and> limit_ok (maxPeerQueueBytes l)
     \<and> limit_ok (maxChannelBufferedBytes l) \<and> lim_maxMessageBytes l \<le> 16384
     \<and> lim_maxMessageBytes l \<le> maxPeerQueueBytes l \<and> lim_maxMessageBytes l \<le> maxChannelBufferedBytes l"

lemma positive_Inr [simp]:
  "positive v path integer = Inr n \<longleftrightarrow>
     v = Number n \<and> isFinite n \<and> num_less (NumI 0) n \<and> (integer \<longrightarrow> isSafeInteger n)"
proof -
  have "isFinite n \<Longrightarrow> \<not> num_le n (NumI 0) \<longleftrightarrow> num_less (NumI 0) n" for n
    by (cases n) (auto simp: not_le)
  then show ?thesis by (auto simp: positive_def split: jsval.splits)
qed

lemma positive_int_Inr: "positive_int v path = Inr i \<Longrightarrow> limit_ok i"
  by (auto simp: positive_int_def limit_ok_def isSafeInteger_iff)

lemma topicName_Inr [simp]: "topicName v path = Inr s \<longleftrightarrow> v = Str s \<and> topic_ok s"
  by (cases v) (auto simp: topicName_def string_c_def topic_ok_def not_less)

lemma rosQos_Inr: "rosQos v path = Inr q \<Longrightarrow> limit_ok (q_depth q)"
  by (auto simp: rosQos_def Let_def dest: positive_int_Inr)

lemma parseAccess_Inr: "parseAccess v dir path = Inr a \<Longrightarrow> a \<noteq> None \<longrightarrow> dir = WebToRos"
  by (auto simp: parseAccess_def Let_def split: if_splits)

lemma parseGuard_Inr:
  "parseGuard v dir d a path = Inr g \<Longrightarrow>
     (g \<noteq> None \<longleftrightarrow> exclusive a)
     \<and> (case g of None \<Rightarrow> True | Some ms \<Rightarrow> limit_ok ms \<and> dir = WebToRos \<and> d = QVolatile)"
  by (auto simp: parseGuard_def Let_def split: if_splits dest: positive_int_Inr)

lemma binding_Inr:
  assumes "binding name v opt = Inr t"
  shows "binding_ok opt t \<and> publicName t = name"
proof -
  from assms obtain target resolved type dir qos delivery rate q pol n acc guard m where
    "topic_ok name" "topic_ok resolved" "type \<in> set (availableTypes opt)"
    "rosQos (field_of m ''ros_qos'') (ustr ''topics.'' @ name) = Inr qos"
    "isFinite rate" "num_less (NumI 0) rate"
    "positive_int (field_of q ''max_messages'') (ustr ''topics.'' @ name @ ustr ''.queue.max_messages'') = Inr n"
    "(delivery = DReliable) = (pol = PFifo)" "pol = PLatest \<longrightarrow> n = 1"
    "parseAccess (field_of m ''access'') dir (ustr ''topics.'' @ name) = Inr acc"
    "parseGuard (field_of m ''command_guard'') dir (q_durability qos) acc (ustr ''topics.'' @ name) = Inr guard"
    "t = \<lparr>publicName = name, rosTopic = resolved, rosType = type, b_direction = dir, b_qos = qos,
       b_delivery = delivery, maxRateHz = rate, b_policy = pol, b_maxMessages = n, b_access = acc, b_commandGuard = guard\<rparr>"
    unfolding binding_def Let_def bindR_eq_Inr failIf_eq_Inr topicName_Inr positive_Inr
    by auto
  then show ?thesis
    using rosQos_Inr parseAccess_Inr parseGuard_Inr positive_int_Inr by (auto simp: binding_ok_def)
qed

lemma parseLimits_Inr: "parseLimits v = Inr l \<Longrightarrow> limits_ok l"
  by (auto simp: parseLimits_def limits_ok_def not_less dest!: positive_int_Inr)

text \<open>One output has one contract, whatever the number of aliases.\<close>

lemma check_outputs_sound:
  assumes "check_outputs outputs ts = Inr ()" and "t \<in> set ts" and "b_direction t = WebToRos"
  shows "(\<forall>p. map_of outputs (rosTopic t) = Some p \<longrightarrow> outputContract p = outputContract t)
    \<and> (\<forall>u \<in> set ts. b_direction u = WebToRos \<longrightarrow> rosTopic u = rosTopic t \<longrightarrow> outputContract u = outputContract t)"
  using assms
proof (induction ts arbitrary: outputs t)
  case (Cons x xs)
  show ?case
  proof (cases "b_direction x = WebToRos")
    case True
    let ?out = "AList.update (rosTopic x) x outputs"
    from Cons.prems(1) True have rest: "check_outputs ?out xs = Inr ()"
      and prev: "\<forall>p. map_of outputs (rosTopic x) = Some p \<longrightarrow> outputContract p = outputContract x"
      by (auto split: option.splits if_splits)
    note IH = Cons.IH [OF rest]
    show ?thesis
    proof (cases "t \<in> set xs")
      case t: True
      from IH [OF t Cons.prems(3)] have xs: "\<forall>u \<in> set xs. b_direction u = WebToRos \<longrightarrow> rosTopic u = rosTopic t \<longrightarrow> outputContract u = outputContract t"
        and x: "rosTopic x = rosTopic t \<Longrightarrow> outputContract x = outputContract t"
        and old: "rosTopic x \<noteq> rosTopic t \<Longrightarrow> map_of outputs (rosTopic t) = Some p \<Longrightarrow> outputContract p = outputContract t" for p
        by (simp_all only: map_of_update fun_upd_apply) (auto split: if_splits)
      show ?thesis using xs x old prev by (metis set_ConsD)
    next
      case False
      with Cons.prems(2) have "t = x" by simp
      moreover have "outputContract u = outputContract x"
        if "u \<in> set xs" "b_direction u = WebToRos" "rosTopic u = rosTopic x" for u
        using IH [OF that(1,2)] that(3) by simp
      ultimately show ?thesis using prev by (metis set_ConsD)
    qed
  next
    case False
    with Cons.prems have "check_outputs outputs xs = Inr ()" "t \<in> set xs" by auto
    from Cons.IH [OF this Cons.prems(3)] False show ?thesis by (metis set_ConsD)
  qed
qed simp

lemma config_fields:
  assumes "parseBridgeConfig yaml source opt = Inr c"
  obtains document names maxTopics where "yaml source = Inr document"
    "limits_ok (cfg_limits c)" "names = enum_keys (field_of document ''topics'')" "names \<noteq> []"
    "positive_int (orDefault (o_maxTopics opt) 256) (ustr ''maxTopics'') = Inr maxTopics"
    "int (length names) \<le> maxTopics"
    "list_all2 (\<lambda>name t. binding name (get_prop (field_of document ''topics'') name) opt = Inr t) names (cfg_topics c)"
    "checkOutputs (cfg_topics c) = Inr ()"
proof -
  have rec: "record_c v allowed path = Inr m \<Longrightarrow> m = v" for v allowed path m
    by (auto simp: record_c_def split: if_splits)
  from assms show ?thesis
    unfolding parseBridgeConfig_def Let_def bindR_eq_Inr failIf_eq_Inr mapR_eq_Inr
    using that by (auto simp: readDocument_def parseLimits_Inr not_less dest!: rec split: if_splits sum.splits)
qed

section \<open>Topic names\<close>

text \<open>\<open>(ab)*a = a(ba)*\<close>\<close>

lemma star_shift1: "rx_in x (RStar (RSeq a b)) \<Longrightarrow> rx_in y a \<Longrightarrow> rx_in (x @ y) (RSeq a (RStar (RSeq b a)))"
proof (induction x "RStar (RSeq a b)" rule: rx_in.induct)
  case in_star0
  then show ?case using in_seq [OF in_star0.prems rx_in.in_star0] by simp
next
  case (in_star s t)
  then have "rx_in (t @ y) (RSeq a (RStar (RSeq b a)))" by simp
  then obtain u v where uv: "t @ y = u @ v" "rx_in u a" "rx_in v (RStar (RSeq b a))" by (auto simp: match_seq)
  from in_star(1) obtain p q where s: "s = p @ q" "rx_in p a" "rx_in q b" by (auto simp: match_seq)
  have "rx_in ((q @ u) @ v) (RStar (RSeq b a))" using s uv by (intro rx_in.in_star in_seq)
  then have "rx_in (p @ (q @ u) @ v) (RSeq a (RStar (RSeq b a)))" using s by (intro in_seq)
  then show ?case using s(1) uv(1) by simp
qed

lemma star_shift2: "rx_in y (RStar (RSeq b a)) \<Longrightarrow> rx_in x a \<Longrightarrow> rx_in (x @ y) (RSeq (RStar (RSeq a b)) a)"
proof (induction y "RStar (RSeq b a)" arbitrary: x rule: rx_in.induct)
  case in_star0
  then show ?case using in_seq [OF rx_in.in_star0 in_star0.prems] by simp
next
  case (in_star s t)
  from in_star(1) obtain p q where s: "s = p @ q" "rx_in p b" "rx_in q a" by (auto simp: match_seq)
  have "rx_in (q @ t) (RSeq (RStar (RSeq a b)) a)" using in_star s(3) by blast
  then obtain u v where uv: "q @ t = u @ v" "rx_in u (RStar (RSeq a b))" "rx_in v a"
    by (auto simp: match_seq)
  have "rx_in ((x @ p) @ u) (RStar (RSeq a b))" using in_star.prems s uv by (intro rx_in.in_star in_seq)
  then have "rx_in (((x @ p) @ u) @ v) (RSeq (RStar (RSeq a b)) a)" using uv by (intro in_seq)
  then show ?case using s(1) uv(1) by simp
qed

lemma topicName_rx_topic_rx: "rx_match topicName_rx s \<longleftrightarrow> rx_match topic_rx s"
proof -
  let ?sl = "rlit ''/''"
  have "rx_in s (RSeq (RSeq ?sl name_rx) (RStar (RSeq ?sl name_rx))) \<longleftrightarrow>
      (\<exists>p q. s = p @ q \<and> rx_in p ?sl \<and> rx_in q (RSeq name_rx (RStar (RSeq ?sl name_rx))))"
    unfolding match_seq by (metis append.assoc)
  also have "\<dots> \<longleftrightarrow> (\<exists>p q. s = p @ q \<and> rx_in p ?sl \<and> rx_in q (RSeq (RStar (RSeq name_rx ?sl)) name_rx))"
    using star_shift1 [of _ name_rx ?sl] star_shift2 [of _ ?sl name_rx] unfolding match_seq by metis
  finally show ?thesis
    unfolding rx_match_iff topicName_rx_def topic_rx_def rplus_def by (metis match_seq)
qed

section \<open>Properties\<close>

lemma parsed_config_ok:
  assumes "parseBridgeConfig yaml source opt = Inr c" and "\<And>v. yaml source = Inr v \<Longrightarrow> js_ok v"
  shows "limits_ok (cfg_limits c) \<and> cfg_topics c \<noteq> [] \<and> distinct (map publicName (cfg_topics c))
    \<and> list_all (binding_ok opt) (cfg_topics c)"
proof -
  obtain document names where d: "yaml source = Inr document" "limits_ok (cfg_limits c)"
    "names = enum_keys (field_of document ''topics'')" "names \<noteq> []"
    and run: "list_all2 (\<lambda>name t. binding name (get_prop (field_of document ''topics'') name) opt = Inr t) names (cfg_topics c)"
    using assms(1) by (rule config_fields) blast
  have nm: "map publicName (cfg_topics c) = names" and ok: "list_all (binding_ok opt) (cfg_topics c)"
    using run binding_Inr by (auto simp: list_all2_conv_all_nth list_eq_iff_nth_eq list_all_length)
  have "js_ok (field_of document ''topics'')" using assms(2) d(1) by (intro get_prop_ok)
  then have "distinct names"
    unfolding d(3) by (cases "field_of document ''topics''") (auto simp: distinct_object_keys distinct_map inj_on_def
        simp del: object_keys.simps)
  with d nm ok show ?thesis by auto
qed

text \<open>
  C26: A configuration that is accepted is consistent: the message size fits the queue, the channel
  buffer and 16 KiB, there is at least one topic and not more than allowed, public names are unique,
  every name is a valid ROS name, limits and rates are positive and finite, a realtime stream keeps
  exactly one message, and a binding is guarded exactly when its writer is exclusive, and then only
  in the direction to ROS with volatile durability.
\<close>

theorem config_sound:
  assumes "parseBridgeConfig yaml source opt = Inr c" and "\<And>v. yaml source = Inr v \<Longrightarrow> js_ok v"
  shows "limits_ok (cfg_limits c) \<and> cfg_topics c \<noteq> [] \<and> distinct (map publicName (cfg_topics c))
    \<and> list_all (binding_ok opt) (cfg_topics c)"
  by (rule parsed_config_ok [OF assms])

text \<open>
  No alias weakens an output: two accepted bindings that publish to the same ROS topic have the
  same type, QoS, authorization, command guard with lease duration, rate, delivery and queue.
\<close>

theorem config_output_contract:
  assumes "parseBridgeConfig yaml source opt = Inr c" and "t \<in> set (cfg_topics c)" and "u \<in> set (cfg_topics c)"
    and "b_direction t = WebToRos" and "b_direction u = WebToRos" and "rosTopic t = rosTopic u"
  shows "b_commandGuard t = b_commandGuard u \<and> b_access t = b_access u \<and> b_qos t = b_qos u
    \<and> rosType t = rosType u \<and> maxRateHz t = maxRateHz u \<and> b_delivery t = b_delivery u
    \<and> b_policy t = b_policy u \<and> b_maxMessages t = b_maxMessages u"
proof -
  have "check_outputs [] (cfg_topics c) = Inr ()"
    using assms(1) by (rule config_fields) (simp add: checkOutputs_def)
  from check_outputs_sound [OF this assms(2,4)] assms(3,5,6) have "outputContract u = outputContract t" by simp
  then show ?thesis by (simp add: outputContract_def)
qed

section \<open>Witnesses\<close>

text \<open>One guarded command topic, and a reader that returns the document.\<close>

definition example_topic_entry :: jsval where
  "example_topic_entry = mk_obj
     [(ustr ''ros_type'', Str (ustr ''p/msg/T'')), (ustr ''direction'', Str (ustr ''web_to_ros'')),
      (ustr ''ros_qos'', mk_obj [(ustr ''reliability'', Str (ustr ''reliable'')), (ustr ''durability'', Str (ustr ''volatile'')),
         (ustr ''history'', Str (ustr ''keep_last'')), (ustr ''depth'', Number (NumI 1))]),
      (ustr ''delivery'', Str (ustr ''realtime'')), (ustr ''max_rate_hz'', Number (NumI 20)),
      (ustr ''queue'', mk_obj [(ustr ''policy'', Str (ustr ''latest'')), (ustr ''max_messages'', Number (NumI 1))]),
      (ustr ''access'', mk_obj [(ustr ''publish_scope'', Str (ustr ''s'')), (ustr ''exclusive_writer'', Bool True)]),
      (ustr ''command_guard'', mk_obj [(ustr ''required'', Bool True), (ustr ''lease_ms'', Number (NumI 250))])]"

definition example_document :: jsval where
  "example_document = mk_obj
     [(ustr ''version'', Number (NumI 1)), (ustr ''robot_id'', Str (ustr ''r'')),
      (ustr ''limits'', mk_obj [(ustr ''max_peers'', Number (NumI 2)), (ustr ''max_message_bytes'', Number (NumI 1024)),
         (ustr ''max_peer_queue_bytes'', Number (NumI 4096)), (ustr ''max_channel_buffered_bytes'', Number (NumI 2048))]),
      (ustr ''topics'', mk_obj [(ustr ''/a'', example_topic_entry)])]"

definition example_options :: configOptions where
  "example_options = \<lparr>availableTypes = [ustr ''p/msg/T''], o_maxConfigBytes = Undefined, o_maxTopics = Undefined,
     resolveTopic = None\<rparr>"

definition example_binding :: topicBinding where
  "example_binding = \<lparr>publicName = ustr ''/a'', rosTopic = ustr ''/a'', rosType = ustr ''p/msg/T'', b_direction = WebToRos,
     b_qos = \<lparr>q_reliability = QReliable, q_durability = QVolatile, q_depth = 1\<rparr>, b_delivery = DRealtime,
     maxRateHz = NumI 20, b_policy = PLatest, b_maxMessages = 1,
     b_access = Some \<lparr>a_publishScope = ustr ''s'', a_exclusiveWriter = True\<rparr>, b_commandGuard = Some 250\<rparr>"

definition example_config :: bridgeConfig where
  "example_config = \<lparr>robotId = ustr ''r'',
     cfg_limits = \<lparr>maxPeers = 2, lim_maxMessageBytes = 1024, maxPeerQueueBytes = 4096, maxChannelBufferedBytes = 2048\<rparr>,
     cfg_topics = [example_binding]\<rparr>"

lemmas cls_defs = char_cls_def head_cls_def tail_cls_def alpha_cls_def alnum_cls_def range_cls_def digit_cls_def
  one_of_def unat_code_unit

lemma example_names:
  "rx_match topicName_rx (ustr ''/a'')" "rx_match rosType_rx (ustr ''p/msg/T'')" "rx_match scope_rx (ustr ''s'')"
  "rx_match robot_rx (ustr ''r'')"
  by (simp_all add: topicName_rx_def rosType_rx_def scope_rx_def robot_rx_def type_part_rx_def name_rx_def rplus_def
      rlit.simps ustr_def cls_defs)

lemma example_binding_run: "binding (ustr ''/a'') example_topic_entry example_options = Inr example_binding"
  by (simp add: binding_def Let_def example_topic_entry_def record_c_def is_object_def example_options_def
      example_binding_def string_c_def topicName_def example_names choice_def rosQos_def positive_int_def
      positive_def MAX_SAFE_INTEGER_def parseAccess_def parseGuard_def exclusive_def boolean_c_def failIf_def
      mk_obj_def mk_prop_def map_filter_def)

lemma example_config_parsed: "parseBridgeConfig (\<lambda>_. Inr example_document) [] example_options = Inr example_config"
  using example_binding_run
  by (simp add: parseBridgeConfig_def Let_def example_document_def record_c_def is_object_def example_config_def
      string_c_def example_names positive_int_def positive_def MAX_SAFE_INTEGER_def parseLimits_def orDefault_def
      readDocument_def utf8_length_def utf8_encode_def checkOutputs_def mk_obj_def mk_prop_def map_filter_def
      failIf_def) (simp add: example_options_def)

lemma example_document_ok: "js_ok example_document"
  by (simp add: example_document_def example_topic_entry_def mk_obj_def mk_prop_def)

theorem config_sound_witness:
  "parseBridgeConfig (\<lambda>_. Inr example_document) [] example_options = Inr example_config
   \<and> js_ok example_document \<and> binding_ok example_options example_binding"
  using config_sound [OF example_config_parsed] example_config_parsed example_document_ok
  by (simp add: example_config_def)

theorem config_output_contract_witness:
  "parseBridgeConfig (\<lambda>_. Inr example_document) [] example_options = Inr example_config
   \<and> b_direction example_binding = WebToRos \<and> b_commandGuard example_binding = b_commandGuard example_binding"
  using config_output_contract [OF example_config_parsed, of example_binding example_binding] example_config_parsed
  by (simp add: example_config_def example_binding_def)

end
