(* ===== verification/Config_Video.thy ===== *)
theory Config_Video
  imports Config
begin

text \<open>
  \<open>config/video.ts\<close>: the media plane of the configuration. It is parsed from the same document as the
  topics but separately, and checked against them.
\<close>

section \<open>Validated data\<close>

datatype encoding = Rgb8 | Bgr8 | Mono8
datatype backend = BFixture | BL4t | BOpenh264
datatype profile = ConstrainedBaseline | MainProfile | HighProfile

record videoInput =
  in_encoding :: encoding
  in_width :: int
  in_height :: int
  in_framerate :: int

record videoEncoder =
  e_backend :: backend
  e_bitrate :: int
  e_keyframeInterval :: int
  e_profile :: profile

record videoBinding =
  v_name :: ustring
  v_rosTopic :: ustring
  v_rosType :: ustring
  v_qos :: qos
  v_input :: videoInput
  v_output :: "(int \<times> int) option"
  v_encoder :: videoEncoder
  v_scope :: ustring

record videoSettings =
  startTimeoutMs :: int
  stopGraceMs :: int
  retryMinIntervalMs :: int
  pliMinIntervalMs :: int

record videoLimits =
  maxTracks :: int
  maxPipelines :: int
  maxSlotsPerPeer :: int
  maxWidth :: int
  maxHeight :: int
  maxFramerate :: int

record videoConfig =
  vc_settings :: videoSettings
  vc_limits :: videoLimits
  vc_tracks :: "videoBinding list"

section \<open>Tables\<close>

fun PROFILE_IDC :: "profile \<Rightarrow> int" where
  "PROFILE_IDC ConstrainedBaseline = 66"
| "PROFILE_IDC MainProfile = 77"
| "PROFILE_IDC HighProfile = 100"

text \<open>\<open>VIDEO_BACKENDS\<close>: the profiles and the bitrate range of each backend.\<close>

fun backend_profiles :: "backend \<Rightarrow> profile list" where
  "backend_profiles BFixture = [ConstrainedBaseline]"
| "backend_profiles BL4t = [ConstrainedBaseline, MainProfile, HighProfile]"
| "backend_profiles BOpenh264 = [ConstrainedBaseline]"

fun backend_bitrate :: "backend \<Rightarrow> int \<times> int" where
  "backend_bitrate BFixture = (1, 100000000)"
| "backend_bitrate BL4t = (64000, 100000000)"
| "backend_bitrate BOpenh264 = (64000, 40000000)"

section \<open>Validation\<close>

definition parseVideoSettings :: "jsval \<Rightarrow> videoSettings result" where
  "parseVideoSettings v =
     bindR (record_c v (map ustr [''start_timeout_ms'', ''stop_grace_ms'', ''retry_min_interval_ms'', ''pli_min_interval_ms''])
              (ustr ''video'')) (\<lambda>m.
     bindR (positive_int (field_of m ''start_timeout_ms'') (ustr ''video.start_timeout_ms'')) (\<lambda>a.
     bindR (positive_int (field_of m ''stop_grace_ms'') (ustr ''video.stop_grace_ms'')) (\<lambda>b.
     bindR (positive_int (field_of m ''retry_min_interval_ms'') (ustr ''video.retry_min_interval_ms'')) (\<lambda>c.
     bindR (positive_int (field_of m ''pli_min_interval_ms'') (ustr ''video.pli_min_interval_ms'')) (\<lambda>d.
     Inr \<lparr>startTimeoutMs = a, stopGraceMs = b, retryMinIntervalMs = c, pliMinIntervalMs = d\<rparr>)))))"

definition parseVideoInput :: "jsval \<Rightarrow> videoLimits \<Rightarrow> ustring \<Rightarrow> videoInput result" where
  "parseVideoInput v bnd path =
     (let loc = path @ ustr ''.input'' in
      bindR (record_c v (map ustr [''encoding'', ''width'', ''height'', ''framerate'']) loc) (\<lambda>m.
      bindR (choice (field_of m ''encoding'') [(''rgb8'', Rgb8), (''bgr8'', Bgr8), (''mono8'', Mono8)]
               (loc @ ustr ''.encoding'')) (\<lambda>enc.
      bindR (positive_int (field_of m ''width'') (loc @ ustr ''.width'')) (\<lambda>w.
      bindR (positive_int (field_of m ''height'') (loc @ ustr ''.height'')) (\<lambda>h.
      bindR (positive_int (field_of m ''framerate'') (loc @ ustr ''.framerate'')) (\<lambda>f.
      bindR (failIf (w > maxWidth bnd \<or> h > maxHeight bnd \<or> f > maxFramerate bnd)
               (ConfigErr loc ''exceeds configured video limits'')) (\<lambda>_.
      Inr \<lparr>in_encoding = enc, in_width = w, in_height = h, in_framerate = f\<rparr>)))))))"

definition parseVideoOutput :: "jsval \<Rightarrow> videoLimits \<Rightarrow> ustring \<Rightarrow> (int \<times> int) result" where
  "parseVideoOutput v bnd path =
     (let loc = path @ ustr ''.output'' in
      bindR (record_c v (map ustr [''width'', ''height'']) loc) (\<lambda>m.
      bindR (positive_int (field_of m ''width'') (loc @ ustr ''.width'')) (\<lambda>w.
      bindR (positive_int (field_of m ''height'') (loc @ ustr ''.height'')) (\<lambda>h.
      bindR (failIf (w > maxWidth bnd \<or> h > maxHeight bnd) (ConfigErr loc ''exceeds configured video limits'')) (\<lambda>_.
      bindR (failIf (w mod 2 \<noteq> 0 \<or> h mod 2 \<noteq> 0) (ConfigErr loc ''width and height must be even'')) (\<lambda>_.
      Inr (w, h)))))))"

text \<open>\<open>map.output === undefined ? undefined : videoOutput(...)\<close>\<close>

definition optionalOutput :: "jsval \<Rightarrow> videoLimits \<Rightarrow> ustring \<Rightarrow> (int \<times> int) option result" where
  "optionalOutput v bnd path =
     (if v = Undefined then Inr None else bindR (parseVideoOutput v bnd path) (\<lambda>g. Inr (Some g)))"

definition parseVideoEncoder :: "jsval \<Rightarrow> ustring \<Rightarrow> videoEncoder result" where
  "parseVideoEncoder v path =
     (let loc = path @ ustr ''.encoder'' in
      bindR (record_c v (map ustr [''codec'', ''backend'', ''bitrate'', ''keyframe_interval'', ''profile'']) loc) (\<lambda>m.
      bindR (choice (field_of m ''codec'') [(''h264'', ())] (loc @ ustr ''.codec'')) (\<lambda>_.
      bindR (choice (field_of m ''backend'') [(''fixture'', BFixture), (''l4t_v4l2'', BL4t), (''openh264'', BOpenh264)]
               (loc @ ustr ''.backend'')) (\<lambda>backend.
      bindR (positive_int (field_of m ''bitrate'') (loc @ ustr ''.bitrate'')) (\<lambda>rate.
      bindR (failIf (rate < fst (backend_bitrate backend) \<or> rate > snd (backend_bitrate backend))
               (ConfigErr (loc @ ustr ''.bitrate'') ''outside the range supported by the selected backend'')) (\<lambda>_.
      bindR (choice (field_of m ''profile'') [(''constrained_baseline'', ConstrainedBaseline), (''main'', MainProfile), (''high'', HighProfile)]
               (loc @ ustr ''.profile'')) (\<lambda>prof.
      bindR (failIf (prof \<notin> set (backend_profiles backend))
               (ConfigErr (loc @ ustr ''.profile'') ''unsupported by the selected backend'')) (\<lambda>_.
      bindR (positive_int (field_of m ''keyframe_interval'') (loc @ ustr ''.keyframe_interval'')) (\<lambda>k.
      Inr \<lparr>e_backend = backend, e_bitrate = rate, e_keyframeInterval = k, e_profile = prof\<rparr>)))))))))"

text \<open>\<open>/^[A-Za-z][A-Za-z0-9_]*$/\<close> and \<open>/^sensor_msgs\/msg\/Image$/\<close>\<close>

definition track_rx :: "16 word rx" where
  "track_rx = type_part_rx"

definition image_rx :: "16 word rx" where
  "image_rx = rlit ''sensor_msgs/msg/Image''"

definition parseVideoBinding :: "ustring \<Rightarrow> jsval \<Rightarrow> videoLimits \<Rightarrow> videoBinding result" where
  "parseVideoBinding name v bnd =
     (let path = ustr ''video_tracks.'' @ name in
      bindR (string_c (Str name) track_rx path) (\<lambda>_.
      bindR (record_c v (map ustr [''ros_topic'', ''ros_type'', ''ros_qos'', ''input'', ''output'', ''encoder'', ''access'']) path) (\<lambda>m.
      bindR (topicName (field_of m ''ros_topic'') (path @ ustr ''.ros_topic'')) (\<lambda>topic.
      bindR (string_c (field_of m ''ros_type'') image_rx (path @ ustr ''.ros_type'')) (\<lambda>type.
      bindR (rosQos (field_of m ''ros_qos'') path) (\<lambda>qos.
      bindR (failIf (q_durability qos \<noteq> QVolatile) (ConfigErr path ''video requires volatile durability'')) (\<lambda>_.
      bindR (record_c (field_of m ''access'') [ustr ''subscribe_scope''] (path @ ustr ''.access'')) (\<lambda>acc.
      bindR (parseVideoInput (field_of m ''input'') bnd path) (\<lambda>input.
      bindR (optionalOutput (field_of m ''output'') bnd path) (\<lambda>output.
      bindR (failIf (output = None \<and> (in_width input mod 2 \<noteq> 0 \<or> in_height input mod 2 \<noteq> 0))
               (ConfigErr (path @ ustr ''.input'') ''width and height must be even when output is not configured'')) (\<lambda>_.
      bindR (parseVideoEncoder (field_of m ''encoder'') path) (\<lambda>encoder.
      bindR (string_c (field_of acc ''subscribe_scope'') scope_rx (path @ ustr ''.access.subscribe_scope'')) (\<lambda>scope.
      Inr \<lparr>v_name = name, v_rosTopic = topic, v_rosType = type, v_qos = qos, v_input = input, v_output = output,
           v_encoder = encoder, v_scope = scope\<rparr>)))))))))))))"

fun unique_sources :: "ustring list \<Rightarrow> videoBinding list \<Rightarrow> unit result" where
  "unique_sources seen [] = Inr ()"
| "unique_sources seen (t # ts) =
     (if v_rosTopic t \<in> set seen
      then Inl (ConfigErr (ustr ''video_tracks.'' @ v_name t) ''duplicate video source topic'')
      else unique_sources (v_rosTopic t # seen) ts)"

definition parseVideoBindings :: "jsval \<Rightarrow> videoLimits \<Rightarrow> videoBinding list result" where
  "parseVideoBindings v bnd =
     bindR (record_c v (enum_keys v) (ustr ''video_tracks'')) (\<lambda>entries.
     let names = enum_keys entries in
     bindR (failIf (names = [] \<or> int (length names) > maxTracks bnd)
              (ConfigErr (ustr ''video_tracks'') ''invalid video track count'')) (\<lambda>_.
     bindR (mapR (\<lambda>name. parseVideoBinding name (get_prop entries name) bnd) names) (\<lambda>tracks.
     bindR (unique_sources [] tracks) (\<lambda>_.
     Inr tracks))))"

definition parseVideoLimits :: "jsval \<Rightarrow> videoLimits result" where
  "parseVideoLimits v =
     bindR (record_c v (map ustr [''max_tracks'', ''max_pipelines'', ''max_slots_per_peer'', ''max_width'', ''max_height'',
              ''max_framerate'']) (ustr ''limits.video'')) (\<lambda>m.
     bindR (positive_int (field_of m ''max_tracks'') (ustr ''limits.video.max_tracks'')) (\<lambda>a.
     bindR (positive_int (field_of m ''max_pipelines'') (ustr ''limits.video.max_pipelines'')) (\<lambda>b.
     bindR (positive_int (field_of m ''max_slots_per_peer'') (ustr ''limits.video.max_slots_per_peer'')) (\<lambda>c.
     bindR (positive_int (field_of m ''max_width'') (ustr ''limits.video.max_width'')) (\<lambda>d.
     bindR (positive_int (field_of m ''max_height'') (ustr ''limits.video.max_height'')) (\<lambda>e.
     bindR (positive_int (field_of m ''max_framerate'') (ustr ''limits.video.max_framerate'')) (\<lambda>f.
     bindR (failIf (b > a) (ConfigErr (ustr ''limits.video'') ''more pipelines than tracks'')) (\<lambda>_.
     Inr \<lparr>maxTracks = a, maxPipelines = b, maxSlotsPerPeer = c, maxWidth = d, maxHeight = e, maxFramerate = f\<rparr>))))))))"

fun not_exposed :: "ustring list \<Rightarrow> videoBinding list \<Rightarrow> unit result" where
  "not_exposed exposed [] = Inr ()"
| "not_exposed exposed (t # ts) =
     (if v_rosTopic t \<in> set exposed
      then Inl (ConfigErr (ustr ''video_tracks.'' @ v_name t) ''topic is already exposed through topics'')
      else not_exposed exposed ts)"

definition parseVideoConfig ::
    "(ustring \<Rightarrow> jsval result) \<Rightarrow> ustring \<Rightarrow> topicBinding list \<Rightarrow> int \<Rightarrow> videoConfig option result" where
  "parseVideoConfig yaml source topics maxBytes =
     bindR (readDocument yaml source maxBytes) (\<lambda>document.
     bindR (record_c document (enum_keys document) (ustr ''$'')) (\<lambda>m.
     bindR (record_c (field_of m ''limits'') (enum_keys (field_of m ''limits'')) (ustr ''limits'')) (\<lambda>lims.
     let bounds = field_of lims ''video''; video = field_of m ''video''; tracks = field_of m ''video_tracks'' in
     if video = Undefined \<and> tracks = Undefined \<and> bounds = Undefined then Inr None
     else
       bindR (failIf (video = Undefined \<or> tracks = Undefined \<or> bounds = Undefined)
                (ConfigErr (ustr ''video'') ''video, video_tracks and limits.video must be configured together'')) (\<lambda>_.
       bindR (parseVideoLimits bounds) (\<lambda>bnd.
       bindR (parseVideoBindings tracks bnd) (\<lambda>ts.
       bindR (not_exposed (map rosTopic topics) ts) (\<lambda>_.
       bindR (parseVideoSettings video) (\<lambda>settings.
       Inr (Some \<lparr>vc_settings = settings, vc_limits = bnd, vc_tracks = ts\<rparr>))))))))) "

section \<open>What is accepted\<close>

text \<open>The picture that is encoded: the output geometry, or the input where none is given.\<close>

definition encoded_size :: "videoBinding \<Rightarrow> int \<times> int" where
  "encoded_size b = (case v_output b of None \<Rightarrow> (in_width (v_input b), in_height (v_input b)) | Some g \<Rightarrow> g)"

definition track_ok :: "videoLimits \<Rightarrow> videoBinding \<Rightarrow> bool" where
  "track_ok bnd b \<longleftrightarrow>
     topic_ok (v_rosTopic b) \<and> q_durability (v_qos b) = QVolatile
     \<and> in_width (v_input b) \<le> maxWidth bnd \<and> in_height (v_input b) \<le> maxHeight bnd
     \<and> in_framerate (v_input b) \<le> maxFramerate bnd
     \<and> 0 < fst (encoded_size b) \<and> fst (encoded_size b) \<le> maxWidth bnd \<and> even (fst (encoded_size b))
     \<and> 0 < snd (encoded_size b) \<and> snd (encoded_size b) \<le> maxHeight bnd \<and> even (snd (encoded_size b))
     \<and> fst (backend_bitrate (e_backend (v_encoder b))) \<le> e_bitrate (v_encoder b)
     \<and> e_bitrate (v_encoder b) \<le> snd (backend_bitrate (e_backend (v_encoder b)))
     \<and> e_profile (v_encoder b) \<in> set (backend_profiles (e_backend (v_encoder b)))"

lemma parseVideoInput_Inr:
  "parseVideoInput v bnd path = Inr i \<Longrightarrow>
     0 < in_width i \<and> in_width i \<le> maxWidth bnd \<and> 0 < in_height i \<and> in_height i \<le> maxHeight bnd
     \<and> in_framerate i \<le> maxFramerate bnd"
  by (auto simp: parseVideoInput_def Let_def not_less limit_ok_def dest!: positive_int_Inr)

lemma parseVideoOutput_Inr:
  "parseVideoOutput v bnd path = Inr g \<Longrightarrow>
     0 < fst g \<and> fst g \<le> maxWidth bnd \<and> even (fst g) \<and> 0 < snd g \<and> snd g \<le> maxHeight bnd \<and> even (snd g)"
  by (auto simp: parseVideoOutput_def Let_def not_less limit_ok_def even_iff_mod_2_eq_zero dest!: positive_int_Inr)

lemma parseVideoEncoder_Inr:
  "parseVideoEncoder v path = Inr e \<Longrightarrow>
     fst (backend_bitrate (e_backend e)) \<le> e_bitrate e \<and> e_bitrate e \<le> snd (backend_bitrate (e_backend e))
     \<and> e_profile e \<in> set (backend_profiles (e_backend e))"
  by (auto simp: parseVideoEncoder_def Let_def not_less)

lemma parseVideoBinding_Inr:
  assumes "parseVideoBinding name v bnd = Inr b"
  shows "track_ok bnd b \<and> v_name b = name"
proof -
  from assms obtain topic type qos input geometry encoder scope m acc where
    parts: "topic_ok topic" "q_durability qos = QVolatile"
    "parseVideoInput (field_of m ''input'') bnd (ustr ''video_tracks.'' @ name) = Inr input"
    "parseVideoEncoder (field_of m ''encoder'') (ustr ''video_tracks.'' @ name) = Inr encoder"
    "b = \<lparr>v_name = name, v_rosTopic = topic, v_rosType = type, v_qos = qos, v_input = input, v_output = geometry,
           v_encoder = encoder, v_scope = scope\<rparr>"
    and out: "optionalOutput (field_of m ''output'') bnd (ustr ''video_tracks.'' @ name) = Inr geometry"
    and odd: "\<not> (geometry = None \<and> (in_width input mod 2 \<noteq> 0 \<or> in_height input mod 2 \<noteq> 0))"
    unfolding parseVideoBinding_def Let_def bindR_eq_Inr failIf_eq_Inr topicName_Inr by auto
  have "case geometry of None \<Rightarrow> even (in_width input) \<and> even (in_height input)
      | Some g \<Rightarrow> 0 < fst g \<and> fst g \<le> maxWidth bnd \<and> even (fst g) \<and> 0 < snd g \<and> snd g \<le> maxHeight bnd \<and> even (snd g)"
    using out odd parseVideoOutput_Inr by (auto simp: optionalOutput_def even_iff_mod_2_eq_zero split: if_splits option.splits)
  with parts parseVideoInput_Inr [OF parts(3)] parseVideoEncoder_Inr [OF parts(4)] show ?thesis
    by (cases geometry) (simp_all add: track_ok_def encoded_size_def)
qed

lemma unique_sources_Inr:
  "unique_sources seen ts = Inr () \<Longrightarrow> distinct (map v_rosTopic ts) \<and> set (map v_rosTopic ts) \<inter> set seen = {}"
proof (induction ts arbitrary: seen)
  case (Cons t ts)
  then have "v_rosTopic t \<notin> set seen" "unique_sources (v_rosTopic t # seen) ts = Inr ()" by (auto split: if_splits)
  with Cons.IH [of "v_rosTopic t # seen"] show ?case by auto
qed simp

lemma not_exposed_Inr: "not_exposed ex ts = Inr () \<Longrightarrow> set (map v_rosTopic ts) \<inter> set ex = {}"
  by (induction ts) (auto split: if_splits)

lemma record_c_Inr: "record_c v allowed path = Inr m \<Longrightarrow> m = v"
  by (auto simp: record_c_def split: if_splits)

lemma parseVideoBindings_Inr:
  assumes "parseVideoBindings v bnd = Inr ts"
  shows "list_all (track_ok bnd) ts \<and> distinct (map v_rosTopic ts) \<and> ts \<noteq> [] \<and> int (length ts) \<le> maxTracks bnd"
proof -
  obtain names where run: "list_all2 (\<lambda>name t. parseVideoBinding name (get_prop v name) bnd = Inr t) names ts"
    and n: "names \<noteq> []" "int (length names) \<le> maxTracks bnd" and u: "unique_sources [] ts = Inr ()"
    using assms unfolding parseVideoBindings_def Let_def bindR_eq_Inr failIf_eq_Inr mapR_eq_Inr
    by (auto simp: not_less dest!: record_c_Inr)
  have "list_all (track_ok bnd) ts" "length ts = length names"
    using run parseVideoBinding_Inr by (auto simp: list_all2_conv_all_nth list_all_length)
  then show ?thesis using unique_sources_Inr [OF u] n by auto
qed

lemma parseVideoLimits_Inr: "parseVideoLimits v = Inr l \<Longrightarrow> maxPipelines l \<le> maxTracks l \<and> 0 < maxPipelines l"
  by (auto simp: parseVideoLimits_def not_less limit_ok_def dest!: positive_int_Inr)

section \<open>Properties\<close>

text \<open>
  An accepted media plane is consistent with its limits and with the topics: every encoded
  picture has positive even axes within the limits, every bitrate and profile is one its backend
  supports, durability is volatile, at most the allowed number of tracks exists, no two tracks share
  a ROS topic, and no track reads a topic that is already exposed as data.
\<close>

theorem video_config_sound:
  assumes "parseVideoConfig yaml source topics maxBytes = Inr (Some vc)"
  shows "list_all (track_ok (vc_limits vc)) (vc_tracks vc) \<and> distinct (map v_rosTopic (vc_tracks vc))
    \<and> vc_tracks vc \<noteq> [] \<and> int (length (vc_tracks vc)) \<le> maxTracks (vc_limits vc)
    \<and> maxPipelines (vc_limits vc) \<le> maxTracks (vc_limits vc)
    \<and> set (map v_rosTopic (vc_tracks vc)) \<inter> set (map rosTopic topics) = {}"
proof -
  obtain bounds tracks where "parseVideoLimits bounds = Inr (vc_limits vc)"
    "parseVideoBindings tracks (vc_limits vc) = Inr (vc_tracks vc)"
    "not_exposed (map rosTopic topics) (vc_tracks vc) = Inr ()"
    using assms unfolding parseVideoConfig_def Let_def bindR_eq_Inr failIf_eq_Inr
    by (auto split: if_splits)
  then show ?thesis
    using parseVideoLimits_Inr parseVideoBindings_Inr not_exposed_Inr by blast
qed

section \<open>Witnesses\<close>

definition example_track_entry :: jsval where
  "example_track_entry = mk_obj
     [(ustr ''ros_topic'', Str (ustr ''/c'')), (ustr ''ros_type'', Str (ustr ''sensor_msgs/msg/Image'')),
      (ustr ''ros_qos'', mk_obj [(ustr ''reliability'', Str (ustr ''best_effort'')), (ustr ''durability'', Str (ustr ''volatile'')),
         (ustr ''history'', Str (ustr ''keep_last'')), (ustr ''depth'', Number (NumI 1))]),
      (ustr ''input'', mk_obj [(ustr ''encoding'', Str (ustr ''rgb8'')), (ustr ''width'', Number (NumI 641)),
         (ustr ''height'', Number (NumI 480)), (ustr ''framerate'', Number (NumI 30))]),
      (ustr ''output'', mk_obj [(ustr ''width'', Number (NumI 320)), (ustr ''height'', Number (NumI 240))]),
      (ustr ''encoder'', mk_obj [(ustr ''codec'', Str (ustr ''h264'')), (ustr ''backend'', Str (ustr ''openh264'')),
         (ustr ''bitrate'', Number (NumI 500000)), (ustr ''keyframe_interval'', Number (NumI 30)),
         (ustr ''profile'', Str (ustr ''constrained_baseline''))]),
      (ustr ''access'', mk_obj [(ustr ''subscribe_scope'', Str (ustr ''s''))])]"

definition example_video_document :: jsval where
  "example_video_document = mk_obj
     [(ustr ''limits'', mk_obj [(ustr ''video'', mk_obj [(ustr ''max_tracks'', Number (NumI 2)), (ustr ''max_pipelines'', Number (NumI 1)),
         (ustr ''max_slots_per_peer'', Number (NumI 1)), (ustr ''max_width'', Number (NumI 1280)), (ustr ''max_height'', Number (NumI 720)),
         (ustr ''max_framerate'', Number (NumI 60))])]),
      (ustr ''video'', mk_obj [(ustr ''start_timeout_ms'', Number (NumI 5000)), (ustr ''stop_grace_ms'', Number (NumI 5000)),
         (ustr ''retry_min_interval_ms'', Number (NumI 5000)), (ustr ''pli_min_interval_ms'', Number (NumI 200))]),
      (ustr ''video_tracks'', mk_obj [(ustr ''t'', example_track_entry)])]"

definition example_limits :: videoLimits where
  "example_limits = \<lparr>maxTracks = 2, maxPipelines = 1, maxSlotsPerPeer = 1, maxWidth = 1280, maxHeight = 720, maxFramerate = 60\<rparr>"

definition example_track :: videoBinding where
  "example_track = \<lparr>v_name = ustr ''t'', v_rosTopic = ustr ''/c'', v_rosType = ustr ''sensor_msgs/msg/Image'',
     v_qos = \<lparr>q_reliability = QBestEffort, q_durability = QVolatile, q_depth = 1\<rparr>,
     v_input = \<lparr>in_encoding = Rgb8, in_width = 641, in_height = 480, in_framerate = 30\<rparr>, v_output = Some (320, 240),
     v_encoder = \<lparr>e_backend = BOpenh264, e_bitrate = 500000, e_keyframeInterval = 30, e_profile = ConstrainedBaseline\<rparr>,
     v_scope = ustr ''s''\<rparr>"

definition example_video :: videoConfig where
  "example_video = \<lparr>vc_settings = \<lparr>startTimeoutMs = 5000, stopGraceMs = 5000, retryMinIntervalMs = 5000, pliMinIntervalMs = 200\<rparr>,
     vc_limits = example_limits, vc_tracks = [example_track]\<rparr>"

lemma example_video_names:
  "rx_match topicName_rx (ustr ''/c'')" "rx_match track_rx (ustr ''t'')"
  by (simp_all add: topicName_rx_def track_rx_def type_part_rx_def name_rx_def rplus_def rlit.simps ustr_def cls_defs)

lemma example_image: "rx_match image_rx (ustr ''sensor_msgs/msg/Image'')"
  by (simp add: rx_match_iff image_rx_def rx_simps)

lemmas config_evals = record_c_def is_object_def string_c_def topicName_def choice_def rosQos_def positive_int_def
  positive_def MAX_SAFE_INTEGER_def failIf_def mk_obj_def mk_prop_def map_filter_def Let_def

lemma example_track_run: "parseVideoBinding (ustr ''t'') example_track_entry example_limits = Inr example_track"
  by (simp add: parseVideoBinding_def example_track_entry_def example_limits_def example_track_def config_evals
      example_video_names example_image example_names parseVideoInput_def parseVideoOutput_def optionalOutput_def parseVideoEncoder_def)

lemma example_video_parsed:
  "parseVideoConfig (\<lambda>_. Inr example_video_document) [] [example_binding] 100 = Inr (Some example_video)"
proof -
  have "parseVideoLimits (field_of (field_of example_video_document ''limits'') ''video'') = Inr example_limits"
    by (simp add: example_video_document_def parseVideoLimits_def example_limits_def config_evals)
  moreover have "parseVideoBindings (field_of example_video_document ''video_tracks'') example_limits = Inr [example_track]"
    using example_track_run
    by (simp add: example_video_document_def parseVideoBindings_def record_c_def is_object_def mk_obj_def mk_prop_def
        map_filter_def failIf_def) (simp add: example_limits_def)
  moreover have "not_exposed (map rosTopic [example_binding]) [example_track] = Inr ()"
    by (simp add: example_binding_def example_track_def)
  ultimately show ?thesis
    by (simp add: parseVideoConfig_def readDocument_def utf8_length_def utf8_encode_def)
      (simp add: example_video_document_def example_video_def parseVideoSettings_def config_evals)
qed

theorem video_config_sound_witness:
  "parseVideoConfig (\<lambda>_. Inr example_video_document) [] [example_binding] 100 = Inr (Some example_video)
   \<and> track_ok example_limits example_track"
  using video_config_sound [OF example_video_parsed] example_video_parsed by (simp add: example_video_def)

end
