(* ===== verification/Request_Cache.thy ===== *)
theory Request_Cache
  imports JS_Text
begin

text \<open>
  \<open>router/request-cache.ts\<close>: the responses of recent requests, so that a retransmitted request is
  answered again without being executed again. The limits have been validated by the router.
\<close>

section \<open>State and operations\<close>

record cached =
  ca_input :: ustring
  ca_output :: bytes
  ca_expires :: number
  ca_bytes :: int

record cache =
  rc_entries :: "(ustring \<times> cached) list"
  rc_bytes :: int
  rc_maxEntries :: int
  rc_ttlMs :: int
  rc_maxBytes :: int

definition newRequestCache :: "int \<Rightarrow> int \<Rightarrow> int \<Rightarrow> cache" where
  "newRequestCache maxEntries ttlMs maxBytes =
     \<lparr>rc_entries = [], rc_bytes = 0, rc_maxEntries = maxEntries, rc_ttlMs = ttlMs, rc_maxBytes = maxBytes\<rparr>"

text \<open>\<open>for (const [key, cached] of this.entries) if (now >= cached.expires) ...\<close>\<close>

definition purge :: "number \<Rightarrow> cache \<Rightarrow> cache" where
  "purge now c =
     c\<lparr>rc_bytes := rc_bytes c - sum_list (map (\<lambda>(_, e). ca_bytes e) (filter (\<lambda>(_, e). num_le (ca_expires e) now) (rc_entries c))),
       rc_entries := filter (\<lambda>(_, e). \<not> num_le (ca_expires e) now) (rc_entries c)\<rparr>"

definition cache_lookup :: "ustring \<Rightarrow> ustring \<Rightarrow> number \<Rightarrow> (cache, bytes option) prog" where
  "cache_lookup rid input now =
     seqE (modE (purge now))
    (bindE (getE (\<lambda>c. map_of (rc_entries c) rid)) (\<lambda>existing.
     case existing of
       Some e \<Rightarrow> if ca_input e \<noteq> input then throwE (Err ''request_conflict'') else retE (Some (ca_output e))
     | None \<Rightarrow>
         bindE (getE (\<lambda>c. int (length (rc_entries c)) \<ge> rc_maxEntries c)) (\<lambda>full.
         seqE (throwIf full (Err ''request_limit'')) (retE None))))"

definition cache_reserve :: "int \<Rightarrow> (cache, unit) prog" where
  "cache_reserve n =
     bindE (getE (\<lambda>c. n > rc_maxBytes c - rc_bytes c)) (\<lambda>over. throwIf over (Err ''cache_limit''))"

definition entry_bytes :: "ustring \<Rightarrow> bytes \<Rightarrow> int" where
  "entry_bytes input out = int (length input) * 2 + int (length out)"

definition cache_store :: "ustring \<Rightarrow> ustring \<Rightarrow> bytes \<Rightarrow> number \<Rightarrow> (cache, unit) prog" where
  "cache_store rid input out now =
     seqE (modE (\<lambda>c. c\<lparr>rc_entries := AList.update rid
       \<lparr>ca_input = input, ca_output = out, ca_expires = num_add now (NumI (rc_ttlMs c)), ca_bytes = entry_bytes input out\<rparr>
       (rc_entries c)\<rparr>))
    (modE (\<lambda>c. c\<lparr>rc_bytes := rc_bytes c + entry_bytes input out\<rparr>))"

definition cache_clear :: "(cache, unit) prog" where
  "cache_clear = modE (\<lambda>c. c\<lparr>rc_entries := [], rc_bytes := 0\<rparr>)"

section \<open>The discipline of the router\<close>

text \<open>
  How a control request goes through the cache: a known request is answered from it; a new one
  reserves space for the largest response before it is executed, and its response is stored.
\<close>

definition serve :: "int \<Rightarrow> ustring \<Rightarrow> ustring \<Rightarrow> number \<Rightarrow> bytes result \<Rightarrow> (cache, bytes) prog" where
  "serve maxOut rid input now response =
     bindE (cache_lookup rid input now) (\<lambda>found.
     case found of
       Some out \<Rightarrow> retE out
     | None \<Rightarrow>
         seqE (cache_reserve (maxOut + int (length input) * 2))
        (bindE (liftE response) (\<lambda>out.
         seqE (throwIf (int (length out) > maxOut) (Err ''message_size''))
        (seqE (cache_store rid input out now) (retE out)))))"

datatype cache_op = Serve ustring ustring number "bytes result" | Clear

fun cache_exec :: "int \<Rightarrow> cache_op \<Rightarrow> cache \<Rightarrow> cache" where
  "cache_exec maxOut (Serve rid input now response) c = snd (serve maxOut rid input now response c)"
| "cache_exec maxOut Clear c = snd (cache_clear c)"

fun cache_run :: "int \<Rightarrow> cache_op list \<Rightarrow> cache \<Rightarrow> cache" where
  "cache_run maxOut [] c = c"
| "cache_run maxOut (op # ops) c = cache_run maxOut ops (cache_exec maxOut op c)"

section \<open>Invariant\<close>

definition cache_inv :: "cache \<Rightarrow> bool" where
  "cache_inv c \<longleftrightarrow>
     distinct (keys (rc_entries c)) \<and> rc_bytes c = sum_list (map (\<lambda>p. ca_bytes (snd p)) (rc_entries c))
     \<and> (\<forall>p \<in> set (rc_entries c). 0 \<le> ca_bytes (snd p))
     \<and> rc_bytes c \<le> rc_maxBytes c \<and> int (length (rc_entries c)) \<le> rc_maxEntries c"

lemma sum_filter_split:
  fixes f :: "'a \<Rightarrow> int"
  shows "sum_list (map f (filter (\<lambda>x. \<not> P x) xs)) = sum_list (map f xs) - sum_list (map f (filter P xs))"
  by (induction xs) auto

lemma sum_list_nonneg_filter:
  fixes f :: "'a \<Rightarrow> int"
  shows "(\<forall>x \<in> set xs. 0 \<le> f x) \<Longrightarrow> 0 \<le> sum_list (map f (filter P xs))"
  by (induction xs) auto

lemma purge_inv: "cache_inv c \<Longrightarrow> cache_inv (purge now c)"
proof -
  assume inv: "cache_inv c"
  let ?dead = "\<lambda>p. num_le (ca_expires (snd p)) now"
  have eq: "purge now c = c\<lparr>rc_bytes := rc_bytes c - sum_list (map (\<lambda>p. ca_bytes (snd p)) (filter ?dead (rc_entries c))),
      rc_entries := filter (\<lambda>p. \<not> ?dead p) (rc_entries c)\<rparr>"
    by (simp add: purge_def case_prod_unfold)
  have "int (length (filter (\<lambda>p. \<not> ?dead p) (rc_entries c))) \<le> rc_maxEntries c"
    using inv length_filter_le [of "\<lambda>p. \<not> ?dead p" "rc_entries c"] unfolding cache_inv_def by linarith
  moreover have "0 \<le> sum_list (map (\<lambda>p. ca_bytes (snd p)) (filter ?dead (rc_entries c)))"
    using inv by (intro sum_list_nonneg_filter) (simp add: cache_inv_def)
  ultimately show ?thesis
    using inv by (auto simp: eq cache_inv_def sum_filter_split distinct_map_filter)
qed

lemma cache_lookup_run:
  "cache_lookup rid input now c =
     (case map_of (rc_entries (purge now c)) rid of
        Some e \<Rightarrow> if ca_input e \<noteq> input then Inl (Err ''request_conflict'') else Inr (Some (ca_output e))
      | None \<Rightarrow> if int (length (rc_entries (purge now c))) \<ge> rc_maxEntries c then Inl (Err ''request_limit'') else Inr None,
      purge now c)"
  by (auto simp: cache_lookup_def prog_simps purge_def split: option.split)

lemma serve_run:
  "serve maxOut rid input now response c =
     (let p = purge now c in
      case map_of (rc_entries p) rid of
        Some e \<Rightarrow> (if ca_input e \<noteq> input then Inl (Err ''request_conflict'') else Inr (ca_output e), p)
      | None \<Rightarrow>
          if int (length (rc_entries p)) \<ge> rc_maxEntries c then (Inl (Err ''request_limit''), p)
          else if maxOut + int (length input) * 2 > rc_maxBytes c - rc_bytes p then (Inl (Err ''cache_limit''), p)
          else case response of
                 Inl e \<Rightarrow> (Inl e, p)
               | Inr out \<Rightarrow>
                   if int (length out) > maxOut then (Inl (Err ''message_size''), p)
                   else (Inr out, snd (cache_store rid input out now p)))"
proof -
  have "rc_maxBytes (purge now c) = rc_maxBytes c" by (simp add: purge_def)
  then show ?thesis
    by (auto simp: serve_def prog_simps cache_lookup_run cache_reserve_def cache_store_def Let_def
        split: option.split sum.split)
qed

lemma serve_state:
  obtains (kept) "snd (serve maxOut rid input now response c) = purge now c"
  | (stored) out where "map_of (rc_entries (purge now c)) rid = None"
      "int (length (rc_entries (purge now c))) < rc_maxEntries c"
      "maxOut + int (length input) * 2 \<le> rc_maxBytes c - rc_bytes (purge now c)" "int (length out) \<le> maxOut"
      "response = Inr out" "serve maxOut rid input now response c = (Inr out, snd (cache_store rid input out now (purge now c)))"
proof -
  let ?p = "purge now c"
  let ?ok = "\<exists>out. response = Inr out \<and> int (length out) \<le> maxOut
      \<and> map_of (rc_entries ?p) rid = None \<and> int (length (rc_entries ?p)) < rc_maxEntries c
      \<and> maxOut + int (length input) * 2 \<le> rc_maxBytes c - rc_bytes ?p"
  show ?thesis
  proof (cases ?ok)
    case True
    then obtain out where o: "response = Inr out" "int (length out) \<le> maxOut" "map_of (rc_entries ?p) rid = None"
      "int (length (rc_entries ?p)) < rc_maxEntries c" "maxOut + int (length input) * 2 \<le> rc_maxBytes c - rc_bytes ?p" by auto
    then have "serve maxOut rid input now response c = (Inr out, snd (cache_store rid input out now ?p))"
      by (simp add: serve_run)
    with o stored show ?thesis by blast
  next
    case False
    then have "snd (serve maxOut rid input now response c) = ?p"
      by (cases response; cases "map_of (rc_entries ?p) rid") (auto simp: serve_run Let_def not_le not_less)
    then show ?thesis by (rule kept)
  qed
qed

lemma cache_store_inv:
  assumes "cache_inv c" and "map_of (rc_entries c) rid = None" and "int (length (rc_entries c)) < rc_maxEntries c"
    and "entry_bytes input out \<le> rc_maxBytes c - rc_bytes c"
  shows "cache_inv (snd (cache_store rid input out now c))"
proof -
  have "0 \<le> entry_bytes input out" by (simp add: entry_bytes_def)
  then show ?thesis
    using assms
    by (auto simp: cache_store_def prog_simps cache_inv_def sum_list_update_new distinct_update length_update
        map_of_eq_None_iff dest!: set_update_cases)
qed

lemma cache_exec_inv: "cache_inv c \<Longrightarrow> cache_inv (cache_exec maxOut op c) \<or> rc_maxBytes c < 0 \<or> rc_maxEntries c < 0"
proof (cases op)
  case (Serve rid input now response)
  assume inv: "cache_inv c"
  show ?thesis
  proof (cases rule: serve_state [of maxOut rid input now response c])
    case kept
    then show ?thesis using Serve purge_inv [OF inv] by simp
  next
    case (stored out)
    then have "cache_inv (snd (cache_store rid input out now (purge now c)))"
      by (intro cache_store_inv purge_inv inv) (auto simp: entry_bytes_def purge_def)
    with stored Serve show ?thesis by simp
  qed
next
  case Clear
  then show ?thesis by (auto simp: cache_clear_def prog_simps cache_inv_def)
qed

lemma cache_exec_limits [simp]:
  "rc_maxBytes (cache_exec maxOut op c) = rc_maxBytes c" "rc_maxEntries (cache_exec maxOut op c) = rc_maxEntries c"
  "rc_ttlMs (cache_exec maxOut op c) = rc_ttlMs c"
proof -
  have "rc_maxBytes (cache_exec maxOut op c) = rc_maxBytes c \<and> rc_maxEntries (cache_exec maxOut op c) = rc_maxEntries c
      \<and> rc_ttlMs (cache_exec maxOut op c) = rc_ttlMs c"
  proof (cases op)
    case (Serve rid input now response)
    show ?thesis
      by (cases rule: serve_state [of maxOut rid input now response c])
        (simp_all add: Serve purge_def cache_store_def prog_simps)
  qed (simp add: cache_clear_def prog_simps)
  then show "rc_maxBytes (cache_exec maxOut op c) = rc_maxBytes c" "rc_maxEntries (cache_exec maxOut op c) = rc_maxEntries c"
    "rc_ttlMs (cache_exec maxOut op c) = rc_ttlMs c" by auto
qed

lemma cache_run_inv: "cache_inv c \<Longrightarrow> 0 \<le> rc_maxBytes c \<Longrightarrow> 0 \<le> rc_maxEntries c \<Longrightarrow> cache_inv (cache_run maxOut ops c)"
proof (induction ops arbitrary: c)
  case (Cons op ops)
  then have "cache_inv (cache_exec maxOut op c)" using cache_exec_inv [of c maxOut op] by auto
  with Cons show ?case by simp
qed simp

text \<open>An entry stays until it expires.\<close>

fun op_before :: "number \<Rightarrow> cache_op \<Rightarrow> bool" where
  "op_before t (Serve rid input now response) = (\<not> num_le t now)"
| "op_before t Clear = False"

lemma purge_entry:
  "distinct (keys (rc_entries c)) \<Longrightarrow> map_of (rc_entries c) rid = Some e \<Longrightarrow> \<not> num_le (ca_expires e) now \<Longrightarrow>
     map_of (rc_entries (purge now c)) rid = Some e"
  unfolding purge_def by (auto dest!: map_of_SomeD intro!: map_of_is_SomeI simp: distinct_map_filter)

lemma cache_exec_entry:
  assumes "cache_inv c" and "map_of (rc_entries c) rid = Some e" and "op_before (ca_expires e) op"
  shows "map_of (rc_entries (cache_exec maxOut op c)) rid = Some e"
proof (cases op)
  case (Serve rid' input now response)
  with assms have p: "map_of (rc_entries (purge now c)) rid = Some e"
    by (intro purge_entry) (auto simp: cache_inv_def)
  show ?thesis
  proof (cases rule: serve_state [of maxOut rid' input now response c])
    case kept
    with Serve p show ?thesis by simp
  next
    case (stored out)
    with p have "rid' \<noteq> rid" by auto
    with stored p Serve show ?thesis by (simp add: cache_store_def prog_simps)
  qed
qed (use assms in simp)

lemma cache_run_entry:
  assumes "cache_inv c" and "0 \<le> rc_maxBytes c" and "0 \<le> rc_maxEntries c"
    and "map_of (rc_entries c) rid = Some e" and "list_all (op_before (ca_expires e)) ops"
  shows "map_of (rc_entries (cache_run maxOut ops c)) rid = Some e"
  using assms
proof (induction ops arbitrary: c)
  case (Cons op ops)
  then have "cache_inv (cache_exec maxOut op c)" using cache_exec_inv [of c maxOut op] by auto
  with Cons cache_exec_entry show ?case by simp
qed simp

section \<open>Properties\<close>

lemma newRequestCache_inv: "0 \<le> n \<Longrightarrow> 0 \<le> b \<Longrightarrow> cache_inv (newRequestCache n ttl b)"
  by (simp add: newRequestCache_def cache_inv_def)

text \<open>
  The request cache is bounded: whatever requests arrive, it never holds more entries or more
  bytes than configured, and its byte counter is exactly the size of what it holds.
\<close>

theorem request_cache_bounded:
  assumes "0 < n" and "0 < b" and "c = cache_run maxOut ops (newRequestCache n ttl b)"
  shows "int (length (rc_entries c)) \<le> n \<and> rc_bytes c \<le> b
    \<and> rc_bytes c = sum_list (map (\<lambda>p. ca_bytes (snd p)) (rc_entries c))"
proof -
  have "cache_inv c"
    unfolding assms(3) using assms(1,2) by (intro cache_run_inv newRequestCache_inv) (auto simp: newRequestCache_def)
  moreover have "rc_maxEntries (cache_run maxOut ops d) = rc_maxEntries d \<and> rc_maxBytes (cache_run maxOut ops d) = rc_maxBytes d" for d
    by (induction ops arbitrary: d) auto
  ultimately show ?thesis by (simp add: cache_inv_def assms(3) newRequestCache_def)
qed

text \<open>
  A request takes effect once: after it has been answered, and until its entry expires, the same
  request is answered with the same bytes whatever the handler would return now, and another request
  under the same identifier is refused.
\<close>

theorem request_served_once:
  assumes "0 < n" and "0 < b" and c: "c = cache_run maxOut before (newRequestCache n ttl b)"
    and run: "serve maxOut rid input now (Inr out) c = (Inr out', c')"
    and fresh: "map_of (rc_entries (purge now c)) rid = None"
    and d: "d = cache_run maxOut after c'"
    and time: "list_all (op_before (num_add now (NumI ttl))) after" "\<not> num_le (num_add now (NumI ttl)) later"
  shows "fst (serve maxOut rid input later response d) = Inr out
    \<and> (other \<noteq> input \<longrightarrow> fst (serve maxOut rid other later response d) = Inl (Err ''request_conflict''))"
proof -
  let ?e = "\<lparr>ca_input = input, ca_output = out, ca_expires = num_add now (NumI ttl), ca_bytes = entry_bytes input out\<rparr>"
  have lims: "rc_maxEntries (cache_run maxOut ops x) = rc_maxEntries x \<and> rc_maxBytes (cache_run maxOut ops x) = rc_maxBytes x
      \<and> rc_ttlMs (cache_run maxOut ops x) = rc_ttlMs x" for ops x
    by (induction ops arbitrary: x) auto
  have inv: "cache_inv c" and ttl: "rc_ttlMs (purge now c) = ttl" and max: "rc_maxBytes c = b" "rc_maxEntries c = n"
    unfolding c using assms(1,2) lims
    by (auto simp: purge_def newRequestCache_def intro!: cache_run_inv newRequestCache_inv [unfolded newRequestCache_def])
  have c': "c' = cache_exec maxOut (Serve rid input now (Inr out)) c" using run by simp
  then have inv': "cache_inv c'" using cache_exec_inv [OF inv] max assms(1,2) by (metis not_less_iff_gr_or_eq)
  have max': "rc_maxBytes c' = b" "rc_maxEntries c' = n" unfolding c' by (simp_all only: cache_exec_limits max)
  have "map_of (rc_entries c') rid = Some ?e"
    using run fresh ttl by (auto simp: serve_run Let_def cache_store_def prog_simps split: if_splits)
  then have "map_of (rc_entries d) rid = Some ?e"
    unfolding d using inv' max' time(1) assms(1,2) by (intro cache_run_entry) auto
  moreover have "cache_inv d"
    unfolding d using inv' max' assms(1,2) by (intro cache_run_inv) auto
  ultimately have "map_of (rc_entries (purge later d)) rid = Some ?e"
    using time(2) by (intro purge_entry) (auto simp: cache_inv_def)
  then show ?thesis by (simp add: serve_def prog_simps cache_lookup_run)
qed

section \<open>Witnesses\<close>

definition example_served :: cache where
  "example_served = \<lparr>rc_entries = [(ustr ''r'', \<lparr>ca_input = ustr ''q'', ca_output = [1], ca_expires = NumI 1000, ca_bytes = 3\<rparr>)],
     rc_bytes = 3, rc_maxEntries = 2, rc_ttlMs = 1000, rc_maxBytes = 100\<rparr>"

lemma example_serve:
  "serve 10 (ustr ''r'') (ustr ''q'') (NumI 0) (Inr [1]) (newRequestCache 2 1000 100) = (Inr [1], example_served)"
  using to_double_int [of 1000]
  by (simp add: serve_run Let_def purge_def newRequestCache_def cache_store_def prog_simps example_served_def entry_bytes_def)

theorem request_cache_bounded_witness:
  "\<exists>c. c = cache_run 10 [Serve (ustr ''r'') (ustr ''q'') (NumI 0) (Inr [1])] (newRequestCache 2 1000 100)
     \<and> length (rc_entries c) = 1 \<and> rc_bytes c \<le> 100"
proof -
  have r: "cache_run 10 [Serve (ustr ''r'') (ustr ''q'') (NumI 0) (Inr [1])] (newRequestCache 2 1000 100) = example_served"
    using example_serve by simp
  have "rc_bytes example_served \<le> 100"
    using request_cache_bounded [of 2 100 example_served 10 _ 1000, OF _ _ r [symmetric]] by simp
  then show ?thesis by (intro exI [of _ example_served]) (use r in \<open>simp, simp add: example_served_def\<close>)
qed

theorem request_served_once_witness:
  "serve 10 (ustr ''r'') (ustr ''q'') (NumI 0) (Inr [1]) (newRequestCache 2 1000 100) = (Inr [1], example_served)
   \<and> fst (serve 10 (ustr ''r'') (ustr ''q'') (NumI 500) (Inl Foreign) example_served) = Inr [1]"
proof -
  have "num_add (NumI 0) (NumI 1000) = NumI 1000" using num_add_int [of 0 1000] by simp
  then show ?thesis
    using request_served_once [of 2 100 "newRequestCache 2 1000 100" 10 "[]" 1000 "ustr ''r''" "ustr ''q''" "NumI 0" "[1]" "[1]"
        example_served example_served "[]" "NumI 500" "Inl Foreign"] example_serve
    by (simp add: purge_def newRequestCache_def)
qed

end
