(* ===== verification/Sdp.thy ===== *)
theory Sdp
  imports JS_JSON
begin

text \<open>
  \<open>transport/sdp.ts\<close>: bounded inspection of an SDP offer. An accepted offer is reduced to the
  DataChannel message limit and the receive-only H.264 slots.
\<close>

section \<open>The inspection\<close>

record offeredVideo =
  payloadType :: number
  profileLevelId :: ustring

record offerShape =
  maxMessageBytes :: "number option"
  offer_video :: "offeredVideo list"

definition MAX_LINES :: nat where
  "MAX_LINES = 2048"

definition crlf :: ustring where
  "crlf = [13, 10]"

text \<open>\<open>(sections[sections.length - 1] ?? session).push(line)\<close>\<close>

definition push_line :: "ustring list \<times> ustring list list \<Rightarrow> ustring \<Rightarrow> ustring list \<times> ustring list list" where
  "push_line acc line =
     (let (session, sections) = acc in
      if starts_with (ustr ''m='') line then (session, sections @ [[line]])
      else if sections = [] then (session @ [line], sections)
      else (session, butlast sections @ [last sections @ [line]]))"

definition sdp_split :: "ustring \<Rightarrow> (ustring list \<times> ustring list list) result" where
  "sdp_split sdp =
     (let lines = split_on crlf sdp in
      if length lines > MAX_LINES then Inl (Err ''invalid_offer'') else Inr (foldl push_line ([], []) lines))"

text \<open>\<open>/^a=mid:\s*$/\<close>\<close>

definition empty_mid_rx :: "16 word rx" where
  "empty_mid_rx = RSeq (rlit ''a=mid:'') (RStar (RSet js_space))"

text \<open>\<open>/^a=rtpmap:(\d+) H264\/90000$/.exec(line)\<close>: the captured digits.\<close>

definition rtpmap_h264 :: "ustring \<Rightarrow> ustring option" where
  "rtpmap_h264 line =
     (let digits = takeWhile is_digit (drop (length ''a=rtpmap:'') line) in
      if digits \<noteq> [] \<and> line = ustr ''a=rtpmap:'' @ digits @ ustr '' H264/90000'' then Some digits else None)"

text \<open>\<open>/^profile-level-id=[0-9A-Fa-f]{6}$/\<close>\<close>

definition hex_cls :: "16 word \<Rightarrow> bool" where
  "hex_cls c \<longleftrightarrow> range_cls 48 57 c \<or> range_cls 65 70 c \<or> range_cls 97 102 c"

definition profile_rx :: "16 word rx" where
  "profile_rx = RSeq (rlit ''profile-level-id='') (RRep 6 6 (RSet hex_cls))"

text \<open>
  The body of the loop once an H.264 line is found; \<open>None\<close> is \<open>break\<close>.
\<close>

definition h264_slot :: "ustring list \<Rightarrow> ustring \<Rightarrow> offeredVideo option" where
  "h264_slot lines digits =
     (let pt = to_double (of_nat (read_nat digits)) in
      if num_less (NumI 127) pt then None
      else let head = ustr ''a=fmtp:'' @ ustr (num_to_string pt) @ ustr '' '' in
           case find (starts_with head) lines of
             None \<Rightarrow> None
           | Some fmtp \<Rightarrow>
               let parameters = map trim (split_on (ustr '';'') (drop (length head) fmtp)) in
               if ustr ''packetization-mode=1'' \<notin> set parameters then None
               else case find (rx_match profile_rx) parameters of
                      None \<Rightarrow> None
                    | Some profile \<Rightarrow>
                        Some \<lparr>payloadType = pt, profileLevelId = to_lower (drop (length ''profile-level-id='') profile)\<rparr>)"

definition videoSlot :: "ustring list \<Rightarrow> offeredVideo result" where
  "videoSlot lines =
     bindR (failIf (ustr ''a=recvonly'' \<notin> set lines) (Err ''invalid_video_section'')) (\<lambda>_.
     bindR (failIf (\<exists>line \<in> set lines. starts_with (ustr ''a=simulcast:'') line \<or> starts_with (ustr ''a=rid:'') line)
              (Err ''invalid_video_section'')) (\<lambda>_.
     bindR (failIf (\<exists>line \<in> set lines. rx_match empty_mid_rx line) (Err ''invalid_video_section'')) (\<lambda>_.
     case List.map_filter rtpmap_h264 lines of
       [] \<Rightarrow> Inl (Err ''unsupported_video_codec'')
     | digits # _ \<Rightarrow> (case h264_slot lines digits of
                        None \<Rightarrow> Inl (Err ''unsupported_video_codec'') | Some v \<Rightarrow> Inr v))))"

definition datachannelSection :: "ustring \<Rightarrow> bool" where
  "datachannelSection line =
     (let fields = split_on (ustr '' '') line in
      length fields = 4 \<and> fields ! 0 = ustr ''m=application''
      \<and> includes_text (ustr ''DTLS/SCTP'') (fields ! 2) \<and> fields ! 3 = ustr ''webrtc-datachannel'')"

text \<open>\<open>/^a=max-message-size:\d+$/\<close>\<close>

definition limit_rx :: "16 word rx" where
  "limit_rx = RSeq (rlit ''a=max-message-size:'') (rplus (RSet digit_cls))"

definition read_limit :: "ustring list \<Rightarrow> number option result" where
  "read_limit lines =
     (case filter (rx_match limit_rx) lines of
        [] \<Rightarrow> Inr None
      | [line] \<Rightarrow>
          (let n = to_double (of_nat (read_nat (drop (length ''a=max-message-size:'') line))) in
           if isSafeInteger n then Inr (Some n) else Inl (Err ''invalid_message_limit''))
      | _ \<Rightarrow> Inl (Err ''invalid_message_limit''))"

definition parseOffer :: "ustring \<Rightarrow> nat \<Rightarrow> offerShape result" where
  "parseOffer sdp maxVideo =
     bindR (sdp_split sdp) (\<lambda>(session, sections).
     let application = filter (\<lambda>lines. datachannelSection (lines ! 0)) sections;
         video = filter (\<lambda>lines. starts_with (ustr ''m=video '') (lines ! 0)) sections in
     bindR (failIf (length application \<noteq> 1) (Err ''datachannel_only'')) (\<lambda>_.
     bindR (failIf (length application + length video \<noteq> length sections) (Err ''datachannel_only'')) (\<lambda>_.
     bindR (failIf (length video > maxVideo)
              (Err (if maxVideo = 0 then ''datachannel_only'' else ''video_slot_limit''))) (\<lambda>_.
     bindR (read_limit (session @ application ! 0)) (\<lambda>advertised.
     bindR (mapR videoSlot video) (\<lambda>slots.
     Inr \<lparr>maxMessageBytes = advertised, offer_video = slots\<rparr>))))))"

section \<open>Splitting loses nothing\<close>

definition m_line :: "ustring \<Rightarrow> bool" where
  "m_line line \<longleftrightarrow> starts_with (ustr ''m='') line"

text \<open>A section opens with an \<open>m=\<close> line and has no other.\<close>

definition section_ok :: "ustring list \<Rightarrow> bool" where
  "section_ok sec \<longleftrightarrow> sec \<noteq> [] \<and> m_line (hd sec) \<and> \<not> list_ex m_line (tl sec)"

definition split_ok :: "ustring list \<times> ustring list list \<Rightarrow> ustring list \<Rightarrow> bool" where
  "split_ok acc lines \<longleftrightarrow>
     fst acc @ concat (snd acc) = lines \<and> \<not> list_ex m_line (fst acc) \<and> list_all section_ok (snd acc)"

lemma push_line_ok: "split_ok acc lines \<Longrightarrow> split_ok (push_line acc line) (lines @ [line])"
proof -
  assume ok: "split_ok acc lines"
  obtain session sections where acc: "acc = (session, sections)" by fastforce
  show ?thesis
  proof (cases sections rule: rev_cases)
    case Nil
    with ok acc show ?thesis
      by (auto simp: split_ok_def push_line_def section_ok_def m_line_def)
  next
    case (snoc secs sec)
    with ok acc show ?thesis
      by (cases sec) (auto simp: split_ok_def push_line_def section_ok_def m_line_def)
  qed
qed

lemma foldl_push_line_ok: "split_ok acc done \<Longrightarrow> split_ok (foldl push_line acc lines) (done @ lines)"
proof (induction lines arbitrary: acc "done")
  case (Cons line lines)
  then show ?case using push_line_ok [of acc "done" line] Cons.IH [of "push_line acc line" "done @ [line]"] by simp
qed simp

lemma sdp_split_ok:
  "sdp_split sdp = Inr acc \<Longrightarrow> split_ok acc (split_on crlf sdp) \<and> length (split_on crlf sdp) \<le> MAX_LINES"
  using foldl_push_line_ok [of "([], [])" "[]" "split_on crlf sdp"]
  by (auto simp: sdp_split_def Let_def split_ok_def split: if_splits)

section \<open>What is accepted\<close>

lemma datachannelSection_not_video:
  assumes "datachannelSection line"
  shows "\<not> starts_with (ustr ''m=video '') line"
proof -
  define fields where "fields = split_on (ustr '' '') line"
  have f: "length fields = 4" "fields ! 0 = ustr ''m=application''"
    using assms by (auto simp: datachannelSection_def Let_def fields_def)
  then obtain r where "fields = ustr ''m=application'' # r" by (cases fields) auto
  moreover have "r \<noteq> []" using f calculation by auto
  moreover have "line = join (ustr '' '') fields" by (simp add: fields_def join_split_on ustr_Cons)
  ultimately have "line = ustr ''m=application'' @ ustr '' '' @ join (ustr '' '') r" by (metis join_Cons)
  then show ?thesis by (auto simp: starts_with_def ustr_Cons)
qed

lemma filter_split_one:
  assumes "length (filter P xs) = 1" and "length (filter P xs) + length (filter Q xs) = length xs"
    and dis: "\<And>x. P x \<Longrightarrow> \<not> Q x"
  shows "\<exists>ys x zs. xs = ys @ x # zs \<and> P x \<and> filter P xs = [x] \<and> filter Q xs = ys @ zs
    \<and> (\<forall>y \<in> set (ys @ zs). Q y)"
proof -
  have "length (filter (\<lambda>x. \<not> P x) xs) = length (filter Q xs)"
    using assms(2) sum_length_filter_compl [of P xs] by simp
  moreover have "filter Q (filter (\<lambda>x. \<not> P x) xs) = filter Q xs"
    using dis by (auto intro: filter_cong)
  ultimately have all: "\<forall>x \<in> set xs. \<not> P x \<longrightarrow> Q x"
    by (metis (mono_tags, lifting) filter_id_conv length_filter_less mem_Collect_eq nat_less_le set_filter)
  obtain x where x: "filter P xs = [x]" using assms(1) by (auto simp: length_Suc_conv)
  then obtain ys zs where yz: "xs = ys @ x # zs" "P x" "\<forall>y \<in> set ys. \<not> P y" "filter P zs = []"
    by (metis filter_eq_Cons_iff)
  then have q: "\<forall>y \<in> set (ys @ zs). Q y" using all by (auto simp: filter_empty_conv)
  then have "filter Q xs = ys @ zs" using yz dis by auto
  with x yz q show ?thesis by blast
qed

lemma to_double_nat_bound:
  assumes "\<not> num_less (NumI 127) (to_double (of_nat n))"
  shows "n \<le> 127 \<and> to_double (of_nat n) = NumI (int n)"
proof -
  have "n \<le> 127"
  proof (rule ccontr)
    assume "\<not> n \<le> 127"
    then have "num_le (to_double (of_int 128)) (to_double (of_nat n))" by (intro to_double_mono) simp
    moreover have "to_double (of_int 128) = NumI 128" by (intro to_double_int) simp
    ultimately have "num_le (NumI 128) (to_double (of_nat n))" by (simp only:)
    moreover have "num_less (NumI 127) (NumI 128)" by simp
    ultimately show False using assms num_less_le_trans by blast
  qed
  then show ?thesis using to_double_int [of "int n"] by simp
qed

definition lower_hex :: "16 word \<Rightarrow> bool" where
  "lower_hex c \<longleftrightarrow> range_cls 48 57 c \<or> range_cls 97 102 c"

lemma lower_unit_hex: "hex_cls c \<Longrightarrow> lower_hex (lower_unit c)"
  by (auto simp: hex_cls_def lower_hex_def lower_unit_def range_cls_def unat_word_ariths)

text \<open>A slot the bridge can serve.\<close>

definition slot_ok :: "offeredVideo \<Rightarrow> bool" where
  "slot_ok v \<longleftrightarrow>
     (\<exists>i. 0 \<le> i \<and> i \<le> 127 \<and> payloadType v = NumI i)
     \<and> length (profileLevelId v) = 6 \<and> list_all lower_hex (profileLevelId v)"

lemma profile_rx_iff: "rx_match profile_rx p \<longleftrightarrow> (\<exists>y. p = ustr ''profile-level-id='' @ y \<and> length y = 6 \<and> list_all hex_cls y)"
  by (auto simp: rx_match_iff profile_rx_def match_seq rx_simps)

lemma h264_slot_ok:
  assumes "h264_slot lines digits = Some v"
  shows "slot_ok v"
proof -
  define pt where "pt = to_double (of_nat (read_nat digits))"
  from assms obtain profile ps where pt: "\<not> num_less (NumI 127) pt" and f: "find (rx_match profile_rx) ps = Some profile"
    and v: "v = \<lparr>payloadType = pt, profileLevelId = to_lower (drop (length ''profile-level-id='') profile)\<rparr>"
    by (auto simp: h264_slot_def Let_def simp flip: pt_def split: if_splits option.splits)
  from f have "rx_match profile_rx profile" by (auto simp: find_Some_iff)
  then obtain y where y: "profile = ustr ''profile-level-id='' @ y" "length y = 6" "list_all hex_cls y"
    by (auto simp: profile_rx_iff)
  have "0 \<le> int (read_nat digits) \<and> int (read_nat digits) \<le> 127 \<and> pt = NumI (int (read_nat digits))"
    using pt to_double_nat_bound [of "read_nat digits"] by (simp add: pt_def)
  then have "\<exists>i. 0 \<le> i \<and> i \<le> 127 \<and> pt = NumI i" by blast
  with v y show ?thesis by (simp add: slot_ok_def to_lower_def list_all_iff lower_unit_hex)
qed

lemma videoSlot_Inr:
  "videoSlot lines = Inr v \<Longrightarrow>
     ustr ''a=recvonly'' \<in> set lines
     \<and> (\<forall>line \<in> set lines. \<not> starts_with (ustr ''a=simulcast:'') line \<and> \<not> starts_with (ustr ''a=rid:'') line)
     \<and> slot_ok v"
  by (auto simp: videoSlot_def split: list.splits option.splits dest: h264_slot_ok)

lemma read_limit_Inr: "read_limit lines = Inr (Some n) \<Longrightarrow> \<exists>i. 0 \<le> i \<and> i \<le> MAX_SAFE_INTEGER \<and> n = NumI i"
proof -
  assume "read_limit lines = Inr (Some n)"
  then obtain m where n: "n = to_double (of_nat m)" and s: "isSafeInteger n"
    by (auto simp: read_limit_def Let_def split: list.splits if_splits)
  have "num_le (to_double (of_int 0)) n" unfolding n by (intro to_double_mono) simp
  then have "num_le (NumI 0) n" using to_double_int [of 0] by simp
  with s show ?thesis by (auto simp: isSafeInteger_iff)
qed

section \<open>Properties\<close>

text \<open>
  C29: An accepted offer has at most 2048 lines, which are its session lines followed by its
  sections. Exactly one section is the DataChannel section; every other section is a receive-only
  video section without simulcast or RID, and there are no more of them than the deployment
  accepts. The answer describes one slot per video section with a seven-bit payload type and a
  lower-case six-digit profile, and the message limit is read from the session and DataChannel
  lines alone, so that nothing in a video section can change it.
\<close>

theorem offer_sound:
  assumes "parseOffer sdp maxVideo = Inr shape"
  shows "length (split_on crlf sdp) \<le> 2048 \<and>
    (\<exists>session pre app post.
       split_on crlf sdp = session @ concat pre @ app @ concat post
       \<and> \<not> list_ex m_line session \<and> list_all section_ok (pre @ app # post)
       \<and> datachannelSection (hd app)
       \<and> (\<forall>sec \<in> set (pre @ post). starts_with (ustr ''m=video '') (hd sec) \<and> ustr ''a=recvonly'' \<in> set sec
            \<and> (\<forall>line \<in> set sec. \<not> starts_with (ustr ''a=simulcast:'') line \<and> \<not> starts_with (ustr ''a=rid:'') line))
       \<and> list_all2 (\<lambda>sec slot. videoSlot sec = Inr slot) (pre @ post) (offer_video shape)
       \<and> length (offer_video shape) \<le> maxVideo \<and> list_all slot_ok (offer_video shape)
       \<and> read_limit (session @ app) = Inr (maxMessageBytes shape)
       \<and> (\<forall>n. maxMessageBytes shape = Some n \<longrightarrow> (\<exists>i. 0 \<le> i \<and> i \<le> MAX_SAFE_INTEGER \<and> n = NumI i)))"
proof -
  let ?P = "\<lambda>lines. datachannelSection (lines ! 0)" and ?Q = "\<lambda>lines. starts_with (ustr ''m=video '') (lines ! 0)"
  from assms obtain session sections where s: "sdp_split sdp = Inr (session, sections)"
    and one: "length (filter ?P sections) = 1" "length (filter ?P sections) + length (filter ?Q sections) = length sections"
    and max: "length (filter ?Q sections) \<le> maxVideo"
    and lim: "read_limit (session @ filter ?P sections ! 0) = Inr (maxMessageBytes shape)"
    and slots: "mapR videoSlot (filter ?Q sections) = Inr (offer_video shape)"
    by (auto simp: parseOffer_def Let_def)
  from sdp_split_ok [OF s] have ok: "session @ concat sections = split_on crlf sdp" "\<not> list_ex m_line session"
    "list_all section_ok sections" and len: "length (split_on crlf sdp) \<le> 2048"
    by (auto simp: split_ok_def MAX_LINES_def)
  obtain pre app post where x: "sections = pre @ app # post" "?P app" "filter ?P sections = [app]"
    "filter ?Q sections = pre @ post" "\<forall>y \<in> set (pre @ post). ?Q y"
    using filter_split_one [OF one datachannelSection_not_video] by auto
  have hd: "sec ! 0 = hd sec" if "sec \<in> set sections" for sec
    using ok(3) that by (auto simp: list_all_iff section_ok_def hd_conv_nth)
  have l2: "list_all2 (\<lambda>sec slot. videoSlot sec = Inr slot) (pre @ post) (offer_video shape)"
    using slots by (simp add: x(4) mapR_eq_Inr)
  have vids: "ustr ''a=recvonly'' \<in> set sec
      \<and> (\<forall>line \<in> set sec. \<not> starts_with (ustr ''a=simulcast:'') line \<and> \<not> starts_with (ustr ''a=rid:'') line)"
    if sec: "sec \<in> set (pre @ post)" for sec
  proof -
    obtain v where "videoSlot sec = Inr v"
      using l2 sec unfolding list_all2_conv_all_nth in_set_conv_nth by auto
    then show ?thesis using videoSlot_Inr by blast
  qed
  from l2 have "list_all slot_ok (offer_video shape)"
    by (auto simp: list_all2_conv_all_nth list_all_length dest!: videoSlot_Inr)
  moreover have "length (offer_video shape) \<le> maxVideo" using l2 max x(4) list_all2_lengthD by fastforce
  moreover have "\<forall>n. maxMessageBytes shape = Some n \<longrightarrow> (\<exists>i. 0 \<le> i \<and> i \<le> MAX_SAFE_INTEGER \<and> n = NumI i)"
    using lim read_limit_Inr by metis
  moreover have "datachannelSection (hd app)" using x(1,2) hd by simp
  moreover have "\<forall>sec \<in> set (pre @ post). starts_with (ustr ''m=video '') (hd sec)" using x(1,5) hd by auto
  moreover have "list_all section_ok (pre @ app # post)" using ok(3) x(1) by simp
  moreover have "split_on crlf sdp = session @ concat pre @ app @ concat post" using ok(1) x(1) by simp
  ultimately show ?thesis
    using len ok(2) lim x(3) l2 vids
    by (intro conjI exI [of _ session] exI [of _ pre] exI [of _ app] exI [of _ post]) simp_all
qed

lemma find_SomeD: "find P xs = Some x \<Longrightarrow> P x \<and> x \<in> set xs"
  by (auto simp: find_Some_iff)

text \<open>
  The slot of an accepted video section is the one of its first H.264 payload, the payload the
  sender will stamp: that line's number is the payload type, and the first format line of this
  payload type lists packetization mode 1 and the profile of the slot, each as a whole parameter.
\<close>

theorem video_slot_first_payload:
  assumes "videoSlot (pre @ line # post) = Inr v" and "rtpmap_h264 line = Some digits"
    and "\<forall>l \<in> set pre. rtpmap_h264 l = None"
  shows "payloadType v = NumI (int (read_nat digits)) \<and>
    (\<exists>fmtp p. find (starts_with (ustr (''a=fmtp:'' @ show_nat (read_nat digits) @ '' ''))) (pre @ line # post) = Some fmtp
       \<and> (let ps = map trim (split_on (ustr '';'') (drop (length (''a=fmtp:'' @ show_nat (read_nat digits) @ '' '')) fmtp))
          in ustr ''packetization-mode=1'' \<in> set ps \<and> ustr ''profile-level-id='' @ p \<in> set ps)
       \<and> profileLevelId v = to_lower p)"
proof -
  let ?ls = "pre @ line # post"
  define pt where "pt = to_double (of_nat (read_nat digits))"
  have "List.map_filter rtpmap_h264 ?ls = digits # List.map_filter rtpmap_h264 post"
    using assms(2,3) by (induction pre) (auto simp: map_filter_def)
  with assms(1) have slot: "h264_slot ?ls digits = Some v"
    by (auto simp: videoSlot_def split: option.splits)
  then have "\<not> num_less (NumI 127) pt"
    by (auto simp: h264_slot_def Let_def simp flip: pt_def split: if_splits)
  then have n: "read_nat digits \<le> 127" and pt: "pt = NumI (int (read_nat digits))"
    using to_double_nat_bound unfolding pt_def by blast+
  have "num_to_string pt = show_nat (read_nat digits)"
    unfolding pt using n num_to_string_int [of "int (read_nat digits)"]
    by (simp only: MAX_SAFE_INTEGER_def show_int_def) simp
  then have h: "ustr ''a=fmtp:'' @ ustr (num_to_string pt) @ ustr '' '' = ustr (''a=fmtp:'' @ show_nat (read_nat digits) @ '' '')"
    by (simp only: ustr_append)
  from slot obtain fmtp profile where f:
    "find (starts_with (ustr (''a=fmtp:'' @ show_nat (read_nat digits) @ '' ''))) ?ls = Some fmtp"
    "ustr ''packetization-mode=1'' \<in> set (map trim (split_on (ustr '';'') (drop (length (''a=fmtp:'' @ show_nat (read_nat digits) @ '' '')) fmtp)))"
    "find (rx_match profile_rx) (map trim (split_on (ustr '';'') (drop (length (''a=fmtp:'' @ show_nat (read_nat digits) @ '' '')) fmtp))) = Some profile"
    and v: "v = \<lparr>payloadType = pt, profileLevelId = to_lower (drop (length ''profile-level-id='') profile)\<rparr>"
    unfolding h264_slot_def Let_def pt_def [symmetric] h length_ustr
    by (auto simp del: append.simps length_append split: if_splits option.splits)
  from f(3) have "rx_match profile_rx profile"
    and mem: "profile \<in> set (map trim (split_on (ustr '';'') (drop (length (''a=fmtp:'' @ show_nat (read_nat digits) @ '' '')) fmtp)))"
    using find_SomeD [OF f(3)] by blast+
  then obtain p where "profile = ustr ''profile-level-id='' @ p" by (auto simp: profile_rx_iff)
  with f v mem pt show ?thesis
    by (intro conjI exI [of _ fmtp] exI [of _ p]) (simp_all add: Let_def)
qed

section \<open>Witnesses\<close>

lemma empty_mid_iff:
  "rx_match empty_mid_rx line \<longleftrightarrow> starts_with (ustr ''a=mid:'') line \<and> list_all js_space (drop 6 line)"
  by (auto simp: rx_match_iff empty_mid_rx_def match_seq rx_simps starts_with_iff)

definition example_dc :: "ustring list" where
  "example_dc = map ustr [''m=application 9 UDP/DTLS/SCTP webrtc-datachannel'', ''a=max-message-size:64'']"

definition example_cam :: "ustring list" where
  "example_cam = map ustr [''m=video 9 UDP/TLS/RTP/SAVPF 96'', ''a=mid:1'', ''a=recvonly'', ''a=rtpmap:96 H264/90000'',
     ''a=fmtp:96 packetization-mode=1; profile-level-id=42E01F'', ''a=max-message-size:1'']"

definition example_offer :: ustring where
  "example_offer = join crlf (ustr ''v=0'' # example_dc @ example_cam)"

lemma example_split: "sdp_split example_offer = Inr ([ustr ''v=0''], [example_dc, example_cam])"
  by code_simp

lemma example_is_dc: "datachannelSection (example_dc ! 0) \<and> \<not> datachannelSection (example_cam ! 0)" by code_simp

lemma example_is_video: "starts_with (ustr ''m=video '') (example_cam ! 0) \<and> \<not> starts_with (ustr ''m=video '') (example_dc ! 0)" by code_simp

lemma example_limits: "filter (rx_match limit_rx) (ustr ''v=0'' # example_dc) = [ustr ''a=max-message-size:64'']" by code_simp

lemma example_recvonly: "ustr ''a=recvonly'' \<in> set example_cam" by code_simp

lemma example_plain: "\<not> (\<exists>line \<in> set example_cam. starts_with (ustr ''a=simulcast:'') line \<or> starts_with (ustr ''a=rid:'') line)" by code_simp

lemma example_mid: "\<not> (\<exists>line \<in> set example_cam. rx_match empty_mid_rx line)" unfolding empty_mid_iff by code_simp

lemma example_rtpmap: "List.map_filter rtpmap_h264 example_cam = [ustr ''96'']" by code_simp

lemma example_find: "find (starts_with (ustr ''a=fmtp:96 '')) example_cam = Some (ustr ''a=fmtp:96 packetization-mode=1; profile-level-id=42E01F'')"
  by code_simp

lemma example_params: "map trim (split_on (ustr '';'') (drop 10 (ustr ''a=fmtp:96 packetization-mode=1; profile-level-id=42E01F'')))
   = [ustr ''packetization-mode=1'', ustr ''profile-level-id=42E01F'']"
  by code_simp

lemma num_96: "to_double (of_nat (read_nat (ustr ''96''))) = NumI 96" "num_to_string (NumI 96) = ''96''"
proof -
  have r: "read_nat (ustr ''96'') = 96" by code_simp
  show "to_double (of_nat (read_nat (ustr ''96''))) = NumI 96" unfolding r using to_double_int [of 96] by simp
  have "num_to_string (NumI 96) = show_int 96" by (rule num_to_string_int) (simp add: MAX_SAFE_INTEGER_def)
  moreover have "show_int 96 = ''96''" by code_simp
  ultimately show "num_to_string (NumI 96) = ''96''" by simp
qed

lemma num_64: "to_double (of_nat (read_nat (drop (length ''a=max-message-size:'') (ustr ''a=max-message-size:64'')))) = NumI 64"
proof -
  have "ustr ''a=max-message-size:64'' = ustr ''a=max-message-size:'' @ ustr (show_nat 64)" by code_simp
  then show ?thesis using to_double_int [of 64] by simp
qed

lemma example_slot: "h264_slot example_cam (ustr ''96'') = Some \<lparr>payloadType = NumI 96, profileLevelId = ustr ''42e01f''\<rparr>"
proof -
  have h: "ustr ''a=fmtp:'' @ ustr ''96'' @ ustr '' '' = ustr ''a=fmtp:96 ''" by (simp add: ustr_def)
  have m: "rx_match profile_rx (ustr ''profile-level-id=42E01F'')" "\<not> rx_match profile_rx (ustr ''packetization-mode=1'')"
    by code_simp+
  have l: "to_lower (drop (length ''profile-level-id='') (ustr ''profile-level-id=42E01F'')) = ustr ''42e01f''" by code_simp
  have p: "find (rx_match profile_rx) [ustr ''packetization-mode=1'', ustr ''profile-level-id=42E01F''] = Some (ustr ''profile-level-id=42E01F'')"
    using m by simp
  have le: "length (ustr ''a=fmtp:96 '') = 10" by simp
  show ?thesis
    unfolding h264_slot_def Let_def num_96 h example_find option.case le example_params p l by simp
qed

lemma example_limit: "read_limit ([ustr ''v=0''] @ example_dc) = Inr (Some (NumI 64))"
proof -
  have "isSafeInteger (NumI 64)" by (simp add: MAX_SAFE_INTEGER_def)
  then show ?thesis unfolding read_limit_def append_Cons append_Nil example_limits Let_def list.case num_64 by simp
qed

lemma example_cam_slot: "videoSlot example_cam = Inr \<lparr>payloadType = NumI 96, profileLevelId = ustr ''42e01f''\<rparr>"
  unfolding videoSlot_def example_rtpmap using example_recvonly example_plain example_mid example_slot by (simp add: failIf_def)

lemma example_parse:
  "parseOffer example_offer 1 =
     Inr \<lparr>maxMessageBytes = Some (NumI 64), offer_video = [\<lparr>payloadType = NumI 96, profileLevelId = ustr ''42e01f''\<rparr>]\<rparr>"
proof -
  show ?thesis
    using example_cam_slot example_is_dc example_is_video example_limit unfolding parseOffer_def example_split by (simp add: failIf_def)
qed

theorem offer_sound_witness:
  "\<exists>shape. parseOffer example_offer 1 = Inr shape \<and> maxMessageBytes shape = Some (NumI 64)
     \<and> length (offer_video shape) = 1 \<and> list_all slot_ok (offer_video shape)"
  using offer_sound [OF example_parse] example_parse by auto

theorem video_slot_first_payload_witness:
  "\<exists>v. videoSlot example_cam = Inr v \<and> payloadType v = NumI (int (read_nat (ustr ''96'')))"
proof -
  have "example_cam = take 3 example_cam @ ustr ''a=rtpmap:96 H264/90000'' # drop 4 example_cam"
    by (simp add: example_cam_def)
  moreover have "rtpmap_h264 (ustr ''a=rtpmap:96 H264/90000'') = Some (ustr ''96'')" by code_simp
  moreover have "\<forall>l \<in> set (take 3 example_cam). rtpmap_h264 l = None" by code_simp
  ultimately show ?thesis using video_slot_first_payload example_cam_slot by metis
qed

end
