(* ===== verification/Media_Worker.thy ===== *)
theory Media_Worker
  imports JS_JSON Config_Video
begin

text \<open>
  \<open>media/worker.ts\<close>: one encoder per worker process. The readers that cut the byte streams of a
  worker into control lines and RTP packets, the supervision of a process (settle once, report a
  failure after settling, ignore everything after a stop), and the control messages.
\<close>

section \<open>Readers\<close>

definition MAX_LINE_BYTES :: nat where
  "MAX_LINE_BYTES = 8192"

definition MIN_PACKET_BYTES :: nat where
  "MIN_PACKET_BYTES = 12"

definition MAX_PACKET_BYTES :: nat where
  "MAX_PACKET_BYTES = 1500"

text \<open>
  One call of the feed function: \<open>p\<close> is the pending buffer with the chunk appended. The result is
  how the call ends, the buffer it leaves and the state the callbacks leave.
\<close>

type_synonym 's reader = "bytes \<Rightarrow> 's \<Rightarrow> unit result \<times> bytes \<times> 's"

text \<open>Cut off the first line; the terminator is dropped.\<close>

definition first_line :: "bytes \<Rightarrow> bytes" where
  "first_line p = takeWhile (\<lambda>b. b \<noteq> 10) p"

function read_lines :: "(ustring \<Rightarrow> ('s, unit) prog) \<Rightarrow> 's reader" where
  "read_lines onLine p s =
     (if 10 \<notin> set p then
        (if length p > MAX_LINE_BYTES then Inl (Err ''worker control line exceeded its limit'') else Inr (), p, s)
      else let line = first_line p; rest = drop (Suc (length line)) p in
           case (if line = [] then (Inr (), s) else onLine (utf8_lossy line) s) of
             (Inl e, s') \<Rightarrow> (Inl e, rest, s')
           | (Inr _, s') \<Rightarrow> read_lines onLine rest s')"
  by pat_completeness auto

termination
proof (relation "measure (\<lambda>(onLine, p, s). length p)")
  fix p :: bytes and rest line
  assume "\<not> 10 \<notin> set p" and "line = first_line p" and "rest = drop (Suc (length line)) p"
  then show "((onLine, rest, t), (onLine, p, s)) \<in> measure (\<lambda>(onLine, p, s). length p)" for onLine s t
    by (cases p) auto
qed simp

definition be16 :: "bytes \<Rightarrow> nat" where
  "be16 p = unat (p ! 0) * 256 + unat (p ! 1)"

function read_frames :: "(bytes \<Rightarrow> ('s, unit) prog) \<Rightarrow> 's reader" where
  "read_frames onPacket p s =
     (if length p < 2 then (Inr (), p, s)
      else let n = be16 p in
           if n < MIN_PACKET_BYTES \<or> n > MAX_PACKET_BYTES
           then (Inl (Err ''worker sent an out-of-range RTP length''), p, s)
           else if length p < 2 + n then (Inr (), p, s)
           else case onPacket (take n (drop 2 p)) s of
                  (Inl e, s') \<Rightarrow> (Inl e, p, s')
                | (Inr _, s') \<Rightarrow> read_frames onPacket (drop (2 + n) p) s')"
  by pat_completeness auto

termination
  by (relation "measure (\<lambda>(onPacket, p, s). length p)") auto

declare read_lines.simps [simp del] read_frames.simps [simp del]

section \<open>Chunks\<close>

text \<open>
  The stream arrives in chunks: each is appended to what the previous calls left, and the first
  error ends the stream.
\<close>

fun feed :: "'s reader \<Rightarrow> bytes \<Rightarrow> bytes list \<Rightarrow> 's \<Rightarrow> unit result \<times> bytes \<times> 's" where
  "feed rd p [] s = (Inr (), p, s)"
| "feed rd p (c # cs) s =
     (case rd (p @ c) s of
        (Inl e, p', s') \<Rightarrow> (Inl e, p', s')
      | (Inr _, p', s') \<Rightarrow> feed rd p' cs s')"

text \<open>
  What a reader promises: bytes that arrive after a call that succeeded could as well have arrived
  with it.
\<close>

locale stream_reader =
  fixes rd :: "'s reader"
  assumes read_more: "rd p s = (Inr (), p', s') \<Longrightarrow> rd (p @ c) s = rd (p' @ c) s'"
begin

lemma feed_whole:
  "rd p s = (Inr (), p, s) \<Longrightarrow> feed rd p cs s = (Inr (), p', s') \<Longrightarrow> rd (p @ concat cs) s = (Inr (), p', s')"
proof (induction cs arbitrary: p s)
  case (Cons c cs)
  obtain q t where q: "rd (p @ c) s = (Inr (), q, t)" "feed rd q cs t = (Inr (), p', s')"
    using Cons.prems(2) by (auto split: sum.splits prod.splits)
  have "rd q t = (Inr (), q, t)" using read_more [OF q(1), of "[]"] q(1) by simp
  then show ?case using Cons.IH q read_more [OF q(1), of "concat cs"] by simp
qed simp

end

text \<open>A reader whose errors do not depend on how the stream was cut either.\<close>

locale exact_reader = stream_reader +
  assumes read_error: "rd p s = (Inl e, p', s') \<Longrightarrow> rd (p @ c) s = (Inl e, p' @ c, s')"
begin

lemma feed_exact:
  assumes "rd p s = (Inr (), p, s)" and "rd (p @ concat cs) s = (r, p', s')"
  shows "\<exists>q. feed rd p cs s = (r, q, s') \<and> (r = Inr () \<longrightarrow> q = p')"
  using assms
proof (induction cs arbitrary: p s)
  case (Cons c cs)
  obtain r1 q t where q: "rd (p @ c) s = (r1, q, t)" by (metis prod_cases3)
  show ?case
  proof (cases r1)
    case (Inl e)
    then show ?thesis using q read_error [of "p @ c" s e q t "concat cs"] Cons.prems(2) by auto
  next
    case (Inr u)
    then have q': "rd (p @ c) s = (Inr (), q, t)" using q by simp
    have "rd q t = (Inr (), q, t)" using read_more [OF q', of "[]"] q' by simp
    then show ?thesis using Cons.IH [of q t] Cons.prems(2) read_more [OF q', of "concat cs"] q' by simp
  qed
qed auto

end

lemma first_line_append: "10 \<in> set p \<Longrightarrow> first_line (p @ c) = first_line p"
  by (auto simp: first_line_def takeWhile_append)

lemma first_line_length: "10 \<in> set p \<Longrightarrow> length (first_line p) < length p"
  unfolding first_line_def by (metis (mono_tags, lifting) length_takeWhile_le nat_less_le set_takeWhileD takeWhile_eq_all_conv take_all_iff takeWhile_eq_take)

interpretation line_reader: stream_reader "read_lines onLine"
proof
  fix p :: bytes and s p' s' c
  show "read_lines onLine p s = (Inr (), p', s') \<Longrightarrow> read_lines onLine (p @ c) s = read_lines onLine (p' @ c) s'"
  proof (induction onLine p s rule: read_lines.induct)
    case (1 onLine p s)
    show ?case
    proof (cases "10 \<in> set p")
      case False
      with 1(2) show ?thesis by (simp add: read_lines.simps [of onLine p] split: if_splits)
    next
      case True
      define rest where "rest = drop (Suc (length (first_line p))) p"
      have rest: "drop (Suc (length (first_line p))) (p @ c) = rest @ c"
        using first_line_length [OF True] by (simp add: rest_def)
      obtain t where step: "(if first_line p = [] then (Inr (), s) else onLine (utf8_lossy (first_line p)) s) = (Inr (), t)"
        and go: "read_lines onLine rest t = (Inr (), p', s')"
        using 1(2) True by (subst (asm) read_lines.simps) (auto simp: Let_def rest_def split: prod.splits sum.splits if_splits)
      have "read_lines onLine (p @ c) s = read_lines onLine (rest @ c) t"
        using True step by (subst read_lines.simps) (simp add: Let_def rest first_line_append [OF True] del: drop_append)
      also have "\<dots> = read_lines onLine (p' @ c) s'"
        by (rule 1(1) [OF _ refl rest_def]) (use True step go in simp_all)
      finally show ?thesis .
    qed
  qed
qed

lemma be16_append [simp]: "2 \<le> length p \<Longrightarrow> be16 (p @ c) = be16 p"
  by (cases p) (auto simp: be16_def nth_append)

interpretation frame_reader: exact_reader "read_frames onPacket"
proof
  fix p :: bytes and s p' s' c
  show "read_frames onPacket p s = (Inr (), p', s') \<Longrightarrow> read_frames onPacket (p @ c) s = read_frames onPacket (p' @ c) s'"
  proof (induction onPacket p s rule: read_frames.induct)
    case (1 onPacket p s)
    show ?case
    proof (cases "length p < 2 \<or> length p < 2 + be16 p")
      case True
      with 1(2) show ?thesis by (subst (asm) read_frames.simps) (auto simp: Let_def split: if_splits)
    next
      case False
      obtain t where step: "onPacket (take (be16 p) (drop 2 p)) s = (Inr (), t)" and rng: "12 \<le> be16 p" "be16 p \<le> 1500"
        and go: "read_frames onPacket (drop (2 + be16 p) p) t = (Inr (), p', s')"
        using 1(2) False
        by (subst (asm) read_frames.simps)
          (auto simp: Let_def MIN_PACKET_BYTES_def MAX_PACKET_BYTES_def split: prod.splits sum.splits if_splits)
      have "read_frames onPacket (p @ c) s = read_frames onPacket (drop (2 + be16 p) p @ c) t"
        using False step rng by (subst read_frames.simps) (simp add: Let_def MIN_PACKET_BYTES_def MAX_PACKET_BYTES_def)
      also have "\<dots> = read_frames onPacket (p' @ c) s'"
        by (rule 1(1) [OF _ refl]) (use False step rng go in \<open>simp_all add: MIN_PACKET_BYTES_def MAX_PACKET_BYTES_def\<close>)
      finally show ?thesis .
    qed
  qed
next
  fix p :: bytes and s e p' s' c
  show "read_frames onPacket p s = (Inl e, p', s') \<Longrightarrow> read_frames onPacket (p @ c) s = (Inl e, p' @ c, s')"
  proof (induction onPacket p s rule: read_frames.induct)
    case (1 onPacket p s)
    then have len: "2 \<le> length p" by (subst (asm) (2) read_frames.simps) (auto split: if_splits)
    show ?case
    proof (cases "MIN_PACKET_BYTES \<le> be16 p \<and> be16 p \<le> MAX_PACKET_BYTES")
      case False
      then have "be16 p < MIN_PACKET_BYTES \<or> MAX_PACKET_BYTES < be16 p" by auto
      with 1(2) len show ?thesis by (simp add: read_frames.simps [of onPacket] Let_def)
    next
      case True
      then have whole: "2 + be16 p \<le> length p" using 1(2) len
        by (subst (asm) read_frames.simps) (auto simp: Let_def split: if_splits)
      show ?thesis
      proof (cases "onPacket (take (be16 p) (drop 2 p)) s")
        case (Pair r t)
        show ?thesis
        proof (cases r)
          case (Inl e')
          with 1(2) True whole len Pair show ?thesis by (simp add: read_frames.simps [of onPacket] Let_def)
        next
          case (Inr u)
          have "read_frames onPacket (drop (2 + be16 p) p) t = (Inl e, p', s')"
            using 1(2) True whole len Pair Inr by (simp add: read_frames.simps [of onPacket p] Let_def)
          then have "read_frames onPacket (drop (2 + be16 p) p @ c) t = (Inl e, p' @ c, s')"
            by (intro 1(1) [OF _ refl]) (use True whole len Pair Inr in simp_all)
          with True whole len Pair Inr show ?thesis by (simp add: read_frames.simps [of onPacket "p @ c"] Let_def)
        qed
      qed
    qed
  qed
qed

section \<open>Supervision of a worker process\<close>

definition CONTRACT_VERSION :: int where
  "CONTRACT_VERSION = 1"

text \<open>Why a promise was rejected: an error of the bridge, or the cause the worker reported.\<close>

datatype worker_failure = Reason error | Cause ustring

text \<open>
  What the supervision does to the outside, in order; the number is the process. \<open>FailedCall\<close> is the
  call of \<open>onFailed\<close>, \<open>Resolved\<close> and \<open>Rejected\<close> settle the promise of \<open>begin\<close>.
\<close>

datatype worker_out =
    Spawned nat bool
  | Sent nat ustring
  | StopSent nat ustring
  | PacketOut nat bytes
  | FailedCall nat
  | Resolved nat jsval
  | Rejected nat worker_failure

text \<open>The variables of one call of \<open>begin\<close>; \<open>pr_streaming\<close> is \<open>onPacket !== undefined\<close>, false while probing.\<close>

record worker_proc =
  pr_streaming :: bool
  pr_settled :: bool
  pr_lines :: bytes
  pr_frames :: bytes

record worker =
  wk_child :: "nat option"
  wk_stopping :: bool
  wk_procs :: "worker_proc list"
  wk_out :: "worker_out list"

definition newWorker :: worker where
  "newWorker = \<lparr>wk_child = None, wk_stopping = False, wk_procs = [], wk_out = []\<rparr>"

definition emit :: "worker_out \<Rightarrow> worker \<Rightarrow> worker" where
  "emit x w = w\<lparr>wk_out := wk_out w @ [x]\<rparr>"

definition upd_proc :: "nat \<Rightarrow> (worker_proc \<Rightarrow> worker_proc) \<Rightarrow> worker \<Rightarrow> worker" where
  "upd_proc i f w = w\<lparr>wk_procs := (wk_procs w)[i := f (wk_procs w ! i)]\<rparr>"

abbreviation proc_of :: "worker \<Rightarrow> nat \<Rightarrow> worker_proc" where
  "proc_of w i \<equiv> wk_procs w ! i"

text \<open>\<open>JSON.stringify({ v: CONTRACT_VERSION, ...fields }) + '\n'\<close>\<close>

definition control_line :: "(ustring \<times> jsval) list \<Rightarrow> ustring" where
  "control_line kvs =
     (case stringify (mk_obj ((ustr ''v'', Number (NumI CONTRACT_VERSION)) # kvs)) of
        Inr (Some t) \<Rightarrow> t @ [10] | _ \<Rightarrow> [])"

definition worker_fail :: "nat \<Rightarrow> worker_failure \<Rightarrow> worker \<Rightarrow> worker" where
  "worker_fail i err w =
     (if wk_stopping w then w
      else if pr_settled (proc_of w i) then (if pr_streaming (proc_of w i) then emit (FailedCall i) w else w)
      else emit (Rejected i err) (upd_proc i (\<lambda>p. p\<lparr>pr_settled := True\<rparr>) w))"

definition worker_resolve :: "nat \<Rightarrow> jsval \<Rightarrow> worker \<Rightarrow> worker" where
  "worker_resolve i event w =
     (if pr_settled (proc_of w i) then w
      else emit (Resolved i event) (upd_proc i (\<lambda>p. p\<lparr>pr_settled := True\<rparr>) w))"

text \<open>The callback of \<open>lines\<close>; reading a property of \<open>null\<close> throws.\<close>

definition worker_event :: "nat \<Rightarrow> ustring \<Rightarrow> (worker, unit) prog" where
  "worker_event i line =
     (case json_parse line of
        Inl _ \<Rightarrow> modE (worker_fail i (Reason (Err ''worker sent malformed control output'')))
      | Inr event \<Rightarrow>
          let op = get_prop event (ustr ''op'') in
          if event = Null then throwE (TypeErr ''Cannot read properties of null'')
          else if get_prop event (ustr ''v'') \<noteq> Number (NumI CONTRACT_VERSION)
          then modE (worker_fail i (Reason (Err ''worker speaks an unsupported contract version'')))
          else if op = Str (ustr ''failed'') \<or> op = Str (ustr ''probe_result'') \<and> get_prop event (ustr ''ok'') \<noteq> Bool True
          then modE (worker_fail i (case get_prop event (ustr ''cause'') of
                 Str c \<Rightarrow> Cause c | _ \<Rightarrow> Reason (Err ''worker reported a failure'')))
          else if op = Str (ustr ''probe_result'') \<or> op = Str (ustr ''started'')
          then modE (worker_resolve i event)
          else retE ())"

definition worker_stop :: "worker \<Rightarrow> worker" where
  "worker_stop w =
     (case wk_child w of
        None \<Rightarrow> w
      | Some c \<Rightarrow> emit (StopSent c (control_line [(ustr ''op'', Str (ustr ''shutdown''))]))
                   (w\<lparr>wk_child := None, wk_stopping := True\<rparr>))"

text \<open>\<open>probe\<close> awaits \<open>begin\<close> and then stops: what follows the handler in which the promise settled.\<close>

definition settle_probe :: "nat \<Rightarrow> worker \<Rightarrow> worker \<Rightarrow> worker" where
  "settle_probe i before w =
     (if \<not> pr_streaming (proc_of w i) \<and> \<not> pr_settled (proc_of before i) \<and> pr_settled (proc_of w i)
      then worker_stop w else w)"

definition onOutput :: "nat \<Rightarrow> bytes \<Rightarrow> worker \<Rightarrow> worker" where
  "onOutput i chunk w =
     (case read_lines (worker_event i) (pr_lines (proc_of w i) @ chunk) w of
        (r, pending, w1) \<Rightarrow>
          let w2 = upd_proc i (\<lambda>p. p\<lparr>pr_lines := pending\<rparr>) w1;
              w3 = (case r of Inl e \<Rightarrow> worker_fail i (Reason e) w2 | Inr _ \<Rightarrow> w2)
          in settle_probe i w w3)"

definition onRtp :: "nat \<Rightarrow> bytes \<Rightarrow> worker \<Rightarrow> worker" where
  "onRtp i chunk w =
     (if \<not> pr_streaming (proc_of w i) then w
      else case read_frames (\<lambda>p. modE (emit (PacketOut i p))) (pr_frames (proc_of w i) @ chunk) w of
             (r, pending, w1) \<Rightarrow>
               let w2 = upd_proc i (\<lambda>p. p\<lparr>pr_frames := pending\<rparr>) w1
               in case r of Inl e \<Rightarrow> worker_fail i (Reason e) w2 | Inr _ \<Rightarrow> w2)"

definition onExit :: "nat \<Rightarrow> worker \<Rightarrow> worker" where
  "onExit i w = settle_probe i w (worker_fail i (Reason (Err ''worker exited before it was asked to stop'')) w)"

definition worker_begin :: "(ustring \<times> jsval) list \<Rightarrow> bool \<Rightarrow> worker \<Rightarrow> worker" where
  "worker_begin request streaming w =
     (let i = length (wk_procs w);
          w1 = emit (Spawned i streaming) (w\<lparr>wk_procs := wk_procs w @
                 [\<lparr>pr_streaming = streaming, pr_settled = False, pr_lines = [], pr_frames = []\<rparr>]\<rparr>);
          w2 = w1\<lparr>wk_child := Some i, wk_stopping := False\<rparr>
      in emit (Sent i (control_line request)) w2)"

fun reliability_text :: "reliability \<Rightarrow> string" where
  "reliability_text QReliable = ''reliable''"
| "reliability_text QBestEffort = ''best_effort''"

fun encoding_text :: "encoding \<Rightarrow> string" where
  "encoding_text Rgb8 = ''rgb8''" | "encoding_text Bgr8 = ''bgr8''" | "encoding_text Mono8 = ''mono8''"

fun backend_text :: "backend \<Rightarrow> string" where
  "backend_text BFixture = ''fixture''" | "backend_text BL4t = ''l4t_v4l2''" | "backend_text BOpenh264 = ''openh264''"

fun profile_text :: "profile \<Rightarrow> string" where
  "profile_text ConstrainedBaseline = ''constrained_baseline''"
| "profile_text MainProfile = ''main''"
| "profile_text HighProfile = ''high''"

definition workerSpecification :: "videoBinding \<Rightarrow> jsval" where
  "workerSpecification b =
     mk_obj ([(ustr ''ros_topic'', Str (v_rosTopic b)),
        (ustr ''ros_qos'', mk_obj [(ustr ''reliability'', Str (ustr (reliability_text (q_reliability (v_qos b))))),
           (ustr ''depth'', Number (NumI (q_depth (v_qos b))))]),
        (ustr ''input'', mk_obj [(ustr ''encoding'', Str (ustr (encoding_text (in_encoding (v_input b))))),
           (ustr ''width'', Number (NumI (in_width (v_input b)))), (ustr ''height'', Number (NumI (in_height (v_input b)))),
           (ustr ''framerate'', Number (NumI (in_framerate (v_input b))))])]
       @ (case v_output b of None \<Rightarrow> []
          | Some (w, h) \<Rightarrow> [(ustr ''output'', mk_obj [(ustr ''width'', Number (NumI w)), (ustr ''height'', Number (NumI h))])])
       @ [(ustr ''encoder'', mk_obj [(ustr ''backend'', Str (ustr (backend_text (e_backend (v_encoder b))))),
           (ustr ''bitrate'', Number (NumI (e_bitrate (v_encoder b)))),
           (ustr ''keyframe_interval'', Number (NumI (e_keyframeInterval (v_encoder b)))),
           (ustr ''profile'', Str (ustr (profile_text (e_profile (v_encoder b)))))])])"

definition worker_probe :: "videoBinding \<Rightarrow> worker \<Rightarrow> worker" where
  "worker_probe b = worker_begin [(ustr ''op'', Str (ustr ''probe'')), (ustr ''spec'', workerSpecification b)] False"

definition worker_start :: "videoBinding \<Rightarrow> worker \<Rightarrow> worker" where
  "worker_start b = worker_begin [(ustr ''op'', Str (ustr ''start'')), (ustr ''spec'', workerSpecification b)] True"

definition worker_requestKeyframe :: "worker \<Rightarrow> worker" where
  "worker_requestKeyframe w =
     (case wk_child w of
        None \<Rightarrow> w
      | Some c \<Rightarrow> emit (Sent c (control_line [(ustr ''op'', Str (ustr ''force_keyframe''))])) w)"

section \<open>Runs\<close>

text \<open>What can happen to a source and its processes, in any order; a process has to exist to speak.\<close>

datatype worker_ev =
    EvProbe videoBinding
  | EvStart videoBinding
  | EvKeyframe
  | EvStop
  | EvOutput nat bytes
  | EvRtp nat bytes
  | EvExit nat

fun begins :: "worker_ev \<Rightarrow> bool" where
  "begins (EvProbe b) = True" | "begins (EvStart b) = True" | "begins _ = False"

fun worker_step :: "worker_ev \<Rightarrow> worker \<Rightarrow> worker" where
  "worker_step (EvProbe b) w = worker_probe b w"
| "worker_step (EvStart b) w = worker_start b w"
| "worker_step EvKeyframe w = worker_requestKeyframe w"
| "worker_step EvStop w = worker_stop w"
| "worker_step (EvOutput i chunk) w = (if i < length (wk_procs w) then onOutput i chunk w else w)"
| "worker_step (EvRtp i chunk) w = (if i < length (wk_procs w) then onRtp i chunk w else w)"
| "worker_step (EvExit i) w = (if i < length (wk_procs w) then onExit i w else w)"

fun worker_run :: "worker_ev list \<Rightarrow> worker \<Rightarrow> worker" where
  "worker_run [] w = w"
| "worker_run (e # es) w = worker_run es (worker_step e w)"

lemma read_lines_keeps:
  "(\<And>l. keeps P (onLine l)) \<Longrightarrow> P s \<Longrightarrow> read_lines onLine p s = (r, p', s') \<Longrightarrow> P s'"
proof (induction onLine p s arbitrary: r p' s' rule: read_lines.induct)
  case (1 onLine p s)
  show ?case
  proof (cases "10 \<in> set p")
    case False
    with 1(3,4) show ?thesis by (subst (asm) read_lines.simps) (auto split: if_splits)
  next
    case True
    obtain x t where x: "(if first_line p = [] then (Inr (), s) else onLine (utf8_lossy (first_line p)) s) = (x, t)"
      by fastforce
    then have "P t" using 1(2,3) by (auto split: if_splits dest: keepsD)
    show ?thesis
    proof (cases x)
      case (Inl e)
      with \<open>P t\<close> x True 1(4) show ?thesis by (subst (asm) read_lines.simps) (simp add: Let_def)
    next
      case (Inr u)
      with x True 1(4) have go: "read_lines onLine (drop (Suc (length (first_line p))) p) t = (r, p', s')"
        by (subst (asm) read_lines.simps) (simp add: Let_def)
      show ?thesis
        by (rule 1(1) [OF _ refl refl x [symmetric] Inr 1(2) \<open>P t\<close> go]) (use True in simp)
    qed
  qed
qed

lemma read_frames_keeps:
  "(\<And>x. keeps P (onPacket x)) \<Longrightarrow> P s \<Longrightarrow> read_frames onPacket p s = (r, p', s') \<Longrightarrow> P s'"
proof (induction onPacket p s arbitrary: r p' s' rule: read_frames.induct)
  case (1 onPacket p s)
  show ?case
  proof (cases "length p < 2 \<or> be16 p < MIN_PACKET_BYTES \<or> be16 p > MAX_PACKET_BYTES \<or> length p < 2 + be16 p")
    case True
    with 1(3,4) show ?thesis by (subst (asm) read_frames.simps) (auto simp: Let_def split: if_splits)
  next
    case False
    obtain x t where x: "onPacket (take (be16 p) (drop 2 p)) s = (x, t)" by fastforce
    then have "P t" using 1(2,3) by (auto dest: keepsD)
    show ?thesis
    proof (cases x)
      case (Inl e)
      with \<open>P t\<close> x False 1(4) show ?thesis by (subst (asm) read_frames.simps) (simp add: Let_def)
    next
      case (Inr u)
      with x False 1(4) have go: "read_frames onPacket (drop (2 + be16 p) p) t = (r, p', s')"
        by (subst (asm) read_frames.simps) (simp add: Let_def)
      show ?thesis
        by (rule 1(1) [OF _ refl _ _ x [symmetric] Inr 1(2) \<open>P t\<close> go]) (use False in auto)
    qed
  qed
qed

text \<open>
  A predicate of the supervision's state that its primitive actions keep is kept by every handler.
\<close>

locale worker_kept =
  fixes P :: "worker \<Rightarrow> bool"
  assumes kept_fail: "P w \<Longrightarrow> i < length (wk_procs w) \<Longrightarrow> P (worker_fail i err w)"
    and kept_resolve: "P w \<Longrightarrow> i < length (wk_procs w) \<Longrightarrow> P (worker_resolve i event w)"
    and kept_packet: "P w \<Longrightarrow> P (emit (PacketOut i x) w)"
    and kept_sent: "P w \<Longrightarrow> P (emit (Sent i l) w)"
    and kept_lines: "P w \<Longrightarrow> P (upd_proc i (\<lambda>p. p\<lparr>pr_lines := b\<rparr>) w)"
    and kept_frames: "P w \<Longrightarrow> P (upd_proc i (\<lambda>p. p\<lparr>pr_frames := b\<rparr>) w)"
    and kept_stop: "P w \<Longrightarrow> P (worker_stop w)"
begin

abbreviation alive :: "nat \<Rightarrow> worker \<Rightarrow> bool" where
  "alive i w \<equiv> P w \<and> i < length (wk_procs w)"

lemma alive_fail: "alive i w \<Longrightarrow> alive i (worker_fail i err w)"
  using kept_fail by (auto simp: worker_fail_def emit_def upd_proc_def)

lemma alive_event: "keeps (alive i) (worker_event i line)"
proof -
  have "alive i w \<Longrightarrow> alive i (worker_resolve i event w)" for w event
    using kept_resolve by (auto simp: worker_resolve_def emit_def upd_proc_def)
  then show ?thesis
    using alive_fail unfolding worker_event_def
    by (auto simp: Let_def intro!: keeps_rules split: sum.split)
qed

lemma kept_settle: "P w \<Longrightarrow> P (settle_probe i w0 w)"
  by (simp add: settle_probe_def kept_stop)

lemma kept_output: "alive i w \<Longrightarrow> P (onOutput i chunk w)"
proof -
  assume w: "alive i w"
  obtain r p t where r: "read_lines (worker_event i) (pr_lines (proc_of w i) @ chunk) w = (r, p, t)"
    by (metis prod_cases3)
  have "alive i t" by (rule read_lines_keeps [OF alive_event _ r]) (rule w)
  then have "alive i (upd_proc i (\<lambda>p'. p'\<lparr>pr_lines := p\<rparr>) t)"
    using kept_lines by (auto simp: upd_proc_def)
  then show ?thesis
    using kept_settle alive_fail by (auto simp: onOutput_def r Let_def split: sum.split)
qed

lemma kept_rtp: "alive i w \<Longrightarrow> P (onRtp i chunk w)"
proof -
  assume w: "alive i w"
  obtain r p t where r: "read_frames (\<lambda>p. modE (emit (PacketOut i p))) (pr_frames (proc_of w i) @ chunk) w = (r, p, t)"
    by (metis prod_cases3)
  have "keeps (alive i) (modE (emit (PacketOut i x)))" for x
    using kept_packet by (intro keeps_rules) (auto simp: emit_def)
  then have "alive i t" by (rule read_frames_keeps [OF _ _ r]) (rule w)
  then have "alive i (upd_proc i (\<lambda>p'. p'\<lparr>pr_frames := p\<rparr>) t)"
    using kept_frames by (auto simp: upd_proc_def)
  then show ?thesis
    using w alive_fail by (auto simp: onRtp_def r Let_def split: sum.split)
qed

lemma kept_step: "P w \<Longrightarrow> \<not> begins e \<Longrightarrow> P (worker_step e w)"
  using kept_output kept_rtp kept_stop kept_settle kept_fail kept_sent
  by (cases e) (auto simp: onExit_def worker_requestKeyframe_def split: option.split)

lemma kept_run: "P w \<Longrightarrow> \<not> list_ex begins es \<Longrightarrow> P (worker_run es w)"
  by (induction es arbitrary: w) (auto intro: kept_step)

end

section \<open>Settling once\<close>

fun is_settle :: "nat \<Rightarrow> worker_out \<Rightarrow> bool" where
  "is_settle i (Resolved j v) = (i = j)"
| "is_settle i (Rejected j e) = (i = j)"
| "is_settle i _ = False"

definition settles :: "nat \<Rightarrow> worker_out list \<Rightarrow> nat" where
  "settles i out = length (filter (is_settle i) out)"

definition failures_follow :: "worker_out list \<Rightarrow> bool" where
  "failures_follow out \<longleftrightarrow> (\<forall>pre post i. out = pre @ FailedCall i # post \<longrightarrow> settles i pre = 1)"

definition settle_inv :: "worker \<Rightarrow> bool" where
  "settle_inv w \<longleftrightarrow>
     (\<forall>i. settles i (wk_out w) = (if i < length (wk_procs w) \<and> pr_settled (proc_of w i) then 1 else 0))
     \<and> failures_follow (wk_out w)"

lemma settles_snoc [simp]: "settles i (out @ [x]) = settles i out + (if is_settle i x then 1 else 0)"
  by (simp add: settles_def)

lemma failures_follow_snoc:
  "failures_follow (out @ [x]) \<longleftrightarrow> failures_follow out \<and> (\<forall>i. x = FailedCall i \<longrightarrow> settles i out = 1)"
proof
  assume f: "failures_follow (out @ [x])"
  have "settles i pre = 1" if "out = pre @ FailedCall i # post" for i pre post
    using f that unfolding failures_follow_def by (metis append.assoc append_Cons)
  then show "failures_follow out \<and> (\<forall>i. x = FailedCall i \<longrightarrow> settles i out = 1)"
    using f unfolding failures_follow_def by auto
next
  assume f: "failures_follow out \<and> (\<forall>i. x = FailedCall i \<longrightarrow> settles i out = 1)"
  have "settles i pre = 1" if "out @ [x] = pre @ FailedCall i # post" for i pre post
    using f that unfolding failures_follow_def by (cases post rule: rev_cases) auto
  then show "failures_follow (out @ [x])" unfolding failures_follow_def by blast
qed

lemma failures_follow_snoc2:
  "failures_follow (out @ [x, y]) \<longleftrightarrow> failures_follow out \<and> (\<forall>i. x = FailedCall i \<longrightarrow> settles i out = 1)
     \<and> (\<forall>i. y = FailedCall i \<longrightarrow> settles i (out @ [x]) = 1)"
  using failures_follow_snoc [of "out @ [x]" y] failures_follow_snoc [of out x] by simp

lemma settles_snoc2: "settles i (out @ [x, y]) = settles i out + (if is_settle i x then 1 else 0) + (if is_settle i y then 1 else 0)"
  by (simp add: settles_def)

lemma nth_update_keeps: "f (g (ps ! i)) = f (ps ! i) \<Longrightarrow> f (ps[i := g (ps ! i)] ! j) = f (ps ! j)"
  by (metis list_update_beyond not_le nth_list_update_eq nth_list_update_neq)

lemma settled_upd [simp]:
  "pr_settled (ps[i := (ps ! i)\<lparr>pr_lines := b\<rparr>] ! j) = pr_settled (ps ! j)"
  "pr_settled (ps[i := (ps ! i)\<lparr>pr_frames := b\<rparr>] ! j) = pr_settled (ps ! j)"
  by (rule nth_update_keeps, simp)+

interpretation settle: worker_kept settle_inv
proof
  show "settle_inv w \<Longrightarrow> i < length (wk_procs w) \<Longrightarrow> settle_inv (worker_fail i err w)" for w i err
    by (auto simp: settle_inv_def worker_fail_def emit_def upd_proc_def failures_follow_snoc nth_list_update)
  show "settle_inv w \<Longrightarrow> i < length (wk_procs w) \<Longrightarrow> settle_inv (worker_resolve i event w)" for w i event
    by (auto simp: settle_inv_def worker_resolve_def emit_def upd_proc_def failures_follow_snoc nth_list_update)
qed (auto simp: settle_inv_def emit_def upd_proc_def failures_follow_snoc nth_list_update worker_stop_def split: option.split)

lemma settle_inv_begin: "settle_inv w \<Longrightarrow> settle_inv (worker_begin request streaming w)"
  by (auto simp: settle_inv_def worker_begin_def Let_def emit_def failures_follow_snoc2 settles_snoc2 nth_append less_Suc_eq)

lemma settle_inv_step: "settle_inv w \<Longrightarrow> settle_inv (worker_step e w)"
  using settle.kept_step [of w e] settle_inv_begin
  by (cases e) (simp_all add: worker_probe_def worker_start_def)

lemma settle_inv_run: "settle_inv w \<Longrightarrow> settle_inv (worker_run es w)"
  by (induction es arbitrary: w) (auto intro: settle_inv_step)

section \<open>Silence after a stop\<close>

fun reports_failure :: "worker_out \<Rightarrow> bool" where
  "reports_failure (FailedCall i) = True"
| "reports_failure (Rejected i e) = True"
| "reports_failure _ = False"

definition quiet_since :: "worker_out list \<Rightarrow> worker \<Rightarrow> bool" where
  "quiet_since before w \<longleftrightarrow>
     wk_stopping w \<and> (\<exists>later. wk_out w = before @ later \<and> \<not> list_ex reports_failure later)"

lemma quiet_emit: "quiet_since before w \<Longrightarrow> \<not> reports_failure x \<Longrightarrow> quiet_since before (emit x w)"
  by (auto simp: quiet_since_def emit_def)

interpretation quiet: worker_kept "quiet_since before"
proof
  show "quiet_since before w \<Longrightarrow> quiet_since before (worker_resolve i event w)" for w i event
    by (auto simp: quiet_since_def worker_resolve_def upd_proc_def emit_def)
  show "quiet_since before w \<Longrightarrow> quiet_since before (worker_stop w)" for w
    by (auto simp: quiet_since_def worker_stop_def emit_def split: option.split)
qed (auto simp: quiet_since_def worker_fail_def emit_def upd_proc_def)

section \<open>The streams\<close>

text \<open>RFC 4571 framing, and the log of a callback that only records.\<close>

definition frame4571 :: "bytes \<Rightarrow> bytes" where
  "frame4571 x = [of_nat (length x div 256), of_nat (length x mod 256)] @ x"

definition packet_ok :: "bytes \<Rightarrow> bool" where
  "packet_ok x \<longleftrightarrow> MIN_PACKET_BYTES \<le> length x \<and> length x \<le> MAX_PACKET_BYTES"

definition record_item :: "'a \<Rightarrow> ('a list, unit) prog" where
  "record_item x = modE (\<lambda>seen. seen @ [x])"

lemma be16_frame: "packet_ok x \<Longrightarrow> be16 (frame4571 x @ r) = length x"
proof -
  assume "packet_ok x"
  then have "length x div 256 < 256" by (auto simp: packet_ok_def MAX_PACKET_BYTES_def)
  then have "unat (of_nat (length x div 256) :: 8 word) = length x div 256"
    "unat (of_nat (length x mod 256) :: 8 word) = length x mod 256"
    by (simp_all add: unat_of_nat)
  then show ?thesis by (simp add: be16_def frame4571_def)
qed

lemma frame4571_cut:
  assumes "2 + be16 p \<le> length p" and "be16 p \<le> MAX_PACKET_BYTES"
  shows "frame4571 (take (be16 p) (drop 2 p)) @ drop (2 + be16 p) p = p"
proof -
  from assms obtain a b r where p: "p = a # b # r" by (metis Suc_le_length_iff add_2_eq_Suc)
  then have n: "be16 p = unat a * 256 + unat b" by (simp add: be16_def)
  have "be16 p div 256 = unat a" "be16 p mod 256 = unat b"
    using unsigned_less [of b, where 'a = nat] by (simp_all add: n)
  then show ?thesis using assms(1) by (simp add: frame4571_def p n)
qed

lemma read_frames_packets:
  assumes "list_all packet_ok ps"
  shows "read_frames record_item (concat (map frame4571 ps) @ r) seen = read_frames record_item r (seen @ ps)"
  using assms
proof (induction ps arbitrary: seen)
  case (Cons x ps)
  let ?p = "frame4571 x @ concat (map frame4571 ps) @ r"
  have "be16 ?p = length x" using Cons.prems by (intro be16_frame) simp
  moreover have "length (frame4571 x) = 2 + length x" by (simp add: frame4571_def)
  ultimately have "read_frames record_item ?p seen = read_frames record_item (concat (map frame4571 ps) @ r) (seen @ [x])"
    using Cons.prems
    by (subst read_frames.simps) (simp add: Let_def packet_ok_def record_item_def prog_simps, simp add: frame4571_def)
  with Cons show ?case by simp
qed simp

lemma read_frames_sound:
  "read_frames record_item p seen = (r, p', seen') \<Longrightarrow>
     \<exists>ps. seen' = seen @ ps \<and> p = concat (map frame4571 ps) @ p' \<and> list_all packet_ok ps
       \<and> (r = Inr () \<longrightarrow> length p' < 2 + MAX_PACKET_BYTES)"
proof (induction p arbitrary: seen rule: length_induct)
  case (1 p)
  show ?case
  proof (cases "length p < 2 \<or> be16 p < MIN_PACKET_BYTES \<or> be16 p > MAX_PACKET_BYTES \<or> length p < 2 + be16 p")
    case True
    then show ?thesis using 1(2)
      by (subst (asm) read_frames.simps) (auto simp: Let_def MAX_PACKET_BYTES_def split: if_splits)
  next
    case False
    let ?x = "take (be16 p) (drop 2 p)"
    have "read_frames record_item (drop (2 + be16 p) p) (seen @ [?x]) = (r, p', seen')"
      using 1(2) False by (subst (asm) read_frames.simps) (simp add: Let_def record_item_def prog_simps)
    moreover have "length (drop (2 + be16 p) p) < length p" using False by auto
    ultimately obtain ps where ps: "seen' = (seen @ [?x]) @ ps" "drop (2 + be16 p) p = concat (map frame4571 ps) @ p'"
      "list_all packet_ok ps" "r = Inr () \<longrightarrow> length p' < 2 + MAX_PACKET_BYTES"
      using 1(1) by blast
    moreover have "packet_ok ?x" using False by (auto simp: packet_ok_def)
    moreover have "p = frame4571 ?x @ drop (2 + be16 p) p" using False frame4571_cut [of p] by simp
    ultimately show ?thesis by (intro exI [of _ "?x # ps"]) simp
  qed
qed

text \<open>The control stream as a reference definition: the lines of the whole stream and its unfinished end.\<close>

fun cut_lines :: "bytes \<Rightarrow> bytes \<Rightarrow> bytes list \<times> bytes" where
  "cut_lines acc [] = ([], acc)"
| "cut_lines acc (b # r) =
     (if b = 10 then (acc # fst (cut_lines [] r), snd (cut_lines [] r)) else cut_lines (acc @ [b]) r)"

lemma cut_lines_none: "10 \<notin> set p \<Longrightarrow> cut_lines acc p = ([], acc @ p)"
  by (induction p arbitrary: acc) auto

lemma cut_lines_first:
  "10 \<in> set p \<Longrightarrow> cut_lines acc p =
     ((acc @ first_line p) # fst (cut_lines [] (drop (Suc (length (first_line p))) p)),
      snd (cut_lines [] (drop (Suc (length (first_line p))) p)))"
  by (induction p arbitrary: acc) (auto simp: first_line_def)

lemma read_lines_reference:
  "read_lines record_item p seen = (Inr (), p', seen') \<Longrightarrow>
     seen' = seen @ map utf8_lossy (filter (\<lambda>l. l \<noteq> []) (fst (cut_lines [] p))) \<and> p' = snd (cut_lines [] p)
     \<and> length p' \<le> MAX_LINE_BYTES"
proof (induction p arbitrary: seen rule: length_induct)
  case (1 p)
  show ?case
  proof (cases "10 \<in> set p")
    case False
    then show ?thesis using 1(2) by (subst (asm) read_lines.simps) (auto simp: cut_lines_none split: if_splits)
  next
    case True
    let ?l = "first_line p" and ?rest = "drop (Suc (length (first_line p))) p"
    have "read_lines record_item ?rest (if ?l = [] then seen else seen @ [utf8_lossy ?l]) = (Inr (), p', seen')"
      using 1(2) True by (subst (asm) read_lines.simps) (auto simp: Let_def record_item_def prog_simps split: if_splits)
    moreover have "length ?rest < length p" using first_line_length [OF True] by simp
    ultimately show ?thesis using 1(1) cut_lines_first [OF True, of "[]"] by (fastforce split: if_splits)
  qed
qed

section \<open>Properties\<close>

lemma packet_ok_iff: "packet_ok x \<longleftrightarrow> 12 \<le> length x \<and> length x \<le> 1500"
  by (simp add: packet_ok_def MIN_PACKET_BYTES_def MAX_PACKET_BYTES_def)

text \<open>
  C30: The packet reader inverts RFC 4571 framing: however the framed packets are cut into chunks,
  exactly the packets are delivered, in order and without an error, and nothing is left over.
\<close>

theorem frames_roundtrip:
  assumes "\<forall>x \<in> set ps. 12 \<le> length x \<and> length x \<le> 1500" and "concat chunks = concat (map frame4571 ps)"
  shows "feed (read_frames record_item) [] chunks [] = (Inr (), [], ps)"
proof -
  have e: "read_frames record_item [] xs = (Inr (), [], xs)" for xs :: "bytes list"
    by (subst read_frames.simps) simp
  have w: "read_frames record_item ([] @ concat chunks) [] = (Inr (), [], ps)"
    using read_frames_packets [of ps "[]" "[]"] assms e by (simp add: list_all_iff packet_ok_iff)
  from frame_reader.feed_exact [OF e w] show ?thesis by auto
qed

text \<open>
  Whatever bytes arrive in whatever chunks, the packets delivered are the frames of a prefix of the
  stream, each has 12 to 1500 bytes, and as long as no error occurred the buffer is the rest of the
  stream and stays below 1502 bytes.
\<close>

theorem frames_sound:
  assumes "feed (read_frames record_item) [] chunks [] = (r, pending, ps)"
  shows "(\<forall>x \<in> set ps. 12 \<le> length x \<and> length x \<le> 1500)
    \<and> (\<exists>rest. concat chunks = concat (map frame4571 ps) @ rest \<and> (r = Inr () \<longrightarrow> pending = rest \<and> length rest < 1502))"
proof -
  have e: "read_frames record_item [] xs = (Inr (), [], xs)" for xs :: "bytes list"
    by (subst read_frames.simps) simp
  obtain r' p' ps' where w: "read_frames record_item ([] @ concat chunks) [] = (r', p', ps')" by (metis prod_cases3)
  with frame_reader.feed_exact [OF e w] assms have eq: "r' = r" "ps' = ps" "r = Inr () \<longrightarrow> pending = p'" by auto
  from read_frames_sound [OF w] have "concat chunks = concat (map frame4571 ps) @ p' \<and> list_all packet_ok ps
      \<and> (r = Inr () \<longrightarrow> length p' < 1502)"
    unfolding eq by (auto simp: MAX_PACKET_BYTES_def)
  with eq show ?thesis by (auto simp: list_all_iff packet_ok_iff)
qed

text \<open>
  C31: The control reader is equivalent to cutting the whole stream at its newlines: as long as it does
  not throw, the lines it has delivered are the non-empty lines of the stream so far, and what it
  keeps is the unfinished last line, never longer than 8192 bytes.
\<close>

theorem lines_reference:
  assumes "feed (read_lines record_item) [] chunks [] = (Inr (), pending, seen)"
  shows "seen = map utf8_lossy (filter (\<lambda>l. l \<noteq> []) (fst (cut_lines [] (concat chunks))))
    \<and> pending = snd (cut_lines [] (concat chunks)) \<and> length pending \<le> 8192"
proof -
  have e: "read_lines record_item [] xs = (Inr (), [], xs)" for xs :: "ustring list"
    by (subst read_lines.simps) simp
  from line_reader.feed_whole [OF e assms] have "read_lines record_item (concat chunks) [] = (Inr (), pending, seen)" by simp
  from read_lines_reference [OF this] show ?thesis unfolding MAX_LINE_BYTES_def append_Nil .
qed

text \<open>
  C32: The promise of every start or probe is settled at most once, and a running source reports a
  failure only after its start was settled, whatever the worker processes write or when they exit.
\<close>

theorem worker_settles_once:
  assumes "w = worker_run evs newWorker"
  shows "settles i (wk_out w) \<le> 1 \<and> (\<forall>pre post. wk_out w = pre @ FailedCall i # post \<longrightarrow> settles i pre = 1)"
proof -
  have "settle_inv newWorker" by (simp add: settle_inv_def newWorker_def settles_def failures_follow_def)
  then have "settle_inv w" unfolding assms by (rule settle_inv_run)
  then show ?thesis by (simp add: settle_inv_def failures_follow_def)
qed

text \<open>
  After a stop has been asked for, and until the next start or probe, no failure is reported and no
  promise is rejected: everything a worker writes on its way out, and its exit, is ignored.
\<close>

theorem stopped_worker_quiet:
  assumes "wk_child w0 \<noteq> None" and "\<not> list_ex begins evs" and "w = worker_run evs (worker_stop w0)"
  shows "\<exists>later. wk_out w = wk_out (worker_stop w0) @ later \<and> \<not> list_ex reports_failure later"
proof -
  have "quiet_since (wk_out (worker_stop w0)) (worker_stop w0)"
    using assms(1) by (auto simp: quiet_since_def worker_stop_def emit_def)
  then have "quiet_since (wk_out (worker_stop w0)) w"
    unfolding assms(3) by (rule quiet.kept_run) (rule assms(2))
  then show ?thesis by (simp add: quiet_since_def)
qed

section \<open>Witnesses\<close>

definition example_packet :: bytes where
  "example_packet = replicate 12 7"

theorem frames_roundtrip_witness:
  "feed (read_frames record_item) [] [[0], 12 # take 5 example_packet, drop 5 example_packet] [] = (Inr (), [], [example_packet])"
  by (rule frames_roundtrip; code_simp)

theorem frames_sound_witness:
  "\<exists>rest. concat [[0, 12], example_packet, [0]] = frame4571 example_packet @ rest \<and> length rest < 1502"
proof -
  have "feed (read_frames record_item) [] [[0, 12], example_packet, [0]] [] = (Inr (), [0], [example_packet])"
  proof -
    have e: "read_frames record_item [] [] = (Inr (), [], [] :: bytes list)" by (subst read_frames.simps) simp
    have "read_frames record_item ([] @ concat [[0, 12], example_packet, [0]]) [] = (Inr (), [0], [example_packet])"
      using read_frames_packets [of "[example_packet]" "[0]" "[]"]
      by (simp add: packet_ok_iff example_packet_def frame4571_def read_frames.simps [of _ "[0]"])
    from frame_reader.feed_exact [OF e this] show ?thesis by simp
  qed
  from frames_sound [OF this] show ?thesis by (simp only: list.map concat.simps append_Nil2) blast
qed

theorem lines_reference_witness:
  "map utf8_lossy (filter (\<lambda>l. l \<noteq> []) (fst (cut_lines [] (concat [[65], [10, 10, 66]])))) = [[65]]"
proof -
  have "feed (read_lines record_item) [] [[65], [10, 10, 66]] [] = (Inr (), [66], [[65]])"
    by (simp add: read_lines.simps first_line_def MAX_LINE_BYTES_def record_item_def prog_simps Let_def)
  from lines_reference [OF this] show ?thesis by simp
qed

definition example_track :: videoBinding where
  "example_track = \<lparr>v_name = ustr ''front'', v_rosTopic = ustr ''/camera0'', v_rosType = ustr ''sensor_msgs/msg/Image'',
     v_qos = \<lparr>q_reliability = QBestEffort, q_durability = QVolatile, q_depth = 1\<rparr>,
     v_input = \<lparr>in_encoding = Rgb8, in_width = 640, in_height = 480, in_framerate = 30\<rparr>, v_output = None,
     v_encoder = \<lparr>e_backend = BOpenh264, e_bitrate = 1000000, e_keyframeInterval = 30, e_profile = ConstrainedBaseline\<rparr>,
     v_scope = ustr ''camera''\<rparr>"

lemmas worker_eval = worker_start_def worker_begin_def newWorker_def emit_def onExit_def worker_fail_def upd_proc_def
  settle_probe_def worker_stop_def Let_def

theorem worker_settles_once_witness:
  "\<exists>w. w = worker_run [EvStart example_track, EvExit 0, EvExit 0] newWorker \<and> settles 0 (wk_out w) = 1
     \<and> (\<forall>pre post. wk_out w = pre @ FailedCall 0 # post \<longrightarrow> settles 0 pre = 1)"
proof -
  have "settles 0 (wk_out (worker_run [EvStart example_track, EvExit 0, EvExit 0] newWorker)) = 1"
    by (simp add: worker_eval settles_def)
  then show ?thesis using worker_settles_once [of _ "[EvStart example_track, EvExit 0, EvExit 0]" 0, OF refl] by blast
qed

theorem stopped_worker_quiet_witness:
  "\<exists>later. wk_out (worker_run [EvExit 0] (worker_stop (worker_start example_track newWorker)))
     = wk_out (worker_stop (worker_start example_track newWorker)) @ later \<and> \<not> list_ex reports_failure later"
  by (rule stopped_worker_quiet [OF _ _ refl]) (simp_all add: worker_eval)

end
