(* ===== verification/Media_Source.thy ===== *)
theory Media_Source
  imports Media_Worker
begin

text \<open>
  \<open>media/source.ts\<close>: one configured video source and its viewers. The encoder runs while somebody
  watches and for a grace window after; a restart waits until the previous encoder is gone.

  The asynchronous methods are cut at their \<open>await\<close>s: what follows one is a step of its own, and the
  suspended calls of \<open>begin\<close> are part of the state. Timers, promises and the encoders that exist are
  the environment's; callbacks of the viewers may make a viewer leave while it is being notified.
\<close>

section \<open>State\<close>

datatype videoState = VIdle | VStarting | VActive | VFailed

datatype timer_kind = StartDeadline | GraceWindow

text \<open>What the source does to the outside. Encoders are numbered in the order they are created.\<close>

datatype source_out =
    StateTold nat videoState
  | Wrote nat bytes
  | Created nat
  | KeyframeAsked number
  | StopAsked nat
  | ErrorReported

record videoSource =
  vs_viewers :: "nat list"
  vs_source :: "nat option"
  vs_cancelGrace :: "nat option"
  vs_cancelStart :: "nat option"
  vs_phase :: videoState
  vs_lastKeyframeAt :: number
  vs_failedAt :: number
  vs_sequence :: nat
  vs_emitted :: "32 word"
  vs_origin :: "32 word option"
  vs_shift :: "32 word"
  vs_packets :: nat
  vs_keyframeRequests :: nat
  vs_release :: "nat option"
  vs_timers :: "(nat \<times> timer_kind) list"
  vs_nextTimer :: nat
  vs_waiting :: "nat list"
  vs_created :: nat
  vs_live :: "nat list"
  vs_stops :: "nat list"
  vs_out :: "source_out list"

text \<open>
  The last seven fields are the environment: pending timers, the calls of \<open>begin\<close> suspended on the
  release of an encoder, how many encoders were created, which of them exist, which are being
  stopped, and the output.
\<close>

definition newVideoSource :: videoSource where
  "newVideoSource =
     \<lparr>vs_viewers = [], vs_source = None, vs_cancelGrace = None, vs_cancelStart = None, vs_phase = VIdle,
      vs_lastKeyframeAt = NegInfinity, vs_failedAt = NegInfinity, vs_sequence = 0, vs_emitted = 0, vs_origin = None,
      vs_shift = 0, vs_packets = 0, vs_keyframeRequests = 0, vs_release = None, vs_timers = [], vs_nextTimer = 0,
      vs_waiting = [], vs_created = 0, vs_live = [], vs_stops = [], vs_out = []\<rparr>"

text \<open>What the code reads from its options, and what the world does during one step.\<close>

record surroundings =
  su_settings :: videoSettings
  su_framerate :: int
  su_now :: number
  su_leaves :: "nat \<Rightarrow> bool"
  su_writeThrows :: "nat \<Rightarrow> bool"
  su_keyframeThrows :: bool

definition say :: "source_out \<Rightarrow> videoSource \<Rightarrow> videoSource" where
  "say x s = s\<lparr>vs_out := vs_out s @ [x]\<rparr>"

definition schedule_timer :: "timer_kind \<Rightarrow> videoSource \<Rightarrow> videoSource" where
  "schedule_timer k s = s\<lparr>vs_timers := vs_timers s @ [(vs_nextTimer s, k)], vs_nextTimer := Suc (vs_nextTimer s)\<rparr>"

text \<open>\<open>this.cancel?.()\<close>\<close>

definition cancel_timer :: "nat option \<Rightarrow> videoSource \<Rightarrow> videoSource" where
  "cancel_timer t s = (case t of None \<Rightarrow> s | Some i \<Rightarrow> s\<lparr>vs_timers := filter (\<lambda>x. fst x \<noteq> i) (vs_timers s)\<rparr>)"

section \<open>Operations\<close>

definition running :: "videoSource \<Rightarrow> bool" where
  "running s \<longleftrightarrow> vs_release s \<noteq> None \<or> (vs_phase s \<noteq> VIdle \<and> vs_phase s \<noteq> VFailed)"

record videoDiagnostics =
  vd_state :: videoState
  vd_viewers :: nat
  vd_packets :: nat
  vd_keyframeRequests :: nat

definition source_diagnostics :: "videoSource \<Rightarrow> videoDiagnostics" where
  "source_diagnostics s = \<lparr>vd_state = vs_phase s, vd_viewers = length (vs_viewers s), vd_packets = vs_packets s,
     vd_keyframeRequests = vs_keyframeRequests s\<rparr>"

definition retryable :: "surroundings \<Rightarrow> videoSource \<Rightarrow> bool" where
  "retryable su s \<longleftrightarrow> num_le (NumI (retryMinIntervalMs (su_settings su))) (num_sub (su_now su) (vs_failedAt s))"

definition source_remove :: "nat \<Rightarrow> videoSource \<Rightarrow> videoSource" where
  "source_remove v s =
     (let known = v \<in> set (vs_viewers s); s1 = s\<lparr>vs_viewers := filter (\<lambda>x. x \<noteq> v) (vs_viewers s)\<rparr> in
      if \<not> known \<or> vs_viewers s1 \<noteq> [] \<or> vs_phase s1 = VIdle then s1
      else (schedule_timer GraceWindow s1)\<lparr>vs_cancelGrace := Some (vs_nextTimer s1)\<rparr>)"

text \<open>
  \<open>viewer.state(phase)\<close>: a viewer may detach in response. The viewers of this bridge have let go of
  the source before they react to a failure, so they do not detach then.
\<close>

definition tell :: "surroundings \<Rightarrow> nat \<Rightarrow> videoSource \<Rightarrow> videoSource" where
  "tell su v s =
     (let s1 = say (StateTold v (vs_phase s)) s in
      if su_leaves su v \<and> vs_phase s \<noteq> VFailed then source_remove v s1 else s1)"

definition source_notify :: "surroundings \<Rightarrow> videoSource \<Rightarrow> videoSource" where
  "source_notify su s = fold (tell su) (vs_viewers s) s"

definition source_requestKeyframe :: "surroundings \<Rightarrow> videoSource \<Rightarrow> videoSource" where
  "source_requestKeyframe su s =
     (if num_less (num_sub (su_now su) (vs_lastKeyframeAt s)) (NumI (pliMinIntervalMs (su_settings su))) then s
      else let s1 = say (KeyframeAsked (su_now su))
                      (s\<lparr>vs_lastKeyframeAt := su_now su, vs_keyframeRequests := Suc (vs_keyframeRequests s)\<rparr>)
           in if vs_source s \<noteq> None \<and> su_keyframeThrows su then say ErrorReported s1 else s1)"

text \<open>\<open>finish\<close> up to its \<open>await\<close>.\<close>

definition source_finish :: "surroundings \<Rightarrow> videoState \<Rightarrow> videoSource \<Rightarrow> videoSource" where
  "source_finish su ph s0 =
     (let s1 = (cancel_timer (vs_cancelStart s0) s0)\<lparr>vs_cancelStart := None\<rparr>;
          s2 = (cancel_timer (vs_cancelGrace s1) s1)\<lparr>vs_cancelGrace := None\<rparr>;
          s3 = s2\<lparr>vs_source := None, vs_phase := ph\<rparr>;
          s4 = (if ph = VFailed then s3\<lparr>vs_failedAt := su_now su\<rparr> else s3);
          s5 = source_notify su s4;
          s6 = (if ph = VFailed then s5\<lparr>vs_viewers := []\<rparr> else s5)
      in case vs_source s0 of
           None \<Rightarrow> s6
         | Some e \<Rightarrow> say (StopAsked e) (s6\<lparr>vs_release := Some e, vs_stops := vs_stops s6 @ [e]\<rparr>))"

text \<open>\<open>begin\<close> after its first \<open>await\<close>.\<close>

definition begin_create :: "videoSource \<Rightarrow> videoSource" where
  "begin_create s =
     (if vs_phase s \<noteq> VStarting \<or> vs_viewers s = [] then s
      else let e = vs_created s in
           say (Created e) (s\<lparr>vs_origin := None, vs_source := Some e, vs_created := Suc e, vs_live := vs_live s @ [e]\<rparr>))"

definition source_begin :: "surroundings \<Rightarrow> videoSource \<Rightarrow> videoSource" where
  "source_begin su s =
     (let s1 = source_notify su (s\<lparr>vs_phase := VStarting\<rparr>);
          s2 = (schedule_timer StartDeadline s1)\<lparr>vs_cancelStart := Some (vs_nextTimer s1)\<rparr>
      in case vs_release s2 of
           Some e \<Rightarrow> s2\<lparr>vs_waiting := vs_waiting s2 @ [e]\<rparr>
         | None \<Rightarrow> begin_create s2)"

definition source_add :: "surroundings \<Rightarrow> nat \<Rightarrow> videoSource \<Rightarrow> videoSource" where
  "source_add su v s =
     (let s1 = (if v \<in> set (vs_viewers s) then s else s\<lparr>vs_viewers := vs_viewers s @ [v]\<rparr>);
          s2 = (cancel_timer (vs_cancelGrace s1) s1)\<lparr>vs_cancelGrace := None\<rparr>
      in if vs_phase s2 = VIdle \<or> vs_phase s2 = VFailed then source_begin su s2
         else tell su v (if vs_phase s2 = VActive then source_requestKeyframe su s2 else s2))"

definition source_close :: "surroundings \<Rightarrow> videoSource \<Rightarrow> videoSource" where
  "source_close su s = source_finish su VIdle (s\<lparr>vs_viewers := []\<rparr>)"

subsection \<open>Packets\<close>

definition SOURCE_CLOCK_HZ :: int where
  "SOURCE_CLOCK_HZ = 90000"

text \<open>\<open>Math.round\<close>: ties go up.\<close>

fun math_round :: "number \<Rightarrow> number" where
  "math_round (Num x) = NumI \<lfloor>x + 1 / 2\<rfloor>"
| "math_round n = n"

definition get16 :: "nat \<Rightarrow> bytes \<Rightarrow> nat" where
  "get16 k p = unat (p ! k) * 256 + unat (p ! (k + 1))"

definition get32 :: "nat \<Rightarrow> bytes \<Rightarrow> 32 word" where
  "get32 k p = of_nat (unat (p ! k) * 16777216 + unat (p ! (k + 1)) * 65536 + unat (p ! (k + 2)) * 256 + unat (p ! (k + 3)))"

definition put16 :: "nat \<Rightarrow> nat \<Rightarrow> bytes \<Rightarrow> bytes" where
  "put16 n k p = p[k := of_nat (n div 256), k + 1 := of_nat (n mod 256)]"

definition put32 :: "32 word \<Rightarrow> nat \<Rightarrow> bytes \<Rightarrow> bytes" where
  "put32 w k p = p[k := of_nat (unat w div 16777216), k + 1 := of_nat (unat w div 65536 mod 256),
     k + 2 := of_nat (unat w div 256 mod 256), k + 3 := of_nat (unat w mod 256)]"

definition renumber_step :: "int \<Rightarrow> 32 word" where
  "renumber_step framerate = of_int (num_int (math_round (num_div (NumI SOURCE_CLOCK_HZ) (NumI framerate))))"

text \<open>Reading beyond the end of a buffer throws.\<close>

definition renumber :: "int \<Rightarrow> bytes \<Rightarrow> (videoSource, bytes) prog" where
  "renumber framerate packet =
     seqE (throwIf (length packet < 8) (Err ''ERR_OUT_OF_RANGE''))
    (let original = get32 4 packet in
     seqE (modE (\<lambda>s. if vs_origin s = None
            then s\<lparr>vs_origin := Some original, vs_shift := vs_emitted s + renumber_step framerate - original\<rparr> else s))
    (seqE (modE (\<lambda>s. s\<lparr>vs_emitted := original + vs_shift s\<rparr>))
    (bindE (getE vs_emitted) (\<lambda>emitted.
     bindE (getE vs_sequence) (\<lambda>n.
     seqE (modE (\<lambda>s. s\<lparr>vs_sequence := Suc n\<rparr>))
    (retE (put16 (n mod 65536) 2 (put32 emitted 4 packet))))))))"

definition write_viewer :: "surroundings \<Rightarrow> bytes \<Rightarrow> nat \<Rightarrow> (videoSource, unit) prog" where
  "write_viewer su packet v =
     modE (\<lambda>s. let s1 = say (Wrote v packet) s in if su_writeThrows su v then say ErrorReported s1 else s1)"

definition deliver :: "surroundings \<Rightarrow> bytes \<Rightarrow> (videoSource, unit) prog" where
  "deliver su packet =
     seqE (modE (\<lambda>s. if vs_phase s = VStarting
            then source_notify su ((cancel_timer (vs_cancelStart s) s)\<lparr>vs_cancelStart := None, vs_phase := VActive\<rparr>) else s))
    (seqE (modE (\<lambda>s. s\<lparr>vs_packets := Suc (vs_packets s)\<rparr>))
    (bindE (renumber (su_framerate su) packet) (\<lambda>p.
     bindE (getE vs_viewers) (\<lambda>viewers. forE (write_viewer su p) viewers))))"

section \<open>Steps\<close>

datatype source_event =
    Attach nat
  | Detach nat
  | Pli
  | Fires nat
  | EncoderPacket nat bytes
  | EncoderFailed nat
  | StartRejected nat
  | StopDone nat
  | CloseSource

text \<open>
  A promise of \<open>stop\<close> settles: \<open>finish\<close> resumes first, then the suspended calls of \<open>begin\<close> in order.
\<close>

definition stop_done :: "nat \<Rightarrow> videoSource \<Rightarrow> videoSource" where
  "stop_done e s =
     (let s1 = s\<lparr>vs_stops := remove1 e (vs_stops s), vs_live := remove1 e (vs_live s), vs_release := None\<rparr>;
          resumed = filter (\<lambda>x. x = e) (vs_waiting s1);
          s2 = s1\<lparr>vs_waiting := filter (\<lambda>x. x \<noteq> e) (vs_waiting s1)\<rparr>
      in fold (\<lambda>_. begin_create) resumed s2)"

definition fire :: "surroundings \<Rightarrow> nat \<Rightarrow> videoSource \<Rightarrow> videoSource" where
  "fire su i s =
     (let s1 = s\<lparr>vs_timers := filter (\<lambda>x. fst x \<noteq> i) (vs_timers s)\<rparr> in
      case map_of (vs_timers s) i of
        None \<Rightarrow> s
      | Some StartDeadline \<Rightarrow> source_finish su VFailed s1
      | Some GraceWindow \<Rightarrow> source_finish su VIdle (s1\<lparr>vs_cancelGrace := None\<rparr>))"

fun source_step :: "surroundings \<Rightarrow> source_event \<Rightarrow> videoSource \<Rightarrow> videoSource" where
  "source_step su (Attach v) s = source_add su v s"
| "source_step su (Detach v) s = source_remove v s"
| "source_step su Pli s = source_requestKeyframe su s"
| "source_step su (Fires i) s = fire su i s"
| "source_step su (EncoderPacket e p) s = (if vs_source s = Some e then snd (deliver su p s) else s)"
| "source_step su (EncoderFailed e) s = (if vs_source s = Some e then source_finish su VFailed s else s)"
| "source_step su (StartRejected e) s = (if e < vs_created s then source_finish su VFailed (say ErrorReported s) else s)"
| "source_step su (StopDone e) s = (if e \<in> set (vs_stops s) then stop_done e s else s)"
| "source_step su CloseSource s = source_close su s"

fun source_run :: "(surroundings \<times> source_event) list \<Rightarrow> videoSource \<Rightarrow> videoSource" where
  "source_run [] s = s"
| "source_run ((su, ev) # evs) s = source_run evs (source_step su ev s)"

section \<open>Invariant\<close>

definition timers_ok :: "videoSource \<Rightarrow> bool" where
  "timers_ok s \<longleftrightarrow>
     set (vs_timers s) = (\<lambda>i. (i, StartDeadline)) ` set_option (vs_cancelStart s) \<union> (\<lambda>i. (i, GraceWindow)) ` set_option (vs_cancelGrace s)
     \<and> set_option (vs_cancelStart s) \<inter> set_option (vs_cancelGrace s) = {}
     \<and> (\<forall>x \<in> set (vs_timers s). fst x < vs_nextTimer s)"

abbreviation watched_phase :: "videoState \<Rightarrow> bool" where
  "watched_phase ph \<equiv> ph = VStarting \<or> ph = VActive"

text \<open>What holds of viewers and timers even while viewers are being notified.\<close>

definition viewers_ok :: "videoSource \<Rightarrow> bool" where
  "viewers_ok s \<longleftrightarrow>
     distinct (vs_viewers s) \<and> timers_ok s
     \<and> (vs_cancelGrace s \<noteq> None \<longleftrightarrow> vs_viewers s = [] \<and> watched_phase (vs_phase s))"

definition encoders_ok :: "videoSource \<Rightarrow> bool" where
  "encoders_ok s \<longleftrightarrow>
     vs_stops s = (case vs_release s of None \<Rightarrow> [] | Some e \<Rightarrow> [e]) \<and> (\<forall>e \<in> set (vs_waiting s). vs_release s = Some e)
     \<and> (vs_source s \<noteq> None \<longrightarrow> vs_release s = None)
     \<and> set_option (vs_source s) \<union> set_option (vs_release s) \<subseteq> set (vs_live s)
     \<and> distinct (vs_live s) \<and> (\<forall>e \<in> set (vs_live s). e < vs_created s)"

definition source_inv :: "videoSource \<Rightarrow> bool" where
  "source_inv s \<longleftrightarrow>
     viewers_ok s \<and> encoders_ok s
     \<and> (vs_cancelStart s \<noteq> None \<longleftrightarrow> vs_phase s = VStarting)
     \<and> (\<not> watched_phase (vs_phase s) \<longrightarrow> vs_viewers s = [])
     \<and> (vs_phase s = VActive \<longrightarrow> vs_source s \<noteq> None) \<and> (vs_source s \<noteq> None \<longrightarrow> watched_phase (vs_phase s))"

subsection \<open>Notification changes viewers, timers and the output only\<close>

lemma fold_tell: "(\<And>v s. f (tell su v s) = f s) \<Longrightarrow> f (fold (tell su) vs s) = f s"
  by (induction vs arbitrary: s) auto

lemma remove_frame [simp]:
  "vs_phase (source_remove v s) = vs_phase s" "vs_source (source_remove v s) = vs_source s"
  "vs_cancelStart (source_remove v s) = vs_cancelStart s" "vs_release (source_remove v s) = vs_release s"
  "vs_stops (source_remove v s) = vs_stops s" "vs_waiting (source_remove v s) = vs_waiting s"
  "vs_live (source_remove v s) = vs_live s" "vs_created (source_remove v s) = vs_created s"
  "vs_lastKeyframeAt (source_remove v s) = vs_lastKeyframeAt s" "vs_out (source_remove v s) = vs_out s"
  by (simp_all add: source_remove_def Let_def schedule_timer_def)

lemma say_frame [simp]:
  "vs_phase (say x s) = vs_phase s" "vs_source (say x s) = vs_source s"
  "vs_cancelStart (say x s) = vs_cancelStart s" "vs_cancelGrace (say x s) = vs_cancelGrace s" "vs_release (say x s) = vs_release s"
  "vs_stops (say x s) = vs_stops s" "vs_waiting (say x s) = vs_waiting s" "vs_viewers (say x s) = vs_viewers s"
  "vs_live (say x s) = vs_live s" "vs_created (say x s) = vs_created s" "vs_timers (say x s) = vs_timers s"
  "vs_nextTimer (say x s) = vs_nextTimer s" "vs_lastKeyframeAt (say x s) = vs_lastKeyframeAt s" "vs_out (say x s) = vs_out s @ [x]"
  by (simp_all add: say_def)

lemma tell_frame:
  "vs_phase (tell su v s) = vs_phase s" "vs_source (tell su v s) = vs_source s"
  "vs_cancelStart (tell su v s) = vs_cancelStart s" "vs_release (tell su v s) = vs_release s"
  "vs_stops (tell su v s) = vs_stops s" "vs_waiting (tell su v s) = vs_waiting s"
  "vs_live (tell su v s) = vs_live s" "vs_created (tell su v s) = vs_created s"
  "vs_lastKeyframeAt (tell su v s) = vs_lastKeyframeAt s"
  by (simp_all add: tell_def Let_def)

lemma notify_frame [simp]:
  "vs_phase (source_notify su s) = vs_phase s" "vs_source (source_notify su s) = vs_source s"
  "vs_cancelStart (source_notify su s) = vs_cancelStart s" "vs_release (source_notify su s) = vs_release s"
  "vs_stops (source_notify su s) = vs_stops s" "vs_waiting (source_notify su s) = vs_waiting s"
  "vs_live (source_notify su s) = vs_live s" "vs_created (source_notify su s) = vs_created s"
  "vs_lastKeyframeAt (source_notify su s) = vs_lastKeyframeAt s"
  unfolding source_notify_def by (rule fold_tell, rule tell_frame)+

lemma timers_ok_grace:
  assumes "timers_ok s" and "vs_cancelGrace s = None"
  shows "timers_ok ((schedule_timer GraceWindow s)\<lparr>vs_cancelGrace := Some (vs_nextTimer s)\<rparr>)"
  using assms by (auto simp: timers_ok_def schedule_timer_def)

lemma timers_ok_start:
  assumes "timers_ok s" and "vs_cancelStart s = None"
  shows "timers_ok ((schedule_timer StartDeadline s)\<lparr>vs_cancelStart := Some (vs_nextTimer s)\<rparr>)"
  using assms by (auto simp: timers_ok_def schedule_timer_def)

lemma timers_ok_cancelGrace: "timers_ok s \<Longrightarrow> timers_ok ((cancel_timer (vs_cancelGrace s) s)\<lparr>vs_cancelGrace := None\<rparr>)"
  by (auto simp: timers_ok_def cancel_timer_def split: option.split)

lemma timers_ok_cancelStart: "timers_ok s \<Longrightarrow> timers_ok ((cancel_timer (vs_cancelStart s) s)\<lparr>vs_cancelStart := None\<rparr>)"
  by (auto simp: timers_ok_def cancel_timer_def split: option.split)

lemma cancel_frame [simp]:
  "vs_phase (cancel_timer t s) = vs_phase s" "vs_source (cancel_timer t s) = vs_source s"
  "vs_cancelStart (cancel_timer t s) = vs_cancelStart s" "vs_cancelGrace (cancel_timer t s) = vs_cancelGrace s"
  "vs_release (cancel_timer t s) = vs_release s" "vs_viewers (cancel_timer t s) = vs_viewers s"
  "vs_stops (cancel_timer t s) = vs_stops s" "vs_waiting (cancel_timer t s) = vs_waiting s"
  "vs_live (cancel_timer t s) = vs_live s" "vs_created (cancel_timer t s) = vs_created s"
  "vs_lastKeyframeAt (cancel_timer t s) = vs_lastKeyframeAt s" "vs_out (cancel_timer t s) = vs_out s"
  by (simp_all add: cancel_timer_def split: option.split)

lemma remove_viewers_ok: "viewers_ok s \<Longrightarrow> (\<not> watched_phase (vs_phase s) \<Longrightarrow> vs_viewers s = []) \<Longrightarrow> viewers_ok (source_remove v s)"
proof -
  assume ok: "viewers_ok s" and w: "\<not> watched_phase (vs_phase s) \<Longrightarrow> vs_viewers s = []"
  define t where "t = s\<lparr>vs_viewers := filter (\<lambda>x. x \<noteq> v) (vs_viewers s)\<rparr>"
  have "timers_ok t" using ok by (simp add: viewers_ok_def t_def timers_ok_def)
  show ?thesis
  proof (cases "v \<in> set (vs_viewers s) \<and> vs_viewers t = [] \<and> vs_phase s \<noteq> VIdle")
    case True
    then have ph: "watched_phase (vs_phase s)" using w by force
    have "vs_cancelGrace t = None" using True ok by (auto simp: viewers_ok_def t_def)
    with \<open>timers_ok t\<close> have "timers_ok ((schedule_timer GraceWindow t)\<lparr>vs_cancelGrace := Some (vs_nextTimer t)\<rparr>)"
      by (rule timers_ok_grace)
    moreover have "source_remove v s = (schedule_timer GraceWindow t)\<lparr>vs_cancelGrace := Some (vs_nextTimer t)\<rparr>"
      using True by (simp add: source_remove_def Let_def t_def)
    ultimately show ?thesis using True ok ph by (auto simp: viewers_ok_def t_def schedule_timer_def)
  next
    case False
    then have "source_remove v s = t" by (auto simp: source_remove_def Let_def t_def)
    moreover have "vs_viewers t = [] \<and> watched_phase (vs_phase s) \<longleftrightarrow> vs_viewers s = [] \<and> watched_phase (vs_phase s)"
      using False by (cases "vs_viewers s") (auto simp: t_def filter_empty_conv)
    ultimately show ?thesis using \<open>timers_ok t\<close> ok by (simp add: viewers_ok_def t_def)
  qed
qed

lemma say_viewers_ok [simp]: "viewers_ok (say x s) = viewers_ok s"
  by (simp add: viewers_ok_def timers_ok_def)

lemma tell_viewers_ok: "viewers_ok s \<Longrightarrow> watched_phase (vs_phase s) \<Longrightarrow> viewers_ok (tell su v s)"
  using remove_viewers_ok [of "say (StateTold v (vs_phase s)) s" v] by (auto simp: tell_def Let_def)

lemma notify_viewers_ok: "viewers_ok s \<Longrightarrow> watched_phase (vs_phase s) \<Longrightarrow> viewers_ok (source_notify su s)"
proof -
  have "viewers_ok s \<Longrightarrow> watched_phase (vs_phase s) \<Longrightarrow> viewers_ok (fold (tell su) vs s)" for vs s
  proof (induction vs arbitrary: s)
    case (Cons v vs)
    have "viewers_ok (tell su v s)" using Cons.prems by (rule tell_viewers_ok)
    moreover have "watched_phase (vs_phase (tell su v s))" using Cons.prems by (simp add: tell_frame)
    ultimately show ?case using Cons.IH by simp
  qed simp
  then show "viewers_ok s \<Longrightarrow> watched_phase (vs_phase s) \<Longrightarrow> viewers_ok (source_notify su s)"
    by (simp add: source_notify_def)
qed

lemma notify_unwatched: "vs_viewers s = [] \<Longrightarrow> source_notify su s = s"
  by (simp add: source_notify_def)

lemma notify_failed:
  assumes "vs_phase s = VFailed"
  shows "source_notify su s = s\<lparr>vs_out := vs_out s @ map (\<lambda>v. StateTold v VFailed) (vs_viewers s)\<rparr>"
proof -
  have "fold (tell su) vs t = t\<lparr>vs_out := vs_out t @ map (\<lambda>v. StateTold v VFailed) vs\<rparr>" if "vs_phase t = VFailed" for vs t
    using that by (induction vs arbitrary: t) (simp_all add: tell_def say_def Let_def)
  with assms show ?thesis by (simp add: source_notify_def)
qed

subsection \<open>Every step keeps the invariant\<close>

lemma encoders_ok_say [simp]: "encoders_ok (say x s) = encoders_ok s"
  by (simp add: encoders_ok_def)

lemma encoders_ok_frame:
  "vs_stops t = vs_stops s \<Longrightarrow> vs_release t = vs_release s \<Longrightarrow> vs_waiting t = vs_waiting s \<Longrightarrow> vs_source t = vs_source s \<Longrightarrow>
     vs_live t = vs_live s \<Longrightarrow> vs_created t = vs_created s \<Longrightarrow> encoders_ok t = encoders_ok s"
  by (simp add: encoders_ok_def)

text \<open>What \<open>finish\<close> relies on: every pending timer can be cancelled.\<close>

definition finish_pre :: "videoState \<Rightarrow> videoSource \<Rightarrow> bool" where
  "finish_pre ph s \<longleftrightarrow>
     encoders_ok s \<and> (\<forall>x \<in> set (vs_timers s). vs_cancelStart s = Some (fst x) \<or> vs_cancelGrace s = Some (fst x))
     \<and> (ph = VFailed \<or> ph = VIdle \<and> vs_viewers s = []) \<and> (vs_source s \<noteq> None \<longrightarrow> watched_phase (vs_phase s))"

lemma finish_inv:
  assumes pre: "finish_pre ph s"
  shows "source_inv (source_finish su ph s)"
proof -
  define s1 where "s1 = (cancel_timer (vs_cancelStart s) s)\<lparr>vs_cancelStart := None\<rparr>"
  define s2 where "s2 = (cancel_timer (vs_cancelGrace s1) s1)\<lparr>vs_cancelGrace := None\<rparr>"
  define s3 where "s3 = s2\<lparr>vs_source := None, vs_phase := ph\<rparr>"
  define s4 where "s4 = (if ph = VFailed then s3\<lparr>vs_failedAt := su_now su\<rparr> else s3)"
  define s6 where "s6 = (if ph = VFailed then (source_notify su s4)\<lparr>vs_viewers := []\<rparr> else source_notify su s4)"
  have fin: "source_finish su ph s = (case vs_source s of None \<Rightarrow> s6
      | Some e \<Rightarrow> say (StopAsked e) (s6\<lparr>vs_release := Some e, vs_stops := vs_stops s6 @ [e]\<rparr>))"
    unfolding source_finish_def Let_def s6_def s4_def s3_def s2_def s1_def by (rule refl)
  have t2: "vs_timers s2 = []"
  proof -
    have "x \<notin> set (vs_timers s2)" for x
      using pre by (cases x) (auto simp: finish_pre_def s2_def s1_def cancel_timer_def split: option.splits)
    then show ?thesis by (metis list.set_intros(1) neq_Nil_conv)
  qed
  have v4: "ph \<noteq> VFailed \<Longrightarrow> vs_viewers s4 = []" using pre by (auto simp: finish_pre_def s4_def s3_def s2_def s1_def)
  have n: "source_notify su s4 = s4\<lparr>vs_out := vs_out (source_notify su s4)\<rparr>"
  proof (cases "ph = VFailed")
    case True
    then have "vs_phase s4 = VFailed" by (simp add: s4_def s3_def)
    then show ?thesis by (simp add: notify_failed)
  qed (simp add: v4 notify_unwatched)
  have nf: "vs_viewers (source_notify su s4) = vs_viewers s4" "vs_timers (source_notify su s4) = vs_timers s4"
    "vs_cancelGrace (source_notify su s4) = vs_cancelGrace s4"
    by (subst n, simp)+
  have f4: "vs_timers s4 = []" "vs_cancelStart s4 = None" "vs_cancelGrace s4 = None" "vs_phase s4 = ph"
    "vs_source s4 = None" "vs_release s4 = vs_release s" "vs_stops s4 = vs_stops s" "vs_waiting s4 = vs_waiting s"
    "vs_live s4 = vs_live s" "vs_created s4 = vs_created s"
    using t2 by (simp_all add: s4_def s3_def) (simp_all add: s2_def s1_def)
  have fields: "vs_viewers s6 = []" "vs_timers s6 = []" "vs_cancelStart s6 = None" "vs_cancelGrace s6 = None" "vs_phase s6 = ph"
    "vs_source s6 = None" "vs_release s6 = vs_release s" "vs_stops s6 = vs_stops s" "vs_waiting s6 = vs_waiting s"
    "vs_live s6 = vs_live s" "vs_created s6 = vs_created s"
    using nf f4 v4 by (simp_all add: s6_def)
  have ph: "\<not> watched_phase ph" using pre by (auto simp: finish_pre_def)
  show ?thesis
  proof (cases "vs_source s")
    case None
    then show ?thesis using fields ph pre
      by (auto simp: fin source_inv_def viewers_ok_def timers_ok_def encoders_ok_def finish_pre_def)
  next
    case (Some e)
    then have "vs_release s = None" using pre by (auto simp: finish_pre_def encoders_ok_def)
    then show ?thesis using fields ph pre Some
      by (auto simp: fin source_inv_def viewers_ok_def timers_ok_def encoders_ok_def finish_pre_def)
  qed
qed

lemma inv_finish_pre:
  "source_inv s \<Longrightarrow> ph = VFailed \<or> ph = VIdle \<and> vs_viewers s = [] \<Longrightarrow> finish_pre ph s"
  by (auto simp: source_inv_def finish_pre_def viewers_ok_def timers_ok_def)

lemma begin_create_inv: "source_inv s \<Longrightarrow> vs_release s = None \<Longrightarrow> source_inv (begin_create s)"
  by (auto simp: begin_create_def Let_def source_inv_def viewers_ok_def encoders_ok_def timers_ok_def)

lemma stop_done_inv:
  assumes inv: "source_inv s" and e: "e \<in> set (vs_stops s)"
  shows "source_inv (stop_done e s)"
proof -
  have rel: "vs_release s = Some e" using inv e by (auto simp: source_inv_def encoders_ok_def split: option.splits)
  then have src: "vs_source s = None" using inv by (auto simp: source_inv_def encoders_ok_def)
  define t where "t = s\<lparr>vs_stops := remove1 e (vs_stops s), vs_live := remove1 e (vs_live s), vs_release := None,
      vs_waiting := filter (\<lambda>x. x \<noteq> e) (vs_waiting s)\<rparr>"
  have "source_inv t" "vs_release t = None"
    using inv rel src
    by (auto simp: t_def source_inv_def viewers_ok_def timers_ok_def encoders_ok_def distinct_remove1 filter_empty_conv)
  have "source_inv (fold (\<lambda>_. begin_create) ws t) \<and> vs_release (fold (\<lambda>_. begin_create) ws t) = None" for ws
  proof (induction ws rule: rev_induct)
    case (snoc w ws)
    then show ?case using begin_create_inv by (auto simp: begin_create_def Let_def)
  qed (simp add: \<open>source_inv t\<close> \<open>vs_release t = None\<close>)
  moreover have "stop_done e s = fold (\<lambda>_. begin_create) (filter (\<lambda>x. x = e) (vs_waiting s)) t"
    by (simp add: stop_done_def Let_def t_def)
  ultimately show ?thesis by metis
qed

lemma begin_inv:
  assumes v: "viewers_ok (s\<lparr>vs_phase := VStarting\<rparr>)" and e: "encoders_ok s" and src: "vs_source s = None" "vs_cancelStart s = None"
  shows "source_inv (source_begin su s)"
proof -
  define s1 where "s1 = source_notify su (s\<lparr>vs_phase := VStarting\<rparr>)"
  define s2 where "s2 = (schedule_timer StartDeadline s1)\<lparr>vs_cancelStart := Some (vs_nextTimer s1)\<rparr>"
  have v1: "viewers_ok s1" unfolding s1_def by (rule notify_viewers_ok [OF v]) simp
  have f1: "vs_phase s1 = VStarting" "vs_source s1 = None" "vs_cancelStart s1 = None" "vs_release s1 = vs_release s"
    "vs_stops s1 = vs_stops s" "vs_waiting s1 = vs_waiting s" "vs_live s1 = vs_live s" "vs_created s1 = vs_created s"
    using src by (simp_all add: s1_def)
  have "timers_ok s2" unfolding s2_def using v1 f1(3) by (intro timers_ok_start) (simp_all add: viewers_ok_def)
  then have inv2: "source_inv s2"
    using v1 f1 e by (auto simp: source_inv_def viewers_ok_def encoders_ok_def s2_def schedule_timer_def)
  have b: "source_begin su s = (case vs_release s2 of Some e \<Rightarrow> s2\<lparr>vs_waiting := vs_waiting s2 @ [e]\<rparr> | None \<Rightarrow> begin_create s2)"
    unfolding source_begin_def Let_def s2_def s1_def by (rule refl)
  show ?thesis
  proof (cases "vs_release s2")
    case None
    then show ?thesis using begin_create_inv [OF inv2] by (simp add: b)
  next
    case (Some e)
    then show ?thesis using inv2 by (auto simp: b source_inv_def viewers_ok_def timers_ok_def encoders_ok_def)
  qed
qed

lemma keyframe_frame [simp]:
  "viewers_ok (source_requestKeyframe su s) = viewers_ok s" "encoders_ok (source_requestKeyframe su s) = encoders_ok s"
  "vs_phase (source_requestKeyframe su s) = vs_phase s" "vs_cancelStart (source_requestKeyframe su s) = vs_cancelStart s"
  "vs_viewers (source_requestKeyframe su s) = vs_viewers s" "vs_source (source_requestKeyframe su s) = vs_source s"
  by (simp_all add: source_requestKeyframe_def Let_def viewers_ok_def timers_ok_def encoders_ok_def)

lemma keyframe_inv: "source_inv s \<Longrightarrow> source_inv (source_requestKeyframe su s)"
  by (simp add: source_inv_def)

lemma remove_inv: "source_inv s \<Longrightarrow> source_inv (source_remove v s)"
proof -
  assume inv: "source_inv s"
  then have "viewers_ok (source_remove v s)" by (intro remove_viewers_ok) (auto simp: source_inv_def)
  moreover have "encoders_ok (source_remove v s) = encoders_ok s" by (rule encoders_ok_frame) simp_all
  moreover have "vs_viewers s = [] \<Longrightarrow> vs_viewers (source_remove v s) = []"
    by (simp add: source_remove_def Let_def)
  ultimately show ?thesis using inv by (auto simp: source_inv_def)
qed

lemma tell_inv: "source_inv s \<Longrightarrow> source_inv (tell su v s)"
proof -
  assume inv: "source_inv s"
  then have "source_inv (say (StateTold v (vs_phase s)) s)" by (simp add: source_inv_def)
  then show ?thesis using remove_inv by (simp add: tell_def Let_def)
qed

lemma add_inv: "source_inv s \<Longrightarrow> source_inv (source_add su v s)"
proof -
  assume inv: "source_inv s"
  define s1 where "s1 = (if v \<in> set (vs_viewers s) then s else s\<lparr>vs_viewers := vs_viewers s @ [v]\<rparr>)"
  define s2 where "s2 = (cancel_timer (vs_cancelGrace s1) s1)\<lparr>vs_cancelGrace := None\<rparr>"
  have t: "timers_ok s2" unfolding s2_def using inv
    by (intro timers_ok_cancelGrace) (simp add: s1_def source_inv_def viewers_ok_def timers_ok_def)
  have f: "vs_viewers s2 \<noteq> []" "distinct (vs_viewers s2)" "vs_cancelGrace s2 = None" "vs_phase s2 = vs_phase s"
    "vs_source s2 = vs_source s" "vs_cancelStart s2 = vs_cancelStart s"
    using inv by (auto simp: s2_def s1_def source_inv_def viewers_ok_def)
  have e: "encoders_ok s2" using inv by (simp add: s2_def s1_def source_inv_def encoders_ok_def)
  have a: "source_add su v s = (if vs_phase s2 = VIdle \<or> vs_phase s2 = VFailed then source_begin su s2
      else tell su v (if vs_phase s2 = VActive then source_requestKeyframe su s2 else s2))"
    unfolding source_add_def Let_def s2_def s1_def by (rule refl)
  show ?thesis
  proof (cases "watched_phase (vs_phase s)")
    case True
    then have "source_inv s2" using t f e inv by (auto simp: source_inv_def viewers_ok_def)
    then show ?thesis using True f tell_inv keyframe_inv by (auto simp: a)
  next
    case False
    then have ph: "vs_phase s2 = VIdle \<or> vs_phase s2 = VFailed" using f(4) by (cases "vs_phase s") auto
    have "timers_ok (s2\<lparr>vs_phase := VStarting\<rparr>)" using t by (simp add: timers_ok_def)
    then have "viewers_ok (s2\<lparr>vs_phase := VStarting\<rparr>)" using f by (simp add: viewers_ok_def)
    then have "source_inv (source_begin su s2)"
      using e False f inv by (intro begin_inv) (auto simp: source_inv_def)
    then show ?thesis using ph by (simp add: a)
  qed
qed

lemma fire_inv: "source_inv s \<Longrightarrow> source_inv (fire su i s)"
proof -
  assume inv: "source_inv s"
  let ?s1 = "s\<lparr>vs_timers := filter (\<lambda>x. fst x \<noteq> i) (vs_timers s)\<rparr>"
  show ?thesis
  proof (cases "map_of (vs_timers s) i")
    case None
    then show ?thesis using inv by (simp add: fire_def)
  next
    case (Some k)
    then have mem: "(i, k) \<in> set (vs_timers s)" by (rule map_of_SomeD)
    show ?thesis
    proof (cases k)
      case StartDeadline
      have "finish_pre VFailed ?s1"
        using inv by (auto simp: source_inv_def finish_pre_def viewers_ok_def timers_ok_def encoders_ok_def)
      then show ?thesis using Some StartDeadline by (simp add: fire_def finish_inv)
    next
      case GraceWindow
      then have "vs_cancelGrace s = Some i" using inv mem by (auto simp: source_inv_def viewers_ok_def timers_ok_def)
      then have "finish_pre VIdle (?s1\<lparr>vs_cancelGrace := None\<rparr>)"
        using inv by (auto simp: source_inv_def finish_pre_def viewers_ok_def timers_ok_def encoders_ok_def)
      then show ?thesis using Some GraceWindow by (simp add: fire_def finish_inv)
    qed
  qed
qed

lemma keeps_renumber:
  "(\<And>s a b c d. P s \<Longrightarrow> P (s\<lparr>vs_origin := a, vs_shift := b\<rparr>)) \<Longrightarrow> (\<And>s a. P s \<Longrightarrow> P (s\<lparr>vs_emitted := a\<rparr>)) \<Longrightarrow>
   (\<And>s n. P s \<Longrightarrow> P (s\<lparr>vs_sequence := n\<rparr>)) \<Longrightarrow> keeps P (renumber fr p)"
  unfolding renumber_def Let_def by (intro keeps_rules) auto

lemma deliver_inv:
  assumes inv: "source_inv s" and src: "vs_source s \<noteq> None"
  shows "source_inv (snd (deliver su p s))"
proof -
  define s1 where "s1 = (if vs_phase s = VStarting
     then source_notify su ((cancel_timer (vs_cancelStart s) s)\<lparr>vs_cancelStart := None, vs_phase := VActive\<rparr>) else s)"
  have "source_inv s1"
  proof (cases "vs_phase s = VStarting")
    case True
    let ?t = "(cancel_timer (vs_cancelStart s) s)\<lparr>vs_cancelStart := None, vs_phase := VActive\<rparr>"
    have "timers_ok ((cancel_timer (vs_cancelStart s) s)\<lparr>vs_cancelStart := None\<rparr>)"
      using inv by (intro timers_ok_cancelStart) (simp add: source_inv_def viewers_ok_def)
    then have "viewers_ok ?t" using inv True by (auto simp: source_inv_def viewers_ok_def timers_ok_def)
    then have "viewers_ok (source_notify su ?t)" by (rule notify_viewers_ok) simp
    moreover have "encoders_ok (source_notify su ?t) = encoders_ok s" by (rule encoders_ok_frame) simp_all
    ultimately show ?thesis using inv True src by (simp add: s1_def source_inv_def)
  qed (simp add: s1_def inv)
  moreover have "keeps source_inv (seqE (modE (\<lambda>s. s\<lparr>vs_packets := Suc (vs_packets s)\<rparr>))
      (bindE (renumber (su_framerate su) p) (\<lambda>p. bindE (getE vs_viewers) (\<lambda>vs. forE (write_viewer su p) vs))))"
    unfolding write_viewer_def
    by (intro keeps_rules keeps_renumber) (auto simp: source_inv_def viewers_ok_def timers_ok_def encoders_ok_def Let_def)
  ultimately show ?thesis
    unfolding deliver_def keeps_def by (auto simp: seqE_run [of "modE _"] prog_run s1_def [symmetric])
qed

lemma step_inv: "source_inv s \<Longrightarrow> source_inv (source_step su ev s)"
proof (cases ev)
  case (StartRejected e)
  assume "source_inv s"
  then have "source_inv (say ErrorReported s)" by (simp add: source_inv_def)
  then show ?thesis using StartRejected \<open>source_inv s\<close> by (simp add: finish_inv inv_finish_pre)
next
  case CloseSource
  assume "source_inv s"
  then have "finish_pre VIdle (s\<lparr>vs_viewers := []\<rparr>)"
    by (auto simp: source_inv_def finish_pre_def viewers_ok_def timers_ok_def encoders_ok_def)
  then show ?thesis using CloseSource by (simp add: source_close_def finish_inv)
qed (auto simp: add_inv remove_inv keyframe_inv fire_inv deliver_inv finish_inv inv_finish_pre stop_done_inv)

lemma new_inv: "source_inv newVideoSource"
  by (simp add: newVideoSource_def source_inv_def viewers_ok_def timers_ok_def encoders_ok_def)

lemma run_inv: "source_inv s \<Longrightarrow> source_inv (source_run evs s)"
  by (induction evs s rule: source_run.induct) (auto intro: step_inv)


section \<open>How many encoders exist\<close>

text \<open>
  A restart is asked for while an earlier one is still suspended on the release of the previous
  encoder. Runs without such an overlap are calm.
\<close>

fun overlaps :: "source_event \<Rightarrow> videoSource \<Rightarrow> bool" where
  "overlaps (Attach v) s = ((vs_phase s = VIdle \<or> vs_phase s = VFailed) \<and> vs_waiting s \<noteq> [])"
| "overlaps _ s = False"

fun calm :: "(surroundings \<times> source_event) list \<Rightarrow> videoSource \<Rightarrow> bool" where
  "calm [] s = True"
| "calm ((su, ev) # evs) s = (\<not> overlaps ev s \<and> calm evs (source_step su ev s))"

definition single :: "videoSource \<Rightarrow> bool" where
  "single s \<longleftrightarrow> length (vs_waiting s) \<le> 1 \<and> set (vs_live s) = set_option (vs_source s) \<union> set_option (vs_release s)"

lemma finish_fields:
  "vs_source (source_finish su ph s) = None" "vs_waiting (source_finish su ph s) = vs_waiting s"
  "vs_live (source_finish su ph s) = vs_live s"
  "vs_release (source_finish su ph s) = (case vs_source s of None \<Rightarrow> vs_release s | Some e \<Rightarrow> Some e)"
  by (simp_all add: source_finish_def Let_def split: option.split)

lemma single_frame:
  "vs_waiting t = vs_waiting s \<Longrightarrow> vs_live t = vs_live s \<Longrightarrow> vs_source t = vs_source s \<Longrightarrow> vs_release t = vs_release s \<Longrightarrow>
     single t = single s"
  by (simp add: single_def)

lemma finish_single: "encoders_ok s \<Longrightarrow> single s \<Longrightarrow> single (source_finish su ph s)"
  by (auto simp: single_def finish_fields encoders_ok_def split: option.splits)

lemma begin_single:
  assumes "single s" and "encoders_ok s" and "vs_source s = None" and "vs_waiting s = []"
  shows "single (source_begin su s)"
  using assms
  by (auto simp: source_begin_def Let_def single_def begin_create_def schedule_timer_def split: option.split)

lemma add_single:
  assumes inv: "source_inv s" and "single s" and calm: "\<not> overlaps (Attach v) s"
  shows "single (source_add su v s)"
proof -
  define s1 where "s1 = (if v \<in> set (vs_viewers s) then s else s\<lparr>vs_viewers := vs_viewers s @ [v]\<rparr>)"
  define s2 where "s2 = (cancel_timer (vs_cancelGrace s1) s1)\<lparr>vs_cancelGrace := None\<rparr>"
  have a: "source_add su v s = (if vs_phase s2 = VIdle \<or> vs_phase s2 = VFailed then source_begin su s2
      else tell su v (if vs_phase s2 = VActive then source_requestKeyframe su s2 else s2))"
    unfolding source_add_def Let_def s2_def s1_def by (rule refl)
  have f: "vs_waiting s2 = vs_waiting s" "vs_live s2 = vs_live s" "vs_source s2 = vs_source s" "vs_release s2 = vs_release s"
    "vs_phase s2 = vs_phase s"
    by (simp_all add: s2_def s1_def)
  then have "single s2" using assms(2) by (simp add: single_def)
  have "encoders_ok s2" using inv by (simp add: s2_def s1_def source_inv_def encoders_ok_def)
  show ?thesis
  proof (cases "vs_phase s2 = VIdle \<or> vs_phase s2 = VFailed")
    case True
    then show ?thesis
      using begin_single [OF \<open>single s2\<close> \<open>encoders_ok s2\<close>] inv calm f by (auto simp: a source_inv_def)
  next
    case False
    have "single (tell su v t) = single t" for t by (rule single_frame) (simp_all add: tell_frame)
    moreover have "single (source_requestKeyframe su s2) = single s2"
      by (rule single_frame) (simp_all add: source_requestKeyframe_def Let_def)
    ultimately show ?thesis using False \<open>single s2\<close> by (simp add: a)
  qed
qed

lemma stop_done_single:
  assumes inv: "source_inv s" and one: "single s" and e: "e \<in> set (vs_stops s)"
  shows "single (stop_done e s)"
proof -
  have rel: "vs_release s = Some e" using inv e by (auto simp: source_inv_def encoders_ok_def split: option.splits)
  then have src: "vs_source s = None" using inv by (auto simp: source_inv_def encoders_ok_def)
  have live: "vs_live s = [e]"
  proof -
    have "distinct (vs_live s)" "set (vs_live s) = {e}"
      using one rel src inv by (auto simp: single_def source_inv_def encoders_ok_def)
    moreover from this have "length (vs_live s) = 1" using distinct_card [of "vs_live s"] by simp
    ultimately show ?thesis by (auto simp: length_Suc_conv)
  qed
  have "vs_waiting s = [] \<or> vs_waiting s = [e]"
    using one inv rel by (cases "vs_waiting s") (auto simp: single_def source_inv_def encoders_ok_def)
  then show ?thesis
    using src live
    by (cases "vs_phase s = VStarting \<and> vs_viewers s \<noteq> []") (auto simp: stop_done_def single_def begin_create_def Let_def)
qed

lemma step_single:
  assumes inv: "source_inv s" and one: "single s" and calm: "\<not> overlaps ev s"
  shows "single (source_step su ev s)"
proof -
  have enc: "encoders_ok s" using inv by (simp add: source_inv_def)
  have fin: "single (source_finish su ph t)" if "vs_waiting t = vs_waiting s" "vs_live t = vs_live s" "vs_source t = vs_source s"
      "vs_release t = vs_release s" "vs_stops t = vs_stops s" "vs_created t = vs_created s" for t ph
    using that enc one by (intro finish_single) (simp_all add: encoders_ok_def single_def)
  show ?thesis
  proof (cases ev)
    case (Attach v)
    then show ?thesis using add_single [OF inv one] calm by simp
  next
    case (Detach v)
    have "single (source_remove v s) = single s" by (rule single_frame) simp_all
    then show ?thesis using Detach one by simp
  next
    case Pli
    have "single (source_requestKeyframe su s) = single s"
      by (rule single_frame) (simp_all add: source_requestKeyframe_def Let_def)
    then show ?thesis using Pli one by simp
  next
    case (Fires i)
    then show ?thesis using one fin by (auto simp: fire_def Let_def split: option.split timer_kind.split)
  next
    case (EncoderPacket e p)
    have "keeps (\<lambda>t. vs_waiting t = vs_waiting s \<and> vs_live t = vs_live s \<and> vs_source t = vs_source s \<and> vs_release t = vs_release s) (deliver su p)"
      unfolding deliver_def write_viewer_def by (intro keeps_rules keeps_renumber) (auto simp: Let_def)
    then have "single (snd (deliver su p s)) = single s" by (intro single_frame) (simp_all add: keeps_def)
    then show ?thesis using EncoderPacket one by simp
  next
    case (StopDone e)
    then show ?thesis using stop_done_single [OF inv one] one by simp
  next
    case CloseSource
    then show ?thesis using fin by (simp add: source_close_def)
  qed (use one fin in simp_all)
qed

lemma run_single: "source_inv s \<Longrightarrow> single s \<Longrightarrow> calm evs s \<Longrightarrow> single (source_run evs s)"
proof (induction evs s rule: source_run.induct)
  case (2 su ev evs s)
  then show ?case using step_inv step_single by simp
qed simp

section \<open>Numbering\<close>

lemma length_put [simp]: "length (put16 n k p) = length p" "length (put32 w k p) = length p"
  by (simp_all add: put16_def put32_def)

lemma get32_put32: "k + 4 \<le> length p \<Longrightarrow> get32 k (put32 w k p) = w"
proof -
  assume "k + 4 \<le> length p"
  define u where "u = unat w"
  have u: "u < 4294967296" using unsigned_less [of w, where 'a = nat] by (simp add: u_def)
  have b: "unat (of_nat (u div 16777216) :: 8 word) = u div 16777216" "unat (of_nat (u div 65536 mod 256) :: 8 word) = u div 65536 mod 256"
    "unat (of_nat (u div 256 mod 256) :: 8 word) = u div 256 mod 256" "unat (of_nat (u mod 256) :: 8 word) = u mod 256"
    using u by (simp_all add: unat_of_nat)
  have "u = u div 256 * 256 + u mod 256" "u div 256 = u div 65536 * 256 + u div 256 mod 256"
    "u div 65536 = u div 16777216 * 256 + u div 65536 mod 256"
    using div_mult_mod_eq [of u 256] div_mult_mod_eq [of "u div 256" 256] div_mult_mod_eq [of "u div 65536" 256]
    by (simp_all add: div_mult2_eq [symmetric])
  then have "u div 16777216 * 16777216 + u div 65536 mod 256 * 65536 + u div 256 mod 256 * 256 + u mod 256 = u" by linarith
  then have "get32 k (put32 w k p) = of_nat u"
    using \<open>k + 4 \<le> length p\<close> by (simp add: get32_def put32_def b flip: u_def)
  then show ?thesis by (simp add: u_def)
qed

lemma get16_put16: "k + 2 \<le> length p \<Longrightarrow> n < 65536 \<Longrightarrow> get16 k (put16 n k p) = n"
proof -
  assume "k + 2 \<le> length p" and "n < 65536"
  have "unat (of_nat (n div 256) :: 8 word) = n div 256" "unat (of_nat (n mod 256) :: 8 word) = n mod 256"
    using \<open>n < 65536\<close> by (simp_all add: unat_of_nat)
  with \<open>k + 2 \<le> length p\<close> show ?thesis by (simp add: get16_def put16_def)
qed

lemma renumber_run:
  assumes "8 \<le> length p"
  shows "renumber fr p s =
    (let shift = (if vs_origin s = None then vs_emitted s + renumber_step fr - get32 4 p else vs_shift s);
         origin = (if vs_origin s = None then Some (get32 4 p) else vs_origin s);
         emitted = get32 4 p + shift
     in (Inr (put16 (vs_sequence s mod 65536) 2 (put32 emitted 4 p)),
         s\<lparr>vs_origin := origin, vs_shift := shift, vs_emitted := emitted, vs_sequence := Suc (vs_sequence s)\<rparr>))"
  using assms by (simp add: renumber_def prog_simps Let_def)

text \<open>What one encoder sends, packet by packet.\<close>

fun renumber_all :: "int \<Rightarrow> bytes list \<Rightarrow> (videoSource, bytes list) prog" where
  "renumber_all fr [] = retE []"
| "renumber_all fr (p # ps) = bindE (renumber fr p) (\<lambda>q. bindE (renumber_all fr ps) (\<lambda>qs. retE (q # qs)))"

lemma renumber_packet:
  assumes "8 \<le> length p" and "renumber fr p s = (Inr q, s')"
  shows "get16 2 q = vs_sequence s mod 65536" and "get32 4 q = vs_emitted s'"
    and "take 2 q = take 2 p" and "drop 8 q = drop 8 p" and "vs_sequence s' = Suc (vs_sequence s)"
    and "vs_emitted s' = get32 4 p + vs_shift s'" and "vs_origin s' \<noteq> None"
    and "vs_shift s' = (if vs_origin s = None then vs_emitted s + renumber_step fr - get32 4 p else vs_shift s)"
proof -
  from assms have q: "q = put16 (vs_sequence s mod 65536) 2 (put32 (vs_emitted s') 4 p)"
    and s': "vs_sequence s' = Suc (vs_sequence s)" "vs_emitted s' = get32 4 p + vs_shift s'" "vs_origin s' \<noteq> None"
      "vs_shift s' = (if vs_origin s = None then vs_emitted s + renumber_step fr - get32 4 p else vs_shift s)"
    by (auto simp: renumber_run Let_def)
  show "get16 2 q = vs_sequence s mod 65536" unfolding q using assms(1) by (intro get16_put16) auto
  have "get32 4 q = get32 4 (put32 (vs_emitted s') 4 p)" unfolding q by (simp add: put16_def get32_def)
  then show "get32 4 q = vs_emitted s'" using assms(1) by (simp add: get32_put32)
  show "take 2 q = take 2 p" "drop 8 q = drop 8 p" unfolding q by (simp_all add: put16_def put32_def)
qed (use assms in \<open>auto simp: renumber_run Let_def\<close>)

lemma renumber_rest:
  assumes "list_all (\<lambda>p. 8 \<le> length p) ps" and "vs_origin s \<noteq> None" and "renumber_all fr ps s = (Inr qs, s')"
  shows "length qs = length ps \<and> vs_sequence s' = vs_sequence s + length ps
    \<and> (\<forall>k < length ps. get16 2 (qs ! k) = (vs_sequence s + k) mod 65536 \<and> get32 4 (qs ! k) = get32 4 (ps ! k) + vs_shift s
         \<and> take 2 (qs ! k) = take 2 (ps ! k) \<and> drop 8 (qs ! k) = drop 8 (ps ! k))
    \<and> vs_emitted s' = (if ps = [] then vs_emitted s else get32 4 (last qs))"
  using assms
proof (induction ps arbitrary: s qs)
  case Nil
  then show ?case by (simp add: prog_eq_Inr)
next
  case (Cons p ps)
  then obtain q qs' t where q: "renumber fr p s = (Inr q, t)" and r: "renumber_all fr ps t = (Inr qs', s')" and qs: "qs = q # qs'"
    by (auto simp: run_Inr)
  have p: "8 \<le> length p" using Cons.prems by simp
  note n = renumber_packet [OF p q]
  have "vs_shift t = vs_shift s" using n(8) Cons.prems(2) by simp
  then show ?case using Cons.IH [OF _ n(7) r] Cons.prems(1) n(1-6) by (auto simp: qs nth_Cons split: nat.split)
qed


section \<open>Keyframe requests\<close>

fun ask_time :: "source_out \<Rightarrow> number option" where
  "ask_time (KeyframeAsked t) = Some t"
| "ask_time _ = None"

definition asks :: "videoSource \<Rightarrow> number list" where
  "asks s = List.map_filter ask_time (vs_out s)"

lemma map_filter_append: "List.map_filter f (xs @ ys) = List.map_filter f xs @ List.map_filter f ys"
  by (simp add: map_filter_def)

lemma asks_say: "asks (say x s) = asks s @ (case ask_time x of None \<Rightarrow> [] | Some t \<Rightarrow> [t])"
  by (simp add: asks_def say_def map_filter_append) (simp add: map_filter_def split: option.split)

lemma asks_cong: "vs_out t = vs_out s \<Longrightarrow> asks t = asks s"
  by (simp add: asks_def)

lemma asks_notify [simp]: "asks (source_notify su s) = asks s"
  unfolding source_notify_def
  by (rule fold_tell) (simp add: tell_def Let_def asks_say asks_cong [OF remove_frame(10)])

definition spaced :: "int \<Rightarrow> number list \<Rightarrow> bool" where
  "spaced gap ts \<longleftrightarrow> (\<forall>k. Suc k < length ts \<longrightarrow> \<not> num_less (num_sub (ts ! Suc k) (ts ! k)) (NumI gap))"

definition asks_ok :: "int \<Rightarrow> videoSource \<Rightarrow> bool" where
  "asks_ok gap s \<longleftrightarrow> spaced gap (asks s) \<and> (asks s \<noteq> [] \<longrightarrow> vs_lastKeyframeAt s = last (asks s))"

lemma spaced_snoc:
  "spaced gap ts \<Longrightarrow> (ts \<noteq> [] \<Longrightarrow> \<not> num_less (num_sub t (last ts)) (NumI gap)) \<Longrightarrow> spaced gap (ts @ [t])"
proof -
  assume s: "spaced gap ts" and l: "ts \<noteq> [] \<Longrightarrow> \<not> num_less (num_sub t (last ts)) (NumI gap)"
  have "\<not> num_less (num_sub ((ts @ [t]) ! Suc k) ((ts @ [t]) ! k)) (NumI gap)" if k: "Suc k < length (ts @ [t])" for k
  proof (cases "Suc k = length ts")
    case True
    then have "ts \<noteq> []" and "k = length ts - 1" by auto
    then have "ts ! k = last ts" by (simp add: last_conv_nth)
    then show ?thesis using l \<open>ts \<noteq> []\<close> True by (simp add: nth_append)
  next
    case False
    then show ?thesis using s k by (simp add: spaced_def nth_append)
  qed
  then show "spaced gap (ts @ [t])" unfolding spaced_def by blast
qed

lemma asks_ok_frame: "asks t = asks s \<Longrightarrow> vs_lastKeyframeAt t = vs_lastKeyframeAt s \<Longrightarrow> asks_ok gap t = asks_ok gap s"
  by (simp add: asks_ok_def)

lemma asks_upd [simp]:
  "asks (s\<lparr>vs_viewers := a\<rparr>) = asks s" "asks (s\<lparr>vs_phase := b\<rparr>) = asks s" "asks (s\<lparr>vs_cancelStart := c\<rparr>) = asks s"
  "asks (s\<lparr>vs_cancelGrace := c\<rparr>) = asks s" "asks (s\<lparr>vs_source := c\<rparr>) = asks s" "asks (s\<lparr>vs_failedAt := d\<rparr>) = asks s"
  "asks (s\<lparr>vs_release := c\<rparr>) = asks s" "asks (s\<lparr>vs_stops := a\<rparr>) = asks s" "asks (s\<lparr>vs_live := a\<rparr>) = asks s"
  "asks (s\<lparr>vs_waiting := a\<rparr>) = asks s" "asks (s\<lparr>vs_created := n\<rparr>) = asks s" "asks (s\<lparr>vs_origin := w\<rparr>) = asks s"
  "asks (s\<lparr>vs_shift := x\<rparr>) = asks s" "asks (s\<lparr>vs_emitted := x\<rparr>) = asks s" "asks (s\<lparr>vs_sequence := n\<rparr>) = asks s"
  "asks (s\<lparr>vs_packets := n\<rparr>) = asks s" "asks (s\<lparr>vs_timers := ts\<rparr>) = asks s" "asks (s\<lparr>vs_nextTimer := n\<rparr>) = asks s"
  "asks (s\<lparr>vs_lastKeyframeAt := d\<rparr>) = asks s" "asks (s\<lparr>vs_keyframeRequests := n\<rparr>) = asks s"
  by (simp_all add: asks_def)

lemma asks_simps [simp]:
  "asks (cancel_timer t s) = asks s" "asks (source_remove v s) = asks s" "asks (schedule_timer k s) = asks s"
  "asks (tell su v s) = asks s"
  by (simp_all add: asks_def tell_def Let_def schedule_timer_def map_filter_append map_filter_def)

lemma asks_ok_say [simp]: "ask_time x = None \<Longrightarrow> asks_ok gap (say x s) = asks_ok gap s"
  by (rule asks_ok_frame) (simp_all add: asks_say)

lemma asks_ok_keyframe:
  "asks_ok (pliMinIntervalMs (su_settings su)) s \<Longrightarrow> asks_ok (pliMinIntervalMs (su_settings su)) (source_requestKeyframe su s)"
  unfolding source_requestKeyframe_def Let_def by (auto simp: asks_ok_def asks_say intro!: spaced_snoc)

lemma begin_create_asks [simp]: "asks (begin_create s) = asks s" "vs_lastKeyframeAt (begin_create s) = vs_lastKeyframeAt s"
  by (simp_all add: begin_create_def Let_def asks_say)

lemma fold_create_asks [simp]:
  "asks (fold (\<lambda>_. begin_create) ws s) = asks s"
  "vs_lastKeyframeAt (fold (\<lambda>_. begin_create) ws s) = vs_lastKeyframeAt s"
  by (induction ws arbitrary: s) simp_all

lemma begin_asks [simp]: "asks (source_begin su s) = asks s" "vs_lastKeyframeAt (source_begin su s) = vs_lastKeyframeAt s"
  by (simp_all add: source_begin_def Let_def schedule_timer_def split: option.split)

lemma finish_asks [simp]: "asks (source_finish su ph s) = asks s" "vs_lastKeyframeAt (source_finish su ph s) = vs_lastKeyframeAt s"
  by (simp_all add: source_finish_def Let_def asks_say split: option.split)

lemma step_asks_ok:
  assumes ok: "asks_ok gap s" and gap: "gap = pliMinIntervalMs (su_settings su)"
  shows "asks_ok gap (source_step su ev s)"
proof (cases ev)
  case (Attach v)
  define s2 where "s2 = (let s1 = (if v \<in> set (vs_viewers s) then s else s\<lparr>vs_viewers := vs_viewers s @ [v]\<rparr>)
     in (cancel_timer (vs_cancelGrace s1) s1)\<lparr>vs_cancelGrace := None\<rparr>)"
  have "asks_ok gap s2" using ok by (simp add: s2_def Let_def asks_ok_def)
  moreover from this have "asks_ok gap (source_requestKeyframe su s2)" unfolding gap by (rule asks_ok_keyframe)
  moreover have "asks_ok gap (tell su v t) = asks_ok gap t" "asks_ok gap (source_begin su t) = asks_ok gap t" for t
    by (rule asks_ok_frame; simp add: tell_frame)+
  ultimately show ?thesis using Attach by (simp add: source_add_def s2_def Let_def)
next
  case (EncoderPacket e p)
  have "keeps (asks_ok gap) (deliver su p)"
    unfolding deliver_def write_viewer_def
    by (intro keeps_rules keeps_renumber) (auto simp: Let_def asks_ok_def asks_say)
  then show ?thesis using EncoderPacket ok by (simp add: keeps_def)
next
  case (StopDone e)
  then show ?thesis using ok by (simp add: stop_done_def Let_def asks_ok_def)
qed (use ok asks_ok_keyframe [of su s] gap in \<open>auto simp: asks_ok_def fire_def source_close_def Let_def asks_say split: option.split timer_kind.split\<close>)

lemma run_asks_ok:
  "asks_ok gap s \<Longrightarrow> \<forall>x \<in> set evs. pliMinIntervalMs (su_settings (fst x)) = gap \<Longrightarrow> asks_ok gap (source_run evs s)"
  by (induction evs s rule: source_run.induct) (auto intro: step_asks_ok)

section \<open>Fan-out\<close>

definition written :: "surroundings \<Rightarrow> bytes \<Rightarrow> nat list \<Rightarrow> source_out list" where
  "written su q vs = concat (map (\<lambda>v. Wrote v q # (if su_writeThrows su v then [ErrorReported] else [])) vs)"

lemma write_all: "forE (write_viewer su q) vs s = (Inr (), s\<lparr>vs_out := vs_out s @ written su q vs\<rparr>)"
proof (induction vs arbitrary: s)
  case (Cons v vs)
  then show ?case by (auto simp: write_viewer_def prog_simps say_def Let_def written_def)
qed (simp add: prog_simps written_def)

section \<open>Properties\<close>


text \<open>
  C34: As long as no restart is asked for while an earlier one still waits for the previous encoder to
  go away, at most one encoder of the track exists at any time, and whenever one exists the source
  counts as running.
\<close>

theorem one_encoder:
  assumes "s = source_run evs newVideoSource" and "calm evs newVideoSource"
  shows "length (vs_live s) \<le> 1 \<and> (vs_live s \<noteq> [] \<longrightarrow> running s)"
proof -
  have inv: "source_inv s" unfolding assms(1) by (intro run_inv new_inv)
  have "single newVideoSource" by (simp add: single_def newVideoSource_def)
  then have one: "single s" unfolding assms(1) using assms(2) by (intro run_single new_inv)
  have "set (vs_live s) \<subseteq> set_option (vs_source s) \<union> set_option (vs_release s)" "vs_source s \<noteq> None \<longrightarrow> vs_release s = None"
    using one inv by (auto simp: single_def source_inv_def encoders_ok_def)
  then have "card (set (vs_live s)) \<le> 1" by (cases "vs_source s"; cases "vs_release s") (auto dest: card_mono [rotated])
  then have "length (vs_live s) \<le> 1" using inv by (simp add: source_inv_def encoders_ok_def distinct_card)
  moreover have "running s" if "vs_live s \<noteq> []"
  proof -
    have "vs_source s \<noteq> None \<or> vs_release s \<noteq> None" using that one by (cases "vs_live s") (auto simp: single_def)
    then show ?thesis using inv by (auto simp: running_def source_inv_def)
  qed
  ultimately show ?thesis by blast
qed

definition example_world :: surroundings where
  "example_world = \<lparr>su_settings = \<lparr>startTimeoutMs = 5000, stopGraceMs = 100, retryMinIntervalMs = 1000, pliMinIntervalMs = 500\<rparr>,
     su_framerate = 30, su_now = NumI 0, su_leaves = (\<lambda>_. False), su_writeThrows = (\<lambda>_. False), su_keyframeThrows = False\<rparr>"

abbreviation example_run :: "source_event list \<Rightarrow> videoSource" where
  "example_run evs \<equiv> source_run (map (Pair example_world) evs) newVideoSource"

text \<open>
  Restarts that overlap do create two encoders. A viewer comes back while the previous encoder is
  still being stopped, leaves again until the grace window ends, and another one comes: both restarts
  wait for the same release and both create an encoder when it is over. One of the two is then neither
  the source nor being released; it survives the close of the source, which no longer counts as
  running.
\<close>

theorem restart_overlap_leaks:
  "vs_live (example_run [Attach 0, Detach 0, Fires 1, Attach 1, Detach 1, Fires 3, Attach 2, StopDone 0]) = [1, 2]
   \<and> vs_live (example_run [Attach 0, Detach 0, Fires 1, Attach 1, Detach 1, Fires 3, Attach 2, StopDone 0, CloseSource, StopDone 2]) = [1]
   \<and> \<not> running (example_run [Attach 0, Detach 0, Fires 1, Attach 1, Detach 1, Fires 3, Attach 2, StopDone 0, CloseSource, StopDone 2])"
  by code_simp



text \<open>
  A packet of the encoder reaches every viewer of an active source exactly once, with the same
  bytes, whichever of the writes throw.
\<close>

theorem packet_fanout:
  assumes "vs_phase s = VActive" and "8 \<le> length p"
  shows "\<exists>q s'. renumber (su_framerate su) p (s\<lparr>vs_packets := Suc (vs_packets s)\<rparr>) = (Inr q, s')
    \<and> deliver su p s = (Inr (), s'\<lparr>vs_out := vs_out s @ written su q (vs_viewers s)\<rparr>)"
proof -
  let ?s = "s\<lparr>vs_packets := Suc (vs_packets s)\<rparr>"
  obtain q s' where r: "renumber (su_framerate su) p ?s = (Inr q, s')" and "vs_viewers s' = vs_viewers s" "vs_out s' = vs_out s"
    using assms(2) by (simp add: renumber_run Let_def)
  then show ?thesis using assms(1) by (auto simp: deliver_def prog_simps write_all)
qed

text \<open>
  Keyframe requests are rate limited: whatever viewers join and however many picture losses are
  reported, two successive requests to the encoder are never closer than the configured interval.
\<close>

theorem keyframes_spaced:
  assumes "s = source_run evs newVideoSource" and "\<forall>x \<in> set evs. pliMinIntervalMs (su_settings (fst x)) = gap"
    and "Suc k < length (asks s)"
  shows "\<not> num_less (num_sub (asks s ! Suc k) (asks s ! k)) (NumI gap)"
proof -
  have "asks_ok gap newVideoSource" by (simp add: asks_ok_def asks_def newVideoSource_def map_filter_def spaced_def)
  then have "asks_ok gap s" unfolding assms(1) using assms(2) by (rule run_asks_ok)
  then show ?thesis using assms(3) by (simp add: asks_ok_def spaced_def)
qed

section \<open>Witnesses\<close>


theorem one_encoder_witness:
  "\<exists>s. s = example_run [Attach 0, Detach 0, Fires 1, Attach 1, StopDone 0] \<and> vs_live s = [1] \<and> running s"
proof -
  let ?evs = "[Attach 0, Detach 0, Fires 1, Attach 1, StopDone 0]"
  have "vs_live (example_run ?evs) = [1] \<and> calm (map (Pair example_world) ?evs) newVideoSource" by code_simp
  then show ?thesis using one_encoder [of "example_run ?evs", OF refl] by (simp del: source_run.simps list.map calm.simps)
qed


theorem packet_fanout_witness:
  "\<exists>q s'. deliver example_world (replicate 12 0) (newVideoSource\<lparr>vs_phase := VActive, vs_viewers := [3]\<rparr>)
     = (Inr (), s'\<lparr>vs_out := [Wrote 3 q]\<rparr>)"
  using packet_fanout [of "newVideoSource\<lparr>vs_phase := VActive, vs_viewers := [3]\<rparr>" "replicate 12 0" example_world]
  by (auto simp: newVideoSource_def written_def example_world_def)

theorem keyframes_spaced_witness:
  "\<exists>s. s = source_run [(example_world, Pli), (example_world\<lparr>su_now := NumI 600\<rparr>, Pli)] newVideoSource
     \<and> asks s = [NumI 0, NumI 600] \<and> \<not> num_less (num_sub (NumI 600) (NumI 0)) (NumI 500)"
proof -
  let ?evs = "[(example_world, Pli), (example_world\<lparr>su_now := NumI 600\<rparr>, Pli)]"
  have d: "num_sub (NumI 600) (NumI 0) = NumI 600" using num_add_int [of 600 0] by (simp add: num_sub_def)
  have i: "num_sub (NumI 0) NegInfinity = Infinity" by (simp add: num_sub_def)
  have a: "asks (source_run ?evs newVideoSource) = [NumI 0, NumI 600]"
    using d i by (simp add: source_requestKeyframe_def newVideoSource_def example_world_def say_def asks_def map_filter_def Let_def)
  from keyframes_spaced [of "source_run ?evs newVideoSource" ?evs 500 0, OF refl] a show ?thesis
    by (auto simp: example_world_def)
qed

end
