(* ===== verification/Media_Service.thy ===== *)
theory Media_Service
  imports Media_Source
begin

text \<open>
  \<open>media/index.ts\<close>: the media plane. One source per configured track; attaching a viewer is refused
  for unknown tracks, above the configured number of running encoders, and inside the retry window
  after a failure.
\<close>

section \<open>State and operations\<close>

record mediaService =
  ms_config :: videoConfig
  ms_sources :: "(ustring \<times> videoSource) list"
  ms_closed :: bool

text \<open>\<open>Map.set\<close> in a loop over the configured tracks.\<close>

definition newMediaService :: "videoConfig \<Rightarrow> mediaService" where
  "newMediaService cfg =
     \<lparr>ms_config = cfg, ms_sources = fold (\<lambda>b. AList.update (v_name b) newVideoSource) (vc_tracks cfg) [], ms_closed = False\<rparr>"

definition media_maxSlots :: "mediaService \<Rightarrow> int" where
  "media_maxSlots m = maxSlotsPerPeer (vc_limits (ms_config m))"

definition media_catalog :: "(videoBinding \<Rightarrow> bool) \<Rightarrow> mediaService \<Rightarrow> (ustring \<times> string) list" where
  "media_catalog allowed m = map (\<lambda>b. (v_name b, ''h264'')) (filter allowed (vc_tracks (ms_config m)))"

definition media_diagnostics :: "mediaService \<Rightarrow> videoDiagnostics list" where
  "media_diagnostics m = map (\<lambda>p. source_diagnostics (snd p)) (ms_sources m)"

definition media_source :: "ustring \<Rightarrow> mediaService \<Rightarrow> videoSource result" where
  "media_source track m =
     (case map_of (ms_sources m) track of
        None \<Rightarrow> Inl (Err ''unknown_video_track'')
      | Some s \<Rightarrow> if ms_closed m then Inl (Err ''unknown_video_track'') else Inr s)"

definition media_running :: "mediaService \<Rightarrow> nat" where
  "media_running m = length (filter (\<lambda>p. running (snd p)) (ms_sources m))"

definition put_source :: "ustring \<Rightarrow> videoSource \<Rightarrow> mediaService \<Rightarrow> mediaService" where
  "put_source track s m = m\<lparr>ms_sources := AList.update track s (ms_sources m)\<rparr>"

definition media_attach :: "surroundings \<Rightarrow> ustring \<Rightarrow> nat \<Rightarrow> (mediaService, unit) prog" where
  "media_attach su track v =
     bindE (\<lambda>m. (media_source track m, m)) (\<lambda>s.
     bindE (getE (\<lambda>m. \<not> running s \<and> int (media_running m) \<ge> maxPipelines (vc_limits (ms_config m)))) (\<lambda>full.
     seqE (throwIf full (Err ''video_pipeline_limit''))
    (seqE (throwIf (\<not> retryable su s) (Err ''video_retry_too_soon''))
    (modE (put_source track (source_add su v s))))))"

definition media_detach :: "ustring \<Rightarrow> nat \<Rightarrow> (mediaService, unit) prog" where
  "media_detach track v =
     bindE (\<lambda>m. (media_source track m, m)) (\<lambda>s. modE (put_source track (source_remove v s)))"

definition media_requestKeyframe :: "surroundings \<Rightarrow> ustring \<Rightarrow> (mediaService, unit) prog" where
  "media_requestKeyframe su track =
     bindE (\<lambda>m. (media_source track m, m)) (\<lambda>s. modE (put_source track (source_requestKeyframe su s)))"

text \<open>\<open>close\<close>: every source runs to its \<open>await\<close>.\<close>

definition media_close :: "surroundings \<Rightarrow> mediaService \<Rightarrow> mediaService" where
  "media_close su m = m\<lparr>ms_closed := True, ms_sources := map (\<lambda>(n, s). (n, source_close su s)) (ms_sources m)\<rparr>"

subsection \<open>Probing\<close>

text \<open>
  A probe races the backend's answer against the start deadline; only one that never answered has to be
  stopped here. The boolean says whether \<open>stop\<close> was called.
\<close>

datatype probe_race = Answers "unit result" | Expires

fun source_probe :: "probe_race \<Rightarrow> unit result \<times> bool" where
  "source_probe (Answers r) = (r, False)"
| "source_probe Expires = (Inl (Err ''backend did not answer the probe''), True)"

text \<open>\<open>factory\<close>: a backend the build does not provide fails its probe. \<open>backends b\<close> is its race, if provided.\<close>

definition factory_probe :: "(backend \<Rightarrow> probe_race option) \<Rightarrow> backend \<Rightarrow> probe_race" where
  "factory_probe backends b =
     (case backends b of Some r \<Rightarrow> r | None \<Rightarrow> Answers (Inl (Err ''backend is not available in this build'')))"

record probe_error =
  pe_track :: ustring
  pe_backend :: backend
  pe_cause :: error

definition backend_of :: "mediaService \<Rightarrow> ustring \<Rightarrow> backend option" where
  "backend_of m track = map_option (\<lambda>b. e_backend (v_encoder b)) (find (\<lambda>b. v_name b = track) (vc_tracks (ms_config m)))"

fun probe_tracks :: "mediaService \<Rightarrow> (backend \<Rightarrow> probe_race option) \<Rightarrow> ustring list \<Rightarrow> probe_error option" where
  "probe_tracks m backends [] = None"
| "probe_tracks m backends (t # ts) =
     (case backend_of m t of
        None \<Rightarrow> None
      | Some b \<Rightarrow>
          (case fst (source_probe (factory_probe backends b)) of
             Inl e \<Rightarrow> Some \<lparr>pe_track = t, pe_backend = b, pe_cause = e\<rparr>
           | Inr _ \<Rightarrow> probe_tracks m backends ts))"

definition media_probe :: "(backend \<Rightarrow> probe_race option) \<Rightarrow> mediaService \<Rightarrow> probe_error option" where
  "media_probe backends m = probe_tracks m backends (keys (ms_sources m))"

section \<open>Steps\<close>

text \<open>What happens to a source other than through the service: timers, its encoder, the end of a stop.\<close>

fun internal :: "source_event \<Rightarrow> bool" where
  "internal (Attach v) = False" | "internal (Detach v) = False" | "internal Pli = False" | "internal CloseSource = False"
| "internal _ = True"

inductive media_step :: "mediaService \<Rightarrow> mediaService \<Rightarrow> bool" where
  step_attach: "media_step m (snd (media_attach su track v m))"
| step_detach: "media_step m (snd (media_detach track v m))"
| step_keyframe: "media_step m (snd (media_requestKeyframe su track m))"
| step_close: "media_step m (media_close su m)"
| step_internal: "map_of (ms_sources m) track = Some s \<Longrightarrow> internal ev \<Longrightarrow> media_step m (put_source track (source_step su ev s) m)"

inductive_cases media_stepE: "media_step m m'"

section \<open>Invariant\<close>

definition media_inv :: "mediaService \<Rightarrow> bool" where
  "media_inv m \<longleftrightarrow>
     distinct (keys (ms_sources m)) \<and> (\<forall>p \<in> set (ms_sources m). source_inv (snd p))
     \<and> int (media_running m) \<le> maxPipelines (vc_limits (ms_config m))"

text \<open>Only attaching a viewer makes a source run.\<close>

lemma not_running_step:
  assumes inv: "source_inv s" and nr: "\<not> running s" and ev: "\<forall>v. ev \<noteq> Attach v"
  shows "\<not> running (source_step su ev s)"
proof -
  have ph: "\<not> watched_phase (vs_phase s)" and rel: "vs_release s = None"
    using nr by (auto simp: running_def)
  have f: "vs_viewers s = []" "vs_source s = None" "vs_stops s = []"
    using inv ph rel by (auto simp: source_inv_def encoders_ok_def)
  have t: "vs_timers s = []"
  proof -
    have "vs_cancelStart s = None" "vs_cancelGrace s = None" using inv ph by (auto simp: source_inv_def viewers_ok_def)
    then have "set (vs_timers s) = {}" using inv by (simp add: source_inv_def viewers_ok_def timers_ok_def)
    then show ?thesis by simp
  qed
  have fin: "\<not> running (source_finish su x r)" if "vs_source r = None" "vs_release r = None" "\<not> watched_phase x" for r x
    using that by (cases x) (auto simp: running_def source_finish_def Let_def)
  show ?thesis
    using f t nr ev fin by (cases ev) (auto simp: running_def fire_def source_close_def source_requestKeyframe_def Let_def)
qed

lemma media_running_update:
  assumes "distinct (keys (ms_sources m))" and "map_of (ms_sources m) track = Some s"
  shows "int (media_running (put_source track s' m)) =
    int (media_running m) - (if running s then 1 else 0) + (if running s' then 1 else 0)"
proof -
  have len: "int (length (filter P xs)) = sum_list (map (\<lambda>x. if P x then 1 else 0) xs)" for P and xs :: "'a list"
    by (induction xs) auto
  show ?thesis
    using sum_list_update [OF assms, of "\<lambda>p. if running (snd p) then 1 else 0" s']
    by (simp add: media_running_def put_source_def len)
qed

lemma put_source_inv:
  assumes inv: "media_inv m" and s: "map_of (ms_sources m) track = Some s" and s': "source_inv s'"
    and run: "running s' \<Longrightarrow> \<not> running s \<Longrightarrow> int (media_running m) < maxPipelines (vc_limits (ms_config m))"
  shows "media_inv (put_source track s' m)"
proof -
  have d: "distinct (keys (ms_sources m))" using inv by (simp add: media_inv_def)
  have "int (media_running (put_source track s' m)) \<le> maxPipelines (vc_limits (ms_config m))"
    using media_running_update [OF d s, of s'] run inv by (auto simp: media_inv_def)
  moreover have "\<forall>p \<in> set (AList.update track s' (ms_sources m)). source_inv (snd p)"
    using inv s' by (auto simp: media_inv_def dest!: set_update_cases)
  ultimately show ?thesis using d by (simp add: media_inv_def put_source_def distinct_update)
qed

lemma media_source_Inr: "media_source track m = Inr s \<longleftrightarrow> map_of (ms_sources m) track = Some s \<and> \<not> ms_closed m"
  by (auto simp: media_source_def split: option.splits if_splits)

lemma media_source_inv: "media_inv m \<Longrightarrow> map_of (ms_sources m) track = Some s \<Longrightarrow> source_inv s"
  by (auto simp: media_inv_def dest!: map_of_SomeD)

lemma media_attach_run:
  "media_attach su track v m =
     (case media_source track m of
        Inl e \<Rightarrow> (Inl e, m)
      | Inr s \<Rightarrow>
          if \<not> running s \<and> maxPipelines (vc_limits (ms_config m)) \<le> int (media_running m)
          then (Inl (Err ''video_pipeline_limit''), m)
          else if \<not> retryable su s then (Inl (Err ''video_retry_too_soon''), m)
          else (Inr (), put_source track (source_add su v s) m))"
  by (auto simp: media_attach_def prog_simps split: sum.split)

lemma attach_cases:
  obtains (refused) e where "media_attach su track v m = (Inl e, m)"
  | (taken) s where "media_source track m = Inr s" "running s \<or> int (media_running m) < maxPipelines (vc_limits (ms_config m))"
      "retryable su s" "media_attach su track v m = (Inr (), put_source track (source_add su v s) m)"
proof (cases "media_source track m")
  case (Inl e)
  then show ?thesis using refused by (simp add: media_attach_run)
next
  case (Inr s)
  then show ?thesis
    using refused taken
    by (cases "\<not> running s \<and> maxPipelines (vc_limits (ms_config m)) \<le> int (media_running m)"; cases "retryable su s")
      (auto simp: media_attach_run)
qed

lemma step_media_inv: "media_inv m \<Longrightarrow> media_step m m' \<Longrightarrow> media_inv m'"
proof -
  assume inv: "media_inv m" and step: "media_step m m'"
  have keep: "media_inv (put_source track (source_step su ev s) m)"
    if "map_of (ms_sources m) track = Some s" "\<forall>v. ev \<noteq> Attach v" for track s su ev
    using that inv media_source_inv [OF inv that(1)] not_running_step [of s ev su] step_inv [of s su ev]
    by (intro put_source_inv) auto
  from step show "media_inv m'"
  proof (cases rule: media_step.cases)
    case (step_attach su track v)
    show ?thesis
    proof (cases rule: attach_cases [of su track v m])
      case (refused e)
      then show ?thesis using inv step_attach by simp
    next
      case (taken s)
      then show ?thesis
        using inv step_attach media_source_inv [OF inv] add_inv
        by (auto simp: media_source_Inr intro!: put_source_inv)
    qed
  next
    case (step_detach track v)
    then show ?thesis
      using inv keep [of track _ "Detach v" undefined]
      by (cases "media_source track m") (auto simp: media_detach_def prog_simps media_source_Inr)
  next
    case (step_keyframe su track)
    then show ?thesis
      using inv keep [of track _ Pli su]
      by (cases "media_source track m") (auto simp: media_requestKeyframe_def prog_simps media_source_Inr)
  next
    case (step_close su)
    let ?close = "\<lambda>p. (fst p, source_close su (snd p))"
    have "\<not> running (source_close su s)" if "source_inv s" "\<not> running s" for s
      using not_running_step [of s CloseSource su] that by simp
    then have "length (filter (\<lambda>p. running (snd p)) (map ?close xs)) \<le> length (filter (\<lambda>p. running (snd p)) xs)"
      if "\<forall>p \<in> set xs. source_inv (snd p)" for xs :: "(ustring \<times> videoSource) list"
      using that by (induction xs) auto
    then have "int (media_running m') \<le> int (media_running m)"
      using inv by (simp add: step_close media_close_def media_running_def media_inv_def case_prod_unfold)
    moreover have "source_inv (source_close su s)" if "source_inv s" for s
      using step_inv [of s su CloseSource] that by simp
    ultimately show ?thesis
      using inv by (auto simp: step_close media_close_def media_inv_def case_prod_unfold comp_def)
  next
    case (step_internal track s ev su)
    then have "\<forall>v. ev \<noteq> Attach v" by (cases ev) auto
    then show ?thesis using keep step_internal by blast
  qed
qed

lemma newMediaService_inv:
  assumes "0 \<le> maxPipelines (vc_limits cfg)"
  shows "media_inv (newMediaService cfg)"
proof -
  have all: "distinct (keys xs) \<and> (\<forall>p \<in> set xs. snd p = newVideoSource) \<Longrightarrow>
      distinct (keys (fold (\<lambda>b. AList.update (v_name b) newVideoSource) bs xs))
      \<and> (\<forall>p \<in> set (fold (\<lambda>b. AList.update (v_name b) newVideoSource) bs xs). snd p = newVideoSource)" for bs xs
  proof (induction bs arbitrary: xs)
    case (Cons b bs)
    let ?xs = "AList.update (v_name b) newVideoSource xs"
    have "distinct (keys ?xs)" using Cons.prems by (simp add: distinct_update)
    moreover have "snd p = newVideoSource" if "p \<in> set ?xs" for p
      using set_update_cases [OF that] Cons.prems by auto
    ultimately show ?case using Cons.IH [of ?xs] by simp
  qed simp
  have s: "distinct (keys (ms_sources (newMediaService cfg)))" "\<forall>p \<in> set (ms_sources (newMediaService cfg)). snd p = newVideoSource"
    using all [of "[]" "vc_tracks cfg"] by (simp_all add: newMediaService_def)
  moreover have "media_running (newMediaService cfg) = 0"
    using s(2) by (auto simp: media_running_def filter_empty_conv running_def newVideoSource_def)
  ultimately show ?thesis using assms by (auto simp: media_inv_def new_inv newMediaService_def)
qed

interpretation media: invariant_system "\<lambda>m. m = newMediaService cfg \<and> 0 \<le> maxPipelines (vc_limits cfg)" media_step
    "\<lambda>m. media_inv m \<and> ms_config m = cfg"
proof
  show "m = newMediaService cfg \<and> 0 \<le> maxPipelines (vc_limits cfg) \<Longrightarrow> media_inv m \<and> ms_config m = cfg" for m
    using newMediaService_inv by (auto simp: newMediaService_def)
next
  fix m m'
  assume m: "media_inv m \<and> ms_config m = cfg" and step: "media_step m m'"
  from step have "ms_config m' = ms_config m"
  proof (cases rule: media_step.cases)
    case (step_attach su track v)
    then show ?thesis by (cases rule: attach_cases [of su track v m]) (simp_all add: put_source_def)
  next
    case (step_detach track v)
    then show ?thesis by (cases "media_source track m") (simp_all add: media_detach_def prog_simps put_source_def)
  next
    case (step_keyframe su track)
    then show ?thesis by (cases "media_source track m") (simp_all add: media_requestKeyframe_def prog_simps put_source_def)
  qed (simp_all add: media_close_def put_source_def)
  then show "media_inv m' \<and> ms_config m' = cfg" using m step step_media_inv by auto
qed

section \<open>Properties\<close>

text \<open>
  C37: However viewers come and go, encoders fail, timers fire and stops complete, the number of sources
  that run, grace window and pending release included, never exceeds the configured number of
  pipelines.
\<close>

theorem pipelines_bounded:
  assumes "reachable (\<lambda>m. m = newMediaService cfg \<and> 0 \<le> maxPipelines (vc_limits cfg)) media_step m"
  shows "int (media_running m) \<le> maxPipelines (vc_limits cfg)"
  using media.reachable_inv [OF assms] by (auto simp: media_inv_def)

text \<open>
  A refused attachment leaves no trace: an unknown track, a closed media plane, the pipeline limit and
  the retry window are reported as such and change nothing; otherwise the viewer is taken on.
\<close>

theorem attach_refused_clean:
  "media_attach su track v m =
     (case map_of (ms_sources m) track of
        None \<Rightarrow> (Inl (Err ''unknown_video_track''), m)
      | Some s \<Rightarrow>
          if ms_closed m then (Inl (Err ''unknown_video_track''), m)
          else if \<not> running s \<and> maxPipelines (vc_limits (ms_config m)) \<le> int (media_running m)
          then (Inl (Err ''video_pipeline_limit''), m)
          else if \<not> num_le (NumI (retryMinIntervalMs (su_settings su))) (num_sub (su_now su) (vs_failedAt s))
          then (Inl (Err ''video_retry_too_soon''), m)
          else (Inr (), put_source track (source_add su v s) m))"
  by (auto simp: media_attach_run media_source_def retryable_def split: option.split)

section \<open>Witnesses\<close>

definition example_media :: videoConfig where
  "example_media = \<lparr>vc_settings = su_settings example_world,
     vc_limits = \<lparr>maxTracks = 1, maxPipelines = 1, maxSlotsPerPeer = 1, maxWidth = 640, maxHeight = 480, maxFramerate = 30\<rparr>,
     vc_tracks = [example_track]\<rparr>"

theorem pipelines_bounded_witness:
  "\<exists>m. reachable (\<lambda>m. m = newMediaService example_media \<and> 0 \<le> maxPipelines (vc_limits example_media)) media_step m
     \<and> media_running m = 1 \<and> int (media_running m) \<le> 1"
proof -
  let ?m = "put_source (ustr ''front'') (source_add example_world 0 newVideoSource) (newMediaService example_media)"
  have s: "ms_sources (newMediaService example_media) = [(ustr ''front'', newVideoSource)]"
    by (simp add: newMediaService_def example_media_def example_track_def)
  have i: "num_sub (NumI 0) NegInfinity = Infinity" by (simp add: num_sub_def)
  have "snd (media_attach example_world (ustr ''front'') 0 (newMediaService example_media)) = ?m"
    using i by (simp add: media_attach_def media_source_def prog_simps s media_running_def retryable_def)
      (simp add: running_def newVideoSource_def newMediaService_def example_media_def example_world_def)
  then have "media_step (newMediaService example_media) ?m" by (metis step_attach)
  then have r: "reachable (\<lambda>m. m = newMediaService example_media \<and> 0 \<le> maxPipelines (vc_limits example_media)) media_step ?m"
    by (intro reach_step [OF reach_start]) (auto simp: example_media_def)
  have "running (source_add example_world 0 newVideoSource)" by code_simp
  then have "media_running ?m = 1" by (simp add: media_running_def put_source_def s)
  then show ?thesis using r pipelines_bounded [OF r] by (intro exI [of _ ?m]) simp
qed

end
