(* ===== verification/Media_Fixture.thy ===== *)
theory Media_Fixture
  imports Media_Source
begin

text \<open>
  \<open>media/fixture.ts\<close>: the backend that replays a recording. Parsing groups the packets of an RFC 4571
  framed recording into frames and finds the points a decoder can join at; playback loops over the
  frames with continuous numbering.
\<close>

section \<open>Parsing\<close>

definition RTP_HEADER_BYTES :: nat where
  "RTP_HEADER_BYTES = 12"

definition FU_A :: nat where
  "FU_A = 28"

definition NAL_SPS :: nat where
  "NAL_SPS = 7"

text \<open>A frame under construction: its packets, whether one starts a keyframe, and its timestamp.\<close>

record fx_frame =
  ff_packets :: "bytes list"
  ff_keyframe :: bool
  ff_timestamp :: "32 word"

text \<open>\<open>packet[12] & 0x1f\<close>; a fragment carries the type in the next byte, whose absence reads as \<open>undefined & 0x1f\<close>, zero.\<close>

definition nal_type :: "bytes \<Rightarrow> nat" where
  "nal_type p =
     (let ty = unat (p ! RTP_HEADER_BYTES) mod 32 in
      if ty = FU_A then (if length p > RTP_HEADER_BYTES + 1 then unat (p ! (RTP_HEADER_BYTES + 1)) mod 32 else 0) else ty)"

definition add_packet :: "bytes \<Rightarrow> fx_frame list \<Rightarrow> fx_frame list" where
  "add_packet p frames =
     (let key = (nal_type p = NAL_SPS); ts = get32 4 p in
      if frames \<noteq> [] \<and> ff_timestamp (last frames) = ts
      then butlast frames @ [(last frames)\<lparr>ff_packets := ff_packets (last frames) @ [p],
             ff_keyframe := (ff_keyframe (last frames) \<or> key)\<rparr>]
      else frames @ [\<lparr>ff_packets = [p], ff_keyframe = key, ff_timestamp = ts\<rparr>])"

text \<open>The loop over the recording; \<open>rest\<close> is what lies behind the offset.\<close>

function parse_frames :: "fx_frame list \<Rightarrow> bytes \<Rightarrow> fx_frame list result" where
  "parse_frames frames rest =
     (if length rest < 2 then Inr frames
      else let n = be16 rest; packet = take n (drop 2 rest) in
           if n < RTP_HEADER_BYTES + 1 \<or> length packet \<noteq> n then Inl (Err ''fixture is not a framed RTP recording'')
           else parse_frames (add_packet packet frames) (drop (2 + n) rest))"
  by pat_completeness auto

termination
  by (relation "measure (\<lambda>(frames, rest). length rest)") auto

declare parse_frames.simps [simp del]

record played_frame =
  pf_packets :: "bytes list"
  pf_keyframe :: bool
  pf_delayMs :: number

record recording =
  rec_frames :: "played_frame list"
  rec_keyframes :: "nat list"

text \<open>The gap to the next frame in milliseconds; the last frame reuses the previous gap, a single one counts one.\<close>

definition gap_ms :: "fx_frame list \<Rightarrow> nat \<Rightarrow> number" where
  "gap_ms frames i = num_div (NumI (uint (ff_timestamp (frames ! Suc i)) - uint (ff_timestamp (frames ! i)))) (NumI 90)"

fun num_max :: "number \<Rightarrow> number \<Rightarrow> number" where
  "num_max NaN b = NaN"
| "num_max a NaN = NaN"
| "num_max a b = (if num_less a b then b else a)"

definition delay_ms :: "fx_frame list \<Rightarrow> nat \<Rightarrow> number" where
  "delay_ms frames i =
     num_max (NumI 1) (math_round
       (if Suc i < length frames then gap_ms frames i
        else if length frames \<ge> 2 then gap_ms frames (length frames - 2) else NumI 1))"

definition fixture_parse :: "bytes \<Rightarrow> recording result" where
  "fixture_parse fixture =
     bindR (parse_frames [] fixture) (\<lambda>frames.
     bindR (failIf (frames = [] \<or> \<not> list_ex ff_keyframe frames) (Err ''fixture contains no keyframe'')) (\<lambda>_.
     let played = map (\<lambda>i. \<lparr>pf_packets = ff_packets (frames ! i), pf_keyframe = ff_keyframe (frames ! i),
                            pf_delayMs = delay_ms frames i\<rparr>) [0..<length frames]
     in Inr \<lparr>rec_frames = played, rec_keyframes = filter (\<lambda>i. pf_keyframe (played ! i)) [0..<length played]\<rparr>))"

section \<open>Playback\<close>

record player =
  pl_recording :: "recording option"
  pl_armed :: bool
  pl_cursor :: nat
  pl_sequence :: nat
  pl_timestamp :: "32 word"
  pl_out :: "bytes list"

definition newPlayer :: player where
  "newPlayer = \<lparr>pl_recording = None, pl_armed = False, pl_cursor = 0, pl_sequence = 0, pl_timestamp = 0, pl_out = []\<rparr>"

definition play_packet :: "bytes \<Rightarrow> player \<Rightarrow> player" where
  "play_packet packet p =
     p\<lparr>pl_sequence := Suc (pl_sequence p),
       pl_out := pl_out p @ [put32 (pl_timestamp p) 4 (put16 (pl_sequence p mod 65536) 2 packet)]\<rparr>"

fun num_mul :: "number \<Rightarrow> number \<Rightarrow> number" where
  "num_mul (Num x) (Num y) = to_double (x * y)"
| "num_mul (Num x) Infinity = (if x = 0 then NaN else if 0 < x then Infinity else NegInfinity)"
| "num_mul (Num x) NegInfinity = (if x = 0 then NaN else if 0 < x then NegInfinity else Infinity)"
| "num_mul Infinity (Num y) = (if y = 0 then NaN else if 0 < y then Infinity else NegInfinity)"
| "num_mul NegInfinity (Num y) = (if y = 0 then NaN else if 0 < y then NegInfinity else Infinity)"
| "num_mul Infinity Infinity = Infinity"
| "num_mul NegInfinity NegInfinity = Infinity"
| "num_mul Infinity NegInfinity = NegInfinity"
| "num_mul NegInfinity Infinity = NegInfinity"
| "num_mul _ _ = NaN"

text \<open>\<open>Math.round(frame.delayMs * 90) >>> 0\<close>\<close>

definition delay_ticks :: "number \<Rightarrow> 32 word" where
  "delay_ticks d = of_int (num_int (math_round (num_mul d (NumI 90))))"

definition play :: "player \<Rightarrow> player" where
  "play p =
     (case pl_recording p of
        None \<Rightarrow> p
      | Some r \<Rightarrow>
          let frames = rec_frames r; frame = frames ! pl_cursor p;
              p1 = p\<lparr>pl_cursor := (pl_cursor p + 1) mod length frames\<rparr>;
              p2 = fold play_packet (pf_packets frame) p1
          in p2\<lparr>pl_timestamp := pl_timestamp p2 + delay_ticks (pf_delayMs frame), pl_armed := True\<rparr>)"

definition fixture_start :: "bytes \<Rightarrow> (player, unit) prog" where
  "fixture_start fixture =
     bindE (liftE (fixture_parse fixture)) (\<lambda>r.
     seqE (modE (\<lambda>p. p\<lparr>pl_recording := Some r\<rparr>)) (modE play))"

definition fixture_probe :: "bytes \<Rightarrow> unit result" where
  "fixture_probe fixture = bindR (fixture_parse fixture) (\<lambda>_. Inr ())"

definition fixture_requestKeyframe :: "player \<Rightarrow> player" where
  "fixture_requestKeyframe p =
     (case pl_recording p of
        None \<Rightarrow> p
      | Some r \<Rightarrow>
          p\<lparr>pl_cursor := (case find (\<lambda>i. pl_cursor p \<le> i) (rec_keyframes r) of
              Some i \<Rightarrow> i | None \<Rightarrow> rec_keyframes r ! 0)\<rparr>)"

definition fixture_stop :: "player \<Rightarrow> player" where
  "fixture_stop p = p\<lparr>pl_armed := False\<rparr>"

text \<open>The timer armed by \<open>play\<close> fires.\<close>

definition play_timer :: "player \<Rightarrow> player" where
  "play_timer p = (if pl_armed p then play (p\<lparr>pl_armed := False\<rparr>) else p)"

section \<open>Frames of a recording\<close>

definition frame_ok :: "fx_frame \<Rightarrow> bool" where
  "frame_ok f \<longleftrightarrow>
     ff_packets f \<noteq> [] \<and> (\<forall>p \<in> set (ff_packets f). get32 4 p = ff_timestamp f)
     \<and> (ff_keyframe f \<longleftrightarrow> (\<exists>p \<in> set (ff_packets f). nal_type p = NAL_SPS))"

text \<open>Frames in playback order: neighbours have different timestamps, so that a frame is a maximal run.\<close>

definition frames_ok :: "fx_frame list \<Rightarrow> bool" where
  "frames_ok fs \<longleftrightarrow> list_all frame_ok fs \<and> successively (\<lambda>f g. ff_timestamp f \<noteq> ff_timestamp g) fs"

lemma add_packet_ok:
  assumes "frames_ok fs"
  shows "frames_ok (add_packet p fs) \<and> concat (map ff_packets (add_packet p fs)) = concat (map ff_packets fs) @ [p]"
proof (cases fs rule: rev_cases)
  case Nil
  then show ?thesis by (simp add: add_packet_def Let_def frames_ok_def frame_ok_def)
next
  case (snoc gs g)
  show ?thesis
  proof (cases "ff_timestamp g = get32 4 p")
    case True
    then show ?thesis
      using assms by (auto simp: snoc add_packet_def Let_def frames_ok_def frame_ok_def successively_append_iff)
  next
    case False
    then show ?thesis
      using assms by (auto simp: snoc add_packet_def Let_def frames_ok_def frame_ok_def successively_append_iff)
  qed
qed

definition recorded_ok :: "bytes \<Rightarrow> bool" where
  "recorded_ok p \<longleftrightarrow> 13 \<le> length p \<and> length p < 65536"

lemma be16_recorded: "length x < 65536 \<Longrightarrow> be16 (frame4571 x @ r) = length x"
proof -
  assume "length x < 65536"
  then have "unat (of_nat (length x div 256) :: 8 word) = length x div 256"
    "unat (of_nat (length x mod 256) :: 8 word) = length x mod 256"
    by (simp_all add: unat_of_nat)
  then show ?thesis by (simp add: be16_def frame4571_def)
qed

lemma parse_frames_packets:
  "frames_ok fs \<Longrightarrow> list_all recorded_ok ps \<Longrightarrow>
     \<exists>gs. parse_frames fs (concat (map frame4571 ps)) = Inr gs \<and> frames_ok gs
       \<and> concat (map ff_packets gs) = concat (map ff_packets fs) @ ps"
proof (induction ps arbitrary: fs)
  case Nil
  then show ?case by (simp add: parse_frames.simps)
next
  case (Cons p ps)
  let ?rest = "frame4571 p @ concat (map frame4571 ps)"
  have p: "13 \<le> length p" "length p < 65536" using Cons.prems(2) by (simp_all add: recorded_ok_def)
  have n: "be16 ?rest = length p" using p(2) by (rule be16_recorded)
  have "length (frame4571 p) = 2 + length p" "drop 2 (frame4571 p) = p" by (simp_all add: frame4571_def)
  then have "parse_frames fs ?rest = parse_frames (add_packet p fs) (concat (map frame4571 ps))"
    using n p(1) by (subst parse_frames.simps) (simp add: Let_def RTP_HEADER_BYTES_def)
  moreover obtain gs where "parse_frames (add_packet p fs) (concat (map frame4571 ps)) = Inr gs" "frames_ok gs"
    "concat (map ff_packets gs) = concat (map ff_packets (add_packet p fs)) @ ps"
    using Cons.IH [of "add_packet p fs"] add_packet_ok [OF Cons.prems(1), of p] Cons.prems(2) by auto
  ultimately show ?case using add_packet_ok [OF Cons.prems(1), of p] by simp
qed

lemma parse_frames_ok: "parse_frames fs rest = Inr gs \<Longrightarrow> frames_ok fs \<Longrightarrow> frames_ok gs"
proof (induction fs rest rule: parse_frames.induct)
  case (1 fs rest)
  show ?case
  proof (cases "length rest < 2")
    case True
    with 1 show ?thesis by (simp add: parse_frames.simps)
  next
    case False
    define n where "n = be16 rest"
    define packet where "packet = take n (drop 2 rest)"
    have ok: "\<not> (n < RTP_HEADER_BYTES + 1 \<or> length packet \<noteq> n)"
      and go: "parse_frames (add_packet packet fs) (drop (2 + n) rest) = Inr gs"
      using 1(2) False by (auto simp: parse_frames.simps [of fs rest] Let_def n_def packet_def split: if_splits)
    show ?thesis
      by (rule 1(1) [OF False n_def packet_def ok go]) (use add_packet_ok [OF 1(3)] in blast)
  qed
qed

section \<open>The player\<close>

definition recording_ok :: "recording \<Rightarrow> bool" where
  "recording_ok r \<longleftrightarrow>
     rec_frames r \<noteq> [] \<and> rec_keyframes r \<noteq> []
     \<and> (\<forall>i. i \<in> set (rec_keyframes r) \<longleftrightarrow> i < length (rec_frames r) \<and> pf_keyframe (rec_frames r ! i))
     \<and> sorted (rec_keyframes r) \<and> (\<forall>f \<in> set (rec_frames r). \<forall>p \<in> set (pf_packets f). 13 \<le> length p)"

lemma add_packet_set:
  "\<forall>f \<in> set fs. \<forall>q \<in> set (ff_packets f). P q \<Longrightarrow> P p \<Longrightarrow> \<forall>f \<in> set (add_packet p fs). \<forall>q \<in> set (ff_packets f). P q"
  by (cases fs rule: rev_cases) (auto simp: add_packet_def Let_def)

lemma parse_frames_length:
  "parse_frames fs rest = Inr gs \<Longrightarrow> \<forall>f \<in> set fs. \<forall>q \<in> set (ff_packets f). 13 \<le> length q \<Longrightarrow>
     \<forall>f \<in> set gs. \<forall>q \<in> set (ff_packets f). 13 \<le> length q"
proof (induction fs rest rule: parse_frames.induct)
  case (1 fs rest)
  show ?case
  proof (cases "length rest < 2")
    case True
    with 1 show ?thesis by (simp add: parse_frames.simps)
  next
    case False
    define n where "n = be16 rest"
    define packet where "packet = take n (drop 2 rest)"
    have ok: "\<not> (n < RTP_HEADER_BYTES + 1 \<or> length packet \<noteq> n)"
      and go: "parse_frames (add_packet packet fs) (drop (2 + n) rest) = Inr gs"
      using 1(2) False by (auto simp: parse_frames.simps [of fs rest] Let_def n_def packet_def split: if_splits)
    have "13 \<le> length packet" using ok by (auto simp: RTP_HEADER_BYTES_def)
    then have "\<forall>f \<in> set (add_packet packet fs). \<forall>q \<in> set (ff_packets f). 13 \<le> length q"
      by (rule add_packet_set [OF 1(3)])
    then show ?thesis by (rule 1(1) [OF False n_def packet_def ok go])
  qed
qed

lemma fixture_parse_ok: "fixture_parse fixture = Inr r \<Longrightarrow> recording_ok r"
proof -
  assume "fixture_parse fixture = Inr r"
  then obtain fs where fs: "parse_frames [] fixture = Inr fs" "fs \<noteq> []" "list_ex ff_keyframe fs"
    and r: "r = \<lparr>rec_frames = map (\<lambda>i. \<lparr>pf_packets = ff_packets (fs ! i), pf_keyframe = ff_keyframe (fs ! i), pf_delayMs = delay_ms fs i\<rparr>) [0..<length fs],
      rec_keyframes = filter (\<lambda>i. pf_keyframe (map (\<lambda>i. \<lparr>pf_packets = ff_packets (fs ! i), pf_keyframe = ff_keyframe (fs ! i), pf_delayMs = delay_ms fs i\<rparr>) [0..<length fs] ! i)) [0..<length fs]\<rparr>"
    by (auto simp: fixture_parse_def Let_def)
  have k: "rec_keyframes r = filter (\<lambda>i. ff_keyframe (fs ! i)) [0..<length fs]"
    unfolding r by (auto intro: filter_cong)
  obtain i where "i < length fs" "ff_keyframe (fs ! i)" using fs(3) by (auto simp: list_ex_length)
  then have "rec_keyframes r \<noteq> []" unfolding k by (auto simp: filter_empty_conv)
  moreover have "sorted (rec_keyframes r)" unfolding k by (rule sorted_wrt_filter) simp
  moreover have "\<forall>f \<in> set fs. \<forall>q \<in> set (ff_packets f). 13 \<le> length q" using parse_frames_length [OF fs(1)] by simp
  ultimately show ?thesis using fs(2) k by (auto simp: recording_ok_def r)
qed

text \<open>The numbering of everything sent so far, and a cursor inside the recording.\<close>

definition player_ok :: "player \<Rightarrow> bool" where
  "player_ok p \<longleftrightarrow>
     (case pl_recording p of None \<Rightarrow> pl_cursor p = 0 | Some r \<Rightarrow> recording_ok r \<and> pl_cursor p < length (rec_frames r))
     \<and> pl_sequence p = length (pl_out p) \<and> (\<forall>k < length (pl_out p). get16 2 (pl_out p ! k) = k mod 65536)"

lemma get16_put32: "get16 2 (put32 w 4 p) = get16 2 p"
  by (simp add: get16_def put32_def)

lemma play_packet_ok: "player_ok p \<Longrightarrow> 13 \<le> length x \<Longrightarrow> player_ok (play_packet x p)"
  by (auto simp: player_ok_def play_packet_def nth_append less_Suc_eq get16_put32 get16_put16 split: option.splits)

lemma play_packets:
  "player_ok p \<Longrightarrow> \<forall>x \<in> set xs. 13 \<le> length x \<Longrightarrow>
     player_ok (fold play_packet xs p) \<and> pl_recording (fold play_packet xs p) = pl_recording p"
proof (induction xs arbitrary: p)
  case (Cons x xs)
  have "pl_recording (play_packet x p) = pl_recording p" by (simp add: play_packet_def)
  then show ?case using Cons.IH [of "play_packet x p"] Cons.prems play_packet_ok [of p x] by simp
qed simp

lemma player_ok_clock [simp]:
  "player_ok (p\<lparr>pl_timestamp := t\<rparr>) = player_ok p" "player_ok (p\<lparr>pl_armed := b\<rparr>) = player_ok p"
  by (cases "pl_recording p"; simp add: player_ok_def)+

lemma play_ok: "player_ok p \<Longrightarrow> player_ok (play p)"
proof (cases "pl_recording p")
  case (Some r)
  assume ok: "player_ok p"
  then have r: "recording_ok r" "pl_cursor p < length (rec_frames r)" using Some by (simp_all add: player_ok_def)
  let ?p1 = "p\<lparr>pl_cursor := (pl_cursor p + 1) mod length (rec_frames r)\<rparr>"
  let ?p2 = "fold play_packet (pf_packets (rec_frames r ! pl_cursor p)) ?p1"
  have "player_ok ?p1" using ok Some r by (auto simp: player_ok_def recording_ok_def)
  moreover have "\<forall>x \<in> set (pf_packets (rec_frames r ! pl_cursor p)). 13 \<le> length x"
    using r by (auto simp: recording_ok_def)
  ultimately have "player_ok ?p2" using play_packets by blast
  then show ?thesis using Some by (simp add: play_def Let_def)
qed (simp add: play_def)

lemma keyframe_cursor:
  assumes "recording_ok r"
  shows "(case find (\<lambda>i. c \<le> i) (rec_keyframes r) of Some i \<Rightarrow> i | None \<Rightarrow> rec_keyframes r ! 0) \<in> set (rec_keyframes r)"
  using assms by (auto simp: recording_ok_def find_Some_iff split: option.split)

lemma fixture_keyframe_ok: "player_ok p \<Longrightarrow> player_ok (fixture_requestKeyframe p)"
  using keyframe_cursor [of "the (pl_recording p)" "pl_cursor p"]
  by (auto simp: player_ok_def fixture_requestKeyframe_def recording_ok_def split: option.splits)

datatype player_event = PlayStart bytes | PlayTimer | PlayKeyframe | PlayStop

fun player_step :: "player_event \<Rightarrow> player \<Rightarrow> player" where
  "player_step (PlayStart fixture) p = (if pl_recording p = None then snd (fixture_start fixture p) else p)"
| "player_step PlayTimer p = play_timer p"
| "player_step PlayKeyframe p = fixture_requestKeyframe p"
| "player_step PlayStop p = fixture_stop p"

lemma player_step_ok: "player_ok p \<Longrightarrow> player_ok (player_step ev p)"
proof (cases ev)
  case (PlayStart fixture)
  assume ok: "player_ok p"
  show ?thesis
  proof (cases "fixture_parse fixture")
    case (Inl e)
    then show ?thesis using PlayStart ok by (simp add: fixture_start_def prog_simps)
  next
    case (Inr r)
    then have "recording_ok r" by (rule fixture_parse_ok)
    then have "pl_recording p = None \<Longrightarrow> player_ok (p\<lparr>pl_recording := Some r\<rparr>)"
      using ok by (auto simp: player_ok_def recording_ok_def)
    then show ?thesis using PlayStart Inr ok play_ok by (simp add: fixture_start_def prog_simps)
  qed
next
  case PlayTimer
  assume ok: "player_ok p"
  then show ?thesis using PlayTimer play_ok by (simp add: play_timer_def)
qed (simp_all add: fixture_keyframe_ok fixture_stop_def)

section \<open>Properties\<close>

fun player_run :: "player_event list \<Rightarrow> player \<Rightarrow> player" where
  "player_run [] p = p"
| "player_run (e # es) p = player_run es (player_step e p)"

lemma player_run_ok: "player_ok p \<Longrightarrow> player_ok (player_run es p)"
  by (induction es arbitrary: p) (auto intro: player_step_ok)

lemma newPlayer_ok: "player_ok newPlayer"
  by (simp add: player_ok_def newPlayer_def)

text \<open>
  Parsing inverts framing: a recording made of framed packets is parsed into frames whose packets
  are exactly the recorded ones, in order; a frame holds a maximal run of packets with one timestamp
  and is a keyframe exactly when one of them carries a sequence parameter set.
\<close>

theorem recording_roundtrip:
  assumes "\<forall>p \<in> set ps. 13 \<le> length p \<and> length p < 65536"
  shows "\<exists>fs. parse_frames [] (concat (map frame4571 ps)) = Inr fs \<and> concat (map ff_packets fs) = ps
    \<and> (\<forall>f \<in> set fs. ff_packets f \<noteq> [] \<and> (\<forall>p \<in> set (ff_packets f). get32 4 p = ff_timestamp f)
         \<and> (ff_keyframe f \<longleftrightarrow> (\<exists>p \<in> set (ff_packets f). nal_type p = NAL_SPS)))
    \<and> successively (\<lambda>f g. ff_timestamp f \<noteq> ff_timestamp g) fs"
proof -
  have "list_all recorded_ok ps" using assms by (simp add: list_all_iff recorded_ok_def)
  then obtain fs where fs: "parse_frames [] (concat (map frame4571 ps)) = Inr fs" "frames_ok fs" "concat (map ff_packets fs) = ps"
    using parse_frames_packets [of "[]" ps] by (auto simp: frames_ok_def)
  then show ?thesis by (intro exI [of _ fs]) (simp add: frames_ok_def list_all_iff frame_ok_def)
qed

text \<open>
  Playback is continuous: over every run of starts, timers, keyframe seeks and stops, the k-th packet
  sent carries the sequence number k modulo 65536, and the cursor stays inside the recording.
\<close>

theorem playback_continuous:
  assumes "p = player_run es newPlayer"
  shows "(\<forall>k < length (pl_out p). get16 2 (pl_out p ! k) = k mod 65536)
    \<and> (\<forall>r. pl_recording p = Some r \<longrightarrow> pl_cursor p < length (rec_frames r))"
proof -
  have "player_ok p" unfolding assms by (intro player_run_ok newPlayer_ok)
  then show ?thesis by (auto simp: player_ok_def)
qed

text \<open>
  A keyframe request during playback moves to the next frame a decoder can join at: the frame played
  next is a keyframe, and no keyframe between the old and the new position is skipped unless the
  recording wraps around.
\<close>

theorem keyframe_seek:
  assumes "p = player_run es newPlayer" and "pl_recording p = Some r" and "c = pl_cursor (fixture_requestKeyframe p)"
  shows "c < length (rec_frames r) \<and> pf_keyframe (rec_frames r ! c)
    \<and> (\<forall>i. pl_cursor p \<le> i \<and> i < length (rec_frames r) \<and> pf_keyframe (rec_frames r ! i) \<longrightarrow> pl_cursor p \<le> c \<and> c \<le> i)"
proof -
  have "player_ok p" unfolding assms(1) by (intro player_run_ok newPlayer_ok)
  then have r: "recording_ok r" using assms(2) by (simp add: player_ok_def)
  let ?ks = "rec_keyframes r"
  have c: "c = (case find (\<lambda>i. pl_cursor p \<le> i) ?ks of Some i \<Rightarrow> i | None \<Rightarrow> ?ks ! 0)"
    using assms(2,3) by (simp add: fixture_requestKeyframe_def)
  then have "c \<in> set ?ks" using keyframe_cursor [OF r] by simp
  moreover have "pl_cursor p \<le> c \<and> c \<le> i" if i: "pl_cursor p \<le> i" "i \<in> set ?ks" for i
  proof -
    obtain j where j: "find (\<lambda>i. pl_cursor p \<le> i) ?ks = Some j"
      using i by (cases "find (\<lambda>i. pl_cursor p \<le> i) ?ks") (auto simp: find_None_iff)
    then obtain m where m: "m < length ?ks" "?ks ! m = j" "pl_cursor p \<le> j" "\<forall>n < m. \<not> pl_cursor p \<le> ?ks ! n"
      by (auto simp: find_Some_iff)
    obtain n where n: "n < length ?ks" "?ks ! n = i" using i(2) by (auto simp: in_set_conv_nth)
    have "m \<le> n" using m(4) n i(1) by (metis not_le)
    then have "j \<le> i" using r n m by (auto simp: recording_ok_def sorted_iff_nth_mono)
    then show ?thesis using c j m(3) by simp
  qed
  ultimately show ?thesis using r by (auto simp: recording_ok_def)
qed

section \<open>Witnesses\<close>

text \<open>Two frames of one packet each; the second starts with a sequence parameter set.\<close>

definition example_recorded :: "bytes list" where
  "example_recorded = [replicate 12 0 @ [1], replicate 4 0 @ [0, 0, 11, 184] @ replicate 4 0 @ [7]]"

theorem recording_roundtrip_witness:
  "\<exists>fs. parse_frames [] (concat (map frame4571 example_recorded)) = Inr fs \<and> concat (map ff_packets fs) = example_recorded"
proof -
  have "\<forall>p \<in> set example_recorded. 13 \<le> length p \<and> length p < 65536" by (simp add: example_recorded_def)
  from recording_roundtrip [OF this] show ?thesis by blast
qed

lemma example_recording: "\<exists>r. fixture_parse (concat (map frame4571 example_recorded)) = Inr r"
proof -
  have "list_all recorded_ok example_recorded" by (simp add: example_recorded_def recorded_ok_def)
  then obtain fs where fs: "parse_frames [] (concat (map frame4571 example_recorded)) = Inr fs" "frames_ok fs"
    "concat (map ff_packets fs) = example_recorded"
    using parse_frames_packets [of "[]" example_recorded] by (auto simp: frames_ok_def)
  have "last example_recorded \<in> set (concat (map ff_packets fs))" unfolding fs(3) by (simp add: example_recorded_def)
  then obtain f where f: "f \<in> set fs" "last example_recorded \<in> set (ff_packets f)" by auto
  moreover have "nal_type (last example_recorded) = NAL_SPS"
    by (simp add: nal_type_def example_recorded_def RTP_HEADER_BYTES_def NAL_SPS_def FU_A_def Let_def nth_append)
  ultimately have "ff_keyframe f" using fs(2) by (auto simp: frames_ok_def list_all_iff frame_ok_def)
  with f have "list_ex ff_keyframe fs" "fs \<noteq> []" by (auto simp: list_ex_iff)
  then show ?thesis by (simp add: fixture_parse_def fs failIf_def Let_def)
qed

theorem playback_continuous_witness:
  "\<exists>p. p = player_run [PlayStart (concat (map frame4571 example_recorded)), PlayTimer] newPlayer
     \<and> (\<forall>k < length (pl_out p). get16 2 (pl_out p ! k) = k mod 65536)"
  using playback_continuous [OF refl] by blast

theorem keyframe_seek_witness:
  "\<exists>p r. p = player_run [PlayStart (concat (map frame4571 example_recorded))] newPlayer \<and> pl_recording p = Some r
     \<and> pf_keyframe (rec_frames r ! pl_cursor (fixture_requestKeyframe p))"
proof -
  let ?p = "player_run [PlayStart (concat (map frame4571 example_recorded))] newPlayer"
  obtain r where r: "fixture_parse (concat (map frame4571 example_recorded)) = Inr r" using example_recording by blast
  have "pl_recording (fold play_packet xs q) = pl_recording q" for xs q
    by (induction xs arbitrary: q) (simp_all add: play_packet_def)
  then have "pl_recording ?p = Some r"
    using r by (simp add: fixture_start_def prog_simps play_def Let_def newPlayer_def)
  then show ?thesis using keyframe_seek [OF refl, of "[PlayStart (concat (map frame4571 example_recorded))]" r, OF _ refl] by blast
qed

end
