(* ===== verification/Router_Protocol.thy ===== *)
theory Router_Protocol
  imports JS_JSON Session_Validation Config
begin

text \<open>
  \<open>router/protocol.ts\<close>: channel labels and the envelopes on the wire. A \<open>Wire\<close> is the object an
  envelope was parsed into.
\<close>

datatype channel = ControlChannel | ReliableChannel | RealtimeChannel

fun channel_label :: "channel \<Rightarrow> string" where
  "channel_label ControlChannel = ''ros.control.v1''"
| "channel_label ReliableChannel = ''ros.reliable.v1''"
| "channel_label RealtimeChannel = ''ros.realtime.v1''"

text \<open>\<open>isChannel\<close>: the channel a label names, if any.\<close>

definition isChannel :: "ustring \<Rightarrow> channel option" where
  "isChannel s = find (\<lambda>c. s = ustr (channel_label c)) [ControlChannel, ReliableChannel, RealtimeChannel]"

fun dataChannel :: "delivery \<Rightarrow> channel" where
  "dataChannel DReliable = ReliableChannel"
| "dataChannel DRealtime = RealtimeChannel"

fun is_object :: "jsval \<Rightarrow> bool" where
  "is_object (Obj p ps) = True"
| "is_object (Bytes bs) = True"
| "is_object _ = False"

fun is_text :: "jsval \<Rightarrow> bool" where
  "is_text (Str s) = True"
| "is_text _ = False"

definition parseWire :: "bytes \<Rightarrow> int \<Rightarrow> jsval result" where
  "parseWire bs maxBytes =
     bindR (failIf (bs = [] \<or> int (length bs) > maxBytes) (Err ''message_size'')) (\<lambda>_.
     bindR (text_decode bs) (\<lambda>text.
     bindR (json_parse text) (\<lambda>v.
     bindR (failIf (\<not> is_object v) (Err ''invalid_envelope'')) (\<lambda>_.
     bindR (failIf (get_prop v (ustr ''v'') \<noteq> Number (NumI 1) \<or> \<not> is_text (get_prop v (ustr ''op''))) (Err ''invalid_protocol''))
       (\<lambda>_. Inr v)))))"

text \<open>The text of a field; \<open>identifier\<close> has made sure it is one.\<close>

definition textField :: "jsval \<Rightarrow> string \<Rightarrow> ustring result" where
  "textField wire key =
     (let v = get_prop wire (ustr key) in
      bindR (identifier_v v) (\<lambda>_. case v of Str s \<Rightarrow> Inr s | _ \<Rightarrow> Inl (Err ''invalid_identifier'')))"

definition wire_fields :: "jsval \<Rightarrow> string list \<Rightarrow> unit result" where
  "wire_fields wire fs =
     failIf (\<not> list_all (\<lambda>k. k \<in> set (map ustr ([''v'', ''op''] @ fs))) (object_keys wire)) (Err ''unknown_field'')"

text \<open>\<open>JSON.stringify\<close> of an object is a string, whose UTF-8 encoding is sent.\<close>

definition encodeWire :: "jsval \<Rightarrow> int \<Rightarrow> bytes result" where
  "encodeWire wire maxBytes =
     bindR (stringify wire) (\<lambda>t.
     let bs = utf8_encode (case t of Some s \<Rightarrow> s | None \<Rightarrow> []) in
     bindR (failIf (int (length bs) > maxBytes) (Err ''message_size'')) (\<lambda>_. Inr bs))"

section \<open>Lemmas\<close>

lemma encodeWire_bound: "encodeWire wire n = Inr bs \<Longrightarrow> int (length bs) \<le> n"
  by (auto simp: encodeWire_def Let_def)

lemma parseWire_Inr:
  "parseWire bs n = Inr w \<Longrightarrow> is_object w \<and> get_prop w (ustr ''v'') = Number (NumI 1) \<and> is_text (get_prop w (ustr ''op''))"
  by (auto simp: parseWire_def)

lemma textField_Inr: "textField wire key = Inr s \<Longrightarrow> get_prop wire (ustr key) = Str s"
  by (auto simp: textField_def Let_def)

end
