(* ===== verification/Router.thy ===== *)
theory Router
  imports Router_Protocol Request_Cache Delivery_Queue Command_Guard Codec Media_Source
begin

text \<open>
  \<open>router/index.ts\<close> and \<open>router/video.ts\<close>: the operations of one authenticated peer. The router owns
  the peer's queue, request cache, subscriptions and publishers; the guard is shared.

  Everything the router asks of the outside (clock, transport, ROS, authorization, media plane) is an
  entry of \<open>rt_log\<close>; the answer is a function of the history up to and including the question
  (\<open>answers\<close>), so that any stateful environment is covered. Attaching a video viewer may report states
  synchronously; other callbacks do not call back into the router.
\<close>

section \<open>Options, environment and state\<close>

record routerBinding =
  rb_binding :: topicBinding
  rb_codec :: codec
  rb_schemaId :: ustring

record videoSlotInfo =
  slot_mid :: ustring
  slot_profileLevelId :: ustring

datatype operationKind = OpSubscribe | OpPublish

datatype effect =
    Clock
  | Send channel bytes
  | Authorize topicBinding operationKind
  | RosSubscribe ustring ustring
  | RosUnsubscribe ustring
  | RosPublish ustring jsval
  | GuardClock
  | OnClosed
  | VideoCatalog
  | VideoAuthorize ustring
  | VideoProfile ustring
  | VideoAttach ustring
  | VideoDetach ustring
  | VideoKeyframe ustring

type_synonym history = "effect list"

text \<open>What the environment answers to the last question of a history.\<close>

record answers =
  on_clock :: "history \<Rightarrow> number"
  on_send :: "history \<Rightarrow> bool result"
  on_authorize :: "history \<Rightarrow> bool result"
  on_subscribe :: "history \<Rightarrow> unit result"
  on_unsubscribe :: "history \<Rightarrow> unit result"
  on_publish :: "history \<Rightarrow> unit result"
  on_videoCatalog :: "history \<Rightarrow> jsval list"
  on_videoAuthorize :: "history \<Rightarrow> bool result"
  on_videoProfile :: "history \<Rightarrow> number"
  on_videoAttach :: "history \<Rightarrow> videoState list \<times> unit result"
  on_guard :: hook

record routerOptions =
  ro_epoch :: ustring
  ro_entries :: "(ustring \<times> routerBinding) list"
  ro_sessionId :: ustring
  ro_maxBytes :: int
  ro_maxHandles :: int
  ro_requestTtlMs :: int
  ro_maxControlRateHz :: int
  ro_hasVideo :: bool
  ro_oracle :: answers

record subscription =
  sub_entry :: routerBinding
  sub_ready :: bool
  sub_seq :: int
  sub_nextAt :: number

record publisher =
  pub_entry :: routerBinding
  pub_guarded :: bool
  pub_seq :: int
  pub_nextAt :: number

record videoBind =
  vb_slot :: videoSlotInfo
  vb_watching :: bool
  vb_attached :: bool

record router =
  rt_subscriptions :: "(ustring \<times> subscription) list"
  rt_publishers :: "(ustring \<times> publisher) list"
  rt_queue :: queue
  rt_cache :: cache
  rt_guard :: guard
  rt_bound :: "(ustring \<times> videoBind) list"
  rt_free :: "videoSlotInfo list"
  rt_nextId :: nat
  rt_lastTime :: number
  rt_controlWindow :: number
  rt_controlCount :: int
  rt_welcomed :: bool
  rt_closed :: bool
  rt_log :: history

type_synonym 'a action = "(router, 'a) prog"

section \<open>Access to the parts\<close>

text \<open>Append a question; the result is the history the answer depends on.\<close>

definition perform :: "effect \<Rightarrow> history action" where
  "perform e = seqE (modE (\<lambda>s. s\<lparr>rt_log := rt_log s @ [e]\<rparr>)) (getE rt_log)"

definition ask :: "(answers \<Rightarrow> history \<Rightarrow> 'a) \<Rightarrow> routerOptions \<Rightarrow> effect \<Rightarrow> 'a action" where
  "ask f opt e = bindE (perform e) (\<lambda>h. retE (f (ro_oracle opt) h))"

text \<open>A call that may throw.\<close>

definition demand :: "(answers \<Rightarrow> history \<Rightarrow> 'a result) \<Rightarrow> routerOptions \<Rightarrow> effect \<Rightarrow> 'a action" where
  "demand f opt e = bindE (ask f opt e) liftE"

definition onQueue :: "(queue, 'a) prog \<Rightarrow> 'a action" where
  "onQueue m = (\<lambda>s. case m (rt_queue s) of (r, q) \<Rightarrow> (r, s\<lparr>rt_queue := q\<rparr>))"

definition onCache :: "(cache, 'a) prog \<Rightarrow> 'a action" where
  "onCache m = (\<lambda>s. case m (rt_cache s) of (r, c) \<Rightarrow> (r, s\<lparr>rt_cache := c\<rparr>))"

definition onGuard :: "(guard, 'a) prog \<Rightarrow> 'a action" where
  "onGuard m = (\<lambda>s. case m (rt_guard s) of (r, g) \<Rightarrow> (r, s\<lparr>rt_guard := g\<rparr>))"

definition router_now :: "routerOptions \<Rightarrow> number action" where
  "router_now opt =
     bindE (ask on_clock opt Clock) (\<lambda>v.
     bindE (getE rt_lastTime) (\<lambda>last.
     seqE (throwIf (\<not> isFinite v \<or> num_less v last \<or> num_less (num_sub (NumI MAX_SAFE_INTEGER) (NumI (ro_requestTtlMs opt))) v)
             (Err ''invalid_clock''))
    (seqE (modE (\<lambda>s. s\<lparr>rt_lastTime := v\<rparr>)) (retE v))))"

definition router_id :: "routerOptions \<Rightarrow> ustring action" where
  "router_id opt =
     seqE (modE (\<lambda>s. s\<lparr>rt_nextId := Suc (rt_nextId s)\<rparr>))
          (getE (\<lambda>s. ro_sessionId opt @ ustr '':'' @ ustr (show_nat (rt_nextId s))))"

definition control_id :: ustring where
  "control_id = ustr ''control''"

section \<open>Authorization and lookups\<close>

fun wanted_direction :: "operationKind \<Rightarrow> direction" where
  "wanted_direction OpSubscribe = RosToWeb"
| "wanted_direction OpPublish = WebToRos"

definition router_allowed :: "routerOptions \<Rightarrow> routerBinding \<Rightarrow> operationKind \<Rightarrow> bool action" where
  "router_allowed opt entry op =
     (if b_direction (rb_binding entry) \<noteq> wanted_direction op then retE False
      else demand on_authorize opt (Authorize (rb_binding entry) op))"

definition router_entry :: "routerOptions \<Rightarrow> ustring \<Rightarrow> operationKind \<Rightarrow> routerBinding action" where
  "router_entry opt name op =
     (case map_of (ro_entries opt) name of
        None \<Rightarrow> throwE (Err ''unauthorized'')
      | Some entry \<Rightarrow>
          bindE (router_allowed opt entry op) (\<lambda>ok.
          seqE (throwIf (\<not> ok) (Err ''unauthorized''))
         (bindE (getE rt_closed) (\<lambda>closed.
          seqE (throwIf closed (Err ''router_closed'')) (retE entry)))))"

definition router_publisher :: "ustring \<Rightarrow> publisher action" where
  "router_publisher handle =
     bindE (getE (\<lambda>s. map_of (rt_publishers s) handle)) (\<lambda>p.
     case p of None \<Rightarrow> throwE (Err ''unknown_handle'') | Some x \<Rightarrow> retE x)"

definition router_subscription :: "ustring \<Rightarrow> subscription action" where
  "router_subscription sid =
     bindE (getE (\<lambda>s. map_of (rt_subscriptions s) sid)) (\<lambda>p.
     case p of None \<Rightarrow> throwE (Err ''unknown_stream'') | Some x \<Rightarrow> retE x)"

definition removeSubscription :: "routerOptions \<Rightarrow> ustring \<Rightarrow> unit action" where
  "removeSubscription opt sid =
     bindE (router_subscription sid) (\<lambda>_.
     seqE (modE (\<lambda>s. s\<lparr>rt_subscriptions := AList.delete sid (rt_subscriptions s)\<rparr>))
    (seqE (onQueue (closeStream sid))
    (demand on_unsubscribe opt (RosUnsubscribe sid))))"

section \<open>Sending\<close>

text \<open>
  The loop of \<open>drain\<close>. Each round removes a message, so one round more than there are messages is
  enough.
\<close>

fun drain_rounds :: "nat \<Rightarrow> routerOptions \<Rightarrow> ustring \<Rightarrow> channel \<Rightarrow> bool action" where
  "drain_rounds 0 opt sid ch = retE True"
| "drain_rounds (Suc n) opt sid ch =
     bindE (onQueue (peek sid)) (\<lambda>next.
     case next of
       None \<Rightarrow> retE True
     | Some m \<Rightarrow>
         bindE (demand on_send opt (Send ch m)) (\<lambda>ok.
         if \<not> ok then retE False
         else seqE (onQueue (dequeue sid)) (drain_rounds n opt sid ch)))"

definition pending_messages :: "ustring \<Rightarrow> router \<Rightarrow> nat" where
  "pending_messages sid s = (case map_of (q_streams (rt_queue s)) sid of None \<Rightarrow> 0 | Some st \<Rightarrow> length (s_messages st))"

definition drain :: "routerOptions \<Rightarrow> ustring \<Rightarrow> channel \<Rightarrow> bool action" where
  "drain opt sid ch = bindE (getE (pending_messages sid)) (\<lambda>n. drain_rounds (Suc n) opt sid ch)"

definition respond :: "routerOptions \<Rightarrow> jsval \<Rightarrow> unit action" where
  "respond opt wire =
     bindE (getE rt_closed) (\<lambda>closed.
     seqE (throwIf closed (Err ''router_closed''))
    (bindE (liftE (encodeWire wire (ro_maxBytes opt))) (\<lambda>bs.
     seqE (onQueue (enqueue control_id bs)) (retE ()))))"

definition mk_wire :: "string \<Rightarrow> (string \<times> jsval) list \<Rightarrow> jsval" where
  "mk_wire op kvs = mk_obj ((ustr ''v'', Number (NumI 1)) # (ustr ''op'', Str (ustr op)) # map (\<lambda>(k, v). (ustr k, v)) kvs)"

section \<open>Video: releasing and closing\<close>

definition set_bind :: "ustring \<Rightarrow> (videoBind \<Rightarrow> videoBind) \<Rightarrow> unit action" where
  "set_bind track f = modE (\<lambda>s. s\<lparr>rt_bound := AList.map_entry track f (rt_bound s)\<rparr>)"

definition video_release :: "ustring \<Rightarrow> unit action" where
  "video_release track =
     bindE (getE (\<lambda>s. map_of (rt_bound s) track)) (\<lambda>found.
     case found of
       None \<Rightarrow> throwE (TypeErr ''Cannot set properties of undefined'')
     | Some b \<Rightarrow>
         seqE (set_bind track (\<lambda>x. x\<lparr>vb_watching := False\<rparr>))
        (if \<not> vb_attached b then retE ()
         else seqE (set_bind track (\<lambda>x. x\<lparr>vb_attached := False\<rparr>))
                   (bindE (perform (VideoDetach track)) (\<lambda>_. retE ()))))"

definition video_close :: "unit action" where
  "video_close = bindE (getE (\<lambda>s. keys (rt_bound s))) (forE video_release)"

text \<open>
  \<open>close\<close>: a listener that fails to clean up does not keep the others; the failure is thrown at the end.
\<close>

definition unsubscribe_all :: "routerOptions \<Rightarrow> bool action" where
  "unsubscribe_all opt =
     bindE (getE (\<lambda>s. keys (rt_subscriptions s))) (\<lambda>ids.
     bindE (mapE (\<lambda>sid. catchE (seqE (demand on_unsubscribe opt (RosUnsubscribe sid)) (retE False)) (\<lambda>_. retE True)) ids) (\<lambda>fs.
     retE (list_ex (\<lambda>b. b) fs)))"

definition router_close :: "routerOptions \<Rightarrow> unit action" where
  "router_close opt =
     bindE (getE rt_closed) (\<lambda>closed.
     if closed then retE ()
     else seqE (modE (\<lambda>s. s\<lparr>rt_closed := True\<rparr>))
         (seqE video_close
         (seqE (onGuard (revokeSession (ro_sessionId opt)))
         (bindE (unsubscribe_all opt) (\<lambda>failed.
          seqE (modE (\<lambda>s. s\<lparr>rt_subscriptions := [], rt_publishers := []\<rparr>))
         (seqE (onQueue clear_queue)
         (seqE (onCache cache_clear)
         (seqE (bindE (perform OnClosed) (\<lambda>_. retE ()))
               (throwIf failed (Err ''cleanup_failed'')))))))))) "

section \<open>Flushing\<close>

text \<open>
  \<open>flush\<close>, \<open>event\<close> and \<open>error\<close> call each other. They are written over the \<open>flush\<close> they call, \<open>again\<close>.
\<close>

definition error_with :: "unit action \<Rightarrow> routerOptions \<Rightarrow> ustring option \<Rightarrow> unit action" where
  "error_with again opt rid =
     bindE (getE rt_closed) (\<lambda>closed.
     if closed then retE ()
     else catchE (seqE (respond opt (mk_wire ''error'' [(''id'', case rid of None \<Rightarrow> Undefined | Some i \<Rightarrow> Str i),
                          (''code'', Str (ustr ''request_rejected''))])) again)
                 (\<lambda>_. router_close opt))"

definition event_with :: "unit action \<Rightarrow> routerOptions \<Rightarrow> jsval \<Rightarrow> unit action" where
  "event_with again opt wire = catchE (seqE (respond opt wire) again) (\<lambda>_. error_with again opt None)"

fun state_text :: "videoState \<Rightarrow> string" where
  "state_text VIdle = ''idle''" | "state_text VStarting = ''starting''"
| "state_text VActive = ''active''" | "state_text VFailed = ''failed''"

text \<open>The \<open>state\<close> method of the viewer of a track.\<close>

definition viewer_state_with :: "unit action \<Rightarrow> routerOptions \<Rightarrow> ustring \<Rightarrow> videoState \<Rightarrow> unit action" where
  "viewer_state_with again opt track st =
     seqE (if st = VFailed then set_bind track (\<lambda>x. x\<lparr>vb_watching := False, vb_attached := False\<rparr>) else retE ())
    (bindE (getE (\<lambda>s. map_of (rt_bound s) track)) (\<lambda>found.
     case found of
       None \<Rightarrow> retE ()
     | Some b \<Rightarrow> event_with again opt (mk_wire ''video.state'' [(''track'', Str track), (''mid'', Str (slot_mid (vb_slot b))),
                    (''state'', Str (ustr (state_text st)))])))"

definition revalidate_with :: "unit action \<Rightarrow> routerOptions \<Rightarrow> unit action" where
  "revalidate_with again opt =
     bindE (getE (\<lambda>s. keys (rt_bound s))) (forE (\<lambda>track.
       bindE (getE (\<lambda>s. case map_of (rt_bound s) track of None \<Rightarrow> False | Some b \<Rightarrow> vb_watching b)) (\<lambda>watching.
       if \<not> watching then retE ()
       else bindE (demand on_videoAuthorize opt (VideoAuthorize track)) (\<lambda>ok.
            if ok then retE ()
            else seqE (video_release track) (viewer_state_with again opt track VFailed)))))"

text \<open>The loop over the subscriptions; it returns at the first one that is refused or not drained.\<close>

fun flush_subs :: "unit action \<Rightarrow> routerOptions \<Rightarrow> ustring list \<Rightarrow> unit action" where
  "flush_subs again opt [] = retE ()"
| "flush_subs again opt (sid # ids) =
     bindE (getE (\<lambda>s. map_of (rt_subscriptions s) sid)) (\<lambda>found.
     case found of
       None \<Rightarrow> flush_subs again opt ids
     | Some sub \<Rightarrow>
         bindE (catchE (seqE (router_entry opt (publicName (rb_binding (sub_entry sub))) OpSubscribe) (retE True))
                  (\<lambda>_. retE False)) (\<lambda>ok.
         if \<not> ok then
           seqE (bindE (getE (\<lambda>s. sid \<in> set (keys (rt_subscriptions s)))) (\<lambda>has. if has then removeSubscription opt sid else retE ()))
                (error_with again opt None)
         else bindE (drain opt sid (dataChannel (b_delivery (rb_binding (sub_entry sub))))) (\<lambda>done.
              if done then flush_subs again opt ids else retE ())))"

definition flush_with :: "unit action \<Rightarrow> routerOptions \<Rightarrow> unit action" where
  "flush_with again opt =
     bindE (getE rt_closed) (\<lambda>closed.
     if closed then retE ()
     else seqE (revalidate_with again opt)
         (bindE (drain opt control_id ControlChannel) (\<lambda>done.
          if \<not> done then retE ()
          else bindE (getE (\<lambda>s. keys (rt_subscriptions s))) (flush_subs again opt))))"

text \<open>
  Every nested call comes after a track stopped being watched or a subscription was removed, so that
  the number of both bounds the depth.
\<close>

definition flush_measure :: "router \<Rightarrow> nat" where
  "flush_measure s = length (rt_subscriptions s) + length (filter (\<lambda>p. vb_watching (snd p)) (rt_bound s))"

fun flush_depth :: "nat \<Rightarrow> routerOptions \<Rightarrow> unit action" where
  "flush_depth 0 opt = retE ()"
| "flush_depth (Suc n) opt = flush_with (flush_depth n opt) opt"

definition flush :: "routerOptions \<Rightarrow> unit action" where
  "flush opt = bindE (getE flush_measure) (\<lambda>n. flush_depth (Suc n) opt)"

definition router_error :: "routerOptions \<Rightarrow> ustring option \<Rightarrow> unit action" where
  "router_error opt = error_with (flush opt) opt"

definition router_event :: "routerOptions \<Rightarrow> jsval \<Rightarrow> unit action" where
  "router_event opt = event_with (flush opt) opt"

text \<open>\<open>Math.floor\<close>\<close>

fun math_floor :: "number \<Rightarrow> number" where
  "math_floor (Num x) = NumI \<lfloor>x\<rfloor>"
| "math_floor n = n"

section \<open>Video operations\<close>

text \<open>\<open>Number.parseInt(profileLevelId.slice(0, 2), 16)\<close> of two hexadecimal digits.\<close>

definition profileIdc :: "ustring \<Rightarrow> number" where
  "profileIdc p =
     (case p of
        a # b # _ \<Rightarrow> (case (hex_value a, hex_value b) of
                        (Some x, Some y) \<Rightarrow> NumI (int (x * 16 + y)) | (Some x, None) \<Rightarrow> NumI (int x) | _ \<Rightarrow> NaN)
      | [a] \<Rightarrow> (case hex_value a of Some x \<Rightarrow> NumI (int x) | None \<Rightarrow> NaN)
      | [] \<Rightarrow> NaN)"

definition video_bind :: "routerOptions \<Rightarrow> ustring \<Rightarrow> unit action" where
  "video_bind opt track =
     bindE (getE (\<lambda>s. map_of (rt_bound s) track)) (\<lambda>found.
     case found of
       Some b \<Rightarrow> retE ()
     | None \<Rightarrow>
         bindE (getE (\<lambda>s. rt_free s = [])) (\<lambda>none.
         seqE (throwIf none (Err ''video_slot_limit''))
        (bindE (ask on_videoProfile opt (VideoProfile track)) (\<lambda>wanted.
         bindE (getE (\<lambda>s. find (\<lambda>c. profileIdc (slot_profileLevelId c) = wanted \<and> wanted \<noteq> NaN) (rt_free s))) (\<lambda>slot.
         case slot of
           None \<Rightarrow> throwE (Err ''video_profile_mismatch'')
         | Some c \<Rightarrow>
             modE (\<lambda>s. s\<lparr>rt_free := remove1 c (rt_free s),
                          rt_bound := AList.update track \<lparr>vb_slot = c, vb_watching = False, vb_attached = False\<rparr> (rt_bound s)\<rparr>))))))"

text \<open>The states the media plane reports while a viewer is being attached, then the outcome.\<close>

definition video_attach :: "routerOptions \<Rightarrow> ustring \<Rightarrow> unit action" where
  "video_attach opt track =
     bindE (ask on_videoAttach opt (VideoAttach track)) (\<lambda>(states, outcome).
     seqE (forE (viewer_state_with (flush opt) opt track) states) (liftE outcome))"

definition bound_mid :: "ustring \<Rightarrow> router \<Rightarrow> ustring" where
  "bound_mid track s = (case map_of (rt_bound s) track of None \<Rightarrow> [] | Some b \<Rightarrow> slot_mid (vb_slot b))"

definition video_operation :: "routerOptions \<Rightarrow> jsval \<Rightarrow> ustring \<Rightarrow> jsval action" where
  "video_operation opt wire rid =
     (let op = get_prop wire (ustr ''op'') in
      if op = Str (ustr ''video.subscribe'') then
        seqE (liftE (wire_fields wire [''id'', ''track'']))
       (bindE (liftE (textField wire ''track'')) (\<lambda>track.
        bindE (demand on_videoAuthorize opt (VideoAuthorize track)) (\<lambda>ok.
        seqE (throwIf (\<not> ok) (Err ''unauthorized''))
       (seqE (video_bind opt track)
       (bindE (getE (\<lambda>s. case map_of (rt_bound s) track of None \<Rightarrow> False | Some b \<Rightarrow> vb_watching b)) (\<lambda>watching.
        seqE (if watching then retE ()
              else seqE (video_attach opt track) (set_bind track (\<lambda>x. x\<lparr>vb_watching := True, vb_attached := True\<rparr>)))
       (bindE (getE (bound_mid track)) (\<lambda>mid.
        retE (mk_wire ''video.subscribed'' [(''id'', Str rid), (''track'', Str track), (''mid'', Str mid)])))))))))
      else if op = Str (ustr ''video.unsubscribe'') then
        seqE (liftE (wire_fields wire [''id'', ''mid'']))
       (bindE (liftE (textField wire ''mid'')) (\<lambda>mid.
        bindE (getE (\<lambda>s. find (\<lambda>p. slot_mid (vb_slot (snd p)) = mid) (rt_bound s))) (\<lambda>found.
        case found of
          None \<Rightarrow> throwE (Err ''unknown_video_slot'')
        | Some p \<Rightarrow> seqE (video_release (fst p)) (retE (mk_wire ''video.unsubscribed'' [(''id'', Str rid)])))))
      else throwE (Err ''unknown_operation''))"

text \<open>A decoder asks for a keyframe, and a source reports a state, between requests.\<close>

definition slot_keyframe :: "ustring \<Rightarrow> unit action" where
  "slot_keyframe track =
     bindE (getE (\<lambda>s. case map_of (rt_bound s) track of None \<Rightarrow> False | Some b \<Rightarrow> vb_watching b)) (\<lambda>watching.
     if watching then bindE (perform (VideoKeyframe track)) (\<lambda>_. retE ()) else retE ())"

definition viewer_state :: "routerOptions \<Rightarrow> ustring \<Rightarrow> videoState \<Rightarrow> unit action" where
  "viewer_state opt = viewer_state_with (flush opt) opt"

section \<open>Operations of a peer\<close>

definition controlRate :: "routerOptions \<Rightarrow> unit action" where
  "controlRate opt =
     bindE (router_now opt) (\<lambda>now.
     let win = math_floor (num_div now (NumI 1000)) in
     seqE (modE (\<lambda>s. if win \<noteq> rt_controlWindow s then s\<lparr>rt_controlWindow := win, rt_controlCount := 0\<rparr> else s))
    (seqE (modE (\<lambda>s. s\<lparr>rt_controlCount := rt_controlCount s + 1\<rparr>))
    (bindE (getE rt_controlCount) (\<lambda>n. throwIf (n > ro_maxControlRateHz opt) (Err ''control_rate'')))))"

definition router_subscribe :: "routerOptions \<Rightarrow> routerBinding \<Rightarrow> ustring \<Rightarrow> jsval action" where
  "router_subscribe opt entry rid =
     bindE (router_id opt) (\<lambda>sid.
     seqE (onQueue (register sid (if b_policy (rb_binding entry) = PLatest then ''latest'' else ''reliable'')
             (NumI (b_maxMessages (rb_binding entry)))))
    (seqE (catchE
        (seqE (demand on_subscribe opt (RosSubscribe (publicName (rb_binding entry)) sid))
              (modE (\<lambda>s. s\<lparr>rt_subscriptions := AList.update sid
                 \<lparr>sub_entry = entry, sub_ready = False, sub_seq = 0, sub_nextAt = NumI 0\<rparr> (rt_subscriptions s)\<rparr>)))
        (\<lambda>e. seqE (onQueue (closeStream sid)) (throwE e)))
    (retE (mk_wire ''subscribed'' [(''id'', Str rid), (''stream_id'', Str sid), (''epoch'', Str (ro_epoch opt)),
        (''schema_id'', Str (rb_schemaId entry))]))))"

definition guard_clock :: "routerOptions \<Rightarrow> number action" where
  "guard_clock opt = ask on_clock opt GuardClock"

definition router_advertise :: "routerOptions \<Rightarrow> routerBinding \<Rightarrow> ustring \<Rightarrow> jsval action" where
  "router_advertise opt entry rid =
     (let guarded = (b_commandGuard (rb_binding entry) \<noteq> None) in
      bindE (if guarded
             then onGuard (openHandle (on_guard (ro_oracle opt)) (ro_sessionId opt) (rosTopic (rb_binding entry))
                    (map_option NumI (b_commandGuard (rb_binding entry))))
             else router_id opt) (\<lambda>handle.
      seqE (modE (\<lambda>s. s\<lparr>rt_publishers := AList.update handle
              \<lparr>pub_entry = entry, pub_guarded = guarded, pub_seq = - 1, pub_nextAt = NumI 0\<rparr> (rt_publishers s)\<rparr>))
     (retE (mk_wire ''advertised'' [(''id'', Str rid), (''handle'', Str handle), (''epoch'', Str (ro_epoch opt)),
        (''schema_id'', Str (rb_schemaId entry))]))))"

definition router_operation :: "routerOptions \<Rightarrow> jsval \<Rightarrow> ustring \<Rightarrow> jsval action" where
  "router_operation opt wire rid =
     (let op = get_prop wire (ustr ''op'') in
      if op = Str (ustr ''subscribe'') \<or> op = Str (ustr ''advertise'') then
        seqE (liftE (wire_fields wire [''id'', ''topic'']))
       (bindE (liftE (textField wire ''topic'')) (\<lambda>topic.
        bindE (router_entry opt topic (if op = Str (ustr ''subscribe'') then OpSubscribe else OpPublish)) (\<lambda>entry.
        bindE (getE (\<lambda>s. int (length (rt_subscriptions s) + length (rt_publishers s)) \<ge> ro_maxHandles opt)) (\<lambda>full.
        seqE (throwIf full (Err ''handle_limit''))
       (if op = Str (ustr ''subscribe'') then router_subscribe opt entry rid else router_advertise opt entry rid)))))
      else if op = Str (ustr ''unsubscribe'') then
        seqE (liftE (wire_fields wire [''id'', ''stream_id'']))
       (bindE (liftE (textField wire ''stream_id'')) (\<lambda>sid.
        seqE (removeSubscription opt sid) (retE (mk_wire ''unsubscribed'' [(''id'', Str rid)]))))
      else if ro_hasVideo opt \<and> (case op of Str t \<Rightarrow> starts_with (ustr ''video.'') t | _ \<Rightarrow> False) then video_operation opt wire rid
      else if op = Str (ustr ''arm'') \<or> op = Str (ustr ''unadvertise'') then
        seqE (liftE (wire_fields wire [''id'', ''handle'']))
       (bindE (liftE (textField wire ''handle'')) (\<lambda>handle.
        bindE (router_publisher handle) (\<lambda>pub.
        seqE (router_entry opt (publicName (rb_binding (pub_entry pub))) OpPublish)
       (if op = Str (ustr ''arm'') then
          seqE (throwIf (\<not> pub_guarded pub) (Err ''lease_not_required''))
         (bindE (guard_clock opt) (\<lambda>clock.
          bindE (onGuard (arm (on_guard (ro_oracle opt)) clock (ro_sessionId opt) handle)) (\<lambda>l.
          retE (mk_wire ''lease'' [(''id'', Str rid), (''handle'', Str handle), (''epoch'', Str (ro_epoch opt)),
            (''lease_id'', Str (lease_id l)), (''expires_at'', Number (expiresAt l))]))))
        else
          seqE (if pub_guarded pub then onGuard (closeHandle (ro_sessionId opt) handle) else retE ())
         (seqE (modE (\<lambda>s. s\<lparr>rt_publishers := AList.delete handle (rt_publishers s)\<rparr>))
         (retE (mk_wire ''unadvertised'' [(''id'', Str rid)]))))))) 
      else throwE (Err ''unknown_operation''))"

fun direction_text :: "direction \<Rightarrow> string" where
  "direction_text RosToWeb = ''ros_to_web''" | "direction_text WebToRos = ''web_to_ros''"

fun delivery_text :: "delivery \<Rightarrow> string" where
  "delivery_text DReliable = ''reliable''" | "delivery_text DRealtime = ''realtime''"

definition catalog_entry :: "routerBinding \<Rightarrow> jsval" where
  "catalog_entry e = mk_obj [(ustr ''topic'', Str (publicName (rb_binding e))), (ustr ''ros_type'', Str (rosType (rb_binding e))),
     (ustr ''direction'', Str (ustr (direction_text (b_direction (rb_binding e))))),
     (ustr ''delivery'', Str (ustr (delivery_text (b_delivery (rb_binding e))))), (ustr ''schema_id'', Str (rb_schemaId e))]"

definition router_catalog :: "routerOptions \<Rightarrow> jsval list action" where
  "router_catalog opt =
     bindE (mapE (\<lambda>p. bindE (router_allowed opt (snd p)
              (if b_direction (rb_binding (snd p)) = RosToWeb then OpSubscribe else OpPublish)) (\<lambda>ok.
              retE (if ok then [catalog_entry (snd p)] else []))) (ro_entries opt)) (\<lambda>cs. retE (concat cs))"

definition router_hello :: "routerOptions \<Rightarrow> jsval \<Rightarrow> unit action" where
  "router_hello opt wire =
     seqE (liftE (wire_fields wire []))
    (bindE (getE rt_welcomed) (\<lambda>welcomed.
     seqE (throwIf welcomed (Err ''already_welcomed''))
    (bindE (router_catalog opt) (\<lambda>catalog.
     bindE (if ro_hasVideo opt then ask on_videoCatalog opt VideoCatalog else retE []) (\<lambda>video.
     seqE (respond opt (mk_wire ''welcome'' ([(''epoch'', Str (ro_epoch opt)), (''catalog'', mk_arr catalog)]
             @ (if video = [] then [] else [(''video'', mk_arr video)]))))
          (modE (\<lambda>s. s\<lparr>rt_welcomed := True\<rparr>)))))))"

definition router_request :: "routerOptions \<Rightarrow> jsval \<Rightarrow> ustring \<Rightarrow> unit action" where
  "router_request opt wire rid =
     bindE (liftE (stringify wire)) (\<lambda>text.
     let input = (case text of Some t \<Rightarrow> t | None \<Rightarrow> []) in
     bindE (router_now opt) (\<lambda>now.
     bindE (onCache (cache_lookup rid input now)) (\<lambda>cached.
     case cached of
       Some bs \<Rightarrow> seqE (onQueue (enqueue control_id bs)) (retE ())
     | None \<Rightarrow>
         seqE (onCache (cache_reserve (ro_maxBytes opt + int (length input) * 2)))
        (bindE (router_operation opt wire rid) (\<lambda>response.
         bindE (liftE (encodeWire response (ro_maxBytes opt))) (\<lambda>bs.
         seqE (onCache (cache_store rid input bs now))
        (seqE (onQueue (enqueue control_id bs)) (retE ()))))))))"

definition router_control :: "routerOptions \<Rightarrow> jsval \<Rightarrow> ustring option \<Rightarrow> unit action" where
  "router_control opt wire rid =
     (let op = get_prop wire (ustr ''op'') in
      if op = Str (ustr ''hello'') then router_hello opt wire
      else bindE (getE rt_welcomed) (\<lambda>welcomed.
           seqE (throwIf (\<not> welcomed) (Err ''hello_required''))
          (if op = Str (ustr ''ready'') then
             seqE (liftE (wire_fields wire [''stream_id'']))
            (bindE (liftE (textField wire ''stream_id'')) (\<lambda>sid.
             seqE (router_subscription sid)
                  (modE (\<lambda>s. s\<lparr>rt_subscriptions := AList.map_entry sid (\<lambda>x. x\<lparr>sub_ready := True\<rparr>) (rt_subscriptions s)\<rparr>))))
           else case rid of
                  None \<Rightarrow> throwE (Err ''request_id_required'')
                | Some i \<Rightarrow> router_request opt wire i)))"

text \<open>
  \<open>send\<close> of \<open>publish\<close>, and its use as the callback of a ticket. Calling the callback is the last thing a
  ticket does, so it is run in the router's state once the guard has called an empty one.
\<close>

definition ros_send :: "routerOptions \<Rightarrow> routerBinding \<Rightarrow> jsval \<Rightarrow> unit action" where
  "ros_send opt entry native =
     bindE (router_entry opt (publicName (rb_binding entry)) OpPublish) (\<lambda>_.
     bindE (liftE (codec_encode (rb_codec entry) native)) (\<lambda>_.
     demand on_publish opt (RosPublish (publicName (rb_binding entry)) native)))"

definition through_ticket :: "routerOptions \<Rightarrow> nat \<Rightarrow> unit action \<Rightarrow> unit action" where
  "through_ticket opt t send =
     bindE (guard_clock opt) (\<lambda>clock.
     seqE (onGuard (ticket_publish (on_guard (ro_oracle opt)) clock t (Some (retE ())))) send)"

definition publish_prepare :: "routerOptions \<Rightarrow> jsval \<Rightarrow> publisher \<Rightarrow> ustring \<Rightarrow> int \<Rightarrow> nat option action" where
  "publish_prepare opt wire pub handle seq =
     (if \<not> pub_guarded pub then retE None
      else bindE (liftE (textField wire ''lease_id'')) (\<lambda>leaseId.
           bindE (guard_clock opt) (\<lambda>clock.
           bindE (onGuard (prepare (on_guard (ro_oracle opt)) clock
             \<lparr>r_sessionId = ro_sessionId opt, r_epoch = ro_epoch opt, r_handle = handle, r_leaseId = leaseId,
              r_seq = ustr (show_int seq)\<rparr>)) (\<lambda>t. retE (Some t)))))"

definition rate_gap :: "routerBinding \<Rightarrow> number" where
  "rate_gap entry = num_div (NumI 1000) (maxRateHz (rb_binding entry))"

definition router_publish :: "routerOptions \<Rightarrow> channel \<Rightarrow> jsval \<Rightarrow> unit action" where
  "router_publish opt ch wire =
     seqE (liftE (wire_fields wire [''id'', ''handle'', ''epoch'', ''seq'', ''lease_id'', ''data'']))
    (bindE (getE rt_welcomed) (\<lambda>welcomed.
     seqE (throwIf (\<not> welcomed \<or> get_prop wire (ustr ''op'') \<noteq> Str (ustr ''publish'')
                    \<or> get_prop wire (ustr ''epoch'') \<noteq> Str (ro_epoch opt)) (Err ''invalid_publish''))
    (bindE (liftE (textField wire ''handle'')) (\<lambda>handle.
     bindE (router_publisher handle) (\<lambda>pub.
     bindE (router_entry opt (publicName (rb_binding (pub_entry pub))) OpPublish) (\<lambda>entry.
     seqE (throwIf (ch \<noteq> dataChannel (b_delivery (rb_binding entry))) (Err ''invalid_channel''))
    (bindE (liftE (bindR (textField wire ''seq'') (\<lambda>t. sequence (Str t)))) (\<lambda>seq.
     bindE (router_now opt) (\<lambda>now.
     seqE (throwIf (seq \<le> pub_seq pub \<or> num_less now (pub_nextAt pub)) (Err ''publish_rate_or_sequence''))
    (bindE (liftE (codec_decode (rb_codec entry) (get_prop wire (ustr ''data'')))) (\<lambda>native.
     bindE (publish_prepare opt wire pub handle seq) (\<lambda>ticket.
     seqE (throwIf (\<not> pub_guarded pub \<and> get_prop wire (ustr ''lease_id'') \<noteq> Undefined) (Err ''unexpected_lease''))
    (seqE (modE (\<lambda>s. s\<lparr>rt_publishers := AList.map_entry handle
             (\<lambda>x. x\<lparr>pub_seq := seq, pub_nextAt := num_add now (rate_gap entry)\<rparr>) (rt_publishers s)\<rparr>))
    (seqE (case ticket of None \<Rightarrow> ros_send opt entry native | Some t \<Rightarrow> through_ticket opt t (ros_send opt entry native))
          (respond opt (mk_wire ''published_to_ros'' [(''handle'', Str handle), (''seq'', Str (ustr (show_int seq)))]))))))))))))))))"

definition set_sub :: "ustring \<Rightarrow> (subscription \<Rightarrow> subscription) \<Rightarrow> unit action" where
  "set_sub sid f = modE (\<lambda>s. s\<lparr>rt_subscriptions := AList.map_entry sid f (rt_subscriptions s)\<rparr>)"

text \<open>The body of the \<open>try\<close> of \<open>sample\<close>; the number is taken before the envelope is encoded.\<close>

definition sample_deliver :: "routerOptions \<Rightarrow> ustring \<Rightarrow> subscription \<Rightarrow> jsval \<Rightarrow> unit action" where
  "sample_deliver opt sid sub native =
     bindE (router_entry opt (publicName (rb_binding (sub_entry sub))) OpSubscribe) (\<lambda>entry.
     bindE (router_now opt) (\<lambda>now.
     if num_less now (sub_nextAt sub) then retE ()
     else seqE (set_sub sid (\<lambda>x. x\<lparr>sub_nextAt := num_add now (rate_gap entry)\<rparr>))
         (bindE (liftE (sequence (Str (ustr (show_int (sub_seq sub)))))) (\<lambda>_.
          bindE (liftE (codec_encode (rb_codec entry) native)) (\<lambda>data.
          seqE (set_sub sid (\<lambda>x. x\<lparr>sub_seq := sub_seq sub + 1\<rparr>))
         (bindE (liftE (encodeWire (mk_wire ''message'' [(''stream_id'', Str sid), (''epoch'', Str (ro_epoch opt)),
             (''seq'', Str (ustr (show_int (sub_seq sub)))), (''data'', data)]) (ro_maxBytes opt))) (\<lambda>bs.
          seqE (onQueue (enqueue sid bs)) (flush opt))))))))"

definition router_sample :: "routerOptions \<Rightarrow> ustring \<Rightarrow> jsval \<Rightarrow> unit action" where
  "router_sample opt sid native =
     bindE (getE (\<lambda>s. map_of (rt_subscriptions s) sid)) (\<lambda>found.
     case found of
       None \<Rightarrow> retE ()
     | Some sub \<Rightarrow>
         if \<not> sub_ready sub then retE ()
         else catchE (sample_deliver opt sid sub native)
               (\<lambda>_. seqE (bindE (getE (\<lambda>s. sid \<in> set (keys (rt_subscriptions s)))) (\<lambda>has.
                           if has then removeSubscription opt sid else retE ()))
                         (router_error opt None)))"

text \<open>\<open>try m catch h\<close> followed by \<open>f\<close> outside of the \<open>try\<close>.\<close>

definition tryE :: "('s, 'a) prog \<Rightarrow> (error \<Rightarrow> ('s, 'b) prog) \<Rightarrow> ('a \<Rightarrow> ('s, 'b) prog) \<Rightarrow> ('s, 'b) prog" where
  "tryE m h f = (\<lambda>s. case m s of (Inl e, t) \<Rightarrow> h e t | (Inr x, t) \<Rightarrow> f x t)"

text \<open>Up to the request identifier, which error responses carry from then on.\<close>

definition receive_head :: "routerOptions \<Rightarrow> ustring \<Rightarrow> bytes \<Rightarrow> (channel \<times> jsval \<times> ustring option) action" where
  "receive_head opt label raw =
     (case isChannel label of
        None \<Rightarrow> throwE (Err ''invalid_channel'')
      | Some ch \<Rightarrow>
          seqE (if ch = ControlChannel then controlRate opt else retE ())
         (bindE (liftE (parseWire raw (ro_maxBytes opt))) (\<lambda>wire.
          if get_prop wire (ustr ''id'') = Undefined then retE (ch, wire, None)
          else bindE (liftE (textField wire ''id'')) (\<lambda>i. retE (ch, wire, Some i)))))"

definition receive :: "routerOptions \<Rightarrow> ustring \<Rightarrow> bytes \<Rightarrow> unit action" where
  "receive opt label raw =
     bindE (getE rt_closed) (\<lambda>closed.
     if closed then retE ()
     else tryE (receive_head opt label raw) (\<lambda>_. router_error opt None) (\<lambda>(ch, wire, rid).
          catchE (seqE (if ch \<noteq> ControlChannel then router_publish opt ch wire else router_control opt wire rid) (flush opt))
                 (\<lambda>_. router_error opt rid)))"

section \<open>The constructor\<close>

text \<open>
  What \<open>new SessionRouter\<close> is given. The callbacks are functions by their type; whether a binding is one
  of the configuration's is decided by identity in the code and by equality here.
\<close>

record routerSetup =
  su_config :: bridgeConfig
  su_bindings :: "routerBinding list"
  su_epoch :: ustring
  su_maxHandles :: number
  su_maxRequests :: number
  su_requestTtlMs :: number
  su_maxControlRateHz :: number
  su_video :: "videoSlotInfo list option"
  su_oracle :: answers

fun router_table :: "topicBinding list \<Rightarrow> routerBinding list \<Rightarrow> (ustring \<times> routerBinding) list \<Rightarrow> (ustring \<times> routerBinding) list result" where
  "router_table topics [] table = Inr table"
| "router_table topics (e # es) table =
     bindR (failIf (rb_binding e \<notin> set topics \<or> publicName (rb_binding e) \<in> set (keys table)) (Err ''invalid_binding'')) (\<lambda>_.
     bindR (identifier_v (Str (rb_schemaId e))) (\<lambda>_.
     router_table topics es (AList.update (publicName (rb_binding e)) e table)))"

definition newRouter :: "routerSetup \<Rightarrow> guard \<Rightarrow> (routerOptions \<times> router) result" where
  "newRouter su g =
     bindR (mapR positiveLimit [su_maxHandles su, su_maxRequests su, su_requestTtlMs su, su_maxControlRateHz su]) (\<lambda>_.
     bindR (identifier_v (Str (su_epoch su))) (\<lambda>_.
     bindR (router_table (cfg_topics (su_config su)) (su_bindings su) []) (\<lambda>table.
     let bounds = cfg_limits (su_config su);
         single = min 16384 (lim_maxMessageBytes bounds) in
     bindR (newDeliveryQueue (num_add (su_maxHandles su) (NumI 1)) (NumI (maxPeerQueueBytes bounds)) (NumI single)) (\<lambda>q0.
     case register control_id ''reliable'' (su_maxRequests su) q0 of
       (Inl e, _) \<Rightarrow> Inl e
     | (Inr _, q) \<Rightarrow>
         let opt = \<lparr>ro_epoch = su_epoch su, ro_entries = table, ro_sessionId = [], ro_maxBytes = single,
                    ro_maxHandles = num_int (su_maxHandles su), ro_requestTtlMs = num_int (su_requestTtlMs su),
                    ro_maxControlRateHz = num_int (su_maxControlRateHz su), ro_hasVideo = (su_video su \<noteq> None), ro_oracle = su_oracle su\<rparr>;
             start = \<lparr>rt_subscriptions = [], rt_publishers = [], rt_queue = q,
                      rt_cache = newRequestCache (num_int (su_maxRequests su)) (num_int (su_requestTtlMs su)) (maxPeerQueueBytes bounds),
                      rt_guard = g, rt_bound = [], rt_free = (case su_video su of None \<Rightarrow> [] | Some slots \<Rightarrow> slots),
                      rt_nextId = 0, rt_lastTime = NumI 0, rt_controlWindow = NumI 0, rt_controlCount = 0,
                      rt_welcomed = False, rt_closed = False, rt_log = []\<rparr> in
         (case seqE (router_now opt) (onGuard (openSession (su_epoch su))) start of
            (Inl e, _) \<Rightarrow> Inl e
          | (Inr sid, s) \<Rightarrow> Inr (opt\<lparr>ro_sessionId := sid\<rparr>, s))))))"

end
