(* ===== verification/Router_Flush.thy ===== *)
theory Router_Flush
  imports Router
begin

text \<open>
  The nested calls of \<open>flush\<close>, \<open>event\<close> and \<open>error\<close> and the loop of \<open>drain\<close> (\<open>router/index.ts\<close>) end, and the
  model computes what the recursive source computes.
\<close>

section \<open>Depth of nested flushes\<close>

text \<open>
  Two versions of the nested \<open>flush\<close> that agree on smaller states make no difference, because
  nothing in a flush adds subscriptions or watched tracks.
\<close>

definition shrinks :: "'a action \<Rightarrow> bool" where
  "shrinks m \<longleftrightarrow> (\<forall>s. flush_measure (snd (m s)) \<le> flush_measure s)"

definition agree :: "nat \<Rightarrow> 'a action \<Rightarrow> 'a action \<Rightarrow> bool" where
  "agree n m m' \<longleftrightarrow> (\<forall>s. flush_measure s < n \<longrightarrow> m s = m' s)"

lemma shrinksD: "shrinks m \<Longrightarrow> m s = (r, t) \<Longrightarrow> flush_measure t \<le> flush_measure s"
  by (metis shrinks_def snd_conv)

lemma agreeD: "agree n m m' \<Longrightarrow> flush_measure s < n \<Longrightarrow> m s = m' s"
  by (simp add: agree_def)

named_theorems shrink_rules

lemma shrinks_pure [shrink_rules]:
  "shrinks (retE x)" "shrinks (throwE e)" "shrinks (liftE r)" "shrinks (getE f)" "shrinks (throwIf b e)"
  by (simp_all add: shrinks_def prog_simps)

lemma shrinks_modE: "(\<And>s. flush_measure (f s) \<le> flush_measure s) \<Longrightarrow> shrinks (modE f)"
  by (simp add: shrinks_def prog_simps)

lemma shrinks_bindE [shrink_rules]: "shrinks m \<Longrightarrow> (\<And>x. shrinks (f x)) \<Longrightarrow> shrinks (bindE m f)"
  unfolding shrinks_def bindE_run by (auto split: prod.splits sum.splits) (metis le_trans snd_conv)+

lemma shrinks_seqE [shrink_rules]: "shrinks m \<Longrightarrow> shrinks n \<Longrightarrow> shrinks (seqE m n)"
  by (simp add: seqE_def shrinks_bindE)

lemma shrinks_catchE [shrink_rules]: "shrinks m \<Longrightarrow> (\<And>e. shrinks (h e)) \<Longrightarrow> shrinks (catchE m h)"
  unfolding shrinks_def catchE_run by (auto split: prod.splits sum.splits) (metis le_trans snd_conv)+

lemma shrinks_forE [shrink_rules]: "(\<And>x. shrinks (f x)) \<Longrightarrow> shrinks (forE f xs)"
  by (induction xs) (auto intro: shrink_rules)

lemma shrinks_mapE [shrink_rules]: "(\<And>x. shrinks (f x)) \<Longrightarrow> shrinks (mapE f xs)"
  by (induction xs) (auto intro!: shrink_rules)

lemma shrinks_if [shrink_rules]: "(b \<Longrightarrow> shrinks m) \<Longrightarrow> (\<not> b \<Longrightarrow> shrinks n) \<Longrightarrow> shrinks (if b then m else n)"
  by simp

lemma shrinks_option [shrink_rules]: "shrinks a \<Longrightarrow> (\<And>x. shrinks (b x)) \<Longrightarrow> shrinks (case v of None \<Rightarrow> a | Some x \<Rightarrow> b x)"
  by (cases v) auto

lemma shrinks_perform [shrink_rules]: "shrinks (perform e)"
  unfolding perform_def by (intro shrink_rules shrinks_modE) (simp add: flush_measure_def)

lemma shrinks_ask [shrink_rules]: "shrinks (ask f opt e)" "shrinks (demand g opt e)"
  unfolding ask_def demand_def by (intro shrink_rules)+

lemma shrinks_on [shrink_rules]: "shrinks (onQueue q)" "shrinks (onCache c)" "shrinks (onGuard g)"
  by (simp_all add: shrinks_def onQueue_def onCache_def onGuard_def flush_measure_def split: prod.split)

lemma measure_map_entry:
  "(\<And>x. vb_watching (f x) \<Longrightarrow> vb_watching x) \<Longrightarrow>
     length (filter (\<lambda>p. vb_watching (snd p)) (AList.map_entry k f m)) \<le> length (filter (\<lambda>p. vb_watching (snd p)) m)"
  by (induction m) auto

lemma shrinks_set_bind: "(\<And>x. vb_watching (f x) \<Longrightarrow> vb_watching x) \<Longrightarrow> shrinks (set_bind track f)"
  unfolding set_bind_def by (intro shrinks_modE) (simp add: flush_measure_def measure_map_entry)

lemma shrinks_release [shrink_rules]: "shrinks (video_release track)"
  unfolding video_release_def by (intro shrink_rules shrinks_set_bind) auto

lemma shrinks_entry [shrink_rules]: "shrinks (router_allowed opt e op)" "shrinks (router_entry opt name op)"
  unfolding router_allowed_def router_entry_def by (intro shrink_rules)+

lemma shrinks_removeSubscription [shrink_rules]: "shrinks (removeSubscription opt sid)"
  unfolding removeSubscription_def router_subscription_def
  by (intro shrink_rules shrinks_modE) (simp add: flush_measure_def length_delete_le)

lemma shrinks_drain [shrink_rules]: "shrinks (drain opt sid ch)"
proof -
  have "shrinks (drain_rounds n opt sid ch)" for n
    by (induction n) (auto intro!: shrink_rules)
  then show ?thesis unfolding drain_def by (intro shrink_rules)
qed

lemma shrinks_respond [shrink_rules]: "shrinks (respond opt wire)"
  unfolding respond_def by (intro shrink_rules)

lemma shrinks_close [shrink_rules]: "shrinks (router_close opt)"
  unfolding router_close_def video_close_def unsubscribe_all_def
  by (intro shrink_rules shrinks_modE) (simp_all add: flush_measure_def)

lemma shrinks_error [shrink_rules]: "shrinks again \<Longrightarrow> shrinks (error_with again opt rid)"
  unfolding error_with_def by (intro shrink_rules)

lemma shrinks_event [shrink_rules]: "shrinks again \<Longrightarrow> shrinks (event_with again opt wire)"
  unfolding event_with_def by (intro shrink_rules)

lemma shrinks_viewer [shrink_rules]: "shrinks again \<Longrightarrow> shrinks (viewer_state_with again opt track st)"
  unfolding viewer_state_with_def by (intro shrink_rules shrinks_set_bind) auto

lemma shrinks_revalidate [shrink_rules]: "shrinks again \<Longrightarrow> shrinks (revalidate_with again opt)"
  unfolding revalidate_with_def by (intro shrink_rules)

lemma shrinks_flush_subs [shrink_rules]: "shrinks again \<Longrightarrow> shrinks (flush_subs again opt ids)"
  by (induction ids) (auto intro!: shrink_rules)

lemma shrinks_flush_with [shrink_rules]: "shrinks again \<Longrightarrow> shrinks (flush_with again opt)"
  unfolding flush_with_def by (intro shrink_rules)

lemma shrinks_flush_depth [shrink_rules]: "shrinks (flush_depth n opt)"
  by (induction n) (auto intro: shrink_rules)

subsection \<open>Agreement\<close>

lemma agree_bindE:
  assumes "agree n m m'" and "\<And>x. agree n (f x) (f' x)" and "shrinks m"
  shows "agree n (bindE m f) (bindE m' f')"
proof -
  have "bindE m f s = bindE m' f' s" if s: "flush_measure s < n" for s
  proof (cases "m s")
    case (Pair r t)
    then have "flush_measure t < n" using assms(3) s shrinksD le_less_trans by metis
    moreover have "m' s = (r, t)" using agreeD [OF assms(1) s] Pair by simp
    ultimately show ?thesis using agreeD [OF assms(2)] Pair by (cases r) (simp_all add: bindE_run)
  qed
  then show ?thesis by (simp add: agree_def)
qed

lemma agree_refl [simp]: "agree n m m"
  by (simp add: agree_def)

lemma agree_seqE: "agree n m m' \<Longrightarrow> agree n k k' \<Longrightarrow> shrinks m \<Longrightarrow> agree n (seqE m k) (seqE m' k')"
  unfolding seqE_def by (rule agree_bindE)

lemma agree_catchE:
  assumes "agree n m m'" and "\<And>e. agree n (h e) (h' e)" and "shrinks m"
  shows "agree n (catchE m h) (catchE m' h')"
proof -
  have "catchE m h s = catchE m' h' s" if s: "flush_measure s < n" for s
  proof (cases "m s")
    case (Pair r t)
    then have "flush_measure t < n" using assms(3) s shrinksD le_less_trans by metis
    moreover have "m' s = (r, t)" using agreeD [OF assms(1) s] Pair by simp
    ultimately show ?thesis using agreeD [OF assms(2)] Pair by (cases r) (simp_all add: catchE_run)
  qed
  then show ?thesis by (simp add: agree_def)
qed

lemma agree_if: "(b \<Longrightarrow> agree n m m') \<Longrightarrow> (\<not> b \<Longrightarrow> agree n k k') \<Longrightarrow> agree n (if b then m else k) (if b then m' else k')"
  by simp

lemma agree_option:
  "agree n a a' \<Longrightarrow> (\<And>x. agree n (b x) (b' x)) \<Longrightarrow>
     agree n (case v of None \<Rightarrow> a | Some x \<Rightarrow> b x) (case v of None \<Rightarrow> a' | Some x \<Rightarrow> b' x)"
  by (cases v) auto

lemmas agree_rules = agree_bindE agree_seqE agree_catchE agree_if agree_option agree_refl

lemma agree_error: "agree n again again' \<Longrightarrow> shrinks again \<Longrightarrow> agree n (error_with again opt rid) (error_with again' opt rid)"
  unfolding error_with_def by (intro agree_rules shrink_rules)

lemma agree_event: "agree n again again' \<Longrightarrow> shrinks again \<Longrightarrow> agree n (event_with again opt wire) (event_with again' opt wire)"
  unfolding event_with_def by (intro agree_rules agree_error shrink_rules)

lemma agree_viewer:
  "agree n again again' \<Longrightarrow> shrinks again \<Longrightarrow>
     agree n (viewer_state_with again opt track st) (viewer_state_with again' opt track st)"
  unfolding viewer_state_with_def by (intro agree_rules agree_event shrink_rules shrinks_set_bind) auto

text \<open>A watched track that is released, or a subscription that is removed, leaves room for one more level.\<close>

lemma measure_stop_watching:
  "map_of m k = Some b \<Longrightarrow> vb_watching b \<Longrightarrow> (\<And>x. \<not> vb_watching (f x)) \<Longrightarrow>
     length (filter (\<lambda>p. vb_watching (snd p)) (AList.map_entry k f m)) < length (filter (\<lambda>p. vb_watching (snd p)) m)"
  by (induction m) (auto split: if_splits)

lemma release_drops:
  assumes "map_of (rt_bound s) track = Some b" and "vb_watching b"
  shows "flush_measure (snd (video_release track s)) < flush_measure s"
proof -
  define t where "t = s\<lparr>rt_bound := AList.map_entry track (\<lambda>x. x\<lparr>vb_watching := False\<rparr>) (rt_bound s)\<rparr>"
  have "flush_measure t < flush_measure s"
    using measure_stop_watching [OF assms] by (simp add: t_def flush_measure_def)
  moreover have "shrinks (if \<not> vb_attached b then retE ()
         else seqE (set_bind track (\<lambda>x. x\<lparr>vb_attached := False\<rparr>)) (bindE (perform (VideoDetach track)) (\<lambda>_. retE ())))" (is "shrinks ?rest")
    by (intro shrink_rules shrinks_set_bind) auto
  moreover have "snd (video_release track s) = snd (?rest t)"
    unfolding video_release_def bindE_run seqE_run set_bind_def prog_run by (simp add: assms t_def seqE_run prog_run)
  ultimately show ?thesis unfolding shrinks_def by (metis le_less_trans)
qed

lemma length_delete_less: "k \<in> set (keys m) \<Longrightarrow> length (AList.delete k m) < length m"
  by (induction m) (auto simp: le_imp_less_Suc length_delete_le)

lemma remove_drops:
  assumes "removeSubscription opt sid s = (Inr u, t)"
  shows "flush_measure t < flush_measure s"
proof -
  obtain sub where sub: "map_of (rt_subscriptions s) sid = Some sub"
    using assms by (auto simp: removeSubscription_def router_subscription_def run_Inr split: option.splits)
  define s1 where "s1 = s\<lparr>rt_subscriptions := AList.delete sid (rt_subscriptions s)\<rparr>"
  have "sid \<in> set (keys (rt_subscriptions s))" using map_of_SomeD [OF sub] by force
  then have "flush_measure s1 < flush_measure s" using length_delete_less by (simp add: s1_def flush_measure_def)
  moreover have "seqE (onQueue (closeStream sid)) (demand on_unsubscribe opt (RosUnsubscribe sid)) s1 = (Inr u, t)" (is "?rest s1 = _")
    using assms by (simp add: removeSubscription_def router_subscription_def bindE_run seqE_run prog_run sub s1_def)
  moreover have "shrinks ?rest" by (intro shrink_rules)
  ultimately show ?thesis using shrinksD by (metis le_less_trans)
qed

lemma agree_forE: "(\<And>x. agree n (f x) (g x)) \<Longrightarrow> (\<And>x. shrinks (f x)) \<Longrightarrow> agree n (forE f xs) (forE g xs)"
  by (induction xs) (auto intro: agree_seqE)

text \<open>A check of the environment changes nothing but the log.\<close>

lemma demand_keeps: "demand f opt e s = (r, t) \<Longrightarrow> t = s\<lparr>rt_log := rt_log s @ [e]\<rparr>"
  by (auto simp: demand_def ask_def perform_def bindE_run seqE_run prog_run)

lemma agree_after:
  assumes "agree n k k'" and "flush_measure s \<le> n" and "\<And>u t. m s = (Inr u, t) \<Longrightarrow> flush_measure t < flush_measure s"
  shows "seqE m k s = seqE m k' s"
proof (cases "m s")
  case (Pair r t)
  then show ?thesis
  proof (cases r)
    case (Inr u)
    then have "flush_measure t < n" using assms(2) assms(3) [of u t] Pair by simp
    then show ?thesis using Pair Inr agreeD [OF assms(1)] by (simp add: seqE_run)
  qed (simp add: seqE_run)
qed

lemma agree_revalidate:
  assumes "agree n again again'" and "shrinks again"
  shows "agree (Suc n) (revalidate_with again opt) (revalidate_with again' opt)"
proof -
  define step where "step = (\<lambda>a track.
       bindE (getE (\<lambda>s. case map_of (rt_bound s) track of None \<Rightarrow> False | Some b \<Rightarrow> vb_watching b)) (\<lambda>watching.
       if \<not> watching then retE ()
       else bindE (demand on_videoAuthorize opt (VideoAuthorize track)) (\<lambda>ok.
            if ok then retE ()
            else seqE (video_release track) (viewer_state_with a opt track VFailed))))"
  have "step again track s = step again' track s" if s: "flush_measure s < Suc n" for track s
  proof (cases "\<exists>b. map_of (rt_bound s) track = Some b \<and> vb_watching b")
    case False
    then show ?thesis by (auto simp: step_def bindE_run prog_run split: option.splits)
  next
    case True
    then obtain b where b: "map_of (rt_bound s) track = Some b" "vb_watching b" by blast
    obtain r t where run: "demand on_videoAuthorize opt (VideoAuthorize track) s = (r, t)" by fastforce
    then have t: "rt_bound t = rt_bound s" "flush_measure t = flush_measure s"
      by (auto dest!: demand_keeps simp: flush_measure_def)
    have drop: "flush_measure v < flush_measure t" if "video_release track t = (Inr u, v)" for u v
      using release_drops [of t track b] b t that by simp
    have "seqE (video_release track) (viewer_state_with again opt track VFailed) t
        = seqE (video_release track) (viewer_state_with again' opt track VFailed) t"
      by (rule agree_after [OF agree_viewer [OF assms]]) (use s t b drop in auto)
    then show ?thesis using run b by (cases r) (auto simp: step_def bindE_run prog_run)
  qed
  then have "agree (Suc n) (step again track) (step again' track)" for track by (simp add: agree_def)
  moreover have "shrinks (step again track)" for track
    unfolding step_def using assms(2) by (intro shrink_rules)
  ultimately have "agree (Suc n) (forE (step again) xs) (forE (step again') xs)" for xs by (rule agree_forE)
  moreover have "revalidate_with a opt = bindE (getE (\<lambda>s. keys (rt_bound s))) (forE (step a))" for a
    by (simp add: revalidate_with_def step_def)
  ultimately show ?thesis by (simp add: agree_bindE shrink_rules)
qed

lemma agree_flush_subs:
  assumes "agree n again again'" and "shrinks again"
  shows "agree (Suc n) (flush_subs again opt ids) (flush_subs again' opt ids)"
proof (induction ids)
  case Nil
  show ?case by simp
next
  case (Cons sid ids)
  define refuse where "refuse = (\<lambda>a. seqE (bindE (getE (\<lambda>s. sid \<in> set (keys (rt_subscriptions s))))
      (\<lambda>has. if has then removeSubscription opt sid else retE ())) (error_with a opt None))"
  define check where "check = (\<lambda>sub :: subscription. catchE (seqE (router_entry opt (publicName (rb_binding (sub_entry sub))) OpSubscribe) (retE True))
                  (\<lambda>_. retE False))"
  have refuse: "refuse again t = refuse again' t" if t: "flush_measure t < Suc n" "sid \<in> set (keys (rt_subscriptions t))" for t
    unfolding refuse_def
    by (rule agree_after [OF agree_error [OF assms]])
       (use t in \<open>auto simp: bindE_run prog_run split: prod.splits sum.splits dest: remove_drops\<close>)
  have checked: "rt_subscriptions t = rt_subscriptions s \<and> flush_measure t = flush_measure s" if "check sub s = (r, t)" for sub r s t
    using that unfolding check_def router_entry_def router_allowed_def
    by (auto simp: bindE_run seqE_run catchE_run prog_run throwIf_run flush_measure_def
        split: prod.splits sum.splits if_splits option.splits dest!: demand_keeps)
  have "flush_subs again opt (sid # ids) s = flush_subs again' opt (sid # ids) s" if s: "flush_measure s < Suc n" for s
  proof (cases "map_of (rt_subscriptions s) sid")
    case None
    then show ?thesis using agreeD [OF Cons.IH s] by (simp add: bindE_run prog_run)
  next
    case (Some sub)
    then have has: "sid \<in> set (keys (rt_subscriptions s))" by (metis map_of_eq_None_iff option.distinct(1) set_map)
    define go where "go = (\<lambda>a. bindE (check sub) (\<lambda>ok. if \<not> ok then refuse a
        else bindE (drain opt sid (dataChannel (b_delivery (rb_binding (sub_entry sub))))) (\<lambda>done.
              if done then flush_subs a opt ids else retE ())))"
    obtain r t where run: "check sub s = (r, t)" by fastforce
    have rest: "agree (Suc n) (bindE (drain opt sid ch) (\<lambda>done. if done then flush_subs again opt ids else retE ()))
        (bindE (drain opt sid ch) (\<lambda>done. if done then flush_subs again' opt ids else retE ()))" for ch
      by (intro agree_bindE agree_if agree_refl Cons.IH shrink_rules)
    have "go again s = go again' s"
      using checked [OF run] run refuse [of t] agreeD [OF rest, of t] s has
      by (cases r) (auto simp: go_def bindE_run)
    then show ?thesis using Some unfolding go_def check_def refuse_def by (simp add: bindE_run prog_run)
  qed
  then show ?case by (simp add: agree_def)
qed

lemma agree_flush_with:
  assumes "agree n again again'" and "shrinks again"
  shows "agree (Suc n) (flush_with again opt) (flush_with again' opt)"
  unfolding flush_with_def
  by (intro agree_bindE agree_seqE agree_if agree_refl agree_revalidate agree_flush_subs shrink_rules assms)

lemma flush_depth_agree: "agree (Suc n) (flush_depth (Suc n) opt) (flush_depth (Suc (Suc n)) opt)"
proof (induction n)
  case 0
  show ?case unfolding flush_depth.simps by (rule agree_flush_with) (auto simp: agree_def intro: shrink_rules)
next
  case (Suc n)
  show ?case using agree_flush_with [OF Suc.IH shrinks_flush_depth] by (simp only: flush_depth.simps)
qed

lemma flush_depth_enough: "flush_measure s < n \<Longrightarrow> flush_depth n opt s = flush opt s"
proof (induction n)
  case (Suc n)
  show ?case
  proof (cases "flush_measure s < n")
    case True
    then obtain m where m: "n = Suc m" by (cases n) auto
    have "flush_depth (Suc n) opt s = flush_depth n opt s"
      using agreeD [OF flush_depth_agree, of s m opt] True m by simp
    then show ?thesis using Suc.IH True by simp
  next
    case False
    then have "flush_measure s = n" using Suc.prems by simp
    then show ?thesis by (simp add: flush_def bindE_run prog_run)
  qed
qed simp

lemma flush_unfold: "flush opt s = flush_with (flush opt) opt s"
proof -
  let ?n = "flush_measure s"
  have "agree ?n (flush_depth ?n opt) (flush opt)" using flush_depth_enough by (auto simp: agree_def)
  then have "agree (Suc ?n) (flush_with (flush_depth ?n opt) opt) (flush_with (flush opt) opt)"
    by (rule agree_flush_with) (rule shrinks_flush_depth)
  then have "flush_with (flush_depth ?n opt) opt s = flush_with (flush opt) opt s" by (rule agreeD) simp
  then show ?thesis by (simp add: flush_def bindE_run prog_run)
qed

subsection \<open>The loop of drain\<close>

lemma drain_pending:
  assumes "onQueue (peek sid) s = (Inr (Some m), t)"
  shows "t = s" and "\<exists>st ms. map_of (q_streams (rt_queue s)) sid = Some st \<and> \<not> s_stopped st \<and> s_messages st = m # ms"
  using assms by (auto simp: onQueue_def peek_run split: prod.splits option.splits if_splits list.splits)

lemma dequeue_pending:
  assumes "map_of (q_streams (rt_queue s)) sid = Some st" and "\<not> s_stopped st" and "s_messages st = m # ms"
    and "onQueue (dequeue sid) s = (Inr x, t)"
  shows "pending_messages sid t = length ms"
  using assms by (auto simp: onQueue_def dequeue_run pending_messages_def map_of_map_entry' split: prod.splits)

text \<open>The body of the loop, over what the loop does next.\<close>

definition drain_step :: "bool action \<Rightarrow> routerOptions \<Rightarrow> ustring \<Rightarrow> channel \<Rightarrow> bool action" where
  "drain_step again opt sid ch =
     bindE (onQueue (peek sid)) (\<lambda>next.
     case next of
       None \<Rightarrow> retE True
     | Some m \<Rightarrow>
         bindE (demand on_send opt (Send ch m)) (\<lambda>ok.
         if \<not> ok then retE False else seqE (onQueue (dequeue sid)) again))"

lemma drain_rounds_Suc: "drain_rounds (Suc n) opt sid ch = drain_step (drain_rounds n opt sid ch) opt sid ch"
  by (simp add: drain_step_def)

lemma drain_step_cong:
  assumes "\<And>t. pending_messages sid t < pending_messages sid s \<Longrightarrow> c t = c' t"
  shows "drain_step c opt sid ch s = drain_step c' opt sid ch s"
proof (cases "\<exists>m t. onQueue (peek sid) s = (Inr (Some m), t)")
  case False
  then show ?thesis by (auto simp: drain_step_def bindE_run prog_run split: prod.splits sum.splits option.splits)
next
  case True
  then obtain m where peeked: "onQueue (peek sid) s = (Inr (Some m), s)" using drain_pending(1) by metis
  then obtain st ms where st: "map_of (q_streams (rt_queue s)) sid = Some st" "\<not> s_stopped st" "s_messages st = m # ms"
    using drain_pending(2) by blast
  obtain r s1 where sent: "demand on_send opt (Send ch m) s = (r, s1)" by fastforce
  then have s1: "rt_queue s1 = rt_queue s" by (auto dest!: demand_keeps)
  have "seqE (onQueue (dequeue sid)) c s1 = seqE (onQueue (dequeue sid)) c' s1"
  proof (cases "onQueue (dequeue sid) s1")
    case (Pair x s2)
    show ?thesis
    proof (cases x)
      case (Inr y)
      then have "pending_messages sid s2 = length ms" using dequeue_pending [of s1 sid st m ms y s2] st s1 Pair by simp
      moreover have "pending_messages sid s = Suc (length ms)" using st by (simp add: pending_messages_def)
      ultimately show ?thesis using assms [of s2] Pair Inr by (simp add: seqE_run)
    qed (use Pair in \<open>simp add: seqE_run\<close>)
  qed
  then show ?thesis using sent peeked by (cases r) (simp_all add: drain_step_def bindE_run prog_run)
qed

lemma drain_rounds_enough:
  "pending_messages sid s < n \<Longrightarrow> pending_messages sid s < n' \<Longrightarrow> drain_rounds n opt sid ch s = drain_rounds n' opt sid ch s"
proof (induction n arbitrary: n' s)
  case (Suc n)
  obtain k where k: "n' = Suc k" using Suc.prems(2) by (cases n') auto
  then have "drain_rounds n opt sid ch t = drain_rounds k opt sid ch t" if "pending_messages sid t < pending_messages sid s" for t
    using Suc.IH [of t k] Suc.prems that by simp
  then show ?case unfolding k drain_rounds_Suc by (rule drain_step_cong)
qed simp

text \<open>The source's loop: peek, send, remove, and again.\<close>

lemma drain_unfold: "drain opt sid ch s = drain_step (drain opt sid ch) opt sid ch s"
proof -
  let ?n = "pending_messages sid s"
  have "drain_rounds ?n opt sid ch t = drain opt sid ch t" if "pending_messages sid t < ?n" for t
    using drain_rounds_enough [of sid t ?n "Suc (pending_messages sid t)"] that by (simp add: drain_def bindE_run prog_run)
  then have "drain_step (drain_rounds ?n opt sid ch) opt sid ch s = drain_step (drain opt sid ch) opt sid ch s"
    by (rule drain_step_cong)
  then show ?thesis by (simp add: drain_def bindE_run prog_run drain_rounds_Suc del: drain_rounds.simps)
qed

section \<open>Properties\<close>

text \<open>
  C5: The nested calls of \<open>flush\<close> and the loop of \<open>drain\<close> end. The depth and the number of rounds the model
  allows are never reached: in every state the operations satisfy the recursive equations of the
  source, and any larger allowance computes the same.
\<close>

theorem flush_terminates:
  "flush opt s = flush_with (flush opt) opt s
     \<and> drain opt sid ch s = drain_step (drain opt sid ch) opt sid ch s
     \<and> flush_depth (Suc (flush_measure s) + n) opt s = flush opt s
     \<and> drain_rounds (Suc (pending_messages sid s) + n) opt sid ch s = drain opt sid ch s"
proof (intro conjI)
  show "flush opt s = flush_with (flush opt) opt s" by (rule flush_unfold)
  show "drain opt sid ch s = drain_step (drain opt sid ch) opt sid ch s" by (rule drain_unfold)
  show "flush_depth (Suc (flush_measure s) + n) opt s = flush opt s" by (rule flush_depth_enough) simp
  have "drain_rounds (Suc (pending_messages sid s) + n) opt sid ch s = drain_rounds (Suc (pending_messages sid s)) opt sid ch s"
    by (rule drain_rounds_enough) simp_all
  then show "drain_rounds (Suc (pending_messages sid s) + n) opt sid ch s = drain opt sid ch s"
    by (simp add: drain_def bindE_run prog_run)
qed

end
