(* ===== verification/Router_Safety.thy ===== *)
theory Router_Safety
  imports Router_Flush
begin

text \<open>
  What a session router keeps whatever its peer, the clock, ROS, the media plane and the transport do:
  bounds on handles, queue and cache, and a log in which every command to ROS, every sample to the peer
  and every attached viewer follows a consent of the environment.
\<close>

section \<open>What a log must justify\<close>

text \<open>
  A history that ends with the environment's consent to an operation, possibly followed by sends on
  one channel.
\<close>

definition consented :: "routerOptions \<Rightarrow> routerBinding \<Rightarrow> operationKind \<Rightarrow> history \<Rightarrow> bool" where
  "consented opt e op h \<longleftrightarrow>
     map_of (ro_entries opt) (publicName (rb_binding e)) = Some e \<and> b_direction (rb_binding e) = wanted_direction op
     \<and> h \<noteq> [] \<and> last h = Authorize (rb_binding e) op \<and> on_authorize (ro_oracle opt) h = Inr True"

fun is_send :: "channel \<Rightarrow> effect \<Rightarrow> bool" where
  "is_send ch (Send c bs) = (c = ch)"
| "is_send ch _ = False"

definition send_allowed :: "routerOptions \<Rightarrow> channel \<Rightarrow> history \<Rightarrow> bool" where
  "send_allowed opt ch h \<longleftrightarrow>
     ch = ControlChannel
     \<or> (\<exists>e h0 sends. h = h0 @ sends \<and> list_all (is_send ch) sends \<and> consented opt e OpSubscribe h0
           \<and> ch = dataChannel (b_delivery (rb_binding e)))"

text \<open>What makes an effect legitimate after a history.\<close>

fun effect_ok :: "routerOptions \<Rightarrow> history \<Rightarrow> effect \<Rightarrow> bool" where
  "effect_ok opt h (RosPublish name v) =
     (\<exists>e. consented opt e OpPublish h \<and> name = publicName (rb_binding e) \<and> (\<exists>w. codec_encode (rb_codec e) v = Inr w))"
| "effect_ok opt h (Send ch bs) = (0 < length bs \<and> int (length bs) \<le> ro_maxBytes opt \<and> send_allowed opt ch h)"
| "effect_ok opt h (VideoAttach track) =
     (\<exists>h0 rest. h = h0 @ VideoAuthorize track # rest \<and> rest \<in> {[], [VideoProfile track]}
        \<and> on_videoAuthorize (ro_oracle opt) (h0 @ [VideoAuthorize track]) = Inr True)"
| "effect_ok opt h _ = True"

definition log_ok_from :: "routerOptions \<Rightarrow> history \<Rightarrow> history \<Rightarrow> bool" where
  "log_ok_from opt h l \<longleftrightarrow> (\<forall>n < length l. effect_ok opt (h @ take n l) (l ! n))"

abbreviation log_justified :: "routerOptions \<Rightarrow> history \<Rightarrow> bool" where
  "log_justified opt l \<equiv> log_ok_from opt [] l"

lemma log_justified_snoc [simp]: "log_justified opt (l @ [e]) \<longleftrightarrow> log_justified opt l \<and> effect_ok opt l e"
  by (auto simp: log_ok_from_def nth_append less_Suc_eq)

section \<open>Invariant\<close>

definition known_entry :: "routerOptions \<Rightarrow> routerBinding \<Rightarrow> bool" where
  "known_entry opt e \<longleftrightarrow> map_of (ro_entries opt) (publicName (rb_binding e)) = Some e"

text \<open>An entry whose samples go to the browser.\<close>

definition known_source :: "routerOptions \<Rightarrow> routerBinding \<Rightarrow> bool" where
  "known_source opt e \<longleftrightarrow> known_entry opt e \<and> b_direction (rb_binding e) = RosToWeb"

definition table_wf :: "routerOptions \<Rightarrow> bool" where
  "table_wf opt \<longleftrightarrow> (\<forall>name e. map_of (ro_entries opt) name = Some e \<longrightarrow> publicName (rb_binding e) = name) \<and> 0 \<le> ro_maxBytes opt"

text \<open>The queue has one stream per subscription, and the control stream.\<close>

definition streams_ok :: "router \<Rightarrow> bool" where
  "streams_ok s \<longleftrightarrow>
     distinct (keys (rt_subscriptions s)) \<and>
     (if rt_closed s then rt_subscriptions s = [] \<and> rt_publishers s = [] \<and> q_streams (rt_queue s) = []
      else control_id \<notin> set (keys (rt_subscriptions s))
           \<and> set (keys (q_streams (rt_queue s))) = insert control_id (set (keys (rt_subscriptions s))))"

definition handles_ok :: "routerOptions \<Rightarrow> router \<Rightarrow> bool" where
  "handles_ok opt s \<longleftrightarrow>
     int (length (rt_subscriptions s) + length (rt_publishers s)) \<le> ro_maxHandles opt
     \<and> (\<forall>p \<in> set (rt_subscriptions s). known_source opt (sub_entry (snd p)))
     \<and> (\<forall>p \<in> set (rt_publishers s). known_entry opt (pub_entry (snd p))
          \<and> pub_guarded (snd p) = (b_commandGuard (rb_binding (pub_entry (snd p))) \<noteq> None))"

definition queue_kept :: "routerOptions \<Rightarrow> queue \<Rightarrow> bool" where
  "queue_kept opt q \<longleftrightarrow> queue_inv q \<and> maxMessageBytes (q_options q) = ro_maxBytes opt"

definition cache_kept :: "cache \<Rightarrow> bool" where
  "cache_kept c \<longleftrightarrow> cache_inv c \<and> 0 < rc_maxEntries c \<and> 0 \<le> rc_maxBytes c"

definition router_inv :: "routerOptions \<Rightarrow> router \<Rightarrow> bool" where
  "router_inv opt s \<longleftrightarrow>
     table_wf opt \<and> queue_kept opt (rt_queue s) \<and> cache_kept (rt_cache s) \<and> streams_ok s \<and> handles_ok opt s \<and> log_justified opt (rt_log s)"

section \<open>Operations on the parts\<close>

lemmas router_inv_parts = router_inv_def streams_ok_def handles_ok_def

text \<open>Fields the invariant does not read.\<close>

lemma router_inv_other [simp]:
  "router_inv opt (s\<lparr>rt_guard := g\<rparr>) = router_inv opt s"
  "router_inv opt (s\<lparr>rt_bound := b\<rparr>) = router_inv opt s"
  "router_inv opt (s\<lparr>rt_free := f\<rparr>) = router_inv opt s"
  "router_inv opt (s\<lparr>rt_nextId := n\<rparr>) = router_inv opt s"
  "router_inv opt (s\<lparr>rt_lastTime := t\<rparr>) = router_inv opt s"
  "router_inv opt (s\<lparr>rt_controlWindow := w\<rparr>) = router_inv opt s"
  "router_inv opt (s\<lparr>rt_controlCount := c\<rparr>) = router_inv opt s"
  "router_inv opt (s\<lparr>rt_welcomed := x\<rparr>) = router_inv opt s"
  by (simp_all add: router_inv_parts)

lemma router_inv_log [simp]:
  "router_inv opt (s\<lparr>rt_log := rt_log s @ [e]\<rparr>) \<longleftrightarrow> router_inv opt s \<and> effect_ok opt (rt_log s) e"
  by (auto simp: router_inv_parts)

text \<open>An effect that needs no justification.\<close>

definition neutral :: "effect \<Rightarrow> bool" where
  "neutral e \<longleftrightarrow> (\<forall>opt h. effect_ok opt h e)"

lemma neutral_simps [simp]:
  "neutral Clock" "neutral (Authorize b op)" "neutral (RosSubscribe n i)" "neutral (RosUnsubscribe i)" "neutral GuardClock"
  "neutral OnClosed" "neutral VideoCatalog" "neutral (VideoAuthorize t)" "neutral (VideoProfile t)" "neutral (VideoDetach t)"
  "neutral (VideoKeyframe t)"
  by (simp_all add: neutral_def)

lemma keeps_perform [keeps_rules]: "neutral e \<Longrightarrow> keeps (router_inv opt) (perform e)"
  by (simp add: keeps_def perform_def prog_simps neutral_def)

lemma keeps_ask [keeps_rules]:
  "neutral e \<Longrightarrow> keeps (router_inv opt) (ask f opt' e)" "neutral e \<Longrightarrow> keeps (router_inv opt) (demand g opt' e)"
  unfolding demand_def ask_def by (intro keeps_rules; assumption)+

lemma keeps_onGuard [keeps_rules]: "keeps (router_inv opt) (onGuard m)"
  by (simp add: keeps_def onGuard_def split: prod.split)

lemma keeps_option [keeps_rules]:
  "(v = None \<Longrightarrow> keeps P a) \<Longrightarrow> (\<And>x. v = Some x \<Longrightarrow> keeps P (b x)) \<Longrightarrow> keeps P (case v of None \<Rightarrow> a | Some x \<Rightarrow> b x)"
  by (cases v) auto


definition queue_steady :: "(queue, 'a) prog \<Rightarrow> bool" where
  "queue_steady m \<longleftrightarrow>
     (\<forall>q r q'. queue_inv q \<longrightarrow> m q = (r, q') \<longrightarrow>
        queue_inv q' \<and> q_options q' = q_options q \<and> keys (q_streams q') = keys (q_streams q))"

lemma queue_frame:
  "keeps (\<lambda>q. q_options q = opts \<and> keys (q_streams q) = ks) (enqueue sid m)"
  "keeps (\<lambda>q. q_options q = opts \<and> keys (q_streams q) = ks) (dequeue sid)"
  "keeps (\<lambda>q. q_options q = opts \<and> keys (q_streams q) = ks) (peek sid)"
  unfolding enqueue_def dequeue_def peek_def queue_prims
  by (auto intro!: keeps_rules split: list.split option.split)

lemma queue_steadyI:
  assumes "\<And>q r q'. queue_inv q \<Longrightarrow> m q = (r, q') \<Longrightarrow> queue_inv q'"
    and "\<And>opts ks. keeps (\<lambda>q. q_options q = opts \<and> keys (q_streams q) = ks) m"
  shows "queue_steady m"
  using assms(1) keepsD [OF assms(2)] unfolding queue_steady_def by metis

lemma queue_steady_ops: "queue_steady (enqueue sid m)" "queue_steady (dequeue sid)" "queue_steady (peek sid)"
  by (rule queue_steadyI, erule (1) enqueue_inv dequeue_inv peek_inv, rule queue_frame)+

lemma router_inv_queue:
  "router_inv opt s \<Longrightarrow> queue_kept opt q \<Longrightarrow> keys (q_streams q) = keys (q_streams (rt_queue s)) \<Longrightarrow> router_inv opt (s\<lparr>rt_queue := q\<rparr>)"
  unfolding router_inv_parts by (auto simp del: set_map)

lemma keeps_onQueue: "queue_steady m \<Longrightarrow> keeps (router_inv opt) (onQueue m)"
proof (rule keepsI)
  fix s r s' assume "queue_steady m" and inv: "router_inv opt s" and "onQueue m s = (r, s')"
  then obtain q where "m (rt_queue s) = (r, q)" and s': "s' = s\<lparr>rt_queue := q\<rparr>" by (auto simp: onQueue_def split: prod.splits)
  with \<open>queue_steady m\<close> inv have "queue_kept opt q \<and> keys (q_streams q) = keys (q_streams (rt_queue s))"
    unfolding queue_steady_def router_inv_def queue_kept_def by metis
  then show "router_inv opt s'" using router_inv_queue [OF inv] s' by simp
qed

lemmas keeps_queue_ops [keeps_rules] = queue_steady_ops [THEN keeps_onQueue]

lemma keeps_respond [keeps_rules]: "keeps (router_inv opt) (respond opt' wire)"
  unfolding respond_def by (intro keeps_rules)

text \<open>Sending from a history that allows it, which sends do not change.\<close>

lemma send_allowed_snoc: "send_allowed opt ch h \<Longrightarrow> send_allowed opt ch (h @ [Send ch bs])"
  unfolding send_allowed_def
  by (metis append_assoc is_send.simps(1) list_all_append list.pred_inject)

definition sending_inv :: "routerOptions \<Rightarrow> channel \<Rightarrow> router \<Rightarrow> bool" where
  "sending_inv opt ch s \<longleftrightarrow> router_inv opt s \<and> send_allowed opt ch (rt_log s)"

lemma peeked_size:
  assumes "router_inv opt s" and "onQueue (peek sid) s = (Inr (Some m), t)"
  shows "t = s \<and> 0 < length m \<and> int (length m) \<le> ro_maxBytes opt"
proof -
  from assms(2) obtain st ms where st: "map_of (q_streams (rt_queue s)) sid = Some st" "s_messages st = m # ms" and t: "t = s"
    using drain_pending by blast
  have "queue_inv (rt_queue s)" and max: "maxMessageBytes (q_options (rt_queue s)) = ro_maxBytes opt"
    using assms(1) by (simp_all add: router_inv_def queue_kept_def)
  then have "stream_ok (q_options (rt_queue s)) st" using st(1) queue_inv_stream by blast
  then show ?thesis using st(2) t max by (simp add: stream_ok_def)
qed

lemma keeps_drain_rounds: "keeps (sending_inv opt ch) (drain_rounds n opt sid ch)"
proof (induction n)
  case 0
  show ?case by (simp add: keeps_rules)
next
  case (Suc n)
  have deq: "keeps (sending_inv opt ch) (onQueue (dequeue sid))"
  proof (rule keepsI)
    fix s r t assume s: "sending_inv opt ch s" and run: "onQueue (dequeue sid) s = (r, t)"
    then have "rt_log t = rt_log s" by (auto simp: onQueue_def split: prod.splits)
    moreover have "router_inv opt t" using keepsD [OF keeps_queue_ops(2) _ run] s by (simp add: sending_inv_def)
    ultimately show "sending_inv opt ch t" using s by (simp add: sending_inv_def)
  qed
  define cont where "cont = (\<lambda>ok. if \<not> ok then retE False else seqE (onQueue (dequeue sid)) (drain_rounds n opt sid ch))"
  have cont: "keeps (sending_inv opt ch) (cont ok)" for ok
    unfolding cont_def by (intro keeps_rules deq Suc.IH)
  have "sending_inv opt ch t" if s: "sending_inv opt ch s" and run: "drain_rounds (Suc n) opt sid ch s = (r, t)" for s r t
  proof (cases "\<exists>m v. onQueue (peek sid) s = (Inr (Some m), v)")
    case False
    then have "t = snd (onQueue (peek sid) s)" using run by (auto simp: bindE_run prog_run split: prod.splits sum.splits option.splits)
    moreover have "snd (onQueue (peek sid) s) = s" by (simp add: onQueue_def peek_run)
    ultimately show ?thesis using s by simp
  next
    case True
    then obtain m where m: "onQueue (peek sid) s = (Inr (Some m), s)" "0 < length m" "int (length m) \<le> ro_maxBytes opt"
      using peeked_size s unfolding sending_inv_def by metis
    define s1 where "s1 = s\<lparr>rt_log := rt_log s @ [Send ch m]\<rparr>"
    have "sending_inv opt ch s1" using s m by (simp add: s1_def sending_inv_def send_allowed_snoc)
    moreover have "bindE (demand on_send opt (Send ch m)) cont s = bindE (liftE (on_send (ro_oracle opt) (rt_log s1))) cont s1"
      by (simp add: demand_def ask_def perform_def bindE_run seqE_run prog_run s1_def)
    moreover have "keeps (sending_inv opt ch) (bindE (liftE (on_send (ro_oracle opt) (rt_log s1))) cont)"
      by (intro keeps_rules cont)
    moreover have "bindE (demand on_send opt (Send ch m)) cont s = (r, t)"
      using run m(1) by (simp add: bindE_run cont_def [symmetric])
    ultimately show ?thesis using keepsD by metis
  qed
  then show ?case by (rule keepsI)
qed

lemma keeps_drain: "keeps (sending_inv opt ch) (drain opt sid ch)"
  unfolding drain_def by (intro keeps_rules keeps_drain_rounds)

lemma keeps_drain_control [keeps_rules]: "keeps (router_inv opt) (drain opt sid ControlChannel)"
proof -
  have "sending_inv opt ControlChannel = router_inv opt" by (auto simp: sending_inv_def send_allowed_def)
  then show ?thesis using keeps_drain [of opt ControlChannel sid] by simp
qed


section \<open>Authorization\<close>

lemma allowed_run:
  assumes "router_allowed opt e op s = (r, t)"
  shows "t = s \<and> r = Inr False
    \<or> t = s\<lparr>rt_log := rt_log s @ [Authorize (rb_binding e) op]\<rparr> \<and> b_direction (rb_binding e) = wanted_direction op
       \<and> r = on_authorize (ro_oracle opt) (rt_log t)"
  using assms by (auto simp: router_allowed_def demand_def ask_def perform_def bindE_run seqE_run prog_run split: if_splits)

text \<open>A granted entry leaves the consent at the end of the log.\<close>

lemma entry_granted:
  assumes "router_entry opt name op s = (Inr e, t)" and "table_wf opt"
  shows "consented opt e op (rt_log t)" and "t = s\<lparr>rt_log := rt_log s @ [Authorize (rb_binding e) op]\<rparr>" and "\<not> rt_closed s"
    and "publicName (rb_binding e) = name" and "known_entry opt e"
proof -
  obtain s1 where e: "map_of (ro_entries opt) name = Some e" and ok: "router_allowed opt e op s = (Inr True, s1)"
    and t: "t = s1" "\<not> rt_closed s1"
    using assms(1) unfolding router_entry_def by (auto simp: run_Inr split: option.splits)
  have name: "publicName (rb_binding e) = name" using assms(2) e by (simp add: table_wf_def)
  have granted: "t = s\<lparr>rt_log := rt_log s @ [Authorize (rb_binding e) op]\<rparr>" "b_direction (rb_binding e) = wanted_direction op"
     "on_authorize (ro_oracle opt) (rt_log t) = Inr True"
    using allowed_run [OF ok] t by auto
  show "t = s\<lparr>rt_log := rt_log s @ [Authorize (rb_binding e) op]\<rparr>" by (rule granted)
  then have "last (rt_log t) = Authorize (rb_binding e) op" "rt_log t \<noteq> []" by simp_all
  then show "consented opt e op (rt_log t)" unfolding consented_def using granted name e by simp
  show "\<not> rt_closed s" using t granted(1) by auto
  show "publicName (rb_binding e) = name" by (rule name)
  show "known_entry opt e" using name e by (simp add: known_entry_def)
qed

lemma keeps_allowed [keeps_rules]: "keeps (router_inv opt) (router_allowed opt' e op)"
  unfolding router_allowed_def by (intro keeps_rules) simp

lemma keeps_entry [keeps_rules]: "keeps (router_inv opt) (router_entry opt' name op)"
  unfolding router_entry_def by (intro keeps_rules)

lemma entry_frame: "router_entry opt name op s = (r, t) \<Longrightarrow> \<exists>l. t = s\<lparr>rt_log := l\<rparr>"
proof -
  assume run: "router_entry opt name op s = (r, t)"
  have "keeps (\<lambda>u. \<exists>l. u = s\<lparr>rt_log := l\<rparr>) (router_entry opt name op)"
    unfolding router_entry_def router_allowed_def demand_def ask_def perform_def
    by (intro keeps_rules) auto
  moreover have "\<exists>l. s = s\<lparr>rt_log := l\<rparr>" by (rule exI [of _ "rt_log s"]) simp
  ultimately show ?thesis using run keepsD by fast
qed

section \<open>Removing and closing\<close>

lemma queue_kept_close: "queue_kept opt q \<Longrightarrow> closeStream sid q = (r, q') \<Longrightarrow> queue_kept opt q'"
  using closeStream_inv [of q sid r q']
  by (cases "map_of (q_streams q) sid") (auto simp: queue_kept_def closeStream_run closeStream_unknown)

lemma remove_streams:
  assumes "streams_ok s" and "map_of (rt_subscriptions s) sid = Some sub"
    and "closeStream sid (rt_queue s) = (r, q)"
  shows "r = Inr () \<and> streams_ok (s\<lparr>rt_subscriptions := AList.delete sid (rt_subscriptions s), rt_queue := q\<rparr>)"
proof -
  have in_keys: "sid \<in> set (keys (rt_subscriptions s))" using map_of_SomeD [OF assms(2)] by force
  then have open_state: "\<not> rt_closed s" using assms(1) by (auto simp: streams_ok_def)
  then have "sid \<in> set (keys (q_streams (rt_queue s)))" using assms(1) in_keys by (auto simp: streams_ok_def)
  then obtain st where "map_of (q_streams (rt_queue s)) sid = Some st" by (metis map_of_eq_None_iff not_Some_eq set_map)
  then have run: "r = Inr ()" "q_streams q = AList.delete sid (q_streams (rt_queue s))" using assms(3) by (auto simp: closeStream_run)
  have keys_delete: "set (keys (AList.delete k m)) = set (keys m) - {k}" for k and m :: "(ustring \<times> 'z) list"
    by (simp add: delete_keys)
  show ?thesis using assms(1) run open_state in_keys
    by (auto simp: streams_ok_def distinct_keys_delete keys_delete simp del: set_map)
qed

lemma handles_remove:
  "handles_ok opt s \<Longrightarrow> handles_ok opt (s\<lparr>rt_subscriptions := AList.delete sid (rt_subscriptions s)\<rparr>)"
  using length_delete_le [of sid "rt_subscriptions s"] by (auto simp: handles_ok_def set_delete)

lemma keeps_removeSubscription [keeps_rules]: "keeps (router_inv opt) (removeSubscription opt' sid)"
proof (rule keepsI)
  fix s r t assume inv: "router_inv opt s" and run: "removeSubscription opt' sid s = (r, t)"
  show "router_inv opt t"
  proof (cases "map_of (rt_subscriptions s) sid")
    case None
    then have "t = s" using run by (simp add: removeSubscription_def router_subscription_def bindE_run prog_run)
    then show ?thesis using inv by simp
  next
    case (Some sub)
    obtain x q where closed: "closeStream sid (rt_queue s) = (x, q)" by fastforce
    define u where "u = s\<lparr>rt_subscriptions := AList.delete sid (rt_subscriptions s), rt_queue := q\<rparr>"
    have parts: "table_wf opt" "queue_kept opt (rt_queue s)" "cache_kept (rt_cache s)" "streams_ok s" "handles_ok opt s" "log_justified opt (rt_log s)"
      using inv by (simp_all add: router_inv_def)
    have "x = Inr ()" and "streams_ok u" using remove_streams [OF parts(4) Some closed] by (simp_all add: u_def)
    moreover have "queue_kept opt (rt_queue u)" using queue_kept_close [OF parts(2) closed] by (simp add: u_def)
    moreover have "handles_ok opt u" using handles_remove [OF parts(5), of sid] by (simp add: u_def handles_ok_def)
    ultimately have "router_inv opt u" using parts by (simp add: router_inv_def u_def)
    moreover have "demand on_unsubscribe opt' (RosUnsubscribe sid) u = (r, t)"
      using run \<open>x = Inr ()\<close> closed Some
      by (simp add: removeSubscription_def router_subscription_def bindE_run seqE_run prog_run onQueue_def u_def)
    ultimately show ?thesis using keepsD [OF keeps_ask(2)] by (metis neutral_simps(4))
  qed
qed

lemma keeps_set_bind [keeps_rules]: "keeps (router_inv opt) (set_bind track f)"
  unfolding set_bind_def by (intro keeps_rules) simp

lemma keeps_release [keeps_rules]: "keeps (router_inv opt) (video_release track)"
  unfolding video_release_def by (intro keeps_rules) simp


text \<open>While the router closes, the subscriptions are still listed.\<close>

definition closing_inv :: "routerOptions \<Rightarrow> router \<Rightarrow> bool" where
  "closing_inv opt s \<longleftrightarrow>
     table_wf opt \<and> queue_kept opt (rt_queue s) \<and> cache_kept (rt_cache s) \<and> rt_closed s \<and> 0 \<le> ro_maxHandles opt \<and> log_justified opt (rt_log s)"

lemma closing_keeps:
  "neutral e \<Longrightarrow> keeps (closing_inv opt) (perform e)" "keeps (closing_inv opt) (onGuard m)" "keeps (closing_inv opt) (set_bind track f)"
  by (simp_all add: keeps_def perform_def onGuard_def set_bind_def prog_simps closing_inv_def neutral_def split: prod.split)

text \<open>The clean-up itself never throws, whatever the listeners do.\<close>

definition succeeds_on :: "('s \<Rightarrow> bool) \<Rightarrow> ('s, 'a) prog \<Rightarrow> bool" where
  "succeeds_on P m \<longleftrightarrow> (\<forall>s. P s \<longrightarrow> (\<exists>x. fst (m s) = Inr x) \<and> P (snd (m s)))"

lemma succeeds_onD: "succeeds_on P m \<Longrightarrow> P s \<Longrightarrow> \<exists>x t. m s = (Inr x, t) \<and> P t"
  unfolding succeeds_on_def by (metis prod.collapse)

lemma succeeds_bindE: "succeeds_on P m \<Longrightarrow> (\<And>x. succeeds_on P (f x)) \<Longrightarrow> succeeds_on P (bindE m f)"
  unfolding succeeds_on_def bindE_run by (fastforce split: prod.splits sum.splits)

lemma succeeds_mapE: "(\<And>x. succeeds_on P (f x)) \<Longrightarrow> succeeds_on P (mapE f xs)"
proof (induction xs)
  case (Cons x xs)
  moreover have "succeeds_on P (retE y)" for y by (simp add: succeeds_on_def prog_run)
  ultimately show ?case by (auto intro!: succeeds_bindE)
qed (simp add: succeeds_on_def prog_run)

lemma closing_unsubscribe: "succeeds_on (closing_inv opt) (unsubscribe_all opt')"
proof -
  have "succeeds_on (closing_inv opt) (catchE (seqE (demand on_unsubscribe opt' (RosUnsubscribe sid)) (retE False)) (\<lambda>_. retE True))" for sid
    by (auto simp: succeeds_on_def closing_inv_def demand_def ask_def perform_def bindE_run seqE_run catchE_run prog_run split: sum.splits prod.splits)
  then show ?thesis unfolding unsubscribe_all_def
    by (intro succeeds_bindE succeeds_mapE) (simp_all add: succeeds_on_def prog_run)
qed

lemma closing_release:
  "succeeds_on (\<lambda>s. closing_inv opt s \<and> keys (rt_bound s) = ks) (if track \<in> set ks then video_release track else retE ())"
proof (cases "track \<in> set ks")
  case True
  have "(\<exists>x. fst (video_release track s) = Inr x) \<and> keys (rt_bound (snd (video_release track s))) = ks"
    if ks: "keys (rt_bound s) = ks" for s
  proof -
    obtain b where "map_of (rt_bound s) track = Some b" using True ks by (metis map_of_eq_None_iff not_Some_eq set_map)
    then show ?thesis using ks by (auto simp: video_release_def set_bind_def perform_def bindE_run seqE_run prog_run)
  qed
  moreover have "keeps (closing_inv opt) (video_release track)"
    unfolding video_release_def by (intro keeps_rules closing_keeps) simp
  ultimately show ?thesis using True by (auto simp: succeeds_on_def keeps_def)
qed (simp add: succeeds_on_def prog_run)

lemma closing_video: "closing_inv opt s \<Longrightarrow> \<exists>t. video_close s = (Inr (), t) \<and> closing_inv opt t"
proof -
  assume s: "closing_inv opt s"
  let ?ks = "keys (rt_bound s)"
  let ?P = "\<lambda>s. closing_inv opt s \<and> keys (rt_bound s) = ?ks"
  have "succeeds_on ?P (forE video_release xs)" if "set xs \<subseteq> set ?ks" for xs
    using that
  proof (induction xs)
    case (Cons x xs)
    then show ?case using closing_release [of opt ?ks x] by (auto simp: seqE_def intro: succeeds_bindE)
  qed (simp add: succeeds_on_def prog_run)
  then have "succeeds_on ?P (forE video_release ?ks)" by simp
  then show ?thesis using succeeds_onD [of ?P "forE video_release ?ks" s] s by (auto simp: video_close_def bindE_run prog_run)
qed

lemma close_last:
  assumes "closing_inv opt s"
  shows "router_inv opt (snd (seqE (modE (\<lambda>s. s\<lparr>rt_subscriptions := [], rt_publishers := []\<rparr>))
    (seqE (onQueue clear_queue) (seqE (onCache cache_clear)
      (seqE (bindE (perform OnClosed) (\<lambda>_. retE ())) (throwIf failed e)))) s))"
proof -
  have "queue_kept opt (rt_queue s\<lparr>q_streams := [], q_bytes := 0\<rparr>)"
    using assms by (auto simp: closing_inv_def queue_kept_def clear_queue_def prog_run intro: clear_queue_inv)
  moreover have "cache_kept (rt_cache s\<lparr>rc_entries := [], rc_bytes := 0\<rparr>)"
    using assms by (auto simp: closing_inv_def cache_kept_def cache_inv_def)
  ultimately show ?thesis
    using assms by (simp add: closing_inv_def router_inv_parts seqE_run bindE_run prog_run throwIf_run onQueue_def onCache_def
        clear_queue_def cache_clear_def perform_def)
qed

lemma keeps_close [keeps_rules]: "keeps (router_inv opt) (router_close opt')"
proof (rule keepsI)
  fix s r t assume inv: "router_inv opt s" and run: "router_close opt' s = (r, t)"
  define fin where "fin = (\<lambda>failed. seqE (modE (\<lambda>s. s\<lparr>rt_subscriptions := [], rt_publishers := []\<rparr>))
    (seqE (onQueue clear_queue) (seqE (onCache cache_clear)
      (seqE (bindE (perform OnClosed) (\<lambda>_. retE ())) (throwIf failed (Err ''cleanup_failed''))))))"
  show "router_inv opt t"
  proof (cases "rt_closed s")
    case True
    then have "t = s" using run by (simp add: router_close_def bindE_run prog_run)
    then show ?thesis using inv by simp
  next
    case False
    define s0 where "s0 = s\<lparr>rt_closed := True\<rparr>"
    have s0: "closing_inv opt s0" using inv by (auto simp: router_inv_def handles_ok_def closing_inv_def s0_def)
    have run': "seqE video_close (seqE (onGuard (revokeSession (ro_sessionId opt'))) (bindE (unsubscribe_all opt') fin)) s0 = (r, t)"
      using run False by (simp add: router_close_def bindE_run seqE_run prog_run s0_def fin_def)
    obtain s1 where s1: "video_close s0 = (Inr (), s1)" "closing_inv opt s1" using closing_video [OF s0] by blast
    obtain s2 where s2: "onGuard (revokeSession (ro_sessionId opt')) s1 = (Inr (), s2)"
      by (simp add: onGuard_def revokeSession_def seqE_run prog_run)
    then have "closing_inv opt s2" using keepsD [OF closing_keeps(2) s1(2)] by blast
    then obtain failed s3 where s3: "unsubscribe_all opt' s2 = (Inr failed, s3)" "closing_inv opt s3"
      using succeeds_onD [OF closing_unsubscribe] by blast
    have "fin failed s3 = (r, t)" using run' s1 s2 s3 by (simp add: bindE_run seqE_run)
    then show ?thesis using close_last [OF s3(2), of failed "Err ''cleanup_failed''"] by (simp add: fin_def)
  qed
qed


section \<open>What a flush keeps\<close>

text \<open>Reporting keeps what answering and closing keep.\<close>

lemma keeps_reports:
  assumes "\<And>w. keeps P (respond opt w)" and "keeps P (router_close opt)" and "keeps P again"
  shows "keeps P (error_with again opt rid)" and "keeps P (event_with again opt wire)"
  unfolding error_with_def event_with_def by (intro keeps_rules assms)+

text \<open>
  The interface between the flush of a peer and the parts it works on: what the parts keep, nested
  events, errors and flushes keep.
\<close>

locale router_kept =
  fixes opt :: routerOptions and P :: "router \<Rightarrow> bool"
  assumes perform_kept: "neutral question \<Longrightarrow> keeps P (perform question)"
    and error_kept: "keeps P again \<Longrightarrow> keeps P (error_with again opt rid)"
    and event_kept: "keeps P again \<Longrightarrow> keeps P (event_with again opt wire)"
    and set_bind_kept: "keeps P (set_bind track f)"
    and remove_kept: "keeps P (removeSubscription opt sid)"
    and control_kept: "keeps P (drain opt control_id ControlChannel)"
    and data_kept: "P s \<Longrightarrow> map_of (rt_subscriptions s) sid = Some sub \<Longrightarrow>
      router_entry opt (publicName (rb_binding (sub_entry sub))) OpSubscribe s = (Inr e, t) \<Longrightarrow>
      P (snd (drain opt sid (dataChannel (b_delivery (rb_binding (sub_entry sub)))) t))"
begin

lemma ask_kept: "neutral e \<Longrightarrow> keeps P (ask f opt' e)" "neutral e \<Longrightarrow> keeps P (demand g opt' e)"
  unfolding demand_def ask_def by (intro keeps_rules perform_kept; assumption)+

lemma release_kept: "keeps P (video_release track)"
  unfolding video_release_def by (intro keeps_rules perform_kept set_bind_kept) simp

lemma entry_kept: "keeps P (router_entry opt name op)"
  unfolding router_entry_def router_allowed_def by (intro keeps_rules ask_kept) simp

lemma viewer_kept: "keeps P again \<Longrightarrow> keeps P (viewer_state_with again opt track st)"
  unfolding viewer_state_with_def by (intro keeps_rules set_bind_kept event_kept)

lemma revalidate_kept: "keeps P again \<Longrightarrow> keeps P (revalidate_with again opt)"
  unfolding revalidate_with_def by (intro keeps_rules ask_kept release_kept viewer_kept) simp_all

lemma flush_subs_kept:
  assumes again: "keeps P again"
  shows "keeps P (flush_subs again opt ids)"
proof (induction ids)
  case Nil
  show ?case by (simp add: keeps_rules)
next
  case (Cons sid ids)
  have refuse: "keeps P (seqE (bindE (getE (\<lambda>s. sid \<in> set (keys (rt_subscriptions s))))
      (\<lambda>has. if has then removeSubscription opt sid else retE ())) (error_with again opt None))"
    by (intro keeps_rules remove_kept error_kept again)
  have "P t" if s: "P s" and run: "flush_subs again opt (sid # ids) s = (r, t)" for s r t
  proof (cases "map_of (rt_subscriptions s) sid")
    case None
    then show ?thesis using keepsD [OF Cons.IH s] run by (simp add: bindE_run prog_run)
  next
    case (Some sub)
    let ?name = "publicName (rb_binding (sub_entry sub))"
    let ?ch = "dataChannel (b_delivery (rb_binding (sub_entry sub)))"
    obtain x s1 where entry: "router_entry opt ?name OpSubscribe s = (x, s1)" by fastforce
    show ?thesis
    proof (cases x)
      case (Inl e)
      have "P s1" using keepsD [OF entry_kept s entry] .
      then show ?thesis using run Some entry Inl keepsD [OF refuse, of s1 r t]
        by (simp add: bindE_run catchE_run seqE_run prog_run)
    next
      case (Inr e)
      obtain y s2 where drained: "drain opt sid ?ch s1 = (y, s2)" by fastforce
      have "P s2" using data_kept [OF s Some] entry Inr drained by (metis snd_conv)
      then show ?thesis using run Some entry Inr drained keepsD [OF Cons.IH, of s2 r t]
        by (cases y) (auto simp: bindE_run catchE_run seqE_run prog_run split: if_splits)
    qed
  qed
  then show ?case by (rule keepsI)
qed

lemma flush_kept: "keeps P (flush opt)"
proof -
  have "keeps P (flush_depth n opt)" for n
    by (induction n) (auto simp: flush_with_def intro!: keeps_rules revalidate_kept control_kept flush_subs_kept)
  then show ?thesis unfolding flush_def by (intro keeps_rules)
qed

lemma router_error_kept: "keeps P (router_error opt rid)"
  unfolding router_error_def by (intro error_kept flush_kept)

lemma router_event_kept: "keeps P (router_event opt wire)"
  unfolding router_event_def by (intro event_kept flush_kept)

lemma viewer_state_kept: "keeps P (viewer_state opt track st)"
  unfolding viewer_state_def by (intro viewer_kept flush_kept)

end

lemma drain_data:
  assumes "router_inv opt s" and "map_of (rt_subscriptions s) sid = Some sub"
    and "router_entry opt (publicName (rb_binding (sub_entry sub))) OpSubscribe s = (Inr e, t)"
  shows "router_inv opt (snd (drain opt sid (dataChannel (b_delivery (rb_binding (sub_entry sub)))) t))"
proof -
  have wf: "table_wf opt" using assms(1) by (simp add: router_inv_def)
  have "(sid, sub) \<in> set (rt_subscriptions s)" using assms(2) by (rule map_of_SomeD)
  then have "known_entry opt (sub_entry sub)" using assms(1) by (auto simp: router_inv_def handles_ok_def known_source_def)
  then have e: "e = sub_entry sub" using entry_granted(4,5) [OF assms(3) wf] by (metis known_entry_def option.inject)
  have "send_allowed opt (dataChannel (b_delivery (rb_binding (sub_entry sub)))) (rt_log t)"
    unfolding send_allowed_def using entry_granted(1) [OF assms(3) wf] e
    by (intro disjI2 exI [of _ e] exI [of _ "rt_log t"] exI [of _ "[]"]) simp
  moreover have "router_inv opt t" using keepsD [OF keeps_entry assms(1,3)] .
  ultimately show ?thesis using keeps_drain unfolding keeps_def sending_inv_def by blast
qed

interpretation kept: router_kept opt "router_inv opt" for opt
  by unfold_locales (erule keeps_perform, erule keeps_reports [OF keeps_respond keeps_close], erule keeps_reports [OF keeps_respond keeps_close],
      rule keeps_set_bind, rule keeps_removeSubscription, rule keeps_drain_control, erule (2) drain_data)

lemmas keeps_flush [keeps_rules] = kept.flush_kept kept.router_error_kept kept.router_event_kept kept.viewer_state_kept


end
