(* ===== verification/Router_Wire.thy ===== *)
theory Router_Wire
  imports Router_Protocol
begin

text \<open>
  Round trip of the envelopes of \<open>router/protocol.ts\<close>: \<open>JSON.stringify\<close> and \<open>TextEncoder\<close> on one side,
  \<open>TextDecoder\<close> and \<open>JSON.parse\<close> on the other.
\<close>

section \<open>UTF-8\<close>

lemma unat_lt_16: "unat (c :: 16 word) < 65536"
  using unsigned_less [of c] by simp

lemma unat_of_nat_8: "n < 256 \<Longrightarrow> unat (of_nat n :: 8 word) = n"
  by (simp add: unat_of_nat)

lemma surrogate_ranges:
  "high_surrogate c \<longleftrightarrow> 0xD800 \<le> unat c \<and> unat c \<le> 0xDBFF"
  "low_surrogate c \<longleftrightarrow> 0xDC00 \<le> unat c \<and> unat c \<le> 0xDFFF"
  by (simp_all add: high_surrogate_def low_surrogate_def range_cls_def)

lemma base_64: "p = p div 64 * 64 + p mod 64" "p div 4096 = p div 64 div 64" "p div 262144 = p div 64 div 64 div 64" for p :: nat
  by (simp_all add: div_mult2_eq [symmetric])

lemma decode_2:
  assumes "unat x = 0xC0 + a" "2 \<le> a" "a < 32" "unat y = 0x80 + b" "b < 64"
  shows "utf8_decode (x # y # r) = map_option (\<lambda>t. utf16_units (a * 64 + b) @ t) (utf8_decode r)"
  using assms by (simp add: continuation_def)

lemma decode_3:
  assumes "unat x = 0xE0 + a" "a < 16" "unat y = 0x80 + b" "b < 64" "unat z = 0x80 + c" "c < 64"
    and "p = a * 4096 + b * 64 + c" "0x800 \<le> p" "\<not> (0xD800 \<le> p \<and> p \<le> 0xDFFF)"
  shows "utf8_decode (x # y # z # r) = map_option (\<lambda>t. utf16_units p @ t) (utf8_decode r)"
  using assms by (simp add: continuation_def Let_def)

lemma decode_4:
  assumes "unat x = 0xF0 + a" "a < 5" "unat y = 0x80 + b" "b < 64" "unat z = 0x80 + c" "c < 64" "unat w = 0x80 + d" "d < 64"
    and "p = a * 262144 + b * 4096 + c * 64 + d" "0x10000 \<le> p" "p \<le> 0x10FFFF"
  shows "utf8_decode (x # y # z # w # r) = map_option (\<lambda>t. utf16_units p @ t) (utf8_decode r)"
  using assms by (simp add: continuation_def Let_def)

lemma decode_bytes:
  assumes "p < 0x110000" and "\<not> (0xD800 \<le> p \<and> p \<le> 0xDFFF)"
  shows "utf8_decode (utf8_bytes p @ r) = map_option (\<lambda>t. utf16_units p @ t) (utf8_decode r)"
proof -
  consider "p < 0x80" | "0x80 \<le> p" "p < 0x800" | "0x800 \<le> p" "p < 0x10000" | "0x10000 \<le> p" by linarith
  then show ?thesis
  proof cases
    case 1
    then show ?thesis by (simp add: utf8_bytes_def unat_of_nat_8)
  next
    case 2
    let ?a = "p div 64" and ?b = "p mod 64"
    have "?a < 32" "2 \<le> ?a" "?b < 64" using 2 by auto
    then have "utf8_decode (of_nat (0xC0 + ?a) # of_nat (0x80 + ?b) # r) = map_option (\<lambda>t. utf16_units (?a * 64 + ?b) @ t) (utf8_decode r)"
      by (intro decode_2 unat_of_nat_8) auto
    then show ?thesis using 2 by (simp add: utf8_bytes_def del: of_nat_add utf8_decode.simps)
  next
    case 3
    let ?a = "p div 4096" and ?b = "p div 64 mod 64" and ?c = "p mod 64"
    have p: "p = ?a * 4096 + ?b * 64 + ?c" using base_64(1) [of p] base_64(1) [of "p div 64"] base_64(2) [of p] by linarith
    have "?a < 16" using 3 by auto
    then have "utf8_decode (of_nat (0xE0 + ?a) # of_nat (0x80 + ?b) # of_nat (0x80 + ?c) # r) = map_option (\<lambda>t. utf16_units p @ t) (utf8_decode r)"
      using 3 assms by (intro decode_3 [OF _ _ _ _ _ _ p] unat_of_nat_8) auto
    then show ?thesis using 3 by (simp add: utf8_bytes_def del: of_nat_add utf8_decode.simps)
  next
    case 4
    let ?a = "p div 262144" and ?b = "p div 4096 mod 64" and ?c = "p div 64 mod 64" and ?d = "p mod 64"
    have p: "p = ?a * 262144 + ?b * 4096 + ?c * 64 + ?d"
      unfolding base_64(2,3) using base_64(1) [of p] base_64(1) [of "p div 64"] base_64(1) [of "p div 64 div 64"] by linarith
    have "?a < 5" using assms by auto
    then have "utf8_decode (of_nat (0xF0 + ?a) # of_nat (0x80 + ?b) # of_nat (0x80 + ?c) # of_nat (0x80 + ?d) # r)
        = map_option (\<lambda>t. utf16_units p @ t) (utf8_decode r)"
      using 4 assms by (intro decode_4 [OF _ _ _ _ _ _ _ _ p] unat_of_nat_8) auto
    then show ?thesis using 4 by (simp add: utf8_bytes_def del: of_nat_add utf8_decode.simps)
  qed
qed

lemma utf16_units_pair:
  assumes "high_surrogate c" and "low_surrogate d"
  shows "utf16_units (0x10000 + (unat c - 0xD800) * 0x400 + (unat d - 0xDC00)) = [c, d]"
    and "0x10000 + (unat c - 0xD800) * 0x400 + (unat d - 0xDC00) < 0x110000"
proof -
  obtain a where a: "unat c = 0xD800 + a" "a < 0x400" using assms(1) by (auto simp: surrogate_ranges intro: that [of "unat c - 0xD800"])
  obtain b where b: "unat d = 0xDC00 + b" "b < 0x400" using assms(2) by (auto simp: surrogate_ranges intro: that [of "unat d - 0xDC00"])
  have "of_nat (0xD800 + a) = c" "of_nat (0xDC00 + b) = d" using a b by (simp_all add: word_unat_eq_iff unat_of_nat del: of_nat_add)
  then show "utf16_units (0x10000 + (unat c - 0xD800) * 0x400 + (unat d - 0xDC00)) = [c, d]"
    using a b by (simp add: utf16_units_def)
  show "0x10000 + (unat c - 0xD800) * 0x400 + (unat d - 0xDC00) < 0x110000" using a b by simp
qed

lemma utf8_roundtrip: "\<not> lone_surrogate s \<Longrightarrow> utf8_decode (utf8_encode s) = Some s"
proof (induction s rule: lone_surrogate.induct)
  case (2 c s)
  show ?case
  proof (cases "high_surrogate c")
    case True
    then obtain d t where s: "s = d # t" "low_surrogate d" "\<not> lone_surrogate t" using 2(3) by (auto split: list.splits if_splits)
    moreover have "utf8_decode (utf8_encode t) = Some t" using 2(1) True s by simp
    ultimately show ?thesis using True utf16_units_pair [OF True s(2)]
      by (simp add: utf8_encode_def decode_bytes)
  next
    case False
    then have c: "\<not> low_surrogate c" "\<not> lone_surrogate s" using 2(3) by (auto split: if_splits)
    then have "utf8_decode (utf8_encode s) = Some s" using 2(2) False by simp
    moreover have "\<not> (0xD800 \<le> unat c \<and> unat c \<le> 0xDFFF)" using c False by (auto simp: surrogate_ranges)
    ultimately show ?thesis using c False unat_lt_16 [of c]
      by (simp add: utf8_encode_def decode_bytes utf16_units_def)
  qed
qed (simp add: utf8_encode_def)

section \<open>Strings\<close>

lemma unat_literal [simp]: "unat backslash = 92" "unat quote = 34"
  by (simp_all add: backslash_def quote_def)

lemma hex_value_digit: "d < 16 \<Longrightarrow> hex_value (code_unit (hex_digit d)) = Some d"
proof -
  assume "d < 16"
  then have "d < 10 \<or> (10 \<le> d \<and> d < 16)" by linarith
  then show ?thesis
    by (auto simp: hex_digit_def range_cls_def unat_code_unit of_char_digit)
qed

lemma base_16: "p = p div 16 * 16 + p mod 16" "p div 256 = p div 16 div 16" "p div 4096 = p div 16 div 16 div 16" for p :: nat
  by (simp_all add: div_mult2_eq [symmetric])

lemma hex_unit_hex4:
  obtains h1 h2 h3 h4 where "hex4 (unat c) = [h1, h2, h3, h4]" "hex_unit h1 h2 h3 h4 = Some c"
proof -
  let ?n = "unat c"
  have top: "?n div 16 div 16 div 16 div 16 = 0" using unat_lt_16 [of c] by (simp add: div_mult2_eq [symmetric])
  define x where "x = ?n div 4096 mod 16 * 4096 + ?n div 256 mod 16 * 256 + ?n div 16 mod 16 * 16 + ?n mod 16"
  have "?n = x"
    unfolding x_def base_16(2,3)
    using base_16(1) [of ?n] base_16(1) [of "?n div 16"] base_16(1) [of "?n div 16 div 16"] base_16(1) [of "?n div 16 div 16 div 16"] top by linarith
  then have "of_nat x = c" using unat_lt_16 [of c] by (simp add: word_unat_eq_iff unat_of_nat)
  note eq = this [unfolded x_def]
  show ?thesis
  proof (rule that)
    show "hex4 ?n = [code_unit (hex_digit (?n div 4096 mod 16)), code_unit (hex_digit (?n div 256 mod 16)),
        code_unit (hex_digit (?n div 16 mod 16)), code_unit (hex_digit (?n mod 16))]" by (simp add: hex4_def ustr_def)
    show "hex_unit (code_unit (hex_digit (?n div 4096 mod 16))) (code_unit (hex_digit (?n div 256 mod 16)))
        (code_unit (hex_digit (?n div 16 mod 16))) (code_unit (hex_digit (?n mod 16))) = Some c"
      unfolding hex_unit.simps using eq by (simp add: hex_value_digit del: hex_value.simps of_nat_add)
  qed
qed

lemma read_plain: "c \<noteq> quote \<Longrightarrow> c \<noteq> backslash \<Longrightarrow> 32 \<le> unat c \<Longrightarrow>
  read_string (c # s) = map_option (\<lambda>(x, y). (c # x, y)) (read_string s)"
  by simp

lemma read_escape_u: "read_string (backslash # code_unit (CHR ''u'') # hex4 (unat c) @ s) = map_option (\<lambda>(x, y). (c # x, y)) (read_string s)"
proof -
  obtain h1 h2 h3 h4 where "hex4 (unat c) = [h1, h2, h3, h4]" "hex_unit h1 h2 h3 h4 = Some c" by (rule hex_unit_hex4)
  moreover have "backslash \<noteq> quote" by (simp add: word_unat_eq_iff)
  ultimately show ?thesis by (simp del: hex_unit.simps)
qed

lemma read_escape_unit: "read_string (escape_unit c @ s) = map_option (\<lambda>(x, y). (c # x, y)) (read_string s)"
proof -
  have units: "backslash \<noteq> quote" "code_unit (CHR ''u'') \<noteq> quote" "quote \<noteq> code_unit (CHR ''u'')" "backslash \<noteq> code_unit (CHR ''u'')"
    "code_unit (CHR ''b'') \<noteq> quote" "code_unit (CHR ''b'') \<noteq> backslash" "code_unit (CHR ''t'') \<noteq> quote" "code_unit (CHR ''t'') \<noteq> backslash"
    "code_unit (CHR ''n'') \<noteq> quote" "code_unit (CHR ''n'') \<noteq> backslash" "code_unit (CHR ''f'') \<noteq> quote" "code_unit (CHR ''f'') \<noteq> backslash"
    "code_unit (CHR ''r'') \<noteq> quote" "code_unit (CHR ''r'') \<noteq> backslash"
    by (simp_all add: word_unat_eq_iff unat_code_unit)
  show ?thesis
  proof (cases "c = quote \<or> c = backslash \<or> c = 8 \<or> c = 9 \<or> c = 10 \<or> c = 12 \<or> c = 13")
    case True
    then show ?thesis using units by (auto simp: escape_unit_def)
  next
    case False
    show ?thesis
    proof (cases "unat c < 32")
      case True
      then show ?thesis using False read_escape_u [of c s] by (simp add: escape_unit_def del: read_string.simps)
    next
      case 2: False
      then show ?thesis using False read_plain [of c s] by (simp add: escape_unit_def del: read_string.simps)
    qed
  qed
qed

lemma plain_surrogate: "high_surrogate c \<or> low_surrogate c \<Longrightarrow> c \<noteq> quote \<and> c \<noteq> backslash \<and> 32 \<le> unat c"
  by (auto simp: surrogate_ranges)

lemma read_escaped: "read_string (escape s @ quote # r) = Some (s, r)"
proof (induction s rule: escape.induct)
  case 1
  show ?case by simp
next
  case (2 c s)
  show ?case
  proof (cases "high_surrogate c")
    case True
    note plain = plain_surrogate [of c]
    show ?thesis
    proof (cases s)
      case Nil
      then show ?thesis using True read_escape_u [of c "quote # r"] by (simp del: read_string.simps) simp
    next
      case (Cons d t)
      show ?thesis
      proof (cases "low_surrogate d")
        case low: True
        have "read_string (escape t @ quote # r) = Some (t, r)" using 2(1) [OF True Cons low] .
        then show ?thesis using True Cons low plain plain_surrogate [of d] by (simp add: read_plain del: read_string.simps)
      next
        case low: False
        have "read_string (escape s @ quote # r) = Some (s, r)" using 2(2) [OF True Cons low] .
        then show ?thesis using True Cons low read_escape_u [of c "escape s @ quote # r"] by (simp del: read_string.simps)
      qed
    qed
  next
    case False
    show ?thesis
    proof (cases "low_surrogate c")
      case True
      then show ?thesis using 2(3) [OF False True] False read_escape_u [of c "escape s @ quote # r"] by (simp del: read_string.simps)
    next
      case low: False
      then show ?thesis using 2(4) [OF False low] False read_escape_unit [of c "escape s @ quote # r"] by (simp del: read_string.simps)
    qed
  qed
qed


section \<open>Numbers\<close>

text \<open>What may follow a value: the end, or a character no number continues with.\<close>

definition ends :: "ustring \<Rightarrow> bool" where
  "ends r \<longleftrightarrow> r = [] \<or> hd r \<in> {code_unit (CHR '',''), code_unit (CHR ''}''), code_unit (CHR '']'')}"

lemma ends_not_number:
  assumes "ends r"
  shows "takeWhile is_digit r = []" "dropWhile is_digit r = r" "read_fraction r = Some ([], r)" "read_exponent r = Some (0, r)"
proof -
  have "\<not> is_digit (hd r)" if "r \<noteq> []" using assms that by (auto simp: ends_def is_digit_def unat_code_unit)
  then show "takeWhile is_digit r = []" "dropWhile is_digit r = r" by (cases r; simp)+
  have "hd r \<noteq> code_unit (CHR ''.'')" "hd r \<noteq> code_unit (CHR ''e'')" "hd r \<noteq> code_unit (CHR ''E'')" if "r \<noteq> []"
    using assms that by (auto simp: ends_def)
  then show "read_fraction r = Some ([], r)" "read_exponent r = Some (0, r)"
    by (auto simp: read_fraction_def read_exponent_def split: list.splits)
qed

lemma read_whole_nat: "ends r \<Longrightarrow> read_whole (ustr (show_nat n) @ r) = Some (ustr (show_nat n), r)"
proof -
  assume r: "ends r"
  have digits: "list_all is_digit (ustr (show_nat n))" by (rule show_nat_digits)
  then have split: "takeWhile is_digit (ustr (show_nat n) @ r) = ustr (show_nat n)" "dropWhile is_digit (ustr (show_nat n) @ r) = r"
    using ends_not_number(1,2) [OF r] by (simp_all add: list_all_iff)
  obtain c cs where cs: "show_nat n = c # cs" by (cases "show_nat n") auto
  show ?thesis
  proof (cases "n = 0")
    case True
    then show ?thesis by (simp add: show_nat.simps digit_0 ustr_Cons read_whole_def)
  next
    case False
    then have "c \<noteq> CHR ''0''" using hd_show_nat [of n] cs by simp
    moreover have "is_digit (code_unit c)" using digits cs by (simp add: ustr_Cons)
    ultimately show ?thesis using split cs by (simp add: read_whole_def ustr_Cons)
  qed
qed

lemma read_number_int:
  assumes "\<bar>i\<bar> \<le> MAX_SAFE_INTEGER" and "ends r"
  shows "read_number (ustr (show_int i) @ r) = Some (NumI i, r)"
proof -
  have double: "to_double (of_int i) = NumI i" using assms(1) by (intro to_double_int) (simp add: MAX_SAFE_INTEGER_def)
  note parts = read_whole_nat [OF assms(2)] ends_not_number(3,4) [OF assms(2)]
  show ?thesis
  proof (cases "i < 0")
    case True
    then have "show_int i = CHR ''-'' # show_nat (nat (- i))" by (simp add: show_int_def)
    moreover have "(- 1 :: rat) * of_nat (nat (- i)) = of_int i" using True by simp
    ultimately show ?thesis using parts double by (simp add: read_number_def ustr_Cons)
  next
    case False
    then have eq: "show_int i = show_nat (nat i)" by (simp add: show_int_def)
    obtain c cs where c: "show_nat (nat i) = c # cs" by (cases "show_nat (nat i)") auto
    then have "is_digit (code_unit c)" using show_nat_digits [of "nat i"] by (simp add: ustr_Cons)
    then have "c \<noteq> CHR ''-''" by (auto simp: is_digit_def unat_code_unit)
    then have "(case ustr (show_int i) @ r of x # t \<Rightarrow> if x = code_unit (CHR ''-'') then (- 1, t) else (1, ustr (show_int i) @ r)
        | [] \<Rightarrow> (1 :: rat, ustr (show_int i) @ r)) = (1, ustr (show_int i) @ r)" by (simp add: eq c ustr_Cons)
    moreover have "(of_nat (nat i) :: rat) = of_int i" using False by simp
    ultimately show ?thesis using parts double unfolding read_number_def by (simp add: eq)
  qed
qed


section \<open>Values\<close>

text \<open>
  Values whose text stands for them: safe integers, arrays without holes, and objects with distinct
  enumerable keys that are not array indices (those would be moved to the front).
\<close>

fun plain_json :: "jsval \<Rightarrow> bool" where
  "plain_json Null = True"
| "plain_json (Bool b) = True"
| "plain_json (Number n) = isSafeInteger n"
| "plain_json (Str s) = True"
| "plain_json (Arr slots extra) = (extra = 0 \<and> list_all (\<lambda>s. case s of Data v \<Rightarrow> plain_json v | _ \<Rightarrow> False) slots)"
| "plain_json (Obj p ps) =
     (p = ObjectPrototype \<and> distinct (map fst ps)
      \<and> list_all (\<lambda>q. case q of (Key k, OData e v) \<Rightarrow> e \<and> \<not> array_index k \<and> plain_json v | _ \<Rightarrow> False) ps)"
| "plain_json _ = False"

fun json_text :: "jsval \<Rightarrow> ustring" where
  "json_text (Bool b) = ustr (if b then ''true'' else ''false'')"
| "json_text (Number n) = ustr (num_to_string n)"
| "json_text (Str s) = json_quote s"
| "json_text (Arr slots extra) =
     ustr ''['' @ join (ustr '','') (map (\<lambda>s. case s of Data v \<Rightarrow> json_text v | _ \<Rightarrow> []) slots) @ ustr '']''"
| "json_text (Obj p ps) =
     ustr ''{'' @ join (ustr '','') (map (\<lambda>q. case q of (Key k, OData e v) \<Rightarrow> json_quote k @ ustr '':'' @ json_text v | _ \<Rightarrow> []) ps) @ ustr ''}''"
| "json_text _ = ustr ''null''"

lemma safe_NumI: "isSafeInteger n \<Longrightarrow> \<exists>i. n = NumI i \<and> \<bar>i\<bar> \<le> MAX_SAFE_INTEGER"
  by (auto simp: isSafeInteger_iff)

lemma mapR_all: "(\<And>x. x \<in> set xs \<Longrightarrow> f x = Inr (g x)) \<Longrightarrow> mapR f xs = Inr (map g xs)"
  by (induction xs) auto

lemma concat_singletons: "concat (map (\<lambda>x. [f x]) xs) = map f xs"
  by (induction xs) auto

lemma plain_member:
  "plain_json (Obj p ps) \<Longrightarrow> q \<in> set ps \<Longrightarrow> \<exists>k v. q = (Key k, OData True v) \<and> \<not> array_index k \<and> plain_json v"
  by (cases q; cases "fst q"; cases "snd q") (fastforce simp: list_all_iff)+

lemma plain_slot: "plain_json (Arr slots extra) \<Longrightarrow> s \<in> set slots \<Longrightarrow> \<exists>v. s = Data v \<and> plain_json v"
  by (cases s) (fastforce simp: list_all_iff)+

lemma stringify_plain: "plain_json v \<Longrightarrow> stringify v = Inr (Some (json_text v))"
proof (induction v rule: json_text.induct)
  case (2 n)
  then show ?case using isSafeInteger_finite by simp
next
  case (4 slots extra)
  have "mapR (\<lambda>s. case s of Data v \<Rightarrow> bindR (stringify v) (\<lambda>t. Inr (case t of Some x \<Rightarrow> x | None \<Rightarrow> ustr ''null'')) | _ \<Rightarrow> Inr (ustr ''null'')) slots
      = Inr (map (\<lambda>s. case s of Data v \<Rightarrow> json_text v | _ \<Rightarrow> []) slots)"
    by (rule mapR_all) (use 4 in \<open>auto simp: list_all_iff split: slot.splits\<close>)
  then show ?case by simp
next
  case (5 p ps)
  have "mapR (\<lambda>q. case q of (Key k, OData True v) \<Rightarrow>
           bindR (stringify v) (\<lambda>t. Inr (case t of Some x \<Rightarrow> [json_quote k @ ustr '':'' @ x] | None \<Rightarrow> [])) | _ \<Rightarrow> Inr []) ps
      = Inr (map (\<lambda>q. [case q of (Key k, OData e v) \<Rightarrow> json_quote k @ ustr '':'' @ json_text v | _ \<Rightarrow> []]) ps)"
  proof (rule mapR_all)
    fix q assume q: "q \<in> set ps"
    then obtain k v where kv: "q = (Key k, OData True v)" "plain_json v" using plain_member [OF 5(2)] by blast
    then have "stringify v = Inr (Some (json_text v))" using 5(1) q by blast
    then show "(case q of (Key k, OData True v) \<Rightarrow>
           bindR (stringify v) (\<lambda>t. Inr (case t of Some x \<Rightarrow> [json_quote k @ ustr '':'' @ x] | None \<Rightarrow> [])) | _ \<Rightarrow> Inr [])
        = Inr [case q of (Key k, OData e v) \<Rightarrow> json_quote k @ ustr '':'' @ json_text v | _ \<Rightarrow> []]" using kv by simp
  qed
  then show ?case by (simp add: concat_singletons)
qed auto

text \<open>The first character of a text is not white space and closes nothing.\<close>

definition opens :: "ustring \<Rightarrow> bool" where
  "opens s \<longleftrightarrow> s \<noteq> [] \<and> \<not> json_space (hd s) \<and> hd s \<noteq> code_unit (CHR '']'')"

lemma json_space_unit: "json_space (code_unit c) \<longleftrightarrow> c \<in> {CHR 0x09, CHR 0x0A, CHR 0x0D, CHR '' ''}"
proof -
  have "code_unit c = 9 \<longleftrightarrow> c = CHR 0x09" "code_unit c = 10 \<longleftrightarrow> c = CHR 0x0A" "code_unit c = 13 \<longleftrightarrow> c = CHR 0x0D" "code_unit c = 32 \<longleftrightarrow> c = CHR '' ''"
    using code_unit_inject [of c "CHR 0x09"] code_unit_inject [of c "CHR 0x0A"] code_unit_inject [of c "CHR 0x0D"] code_unit_inject [of c "CHR '' ''"]
    by (simp_all add: code_unit_def)
  then show ?thesis by (auto simp: json_space_def)
qed

lemma quote_unit: "quote = code_unit (CHR 0x22)"
  by (simp add: quote_def code_unit_def)

lemma number_text_opens:
  assumes "isSafeInteger n"
  obtains c cs where "num_to_string n = c # cs" "is_digit (code_unit c) \<or> c = CHR ''-''"
proof -
  obtain i where i: "n = NumI i" "\<bar>i\<bar> \<le> MAX_SAFE_INTEGER" using safe_NumI [OF assms] by blast
  have digit: "\<exists>c cs. show_nat m = c # cs \<and> is_digit (code_unit c)" for m
    using show_nat_digits [of m] by (cases "show_nat m") (auto simp: ustr_Cons)
  show ?thesis using that digit [of "nat i"] num_to_string_int [OF i(2)] i(1) by (cases "i < 0") (auto simp: show_int_def)
qed

lemma text_opens: "plain_json v \<Longrightarrow> opens (json_text v)"
proof (cases v)
  case (Number n)
  assume "plain_json v"
  then have "isSafeInteger n" using Number by simp
  then obtain c cs where c: "num_to_string n = c # cs" "is_digit (code_unit c) \<or> c = CHR ''-''" by (rule number_text_opens)
  then have "c \<notin> {CHR 0x09, CHR 0x0A, CHR 0x0D, CHR '' '', CHR '']''}" by (auto simp: is_digit_def unat_code_unit)
  then show ?thesis using c(1) Number by (simp add: opens_def ustr_Cons json_space_unit)
qed (auto simp: opens_def ustr_Cons json_space_unit json_quote_def quote_unit)


section \<open>Parsing\<close>

lemma skip_ws_opens: "opens s \<Longrightarrow> skip_ws (s @ r) = s @ r"
  by (cases s) (auto simp: opens_def skip_ws_def)

lemma starts_unit: "starts [c] s \<longleftrightarrow> s \<noteq> [] \<and> hd s = code_unit c"
  by (cases s) (auto simp: starts_def ustr_Cons)

text \<open>The elements and members of a text, with what each contributes.\<close>

lemma parse_elements_texts:
  assumes "\<And>v m r. v \<in> set vs \<Longrightarrow> 2 * length (json_text v) \<le> m \<Longrightarrow> ends r \<Longrightarrow> parse_value m (json_text v @ r) = Some (v, r)"
    and "\<And>v. v \<in> set vs \<Longrightarrow> opens (json_text v)" and "vs \<noteq> []"
    and "2 * length (join (ustr '','') (map json_text vs)) + 1 \<le> n"
  shows "parse_elements n acc (join (ustr '','') (map json_text vs) @ code_unit (CHR '']'') # r) = Some (mk_arr (acc @ vs), r)"
  using assms
proof (induction vs arbitrary: n acc)
  case (Cons v vs)
  obtain m where m: "n = Suc m" using Cons.prems(4) by (cases n) auto
  show ?case
  proof (cases vs)
    case Nil
    then have "parse_value m (json_text v @ code_unit (CHR '']'') # r) = Some (v, code_unit (CHR '']'') # r)"
      using Cons.prems m by (intro Cons.prems(1)) (auto simp: ends_def)
    then show ?thesis using m Nil by (simp add: Let_def skip_ws_def json_space_unit starts_unit)
  next
    case (Cons w ws)
    let ?rest = "join (ustr '','') (map json_text vs) @ code_unit (CHR '']'') # r"
    have j: "join (ustr '','') (map json_text (v # vs)) = json_text v @ code_unit (CHR '','') # join (ustr '','') (map json_text vs)"
      using Cons by (simp add: ustr_Cons)
    have "parse_value m (json_text v @ code_unit (CHR '','') # ?rest) = Some (v, code_unit (CHR '','') # ?rest)"
      using Cons.prems(1) [of v m "code_unit (CHR '','') # ?rest"] Cons.prems(4) m j by (simp add: ends_def)
    moreover have "parse_elements m (acc @ [v]) ?rest = Some (mk_arr ((acc @ [v]) @ vs), r)"
      by (rule Cons.IH) (use Cons.prems Cons j m in auto)
    ultimately show ?thesis using m j by (simp add: Let_def skip_ws_def json_space_unit starts_unit)
  qed
qed simp


definition member_text :: "ustring \<times> jsval \<Rightarrow> ustring" where
  "member_text kv = json_quote (fst kv) @ ustr '':'' @ json_text (snd kv)"

lemma obj_put_new: "k \<notin> set (keys ps) \<Longrightarrow> \<not> array_index k \<Longrightarrow> obj_put k v ps = ps @ [(k, v)]"
  by (simp add: obj_put_def)

lemma parse_member:
  assumes "\<And>m r. 2 * length (json_text v) \<le> m \<Longrightarrow> ends r \<Longrightarrow> parse_value m (json_text v @ r) = Some (v, r)"
    and "2 * length (json_text v) \<le> m" and "ends d" and "d \<noteq> []"
    and "k \<notin> set (keys acc)" and "\<not> array_index k"
  shows "parse_members (Suc m) acc (member_text (k, v) @ d) =
    (if hd d = code_unit (CHR '','') then parse_members m (acc @ [(k, v)]) (skip_ws (tl d))
     else if hd d = code_unit (CHR ''}'') then Some (mk_obj (acc @ [(k, v)]), tl d) else None)"
proof -
  have eq: "member_text (k, v) @ d = quote # escape k @ quote # code_unit (CHR '':'') # json_text v @ d"
    by (simp add: member_text_def json_quote_def ustr_Cons)
  have str: "read_string (escape k @ quote # code_unit (CHR '':'') # json_text v @ d) = Some (k, code_unit (CHR '':'') # json_text v @ d)"
    by (rule read_escaped)
  have val: "parse_value m (json_text v @ d) = Some (v, d)" using assms(1-3) by blast
  have d: "skip_ws d = d" using assms(3,4) by (cases d) (auto simp: ends_def skip_ws_def json_space_unit)
  have colon: "skip_ws (code_unit (CHR '':'') # t) = code_unit (CHR '':'') # t" for t by (simp add: skip_ws_def json_space_unit)
  show ?thesis
    using str val assms(4-6) by (simp add: eq colon d starts_unit obj_put_new Let_def del: read_string.simps)
qed

lemma parse_members_texts:
  assumes "\<And>k v m r. (k, v) \<in> set kvs \<Longrightarrow> 2 * length (json_text v) \<le> m \<Longrightarrow> ends r \<Longrightarrow> parse_value m (json_text v @ r) = Some (v, r)"
    and "distinct (keys (acc @ kvs))" and "\<And>k v. (k, v) \<in> set kvs \<Longrightarrow> \<not> array_index k" and "kvs \<noteq> []"
    and "2 * length (join (ustr '','') (map member_text kvs)) + 1 \<le> n"
  shows "parse_members n acc (join (ustr '','') (map member_text kvs) @ code_unit (CHR ''}'') # r) = Some (mk_obj (acc @ kvs), r)"
  using assms
proof (induction kvs arbitrary: n acc)
  case (Cons kv kvs)
  obtain k v where kv: "kv = (k, v)" by fastforce
  obtain m where m: "n = Suc m" using Cons.prems(5) by (cases n) auto
  have value_ok: "\<And>m r. 2 * length (json_text v) \<le> m \<Longrightarrow> ends r \<Longrightarrow> parse_value m (json_text v @ r) = Some (v, r)"
    by (rule Cons.prems(1) [of k v]) (simp_all add: kv)
  have fresh: "k \<notin> set (keys acc)" "\<not> array_index k" using Cons.prems(2,3) kv by auto
  have len: "length (json_text v) < length (member_text (k, v))" by (simp add: member_text_def json_quote_def)
  show ?case
  proof (cases kvs)
    case Nil
    then have "2 * length (json_text v) \<le> m" using Cons.prems(5) m kv len by simp
    then show ?thesis using parse_member [OF value_ok, of m "code_unit (CHR ''}'') # r" k acc] fresh m Nil kv by (simp add: ends_def)
  next
    case (Cons w ws)
    let ?rest = "join (ustr '','') (map member_text kvs) @ code_unit (CHR ''}'') # r"
    have j: "join (ustr '','') (map member_text (kv # kvs)) = member_text (k, v) @ code_unit (CHR '','') # join (ustr '','') (map member_text kvs)"
      using Cons kv by (simp add: ustr_Cons)
    have ws: "skip_ws ?rest = ?rest" using Cons by (cases ws) (simp_all add: member_text_def json_quote_def skip_ws_def quote_unit json_space_unit)
    have "2 * length (json_text v) \<le> m" using Cons.prems(5) m j len by simp
    then have "parse_members n acc (member_text (k, v) @ code_unit (CHR '','') # ?rest) = parse_members m (acc @ [(k, v)]) ?rest"
      using parse_member [OF value_ok, of m "code_unit (CHR '','') # ?rest" k acc] fresh m ws by (simp add: ends_def)
    moreover have "parse_members m (acc @ [(k, v)]) ?rest = Some (mk_obj ((acc @ [(k, v)]) @ kvs), r)"
    proof (rule Cons.IH)
      show "parse_value i (json_text y @ t) = Some (y, t)" if "(x, y) \<in> set kvs" "2 * length (json_text y) \<le> i" "ends t" for x y i t
        using that by (intro Cons.prems(1) [of x y]) simp_all
      show "\<not> array_index x" if "(x, y) \<in> set kvs" for x y
        using that by (intro Cons.prems(3) [of x y]) simp
      show "distinct (keys ((acc @ [(k, v)]) @ kvs))" using Cons.prems(2) kv by simp
      show "kvs \<noteq> []" using Cons by simp
      show "2 * length (join (ustr '','') (map member_text kvs)) + 1 \<le> m" using Cons.prems(5) j m by simp
    qed
    ultimately show ?thesis using j kv by simp
  qed
qed simp

lemma plain_obj:
  assumes "plain_json (Obj p ps)"
  obtains kvs where "p = ObjectPrototype" "ps = map mk_prop kvs" "distinct (keys kvs)"
    "\<forall>k v. (k, v) \<in> set kvs \<longrightarrow> \<not> array_index k \<and> plain_json v"
proof -
  define kv where "kv = (\<lambda>q. case q of (Key k, OData e v) \<Rightarrow> (k, v) | _ \<Rightarrow> ([], Undefined))"
  have q: "mk_prop (kv q) = q \<and> \<not> array_index (fst (kv q)) \<and> plain_json (snd (kv q))" if "q \<in> set ps" for q
    using plain_member [OF assms that] by (auto simp: kv_def mk_prop_def)
  have eq: "ps = map mk_prop (map kv ps)" using q by (simp add: map_idI)
  have "map fst (map mk_prop xs) = map Key (keys xs)" for xs by (simp add: mk_prop_def)
  then have keys: "map fst ps = map Key (keys (map kv ps))" using eq by metis
  show ?thesis
  proof (rule that [of "map kv ps"])
    show "p = ObjectPrototype" using assms by simp
    show "ps = map mk_prop (map kv ps)" by (rule eq)
    show "distinct (keys (map kv ps))" using assms keys by (metis distinct_map plain_json.simps(6))
    have "\<not> array_index k \<and> plain_json v" if "(k, v) \<in> set (map kv ps)" for k v
    proof -
      obtain x where "x \<in> set ps" "(k, v) = kv x" using \<open>(k, v) \<in> set (map kv ps)\<close> by (metis (no_types, lifting) image_iff set_map)
      then show ?thesis using q by (metis fst_conv snd_conv)
    qed
    then show "\<forall>k v. (k, v) \<in> set (map kv ps) \<longrightarrow> \<not> array_index k \<and> plain_json v" by blast
  qed
qed

lemma plain_arr:
  assumes "plain_json (Arr slots extra)"
  obtains vs where "extra = 0" "slots = map Data vs" "list_all plain_json vs"
proof -
  have "\<exists>v. s = Data v \<and> plain_json v" if "s \<in> set slots" for s using plain_slot [OF assms that] .
  then have "\<exists>vs. slots = map Data vs \<and> list_all plain_json vs"
  proof (induction slots)
    case (Cons s slots)
    then obtain vs v where "slots = map Data vs" "list_all plain_json vs" "s = Data v" "plain_json v" by (metis list.set_intros)
    then show ?case by (intro exI [of _ "v # vs"]) simp
  qed simp
  then show ?thesis using that assms by auto
qed

text \<open>The first character decides.\<close>

lemma parse_string_value: "parse_value (Suc n) (quote # t) = map_option (\<lambda>(x, r). (Str x, r)) (read_string t)"
  by (simp add: Let_def skip_ws_def quote_unit json_space_unit starts_unit del: read_string.simps)

lemma parse_array_value:
  "opens t \<Longrightarrow> parse_value (Suc n) (code_unit (CHR ''['') # t @ r) = parse_elements n [] (t @ r)"
  by (cases t) (auto simp: Let_def skip_ws_def json_space_unit starts_unit opens_def)

lemma parse_object_value:
  "parse_value (Suc n) (code_unit (CHR ''{'') # quote # t) = parse_members n [] (quote # t)"
  by (simp add: Let_def skip_ws_def json_space_unit starts_unit quote_unit)

lemma parse_null: "8 \<le> n \<Longrightarrow> parse_value n (ustr ''null'' @ r) = Some (Null, r)"
  by (cases n) (simp_all add: skip_ws_def ustr_Cons json_space_unit starts_unit quote_unit starts_def)

lemma opens_append: "opens s \<Longrightarrow> opens (s @ t)"
  by (auto simp: opens_def)

lemma parse_text: "plain_json v \<Longrightarrow> 2 * length (json_text v) \<le> n \<Longrightarrow> ends r \<Longrightarrow> parse_value n (json_text v @ r) = Some (v, r)"
proof (induction v arbitrary: n r rule: json_text.induct)
  case (1 b)
  then obtain m where m: "n = Suc m" by (cases n) (auto split: if_splits)
  show ?case by (cases b) (simp_all add: m skip_ws_def ustr_Cons json_space_unit starts_unit quote_unit starts_def)
next
  case (2 x)
  then have safe: "isSafeInteger x" by simp
  then obtain c cs where c: "num_to_string x = c # cs" "is_digit (code_unit c) \<or> c = CHR ''-''" by (rule number_text_opens)
  then obtain m where m: "n = Suc m" using 2 by (cases n) auto
  have other: "c \<notin> {CHR 0x09, CHR 0x0A, CHR 0x0D, CHR '' '', CHR ''{'', CHR ''['', CHR 0x22, CHR ''t'', CHR ''f'', CHR ''n''}"
    using c(2) by (auto simp: is_digit_def unat_code_unit)
  obtain i where i: "x = NumI i" "\<bar>i\<bar> \<le> MAX_SAFE_INTEGER" using safe_NumI [OF safe] by blast
  have "read_number (ustr (num_to_string x) @ r) = Some (x, r)"
    using read_number_int [OF i(2) 2(3)] num_to_string_int [OF i(2)] i(1) by simp
  then show ?case using other by (simp add: m c skip_ws_def ustr_Cons json_space_unit starts_unit quote_unit starts_def)
next
  case (3 s)
  then obtain m where m: "n = Suc m" by (cases n) (auto simp: json_quote_def)
  then show ?case using read_escaped [of s r] by (simp add: json_quote_def parse_string_value del: read_string.simps parse_value.simps)
next
  case (4 slots extra)
  obtain vs where vs: "extra = 0" "slots = map Data vs" "list_all plain_json vs" using plain_arr [OF 4(2)] .
  then obtain m where m: "n = Suc m" using 4 by (cases n) auto
  show ?case
  proof (cases "vs = []")
    case True
    then show ?thesis using vs m by (simp add: skip_ws_def ustr_Cons json_space_unit starts_unit mk_arr_def)
  next
    case False
    let ?j = "join (ustr '','') (map json_text vs)"
    have "parse_elements m [] (?j @ code_unit (CHR '']'') # r) = Some (mk_arr ([] @ vs), r)"
      by (rule parse_elements_texts) (use 4 vs m False in \<open>auto simp: list_all_iff text_opens comp_def\<close>)
    moreover have "opens ?j"
      using False vs(3) text_opens by (cases vs; cases "tl vs") (auto simp: opens_append)
    ultimately show ?thesis using vs m parse_array_value [of ?j m "code_unit (CHR '']'') # r"]
      by (simp add: ustr_Cons comp_def mk_arr_def del: parse_value.simps)
  qed
next
  case (5 p ps)
  obtain kvs where kvs: "p = ObjectPrototype" "ps = map mk_prop kvs" "distinct (keys kvs)"
    "\<forall>k v. (k, v) \<in> set kvs \<longrightarrow> \<not> array_index k \<and> plain_json v" using plain_obj [OF 5(2)] .
  then obtain m where m: "n = Suc m" using 5 by (cases n) auto
  have members: "map (\<lambda>q. case q of (Key k, OData e v) \<Rightarrow> json_quote k @ ustr '':'' @ json_text v | _ \<Rightarrow> []) ps = map member_text kvs"
    by (simp add: kvs(2) mk_prop_def member_text_def)
  have eq: "json_text (Obj p ps) = code_unit (CHR ''{'') # join (ustr '','') (map member_text kvs) @ [code_unit (CHR ''}'')]"
    unfolding json_text.simps members by (simp add: ustr_Cons)
  show ?case
  proof (cases kvs)
    case Nil
    then show ?thesis using kvs m by (simp add: skip_ws_def ustr_Cons json_space_unit starts_unit mk_obj_def)
  next
    case (Cons kv rest)
    let ?j = "join (ustr '','') (map member_text kvs)"
    have "parse_members m [] (?j @ code_unit (CHR ''}'') # r) = Some (mk_obj ([] @ kvs), r)"
    proof (rule parse_members_texts)
      fix k v j t assume kv: "(k, v) \<in> set kvs" and j: "2 * length (json_text v) \<le> j" "ends t"
      then have "(Key k, OData True v) \<in> set ps" by (force simp: kvs(2) mk_prop_def)
      then show "parse_value j (json_text v @ t) = Some (v, t)" using 5(1) kvs(4) kv j by blast
    next
      show "2 * length ?j + 1 \<le> m" using 5(3) m unfolding eq by simp
    qed (use kvs Cons in auto)
    moreover have "\<exists>t. ?j = quote # t" using Cons by (cases rest) (simp_all add: member_text_def json_quote_def)
    ultimately show ?thesis using kvs(1,2) m parse_object_value unfolding eq
      by (auto simp add: mk_obj_def simp del: parse_value.simps)
  qed
qed (auto simp: parse_null simp del: parse_value.simps)


section \<open>Envelopes\<close>

lemma lone_append: "\<not> lone_surrogate s \<Longrightarrow> lone_surrogate (s @ t) = lone_surrogate t"
proof (induction s rule: lone_surrogate.induct)
  case (2 c s)
  show ?case
  proof (cases "high_surrogate c")
    case True
    then obtain d u where s: "s = d # u" "low_surrogate d" "\<not> lone_surrogate u" using 2(3) by (cases s) (auto split: if_splits)
    then show ?thesis using 2(1) [OF True s(1,2)] True by simp
  next
    case False
    then show ?thesis using 2(2,3) by (auto split: if_splits)
  qed
qed simp

lemma ascii_unit: "\<not> high_surrogate (code_unit c)" "\<not> low_surrogate (code_unit c)"
proof -
  have "of_char c < (256 :: nat)" by simp
  then show "\<not> high_surrogate (code_unit c)" "\<not> low_surrogate (code_unit c)" unfolding surrogate_ranges unat_code_unit by linarith+
qed

lemma lone_ustr [simp]: "\<not> lone_surrogate (ustr s)"
  by (induction s) (simp_all add: ustr_Cons ascii_unit)

lemma backslash_unit: "backslash = code_unit (CHR 0x5C)"
  by (simp add: backslash_def code_unit_def)

lemma lone_escape_u: "lone_surrogate (backslash # code_unit c # hex4 n @ t) = lone_surrogate t"
  using lone_append [OF lone_ustr, of "CHR 0x5C # c # [hex_digit (n div 4096 mod 16), hex_digit (n div 256 mod 16), hex_digit (n div 16 mod 16), hex_digit (n mod 16)]" t]
  by (simp add: hex4_def backslash_unit ustr_Cons)

lemma lone_escape_unit: "\<not> high_surrogate c \<Longrightarrow> \<not> low_surrogate c \<Longrightarrow> lone_surrogate (escape_unit c @ t) = lone_surrogate t"
  using lone_escape_u [of "CHR ''u''" "unat c" t]
  by (auto simp: escape_unit_def backslash_unit quote_unit ascii_unit)

lemma escape_surrogates: "\<not> lone_surrogate (escape s)"
proof (induction s rule: escape.induct)
  case (2 c s)
  show ?case
  proof (cases "high_surrogate c")
    case True
    then show ?thesis
      using 2(1,2) [OF True] lone_escape_u [of "CHR ''u''" "unat c" "[]"] lone_escape_u [of "CHR ''u''" "unat c" "escape s"]
      by (cases s) (auto simp del: escape.simps(2) simp: escape.simps(2) [of c])
  next
    case False
    then show ?thesis using 2(3,4) [OF False] lone_escape_u [of "CHR ''u''" "unat c" "escape s"] lone_escape_unit [of c "escape s"] by auto
  qed
qed simp

lemma quote_surrogates: "\<not> lone_surrogate (json_quote s)"
  using lone_append [OF escape_surrogates, of s "[quote]"] by (simp add: json_quote_def quote_unit ascii_unit)

lemma join_surrogates: "(\<And>x. x \<in> set xs \<Longrightarrow> \<not> lone_surrogate x) \<Longrightarrow> \<not> lone_surrogate (join (ustr '','') xs)"
  by (induction "ustr '',''" xs rule: join.induct) (auto simp: lone_append)

lemma text_surrogates: "plain_json v \<Longrightarrow> \<not> lone_surrogate (json_text v)"
proof (induction v rule: json_text.induct)
  case (4 slots extra)
  then have "\<not> lone_surrogate (join (ustr '','') (map (\<lambda>s. case s of Data v \<Rightarrow> json_text v | _ \<Rightarrow> []) slots))"
    by (intro join_surrogates) (auto simp: list_all_iff split: slot.splits)
  then show ?case by (simp add: lone_append)
next
  case (5 p ps)
  have "\<not> lone_surrogate (join (ustr '','') (map (\<lambda>q. case q of (Key k, OData e v) \<Rightarrow> json_quote k @ ustr '':'' @ json_text v | _ \<Rightarrow> []) ps))"
  proof (rule join_surrogates)
    fix x assume "x \<in> set (map (\<lambda>q. case q of (Key k, OData e v) \<Rightarrow> json_quote k @ ustr '':'' @ json_text v | _ \<Rightarrow> []) ps)"
    then obtain q where q: "q \<in> set ps" "x = (case q of (Key k, OData e v) \<Rightarrow> json_quote k @ ustr '':'' @ json_text v | _ \<Rightarrow> [])" by auto
    then obtain k v where kv: "q = (Key k, OData True v)" "plain_json v" using plain_member [OF 5(2)] by blast
    then have "\<not> lone_surrogate (json_text v)" using 5(1) q by blast
    then show "\<not> lone_surrogate x" using q kv by (simp add: lone_append quote_surrogates)
  qed
  then show ?case by (simp add: lone_append)
qed (auto simp: quote_surrogates)

lemma json_roundtrip: "plain_json v \<Longrightarrow> json_parse (json_text v) = Inr v"
  using parse_text [of v "2 * length (json_text v) + 2" "[]"] by (simp add: json_parse_def ends_def skip_ws_def)

lemma decode_encode_text:
  assumes "plain_json (Obj p ps)"
  shows "text_decode (utf8_encode (json_text (Obj p ps))) = Inr (json_text (Obj p ps))"
proof -
  have "utf8_bytes (unat (code_unit (CHR ''{''))) = [123]" by (simp add: utf8_bytes_def unat_code_unit)
  then have "\<exists>t. utf8_encode (json_text (Obj p ps)) = 123 # t"
    by (simp add: utf8_encode_def ustr_Cons ascii_unit)
  then show ?thesis using utf8_roundtrip [OF text_surrogates [OF assms]] by (auto simp: text_decode_def)
qed

subsection \<open>Plain text\<close>

text \<open>Characters that are sent as they are.\<close>

definition plain_char :: "char \<Rightarrow> bool" where
  "plain_char c \<longleftrightarrow> 32 \<le> (of_char c :: nat) \<and> (of_char c :: nat) < 127 \<and> c \<noteq> CHR 0x22 \<and> c \<noteq> CHR 0x5C"

lemma escape_plain: "list_all plain_char s \<Longrightarrow> escape (ustr s) = ustr s"
proof (induction s)
  case (Cons c s)
  then have "32 \<le> (of_char c :: nat)" "code_unit c \<noteq> quote" "code_unit c \<noteq> backslash" by (simp_all add: plain_char_def quote_unit backslash_unit)
  then have "escape_unit (code_unit c) = [code_unit c]" by (auto simp: escape_unit_def unat_code_unit dest: arg_cong [of _ _ unat])
  then show ?case using Cons by (simp add: ustr_Cons ascii_unit)
qed simp

lemma array_index_digit: "array_index k \<Longrightarrow> k \<noteq> [] \<and> is_digit (hd k)"
  by (auto simp: array_index_def index_rx_def rx_match_iff rx_simps ustr_Cons is_digit_def unat_code_unit range_cls_def)

lemma plain_key: "\<not> is_digit (code_unit c) \<Longrightarrow> \<not> array_index (ustr (c # s))"
  using array_index_digit [of "ustr (c # s)"] by (auto simp: ustr_Cons)

definition ascii :: "string \<Rightarrow> bytes" where
  "ascii s = map (\<lambda>c. of_nat (of_char c)) s"

lemma utf8_ascii: "list_all (\<lambda>c. (of_char c :: nat) < 128) s \<Longrightarrow> utf8_encode (ustr s) = ascii s"
  by (induction s) (simp_all add: ascii_def utf8_encode_def ustr_Cons ascii_unit utf8_bytes_def unat_code_unit)

lemma length_ascii [simp]: "length (ascii s) = length s"
  by (simp add: ascii_def)

lemma quote_plain: "list_all plain_char s \<Longrightarrow> json_quote (ustr s) = ustr (CHR 0x22 # s @ [CHR 0x22])"
  by (simp add: json_quote_def escape_plain quote_unit ustr_Cons ustr_append)

lemma encode_ascii:
  "plain_json w \<Longrightarrow> json_text w = ustr t \<Longrightarrow> list_all (\<lambda>c. (of_char c :: nat) < 128) t \<Longrightarrow> int (length t) \<le> n \<Longrightarrow>
     encodeWire w n = Inr (ascii t)"
  by (simp add: encodeWire_def stringify_plain utf8_ascii failIf_def)

lemma wire_parses:
  assumes "plain_json w" and "is_object w" and "get_prop w (ustr ''v'') = Number (NumI 1)" and "is_text (get_prop w (ustr ''op''))"
    and "encodeWire w maxSend = Inr bs" and "int (length bs) \<le> maxReceive"
  shows "parseWire bs maxReceive = Inr w"
proof -
  obtain p ps where w: "w = Obj p ps" using assms(1,2) by (cases w) auto
  have bs: "bs = utf8_encode (json_text w)" using assms(1,5) by (auto simp: encodeWire_def stringify_plain Let_def)
  have "text_decode bs = Inr (json_text w)" using decode_encode_text assms(1) w bs by simp
  moreover have "bs \<noteq> []" using \<open>text_decode bs = Inr (json_text w)\<close> w by (auto simp: text_decode_def ustr_Cons)
  ultimately show ?thesis
    using assms json_roundtrip [OF assms(1)] by (simp add: parseWire_def failIf_def)
qed

lemma is_object_mk_obj [simp]: "Router_Protocol.is_object (mk_obj kvs)"
  by (simp add: mk_obj_def)


definition sample_wire :: jsval where
  "sample_wire = mk_obj [(ustr ''v'', Number (NumI 1)), (ustr ''op'', Str (ustr ''message'')), (ustr ''data'', mk_arr [Bool True, Null])]"

lemma one_text: "show_pos 1 = ''1''"
proof -
  have "show_nat 1 = ''1''" by code_simp
  then show ?thesis using show_pos_int [of 1] by (simp add: MAX_SAFE_INTEGER_def)
qed

lemmas text_simps = mk_obj_def mk_prop_def mk_arr_def plain_key is_digit_def unat_code_unit quote_plain plain_char_def one_text MAX_SAFE_INTEGER_def

lemma sample_text: "json_text sample_wire = ustr (''{'' @ [CHR 0x22] @ ''v'' @ [CHR 0x22] @ '':1,'' @ [CHR 0x22] @ ''op'' @ [CHR 0x22] @ '':'' @
    [CHR 0x22] @ ''message'' @ [CHR 0x22] @ '','' @ [CHR 0x22] @ ''data'' @ [CHR 0x22] @ '':[true,null]}'')"
  by (simp add: sample_wire_def text_simps flip: ustr_append)


end
