(* ===== verification/Router_Session.thy ===== *)
theory Router_Session
  imports Router_Safety Router_Wire
begin

text \<open>
  The invariant of a session through every operation of \<open>router/index.ts\<close> and \<open>router/video.ts\<close>, the step
  relation of a session, and what holds of every state it can reach.
\<close>

section \<open>Subscriptions and publishers\<close>

lemma inv_sub_entry:
  assumes "router_inv opt s" and "\<And>x. sub_entry (f x) = sub_entry x"
  shows "router_inv opt (s\<lparr>rt_subscriptions := AList.map_entry sid f (rt_subscriptions s)\<rparr>)"
proof -
  have "known_source opt (sub_entry (snd p))" if "p \<in> set (AList.map_entry sid f (rt_subscriptions s))" for p
    using set_map_entry [OF that] assms by (force simp: router_inv_parts)
  then show ?thesis using assms(1) by (auto simp: router_inv_parts simp del: set_map)
qed

lemma inv_pub_entry:
  assumes "router_inv opt s" and "\<And>x. pub_entry (f x) = pub_entry x \<and> pub_guarded (f x) = pub_guarded x"
  shows "router_inv opt (s\<lparr>rt_publishers := AList.map_entry h f (rt_publishers s)\<rparr>)"
proof -
  have "known_entry opt (pub_entry (snd p)) \<and> pub_guarded (snd p) = (b_commandGuard (rb_binding (pub_entry (snd p))) \<noteq> None)"
    if "p \<in> set (AList.map_entry h f (rt_publishers s))" for p
    using set_map_entry [OF that] assms by (force simp: router_inv_parts)
  then show ?thesis using assms(1) by (auto simp: router_inv_parts simp del: set_map)
qed

lemma inv_pub_delete: "router_inv opt s \<Longrightarrow> router_inv opt (s\<lparr>rt_publishers := AList.delete h (rt_publishers s)\<rparr>)"
  using length_delete_le [of h "rt_publishers s"] by (auto simp: router_inv_parts set_delete simp del: set_map)

lemma inv_pub_add:
  assumes inv: "router_inv opt s" and "\<not> rt_closed s" and "known_entry opt (pub_entry p)"
    and "pub_guarded p = (b_commandGuard (rb_binding (pub_entry p)) \<noteq> None)"
    and "int (length (rt_subscriptions s) + length (rt_publishers s)) < ro_maxHandles opt"
  shows "router_inv opt (s\<lparr>rt_publishers := AList.update h p (rt_publishers s)\<rparr>)"
proof -
  have "known_entry opt (pub_entry (snd x)) \<and> pub_guarded (snd x) = (b_commandGuard (rb_binding (pub_entry (snd x))) \<noteq> None)"
    if "x \<in> set (AList.update h p (rt_publishers s))" for x
    using set_update_cases [OF that] assms by (auto simp: router_inv_parts)
  moreover have "length (AList.update h p (rt_publishers s)) \<le> Suc (length (rt_publishers s))" by (simp add: length_update)
  ultimately show ?thesis using assms by (auto simp: router_inv_parts simp del: set_map)
qed

lemma keeps_set_sub [keeps_rules]: "(\<And>x. sub_entry (f x) = sub_entry x) \<Longrightarrow> keeps (router_inv opt) (set_sub sid f)"
  unfolding set_sub_def by (intro keeps_modE inv_sub_entry)

text \<open>A new subscription: the stream is registered first, and given back when ROS refuses.\<close>

lemma inv_sub_add:
  assumes inv: "router_inv opt s" and opened: "\<not> rt_closed s" and "known_source opt (sub_entry x)"
    and room: "int (length (rt_subscriptions s) + length (rt_publishers s)) < ro_maxHandles opt"
    and fresh: "map_of (q_streams (rt_queue s)) sid = None"
    and q: "queue_kept opt q" "set (keys (q_streams q)) = insert sid (set (keys (q_streams (rt_queue s))))"
  shows "router_inv opt (s\<lparr>rt_queue := q, rt_subscriptions := AList.update sid x (rt_subscriptions s)\<rparr>)"
proof -
  have "sid \<notin> set (keys (q_streams (rt_queue s)))" using fresh by (simp add: map_of_eq_None_iff)
  then have sid: "sid \<notin> set (keys (rt_subscriptions s))" "sid \<noteq> control_id" using inv opened by (auto simp: router_inv_parts)
  have "known_source opt (sub_entry (snd p))" if "p \<in> set (AList.update sid x (rt_subscriptions s))" for p
    using set_update_cases [OF that] assms by (auto simp: router_inv_parts)
  moreover have "length (AList.update sid x (rt_subscriptions s)) = Suc (length (rt_subscriptions s))"
    using sid by (simp add: length_update)
  moreover have "keys (AList.update sid x (rt_subscriptions s)) = keys (rt_subscriptions s) @ [sid]"
    using sid by (simp add: keys_update)
  ultimately show ?thesis using inv opened q sid room by (auto simp: router_inv_parts simp del: set_map)
qed

lemma register_kept:
  assumes "queue_kept opt q" and "register sid pol n q = (Inr u, q')"
  shows "queue_kept opt q'" and "map_of (q_streams q) sid = None"
    and "set (keys (q_streams q')) = insert sid (set (keys (q_streams q)))"
  using assms register_inv [of q sid pol n "Inr u" q'] by (auto simp: register_Inr queue_kept_def simp del: identifier_Inr positiveLimit_Inr)


lemma delete_append_fresh: "map_of m k = None \<Longrightarrow> AList.delete k (m @ [(k, v)]) = m"
  by (induction m) (auto split: if_splits)

lemma subscribe_inv:
  assumes inv: "router_inv opt s" and opened: "\<not> rt_closed s" and entry: "known_source opt e"
    and room: "int (length (rt_subscriptions s) + length (rt_publishers s)) < ro_maxHandles opt"
  shows "router_inv opt (snd (router_subscribe opt e rid s))"
proof -
  define s1 where "s1 = s\<lparr>rt_nextId := Suc (rt_nextId s)\<rparr>"
  define sid where "sid = ro_sessionId opt @ ustr '':'' @ ustr (show_nat (rt_nextId s1))"
  define pol where "pol = (if b_policy (rb_binding e) = PLatest then ''latest'' else ''reliable'')"
  define x where "x = \<lparr>sub_entry = e, sub_ready = False, sub_seq = 0, sub_nextAt = NumI 0\<rparr>"
  obtain r q where reg: "register sid pol (NumI (b_maxMessages (rb_binding e))) (rt_queue s1) = (r, q)" by fastforce
  have inv1: "router_inv opt s1" using inv by (simp add: s1_def)
  show ?thesis
  proof (cases r)
    case (Inl err)
    then have "snd (router_subscribe opt e rid s) = s1" using reg register_Inl [of sid pol _ "rt_queue s1" err q]
      by (simp add: router_subscribe_def router_id_def bindE_run seqE_run prog_run onQueue_def s1_def sid_def pol_def)
    then show ?thesis using inv1 by simp
  next
    case (Inr u)
    have kq: "queue_kept opt (rt_queue s1)" using inv1 by (simp add: router_inv_def)
    note q = register_kept [OF kq, of sid pol _ u q] 
    define s2 where "s2 = s1\<lparr>rt_queue := q, rt_log := rt_log s1 @ [RosSubscribe (publicName (rb_binding e)) sid]\<rparr>"
    define ans where "ans = on_subscribe (ro_oracle opt) (rt_log s2)"
    have run: "snd (router_subscribe opt e rid s) =
      (case ans of Inr _ \<Rightarrow> s2\<lparr>rt_subscriptions := AList.update sid x (rt_subscriptions s2)\<rparr>
         | Inl err \<Rightarrow> snd (seqE (onQueue (closeStream sid)) (throwE err :: unit action) s2))"
      using reg Inr
      by (cases ans) (auto simp: router_subscribe_def router_id_def bindE_run seqE_run catchE_run prog_run onQueue_def demand_def ask_def
          perform_def s1_def s2_def sid_def pol_def x_def ans_def split: prod.splits sum.splits)
    show ?thesis
    proof (cases ans)
      case (Inr v)
      define t where "t = s1\<lparr>rt_queue := q, rt_subscriptions := AList.update sid x (rt_subscriptions s1)\<rparr>"
      have "router_inv opt t" unfolding t_def
        by (rule inv_sub_add [OF inv1]) (use opened entry room q reg \<open>r = Inr u\<close> in \<open>simp_all add: s1_def x_def\<close>)
      moreover have "snd (router_subscribe opt e rid s) = t\<lparr>rt_log := rt_log t @ [RosSubscribe (publicName (rb_binding e)) sid]\<rparr>"
        using run Inr by (simp add: s2_def t_def)
      ultimately show ?thesis by simp
    next
      case (Inl err)
      have added: "map_of (q_streams (rt_queue s1)) sid = None" "q_streams q = q_streams (rt_queue s1) @ [(sid, fresh_stream pol (NumI (b_maxMessages (rb_binding e))))]"
        using reg \<open>r = Inr u\<close> by (simp_all add: register_Inr del: identifier_Inr positiveLimit_Inr)
      then have "map_of (q_streams q) sid = Some (fresh_stream pol (NumI (b_maxMessages (rb_binding e))))" by (simp add: map_add_def)
      then obtain q2 where q2: "closeStream sid q = (Inr (), q2)" "q_streams q2 = AList.delete sid (q_streams q)"
        by (simp add: closeStream_run)
      have "keys (q_streams q2) = keys (q_streams (rt_queue s1))"
        using added unfolding q2(2) by (simp add: delete_append_fresh)
      moreover have "queue_kept opt q2" using queue_kept_close [OF _ q2(1)] q(1) reg \<open>r = Inr u\<close> by simp
      ultimately have "router_inv opt (s1\<lparr>rt_queue := q2\<rparr>)" using router_inv_queue [OF inv1] by simp
      moreover obtain t where t_def: "t = s1\<lparr>rt_queue := q2\<rparr>" by simp
      moreover have "snd (router_subscribe opt e rid s) = t\<lparr>rt_log := rt_log t @ [RosSubscribe (publicName (rb_binding e)) sid]\<rparr>"
        using run Inl q2(1) by (simp add: s2_def t_def seqE_run prog_run onQueue_def)
      ultimately show ?thesis using router_inv_log [of opt t] by simp
    qed
  qed
qed

lemma advertise_inv:
  assumes inv: "router_inv opt s" and opened: "\<not> rt_closed s" and entry: "known_entry opt e"
    and room: "int (length (rt_subscriptions s) + length (rt_publishers s)) < ro_maxHandles opt"
  shows "router_inv opt (snd (router_advertise opt e rid s))"
proof -
  let ?P = "\<lambda>u. router_inv opt u \<and> \<not> rt_closed u \<and> int (length (rt_subscriptions u) + length (rt_publishers u)) < ro_maxHandles opt"
  have handle: "keeps ?P (if g then onGuard m else router_id opt)" for g and m :: "(guard, ustring) prog"
    by (simp add: keeps_def onGuard_def router_id_def seqE_run prog_run split: prod.split)
  have "wp (router_advertise opt e rid) (\<lambda>_. router_inv opt) (\<lambda>_. router_inv opt) s"
    unfolding router_advertise_def Let_def wp_bindE
    by (rule wp_keeps [OF handle]) (use assms in \<open>auto simp: wp_simps intro: inv_pub_add\<close>)
  then show ?thesis by (auto simp: wp_def split: prod.splits sum.splits)
qed

lemma wp_run: "wp m (\<lambda>_. P) (\<lambda>_. P) s \<longleftrightarrow> P (snd (m s))"
  by (auto simp: wp_def split: prod.splits sum.splits)

lemma keeps_bindE_run:
  "keeps P m \<Longrightarrow> (\<And>s x t. P s \<Longrightarrow> m s = (Inr x, t) \<Longrightarrow> P t \<Longrightarrow> P (snd (f x t))) \<Longrightarrow> keeps P (bindE m f)"
  by (auto simp: keeps_def bindE_run split: prod.splits sum.splits)

text \<open>What follows a granted entry may rely on it.\<close>

lemma keeps_entry_bind:
  assumes "\<And>e t. router_inv opt t \<Longrightarrow> consented opt e op (rt_log t) \<Longrightarrow> known_entry opt e \<Longrightarrow> publicName (rb_binding e) = name \<Longrightarrow>
      \<not> rt_closed t \<Longrightarrow> router_inv opt (snd (f e t))"
  shows "keeps (router_inv opt) (bindE (router_entry opt name op) f)"
proof (rule keeps_bindE_run [OF keeps_entry])
  fix s e t assume "router_inv opt s" and run: "router_entry opt name op s = (Inr e, t)" and t: "router_inv opt t"
  then have wf: "table_wf opt" by (simp add: router_inv_def)
  show "router_inv opt (snd (f e t))"
    using assms [OF t] entry_granted [OF run wf] by simp
qed

lemma keeps_open_handle: 
  "keeps (router_inv opt) (bindE (router_entry opt topic (if sub then OpSubscribe else OpPublish)) (\<lambda>entry.
        bindE (getE (\<lambda>s. int (length (rt_subscriptions s) + length (rt_publishers s)) \<ge> ro_maxHandles opt)) (\<lambda>full.
        seqE (throwIf full (Err ''handle_limit''))
       (if sub then router_subscribe opt entry rid else router_advertise opt entry rid))))"
  by (rule keeps_entry_bind)
     (auto simp: bindE_run seqE_run prog_run throwIf_run not_le known_source_def consented_def intro: subscribe_inv advertise_inv)

section \<open>Video\<close>

definition attachable :: "routerOptions \<Rightarrow> ustring \<Rightarrow> history \<Rightarrow> bool" where
  "attachable opt track h \<longleftrightarrow> effect_ok opt h (VideoAttach track)"

lemma attach_inv: "router_inv opt s \<Longrightarrow> attachable opt track (rt_log s) \<Longrightarrow> router_inv opt (snd (video_attach opt track s))"
proof -
  assume inv: "router_inv opt s" and ok: "attachable opt track (rt_log s)"
  define s1 where "s1 = s\<lparr>rt_log := rt_log s @ [VideoAttach track]\<rparr>"
  obtain states outcome where ans: "on_videoAttach (ro_oracle opt) (rt_log s1) = (states, outcome)" by fastforce
  have "router_inv opt s1" using inv ok by (simp add: s1_def attachable_def)
  moreover have "keeps (router_inv opt) (seqE (forE (viewer_state_with (flush opt) opt track) states) (liftE outcome))"
    by (intro keeps_rules kept.viewer_kept)
  moreover have "video_attach opt track s = seqE (forE (viewer_state_with (flush opt) opt track) states) (liftE outcome) s1"
    using ans by (simp add: video_attach_def ask_def perform_def bindE_run seqE_run prog_run s1_def)
  ultimately show ?thesis by (simp add: keeps_def)
qed

lemma bind_attachable:
  assumes "router_inv opt s" and "rt_log s = h @ [VideoAuthorize track]"
    and "on_videoAuthorize (ro_oracle opt) (rt_log s) = Inr True"
  shows "wp (video_bind opt track) (\<lambda>_ t. router_inv opt t \<and> attachable opt track (rt_log t)) (\<lambda>_. router_inv opt) s"
  using assms router_inv_log [of opt s "VideoProfile track"]
  by (auto simp: video_bind_def wp_simps ask_def perform_def attachable_def split: option.split)

lemma wp_answer: "wp (bindE (getE f) (\<lambda>x. retE (g x))) (\<lambda>_. P) E = P"
  by (simp add: fun_eq_iff wp_simps)

lemma keeps_video_operation: "keeps (router_inv opt) (video_operation opt wire rid)"
proof -
  define rest where "rest = (\<lambda>track. bindE (getE (\<lambda>s. case map_of (rt_bound s) track of None \<Rightarrow> False | Some b \<Rightarrow> vb_watching b)) (\<lambda>watching.
        seqE (if watching then retE ()
              else seqE (video_attach opt track) (set_bind track (\<lambda>x. x\<lparr>vb_watching := True, vb_attached := True\<rparr>)))
       (bindE (getE (bound_mid track)) (\<lambda>mid.
        retE (mk_wire ''video.subscribed'' [(''id'', Str rid), (''track'', Str track), (''mid'', Str mid)])))))"
  define sub where "sub = (\<lambda>track. bindE (demand on_videoAuthorize opt (VideoAuthorize track)) (\<lambda>ok.
        seqE (throwIf (\<not> ok) (Err ''unauthorized'')) (seqE (video_bind opt track) (rest track))))"
  have rest: "wp (rest track) (\<lambda>_. router_inv opt) (\<lambda>_. router_inv opt) t" if t: "router_inv opt t" "attachable opt track (rt_log t)" for track t
  proof -
    have "router_inv opt (snd (seqE (video_attach opt track) (set_bind track f) t))" for f
      using attach_inv [OF t] by (auto simp: seqE_run set_bind_def prog_run split: prod.splits sum.splits)
    then have "wp (seqE (video_attach opt track) (set_bind track f)) (\<lambda>_. router_inv opt) (\<lambda>_. router_inv opt) t" for f by (simp add: wp_run)
    then show ?thesis using t(1) by (simp add: rest_def wp_bindE [of "getE _" "\<lambda>w. seqE (if w then _ else _) _"] wp_seqE wp_prims wp_if wp_answer)
  qed
  have "router_inv opt (snd (sub track s))" if inv: "router_inv opt s" for track s
  proof -
    define s1 where "s1 = s\<lparr>rt_log := rt_log s @ [VideoAuthorize track]\<rparr>"
    have inv1: "router_inv opt s1" using inv by (simp add: s1_def)
    have "wp (sub track) (\<lambda>_. router_inv opt) (\<lambda>_. router_inv opt) s"
    proof (cases "on_videoAuthorize (ro_oracle opt) (rt_log s1) = Inr True")
      case True
      have "wp (seqE (video_bind opt track) (rest track)) (\<lambda>_. router_inv opt) (\<lambda>_. router_inv opt) s1"
        unfolding wp_seqE by (rule wp_mono [OF bind_attachable [OF inv1 _ True]]) (auto simp: s1_def rest)
      then show ?thesis
        using True by (simp add: sub_def demand_def ask_def perform_def wp_bindE wp_seqE wp_prims wp_unit_prims wp_liftE s1_def)
    next
      case False
      then show ?thesis using inv
        by (cases "on_videoAuthorize (ro_oracle opt) (rt_log s1)")
           (auto simp: sub_def demand_def ask_def perform_def wp_bindE wp_seqE wp_prims wp_unit_prims wp_liftE s1_def)
    qed
    then show ?thesis by (simp add: wp_run)
  qed
  then have "keeps (router_inv opt) (sub track)" for track by (simp add: keeps_def)
  moreover have "video_operation opt wire rid =
     (if get_prop wire (ustr ''op'') = Str (ustr ''video.subscribe'')
      then seqE (liftE (wire_fields wire [''id'', ''track''])) (bindE (liftE (textField wire ''track'')) sub)
      else if get_prop wire (ustr ''op'') = Str (ustr ''video.unsubscribe'') then
        seqE (liftE (wire_fields wire [''id'', ''mid'']))
       (bindE (liftE (textField wire ''mid'')) (\<lambda>mid.
        bindE (getE (\<lambda>s. find (\<lambda>p. slot_mid (vb_slot (snd p)) = mid) (rt_bound s))) (\<lambda>found.
        case found of
          None \<Rightarrow> throwE (Err ''unknown_video_slot'')
        | Some p \<Rightarrow> seqE (video_release (fst p)) (retE (mk_wire ''video.unsubscribed'' [(''id'', Str rid)])))))
      else throwE (Err ''unknown_operation''))"
    unfolding video_operation_def Let_def sub_def rest_def by (rule refl)
  ultimately show ?thesis by (auto intro!: keeps_rules)
qed


section \<open>Requests\<close>

text \<open>Between looking a request up and storing its response, nothing but a closing router touches the cache.\<close>

definition cache_frame :: "cache \<Rightarrow> router \<Rightarrow> bool" where
  "cache_frame c s \<longleftrightarrow> rt_cache s = c \<or> rt_cache s = c\<lparr>rc_entries := [], rc_bytes := 0\<rparr>"

named_theorems frame_rules

lemmas keeps_shape = keeps_pure keeps_bindE keeps_seqE keeps_option keeps_if keeps_forE keeps_mapE keeps_catchE

lemma frame_prims [frame_rules]:
  "keeps (cache_frame c) (perform e)" "keeps (cache_frame c) (onQueue q)" "keeps (cache_frame c) (onGuard g)"
  "keeps (cache_frame c) (set_bind track f)" "keeps (cache_frame c) (onCache cache_clear)" "keeps (cache_frame c) (router_id opt)"
  by (auto simp: keeps_def perform_def onQueue_def onGuard_def onCache_def set_bind_def cache_clear_def router_id_def
      prog_simps cache_frame_def split: prod.splits)

lemma frame_modE [frame_rules]: "(\<And>s. rt_cache (f s) = rt_cache s) \<Longrightarrow> keeps (cache_frame c) (modE f)"
  by (simp add: keeps_def prog_simps cache_frame_def)

lemma frame_ask [frame_rules]: "keeps (cache_frame c) (ask f opt e)" "keeps (cache_frame c) (demand g opt e)"
  unfolding demand_def ask_def by (intro keeps_rules frame_rules)+

lemma frame_entry [frame_rules]: "keeps (cache_frame c) (router_entry opt name op)"
  unfolding router_entry_def router_allowed_def by (intro keeps_rules frame_rules)

lemma frame_remove [frame_rules]: "keeps (cache_frame c) (removeSubscription opt sid)"
  unfolding removeSubscription_def router_subscription_def
  by (intro keeps_shape frame_rules) simp

lemma frame_drain [frame_rules]: "keeps (cache_frame c) (drain opt sid ch)"
proof -
  have "keeps (cache_frame c) (drain_rounds n opt sid ch)" for n
    by (induction n) (auto intro!: keeps_shape frame_rules)
  then show ?thesis unfolding drain_def by (intro keeps_shape)
qed

lemma frame_close [frame_rules]: "keeps (cache_frame c) (router_close opt)"
  unfolding router_close_def video_close_def video_release_def unsubscribe_all_def
  by (intro keeps_shape frame_rules) simp_all

lemma frame_respond [frame_rules]: "keeps (cache_frame c) (respond opt wire)"
  unfolding respond_def by (intro keeps_shape frame_rules)

interpretation frame: router_kept opt "cache_frame c" for opt c
proof unfold_locales
  fix s sid sub e t
  assume "cache_frame c s" and "router_entry opt (publicName (rb_binding (sub_entry sub))) OpSubscribe s = (Inr e, t)"
  then have "cache_frame c t" using keepsD [OF frame_entry] by metis
  then show "cache_frame c (snd (drain opt sid (dataChannel (b_delivery (rb_binding (sub_entry sub)))) t))"
    using frame_drain by (simp add: keeps_def)
qed (assumption | rule frame_rules keeps_reports)+

lemma frame_video [frame_rules]: "keeps (cache_frame c) (video_operation opt wire rid)"
  unfolding video_operation_def video_bind_def video_attach_def Let_def
  by (auto intro!: keeps_shape frame_rules frame.release_kept frame.viewer_kept frame.flush_kept)

lemma frame_operation: "keeps (cache_frame c) (router_operation opt wire rid)"
  unfolding router_operation_def router_subscribe_def router_advertise_def router_publisher_def guard_clock_def Let_def
  by (auto intro!: keeps_shape frame_rules)

text \<open>The invariant through an operation.\<close>

lemma keeps_lookup [keeps_rules]:
  "keeps (router_inv opt) (router_publisher h)" "keeps (router_inv opt) (router_subscription sid)" "keeps (router_inv opt) (guard_clock opt')"
  unfolding router_publisher_def router_subscription_def guard_clock_def by (intro keeps_rules; simp)+

lemma keeps_operation: "keeps (router_inv opt) (router_operation opt wire rid)"
proof -
  have leave: "keeps (router_inv opt) (modE (\<lambda>s. s\<lparr>rt_publishers := AList.delete h (rt_publishers s)\<rparr>))" for h
    by (rule keeps_modE) (rule inv_pub_delete)
  show ?thesis
    unfolding router_operation_def Let_def
    by (rule keeps_if, rule keeps_seqE, rule keeps_pure, rule keeps_bindE, rule keeps_pure, rule keeps_open_handle)
       (intro keeps_shape keeps_removeSubscription keeps_video_operation keeps_lookup keeps_entry keeps_onGuard leave)
qed

text \<open>A response is stored only where there is room for it.\<close>

lemma store_kept:
  assumes "cache_kept c" and "map_of (rc_entries c) rid = None" and "int (length (rc_entries c)) < rc_maxEntries c"
    and "maxOut + int (length input) * 2 \<le> rc_maxBytes c - rc_bytes c" and "int (length out) \<le> maxOut"
    and "c' = c \<or> c' = c\<lparr>rc_entries := [], rc_bytes := 0\<rparr>"
  shows "cache_kept (snd (cache_store rid input out now c'))"
proof -
  have "0 \<le> rc_bytes c" using assms(1) by (auto simp: cache_kept_def cache_inv_def intro!: sum_list_nonneg)
  then have "entry_bytes input out \<le> rc_maxBytes c' - rc_bytes c'" using assms(4-6) by (auto simp: entry_bytes_def)
  moreover have "cache_inv c'" using assms(1,6) by (auto simp: cache_kept_def cache_inv_def)
  ultimately have "cache_inv (snd (cache_store rid input out now c'))"
    using assms by (intro cache_store_inv) (auto simp: cache_kept_def)
  then show ?thesis using assms(1,6) by (auto simp: cache_kept_def cache_store_def seqE_run prog_run)
qed

lemma inv_cache: "router_inv opt s \<Longrightarrow> cache_kept c \<Longrightarrow> router_inv opt (s\<lparr>rt_cache := c\<rparr>)"
  by (auto simp: router_inv_parts simp del: set_map)

lemma keeps_now [keeps_rules]: "keeps (router_inv opt) (router_now opt')"
  unfolding router_now_def by (intro keeps_rules) simp_all

lemma purge_kept: "cache_kept c \<Longrightarrow> cache_kept (purge now c)"
  using purge_inv [of c now] by (simp add: cache_kept_def) (simp add: purge_def)

lemma request_execute:
  assumes inv: "router_inv opt s" and "map_of (rc_entries (rt_cache s)) rid = None"
    and "int (length (rc_entries (rt_cache s))) < rc_maxEntries (rt_cache s)"
  shows "router_inv opt (snd (seqE (onCache (cache_reserve (ro_maxBytes opt + int (length input) * 2)))
        (bindE (router_operation opt wire rid) (\<lambda>response.
         bindE (liftE (encodeWire response (ro_maxBytes opt))) (\<lambda>bs.
         seqE (onCache (cache_store rid input bs now)) (seqE (onQueue (enqueue control_id bs)) (retE ()))))) s))"
  (is "router_inv opt (snd (seqE (onCache ?reserve) ?run s))")
proof (cases "?reserve (rt_cache s)")
  case (Pair r c)
  then have c: "c = rt_cache s" by (simp add: cache_reserve_def bindE_run prog_run throwIf_run)
  show ?thesis
  proof (cases r)
    case (Inl e)
    then show ?thesis using inv Pair c by (simp add: seqE_run onCache_def)
  next
    case (Inr u)
    then have room: "ro_maxBytes opt + int (length input) * 2 \<le> rc_maxBytes (rt_cache s) - rc_bytes (rt_cache s)"
      using Pair by (auto simp: cache_reserve_def bindE_run prog_run throwIf_run split: if_splits)
    have store: "router_inv opt (snd (seqE (onCache (cache_store rid input bs now)) (seqE (onQueue (enqueue control_id bs)) (retE ())) t))"
      if t: "router_inv opt t" "cache_frame (rt_cache s) t" and bs: "int (length bs) \<le> ro_maxBytes opt" for bs t
    proof -
      have "cache_kept (snd (cache_store rid input bs now (rt_cache t)))"
        using inv t(2) bs assms(2,3) room by (intro store_kept [of "rt_cache s"]) (auto simp: router_inv_def cache_frame_def)
      then have "router_inv opt (t\<lparr>rt_cache := snd (cache_store rid input bs now (rt_cache t))\<rparr>)" using inv_cache [OF t(1)] by blast
      moreover have "keeps (router_inv opt) (seqE (onQueue (enqueue control_id bs)) (retE ()))" by (intro keeps_rules)
      ultimately show ?thesis by (simp add: seqE_run onCache_def cache_store_def prog_run keeps_def)
    qed
    have "wp (router_operation opt wire rid) (\<lambda>_ t. router_inv opt t \<and> cache_frame (rt_cache s) t)
        (\<lambda>_ t. router_inv opt t \<and> cache_frame (rt_cache s) t) s"
      using keeps_operation [of opt wire rid] frame_operation [of "rt_cache s" opt wire rid] inv
      by (simp add: wp_run keeps_def cache_frame_def)
    then have "wp ?run (\<lambda>_. router_inv opt) (\<lambda>_. router_inv opt) s"
      unfolding wp_bindE
      by (rule wp_mono) (auto simp: wp_run store wp_liftE dest: encodeWire_bound split: sum.split)
    then have "router_inv opt (snd (?run s))" by (simp only: wp_run)
    moreover have "seqE (onCache ?reserve) ?run s = ?run s" using Pair Inr c by (simp add: seqE_run onCache_def)
    ultimately show ?thesis by simp
  qed
qed

lemma keeps_request: "keeps (router_inv opt) (router_request opt wire rid)"
proof -
  define serve' where "serve' = (\<lambda>input now. bindE (onCache (cache_lookup rid input now)) (\<lambda>cached.
     case cached of
       Some bs \<Rightarrow> seqE (onQueue (enqueue control_id bs)) (retE ())
     | None \<Rightarrow>
         seqE (onCache (cache_reserve (ro_maxBytes opt + int (length input) * 2)))
        (bindE (router_operation opt wire rid) (\<lambda>response.
         bindE (liftE (encodeWire response (ro_maxBytes opt))) (\<lambda>bs.
         seqE (onCache (cache_store rid input bs now))
        (seqE (onQueue (enqueue control_id bs)) (retE ())))))))"
  have "router_inv opt (snd (serve' input now s))" if inv: "router_inv opt s" for input now s
  proof -
    let ?c = "purge now (rt_cache s)"
    have inv': "router_inv opt (s\<lparr>rt_cache := ?c\<rparr>)" using inv by (intro inv_cache purge_kept) (simp_all add: router_inv_def)
    have max: "rc_maxEntries ?c = rc_maxEntries (rt_cache s)" by (simp add: purge_def)
    have hit: "keeps (router_inv opt) (seqE (onQueue (enqueue control_id bs)) (retE ()))" for bs by (intro keeps_rules)
    obtain r where look: "cache_lookup rid input now (rt_cache s) = (r, ?c)" by (simp add: cache_lookup_run)
    consider (fail) e where "r = Inl e" | (hit) bs where "r = Inr (Some bs)"
      | (miss) "r = Inr None" "map_of (rc_entries ?c) rid = None" "int (length (rc_entries ?c)) < rc_maxEntries ?c"
      using look max by (auto simp: cache_lookup_run split: option.splits if_splits)
    then show ?thesis
    proof cases
      case fail
      then show ?thesis using look inv' by (simp add: serve'_def bindE_run onCache_def)
    next
      case hit
      then show ?thesis using look keepsD [OF \<open>keeps _ (seqE (onQueue (enqueue control_id bs)) (retE ()))\<close> inv']
        by (simp add: serve'_def bindE_run onCache_def) (metis prod.collapse)
    next
      case miss
      then show ?thesis using look request_execute [OF inv', of rid input wire now]
        by (simp add: serve'_def bindE_run onCache_def)
    qed
  qed
  then have "keeps (router_inv opt) (serve' input now)" for input now by (simp add: keeps_def)
  then have "keeps (router_inv opt) (bindE (liftE (stringify wire)) (\<lambda>text. bindE (router_now opt) (serve' (case text of Some t \<Rightarrow> t | None \<Rightarrow> []))))"
    by (intro keeps_shape keeps_now)
  then show ?thesis unfolding router_request_def serve'_def Let_def .
qed

lemma keeps_catalog: "keeps (router_inv opt) (router_catalog opt')"
  unfolding router_catalog_def by (intro keeps_rules)

lemma keeps_control: "keeps (router_inv opt) (router_control opt wire rid)"
proof -
  have welcomed: "keeps (router_inv opt) (modE (\<lambda>s. s\<lparr>rt_welcomed := True\<rparr>))" by (rule keeps_modE) simp
  have ready: "keeps (router_inv opt) (modE (\<lambda>s. s\<lparr>rt_subscriptions := AList.map_entry sid (\<lambda>x. x\<lparr>sub_ready := True\<rparr>) (rt_subscriptions s)\<rparr>))" for sid
    by (rule keeps_modE) (rule inv_sub_entry, simp_all)
  have video: "keeps (router_inv opt) (ask on_videoCatalog opt VideoCatalog)" by (rule keeps_ask) simp
  show ?thesis
    unfolding router_control_def router_hello_def Let_def
    by (intro keeps_shape keeps_catalog video keeps_respond welcomed ready keeps_lookup keeps_request)
qed

lemma keeps_controlRate: "keeps (router_inv opt) (controlRate opt)"
  unfolding controlRate_def Let_def by (intro keeps_rules) simp_all

section \<open>Publishing\<close>

text \<open>The value goes to ROS right after a renewed consent and a successful encoding.\<close>

lemma keeps_ros_send:
  assumes known: "known_entry opt e"
  shows "keeps (router_inv opt) (ros_send opt e native)"
  unfolding ros_send_def
proof (rule keeps_entry_bind)
  fix e' t assume inv: "router_inv opt t" and ok: "consented opt e' OpPublish (rt_log t)" and "known_entry opt e'"
    and "publicName (rb_binding e') = publicName (rb_binding e)"
  then have "e' = e" using known by (metis known_entry_def option.inject)
  then show "router_inv opt (snd (bindE (liftE (codec_encode (rb_codec e) native)) (\<lambda>_. demand on_publish opt (RosPublish (publicName (rb_binding e)) native)) t))"
    using inv ok by (auto simp: bindE_run prog_run demand_def ask_def perform_def seqE_run split: sum.split)
qed

lemma keeps_through_ticket: "keeps (router_inv opt) send \<Longrightarrow> keeps (router_inv opt) (through_ticket opt t send)"
  unfolding through_ticket_def by (intro keeps_shape keeps_lookup keeps_onGuard)

lemma keeps_prepare: "keeps (router_inv opt) (publish_prepare opt wire pub h seq)"
  unfolding publish_prepare_def by (intro keeps_shape keeps_lookup keeps_onGuard)

lemma inv_run: "router_inv opt t \<Longrightarrow> keeps (router_inv opt) m \<Longrightarrow> router_inv opt (snd (m t))"
  by (simp add: keeps_def)

lemma keeps_publish: "keeps (router_inv opt) (router_publish opt ch wire)"
proof -
  have note_seq: "keeps (router_inv opt) (modE (\<lambda>s. s\<lparr>rt_publishers := AList.map_entry h (\<lambda>x. x\<lparr>pub_seq := q, pub_nextAt := n\<rparr>) (rt_publishers s)\<rparr>))" for h q n
    by (rule keeps_modE) (rule inv_pub_entry, simp_all)
  show ?thesis
    unfolding router_publish_def
    by (rule keeps_seqE, rule keeps_pure, rule keeps_bindE, rule keeps_pure, rule keeps_seqE, rule keeps_pure, rule keeps_bindE,
        rule keeps_pure, rule keeps_bindE, rule keeps_lookup, rule keeps_entry_bind, erule inv_run,
        intro keeps_shape keeps_now keeps_prepare note_seq keeps_through_ticket keeps_ros_send keeps_respond; assumption)
qed

section \<open>Samples and received messages\<close>

lemma keeps_sample_deliver: "keeps (router_inv opt) (sample_deliver opt sid sub native)"
  unfolding sample_deliver_def by (intro keeps_rules) simp_all

lemma keeps_sample: "keeps (router_inv opt) (router_sample opt sid native)"
  unfolding router_sample_def by (intro keeps_shape keeps_sample_deliver keeps_removeSubscription keeps_flush)

lemma keeps_tryE: "keeps P m \<Longrightarrow> (\<And>e. keeps P (h e)) \<Longrightarrow> (\<And>x. keeps P (f x)) \<Longrightarrow> keeps P (tryE m h f)"
  by (auto simp: keeps_def tryE_def split: prod.splits sum.splits)

lemma keeps_head: "keeps (router_inv opt) (receive_head opt label raw)"
  unfolding receive_head_def by (intro keeps_shape keeps_controlRate)

lemma keeps_receive: "keeps (router_inv opt) (receive opt label raw)"
  unfolding receive_def
  by (intro keeps_shape keeps_tryE keeps_head keeps_flush)
     (auto intro!: keeps_shape keeps_publish keeps_control keeps_flush split: prod.split)

lemma keeps_keyframe: "keeps (router_inv opt) (slot_keyframe track)"
  unfolding slot_keyframe_def by (intro keeps_rules) simp

section \<open>The constructor\<close>

lemma router_table_wf:
  assumes "router_table topics es table = Inr t"
    and "\<forall>name e. map_of table name = Some e \<longrightarrow> publicName (rb_binding e) = name \<and> rb_binding e \<in> set topics"
  shows "map_of t name = Some e \<Longrightarrow> publicName (rb_binding e) = name \<and> rb_binding e \<in> set topics"
  using assms
proof (induction es arbitrary: table)
  case Nil
  then show ?case by auto
next
  case (Cons x es)
  then show ?case by (auto simp del: identifier_Inr)
qed

lemma router_now_Inr:
  "router_now opt s = (Inr v, t) \<Longrightarrow> t = s\<lparr>rt_log := rt_log s @ [Clock], rt_lastTime := v\<rparr>"
  by (auto simp: router_now_def ask_def perform_def run_Inr)

lemma newRouter_inv:
  assumes "newRouter su g = Inr (opt, s)"
  shows "router_inv opt s" and "\<not> rt_closed s" and "rt_log s = [Clock]"
    and "ro_maxHandles opt = num_int (su_maxHandles su)" and "ro_maxBytes opt \<le> 16384"
    and "q_streams (rt_queue s) = [(control_id, fresh_stream ''reliable'' (su_maxRequests su))]"
proof -
  define lims where "lims = cfg_limits (su_config su)"
  define single where "single = min 16384 (lim_maxMessageBytes lims)"
  define opt0 where "opt0 = (\<lambda>table. \<lparr>ro_epoch = su_epoch su, ro_entries = table, ro_sessionId = [], ro_maxBytes = single,
                    ro_maxHandles = num_int (su_maxHandles su), ro_requestTtlMs = num_int (su_requestTtlMs su),
                    ro_maxControlRateHz = num_int (su_maxControlRateHz su), ro_hasVideo = (su_video su \<noteq> None), ro_oracle = su_oracle su\<rparr>)"
  define start where "start = (\<lambda>q. \<lparr>rt_subscriptions = [], rt_publishers = [], rt_queue = q,
                      rt_cache = newRequestCache (num_int (su_maxRequests su)) (num_int (su_requestTtlMs su)) (maxPeerQueueBytes lims),
                      rt_guard = g, rt_bound = [], rt_free = (case su_video su of None \<Rightarrow> [] | Some slots \<Rightarrow> slots),
                      rt_nextId = 0, rt_lastTime = NumI 0, rt_controlWindow = NumI 0, rt_controlCount = 0,
                      rt_welcomed = False, rt_closed = False, rt_log = []\<rparr>)"
  obtain ys table q0 where limits: "mapR positiveLimit [su_maxHandles su, su_maxRequests su, su_requestTtlMs su, su_maxControlRateHz su] = Inr ys"
    and table: "router_table (cfg_topics (su_config su)) (su_bindings su) [] = Inr table"
    and q0: "newDeliveryQueue (num_add (su_maxHandles su) (NumI 1)) (NumI (maxPeerQueueBytes lims)) (NumI single) = Inr q0"
    and rest: "(case register control_id ''reliable'' (su_maxRequests su) q0 of
       (Inl e, _) \<Rightarrow> Inl e
     | (Inr _, q) \<Rightarrow> (case seqE (router_now (opt0 table)) (onGuard (openSession (su_epoch su))) (start q) of
            (Inl e, _) \<Rightarrow> Inl e | (Inr sid, s) \<Rightarrow> Inr ((opt0 table)\<lparr>ro_sessionId := sid\<rparr>, s))) = Inr (opt, s)"
    using assms unfolding newRouter_def Let_def opt0_def start_def lims_def single_def by (simp only: bindR_eq_Inr) blast
  obtain u q where reg: "register control_id ''reliable'' (su_maxRequests su) q0 = (Inr u, q)"
    using rest by (auto split: prod.splits sum.splits)
  then obtain sid where ran: "seqE (router_now (opt0 table)) (onGuard (openSession (su_epoch su))) (start q) = (Inr sid, s)"
    and opt: "opt = (opt0 table)\<lparr>ro_sessionId := sid\<rparr>"
    using rest by (auto split: prod.splits sum.splits)
  then obtain v s1 where now: "router_now (opt0 table) (start q) = (Inr v, s1)" and "onGuard (openSession (su_epoch su)) s1 = (Inr sid, s)"
    by (auto simp: seqE_eq_Inr)
  then have s: "rt_subscriptions s = []" "rt_publishers s = []" "rt_queue s = q" "\<not> rt_closed s" "rt_log s = [Clock]"
      "rt_cache s = newRequestCache (num_int (su_maxRequests su)) (num_int (su_requestTtlMs su)) (maxPeerQueueBytes lims)"
    by (auto dest!: router_now_Inr simp: onGuard_def start_def split: prod.splits)
  have "queue_inv q0" and streams: "q_streams q0 = []" using q0 newDeliveryQueue_inv newDeliveryQueue_empty by blast+
  moreover have single: "maxMessageBytes (q_options q0) = single" and pos: "0 < single" "0 < maxPeerQueueBytes lims"
    using q0 by (auto simp: newDeliveryQueue_def)
  ultimately have "queue_kept opt q0" by (simp add: queue_kept_def opt opt0_def)
  note q = register_kept [OF this reg]
  have "0 < num_int (su_maxRequests su)" "0 < num_int (su_maxHandles su)" using limits by auto
  moreover have "table_wf opt" using router_table_wf [OF table] pos by (auto simp: table_wf_def opt opt0_def)
  ultimately show "router_inv opt s" using s q streams pos
    by (auto simp: router_inv_parts cache_kept_def newRequestCache_inv newRequestCache_def cache_inv_def opt opt0_def log_ok_from_def)
  show "\<not> rt_closed s" "rt_log s = [Clock]" by (rule s)+
  show "ro_maxHandles opt = num_int (su_maxHandles su)" "ro_maxBytes opt \<le> 16384" by (simp_all add: opt opt0_def single_def)
  show "q_streams (rt_queue s) = [(control_id, fresh_stream ''reliable'' (su_maxRequests su))]"
    using reg s(3) streams by (simp add: register_Inr del: identifier_Inr positiveLimit_Inr)
qed

section \<open>A session\<close>

text \<open>
  Whatever happens to a router: messages of the peer, samples and states from the outside, flushes,
  keyframe requests, closing; and other sessions using the shared guard.
\<close>

inductive router_step :: "routerOptions \<Rightarrow> router \<Rightarrow> router \<Rightarrow> bool" for opt :: routerOptions where
  received: "router_step opt s (snd (receive opt label raw s))"
| sampled: "router_step opt s (snd (router_sample opt sid native s))"
| flushed: "router_step opt s (snd (flush opt s))"
| closed: "router_step opt s (snd (router_close opt s))"
| reported: "router_step opt s (snd (viewer_state opt track st s))"
| keyframe: "router_step opt s (snd (slot_keyframe track s))"
| others: "router_step opt s (s\<lparr>rt_guard := g\<rparr>)"

inductive_simps router_step_simps: "router_step opt s t"

definition router_start :: "routerOptions \<Rightarrow> router \<Rightarrow> bool" where
  "router_start opt s \<longleftrightarrow> (\<exists>su g. newRouter su g = Inr (opt, s))"

lemma router_step_inv: "router_inv opt s \<Longrightarrow> router_step opt s t \<Longrightarrow> router_inv opt t"
  by (auto simp: router_step_simps intro!: inv_run keeps_receive keeps_sample keeps_flush keeps_close keeps_keyframe)

interpretation session: invariant_system "router_start opt" "router_step opt" "router_inv opt" for opt
proof unfold_locales
  show "router_start opt s \<Longrightarrow> router_inv opt s" for s by (auto simp: router_start_def newRouter_inv(1))
  show "router_inv opt s \<Longrightarrow> router_step opt s t \<Longrightarrow> router_inv opt t" for s t by (rule router_step_inv)
qed

section \<open>Properties\<close>

text \<open>
  C4: A session stays within its limits. In every state a router can reach, it holds at most
  \<open>maxHandles\<close> subscriptions and publishers, its queue has exactly the control stream and one stream per
  subscription (none once it is closed) and never exceeds its byte budget, and its request cache never
  exceeds its entries and bytes.
\<close>

theorem router_bounded:
  assumes "reachable (router_start opt) (router_step opt) s"
  shows "int (length (rt_subscriptions s) + length (rt_publishers s)) \<le> ro_maxHandles opt
    \<and> q_bytes (rt_queue s) = total_bytes (q_streams (rt_queue s)) \<and> q_bytes (rt_queue s) \<le> maxBytes (q_options (rt_queue s))
    \<and> set (keys (q_streams (rt_queue s))) = (if rt_closed s then {} else insert control_id (set (keys (rt_subscriptions s))))
    \<and> (rt_closed s \<longrightarrow> rt_subscriptions s = [] \<and> rt_publishers s = [])
    \<and> int (length (rc_entries (rt_cache s))) \<le> rc_maxEntries (rt_cache s) \<and> rc_bytes (rt_cache s) \<le> rc_maxBytes (rt_cache s)"
proof -
  have inv: "router_inv opt s" using assms by (rule session.reachable_inv)
  then have "queue_inv (rt_queue s)" "cache_inv (rt_cache s)" "streams_ok s" "handles_ok opt s"
    by (simp_all add: router_inv_def queue_kept_def cache_kept_def)
  then show ?thesis by (auto simp: queue_inv_def cache_inv_def streams_ok_def handles_ok_def simp del: set_map)
qed

text \<open>
  C3: Nothing leaves a session without consent. Wherever a reachable router's log has a command to
  ROS, the effect right before it is the environment's consent to publish on that topic, for a
  configured \<open>web_to_ros\<close> binding whose codec accepts the value; a message on a data channel follows the
  consent to subscribe to a \<open>ros_to_web\<close> topic of that channel with only sends of that channel in between;
  a viewer is attached only right after the consent to watch its track; and no message exceeds
  16384 bytes.
\<close>

theorem router_consent:
  assumes "reachable (router_start opt) (router_step opt) s" and "rt_log s = h @ e # rest"
  shows "case e of
      RosPublish name v \<Rightarrow>
        (\<exists>b h0 w. map_of (ro_entries opt) name = Some b \<and> b_direction (rb_binding b) = WebToRos
           \<and> h = h0 @ [Authorize (rb_binding b) OpPublish] \<and> on_authorize (ro_oracle opt) h = Inr True
           \<and> codec_encode (rb_codec b) v = Inr w)
    | Send ch bs \<Rightarrow>
        0 < length bs \<and> int (length bs) \<le> ro_maxBytes opt \<and> length bs \<le> 16384
        \<and> (ch = ControlChannel
           \<or> (\<exists>b h0 sends. map_of (ro_entries opt) (publicName (rb_binding b)) = Some b
                \<and> b_direction (rb_binding b) = RosToWeb \<and> ch = dataChannel (b_delivery (rb_binding b))
                \<and> h = h0 @ Authorize (rb_binding b) OpSubscribe # sends \<and> list_all (is_send ch) sends
                \<and> on_authorize (ro_oracle opt) (h0 @ [Authorize (rb_binding b) OpSubscribe]) = Inr True))
    | VideoAttach track \<Rightarrow>
        (\<exists>h0 mid. h = h0 @ VideoAuthorize track # mid \<and> mid \<in> {[], [VideoProfile track]}
           \<and> on_videoAuthorize (ro_oracle opt) (h0 @ [VideoAuthorize track]) = Inr True)
    | _ \<Rightarrow> True"
proof -
  have "router_inv opt s" using assms(1) by (rule session.reachable_inv)
  then have "log_justified opt (rt_log s)" by (simp add: router_inv_def)
  then have ok: "effect_ok opt h e" using assms(2) unfolding log_ok_from_def
    by (auto dest: spec [of _ "length h"])
  have max: "ro_maxBytes opt \<le> 16384"
    using assms(1) by (induction rule: reachable.induct) (auto simp: router_start_def newRouter_inv(5))
  show ?thesis
  proof (cases e)
    case (RosPublish name v)
    then obtain b where b: "consented opt b OpPublish h" "name = publicName (rb_binding b)" "\<exists>w. codec_encode (rb_codec b) v = Inr w"
      using ok by auto
    then have "h = butlast h @ [Authorize (rb_binding b) OpPublish]" unfolding consented_def by (metis append_butlast_last_id)
    then show ?thesis using b RosPublish unfolding consented_def by auto
  next
    case (Send ch bs)
    show ?thesis
    proof (cases "ch = ControlChannel")
      case False
      then obtain b h0 sends where b: "h = h0 @ sends" "list_all (is_send ch) sends" "consented opt b OpSubscribe h0"
        "ch = dataChannel (b_delivery (rb_binding b))" using ok Send by (auto simp: send_allowed_def)
      then obtain h1 where "h0 = h1 @ [Authorize (rb_binding b) OpSubscribe]" unfolding consented_def by (metis append_butlast_last_id)
      then have "\<exists>b h0 sends. map_of (ro_entries opt) (publicName (rb_binding b)) = Some b
                \<and> b_direction (rb_binding b) = RosToWeb \<and> ch = dataChannel (b_delivery (rb_binding b))
                \<and> h = h0 @ Authorize (rb_binding b) OpSubscribe # sends \<and> list_all (is_send ch) sends
                \<and> on_authorize (ro_oracle opt) (h0 @ [Authorize (rb_binding b) OpSubscribe]) = Inr True"
        using b unfolding consented_def by (intro exI [of _ b] exI [of _ h1] exI [of _ sends]) simp
      then show ?thesis using ok Send max by simp
    qed (use ok Send max in auto)
  qed (use ok in auto)
qed


section \<open>A concrete session\<close>

text \<open>One topic of booleans from the browser to ROS, and an environment that grants everything.\<close>

definition stop_binding :: routerBinding where
  "stop_binding =
     \<lparr>rb_binding = \<lparr>publicName = ustr ''/stop'', rosTopic = ustr ''/stop'', rosType = ustr ''std_msgs/msg/Bool'', b_direction = WebToRos,
        b_qos = \<lparr>q_reliability = QReliable, q_durability = QVolatile, q_depth = 1\<rparr>, b_delivery = DReliable, maxRateHz = NumI 1,
        b_policy = PLatest, b_maxMessages = 1, b_access = None, b_commandGuard = None\<rparr>,
      rb_codec = \<lparr>cd_options = \<lparr>maxDepth = 2, maxArrayLength = 1, maxStringBytes = 1, maxByteLength = 1, maxNodes = 2, allowNonFinite = False\<rparr>,
        cd_schema = FBoolean\<rparr>,
      rb_schemaId = ustr ''b''\<rparr>"

definition granting :: answers where
  "granting =
     \<lparr>on_clock = (\<lambda>_. NumI 0), on_send = (\<lambda>_. Inr True), on_authorize = (\<lambda>_. Inr True), on_subscribe = (\<lambda>_. Inr ()),
      on_unsubscribe = (\<lambda>_. Inr ()), on_publish = (\<lambda>_. Inr ()), on_videoCatalog = (\<lambda>_. []), on_videoAuthorize = (\<lambda>_. Inr True),
      on_videoProfile = (\<lambda>_. NumI 66), on_videoAttach = (\<lambda>_. ([], Inr ())), on_guard = (\<lambda>_ _. retE (Bool True))\<rparr>"

definition small_setup :: routerSetup where
  "small_setup =
     \<lparr>su_config = \<lparr>robotId = ustr ''r'', cfg_limits = \<lparr>maxPeers = 1, lim_maxMessageBytes = 256, maxPeerQueueBytes = 1024, maxChannelBufferedBytes = 1024\<rparr>,
        cfg_topics = [rb_binding stop_binding]\<rparr>,
      su_bindings = [stop_binding], su_epoch = ustr ''e'', su_maxHandles = NumI 1, su_maxRequests = NumI 2, su_requestTtlMs = NumI 10,
      su_maxControlRateHz = NumI 5, su_video = None, su_oracle = granting\<rparr>"

definition small_guard :: guard where
  "small_guard = \<lparr>g_maxSessions = 1, g_maxHandles = 1, g_leaseMs = 10, g_prefix = ustr ''g'', g_nextId = 0, g_lastTime = NumI 0,
     g_sessions = [], g_handles = [], g_closed = False, g_tickets = [], g_trace = []\<rparr>"


definition small_opt :: routerOptions where
  "small_opt =
     \<lparr>ro_epoch = ustr ''e'', ro_entries = [(ustr ''/stop'', stop_binding)], ro_sessionId = ustr ''g:1'', ro_maxBytes = 256, ro_maxHandles = 1,
      ro_requestTtlMs = 10, ro_maxControlRateHz = 5, ro_hasVideo = False, ro_oracle = granting\<rparr>"

definition small_state :: router where
  "small_state =
     \<lparr>rt_subscriptions = [], rt_publishers = [],
      rt_queue = \<lparr>q_options = \<lparr>maxStreams = 2, maxBytes = 1024, maxMessageBytes = 256\<rparr>,
        q_streams = [(control_id, fresh_stream ''reliable'' (NumI 2))], q_bytes = 0, q_dropped = 0\<rparr>,
      rt_cache = newRequestCache 2 10 1024, rt_guard = small_guard\<lparr>g_nextId := 1, g_sessions := [(ustr ''g:1'', ustr ''e'')]\<rparr>,
      rt_bound = [], rt_free = [], rt_nextId = 0, rt_lastTime = NumI 0, rt_controlWindow = NumI 0, rt_controlCount = 0,
      rt_welcomed = False, rt_closed = False, rt_log = [Clock]\<rparr>"

lemma small_identifiers:
  "identifier_v (Str (ustr ''e'')) = Inr ()" "identifier_v (Str (ustr ''b'')) = Inr ()" "identifier_v (Str (ustr ''/stop'')) = Inr ()"
  "identifier_v (Str (ustr ''g:1'')) = Inr ()" "identifier_v (Str control_id) = Inr ()"
  unfolding control_id_def by code_simp+

lemma positive_int: "0 < i \<Longrightarrow> i \<le> MAX_SAFE_INTEGER \<Longrightarrow> positiveLimit (Num (of_int i)) = Inr ()"
  by simp

lemmas small_limits = positive_int [of 1, simplified] positive_int [of 2, simplified] positive_int [of 5, simplified]
  positive_int [of 10, simplified] positive_int [of 256, simplified] positive_int [of 1024, simplified]

lemma small_clock: "\<not> num_less (num_sub (NumI MAX_SAFE_INTEGER) (NumI 10)) (NumI 0)"
  using to_double_int [of 9007199254740981] by (simp add: num_sub_def MAX_SAFE_INTEGER_def)

lemma small_now:
  "ro_oracle opt = granting \<Longrightarrow> ro_requestTtlMs opt = 10 \<Longrightarrow> rt_lastTime s = Num 0 \<Longrightarrow>
     router_now opt s = (Inr (Num 0), s\<lparr>rt_log := rt_log s @ [Clock], rt_lastTime := Num 0\<rparr>)"
  using small_clock
  by (simp add: router_now_def ask_def perform_def bindE_run seqE_run prog_run throwIf_run granting_def)

lemma small_open:
  "onGuard (openSession (ustr ''e'')) s = (Inr (ustr ''g:1''),
     s\<lparr>rt_guard := small_guard\<lparr>g_nextId := 1, g_sessions := [(ustr ''g:1'', ustr ''e'')]\<rparr>\<rparr>)"
  if "rt_guard s = small_guard"
proof -
  have "id_text (ustr ''g'') (Suc 0) = ustr ''g:1''" by code_simp
  then show ?thesis using that
    by (simp add: small_identifiers onGuard_def openSession_def assertOpen_def guard_id_def seqE_run bindE_run prog_run throwIf_run small_guard_def
        del: identifier_v.simps)
qed

lemma small_start: "newRouter small_setup small_guard = Inr (small_opt, small_state)"
proof -
  have table: "router_table [rb_binding stop_binding] [stop_binding] [] = Inr [(ustr ''/stop'', stop_binding)]"
    using small_identifiers(2) by (simp add: stop_binding_def failIf_def del: identifier_v.simps)
  have two: "num_add (NumI 1) (NumI 1) = NumI 2" using num_add_int [of 1 1] by (simp add: MAX_SAFE_INTEGER_def)
  have queue: "newDeliveryQueue (NumI 2) (NumI 1024) (NumI 256) =
      Inr \<lparr>q_options = \<lparr>maxStreams = 2, maxBytes = 1024, maxMessageBytes = 256\<rparr>, q_streams = [], q_bytes = 0, q_dropped = 0\<rparr>"
    using small_limits by (simp add: newDeliveryQueue_def failIf_def MAX_SAFE_INTEGER_def)
  have reg: "register control_id ''reliable'' (NumI 2) \<lparr>q_options = \<lparr>maxStreams = 2, maxBytes = 1024, maxMessageBytes = 256\<rparr>, q_streams = [], q_bytes = 0, q_dropped = 0\<rparr>
      = (Inr (), rt_queue small_state)"
    using small_identifiers(5) by (simp add: register_Inr small_state_def MAX_SAFE_INTEGER_def del: identifier_Inr)
  show ?thesis
    using table two queue reg small_limits small_identifiers(1) small_now small_open
    by (simp add: newRouter_def small_setup_def seqE_run del: identifier_v.simps) (simp add: small_opt_def small_state_def MAX_SAFE_INTEGER_def)
qed


lemma small_reachable: "reachable (router_start small_opt) (router_step small_opt) small_state"
  by (rule reach_start) (use small_start in \<open>auto simp: router_start_def\<close>)

text \<open>The session after the transport closed it.\<close>

definition small_closed :: router where
  "small_closed = snd (router_close small_opt small_state)"

lemma small_closed_reachable: "reachable (router_start small_opt) (router_step small_opt) small_closed"
  unfolding small_closed_def by (rule reach_step [OF small_reachable]) (rule router_step.closed)

lemma small_closed_log: "rt_log small_closed = [Clock, OnClosed]" and small_closed_closed: "rt_closed small_closed"
  by (simp_all add: small_closed_def router_close_def video_close_def unsubscribe_all_def onGuard_def onQueue_def onCache_def
      revokeSession_def clear_queue_def cache_clear_def perform_def bindE_run seqE_run prog_run throwIf_run small_state_def)

definition quoted :: "string \<Rightarrow> string" where
  "quoted s = CHR 0x22 # s @ [CHR 0x22]"

lemmas wire_text_simps = text_simps quoted_def mk_wire_def

text \<open>The envelopes of a peer that advertises the topic and publishes once.\<close>

definition hello_wire :: jsval where
  "hello_wire = mk_wire ''hello'' []"

definition advertise_wire :: jsval where
  "advertise_wire = mk_wire ''advertise'' [(''id'', Str (ustr ''1'')), (''topic'', Str (ustr ''/stop''))]"

definition publish_wire :: jsval where
  "publish_wire = mk_wire ''publish'' [(''handle'', Str (ustr ''g:1:1'')), (''epoch'', Str (ustr ''e'')), (''seq'', Str (ustr ''0'')), (''data'', Bool True)]"

definition raw_of :: "jsval \<Rightarrow> bytes" where
  "raw_of w = utf8_encode (json_text w)"

lemma parse_raw:
  assumes "plain_json (mk_wire op kvs)" and "json_text (mk_wire op kvs) = ustr t" and "list_all (\<lambda>c. (of_char c :: nat) < 128) t" and "int (length t) \<le> n"
  shows "parseWire (raw_of (mk_wire op kvs)) n = Inr (mk_wire op kvs)"
proof -
  have "encodeWire (mk_wire op kvs) n = Inr (ascii t)" using encode_ascii [OF assms] .
  moreover have "raw_of (mk_wire op kvs) = ascii t" using assms by (simp add: raw_of_def utf8_ascii)
  moreover have "get_prop (mk_wire op kvs) (ustr ''v'') = Number (NumI 1)" "is_text (get_prop (mk_wire op kvs) (ustr ''op''))" "Router_Protocol.is_object (mk_wire op kvs)"
    by (simp_all add: mk_wire_def)
  ultimately show ?thesis using wire_parses [OF assms(1)] assms(4) by simp
qed

lemma hello_parsed: "parseWire (raw_of hello_wire) 256 = Inr hello_wire"
proof -
  have "json_text hello_wire = ustr (''{'' @ quoted ''v'' @ '':1,'' @ quoted ''op'' @ '':'' @ quoted ''hello'' @ ''}'')"
    by (simp add: hello_wire_def wire_text_simps flip: ustr_append)
  then show ?thesis unfolding hello_wire_def by (rule parse_raw [rotated]) (simp_all add: wire_text_simps)
qed

definition control_label :: ustring where
  "control_label = ustr ''ros.control.v1''"

definition reliable_label :: ustring where
  "reliable_label = ustr ''ros.reliable.v1''"

lemma labels: "isChannel control_label = Some ControlChannel" "isChannel reliable_label = Some ReliableChannel"
  by (simp_all add: isChannel_def control_label_def reliable_label_def)

lemma small_limits_opt [simp]:
  "ro_maxBytes small_opt = 256" "ro_oracle small_opt = granting" "ro_requestTtlMs small_opt = 10" "ro_maxControlRateHz small_opt = 5"
  "ro_epoch small_opt = ustr ''e''" "ro_sessionId small_opt = ustr ''g:1''" "ro_maxHandles small_opt = 1" "\<not> ro_hasVideo small_opt"
  "ro_entries small_opt = [(ustr ''/stop'', stop_binding)]"
  by (simp_all add: small_opt_def)

lemma granted [simp]:
  "on_send granting h = Inr True" "on_authorize granting h = Inr True" "on_publish granting h = Inr ()" "on_clock granting h = Num 0"
  by (simp_all add: granting_def)

text \<open>The control queue of a peer without subscriptions: empty, or holding one message.\<close>

definition idle_queue :: queue where
  "idle_queue = rt_queue small_state"

definition holding :: "bytes \<Rightarrow> queue" where
  "holding m = idle_queue\<lparr>q_streams := [(control_id, (fresh_stream ''reliable'' (NumI 2))\<lparr>s_messages := [m]\<rparr>)], q_bytes := int (length m)\<rparr>"

lemmas queue_defs = holding_def idle_queue_def small_state_def fresh_stream_def

lemma enqueue_idle:
  "rt_queue s = idle_queue \<Longrightarrow> m \<noteq> [] \<Longrightarrow> length m \<le> 256 \<Longrightarrow> onQueue (enqueue control_id m) s = (Inr True, s\<lparr>rt_queue := holding m\<rparr>)"
  by (simp add: onQueue_def enqueue_def stream_of_run set_stream_def add_bytes_def bindE_run seqE_run prog_run throwIf_run queue_defs)

lemma flush_holding:
  assumes "rt_queue s = holding m" and "\<not> rt_closed s" and "rt_subscriptions s = []" and "rt_bound s = []"
  shows "flush small_opt s = (Inr (), s\<lparr>rt_queue := idle_queue, rt_log := rt_log s @ [Send ControlChannel m]\<rparr>)"
proof -
  have peeked: "peek control_id (holding m) = (Inr (Some m), holding m)" by (simp add: peek_run queue_defs)
  have taken: "dequeue control_id (holding m) = (Inr (Some m), idle_queue)"
    by (subst dequeue_run [where s = "(fresh_stream ''reliable'' (NumI 2))\<lparr>s_messages := [m]\<rparr>"]) (simp_all add: queue_defs)
  have empty: "peek control_id idle_queue = (Inr None, idle_queue)" by (simp add: peek_run queue_defs)
  have "pending_messages control_id s = 1" using assms(1) by (simp add: pending_messages_def queue_defs)
  then have "drain small_opt control_id ControlChannel s = (Inr True, s\<lparr>rt_queue := idle_queue, rt_log := rt_log s @ [Send ControlChannel m]\<rparr>)"
    using assms peeked taken empty
    by (simp add: drain_def numeral_2_eq_2 onQueue_def demand_def ask_def perform_def bindE_run seqE_run prog_run)
  then show ?thesis using assms
    by (simp add: flush_def flush_measure_def flush_with_def revalidate_with_def bindE_run seqE_run prog_run)
qed

lemma control_rate_ok:
  "rt_lastTime s = Num 0 \<Longrightarrow> rt_controlWindow s = Num 0 \<Longrightarrow> rt_controlCount s < 5 \<Longrightarrow>
     controlRate small_opt s = (Inr (), s\<lparr>rt_lastTime := Num 0, rt_log := rt_log s @ [Clock], rt_controlCount := rt_controlCount s + 1\<rparr>)"
  using to_double_int [of 0]
  by (simp add: controlRate_def bindE_run seqE_run prog_run throwIf_run small_now Let_def)

lemma allowed_granted:
  "b_direction (rb_binding e) = wanted_direction op \<Longrightarrow>
     router_allowed small_opt e op s = (Inr True, s\<lparr>rt_log := rt_log s @ [Authorize (rb_binding e) op]\<rparr>)"
  by (simp add: router_allowed_def demand_def ask_def perform_def bindE_run seqE_run prog_run)

lemma entry_stop:
  "\<not> rt_closed s \<Longrightarrow> router_entry small_opt (ustr ''/stop'') OpPublish s =
     (Inr stop_binding, s\<lparr>rt_log := rt_log s @ [Authorize (rb_binding stop_binding) OpPublish]\<rparr>)"
  using allowed_granted [of stop_binding OpPublish]
  by (simp add: router_entry_def bindE_run seqE_run prog_run throwIf_run stop_binding_def)

text \<open>The welcome the peer gets.\<close>

definition welcome_bytes :: bytes where
  "welcome_bytes = raw_of (mk_wire ''welcome'' [(''epoch'', Str (ustr ''e'')), (''catalog'', mk_arr [catalog_entry stop_binding])])"

lemma encode_raw:
  assumes "plain_json w" and "json_text w = ustr t" and "list_all (\<lambda>c. (of_char c :: nat) < 128) t" and "t \<noteq> []" and "length t \<le> 256"
  shows "encodeWire w 256 = Inr (raw_of w)" and "raw_of w \<noteq> []" and "length (raw_of w) \<le> 256"
proof -
  have raw: "raw_of w = ascii t" using assms(2,3) by (simp add: raw_of_def utf8_ascii)
  show "encodeWire w 256 = Inr (raw_of w)" using encode_ascii [OF assms(1-3), of 256] assms(5) raw by simp
  show "raw_of w \<noteq> []" "length (raw_of w) \<le> 256" using raw assms(4,5) by (auto simp: ascii_def)
qed

definition welcome_wire :: jsval where
  "welcome_wire = mk_wire ''welcome'' [(''epoch'', Str (ustr ''e'')), (''catalog'', mk_arr [catalog_entry stop_binding])]"

lemma welcome_encoded: "encodeWire welcome_wire 256 = Inr (raw_of welcome_wire)" "raw_of welcome_wire \<noteq> []" "length (raw_of welcome_wire) \<le> 256"
proof -
  have plain: "plain_json welcome_wire" by (simp add: welcome_wire_def wire_text_simps catalog_entry_def stop_binding_def)
  have eq: "json_text welcome_wire = ustr (''{'' @ quoted ''v'' @ '':1,'' @ quoted ''op'' @ '':'' @ quoted ''welcome'' @ '','' @ quoted ''epoch'' @ '':'' @ quoted ''e''
      @ '','' @ quoted ''catalog'' @ '':[{'' @ quoted ''topic'' @ '':'' @ quoted ''/stop'' @ '','' @ quoted ''ros_type'' @ '':'' @ quoted ''std_msgs/msg/Bool''
      @ '','' @ quoted ''direction'' @ '':'' @ quoted ''web_to_ros'' @ '','' @ quoted ''delivery'' @ '':'' @ quoted ''reliable''
      @ '','' @ quoted ''schema_id'' @ '':'' @ quoted ''b'' @ ''}]}'')"
    by (simp add: welcome_wire_def wire_text_simps catalog_entry_def stop_binding_def flip: ustr_append)
  show "encodeWire welcome_wire 256 = Inr (raw_of welcome_wire)" "raw_of welcome_wire \<noteq> []" "length (raw_of welcome_wire) \<le> 256"
    by (rule encode_raw [OF plain eq]; simp add: quoted_def)+
qed

text \<open>After the greeting.\<close>

definition welcomed_state :: router where
  "welcomed_state = small_state\<lparr>rt_controlCount := 1, rt_welcomed := True,
     rt_log := [Clock, Clock, Authorize (rb_binding stop_binding) OpPublish, Send ControlChannel (raw_of welcome_wire)]\<rparr>"

lemma hello_run: "receive small_opt control_label (raw_of hello_wire) small_state = (Inr (), welcomed_state)"
proof -
  define s1 where "s1 = small_state\<lparr>rt_log := [Clock, Clock], rt_controlCount := 1\<rparr>"
  have rate: "controlRate small_opt small_state = (Inr (), s1)" by (subst control_rate_ok) (simp_all add: small_state_def s1_def)
  have no_id: "get_prop hello_wire (ustr ''id'') = Undefined" and op: "get_prop hello_wire (ustr ''op'') = Str (ustr ''hello'')"
    and fields: "wire_fields hello_wire [] = Inr ()"
    by (simp_all add: hello_wire_def mk_wire_def wire_fields_def)
  have head: "receive_head small_opt control_label (raw_of hello_wire) small_state = (Inr (ControlChannel, hello_wire, None), s1)"
    using rate hello_parsed no_id by (simp add: receive_head_def labels bindE_run seqE_run prog_run del: get_prop.simps)
  define s2 where "s2 = s1\<lparr>rt_log := rt_log s1 @ [Authorize (rb_binding stop_binding) OpPublish]\<rparr>"
  have catalog: "router_catalog small_opt s1 = (Inr [catalog_entry stop_binding], s2)"
    using allowed_granted [of stop_binding OpPublish s1] by (simp add: router_catalog_def bindE_run prog_run s2_def stop_binding_def)
  have parts: "\<not> rt_welcomed s1" "\<not> rt_closed s2" "rt_queue s2 = idle_queue" "\<not> rt_closed small_state" "rt_subscriptions s2 = []" "rt_bound s2 = []"
    by (simp_all add: s1_def s2_def small_state_def idle_queue_def)
  have "router_control small_opt hello_wire None s1 = (Inr (), s2\<lparr>rt_queue := holding (raw_of welcome_wire), rt_welcomed := True\<rparr>)"
    using catalog op fields welcome_encoded enqueue_idle [of s2 "raw_of welcome_wire"] parts
    by (simp add: router_control_def router_hello_def respond_def bindE_run seqE_run prog_run throwIf_run welcome_wire_def del: get_prop.simps)
  then show ?thesis using head parts
    by (simp add: receive_def tryE_def bindE_run seqE_run catchE_run prog_run flush_holding)
       (simp add: welcomed_state_def s2_def s1_def small_state_def idle_queue_def)
qed


lemma advertise_text:
  "plain_json advertise_wire" "json_text advertise_wire = ustr (''{'' @ quoted ''v'' @ '':1,'' @ quoted ''op'' @ '':'' @ quoted ''advertise'' @ '','' @ quoted ''id'' @ '':'' @ quoted ''1''
      @ '','' @ quoted ''topic'' @ '':'' @ quoted ''/stop'' @ ''}'')"
  by (simp_all add: advertise_wire_def wire_text_simps flip: ustr_append)

lemma advertise_parsed: "parseWire (raw_of advertise_wire) 256 = Inr advertise_wire"
  using advertise_text unfolding advertise_wire_def by (rule parse_raw) (simp_all add: quoted_def)

lemma advertise_fields:
  "get_prop advertise_wire (ustr ''id'') = Str (ustr ''1'')" "get_prop advertise_wire (ustr ''op'') = Str (ustr ''advertise'')"
  "wire_fields advertise_wire [''id'', ''topic''] = Inr ()" "get_prop advertise_wire (ustr ''topic'') = Str (ustr ''/stop'')"
  by (simp_all add: advertise_wire_def mk_wire_def wire_fields_def)

lemma identifiers: "identifier_v (Str (ustr ''1'')) = Inr ()" "identifier_v (Str (ustr ''g:1:1'')) = Inr ()" "identifier_v (Str (ustr ''0'')) = Inr ()"
  by code_simp+

lemma advertise_texts: "textField advertise_wire ''id'' = Inr (ustr ''1'')" "textField advertise_wire ''topic'' = Inr (ustr ''/stop'')"
  by (simp_all add: textField_def Let_def advertise_fields identifiers small_identifiers del: get_prop.simps identifier_v.simps)

definition advertised_wire :: jsval where
  "advertised_wire = mk_wire ''advertised'' [(''id'', Str (ustr ''1'')), (''handle'', Str (ustr ''g:1:1'')), (''epoch'', Str (ustr ''e'')), (''schema_id'', Str (ustr ''b''))]"

lemma advertised_encoded: "encodeWire advertised_wire 256 = Inr (raw_of advertised_wire)" "raw_of advertised_wire \<noteq> []" "length (raw_of advertised_wire) \<le> 256"
proof -
  have plain: "plain_json advertised_wire" by (simp add: advertised_wire_def wire_text_simps)
  have eq: "json_text advertised_wire = ustr (''{'' @ quoted ''v'' @ '':1,'' @ quoted ''op'' @ '':'' @ quoted ''advertised'' @ '','' @ quoted ''id'' @ '':'' @ quoted ''1''
      @ '','' @ quoted ''handle'' @ '':'' @ quoted ''g:1:1'' @ '','' @ quoted ''epoch'' @ '':'' @ quoted ''e'' @ '','' @ quoted ''schema_id'' @ '':'' @ quoted ''b'' @ ''}'')"
    by (simp add: advertised_wire_def wire_text_simps flip: ustr_append)
  show "encodeWire advertised_wire 256 = Inr (raw_of advertised_wire)" "raw_of advertised_wire \<noteq> []" "length (raw_of advertised_wire) \<le> 256"
    by (rule encode_raw [OF plain eq]; simp add: quoted_def)+
qed

definition stop_publisher :: publisher where
  "stop_publisher = \<lparr>pub_entry = stop_binding, pub_guarded = False, pub_seq = - 1, pub_nextAt = NumI 0\<rparr>"

lemma advertise_operation:
  assumes "\<not> rt_closed s" and "rt_subscriptions s = []" and "rt_publishers s = []" and "rt_nextId s = 0"
  shows "router_operation small_opt advertise_wire (ustr ''1'') s =
    (Inr advertised_wire, s\<lparr>rt_log := rt_log s @ [Authorize (rb_binding stop_binding) OpPublish], rt_nextId := 1,
       rt_publishers := [(ustr ''g:1:1'', stop_publisher)]\<rparr>)"
proof -
  have one: "ustr ''g:1'' @ ustr '':'' @ ustr (show_nat (Suc 0)) = ustr ''g:1:1''" by code_simp
  show ?thesis
    using assms one entry_stop [of s]
    by (simp add: router_operation_def router_advertise_def router_id_def Let_def advertise_fields advertise_texts bindE_run seqE_run prog_run throwIf_run
        stop_binding_def [symmetric] del: get_prop.simps)
       (simp add: advertised_wire_def stop_publisher_def stop_binding_def)
qed


text \<open>After the topic has been advertised.\<close>

definition stored_cache :: cache where
  "stored_cache = snd (cache_store (ustr ''1'') (json_text advertise_wire) (raw_of advertised_wire) (Num 0) (newRequestCache 2 10 1024))"

definition advertised_state :: router where
  "advertised_state = welcomed_state\<lparr>rt_controlCount := 2, rt_nextId := 1, rt_publishers := [(ustr ''g:1:1'', stop_publisher)], rt_cache := stored_cache,
     rt_log := rt_log welcomed_state @ [Clock, Clock, Authorize (rb_binding stop_binding) OpPublish, Send ControlChannel (raw_of advertised_wire)]\<rparr>"

lemma advertise_request:
  assumes "\<not> rt_closed s" and "rt_subscriptions s = []" and "rt_publishers s = []" and "rt_nextId s = 0" and "rt_lastTime s = Num 0"
    and "rt_cache s = newRequestCache 2 10 1024" and "rt_queue s = idle_queue"
  shows "router_request small_opt advertise_wire (ustr ''1'') s =
    (Inr (), s\<lparr>rt_lastTime := Num 0, rt_log := rt_log s @ [Clock, Authorize (rb_binding stop_binding) OpPublish], rt_nextId := 1,
       rt_publishers := [(ustr ''g:1:1'', stop_publisher)], rt_cache := stored_cache, rt_queue := holding (raw_of advertised_wire)\<rparr>)"
proof -
  define s1 where "s1 = s\<lparr>rt_log := rt_log s @ [Clock], rt_lastTime := Num 0\<rparr>"
  have now: "router_now small_opt s = (Inr (Num 0), s1)" using small_now assms(5) by (simp add: s1_def)
  have input: "stringify advertise_wire = Inr (Some (json_text advertise_wire))" by (rule stringify_plain) (rule advertise_text)
  have len: "length (json_text advertise_wire) = 49" using advertise_text by (simp add: quoted_def)
  have miss: "onCache (cache_lookup (ustr ''1'') (json_text advertise_wire) (Num 0)) s1 = (Inr None, s1)"
    using assms(6) by (simp add: onCache_def cache_lookup_run purge_def newRequestCache_def s1_def)
  have room: "onCache (cache_reserve (256 + int (length (json_text advertise_wire)) * 2)) s1 = (Inr (), s1)"
    using assms(6) by (simp add: onCache_def cache_reserve_def bindE_run prog_run throwIf_run newRequestCache_def len s1_def)
  define s2 where "s2 = s1\<lparr>rt_log := rt_log s1 @ [Authorize (rb_binding stop_binding) OpPublish], rt_nextId := 1, rt_publishers := [(ustr ''g:1:1'', stop_publisher)]\<rparr>"
  have ran: "router_operation small_opt advertise_wire (ustr ''1'') s1 = (Inr advertised_wire, s2)"
    using advertise_operation [of s1] assms by (simp add: s1_def s2_def)
  have store: "onCache (cache_store (ustr ''1'') (json_text advertise_wire) (raw_of advertised_wire) (Num 0)) s2 = (Inr (), s2\<lparr>rt_cache := stored_cache\<rparr>)"
    using assms(6) by (simp add: onCache_def stored_cache_def cache_store_def seqE_run prog_run s1_def s2_def)
  have queued: "onQueue (enqueue control_id (raw_of advertised_wire)) (s2\<lparr>rt_cache := stored_cache\<rparr>) = (Inr True, s2\<lparr>rt_cache := stored_cache, rt_queue := holding (raw_of advertised_wire)\<rparr>)"
    using enqueue_idle [of "s2\<lparr>rt_cache := stored_cache\<rparr>" "raw_of advertised_wire"] advertised_encoded assms(7) by (simp add: s1_def s2_def)
  show ?thesis
    using now input miss room ran store queued advertised_encoded
    by (simp add: router_request_def bindE_run seqE_run prog_run Let_def) (simp add: s1_def s2_def)
qed

lemma advertise_run: "receive small_opt control_label (raw_of advertise_wire) welcomed_state = (Inr (), advertised_state)"
proof -
  define s1 where "s1 = welcomed_state\<lparr>rt_log := rt_log welcomed_state @ [Clock], rt_controlCount := 2\<rparr>"
  have rate: "controlRate small_opt welcomed_state = (Inr (), s1)"
    by (subst control_rate_ok) (simp_all add: welcomed_state_def small_state_def s1_def)
  have head: "receive_head small_opt control_label (raw_of advertise_wire) welcomed_state = (Inr (ControlChannel, advertise_wire, Some (ustr ''1'')), s1)"
    using rate advertise_parsed by (simp add: receive_head_def labels bindE_run seqE_run prog_run advertise_fields advertise_texts del: get_prop.simps)
  have parts: "\<not> rt_closed s1" "rt_subscriptions s1 = []" "rt_publishers s1 = []" "rt_nextId s1 = 0" "rt_lastTime s1 = Num 0"
    "rt_cache s1 = newRequestCache 2 10 1024" "rt_queue s1 = idle_queue" "rt_welcomed s1" "rt_bound s1 = []" "\<not> rt_closed welcomed_state"
    by (simp_all add: s1_def welcomed_state_def small_state_def idle_queue_def)
  have "router_control small_opt advertise_wire (Some (ustr ''1'')) s1 = router_request small_opt advertise_wire (ustr ''1'') s1"
    using parts by (simp add: router_control_def Let_def advertise_fields bindE_run seqE_run prog_run throwIf_run del: get_prop.simps)
  then show ?thesis using head parts advertise_request [OF parts(1-7)]
    by (simp add: receive_def tryE_def bindE_run seqE_run catchE_run prog_run flush_holding)
       (simp add: advertised_state_def s1_def welcomed_state_def small_state_def idle_queue_def)
qed


lemma publish_text:
  "plain_json publish_wire" "json_text publish_wire = ustr (''{'' @ quoted ''v'' @ '':1,'' @ quoted ''op'' @ '':'' @ quoted ''publish'' @ '','' @ quoted ''handle'' @ '':'' @ quoted ''g:1:1''
      @ '','' @ quoted ''epoch'' @ '':'' @ quoted ''e'' @ '','' @ quoted ''seq'' @ '':'' @ quoted ''0'' @ '','' @ quoted ''data'' @ '':true}'')"
  by (simp_all add: publish_wire_def wire_text_simps flip: ustr_append)

lemma publish_parsed: "parseWire (raw_of publish_wire) 256 = Inr publish_wire"
  using publish_text unfolding publish_wire_def by (rule parse_raw) (simp_all add: quoted_def)

lemma publish_fields:
  "get_prop publish_wire (ustr ''id'') = Undefined" "get_prop publish_wire (ustr ''op'') = Str (ustr ''publish'')"
  "get_prop publish_wire (ustr ''epoch'') = Str (ustr ''e'')" "get_prop publish_wire (ustr ''data'') = Bool True" "get_prop publish_wire (ustr ''lease_id'') = Undefined"
  "get_prop publish_wire (ustr ''handle'') = Str (ustr ''g:1:1'')" "get_prop publish_wire (ustr ''seq'') = Str (ustr ''0'')"
  "wire_fields publish_wire [''id'', ''handle'', ''epoch'', ''seq'', ''lease_id'', ''data''] = Inr ()"
  by (simp_all add: publish_wire_def mk_wire_def wire_fields_def)

lemma publish_texts: "textField publish_wire ''handle'' = Inr (ustr ''g:1:1'')" "textField publish_wire ''seq'' = Inr (ustr ''0'')"
  by (simp_all add: textField_def Let_def publish_fields identifiers del: get_prop.simps identifier_v.simps)

definition published_wire :: jsval where
  "published_wire = mk_wire ''published_to_ros'' [(''handle'', Str (ustr ''g:1:1'')), (''seq'', Str (ustr ''0''))]"

lemma published_encoded: "encodeWire published_wire 256 = Inr (raw_of published_wire)" "raw_of published_wire \<noteq> []" "length (raw_of published_wire) \<le> 256"
proof -
  have plain: "plain_json published_wire" by (simp add: published_wire_def wire_text_simps)
  have eq: "json_text published_wire = ustr (''{'' @ quoted ''v'' @ '':1,'' @ quoted ''op'' @ '':'' @ quoted ''published_to_ros'' @ '','' @ quoted ''handle'' @ '':'' @ quoted ''g:1:1''
      @ '','' @ quoted ''seq'' @ '':'' @ quoted ''0'' @ ''}'')"
    by (simp add: published_wire_def wire_text_simps flip: ustr_append)
  show "encodeWire published_wire 256 = Inr (raw_of published_wire)" "raw_of published_wire \<noteq> []" "length (raw_of published_wire) \<le> 256"
    by (rule encode_raw [OF plain eq]; simp add: quoted_def)+
qed

lemma publish_values:
  "sequence (Str (ustr ''0'')) = Inr 0" "codec_decode (rb_codec stop_binding) (Bool True) = Inr (Bool True)"
  "codec_encode (rb_codec stop_binding) (Bool True) = Inr (Bool True)" "ustr (show_int 0) = ustr ''0''"
proof -
  show "sequence (Str (ustr ''0'')) = Inr 0" by code_simp
  show "codec_decode (rb_codec stop_binding) (Bool True) = Inr (Bool True)" "codec_encode (rb_codec stop_binding) (Bool True) = Inr (Bool True)"
    by (simp_all add: codec_decode_def codec_encode_def stop_binding_def convert_def numeral_3_eq_3 count_node_def Let_def bindE_run seqE_run prog_run throwIf_run)
  show "ustr (show_int 0) = ustr ''0''" by code_simp
qed

lemma publish_run:
  "\<exists>s. receive small_opt reliable_label (raw_of publish_wire) advertised_state = (Inr (), s)
     \<and> rt_log s = (rt_log advertised_state @ [Authorize (rb_binding stop_binding) OpPublish, Clock, Authorize (rb_binding stop_binding) OpPublish])
         @ RosPublish (ustr ''/stop'') (Bool True) # [Send ControlChannel (raw_of published_wire)]"
proof -
  let ?s = advertised_state
  have parts: "\<not> rt_closed ?s" "rt_subscriptions ?s = []" "rt_bound ?s = []" "rt_welcomed ?s" "rt_lastTime ?s = Num 0" "rt_queue ?s = idle_queue"
    "rt_publishers ?s = [(ustr ''g:1:1'', stop_publisher)]"
    by (simp_all add: advertised_state_def welcomed_state_def small_state_def idle_queue_def)
  have head: "receive_head small_opt reliable_label (raw_of publish_wire) ?s = (Inr (ReliableChannel, publish_wire, None), ?s)"
    using publish_parsed by (simp add: receive_head_def labels bindE_run seqE_run prog_run publish_fields del: get_prop.simps)
  have public: "publicName (rb_binding stop_binding) = ustr ''/stop''" "b_delivery (rb_binding stop_binding) = DReliable" by (simp_all add: stop_binding_def)
  have pub: "pub_entry stop_publisher = stop_binding" "\<not> pub_guarded stop_publisher" "pub_seq stop_publisher = - 1" "pub_nextAt stop_publisher = Num 0"
    by (simp_all add: stop_publisher_def)
  have sends: "ros_send small_opt stop_binding (Bool True) s =
      (Inr (), s\<lparr>rt_log := rt_log s @ [Authorize (rb_binding stop_binding) OpPublish, RosPublish (ustr ''/stop'') (Bool True)]\<rparr>)" if "\<not> rt_closed s" for s
    using entry_stop [OF that] publish_values by (simp add: ros_send_def public bindE_run prog_run demand_def ask_def perform_def seqE_run)
  define s1 where "s1 = ?s\<lparr>rt_log := rt_log ?s @ [Authorize (rb_binding stop_binding) OpPublish, Clock], rt_lastTime := Num 0,
      rt_publishers := [(ustr ''g:1:1'', stop_publisher\<lparr>pub_seq := 0, pub_nextAt := num_add (Num 0) (rate_gap stop_binding)\<rparr>)]\<rparr>"
  define s2 where "s2 = s1\<lparr>rt_log := rt_log s1 @ [Authorize (rb_binding stop_binding) OpPublish, RosPublish (ustr ''/stop'') (Bool True)]\<rparr>"
  have answer: "respond small_opt published_wire s = (Inr (), s\<lparr>rt_queue := holding (raw_of published_wire)\<rparr>)"
    if "\<not> rt_closed s" "rt_queue s = idle_queue" for s
    using that published_encoded enqueue_idle [of s "raw_of published_wire"] by (simp add: respond_def bindE_run seqE_run prog_run throwIf_run)
  have s2: "\<not> rt_closed s2" "rt_subscriptions s2 = []" "rt_bound s2 = []" "rt_log s2 = (rt_log advertised_state @
      [Authorize (rb_binding stop_binding) OpPublish, Clock, Authorize (rb_binding stop_binding) OpPublish]) @ [RosPublish (ustr ''/stop'') (Bool True)]"
    using parts by (simp_all add: s1_def s2_def)
  have "router_publish small_opt ReliableChannel publish_wire ?s = (Inr (), s2\<lparr>rt_queue := holding (raw_of published_wire)\<rparr>)"
    using parts pub answer
    by (simp add: router_publish_def router_publisher_def publish_prepare_def publish_fields publish_texts publish_values public small_now entry_stop sends
        published_wire_def [symmetric] bindE_run seqE_run prog_run throwIf_run del: get_prop.simps) (simp add: s1_def s2_def)
  then show ?thesis using head parts s2
    by (simp add: receive_def tryE_def bindE_run seqE_run catchE_run prog_run flush_holding)
qed


lemma published_reachable:
  "\<exists>s. reachable (router_start small_opt) (router_step small_opt) s
     \<and> rt_log s = (rt_log advertised_state @ [Authorize (rb_binding stop_binding) OpPublish, Clock, Authorize (rb_binding stop_binding) OpPublish])
         @ RosPublish (ustr ''/stop'') (Bool True) # [Send ControlChannel (raw_of published_wire)]"
proof -
  have step: "reachable (router_start small_opt) (router_step small_opt) t"
    if "reachable (router_start small_opt) (router_step small_opt) s" "receive small_opt label raw s = (r, t)" for s label raw r t
    using reach_step [OF that(1) router_step.received, of label raw] that(2) by simp
  have "reachable (router_start small_opt) (router_step small_opt) advertised_state"
    using step [OF step [OF small_reachable hello_run] advertise_run] .
  then show ?thesis using step publish_run by blast
qed

theorem router_bounded_witness:
  "rt_closed small_closed \<and> set (keys (q_streams (rt_queue small_closed))) = {} \<and> rt_subscriptions small_closed = []
   \<and> set (keys (q_streams (rt_queue small_state))) = {control_id}"
  using router_bounded [OF small_closed_reachable] router_bounded [OF small_reachable] small_closed_closed by (simp add: small_state_def)

theorem router_consent_witness:
  "\<exists>s h rest b h0 w. reachable (router_start small_opt) (router_step small_opt) s \<and> rt_log s = h @ RosPublish (ustr ''/stop'') (Bool True) # rest
     \<and> map_of (ro_entries small_opt) (ustr ''/stop'') = Some b \<and> h = h0 @ [Authorize (rb_binding b) OpPublish]
     \<and> codec_encode (rb_codec b) (Bool True) = Inr w"
proof -
  obtain s where s: "reachable (router_start small_opt) (router_step small_opt) s"
    "rt_log s = (rt_log advertised_state @ [Authorize (rb_binding stop_binding) OpPublish, Clock, Authorize (rb_binding stop_binding) OpPublish])
         @ RosPublish (ustr ''/stop'') (Bool True) # [Send ControlChannel (raw_of published_wire)]" using published_reachable by blast
  obtain b h0 w where "map_of (ro_entries small_opt) (ustr ''/stop'') = Some b" "codec_encode (rb_codec b) (Bool True) = Inr w"
    "rt_log advertised_state @ [Authorize (rb_binding stop_binding) OpPublish, Clock, Authorize (rb_binding stop_binding) OpPublish] = h0 @ [Authorize (rb_binding b) OpPublish]"
    using router_consent [OF s] by auto
  then show ?thesis using s by blast
qed

end
