(* ===== verification/Router_Streams.thy ===== *)
theory Router_Streams
  imports Router_Session
begin

text \<open>
  A stream that overflows is stopped for good (\<open>session/delivery-queue.ts\<close>). The router never leaves one
  behind: an overflowing subscription is removed, and an overflowing control stream closes the session.
\<close>

section \<open>Stopped streams\<close>

definition only_stopped :: "ustring set \<Rightarrow> queue \<Rightarrow> bool" where
  "only_stopped X q \<longleftrightarrow> (\<forall>sid st. map_of (q_streams q) sid = Some st \<longrightarrow> s_stopped st \<longrightarrow> sid \<in> X)"

text \<open>In an open session only the streams of \<open>X\<close> may be stopped: none between steps, and one while an error is handled.\<close>

definition stopped_within :: "ustring set \<Rightarrow> router \<Rightarrow> bool" where
  "stopped_within X s \<longleftrightarrow> rt_closed s \<or> only_stopped X (rt_queue s)"

abbreviation healthy :: "router \<Rightarrow> bool" where
  "healthy \<equiv> stopped_within {}"

lemma stopped_mono: "stopped_within X s \<Longrightarrow> X \<subseteq> Y \<Longrightarrow> stopped_within Y s"
  by (auto simp: stopped_within_def only_stopped_def)

lemma enqueue_stops:
  assumes "only_stopped X q"
  shows "wp (enqueue sid m) (\<lambda>_. only_stopped (X - {sid})) (\<lambda>_. only_stopped (insert sid X)) q"
  using assms unfolding enqueue_def queue_prims
  by (auto simp: wp_simps only_stopped_def map_of_map_entry' split: option.splits if_splits)

lemma queue_stops:
  "keeps (only_stopped X) (dequeue sid)" "keeps (only_stopped X) (peek sid)" "keeps (only_stopped X) (register sid pol n)"
  "keeps (only_stopped X) (closeStream sid)" "keeps (only_stopped X) clear_queue"
  unfolding dequeue_def peek_def register_def closeStream_def clear_queue_def queue_prims
  by (auto intro!: keeps_rules simp: only_stopped_def map_of_map_entry' AList.update_conv' AList.delete_conv' split: list.split option.splits if_splits)

lemma close_stream_stops:
  "only_stopped (insert sid X) q \<Longrightarrow> wp (closeStream sid) (\<lambda>_. only_stopped (X - {sid})) (\<lambda>_. only_stopped (X - {sid})) q"
  unfolding closeStream_def queue_prims
  by (auto simp: wp_simps only_stopped_def map_of_map_entry' AList.delete_conv' split: option.splits if_splits) (metis option.distinct(1))

section \<open>Sessions\<close>

lemma stopped_frame [simp]:
  "stopped_within X (s\<lparr>rt_log := l\<rparr>) = stopped_within X s" "stopped_within X (s\<lparr>rt_guard := g\<rparr>) = stopped_within X s"
  "stopped_within X (s\<lparr>rt_cache := c\<rparr>) = stopped_within X s" "stopped_within X (s\<lparr>rt_bound := b\<rparr>) = stopped_within X s"
  "stopped_within X (s\<lparr>rt_free := f\<rparr>) = stopped_within X s" "stopped_within X (s\<lparr>rt_nextId := n\<rparr>) = stopped_within X s"
  "stopped_within X (s\<lparr>rt_lastTime := t\<rparr>) = stopped_within X s" "stopped_within X (s\<lparr>rt_controlWindow := w\<rparr>) = stopped_within X s"
  "stopped_within X (s\<lparr>rt_controlCount := i\<rparr>) = stopped_within X s" "stopped_within X (s\<lparr>rt_welcomed := y\<rparr>) = stopped_within X s"
  "stopped_within X (s\<lparr>rt_subscriptions := m\<rparr>) = stopped_within X s" "stopped_within X (s\<lparr>rt_publishers := p\<rparr>) = stopped_within X s"
  "stopped_within X (s\<lparr>rt_closed := True\<rparr>)"
  by (simp_all add: stopped_within_def)

named_theorems stops_rules

lemma stops_queue: "keeps (only_stopped X) m \<Longrightarrow> keeps (stopped_within X) (onQueue m)"
  by (auto simp: keeps_def onQueue_def stopped_within_def split: prod.split)

lemmas stops_queue_ops [stops_rules] = queue_stops [THEN stops_queue]

lemma stops_prims [stops_rules]:
  "keeps (stopped_within X) (perform e)" "keeps (stopped_within X) (onGuard g)" "keeps (stopped_within X) (onCache c)"
  "keeps (stopped_within X) (set_bind track f)" "keeps (stopped_within X) (set_sub sid h)" "keeps (stopped_within X) (router_id opt)"
  by (auto simp: keeps_def perform_def onGuard_def onCache_def set_bind_def set_sub_def router_id_def prog_simps split: prod.splits)

lemma stops_modE [stops_rules]:
  "(\<And>s. rt_closed (f s) = rt_closed s \<and> rt_queue (f s) = rt_queue s) \<Longrightarrow> keeps (stopped_within X) (modE f)"
  by (simp add: keeps_def prog_simps stopped_within_def)

lemma stops_ask [stops_rules]: "keeps (stopped_within X) (ask f opt e)" "keeps (stopped_within X) (demand g opt e)"
  unfolding demand_def ask_def by (intro keeps_shape stops_rules)+

lemma stops_entry [stops_rules]: "keeps (stopped_within X) (router_allowed opt e op)" "keeps (stopped_within X) (router_entry opt name op)"
  unfolding router_entry_def router_allowed_def by (intro keeps_shape stops_rules)+

lemma stops_lookup [stops_rules]:
  "keeps (stopped_within X) (router_publisher h)" "keeps (stopped_within X) (router_subscription sid)" "keeps (stopped_within X) (guard_clock opt)"
  "keeps (stopped_within X) (router_now opt)"
  unfolding router_publisher_def router_subscription_def guard_clock_def router_now_def by (intro keeps_shape stops_rules; simp)+

lemma stops_remove [stops_rules]: "keeps (stopped_within X) (removeSubscription opt sid)"
  unfolding removeSubscription_def by (intro keeps_shape stops_rules) simp

lemma stops_drain [stops_rules]: "keeps (stopped_within X) (drain opt sid ch)"
proof -
  have "keeps (stopped_within X) (drain_rounds n opt sid ch)" for n
    by (induction n) (auto intro!: keeps_shape stops_rules)
  then show ?thesis unfolding drain_def by (intro keeps_shape)
qed

text \<open>Closing leaves a closed session, whatever it started from.\<close>

lemma close_closes: "rt_closed (snd (router_close opt s))"
proof -
  have "keeps rt_closed (perform e)" "keeps rt_closed (onGuard g)" "keeps rt_closed (onQueue q)" "keeps rt_closed (onCache c)"
    "keeps rt_closed (set_bind track f)" for e track f and g :: "(guard, unit) prog" and q :: "(queue, unit) prog" and c :: "(cache, unit) prog"
    by (auto simp: keeps_def perform_def onQueue_def onGuard_def onCache_def set_bind_def prog_simps split: prod.splits)
  note parts = this
  have ask: "keeps rt_closed (demand on_unsubscribe opt e)" for e unfolding demand_def ask_def by (intro keeps_shape parts)
  have reset: "keeps rt_closed (modE (\<lambda>s. s\<lparr>rt_subscriptions := [], rt_publishers := []\<rparr>))" by (simp add: keeps_def prog_simps)
  have "keeps rt_closed (seqE video_close
         (seqE (onGuard (revokeSession (ro_sessionId opt)))
         (bindE (unsubscribe_all opt) (\<lambda>failed.
          seqE (modE (\<lambda>s. s\<lparr>rt_subscriptions := [], rt_publishers := []\<rparr>))
         (seqE (onQueue clear_queue)
         (seqE (onCache cache_clear)
         (seqE (bindE (perform OnClosed) (\<lambda>_. retE ()))
               (throwIf failed (Err ''cleanup_failed'')))))))))" (is "keeps _ ?rest")
    unfolding video_close_def video_release_def unsubscribe_all_def by (intro keeps_shape parts ask reset)
  then have "rt_closed (snd (?rest (s\<lparr>rt_closed := True\<rparr>)))" by (simp add: keeps_def)
  then show ?thesis by (simp add: router_close_def bindE_run seqE_run [of "modE _"] prog_run)
qed

section \<open>Reports\<close>

lemma enqueue_within:
  "stopped_within X s \<Longrightarrow> wp (onQueue (enqueue sid m)) (\<lambda>_. stopped_within (X - {sid})) (\<lambda>_. stopped_within (insert sid X)) s"
  using enqueue_stops [of X "rt_queue s" sid m]
  by (auto simp: wp_def onQueue_def stopped_within_def split: prod.splits sum.splits)

lemma respond_within:
  "stopped_within X s \<Longrightarrow> wp (respond opt wire) (\<lambda>_. stopped_within (X - {control_id})) (\<lambda>_. stopped_within (insert control_id X)) s"
proof -
  assume s: "stopped_within X s"
  have "wp (onQueue (enqueue control_id bs)) (\<lambda>_. wp (retE ()) (\<lambda>_. stopped_within (X - {control_id})) (\<lambda>_. stopped_within (insert control_id X)))
      (\<lambda>_. stopped_within (insert control_id X)) s" for bs
    by (rule wp_mono [OF enqueue_within [OF s]]) (simp_all add: wp_prims)
  then show ?thesis using stopped_mono [OF s, of "insert control_id X"]
    by (auto simp: respond_def wp_bindE wp_seqE wp_prims wp_unit_prims wp_liftE split: sum.split)
qed

lemma wp_healthy: "keeps healthy m \<Longrightarrow> healthy s \<Longrightarrow> wp m (\<lambda>_. healthy) (\<lambda>_. healthy) s"
  by (simp add: keeps_wp)

lemma close_healthy: "wp (router_close opt) (\<lambda>_. healthy) (\<lambda>_. healthy) s"
  using close_closes [of opt s] by (simp add: wp_run stopped_within_def)

text \<open>An error report that cannot be queued closes the session.\<close>

lemma error_recovers:
  assumes "keeps healthy again" and "stopped_within {control_id} s"
  shows "healthy (snd (error_with again opt rid s))"
proof -
  have "wp (seqE (respond opt w) again) (\<lambda>_. healthy) (\<lambda>_ _. True) s" for w
    unfolding wp_seqE by (rule wp_mono [OF respond_within [OF assms(2)]]) (auto intro: wp_mono [OF wp_healthy [OF assms(1)]])
  then have "wp (catchE (seqE (respond opt w) again) (\<lambda>_. router_close opt)) (\<lambda>_. healthy) (\<lambda>_. healthy) s" for w
    unfolding wp_catchE by (rule wp_mono) (simp_all add: close_healthy)
  then have "wp (error_with again opt rid) (\<lambda>_. healthy) (\<lambda>_. healthy) s"
    by (simp add: error_with_def wp_bindE wp_prims wp_if) (simp add: stopped_within_def)
  then show ?thesis by (simp add: wp_run)
qed

lemma event_healthy:
  assumes "keeps healthy again"
  shows "keeps healthy (event_with again opt wire)"
  unfolding keeps_wp event_with_def wp_catchE wp_seqE
  by (auto intro!: wp_mono [OF respond_within] wp_mono [OF wp_healthy [OF assms]]
      simp: wp_run error_recovers [OF assms] stopped_mono [of "{}" _ "{control_id}"])

interpretation streams: router_kept opt healthy for opt
proof unfold_locales
  show "keeps healthy (error_with again opt rid)" if "keeps healthy again" for again rid
    using error_recovers [OF that] stopped_mono [of "{}" _ "{control_id}"] by (auto simp: keeps_def)
  show "healthy (snd (drain opt sid (dataChannel (b_delivery (rb_binding (sub_entry sub)))) t))"
    if "healthy s" and "router_entry opt (publicName (rb_binding (sub_entry sub))) OpSubscribe s = (Inr e, t)" for s sid sub e t
    using that keepsD [OF stops_entry(2)] stops_drain unfolding keeps_def by metis
qed (erule event_healthy | rule stops_rules)+

section \<open>Steps\<close>

text \<open>Operations that stop at most the control stream, and only by throwing.\<close>

definition careful :: "'a action \<Rightarrow> bool" where
  "careful m \<longleftrightarrow> (\<forall>s. healthy s \<longrightarrow> wp m (\<lambda>_. healthy) (\<lambda>_. stopped_within {control_id}) s)"

named_theorems careful_rules

lemma careful_keeps: "keeps healthy m \<Longrightarrow> careful m"
  unfolding careful_def by (auto intro: wp_mono [OF wp_healthy] stopped_mono)

lemma careful_bindE [careful_rules]: "careful m \<Longrightarrow> (\<And>x. careful (f x)) \<Longrightarrow> careful (bindE m f)"
  unfolding careful_def wp_bindE by (auto intro: wp_mono)

lemma careful_seqE [careful_rules]: "careful m \<Longrightarrow> careful n \<Longrightarrow> careful (seqE m n)"
  unfolding seqE_def by (intro careful_bindE)

lemma careful_choice [careful_rules]:
  "careful m \<Longrightarrow> careful n \<Longrightarrow> careful (if b then m else n)"
  "careful a \<Longrightarrow> (\<And>x. careful (f x)) \<Longrightarrow> careful (case v of None \<Rightarrow> a | Some x \<Rightarrow> f x)"
  by (auto split: option.split)

lemma careful_reply [careful_rules]: "careful (respond opt wire)" "careful (onQueue (enqueue control_id bs))"
  unfolding careful_def using respond_within [of "{}"] enqueue_within [of "{}"] by auto

lemmas healthy_parts = streams.release_kept streams.viewer_kept streams.flush_kept streams.router_error_kept

lemma healthy_operation: "keeps healthy (router_operation opt wire rid)"
proof -
  have "keeps healthy (video_operation opt wire rid)"
    unfolding video_operation_def video_bind_def video_attach_def Let_def
    by (auto intro!: keeps_shape stops_rules healthy_parts)
  then show ?thesis
    unfolding router_operation_def router_subscribe_def router_advertise_def Let_def
    by (auto intro!: keeps_shape stops_rules)
qed

lemma healthy_catalog: "keeps healthy (router_catalog opt)"
  unfolding router_catalog_def by (intro keeps_shape stops_rules)

lemma healthy_rate: "keeps healthy (controlRate opt)"
  unfolding controlRate_def Let_def by (intro keeps_shape stops_rules) simp_all

lemma healthy_head: "keeps healthy (receive_head opt label raw)"
  unfolding receive_head_def by (intro keeps_shape healthy_rate)

lemmas careful_pure [careful_rules] = keeps_pure [THEN careful_keeps]

lemma careful_control: "careful (router_control opt wire rid)"
  unfolding router_control_def router_hello_def router_request_def Let_def
  by (intro careful_rules careful_keeps [OF healthy_catalog] careful_keeps [OF healthy_operation] careful_keeps [OF stops_modE]
      stops_rules [THEN careful_keeps]) simp_all

lemma careful_publish: "careful (router_publish opt ch wire)"
  unfolding router_publish_def publish_prepare_def through_ticket_def ros_send_def
  by (intro careful_rules careful_keeps [OF stops_modE] stops_rules [THEN careful_keeps]) simp_all

lemma healthy_receive: "keeps healthy (receive opt label raw)"
proof -
  define body where "body = (\<lambda>(ch, wire, rid). seqE (if ch \<noteq> ControlChannel then router_publish opt ch wire else router_control opt wire rid) (flush opt))"
  have careful: "careful (body x)" for x
    unfolding body_def by (auto split: prod.split intro!: careful_rules careful_publish careful_control careful_keeps [OF streams.flush_kept])
  have failed: "wp (body x) (\<lambda>_. healthy) (\<lambda>_ t. healthy (snd (router_error opt rid t))) s" if "healthy s" for x rid s
  proof -
    have "wp (body x) (\<lambda>_. healthy) (\<lambda>_. stopped_within {control_id}) s" using careful that unfolding careful_def by blast
    then show ?thesis unfolding router_error_def by (rule wp_mono) (simp_all add: error_recovers streams.flush_kept)
  qed
  have "wp (catchE (body x) (\<lambda>_. router_error opt rid)) (\<lambda>_. healthy) (\<lambda>_. healthy) s" if "healthy s" for x rid s
    unfolding wp_catchE by (rule wp_mono [OF failed [OF that]]) (simp_all add: wp_run)
  then have caught: "keeps healthy (catchE (body x) (\<lambda>_. router_error opt rid))" for x rid by (simp add: keeps_wp)
  have "keeps healthy (tryE (receive_head opt label raw) (\<lambda>_. router_error opt None) (\<lambda>x. catchE (body x) (\<lambda>_. router_error opt (snd (snd x)))))"
    using healthy_head [of opt label raw] caught streams.router_error_kept [of opt None]
    by (auto simp: keeps_def tryE_def split: prod.splits sum.splits)
  moreover have "(\<lambda>x. catchE (body x) (\<lambda>_. router_error opt (snd (snd x)))) = (\<lambda>(ch, wire, rid).
      catchE (seqE (if ch \<noteq> ControlChannel then router_publish opt ch wire else router_control opt wire rid) (flush opt)) (\<lambda>_. router_error opt rid))"
    by (auto simp: fun_eq_iff body_def)
  ultimately show ?thesis unfolding receive_def by (auto intro!: keeps_shape)
qed

text \<open>A sample that overflows its stream takes the subscription with it.\<close>

lemma remove_recovers:
  assumes "stopped_within {sid} s" and "map_of (rt_subscriptions s) sid = Some sub"
  shows "healthy (snd (removeSubscription opt sid s))"
proof -
  define s1 where "s1 = s\<lparr>rt_subscriptions := AList.delete sid (rt_subscriptions s)\<rparr>"
  have "stopped_within {sid} s1" using assms(1) by (simp add: s1_def)
  then have "wp (onQueue (closeStream sid)) (\<lambda>_. healthy) (\<lambda>_. healthy) s1"
    using close_stream_stops [of sid "{}" "rt_queue s1"]
    by (auto simp: wp_def onQueue_def stopped_within_def split: prod.splits sum.splits)
  then have "wp (seqE (onQueue (closeStream sid)) (demand on_unsubscribe opt (RosUnsubscribe sid))) (\<lambda>_. healthy) (\<lambda>_. healthy) s1"
    unfolding wp_seqE by (rule wp_mono) (simp_all add: wp_healthy stops_ask)
  then show ?thesis using assms(2)
    by (simp add: wp_run removeSubscription_def router_subscription_def bindE_run prog_run seqE_run [of "modE _"] s1_def)
qed

definition sampling :: "ustring \<Rightarrow> router \<Rightarrow> bool" where
  "sampling sid s \<longleftrightarrow> healthy s \<and> map_of (rt_subscriptions s) sid \<noteq> None"

lemma sampling_prims:
  "keeps (sampling sid) (perform e)" "keeps (sampling sid) (set_sub i f)" "keeps (sampling sid) (getE g)" "keeps (sampling sid) (router_now opt)"
  by (auto simp: keeps_def sampling_def perform_def set_sub_def router_now_def ask_def prog_simps map_of_map_entry' split: option.split)

lemma sampling_entry: "keeps (sampling sid) (router_entry opt name op)"
  unfolding router_entry_def router_allowed_def demand_def ask_def by (intro keeps_shape sampling_prims)

text \<open>What holds where a sample fails: the subscription is healthy, or it is the one to remove.\<close>

definition recoverable :: "ustring \<Rightarrow> router \<Rightarrow> bool" where
  "recoverable sid s \<longleftrightarrow> healthy s \<or> stopped_within {sid} s \<and> map_of (rt_subscriptions s) sid \<noteq> None"

lemma sampling_recoverable: "sampling sid s \<Longrightarrow> recoverable sid s"
  by (simp add: sampling_def recoverable_def)

lemma enqueue_sampled:
  "sampling sid s \<Longrightarrow> wp (onQueue (enqueue sid bs)) (\<lambda>_. healthy) (\<lambda>_. recoverable sid) s"
  using enqueue_within [of "{}" s sid bs]
  by (auto simp: wp_def sampling_def recoverable_def onQueue_def split: prod.splits sum.splits)

lemma deliver_recoverable:
  assumes "sampling sid s"
  shows "wp (sample_deliver opt sid sub native) (\<lambda>_. healthy) (\<lambda>_. recoverable sid) s"
proof -
  have step: "wp (bindE m f) (\<lambda>_. healthy) (\<lambda>_. recoverable sid) s"
    if "keeps (sampling sid) m" "sampling sid s" "\<And>x t. sampling sid t \<Longrightarrow> wp (f x) (\<lambda>_. healthy) (\<lambda>_. recoverable sid) t" for m :: "'x action" and f and s
    unfolding wp_bindE using that(1,2) by (rule wp_keeps) (simp_all add: that(3) sampling_recoverable)
  have send: "wp (seqE (onQueue (enqueue sid bs)) (flush opt)) (\<lambda>_. healthy) (\<lambda>_. recoverable sid) s" if "sampling sid s" for bs s
    unfolding wp_seqE by (rule wp_mono [OF enqueue_sampled [OF that]])
      (auto intro!: wp_mono [OF wp_healthy [OF streams.flush_kept]] simp: recoverable_def)
  have ret: "wp (retE ()) (\<lambda>_. healthy) (\<lambda>_. recoverable sid) s" if "sampling sid s" for s
    using that by (simp add: wp_prims sampling_def)
  show ?thesis using assms unfolding sample_deliver_def seqE_def [of "set_sub _ _"]
    by (auto intro!: step sampling_entry sampling_prims keeps_pure send ret)
qed

lemma healthy_sample: "keeps healthy (router_sample opt sid native)"
proof -
  have "healthy (snd (seqE (bindE (getE (\<lambda>s. sid \<in> set (keys (rt_subscriptions s)))) (\<lambda>has.
      if has then removeSubscription opt sid else retE ())) (router_error opt None) s))" (is "healthy (snd (?recover s))")
    if "recoverable sid s" for s
  proof -
    have "wp (bindE (getE (\<lambda>s. sid \<in> set (keys (rt_subscriptions s)))) (\<lambda>has. if has then removeSubscription opt sid else retE ())) (\<lambda>_. healthy) (\<lambda>_. healthy) s"
    proof (cases "map_of (rt_subscriptions s) sid")
      case None
      then have "sid \<notin> set (keys (rt_subscriptions s))" by (simp add: map_of_eq_None_iff)
      then show ?thesis using that None by (simp add: wp_simps recoverable_def)
    next
      case (Some sub)
      then have "sid \<in> set (keys (rt_subscriptions s))" by (force dest: map_of_SomeD)
      moreover have "stopped_within {sid} s" using that stopped_mono [of "{}" s "{sid}"] by (auto simp: recoverable_def)
      ultimately show ?thesis using remove_recovers [of sid s sub opt] Some unfolding wp_bindE by (simp add: wp_prims wp_run [of "removeSubscription opt sid"])
    qed
    then have "wp ?recover (\<lambda>_. healthy) (\<lambda>_. healthy) s" unfolding wp_seqE
      by (rule wp_mono) (simp_all add: wp_healthy streams.router_error_kept)
    then show ?thesis by (simp add: wp_run)
  qed
  then have "wp (catchE (sample_deliver opt sid sub native) (\<lambda>_. ?recover)) (\<lambda>_. healthy) (\<lambda>_. healthy) s" if "sampling sid s" for sub s
    unfolding wp_catchE by (intro wp_mono [OF deliver_recoverable [OF that]]) (simp_all add: wp_run)
  then show ?thesis unfolding keeps_wp router_sample_def
    by (auto simp: wp_bindE wp_prims sampling_def split: option.split)
qed

lemma step_healthy: "healthy s \<Longrightarrow> router_step opt s t \<Longrightarrow> healthy t"
proof -
  assume s: "healthy s" and "router_step opt s t"
  have run: "healthy (snd (m s))" if "keeps healthy m" for m :: "unit action" using that s by (simp add: keeps_def)
  have keyframe: "keeps healthy (slot_keyframe track)" for track unfolding slot_keyframe_def by (intro keeps_shape stops_rules)
  have close: "keeps healthy (router_close opt)" using close_closes by (simp add: keeps_def stopped_within_def)
  show ?thesis using \<open>router_step opt s t\<close> s
    by (auto simp: router_step_simps intro!: run healthy_receive healthy_sample streams.flush_kept streams.viewer_state_kept keyframe close)
qed

lemma start_healthy: "router_start opt s \<Longrightarrow> healthy s"
  by (auto simp: router_start_def newRouter_inv(6) stopped_within_def only_stopped_def fresh_stream_def dest!: newRouter_inv(6) split: if_splits)

text \<open>
  No step leaves a stopped stream in an open session.
\<close>

lemma session_healthy: "reachable (router_start opt) (router_step opt) s \<Longrightarrow> healthy s"
  by (induction rule: reachable.induct) (auto intro: start_healthy step_healthy)

end
