(* ===== verification/Router_Refinement.thy ===== *)
theory Router_Refinement
  imports Router_Streams
begin

text \<open>
  An abstract specification of what \<open>flush\<close> promises a peer, and that the router implements it: only
  the log of the session and the messages waiting per stream remain, authorization is granted, and the
  transport may accept, refuse or throw at any message.
\<close>

section \<open>The specification\<close>

text \<open>What waits per stream; \<open>None\<close> for a stream that overflowed.\<close>

type_synonym backlog = "ustring \<rightharpoonup> bytes list option"

text \<open>Hand messages over in order, up to the first one the transport does not take.\<close>

fun spec_send :: "answers \<Rightarrow> channel \<Rightarrow> history \<Rightarrow> bytes list \<Rightarrow> bool result \<times> history \<times> bytes list" where
  "spec_send a ch h [] = (Inr True, h, [])"
| "spec_send a ch h (m # ms) =
     (case on_send a (h @ [Send ch m]) of
        Inl e \<Rightarrow> (Inl e, h @ [Send ch m], m # ms)
      | Inr ok \<Rightarrow> if ok then spec_send a ch (h @ [Send ch m]) ms else (Inr False, h @ [Send ch m], m # ms))"

fun spec_drain :: "answers \<Rightarrow> ustring \<Rightarrow> channel \<Rightarrow> history \<times> backlog \<Rightarrow> bool result \<times> history \<times> backlog" where
  "spec_drain a sid ch (h, waiting) =
     (case waiting sid of
        None \<Rightarrow> (Inl (Err ''unknown_stream''), h, waiting)
      | Some None \<Rightarrow> (Inl (Err ''slow_consumer''), h, waiting)
      | Some (Some ms) \<Rightarrow> (case spec_send a ch h ms of (r, h', rest) \<Rightarrow> (r, h', waiting(sid \<mapsto> Some rest))))"

fun spec_subs :: "answers \<Rightarrow> (ustring \<times> topicBinding) list \<Rightarrow> history \<times> backlog \<Rightarrow> unit result \<times> history \<times> backlog" where
  "spec_subs a [] hw = (Inr (), hw)"
| "spec_subs a ((sid, b) # subs) (h, waiting) =
     (case spec_drain a sid (dataChannel (b_delivery b)) (h @ [Authorize b OpSubscribe], waiting) of
        (Inl e, hw) \<Rightarrow> (Inl e, hw)
      | (Inr done, hw) \<Rightarrow> if done then spec_subs a subs hw else (Inr (), hw))"

text \<open>Watched tracks are checked, then control messages go first, then the subscriptions in order.\<close>

definition spec_flush :: "answers \<Rightarrow> ustring list \<Rightarrow> (ustring \<times> topicBinding) list \<Rightarrow> history \<times> backlog \<Rightarrow> unit result \<times> history \<times> backlog" where
  "spec_flush a watched subs hw =
     (case spec_drain a control_id ControlChannel (fst hw @ map VideoAuthorize watched, snd hw) of
        (Inl e, hw') \<Rightarrow> (Inl e, hw')
      | (Inr done, hw') \<Rightarrow> if done then spec_subs a subs hw' else (Inr (), hw'))"

section \<open>Abstraction\<close>

definition stream_view :: "stream \<Rightarrow> bytes list option" where
  "stream_view st = (if s_stopped st then None else Some (s_messages st))"

definition backlog_of :: "queue \<Rightarrow> backlog" where
  "backlog_of q = map_option stream_view \<circ> map_of (q_streams q)"

definition session_view :: "router \<Rightarrow> history \<times> backlog" where
  "session_view s = (rt_log s, backlog_of (rt_queue s))"

definition watched_tracks :: "router \<Rightarrow> ustring list" where
  "watched_tracks s = filter (\<lambda>track. case map_of (rt_bound s) track of None \<Rightarrow> False | Some b \<Rightarrow> vb_watching b) (keys (rt_bound s))"

definition subscribed :: "router \<Rightarrow> (ustring \<times> topicBinding) list" where
  "subscribed s = map (\<lambda>(sid, sub). (sid, rb_binding (sub_entry sub))) (rt_subscriptions s)"

definition consenting :: "answers \<Rightarrow> bool" where
  "consenting a \<longleftrightarrow> (\<forall>h. on_authorize a h = Inr True) \<and> (\<forall>h. on_videoAuthorize a h = Inr True)"

text \<open>Nothing of a router but its queue and its log has changed.\<close>

definition same_session :: "router \<Rightarrow> router \<Rightarrow> bool" where
  "same_session s t \<longleftrightarrow> (\<forall>q. s\<lparr>rt_queue := q, rt_log := []\<rparr> = t\<lparr>rt_queue := q, rt_log := []\<rparr>)"

lemma same_session_simps [simp]:
  "same_session s s" "same_session s (t\<lparr>rt_log := l\<rparr>) = same_session s t" "same_session s (t\<lparr>rt_queue := q\<rparr>) = same_session s t"
  by (simp_all add: same_session_def)

lemma same_session_trans: "same_session s t \<Longrightarrow> same_session t u \<Longrightarrow> same_session s u"
  by (simp add: same_session_def)

lemma same_session_parts:
  assumes "same_session s t"
  shows "rt_subscriptions t = rt_subscriptions s" "rt_bound t = rt_bound s" "rt_closed t = rt_closed s"
    "t = s\<lparr>rt_queue := rt_queue t, rt_log := rt_log t\<rparr>"
  using assms by (cases s; cases t; simp add: same_session_def)+

section \<open>Simulation\<close>

lemma drain_waiting:
  assumes "map_of (q_streams (rt_queue s)) sid = Some st" and "\<not> s_stopped st"
  shows "\<exists>r t. drain opt sid ch s = (r, t) \<and> same_session s t
    \<and> (case spec_send (ro_oracle opt) ch (rt_log s) (s_messages st) of
         (x, h, rest) \<Rightarrow> r = x \<and> rt_log t = h \<and> backlog_of (rt_queue t) = (backlog_of (rt_queue s))(sid \<mapsto> Some rest))"
  using assms
proof (induction "s_messages st" arbitrary: s st)
  case Nil
  have "backlog_of (rt_queue s) sid = Some (Some [])" using Nil by (simp add: backlog_of_def stream_view_def)
  then have "(backlog_of (rt_queue s))(sid \<mapsto> Some []) = backlog_of (rt_queue s)" by (simp add: fun_upd_idem)
  then show ?case using Nil by (subst drain_unfold) (simp add: drain_step_def bindE_run prog_run onQueue_def peek_run)
next
  case (Cons m ms)
  define s1 where "s1 = s\<lparr>rt_log := rt_log s @ [Send ch m]\<rparr>"
  have peeked: "onQueue (peek sid) s = (Inr (Some m), s)" using Cons by (simp add: onQueue_def peek_run flip: Cons.hyps(2))
  have sent: "demand on_send opt (Send ch m) s = (on_send (ro_oracle opt) (rt_log s1), s1)"
    by (simp add: demand_def ask_def perform_def bindE_run seqE_run prog_run s1_def)
  show ?case
  proof (cases "on_send (ro_oracle opt) (rt_log s1) = Inr True")
    case False
    have "backlog_of (rt_queue s) sid = Some (Some (m # ms))" using Cons by (simp add: backlog_of_def stream_view_def)
    then have "(backlog_of (rt_queue s))(sid \<mapsto> Some (m # ms)) = backlog_of (rt_queue s)" by (simp add: fun_upd_idem)
    then show ?thesis using False peeked sent
      by (subst drain_unfold, cases "on_send (ro_oracle opt) (rt_log s1)")
         (auto simp: drain_step_def bindE_run prog_run s1_def simp flip: Cons.hyps(2))
  next
    case True
    define st' where "st' = st\<lparr>s_messages := ms\<rparr>"
    define s2 where "s2 = s1\<lparr>rt_queue := snd (dequeue sid (rt_queue s))\<rparr>"
    have deq: "onQueue (dequeue sid) s1 = (Inr (Some m), s2)"
      using Cons by (simp add: onQueue_def dequeue_run s1_def s2_def flip: Cons.hyps(2))
    have st': "map_of (q_streams (rt_queue s2)) sid = Some st'" "\<not> s_stopped st'" "ms = s_messages st'"
      using Cons by (simp_all add: dequeue_run s2_def st'_def map_of_map_entry' flip: Cons.hyps(2))
    have w: "(backlog_of (rt_queue s2))(sid \<mapsto> x) = (backlog_of (rt_queue s))(sid \<mapsto> x)" for x
      using Cons by (auto simp: dequeue_run s2_def backlog_of_def map_of_map_entry' simp flip: Cons.hyps(2))
    have run: "drain opt sid ch s = drain opt sid ch s2"
      using peeked sent deq True by (subst drain_unfold) (simp add: drain_step_def bindE_run seqE_run)
    have log: "rt_log s2 = rt_log s @ [Send ch m]" and same: "same_session s s2" by (simp_all add: s1_def s2_def)
    show ?thesis using Cons.hyps(1) [OF st'(3,1,2)] True same_session_trans [OF same] unfolding run log w
      by (auto simp: s1_def st'_def simp flip: Cons.hyps(2))
  qed
qed

lemma drain_simulates:
  "\<exists>r t. drain opt sid ch s = (r, t) \<and> same_session s t \<and> (r, session_view t) = spec_drain (ro_oracle opt) sid ch (session_view s)"
proof (cases "\<exists>st. map_of (q_streams (rt_queue s)) sid = Some st \<and> \<not> s_stopped st")
  case True
  then obtain st where "map_of (q_streams (rt_queue s)) sid = Some st" "\<not> s_stopped st" by blast
  then show ?thesis using drain_waiting [of s sid st opt ch]
    by (auto simp: session_view_def backlog_of_def stream_view_def split: prod.splits)
next
  case False
  then show ?thesis
    by (subst drain_unfold) (auto simp: drain_step_def bindE_run onQueue_def peek_run session_view_def backlog_of_def stream_view_def split: option.split)
qed

declare spec_drain.simps [simp del]

lemma drain_from:
  obtains r t where "drain opt sid ch (s\<lparr>rt_log := l\<rparr>) = (r, t)" and "same_session s t"
    and "(r, session_view t) = spec_drain (ro_oracle opt) sid ch (l, backlog_of (rt_queue s))"
proof -
  obtain r t where "drain opt sid ch (s\<lparr>rt_log := l\<rparr>) = (r, t)" "same_session (s\<lparr>rt_log := l\<rparr>) t"
    "(r, session_view t) = spec_drain (ro_oracle opt) sid ch (l, backlog_of (rt_queue s))"
    using drain_simulates [of opt sid ch "s\<lparr>rt_log := l\<rparr>"] unfolding session_view_def [of "s\<lparr>rt_log := l\<rparr>"] by auto
  then show ?thesis using that same_session_trans [of s "s\<lparr>rt_log := l\<rparr>" t] by simp
qed

text \<open>With every track authorized, revalidation only asks.\<close>

lemma revalidate_simulates:
  assumes "consenting (ro_oracle opt)"
  shows "revalidate_with again opt s = (Inr (), s\<lparr>rt_log := rt_log s @ map VideoAuthorize (watched_tracks s)\<rparr>)"
proof -
  define watching where "watching = (\<lambda>track (s :: router). case map_of (rt_bound s) track of None \<Rightarrow> False | Some b \<Rightarrow> vb_watching b)"
  define step where "step = (\<lambda>track. bindE (getE (watching track)) (\<lambda>w.
       if \<not> w then retE ()
       else bindE (demand on_videoAuthorize opt (VideoAuthorize track)) (\<lambda>ok.
            if ok then retE () else seqE (video_release track) (viewer_state_with again opt track VFailed))))"
  have "step track t = (Inr (), if watching track t then t\<lparr>rt_log := rt_log t @ [VideoAuthorize track]\<rparr> else t)" for track t
    using assms by (simp add: step_def consenting_def demand_def ask_def perform_def bindE_run seqE_run prog_run)
  then have "forE step tracks t = (Inr (), t\<lparr>rt_log := rt_log t @ map VideoAuthorize (filter (\<lambda>x. watching x t) tracks)\<rparr>)" for tracks t
    by (induction tracks arbitrary: t) (auto simp: seqE_run prog_run watching_def)
  then show ?thesis unfolding revalidate_with_def by (simp add: step_def watching_def bindE_run prog_run watched_tracks_def)
qed

lemma entry_consented:
  assumes "consenting (ro_oracle opt)" and "known_source opt e" and "\<not> rt_closed s"
  shows "router_entry opt (publicName (rb_binding e)) OpSubscribe s = (Inr e, s\<lparr>rt_log := rt_log s @ [Authorize (rb_binding e) OpSubscribe]\<rparr>)"
  using assms
  by (simp add: router_entry_def router_allowed_def known_source_def known_entry_def consenting_def demand_def ask_def perform_def
      bindE_run seqE_run prog_run throwIf_run)

lemma flush_subs_simulates:
  assumes "consenting (ro_oracle opt)" and "\<not> rt_closed s"
    and "\<forall>(sid, sub) \<in> set subs. map_of (rt_subscriptions s) sid = Some sub \<and> known_source opt (sub_entry sub)"
  shows "\<exists>r t. flush_subs again opt (map fst subs) s = (r, t) \<and> same_session s t
    \<and> (r, session_view t) = spec_subs (ro_oracle opt) (map (\<lambda>(sid, sub). (sid, rb_binding (sub_entry sub))) subs) (session_view s)"
  using assms(2,3)
proof (induction subs arbitrary: s)
  case Nil
  show ?case by (simp add: prog_run)
next
  case (Cons p subs)
  obtain sid sub where p: "p = (sid, sub)" by (cases p)
  let ?b = "rb_binding (sub_entry sub)"
  define s1 where "s1 = s\<lparr>rt_log := rt_log s @ [Authorize ?b OpSubscribe]\<rparr>"
  have entry: "router_entry opt (publicName ?b) OpSubscribe s = (Inr (sub_entry sub), s1)"
    using entry_consented [OF assms(1)] Cons.prems p by (simp add: s1_def)
  obtain r t where d: "drain opt sid (dataChannel (b_delivery ?b)) s1 = (r, t)" and same: "same_session s t"
    and view: "(r, session_view t) = spec_drain (ro_oracle opt) sid (dataChannel (b_delivery ?b)) (rt_log s @ [Authorize ?b OpSubscribe], backlog_of (rt_queue s))"
    unfolding s1_def by (rule drain_from)
  have run: "flush_subs again opt (map fst (p # subs)) s =
      (case r of Inl e \<Rightarrow> (Inl e, t) | Inr done \<Rightarrow> if done then flush_subs again opt (map fst subs) t else (Inr (), t))"
    using Cons.prems p entry d by (simp add: bindE_run catchE_run seqE_run prog_run split: sum.split)
  show ?case
  proof (cases "r = Inr True")
    case True
    have "\<not> rt_closed t" "\<forall>(sid, sub) \<in> set subs. map_of (rt_subscriptions t) sid = Some sub \<and> known_source opt (sub_entry sub)"
      using Cons.prems same_session_parts [OF same] by auto
    from Cons.IH [OF this] show ?thesis unfolding run using True view same same_session_trans [OF same]
      by (auto simp: p session_view_def simp flip: view split: prod.split)
  next
    case False
    then show ?thesis unfolding run using same
      by (cases r) (auto simp: p session_view_def simp flip: view)
  qed
qed

lemma flush_simulates:
  assumes "router_inv opt s" and "\<not> rt_closed s" and "consenting (ro_oracle opt)"
  shows "same_session s (snd (flush opt s)) \<and> (fst (flush opt s), session_view (snd (flush opt s)))
     = spec_flush (ro_oracle opt) (watched_tracks s) (subscribed s) (session_view s)"
proof -
  define s1 where "s1 = s\<lparr>rt_log := rt_log s @ map VideoAuthorize (watched_tracks s)\<rparr>"
  obtain r t where d: "drain opt control_id ControlChannel s1 = (r, t)" and same: "same_session s t"
    and view: "(r, session_view t) = spec_drain (ro_oracle opt) control_id ControlChannel (rt_log s @ map VideoAuthorize (watched_tracks s), backlog_of (rt_queue s))"
    unfolding s1_def by (rule drain_from)
  note parts = same_session_parts [OF same]
  have run: "flush opt s = (case r of Inl e \<Rightarrow> (Inl e, t)
      | Inr done \<Rightarrow> if done then flush_subs (flush opt) opt (keys (rt_subscriptions s)) t else (Inr (), t))"
    using assms d parts
    by (subst flush_unfold) (simp add: flush_with_def revalidate_simulates bindE_run seqE_run prog_run s1_def [symmetric] split: sum.split)
  have "distinct (keys (rt_subscriptions s))" "\<forall>p \<in> set (rt_subscriptions s). known_source opt (sub_entry (snd p))"
    using assms(1,2) by (auto simp: router_inv_def streams_ok_def handles_ok_def)
  then have "\<forall>(sid, sub) \<in> set (rt_subscriptions s). map_of (rt_subscriptions t) sid = Some sub \<and> known_source opt (sub_entry sub)"
    using parts by (auto simp: map_of_is_SomeI)
  from flush_subs_simulates [OF assms(3) _ this, of "flush opt"] assms(2) parts
  obtain x u where u: "flush_subs (flush opt) opt (keys (rt_subscriptions s)) t = (x, u)" "same_session t u"
    "(x, session_view u) = spec_subs (ro_oracle opt) (subscribed s) (session_view t)" by (auto simp: subscribed_def)
  show ?thesis using u same same_session_trans [OF same u(2)] unfolding run spec_flush_def
    by (cases r) (auto simp: session_view_def simp flip: view split: prod.split)
qed

section \<open>What the specification delivers\<close>

definition accepting :: "answers \<Rightarrow> bool" where
  "accepting a \<longleftrightarrow> (\<forall>h. on_send a h = Inr True)"

definition waiting_messages :: "ustring \<Rightarrow> queue \<Rightarrow> bytes list" where
  "waiting_messages sid q = (case map_of (q_streams q) sid of None \<Rightarrow> [] | Some st \<Rightarrow> s_messages st)"

text \<open>The log of one subscription: the consent, then its messages in order.\<close>

definition delivered :: "queue \<Rightarrow> ustring \<times> topicBinding \<Rightarrow> history" where
  "delivered q p = Authorize (snd p) OpSubscribe # map (Send (dataChannel (b_delivery (snd p)))) (waiting_messages (fst p) q)"

lemma send_accepting: "accepting a \<Longrightarrow> spec_send a ch h ms = (Inr True, h @ map (Send ch) ms, [])"
  by (induction ms arbitrary: h) (simp_all add: accepting_def)

definition emptied :: "ustring set \<Rightarrow> backlog \<Rightarrow> backlog" where
  "emptied done w = (\<lambda>sid. if sid \<in> done then Some (Some []) else w sid)"

lemma emptied_simps [simp]: "emptied {} w = w" "(emptied D w)(sid \<mapsto> Some []) = emptied (insert sid D) w"
  by (auto simp: emptied_def fun_eq_iff)

lemma drain_accepting:
  assumes "accepting a" and "map_of (q_streams q) sid = Some st" and "\<not> s_stopped st" and "sid \<notin> D"
  shows "spec_drain a sid ch (h, emptied D (backlog_of q)) =
    (Inr True, h @ map (Send ch) (waiting_messages sid q), emptied (insert sid D) (backlog_of q))"
proof -
  have "emptied D (backlog_of q) sid = Some (Some (s_messages st))" using assms by (simp add: emptied_def backlog_of_def stream_view_def)
  then show ?thesis using assms(1,2) by (simp add: spec_drain.simps send_accepting waiting_messages_def)
qed

lemma subs_accepting:
  assumes "accepting a" and "distinct (map fst subs)" and "fst ` set subs \<inter> D = {}"
    and "\<forall>p \<in> set subs. \<exists>st. map_of (q_streams q) (fst p) = Some st \<and> \<not> s_stopped st"
  shows "spec_subs a subs (h, emptied D (backlog_of q)) =
    (Inr (), h @ concat (map (delivered q) subs), emptied (fst ` set subs \<union> D) (backlog_of q))"
  using assms(2-)
proof (induction subs arbitrary: h D)
  case (Cons p subs)
  obtain sid b where p: "p = (sid, b)" by (cases p)
  then obtain st where st: "map_of (q_streams q) sid = Some st" "\<not> s_stopped st" using Cons.prems by auto
  have "sid \<notin> D" "fst ` set subs \<inter> insert sid D = {}" using Cons.prems p by (auto simp: disjoint_iff image_iff)
  then show ?case using Cons drain_accepting [OF assms(1) st] p by (simp add: delivered_def insert_commute Un_insert_right)
qed simp

lemma flush_accepting:
  assumes "accepting a" and "distinct (map fst subs)" and "control_id \<notin> fst ` set subs"
    and "\<forall>sid \<in> insert control_id (fst ` set subs). \<exists>st. map_of (q_streams q) sid = Some st \<and> \<not> s_stopped st"
  shows "spec_flush a watched subs (h, backlog_of q) =
    (Inr (), h @ map VideoAuthorize watched @ map (Send ControlChannel) (waiting_messages control_id q) @ concat (map (delivered q) subs),
     emptied (insert control_id (fst ` set subs)) (backlog_of q))"
proof -
  obtain st where "map_of (q_streams q) control_id = Some st" "\<not> s_stopped st" using assms(4) by blast
  from drain_accepting [OF assms(1) this, of "{}"] show ?thesis
    using subs_accepting [OF assms(1,2), of "{control_id}" q] assms(3,4) by (simp add: spec_flush_def)
qed

section \<open>Properties\<close>

text \<open>
  C7: What \<open>flush\<close> does to an open session whose operations stay authorized is exactly what the abstract
  specification says, whatever the transport accepts, refuses or throws: authorization of every watched
  track is asked for, control messages go before data, each subscription is authorized again before
  its messages go out in order, the first refusal ends the flush and leaves the rest waiting, and
  nothing of the session but its queue and its log changes.
\<close>

theorem flush_refines:
  assumes "reachable (router_start opt) (router_step opt) s" and "\<not> rt_closed s" and "consenting (ro_oracle opt)"
  shows "(fst (flush opt s), session_view (snd (flush opt s)))
      = spec_flush (ro_oracle opt) (watched_tracks s) (subscribed s) (session_view s)
    \<and> snd (flush opt s) = s\<lparr>rt_queue := rt_queue (snd (flush opt s)), rt_log := rt_log (snd (flush opt s))\<rparr>"
  using flush_simulates [OF session.reachable_inv [OF assms(1)] assms(2,3)] same_session_parts(4) by blast



section \<open>Concrete sessions\<close>

lemma granting_consents: "consenting (ro_oracle small_opt)" "accepting (ro_oracle small_opt)"
  by (simp_all add: consenting_def accepting_def small_opt_def granting_def)

lemma welcomed_reachable: "reachable (router_start small_opt) (router_step small_opt) welcomed_state" "\<not> rt_closed welcomed_state"
proof -
  show "reachable (router_start small_opt) (router_step small_opt) welcomed_state"
    using reach_step [OF small_reachable router_step.received, of control_label "raw_of hello_wire"] hello_run by simp
  show "\<not> rt_closed welcomed_state" by (simp add: welcomed_state_def small_state_def)
qed

theorem flush_refines_witness:
  "(fst (flush small_opt welcomed_state), session_view (snd (flush small_opt welcomed_state)))
     = spec_flush granting [] [] (session_view welcomed_state)"
  using flush_refines [OF welcomed_reachable granting_consents(1)]
  by (simp add: watched_tracks_def subscribed_def welcomed_state_def small_state_def small_opt_def)


end
