(* ===== verification/Router_Requests.thy ===== *)
theory Router_Requests
  imports Router_Streams
begin

text \<open>
  Retransmitted requests (\<open>router/index.ts\<close> with \<open>router/request-cache.ts\<close>): an answered request stays
  in the cache of its session, whatever else happens, until its time to live ends or the session closes.
\<close>

section \<open>Entries in use\<close>

text \<open>The cache has a property, or the clock of the router has passed an expiry, or the session is closed.\<close>

definition alive :: "(cache \<Rightarrow> bool) \<Rightarrow> number \<Rightarrow> router \<Rightarrow> bool" where
  "alive Q expiry s \<longleftrightarrow> rt_closed s \<or> Q (rt_cache s) \<or> num_le expiry (rt_lastTime s)"

named_theorems alive_rules

lemma alive_prims [alive_rules]:
  "keeps (alive Q expiry) (perform x)" "keeps (alive Q expiry) (onGuard g)" "keeps (alive Q expiry) (onQueue q)"
  "keeps (alive Q expiry) (set_bind track f)" "keeps (alive Q expiry) (set_sub sid h)" "keeps (alive Q expiry) (router_id opt)"
  "keeps (alive Q expiry) (onCache (cache_reserve n))"
  by (auto simp: keeps_def alive_def perform_def onGuard_def onQueue_def onCache_def cache_reserve_def set_bind_def set_sub_def router_id_def prog_simps
      split: prod.splits)

lemma alive_modE [alive_rules]:
  "(\<And>s. rt_closed (f s) = rt_closed s \<and> rt_cache (f s) = rt_cache s \<and> rt_lastTime (f s) = rt_lastTime s) \<Longrightarrow> keeps (alive Q expiry) (modE f)"
  by (simp add: keeps_def prog_simps alive_def)

lemma alive_ask [alive_rules]: "keeps (alive Q expiry) (ask f opt x)" "keeps (alive Q expiry) (demand g opt x)"
  unfolding demand_def ask_def by (intro keeps_shape alive_rules)+

text \<open>The clock of a router never goes back.\<close>

lemma num_le_later: "num_le a b \<Longrightarrow> \<not> num_less c b \<Longrightarrow> isFinite c \<Longrightarrow> num_le a c"
  by (cases a; cases b; cases c) auto

lemma alive_now [alive_rules]: "keeps (alive Q expiry) (router_now opt)"
proof (rule keepsI)
  fix s r t assume s: "alive Q expiry s" and run: "router_now opt s = (r, t)"
  show "alive Q expiry t"
  proof (cases r)
    case (Inl x)
    then have "\<exists>l. t = s\<lparr>rt_log := l\<rparr>" using run by (auto simp: router_now_def ask_def perform_def bindE_run seqE_run prog_run throwIf_run split: if_splits)
    then show ?thesis using s by (auto simp: alive_def)
  next
    case (Inr v)
    then have t: "t = s\<lparr>rt_log := rt_log s @ [Clock], rt_lastTime := v\<rparr>" using run router_now_Inr by blast
    moreover have "isFinite v" "\<not> num_less v (rt_lastTime s)"
      using run Inr by (auto simp: router_now_def ask_def perform_def bindE_run seqE_run prog_run throwIf_run split: if_splits)
    ultimately show ?thesis using s num_le_later by (auto simp: alive_def)
  qed
qed

lemma alive_entry [alive_rules]: "keeps (alive Q expiry) (router_allowed opt b op)" "keeps (alive Q expiry) (router_entry opt name op)"
  unfolding router_entry_def router_allowed_def by (intro keeps_shape alive_rules)+

lemma alive_lookup [alive_rules]:
  "keeps (alive Q expiry) (router_publisher h)" "keeps (alive Q expiry) (router_subscription sid)" "keeps (alive Q expiry) (guard_clock opt)"
  unfolding router_publisher_def router_subscription_def guard_clock_def by (intro keeps_shape alive_rules)+

lemma alive_remove [alive_rules]: "keeps (alive Q expiry) (removeSubscription opt sid)"
  unfolding removeSubscription_def by (intro keeps_shape alive_rules) simp

lemma alive_drain [alive_rules]: "keeps (alive Q expiry) (drain opt sid ch)"
proof -
  have "keeps (alive Q expiry) (drain_rounds n opt sid ch)" for n
    by (induction n) (auto intro!: keeps_shape alive_rules)
  then show ?thesis unfolding drain_def by (intro keeps_shape)
qed

lemma alive_respond [alive_rules]: "keeps (alive Q expiry) (respond opt wire)"
  unfolding respond_def by (intro keeps_shape alive_rules)

lemma alive_close [alive_rules]: "keeps (alive Q expiry) (router_close opt)"
  using close_closes by (simp add: keeps_def alive_def)

interpretation living: router_kept opt "alive Q expiry" for opt Q expiry
proof unfold_locales
  show "alive Q expiry (snd (drain opt sid (dataChannel (b_delivery (rb_binding (sub_entry sub)))) t))"
    if "alive Q expiry s" and "router_entry opt (publicName (rb_binding (sub_entry sub))) OpSubscribe s = (Inr x, t)" for s sid sub x t
    using that keepsD [OF alive_entry(2)] alive_drain unfolding keeps_def by metis
qed (assumption | rule alive_rules keeps_reports)+

lemmas alive_parts = living.release_kept living.viewer_kept living.flush_kept living.router_error_kept living.viewer_state_kept

lemma alive_operation [alive_rules]: "keeps (alive Q expiry) (router_operation opt wire i)"
proof -
  have "keeps (alive Q expiry) (video_operation opt wire i)"
    unfolding video_operation_def video_bind_def video_attach_def Let_def
    by (auto intro!: keeps_shape alive_rules alive_parts)
  then show ?thesis
    unfolding router_operation_def router_subscribe_def router_advertise_def Let_def
    by (auto intro!: keeps_shape alive_rules)
qed

section \<open>Requests\<close>

definition holds_entry :: "ustring \<Rightarrow> cached \<Rightarrow> cache \<Rightarrow> bool" where
  "holds_entry rid e c \<longleftrightarrow> map_of (rc_entries c) rid = Some e"

abbreviation remembered :: "ustring \<Rightarrow> cached \<Rightarrow> router \<Rightarrow> bool" where
  "remembered rid e \<equiv> alive (holds_entry rid e) (ca_expires e)"

abbreviation forgotten :: "cached \<Rightarrow> router \<Rightarrow> bool" where
  "forgotten e \<equiv> alive (\<lambda>_. False) (ca_expires e)"

lemma map_of_filter: "map_of m k = Some v \<Longrightarrow> P (k, v) \<Longrightarrow> map_of (filter P m) k = Some v"
  by (induction m) (auto split: if_splits)

lemma purge_holds: "holds_entry rid e c \<Longrightarrow> \<not> num_le (ca_expires e) now \<Longrightarrow> holds_entry rid e (purge now c)"
  by (simp add: holds_entry_def purge_def map_of_filter)

text \<open>Storing a response leaves every other entry alone.\<close>

lemma store_remembered:
  assumes "remembered rid e s" and "i = rid \<Longrightarrow> forgotten e s"
  shows "remembered rid e (snd (onCache (cache_store i input out now) s))"
  using assms by (auto simp: alive_def holds_entry_def onCache_def cache_store_def seqE_run prog_run)

definition execute :: "routerOptions \<Rightarrow> jsval \<Rightarrow> ustring \<Rightarrow> ustring \<Rightarrow> number \<Rightarrow> unit action" where
  "execute opt wire rid input now =
     seqE (onCache (cache_reserve (ro_maxBytes opt + int (length input) * 2)))
    (bindE (router_operation opt wire rid) (\<lambda>response.
     bindE (liftE (encodeWire response (ro_maxBytes opt))) (\<lambda>bs.
     seqE (onCache (cache_store rid input bs now))
    (seqE (onQueue (enqueue control_id bs)) (retE ())))))"

definition serve_request :: "routerOptions \<Rightarrow> jsval \<Rightarrow> ustring \<Rightarrow> ustring \<Rightarrow> number \<Rightarrow> unit action" where
  "serve_request opt wire rid input now =
     bindE (onCache (cache_lookup rid input now)) (\<lambda>cached.
     case cached of
       Some bs \<Rightarrow> seqE (onQueue (enqueue control_id bs)) (retE ())
     | None \<Rightarrow> execute opt wire rid input now)"

lemma router_request_parts:
  "router_request opt wire rid = bindE (liftE (stringify wire)) (\<lambda>text.
     bindE (router_now opt) (serve_request opt wire rid (case text of Some t \<Rightarrow> t | None \<Rightarrow> [])))"
  unfolding router_request_def serve_request_def execute_def Let_def by (rule refl)

lemma execute_remembered:
  assumes "remembered rid e s" and "i = rid \<Longrightarrow> forgotten e s"
  shows "remembered rid e (snd (execute opt wire i input now s))"
proof -
  let ?P = "\<lambda>s. remembered rid e s \<and> (i = rid \<longrightarrow> forgotten e s)"
  have keep: "keeps ?P m" if "\<And>Q x. keeps (alive Q x) m" for m :: "'x action"
    using that unfolding keeps_def by blast
  have store: "wp (onCache (cache_store i input bs now)) (\<lambda>_. remembered rid e) (\<lambda>_. remembered rid e) t" if "?P t" for bs t
    using store_remembered [of rid e t i] that by (simp add: wp_run)
  have queued: "keeps (remembered rid e) (seqE (onQueue (enqueue control_id bs)) (retE ()))" for bs by (intro keeps_shape alive_rules)
  have last: "wp (seqE (onCache (cache_store i input bs now)) (seqE (onQueue (enqueue control_id bs)) (retE ()))) (\<lambda>_. remembered rid e) (\<lambda>_. remembered rid e) t"
    if "?P t" for bs t
    unfolding wp_seqE [of "onCache (cache_store i input bs now)"]
    by (rule wp_mono [OF store [OF that]]) (simp_all add: wp_keeps [OF queued])
  have "wp (execute opt wire i input now) (\<lambda>_. remembered rid e) (\<lambda>_. remembered rid e) s"
    unfolding execute_def wp_seqE [of "onCache (cache_reserve _)"] wp_bindE
    by (rule wp_keeps [OF keep [OF alive_prims(7)]])
       (use assms in \<open>auto intro!: wp_keeps [OF keep [OF alive_operation]] last simp: wp_liftE split: sum.split\<close>)
  then show ?thesis by (simp add: wp_run)
qed

lemma lookup_remembered:
  assumes "remembered rid e s" and "rt_lastTime s = now" and "onCache (cache_lookup i input now) s = (r, t)"
  shows "remembered rid e t" and "r = Inr None \<Longrightarrow> i = rid \<Longrightarrow> forgotten e t"
proof -
  have t: "t = s\<lparr>rt_cache := purge now (rt_cache s)\<rparr>" using assms(3) by (auto simp: onCache_def cache_lookup_run)
  show kept: "remembered rid e t" using assms(1,2) purge_holds [of rid e "rt_cache s" now] by (auto simp: alive_def t)
  show "forgotten e t" if "r = Inr None" "i = rid"
    using kept assms(3) that by (auto simp: alive_def holds_entry_def t onCache_def cache_lookup_run split: option.splits if_splits)
qed

lemma remembered_request: "keeps (remembered rid e) (router_request opt wire i)"
proof -
  have reply: "keeps (remembered rid e) (seqE (onQueue (enqueue control_id bs)) (retE ()))" for bs by (intro keeps_shape alive_rules)
  have served: "remembered rid e (snd (serve_request opt wire i input now s))" if s: "remembered rid e s" "rt_lastTime s = now" for input now s
  proof (cases "onCache (cache_lookup i input now) s")
    case (Pair r t)
    note t = lookup_remembered [OF s Pair]
    have "remembered rid e (snd (execute opt wire i input now t))" if "r = Inr None"
      using execute_remembered [OF t(1)] t(2) [OF that] by blast
    moreover have "remembered rid e (snd (seqE (onQueue (enqueue control_id bs)) (retE ()) t))" for bs
      using reply t(1) by (simp add: keeps_def)
    ultimately show ?thesis using Pair t(1) by (auto simp: serve_request_def bindE_run split: sum.split option.split)
  qed
  have "keeps (remembered rid e) (bindE (router_now opt) (serve_request opt wire i input))" for input
  proof (rule keeps_bindE_run [OF alive_now])
    fix s now t assume "router_now opt s = (Inr now, t)" "remembered rid e t"
    then show "remembered rid e (snd (serve_request opt wire i input now t))" using served router_now_Inr by fastforce
  qed
  then show ?thesis unfolding router_request_parts by (rule keeps_bindE [OF keeps_pure(3)])
qed

lemma remembered_control: "keeps (remembered rid e) (router_control opt wire i)"
proof -
  have "keeps (remembered rid e) (router_catalog opt)" unfolding router_catalog_def by (intro keeps_shape alive_rules)
  then show ?thesis unfolding router_control_def router_hello_def Let_def
    by (intro keeps_shape alive_rules remembered_request) simp_all
qed

lemma remembered_publish: "keeps (alive Q expiry) (router_publish opt ch wire)"
  unfolding router_publish_def publish_prepare_def through_ticket_def ros_send_def
  by (intro keeps_shape alive_rules) simp_all

lemma remembered_receive: "keeps (remembered rid e) (receive opt label raw)"
proof -
  have rate: "keeps (remembered rid e) (controlRate opt)" unfolding controlRate_def Let_def by (intro keeps_shape alive_rules) simp_all
  show ?thesis unfolding receive_def receive_head_def
    by (auto intro!: keeps_shape keeps_tryE rate living.router_error_kept living.flush_kept remembered_publish remembered_control split: prod.split)
qed

lemma remembered_sample: "keeps (alive Q expiry) (router_sample opt sid native)"
  unfolding router_sample_def sample_deliver_def
  by (intro keeps_shape alive_rules alive_parts)

lemma remembered_step: "remembered rid e s \<Longrightarrow> router_step opt s t \<Longrightarrow> remembered rid e t"
proof -
  assume s: "remembered rid e s" and "router_step opt s t"
  have run: "remembered rid e (snd (m s))" if "keeps (remembered rid e) m" for m :: "unit action" using that s by (simp add: keeps_def)
  have keyframe: "keeps (remembered rid e) (slot_keyframe track)" for track unfolding slot_keyframe_def by (intro keeps_shape alive_rules)
  have "remembered rid e (s\<lparr>rt_guard := g\<rparr>)" for g using s by (simp add: alive_def)
  then show ?thesis using \<open>router_step opt s t\<close>
    by (auto simp: router_step_simps intro!: run remembered_receive remembered_sample living.flush_kept living.viewer_state_kept keyframe alive_close)
qed

lemma remembered_later: "reachable (\<lambda>x. x = s) (router_step opt) t \<Longrightarrow> remembered rid e s \<Longrightarrow> remembered rid e t"
  by (induction rule: reachable.induct) (auto intro: remembered_step)

section \<open>A request and its repetition\<close>

lemma request_enters:
  assumes "stringify wire = Inr (Some txt)" and "router_request opt wire rid s = (Inr (), t)"
  shows "\<exists>e now s1 sent x. router_now opt s = (Inr now, s1) \<and> ca_input e = txt \<and> onQueue (enqueue control_id (ca_output e)) sent = (Inr x, t)
    \<and> holds_entry rid e (rt_cache t)
    \<and> (map_of (rc_entries (purge now (rt_cache s))) rid = None \<longrightarrow> ca_expires e = num_add now (NumI (rc_ttlMs (rt_cache sent))))"
proof -
  obtain now s1 where now: "router_now opt s = (Inr now, s1)" and served: "serve_request opt wire rid txt now s1 = (Inr (), t)"
    using assms by (auto simp: router_request_parts run_Inr)
  let ?p = "s1\<lparr>rt_cache := purge now (rt_cache s1)\<rparr>"
  have s1: "rt_cache s1 = rt_cache s" using router_now_Inr [OF now] by simp
  have frame: "rt_cache u' = rt_cache u" if "onQueue (enqueue control_id bs) u = (r, u')" for bs u r u'
    using that by (auto simp: onQueue_def split: prod.splits)
  show ?thesis
  proof (cases "map_of (rc_entries (purge now (rt_cache s1))) rid")
    case (Some e)
    then have "ca_input e = txt" "\<exists>x. onQueue (enqueue control_id (ca_output e)) ?p = (Inr x, t)"
      using served by (auto simp: serve_request_def bindE_run seqE_run prog_run onCache_def cache_lookup_run split: if_splits sum.splits prod.splits)
    then show ?thesis using Some now s1 frame by (fastforce simp: holds_entry_def)
  next
    case None
    then have "execute opt wire rid txt now ?p = (Inr (), t)"
      using served by (auto simp: serve_request_def bindE_run onCache_def cache_lookup_run split: if_splits sum.splits prod.splits)
    then obtain bs u x where store: "onCache (cache_store rid txt bs now) u = (Inr (), x)" and "\<exists>y. onQueue (enqueue control_id bs) x = (Inr y, t)"
      by (auto simp: execute_def run_Inr)
    moreover define e where "e = \<lparr>ca_input = txt, ca_output = bs, ca_expires = num_add now (NumI (rc_ttlMs (rt_cache u))), ca_bytes = entry_bytes txt bs\<rparr>"
    moreover have "holds_entry rid e (rt_cache x)" "rc_ttlMs (rt_cache x) = rc_ttlMs (rt_cache u)"
      using store by (auto simp: onCache_def cache_store_def seqE_run prog_run holds_entry_def e_def)
    ultimately show ?thesis using now frame by (intro exI [of _ e] exI [of _ now] exI [of _ s1] exI [of _ x]) (auto simp: e_def)
  qed
qed

lemma request_repeated:
  assumes "remembered rid e u" and "\<not> rt_closed u" and now: "router_now opt u = (Inr now, v)" and "\<not> num_le (ca_expires e) now"
    and "stringify wire = Inr (Some txt)"
  shows "router_request opt wire rid u =
    (if txt = ca_input e then seqE (onQueue (enqueue control_id (ca_output e))) (retE ()) else throwE (Err ''request_conflict''))
      (v\<lparr>rt_cache := purge now (rt_cache v)\<rparr>)"
proof -
  have v: "v = u\<lparr>rt_log := rt_log u @ [Clock], rt_lastTime := now\<rparr>" using router_now_Inr [OF now] .
  have "remembered rid e v" using keepsD [OF alive_now assms(1) now] .
  then have "holds_entry rid e (rt_cache v)" using assms(2,4) v by (auto simp: alive_def)
  then have "map_of (rc_entries (purge now (rt_cache v))) rid = Some e" using purge_holds [OF _ assms(4)] by (simp add: holds_entry_def)
  then show ?thesis using now assms(5) by (simp add: router_request_parts serve_request_def bindE_run prog_run onCache_def cache_lookup_run)
qed

section \<open>Properties\<close>

text \<open>
  C6: A request is executed once. After a session has answered a request, whatever steps follow, a
  request with the same identifier is not executed while the answer lives: the same text gets the
  same bytes again, a different text is refused as a conflict, and neither has any effect on the
  outside but reading the clock. A first answer lives for the configured time from when it was asked for.
\<close>

theorem request_answered_again:
  assumes "stringify wire = Inr (Some txt)" and "router_request opt wire rid s = (Inr (), t)"
    and "reachable (\<lambda>x. x = t) (router_step opt) u" and "\<not> rt_closed u" and "router_now opt u = (Inr now, v)"
  shows "\<exists>(e :: cached) now0 s1 sent x. router_now opt s = (Inr now0, s1) \<and> ca_input e = txt \<and> onQueue (enqueue control_id (ca_output e)) sent = (Inr x, t)
    \<and> (map_of (rc_entries (purge now0 (rt_cache s))) rid = None \<longrightarrow> ca_expires e = num_add now0 (NumI (rc_ttlMs (rt_cache sent))))
    \<and> v = u\<lparr>rt_log := rt_log u @ [Clock], rt_lastTime := now\<rparr>
    \<and> (\<not> num_le (ca_expires e) now \<longrightarrow>
         router_request opt wire rid u = seqE (onQueue (enqueue control_id (ca_output e))) (retE ()) (v\<lparr>rt_cache := purge now (rt_cache v)\<rparr>)
         \<and> (\<forall>other txt'. stringify other = Inr (Some txt') \<longrightarrow> txt' \<noteq> txt \<longrightarrow>
              router_request opt other rid u = (Inl (Err ''request_conflict''), v\<lparr>rt_cache := purge now (rt_cache v)\<rparr>)))"
proof -
  obtain e now0 s1 sent x where first: "router_now opt s = (Inr now0, s1)" "ca_input e = txt" "onQueue (enqueue control_id (ca_output e)) sent = (Inr x, t)"
    "map_of (rc_entries (purge now0 (rt_cache s))) rid = None \<longrightarrow> ca_expires e = num_add now0 (NumI (rc_ttlMs (rt_cache sent)))"
    and "holds_entry rid e (rt_cache t)" using request_enters [OF assms(1,2)] by (elim exE conjE) (rule that)
  then have "remembered rid e t" by (simp add: alive_def)
  then have u: "remembered rid e u" using remembered_later [OF assms(3)] by blast
  note repeated = request_repeated [OF u assms(4,5)]
  have "router_request opt other rid u = (Inl (Err ''request_conflict''), v\<lparr>rt_cache := purge now (rt_cache v)\<rparr>)"
    if "\<not> num_le (ca_expires e) now" "stringify other = Inr (Some txt')" "txt' \<noteq> txt" for other txt'
    using repeated [OF that(1,2)] that(3) first(2) by (simp add: prog_run)
  then show ?thesis using first repeated assms(1) router_now_Inr [OF assms(5)]
    by (intro exI [of _ e] exI [of _ now0] exI [of _ s1] exI [of _ sent] exI [of _ x]) simp
qed

text \<open>The advertisement of the small session, sent twice.\<close>

lemma num_later: "\<not> num_le (num_add (Num 0) (NumI 10)) (Num 0)"
  using num_add_int [of 0 10] by (simp add: MAX_SAFE_INTEGER_def)

theorem request_answered_again_witness:
  "\<exists>t bs v sent. router_request small_opt advertise_wire (ustr ''1'') welcomed_state = (Inr (), t) \<and> (\<exists>x. onQueue (enqueue control_id bs) sent = (Inr x, t))
     \<and> router_request small_opt advertise_wire (ustr ''1'') t = seqE (onQueue (enqueue control_id bs)) (retE ()) v \<and> rt_log v = rt_log t @ [Clock]"
proof -
  have parts: "\<not> rt_closed welcomed_state" "rt_subscriptions welcomed_state = []" "rt_publishers welcomed_state = []" "rt_nextId welcomed_state = 0"
    "rt_lastTime welcomed_state = Num 0" "rt_cache welcomed_state = newRequestCache 2 10 1024" "rt_queue welcomed_state = idle_queue"
    by (simp_all add: welcomed_state_def small_state_def idle_queue_def)
  obtain t where run: "router_request small_opt advertise_wire (ustr ''1'') welcomed_state = (Inr (), t)"
    and t: "\<not> rt_closed t" "rt_lastTime t = Num 0" "rt_cache t = stored_cache"
    using advertise_request [OF parts] parts by auto
  have input: "stringify advertise_wire = Inr (Some (json_text advertise_wire))" by (rule stringify_plain) (rule advertise_text)
  have same: "reachable (\<lambda>x. x = t) (router_step small_opt) t" by (rule reach_start) simp
  have now: "router_now small_opt t = (Inr (Num 0), t\<lparr>rt_log := rt_log t @ [Clock], rt_lastTime := Num 0\<rparr>)" using small_now t by simp
  have ttl: "rc_ttlMs (rt_cache sent) = 10" if "onQueue (enqueue control_id bs) sent = (Inr y, t)" for bs sent y
    using that t(3) by (auto simp: onQueue_def stored_cache_def cache_store_def seqE_run prog_run newRequestCache_def split: prod.splits)
  have fresh: "map_of (rc_entries (purge (Num 0) (rt_cache welcomed_state))) (ustr ''1'') = None" using parts(6) by (simp add: purge_def newRequestCache_def)
  obtain e :: cached and now0 s1 sent x where e: "router_now small_opt welcomed_state = (Inr now0, s1)" "onQueue (enqueue control_id (ca_output e)) sent = (Inr x, t)"
    "map_of (rc_entries (purge now0 (rt_cache welcomed_state))) (ustr ''1'') = None \<longrightarrow> ca_expires e = num_add now0 (NumI (rc_ttlMs (rt_cache sent)))"
    "\<not> num_le (ca_expires e) (Num 0) \<longrightarrow> router_request small_opt advertise_wire (ustr ''1'') t = seqE (onQueue (enqueue control_id (ca_output e))) (retE ())
      (t\<lparr>rt_log := rt_log t @ [Clock], rt_lastTime := Num 0, rt_cache := purge (Num 0) (rt_cache t)\<rparr>)"
    using request_answered_again [OF input run same t(1) now] by (elim exE conjE) (rule that, assumption, assumption, assumption, simp)
  have "now0 = Num 0" using e(1) small_now [of small_opt welcomed_state] parts(5) by simp
  then have "\<not> num_le (ca_expires e) (Num 0)" using e(3) fresh ttl [OF e(2)] num_later by simp
  then have again: "router_request small_opt advertise_wire (ustr ''1'') t = seqE (onQueue (enqueue control_id (ca_output e))) (retE ())
      (t\<lparr>rt_log := rt_log t @ [Clock], rt_lastTime := Num 0, rt_cache := purge (Num 0) (rt_cache t)\<rparr>)" using e(4) by blast
  show ?thesis by (rule exI [of _ t], rule exI [of _ "ca_output e"],
      rule exI [of _ "t\<lparr>rt_log := rt_log t @ [Clock], rt_lastTime := Num 0, rt_cache := purge (Num 0) (rt_cache t)\<rparr>"], rule exI [of _ sent])
    (use run again e(2) in auto)
qed

end
