(* ===== verification/Router_Closing.thy ===== *)
theory Router_Closing
  imports Router_Streams
begin

text \<open>
  What a closed session still does (\<open>router/index.ts\<close>, \<open>router/video.ts\<close>), and a viewer that is never detached.
\<close>

section \<open>A closed session\<close>

lemma closed_runs:
  assumes "router_inv opt s" and "rt_closed s"
  shows "receive opt label raw s = (Inr (), s)" and "router_sample opt sid native s = (Inr (), s)" and "flush opt s = (Inr (), s)"
    and "router_close opt s = (Inr (), s)" and "router_event opt wire s = (Inr (), s)" and "router_error opt rid s = (Inr (), s)"
proof -
  have none: "rt_subscriptions s = []" using assms by (simp add: router_inv_def streams_ok_def)
  show "receive opt label raw s = (Inr (), s)" using assms(2) by (simp add: receive_def bindE_run prog_run)
  show "router_sample opt sid native s = (Inr (), s)" using none by (simp add: router_sample_def bindE_run prog_run)
  show "flush opt s = (Inr (), s)" using assms(2) by (subst flush_unfold) (simp add: flush_with_def bindE_run prog_run)
  show "router_close opt s = (Inr (), s)" using assms(2) by (simp add: router_close_def bindE_run prog_run)
  show "router_error opt rid s = (Inr (), s)" using assms(2) by (simp add: router_error_def error_with_def bindE_run prog_run)
  show "router_event opt wire s = (Inr (), s)" using assms(2)
    by (simp add: router_event_def event_with_def error_with_def respond_def bindE_run seqE_run catchE_run throwIf_run prog_run)
qed

text \<open>A source may still report a state, and a decoder may still ask for a keyframe.\<close>

lemma closed_viewer:
  assumes "rt_closed s"
  shows "\<exists>b. viewer_state opt track st s = (Inr (), s\<lparr>rt_bound := b\<rparr>)"
proof -
  have silent: "event_with again opt w t = (Inr (), t)" if "rt_closed t" for again w t
    using that by (simp add: event_with_def error_with_def respond_def bindE_run seqE_run catchE_run throwIf_run prog_run)
  let ?b = "if st = VFailed then AList.map_entry track (\<lambda>x. x\<lparr>vb_watching := False, vb_attached := False\<rparr>) (rt_bound s) else rt_bound s"
  have "viewer_state opt track st s = (Inr (), s\<lparr>rt_bound := ?b\<rparr>)"
    using assms by (simp add: viewer_state_def viewer_state_with_def set_bind_def bindE_run seqE_run prog_run silent split: option.split)
  then show ?thesis by blast
qed

fun is_keyframe :: "effect \<Rightarrow> bool" where
  "is_keyframe (VideoKeyframe track) = True"
| "is_keyframe _ = False"

lemma closed_step:
  assumes "router_inv opt s" and "rt_closed s" and "router_step opt s t"
  shows "rt_closed t \<and> (\<exists>rest. rt_log t = rt_log s @ rest \<and> list_all is_keyframe rest)"
  using assms(3)
proof cases
  case (reported track st)
  then show ?thesis using closed_viewer [OF assms(2), of opt track st] assms(2) by auto
next
  case (keyframe track)
  then show ?thesis using assms(2) by (auto simp: slot_keyframe_def perform_def bindE_run seqE_run prog_run)
qed (use assms closed_runs [OF assms(1,2)] in auto)

lemma closed_forever:
  assumes "reachable (\<lambda>x. x = s) (router_step opt) t" and "router_inv opt s" and "rt_closed s"
  shows "router_inv opt t \<and> rt_closed t \<and> (\<exists>rest. rt_log t = rt_log s @ rest \<and> list_all is_keyframe rest)"
  using assms
proof (induction rule: reachable.induct)
  case (reach_step t u)
  then have t: "router_inv opt t" "rt_closed t" by auto
  obtain rest more where "rt_log t = rt_log s @ rest" "list_all is_keyframe rest" "rt_log u = rt_log t @ more" "list_all is_keyframe more"
    using reach_step closed_step [OF t reach_step.hyps(2)] by blast
  then have "rt_log u = rt_log s @ (rest @ more) \<and> list_all is_keyframe (rest @ more)" by simp
  then show ?case using router_step_inv [OF t(1) reach_step.hyps(2)] closed_step [OF t reach_step.hyps(2)] by blast
qed auto

section \<open>A session that is closed while it attaches a viewer\<close>

text \<open>
  One negotiated video slot, room for one control message, and a transport that takes nothing.
\<close>

definition stalled :: answers where
  "stalled = granting\<lparr>on_send := (\<lambda>_. Inr False), on_videoAttach := (\<lambda>_. ([VStarting], Inr ()))\<rparr>"

definition video_slot :: videoSlotInfo where
  "video_slot = \<lparr>slot_mid = ustr ''0'', slot_profileLevelId = ustr ''42e01f''\<rparr>"

definition video_setup :: routerSetup where
  "video_setup = small_setup\<lparr>su_config := (su_config small_setup)\<lparr>cfg_topics := []\<rparr>, su_bindings := [], su_maxRequests := NumI 1,
     su_video := Some [video_slot], su_oracle := stalled\<rparr>"

definition video_opt :: routerOptions where
  "video_opt = small_opt\<lparr>ro_entries := [], ro_hasVideo := True, ro_oracle := stalled\<rparr>"

definition control_queue :: "bytes list \<Rightarrow> queue" where
  "control_queue ms = \<lparr>q_options = \<lparr>maxStreams = 2, maxBytes = 1024, maxMessageBytes = 256\<rparr>,
     q_streams = [(control_id, (fresh_stream ''reliable'' (NumI 1))\<lparr>s_messages := ms\<rparr>)], q_bytes = message_bytes ms, q_dropped = 0\<rparr>"

definition video_state :: router where
  "video_state = small_state\<lparr>rt_queue := control_queue [], rt_cache := newRequestCache 1 10 1024, rt_free := [video_slot]\<rparr>"

lemma video_now:
  "rt_lastTime s = Num 0 \<Longrightarrow> router_now video_opt s = (Inr (Num 0), s\<lparr>rt_log := rt_log s @ [Clock], rt_lastTime := Num 0\<rparr>)"
  using small_clock
  by (simp add: router_now_def ask_def perform_def bindE_run seqE_run prog_run throwIf_run video_opt_def stalled_def granting_def)

lemma video_start: "newRouter video_setup small_guard = Inr (video_opt, video_state)"
proof -
  have two: "num_add (NumI 1) (NumI 1) = NumI 2" using num_add_int [of 1 1] by (simp add: MAX_SAFE_INTEGER_def)
  have queue: "newDeliveryQueue (NumI 2) (NumI 1024) (NumI 256) =
      Inr \<lparr>q_options = \<lparr>maxStreams = 2, maxBytes = 1024, maxMessageBytes = 256\<rparr>, q_streams = [], q_bytes = 0, q_dropped = 0\<rparr>"
    using small_limits by (simp add: newDeliveryQueue_def failIf_def MAX_SAFE_INTEGER_def)
  have reg: "register control_id ''reliable'' (NumI 1) \<lparr>q_options = \<lparr>maxStreams = 2, maxBytes = 1024, maxMessageBytes = 256\<rparr>, q_streams = [], q_bytes = 0, q_dropped = 0\<rparr>
      = (Inr (), control_queue [])"
    using small_identifiers(5) by (simp add: register_Inr control_queue_def fresh_stream_def MAX_SAFE_INTEGER_def del: identifier_Inr)
  have now: "router_now (video_opt\<lparr>ro_sessionId := []\<rparr>) s = (Inr (Num 0), s\<lparr>rt_log := rt_log s @ [Clock], rt_lastTime := Num 0\<rparr>)" if "rt_lastTime s = Num 0" for s
    using video_now [OF that] by (simp add: router_now_def ask_def bindE_run video_opt_def)
  show ?thesis
    using two queue reg small_limits small_identifiers(1) now small_open
    by (simp add: newRouter_def video_setup_def small_setup_def seqE_run del: identifier_v.simps)
       (simp add: video_opt_def small_opt_def video_state_def small_state_def MAX_SAFE_INTEGER_def seqE_run)
qed

text \<open>The greeting is answered, but the answer stays in the queue.\<close>

definition greeting :: jsval where
  "greeting = mk_wire ''welcome'' [(''epoch'', Str (ustr ''e'')), (''catalog'', mk_arr [])]"

definition watch_wire :: jsval where
  "watch_wire = mk_wire ''video.subscribe'' [(''id'', Str (ustr ''1'')), (''track'', Str (ustr ''0''))]"

definition starting_wire :: jsval where
  "starting_wire = mk_wire ''video.state'' [(''track'', Str (ustr ''0'')), (''mid'', Str (ustr ''0'')), (''state'', Str (ustr ''starting''))]"

lemma video_encoded:
  "encodeWire greeting 256 = Inr (raw_of greeting)" "raw_of greeting \<noteq> []" "length (raw_of greeting) \<le> 256"
  "encodeWire starting_wire 256 = Inr (raw_of starting_wire)" "raw_of starting_wire \<noteq> []" "length (raw_of starting_wire) \<le> 256"
proof -
  have plain: "plain_json greeting" "plain_json starting_wire" by (simp_all add: greeting_def starting_wire_def wire_text_simps)
  have eq: "json_text greeting = ustr (''{'' @ quoted ''v'' @ '':1,'' @ quoted ''op'' @ '':'' @ quoted ''welcome'' @ '','' @ quoted ''epoch'' @ '':'' @ quoted ''e''
      @ '','' @ quoted ''catalog'' @ '':[]}'')"
    by (simp add: greeting_def wire_text_simps flip: ustr_append)
  have eq': "json_text starting_wire = ustr (''{'' @ quoted ''v'' @ '':1,'' @ quoted ''op'' @ '':'' @ quoted ''video.state'' @ '','' @ quoted ''track'' @ '':'' @ quoted ''0''
      @ '','' @ quoted ''mid'' @ '':'' @ quoted ''0'' @ '','' @ quoted ''state'' @ '':'' @ quoted ''starting'' @ ''}'')"
    by (simp add: starting_wire_def wire_text_simps flip: ustr_append)
  show "encodeWire greeting 256 = Inr (raw_of greeting)" "raw_of greeting \<noteq> []" "length (raw_of greeting) \<le> 256"
    by (rule encode_raw [OF plain(1) eq]; simp add: quoted_def)+
  show "encodeWire starting_wire 256 = Inr (raw_of starting_wire)" "raw_of starting_wire \<noteq> []" "length (raw_of starting_wire) \<le> 256"
    by (rule encode_raw [OF plain(2) eq']; simp add: quoted_def)+
qed

lemma watch_text:
  "plain_json watch_wire" "json_text watch_wire = ustr (''{'' @ quoted ''v'' @ '':1,'' @ quoted ''op'' @ '':'' @ quoted ''video.subscribe'' @ '','' @ quoted ''id'' @ '':'' @ quoted ''1''
      @ '','' @ quoted ''track'' @ '':'' @ quoted ''0'' @ ''}'')"
  by (simp_all add: watch_wire_def wire_text_simps flip: ustr_append)

lemma watch_parsed: "parseWire (raw_of watch_wire) 256 = Inr watch_wire"
  using watch_text unfolding watch_wire_def by (rule parse_raw) (simp_all add: quoted_def)

lemma watch_fields:
  "get_prop watch_wire (ustr ''id'') = Str (ustr ''1'')" "get_prop watch_wire (ustr ''op'') = Str (ustr ''video.subscribe'')"
  "wire_fields watch_wire [''id'', ''track''] = Inr ()" "get_prop watch_wire (ustr ''track'') = Str (ustr ''0'')"
  by (simp_all add: watch_wire_def mk_wire_def wire_fields_def)

lemma watch_texts: "textField watch_wire ''id'' = Inr (ustr ''1'')" "textField watch_wire ''track'' = Inr (ustr ''0'')"
  by (simp_all add: textField_def Let_def watch_fields identifiers del: get_prop.simps identifier_v.simps)

lemma video_opt_simps [simp]:
  "ro_maxBytes video_opt = 256" "ro_oracle video_opt = stalled" "ro_requestTtlMs video_opt = 10" "ro_maxControlRateHz video_opt = 5"
  "ro_epoch video_opt = ustr ''e''" "ro_sessionId video_opt = ustr ''g:1''" "ro_entries video_opt = []" "ro_hasVideo video_opt"
  by (simp_all add: video_opt_def)

lemma stalled_simps [simp]:
  "on_send stalled h = Inr False" "on_videoAttach stalled h = ([VStarting], Inr ())" "on_videoAuthorize stalled h = Inr True"
  "on_videoCatalog stalled h = []" "on_videoProfile stalled h = NumI 66" "on_unsubscribe stalled h = Inr ()"
  by (simp_all add: stalled_def granting_def)

lemma video_rate:
  "rt_lastTime s = Num 0 \<Longrightarrow> rt_controlWindow s = Num 0 \<Longrightarrow> rt_controlCount s < 5 \<Longrightarrow>
     controlRate video_opt s = (Inr (), s\<lparr>rt_lastTime := Num 0, rt_log := rt_log s @ [Clock], rt_controlCount := rt_controlCount s + 1\<rparr>)"
  using to_double_int [of 0]
  by (simp add: controlRate_def bindE_run seqE_run prog_run throwIf_run video_now Let_def)

lemma enqueue_first:
  "rt_queue s = control_queue [] \<Longrightarrow> m \<noteq> [] \<Longrightarrow> length m \<le> 256 \<Longrightarrow> onQueue (enqueue control_id m) s = (Inr True, s\<lparr>rt_queue := control_queue [m]\<rparr>)"
  by (simp add: onQueue_def enqueue_def stream_of_run set_stream_def add_bytes_def bindE_run seqE_run prog_run throwIf_run control_queue_def fresh_stream_def)

lemma flush_stalled:
  assumes "rt_queue s = control_queue [m]" and "\<not> rt_closed s" and "rt_subscriptions s = []" and "rt_bound s = []"
  shows "flush video_opt s = (Inr (), s\<lparr>rt_log := rt_log s @ [Send ControlChannel m]\<rparr>)"
proof -
  have "peek control_id (control_queue [m]) = (Inr (Some m), control_queue [m])" by (simp add: peek_run control_queue_def fresh_stream_def)
  then have "drain video_opt control_id ControlChannel s = (Inr False, s\<lparr>rt_log := rt_log s @ [Send ControlChannel m]\<rparr>)"
    using assms by (subst drain_unfold) (simp add: drain_step_def onQueue_def demand_def ask_def perform_def bindE_run seqE_run prog_run)
  then show ?thesis using assms
    by (subst flush_unfold) (simp add: flush_with_def revalidate_with_def bindE_run seqE_run prog_run)
qed

definition greeted_state :: router where
  "greeted_state = video_state\<lparr>rt_controlCount := 1, rt_welcomed := True, rt_queue := control_queue [raw_of greeting],
     rt_log := [Clock, Clock, VideoCatalog, Send ControlChannel (raw_of greeting)]\<rparr>"

lemma greet_run: "receive video_opt control_label (raw_of hello_wire) video_state = (Inr (), greeted_state)"
proof -
  define s1 where "s1 = video_state\<lparr>rt_log := [Clock, Clock], rt_controlCount := 1\<rparr>"
  have rate: "controlRate video_opt video_state = (Inr (), s1)" by (subst video_rate) (simp_all add: video_state_def small_state_def s1_def)
  have no_id: "get_prop hello_wire (ustr ''id'') = Undefined" and op: "get_prop hello_wire (ustr ''op'') = Str (ustr ''hello'')"
    and fields: "wire_fields hello_wire [] = Inr ()"
    by (simp_all add: hello_wire_def mk_wire_def wire_fields_def)
  have head: "receive_head video_opt control_label (raw_of hello_wire) video_state = (Inr (ControlChannel, hello_wire, None), s1)"
    using rate hello_parsed no_id by (simp add: receive_head_def labels bindE_run seqE_run prog_run del: get_prop.simps)
  define s2 where "s2 = s1\<lparr>rt_log := rt_log s1 @ [VideoCatalog]\<rparr>"
  have catalog: "router_catalog video_opt s1 = (Inr [], s1)" by (simp add: router_catalog_def bindE_run prog_run)
  have parts: "\<not> rt_welcomed s1" "\<not> rt_closed s2" "rt_queue s2 = control_queue []" "\<not> rt_closed video_state" "rt_subscriptions s2 = []" "rt_bound s2 = []" "\<not> rt_closed s1"
    by (simp_all add: s1_def s2_def video_state_def small_state_def)
  have "router_control video_opt hello_wire None s1 = (Inr (), s2\<lparr>rt_queue := control_queue [raw_of greeting], rt_welcomed := True\<rparr>)"
    using catalog op fields video_encoded enqueue_first [of s2 "raw_of greeting"] parts
    by (simp add: router_control_def router_hello_def respond_def ask_def perform_def bindE_run seqE_run prog_run throwIf_run greeting_def [symmetric] s2_def [symmetric] del: get_prop.simps)
  then show ?thesis using head parts
    by (simp add: receive_def tryE_def bindE_run seqE_run catchE_run prog_run flush_stalled)
       (simp add: greeted_state_def s2_def s1_def video_state_def small_state_def)
qed

text \<open>The report that the source is starting overflows the control stream, which closes the session.\<close>

lemma enqueue_full:
  assumes "rt_queue s = control_queue [g]" and "m \<noteq> []" and "length m \<le> 256"
  shows "\<exists>q st. onQueue (enqueue control_id m) s = (Inl (Err ''slow_consumer''), s\<lparr>rt_queue := q\<rparr>) \<and> map_of (q_streams q) control_id = Some st \<and> s_stopped st"
proof -
  have "map_of (q_streams (control_queue [g])) control_id = Some ((fresh_stream ''reliable'' (NumI 1))\<lparr>s_messages := [g]\<rparr>)" by (simp add: control_queue_def)
  from enqueue_reliable [OF this, of m] assms show ?thesis
    by (intro exI [of _ "snd (enqueue control_id m (rt_queue s))"]) (simp add: onQueue_def size_ok_def room_def control_queue_def fresh_stream_def)
qed

lemma respond_stopped:
  assumes "map_of (q_streams (rt_queue s)) control_id = Some st" and "s_stopped st" and "\<not> rt_closed s"
  shows "\<exists>e. respond opt w s = (Inl e, s)"
  using assms enqueue_stopped [OF assms(1,2)]
  by (cases "encodeWire w (ro_maxBytes opt)") (simp_all add: respond_def onQueue_def bindE_run seqE_run prog_run throwIf_run)

lemma starting_closes:
  assumes "rt_queue s = control_queue [g]" and "\<not> rt_closed s" and "rt_subscriptions s = []"
    and "rt_bound s = [(ustr ''0'', \<lparr>vb_slot = video_slot, vb_watching = False, vb_attached = False\<rparr>)]"
  shows "\<exists>t. viewer_state_with again video_opt (ustr ''0'') VStarting s = (Inr (), t) \<and> rt_closed t \<and> rt_bound t = rt_bound s
    \<and> q_streams (rt_queue t) = [] \<and> rt_log t = rt_log s @ [OnClosed]"
proof -
  obtain q st where full: "onQueue (enqueue control_id (raw_of starting_wire)) s = (Inl (Err ''slow_consumer''), s\<lparr>rt_queue := q\<rparr>)"
    and st: "map_of (q_streams q) control_id = Some st" "s_stopped st" using enqueue_full [OF assms(1) video_encoded(5,6)] by blast
  define s1 where "s1 = s\<lparr>rt_queue := q\<rparr>"
  have state: "respond video_opt starting_wire s = (Inl (Err ''slow_consumer''), s1)"
    using assms(2) full video_encoded(4) by (simp add: respond_def bindE_run seqE_run prog_run throwIf_run s1_def)
  have fails: "\<exists>e. respond video_opt w s1 = (Inl e, s1)" for w using respond_stopped [of s1 st] st assms(2) by (simp add: s1_def)
  have close: "\<exists>t. router_close video_opt s1 = (Inr (), t) \<and> rt_closed t \<and> rt_bound t = rt_bound s \<and> q_streams (rt_queue t) = [] \<and> rt_log t = rt_log s @ [OnClosed]"
    using assms
    by (simp add: s1_def router_close_def video_close_def video_release_def set_bind_def unsubscribe_all_def onGuard_def onQueue_def onCache_def
        revokeSession_def clear_queue_def cache_clear_def perform_def bindE_run seqE_run prog_run throwIf_run)
  have "error_with again video_opt None s1 = router_close video_opt s1"
    using fails assms(2) by (simp add: error_with_def bindE_run catchE_run seqE_run prog_run s1_def) (metis (no_types, lifting) old.prod.case sum.case(1))
  then have "event_with again video_opt starting_wire s = router_close video_opt s1"
    using state by (simp add: event_with_def catchE_run seqE_run)
  moreover have "viewer_state_with again video_opt (ustr ''0'') VStarting s = event_with again video_opt starting_wire s"
    using assms(4) by (simp add: viewer_state_with_def bindE_run seqE_run prog_run starting_wire_def video_slot_def)
  ultimately show ?thesis using close by simp
qed

lemma watch_operation:
  assumes "rt_queue s = control_queue [g]" and "\<not> rt_closed s" and "rt_subscriptions s = []" and "rt_bound s = []" and "rt_free s = [video_slot]"
  shows "\<exists>w t. router_operation video_opt watch_wire (ustr ''1'') s = (Inr w, t) \<and> rt_closed t \<and> q_streams (rt_queue t) = []
    \<and> map_of (rt_bound t) (ustr ''0'') = Some \<lparr>vb_slot = video_slot, vb_watching = True, vb_attached = True\<rparr>
    \<and> rt_log t = rt_log s @ [VideoAuthorize (ustr ''0''), VideoProfile (ustr ''0''), VideoAttach (ustr ''0''), OnClosed]"
proof -
  have profile: "profileIdc (slot_profileLevelId video_slot) = NumI 66" unfolding video_slot_def by code_simp
  define s1 where "s1 = s\<lparr>rt_log := rt_log s @ [VideoAuthorize (ustr ''0''), VideoProfile (ustr ''0'')], rt_free := [],
      rt_bound := [(ustr ''0'', \<lparr>vb_slot = video_slot, vb_watching = False, vb_attached = False\<rparr>)]\<rparr>"
  have auth: "demand on_videoAuthorize video_opt (VideoAuthorize (ustr ''0'')) s = (Inr True, s\<lparr>rt_log := rt_log s @ [VideoAuthorize (ustr ''0'')]\<rparr>)"
    by (simp add: demand_def ask_def perform_def bindE_run seqE_run prog_run)
  have bound: "video_bind video_opt (ustr ''0'') (s\<lparr>rt_log := rt_log s @ [VideoAuthorize (ustr ''0'')]\<rparr>) = (Inr (), s1)"
    using assms(4,5) profile by (simp add: video_bind_def ask_def perform_def bindE_run seqE_run prog_run throwIf_run s1_def)
  define s2 where "s2 = s1\<lparr>rt_log := rt_log s1 @ [VideoAttach (ustr ''0'')]\<rparr>"
  obtain t where t: "viewer_state_with (flush video_opt) video_opt (ustr ''0'') VStarting s2 = (Inr (), t)" "rt_closed t" "rt_bound t = rt_bound s2"
    "q_streams (rt_queue t) = []" "rt_log t = rt_log s2 @ [OnClosed]"
    using starting_closes [of s2 g "flush video_opt"] assms by (auto simp: s1_def s2_def)
  have attached: "video_attach video_opt (ustr ''0'') s1 = (Inr (), t)"
    using t(1) by (simp add: video_attach_def ask_def perform_def bindE_run seqE_run prog_run s2_def)
  have prefix: "starts_with (ustr ''video.'') (ustr ''video.subscribe'')" by code_simp
  have op: "router_operation video_opt watch_wire (ustr ''1'') = video_operation video_opt watch_wire (ustr ''1'')"
    by (simp add: router_operation_def Let_def watch_fields prefix del: get_prop.simps)
  show ?thesis unfolding op
    using auth bound attached t
    by (simp add: video_operation_def Let_def watch_fields watch_texts bindE_run seqE_run prog_run throwIf_run set_bind_def s1_def s2_def del: get_prop.simps)
qed

lemma watch_run:
  "\<exists>s. receive video_opt control_label (raw_of watch_wire) greeted_state = (Inr (), s) \<and> rt_closed s
     \<and> map_of (rt_bound s) (ustr ''0'') = Some \<lparr>vb_slot = video_slot, vb_watching = True, vb_attached = True\<rparr>
     \<and> rt_log s = rt_log greeted_state @ [Clock, Clock, VideoAuthorize (ustr ''0''), VideoProfile (ustr ''0''), VideoAttach (ustr ''0''), OnClosed]"
proof -
  define s1 where "s1 = greeted_state\<lparr>rt_log := rt_log greeted_state @ [Clock], rt_controlCount := 2\<rparr>"
  have rate: "controlRate video_opt greeted_state = (Inr (), s1)"
    by (subst video_rate) (simp_all add: greeted_state_def video_state_def small_state_def s1_def)
  have head: "receive_head video_opt control_label (raw_of watch_wire) greeted_state = (Inr (ControlChannel, watch_wire, Some (ustr ''1'')), s1)"
    using rate watch_parsed by (simp add: receive_head_def labels bindE_run seqE_run prog_run watch_fields watch_texts del: get_prop.simps)
  define s2 where "s2 = s1\<lparr>rt_log := rt_log s1 @ [Clock]\<rparr>"
  have parts: "rt_queue s2 = control_queue [raw_of greeting]" "\<not> rt_closed s2" "rt_subscriptions s2 = []" "rt_bound s2 = []" "rt_free s2 = [video_slot]"
    "rt_cache s2 = newRequestCache 1 10 1024" "rt_welcomed s1" "rt_lastTime s1 = Num 0" "\<not> rt_closed greeted_state"
    by (simp_all add: s1_def s2_def greeted_state_def video_state_def small_state_def)
  have now: "router_now video_opt s1 = (Inr (Num 0), s2)" using video_now [OF parts(8)] parts(8) by (simp add: s2_def)
  have input: "stringify watch_wire = Inr (Some (json_text watch_wire))" by (rule stringify_plain) (rule watch_text)
  have len: "length (json_text watch_wire) = 51" using watch_text by (simp add: quoted_def)
  have miss: "onCache (cache_lookup (ustr ''1'') (json_text watch_wire) (Num 0)) s2 = (Inr None, s2)"
    using parts(6) by (simp add: onCache_def cache_lookup_run purge_def newRequestCache_def)
  have room: "onCache (cache_reserve (256 + int (length (json_text watch_wire)) * 2)) s2 = (Inr (), s2)"
    using parts(6) by (simp add: onCache_def cache_reserve_def bindE_run prog_run throwIf_run newRequestCache_def len)
  obtain w t where t: "router_operation video_opt watch_wire (ustr ''1'') s2 = (Inr w, t)" "rt_closed t" "q_streams (rt_queue t) = []"
    "map_of (rt_bound t) (ustr ''0'') = Some \<lparr>vb_slot = video_slot, vb_watching = True, vb_attached = True\<rparr>"
    "rt_log t = rt_log s2 @ [VideoAuthorize (ustr ''0''), VideoProfile (ustr ''0''), VideoAttach (ustr ''0''), OnClosed]"
    using watch_operation [OF parts(1-5)] by blast
  have "\<exists>e c. router_request video_opt watch_wire (ustr ''1'') s1 = (Inl e, t\<lparr>rt_cache := c\<rparr>)"
  proof (cases "encodeWire w 256")
    case (Inl e)
    then show ?thesis using now input miss room t(1)
      by (intro exI [of _ e] exI [of _ "rt_cache t"]) (simp add: router_request_def bindE_run seqE_run prog_run Let_def)
  next
    case (Inr bs)
    define c where "c = snd (cache_store (ustr ''1'') (json_text watch_wire) bs (Num 0) (rt_cache t))"
    have stored: "onCache (cache_store (ustr ''1'') (json_text watch_wire) bs (Num 0)) t = (Inr (), t\<lparr>rt_cache := c\<rparr>)"
      by (simp add: onCache_def cache_store_def seqE_run prog_run c_def)
    have refused: "onQueue (enqueue control_id bs) (t\<lparr>rt_cache := c\<rparr>) = (Inl (Err ''unknown_stream''), t\<lparr>rt_cache := c\<rparr>)"
      using t(3) by (simp add: onQueue_def enqueue_unknown)
    show ?thesis using now input miss room t(1) Inr stored refused
      by (intro exI [of _ "Err ''unknown_stream''"] exI [of _ c]) (simp add: router_request_def bindE_run seqE_run prog_run Let_def)
  qed
  then obtain e c where req: "router_request video_opt watch_wire (ustr ''1'') s1 = (Inl e, t\<lparr>rt_cache := c\<rparr>)" by blast
  have "router_control video_opt watch_wire (Some (ustr ''1'')) s1 = router_request video_opt watch_wire (ustr ''1'') s1"
    using parts(7) by (simp add: router_control_def Let_def watch_fields bindE_run seqE_run prog_run throwIf_run del: get_prop.simps)
  then have "receive video_opt control_label (raw_of watch_wire) greeted_state = (Inr (), t\<lparr>rt_cache := c\<rparr>)"
    using head req t(2) parts(9)
    by (simp add: receive_def tryE_def router_error_def error_with_def bindE_run seqE_run catchE_run prog_run)
  then show ?thesis using t by (simp add: s2_def s1_def)
qed

section \<open>Properties\<close>

text \<open>
  C39: A closed session is inert. Once a router is closed, messages of the peer, samples of ROS, flushes,
  events, errors and closing again return without any effect, and in every later state the only things
  it has asked of the outside are keyframes.
\<close>

theorem closed_router_inert:
  assumes "reachable (router_start opt) (router_step opt) s" and "rt_closed s"
  shows "receive opt label raw s = (Inr (), s) \<and> router_sample opt sid native s = (Inr (), s) \<and> flush opt s = (Inr (), s)
    \<and> router_close opt s = (Inr (), s) \<and> router_event opt wire s = (Inr (), s) \<and> router_error opt rid s = (Inr (), s)
    \<and> (reachable (\<lambda>x. x = s) (router_step opt) t \<longrightarrow> rt_closed t \<and> (\<exists>rest. rt_log t = rt_log s @ rest \<and> list_all is_keyframe rest))"
  using closed_runs [OF session.reachable_inv [OF assms(1)] assms(2)] closed_forever [OF _ session.reachable_inv [OF assms(1)] assms(2)] by blast

theorem closed_router_inert_witness:
  "receive small_opt control_label (raw_of hello_wire) small_closed = (Inr (), small_closed) \<and> flush small_opt small_closed = (Inr (), small_closed)"
  using closed_router_inert [OF small_closed_reachable small_closed_closed] by blast

text \<open>
  C38: A viewer can outlive its session. When the report that a source is starting, made while the viewer is
  being attached, overflows the control stream, the session closes before the viewer counts as
  attached, so closing does not detach it; then the attachment is completed. There is a session that
  ends closed with an attached viewer, and in no later state has the viewer been detached.
\<close>

theorem closing_attach_leaks:
  "\<exists>opt s track b. reachable (router_start opt) (router_step opt) s \<and> rt_closed s
     \<and> map_of (rt_bound s) track = Some b \<and> vb_attached b \<and> VideoAttach track \<in> set (rt_log s)
     \<and> \<not> (\<exists>t. reachable (\<lambda>x. x = s) (router_step opt) t \<and> VideoDetach track \<in> set (rt_log t))"
proof -
  obtain s where run: "receive video_opt control_label (raw_of watch_wire) greeted_state = (Inr (), s)" and s: "rt_closed s"
    "map_of (rt_bound s) (ustr ''0'') = Some \<lparr>vb_slot = video_slot, vb_watching = True, vb_attached = True\<rparr>"
    "rt_log s = rt_log greeted_state @ [Clock, Clock, VideoAuthorize (ustr ''0''), VideoProfile (ustr ''0''), VideoAttach (ustr ''0''), OnClosed]"
    using watch_run by blast
  have step: "reachable (router_start video_opt) (router_step video_opt) v"
    if "reachable (router_start video_opt) (router_step video_opt) u" "receive video_opt label raw u = (r, v)" for u label raw r v
    using reach_step [OF that(1) router_step.received, of label raw] that(2) by simp
  have "reachable (router_start video_opt) (router_step video_opt) video_state"
    by (rule reach_start) (use video_start in \<open>auto simp: router_start_def\<close>)
  then have reach: "reachable (router_start video_opt) (router_step video_opt) s" using step [OF step [OF _ greet_run] run] by blast
  have "VideoDetach (ustr ''0'') \<notin> set (rt_log t)" if later: "reachable (\<lambda>x. x = s) (router_step video_opt) t" for t
  proof -
    obtain rest where "rt_log t = rt_log s @ rest" "list_all is_keyframe rest"
      using closed_forever [OF later session.reachable_inv [OF reach] s(1)] by blast
    then show ?thesis by (auto simp: s(3) greeted_state_def list_all_iff)
  qed
  then show ?thesis using reach s by (intro exI [of _ video_opt] exI [of _ s] exI [of _ "ustr ''0''"] exI) auto
qed

end
