(* ===== verification/Ros_Adapter.thy ===== *)
theory Ros_Adapter
  imports Router_Wire Config Codec
begin

text \<open>
  \<open>ros/adapter.ts\<close>: the ROS entities of the process, created once and shared by all sessions. The
  backend, the listeners and \<open>onError\<close> are outside: every call of them is an entry of \<open>ad_log\<close>, and what
  they answer is a function of the log up to and including the call. A listener may throw and may
  unsubscribe listeners, its own or others, while it runs; \<open>onError\<close> does not throw. A listener is
  identified by a number, a native publisher by what it was created with, a native subscription by
  the key it was created for.
\<close>

section \<open>State\<close>

record registration =
  rg_binding :: topicBinding
  rg_codec :: codec

datatype adapterState = ANew | ARunning | AClosed

type_synonym entity = "ustring \<times> ustring \<times> qos"

datatype rosEffect =
    CreatePublisher entity
  | CreateSubscription entity
  | Spin
  | BackendClose
  | NativePublish entity jsval
  | Listener ustring nat jsval
  | OnError error

record rosAnswers =
  ra_create :: "rosEffect list \<Rightarrow> unit result"
  ra_spin :: "rosEffect list \<Rightarrow> unit result"
  ra_close :: "rosEffect list \<Rightarrow> unit result"
  ra_publish :: "rosEffect list \<Rightarrow> unit result"
  ra_listener :: "rosEffect list \<Rightarrow> (ustring \<times> nat) list \<times> unit result"

record adapter =
  ad_registrations :: "(ustring \<times> registration) list"
  ad_listeners :: "(ustring \<times> nat list) list"
  ad_publishers :: "(ustring \<times> entity) list"
  ad_subscriptions :: "(ustring \<times> ustring list) list"
  ad_state :: adapterState
  ad_log :: "rosEffect list"

section \<open>Operations\<close>

fun reliability_key :: "reliability \<Rightarrow> string" where
  "reliability_key QReliable = ''reliable''" | "reliability_key QBestEffort = ''best_effort''"

fun durability_key :: "durability \<Rightarrow> string" where
  "durability_key QVolatile = ''volatile''" | "durability_key QTransientLocal = ''transient_local''"

definition entity_json :: "topicBinding \<Rightarrow> jsval" where
  "entity_json b = mk_arr [Str (rosTopic b), Str (rosType b), Str (ustr ''keep_last''), Number (NumI (q_depth (b_qos b))),
     Str (ustr (reliability_key (q_reliability (b_qos b)))), Str (ustr (durability_key (q_durability (b_qos b))))]"

definition entityKey :: "registration \<Rightarrow> ustring" where
  "entityKey e = (case stringify (entity_json (rg_binding e)) of Inr (Some t) \<Rightarrow> t | _ \<Rightarrow> [])"

definition entity_of :: "registration \<Rightarrow> entity" where
  "entity_of e = (rosType (rg_binding e), rosTopic (rg_binding e), b_qos (rg_binding e))"

fun register_entries :: "registration list \<Rightarrow> (ustring \<times> registration) list \<Rightarrow> (ustring \<times> registration) list result" where
  "register_entries [] table = Inr table"
| "register_entries (e # es) table =
     bindR (failIf (publicName (rg_binding e) \<in> set (keys table)) (Err ''duplicate_ros_registration'')) (\<lambda>_.
     register_entries es (AList.update (publicName (rg_binding e)) e table))"

definition newAdapter :: "registration list \<Rightarrow> adapter result" where
  "newAdapter registry =
     bindR (register_entries registry []) (\<lambda>table.
     Inr \<lparr>ad_registrations = table, ad_listeners = map (\<lambda>(name, _). (name, [])) table, ad_publishers = [], ad_subscriptions = [],
          ad_state = ANew, ad_log = []\<rparr>)"

text \<open>A call of the outside that may throw.\<close>

definition ros_call :: "(rosEffect list \<Rightarrow> 'a result) \<Rightarrow> rosEffect \<Rightarrow> (adapter, 'a) prog" where
  "ros_call f x = seqE (modE (\<lambda>s. s\<lparr>ad_log := ad_log s @ [x]\<rparr>)) (bindE (getE ad_log) (\<lambda>h. liftE (f h)))"

definition on_error :: "error \<Rightarrow> (adapter, unit) prog" where
  "on_error e = modE (\<lambda>s. s\<lparr>ad_log := ad_log s @ [OnError e]\<rparr>)"

definition adapter_close :: "rosAnswers \<Rightarrow> (adapter, unit) prog" where
  "adapter_close a =
     bindE (getE ad_state) (\<lambda>st.
     if st = AClosed then retE ()
     else seqE (modE (\<lambda>s. s\<lparr>ad_state := AClosed\<rparr>))
         (seqE (modE (\<lambda>s. s\<lparr>ad_listeners := [], ad_publishers := []\<rparr>))
         (ros_call (ra_close a) BackendClose)))"

text \<open>One round of the loop of \<open>start\<close>.\<close>

definition create_entity :: "rosAnswers \<Rightarrow> ustring \<times> registration \<Rightarrow> (adapter, unit) prog" where
  "create_entity a p =
     (case p of (name, entry) \<Rightarrow>
      let key = entityKey entry in
      if b_direction (rg_binding entry) = WebToRos then
        bindE (getE (\<lambda>s. key \<in> set (keys (ad_publishers s)))) (\<lambda>has.
        if has then retE ()
        else seqE (ros_call (ra_create a) (CreatePublisher (entity_of entry)))
                  (modE (\<lambda>s. s\<lparr>ad_publishers := AList.update key (entity_of entry) (ad_publishers s)\<rparr>)))
      else
        bindE (getE (\<lambda>s. map_of (ad_subscriptions s) key)) (\<lambda>existing.
        case existing of
          Some aliases \<Rightarrow> modE (\<lambda>s. s\<lparr>ad_subscriptions := AList.map_entry key (\<lambda>l. l @ [name]) (ad_subscriptions s)\<rparr>)
        | None \<Rightarrow> seqE (modE (\<lambda>s. s\<lparr>ad_subscriptions := AList.update key [name] (ad_subscriptions s)\<rparr>))
                       (ros_call (ra_create a) (CreateSubscription (entity_of entry)))))"

definition adapter_start :: "rosAnswers \<Rightarrow> (adapter, unit) prog" where
  "adapter_start a =
     bindE (getE ad_state) (\<lambda>st.
     seqE (throwIf (st \<noteq> ANew) (Err ''ros_adapter_not_new''))
    (catchE
      (seqE (bindE (getE ad_registrations) (forE (create_entity a)))
      (seqE (modE (\<lambda>s. s\<lparr>ad_state := ARunning\<rparr>)) (ros_call (ra_spin a) Spin)))
      (\<lambda>e. seqE (catchE (adapter_close a) (\<lambda>_. throwE (Err ''ros_start_cleanup_failed''))) (throwE e))))"

definition registration_of :: "ustring \<Rightarrow> direction \<Rightarrow> (adapter, registration) prog" where
  "registration_of name dir =
     bindE (getE ad_state) (\<lambda>st.
     seqE (throwIf (st \<noteq> ARunning) (Err ''ros_adapter_not_running''))
    (bindE (getE (\<lambda>s. map_of (ad_registrations s) name)) (\<lambda>found.
     case found of
       None \<Rightarrow> throwE (Err ''ros_binding_denied'')
     | Some entry \<Rightarrow> seqE (throwIf (b_direction (rg_binding entry) \<noteq> dir) (Err ''ros_binding_denied'')) (retE entry))))"

text \<open>\<open>subscribe\<close>, and the function it returns.\<close>

definition adapter_subscribe :: "ustring \<Rightarrow> nat \<Rightarrow> (adapter, unit) prog" where
  "adapter_subscribe name cb =
     seqE (registration_of name RosToWeb)
          (modE (\<lambda>s. s\<lparr>ad_listeners := AList.map_entry name (\<lambda>l. if cb \<in> set l then l else l @ [cb]) (ad_listeners s)\<rparr>))"

definition adapter_unsubscribe :: "ustring \<Rightarrow> nat \<Rightarrow> (adapter, unit) prog" where
  "adapter_unsubscribe name cb = modE (\<lambda>s. s\<lparr>ad_listeners := AList.map_entry name (removeAll cb) (ad_listeners s)\<rparr>)"

definition adapter_publish :: "rosAnswers \<Rightarrow> ustring \<Rightarrow> jsval \<Rightarrow> (adapter, unit) prog" where
  "adapter_publish a name native =
     bindE (registration_of name WebToRos) (\<lambda>entry.
     bindE (liftE (bindR (codec_encode (rg_codec entry) native) (codec_decode (rg_codec entry)))) (\<lambda>normalized.
     bindE (getE (\<lambda>s. map_of (ad_publishers s) (entityKey entry))) (\<lambda>found.
     case found of
       None \<Rightarrow> throwE (TypeErr ''Cannot read properties of undefined'')
     | Some ent \<Rightarrow> ros_call (ra_publish a) (NativePublish ent normalized))))"

text \<open>A listener is called; it may unsubscribe listeners before it returns or throws.\<close>

definition call_listener :: "rosAnswers \<Rightarrow> ustring \<Rightarrow> nat \<Rightarrow> jsval \<Rightarrow> (adapter, unit) prog" where
  "call_listener a name cb v =
     bindE (ros_call (\<lambda>h. Inr (ra_listener a h)) (Listener name cb v)) (\<lambda>(removed, outcome).
     seqE (forE (\<lambda>(n, c). adapter_unsubscribe n c) removed) (liftE outcome))"

definition deliver_one :: "rosAnswers \<Rightarrow> ustring \<Rightarrow> codec \<Rightarrow> jsval \<Rightarrow> nat \<Rightarrow> (adapter, unit) prog" where
  "deliver_one a name c wire cb =
     bindE (getE (\<lambda>s. case map_of (ad_listeners s) name of None \<Rightarrow> False | Some l \<Rightarrow> cb \<in> set l)) (\<lambda>has.
     if \<not> has then retE ()
     else catchE (bindE (liftE (codec_decode c wire)) (call_listener a name cb)) on_error)"

definition adapter_receive :: "rosAnswers \<Rightarrow> ustring \<Rightarrow> jsval \<Rightarrow> (adapter, unit) prog" where
  "adapter_receive a name native =
     bindE (getE ad_state) (\<lambda>st.
     if st \<noteq> ARunning then retE ()
     else catchE
       (bindE (getE (\<lambda>s. map_of (ad_registrations s) name)) (\<lambda>found.
        case found of
          None \<Rightarrow> throwE (TypeErr ''Cannot read properties of undefined'')
        | Some entry \<Rightarrow>
            bindE (liftE (codec_encode (rg_codec entry) native)) (\<lambda>wire.
            bindE (getE (\<lambda>s. map_of (ad_listeners s) name)) (\<lambda>ls.
            case ls of
              None \<Rightarrow> throwE (TypeErr ''undefined is not iterable'')
            | Some l \<Rightarrow> forE (deliver_one a name (rg_codec entry) wire) l))))
       on_error)"

text \<open>The callback of a native subscription.\<close>

definition native_sample :: "rosAnswers \<Rightarrow> ustring \<Rightarrow> jsval \<Rightarrow> (adapter, unit) prog" where
  "native_sample a key native =
     bindE (getE (\<lambda>s. map_of (ad_subscriptions s) key)) (\<lambda>found.
     case found of None \<Rightarrow> retE () | Some aliases \<Rightarrow> forE (\<lambda>alias. adapter_receive a alias native) aliases)"

section \<open>Entity keys\<close>

definition depth_ok :: "registration \<Rightarrow> bool" where
  "depth_ok e \<longleftrightarrow> isSafeInteger (NumI (q_depth (b_qos (rg_binding e))))"

lemma json_text_inj: "plain_json v \<Longrightarrow> plain_json w \<Longrightarrow> json_text v = json_text w \<Longrightarrow> v = w"
  using json_roundtrip by (metis sum.inject(2))

lemma texts_inj: "reliability_key r = reliability_key r' \<longleftrightarrow> r = r'" "durability_key d = durability_key d' \<longleftrightarrow> d = d'"
  by (cases r; cases r'; cases d; cases d'; simp)+

lemma entity_plain: "depth_ok e \<Longrightarrow> plain_json (entity_json (rg_binding e))"
  by (simp add: entity_json_def depth_ok_def mk_arr_def)

text \<open>Two registrations share a key exactly when they ask for the same entity.\<close>

lemma entityKey_eq: "depth_ok e \<Longrightarrow> depth_ok e' \<Longrightarrow> entityKey e = entityKey e' \<longleftrightarrow> entity_of e = entity_of e'"
proof -
  assume ok: "depth_ok e" "depth_ok e'"
  have "entityKey e = json_text (entity_json (rg_binding e))" "entityKey e' = json_text (entity_json (rg_binding e'))"
    using ok by (simp_all add: entityKey_def stringify_plain entity_plain)
  then have "entityKey e = entityKey e' \<longleftrightarrow> entity_json (rg_binding e) = entity_json (rg_binding e')"
    using json_text_inj ok entity_plain by metis
  also have "\<dots> \<longleftrightarrow> entity_of e = entity_of e'"
    by (auto simp: entity_json_def entity_of_def mk_arr_def texts_inj intro: qos.equality)
  finally show ?thesis .
qed

section \<open>Start\<close>

lemmas adapter_runs = bindE_run seqE_run catchE_run prog_run throwIf_run

lemma ros_call_run: "ros_call f x s = (f (ad_log s @ [x]), s\<lparr>ad_log := ad_log s @ [x]\<rparr>)"
  by (simp add: ros_call_def adapter_runs)

definition writes :: "ustring \<times> registration \<Rightarrow> bool" where
  "writes p \<longleftrightarrow> b_direction (rg_binding (snd p)) = WebToRos"

definition aliases_of :: "ustring \<Rightarrow> (ustring \<times> registration) list \<Rightarrow> ustring list" where
  "aliases_of key ps = map fst (filter (\<lambda>p. \<not> writes p \<and> entityKey (snd p) = key) ps)"

text \<open>What has been created once the loop has gone through the registrations \<open>seen\<close>.\<close>

definition outputs :: "(ustring \<times> registration) list \<Rightarrow> (ustring \<times> entity) set" where
  "outputs ps = (\<lambda>p. (entityKey (snd p), entity_of (snd p))) ` set (filter writes ps)"

definition inputs :: "(ustring \<times> registration) list \<Rightarrow> entity set" where
  "inputs ps = (\<lambda>p. entity_of (snd p)) ` set (filter (\<lambda>p. \<not> writes p) ps)"

definition creations :: "(ustring \<times> registration) list \<Rightarrow> rosEffect set" where
  "creations ps = CreatePublisher ` snd ` outputs ps \<union> CreateSubscription ` inputs ps"

definition created :: "(ustring \<times> registration) list \<Rightarrow> adapter \<Rightarrow> bool" where
  "created seen s \<longleftrightarrow>
     (\<forall>key ent. map_of (ad_publishers s) key = Some ent \<longleftrightarrow> (key, ent) \<in> outputs seen)
     \<and> (\<forall>key. map_of (ad_subscriptions s) key = (if aliases_of key seen = [] then None else Some (aliases_of key seen)))
     \<and> distinct (ad_log s) \<and> set (ad_log s) = creations seen"

lemma outputs_snoc: "outputs (ps @ [p]) = (if writes p then insert (entityKey (snd p), entity_of (snd p)) (outputs ps) else outputs ps)"
  by (simp add: outputs_def)

lemma inputs_snoc: "inputs (ps @ [p]) = (if writes p then inputs ps else insert (entity_of (snd p)) (inputs ps))"
  by (simp add: inputs_def)

lemma aliases_snoc: "aliases_of key (seen @ [p]) = aliases_of key seen @ (if \<not> writes p \<and> entityKey (snd p) = key then [fst p] else [])"
  by (simp add: aliases_of_def)

lemma aliases_empty: "aliases_of key ps = [] \<longleftrightarrow> \<not> (\<exists>p \<in> set ps. \<not> writes p \<and> entityKey (snd p) = key)"
  by (auto simp: aliases_of_def filter_empty_conv)

lemma create_step:
  assumes "created seen s" and ok: "\<forall>q \<in> set (seen @ [p]). depth_ok (snd q)" and run: "create_entity a p s = (Inr (), t)"
  shows "created (seen @ [p]) t \<and> ad_listeners t = ad_listeners s \<and> ad_registrations t = ad_registrations s \<and> ad_state t = ad_state s"
proof -
  obtain name entry where p: "p = (name, entry)" by (cases p)
  let ?key = "entityKey entry"
  have same: "entityKey (snd q) = ?key \<longleftrightarrow> entity_of (snd q) = entity_of entry" if "q \<in> set seen" for q
    using ok that p by (intro entityKey_eq) auto
  have c: "\<And>key ent. map_of (ad_publishers s) key = Some ent \<longleftrightarrow> (key, ent) \<in> outputs seen"
    "\<And>key. map_of (ad_subscriptions s) key = (if aliases_of key seen = [] then None else Some (aliases_of key seen))"
    "distinct (ad_log s)" "set (ad_log s) = creations seen" using assms(1) unfolding created_def by blast+
  show ?thesis
  proof (cases "writes p")
    case True
    have subs: "aliases_of k (seen @ [p]) = aliases_of k seen" "inputs (seen @ [p]) = inputs seen" for k using True by (simp_all add: aliases_snoc inputs_snoc)
    show ?thesis
    proof (cases "map_of (ad_publishers s) ?key")
      case (Some ent)
      then have known: "?key \<in> set (keys (ad_publishers s))" by (force dest: map_of_SomeD)
      have "(?key, ent) \<in> outputs seen" using Some c(1) by blast
      then obtain q where "q \<in> set seen" "?key = entityKey (snd q)" "ent = entity_of (snd q)" by (auto simp: outputs_def)
      then have "ent = entity_of entry" using same by metis
      then have out: "outputs (seen @ [p]) = outputs seen" using True \<open>(?key, ent) \<in> outputs seen\<close> by (simp add: outputs_snoc p insert_absorb)
      have "t = s" using run True known by (simp add: create_entity_def p writes_def adapter_runs Let_def)
      then show ?thesis using assms(1) by (simp add: created_def creations_def subs out)
    next
      case None
      then have fresh: "?key \<notin> set (keys (ad_publishers s))" by (simp add: map_of_eq_None_iff)
      have t: "t = s\<lparr>ad_log := ad_log s @ [CreatePublisher (entity_of entry)], ad_publishers := AList.update ?key (entity_of entry) (ad_publishers s)\<rparr>"
        using run True fresh by (auto simp: create_entity_def p writes_def adapter_runs Let_def ros_call_run split: sum.splits)
      have none: "(k, entity_of entry) \<notin> outputs seen" for k
      proof
        assume "(k, entity_of entry) \<in> outputs seen"
        then obtain q where "q \<in> set seen" "writes q" "entity_of (snd q) = entity_of entry" by (auto simp: outputs_def)
        then have "(?key, entity_of entry) \<in> outputs seen" using same [of q] by (force simp: outputs_def)
        then show False using None c(1) by (metis option.distinct(1))
      qed
      have "(?key, x) \<notin> outputs seen" for x using None c(1) by (metis option.distinct(1))
      then have "\<forall>key ent. map_of (ad_publishers t) key = Some ent \<longleftrightarrow> (key, ent) \<in> outputs (seen @ [p])"
        using True c(1) by (auto simp: t outputs_snoc p)
      moreover have "distinct (ad_log t)" using c(3,4) none by (auto simp: t creations_def)
      moreover have "set (ad_log t) = creations (seen @ [p])" using c(4) True by (simp add: t creations_def outputs_snoc inputs_snoc p)
      ultimately show ?thesis using c(2) by (simp add: created_def subs t)
    qed
  next
    case False
    have out: "outputs (seen @ [p]) = outputs seen" using False by (simp add: outputs_snoc)
    show ?thesis
    proof (cases "map_of (ad_subscriptions s) ?key")
      case (Some aliases)
      then have al: "aliases = aliases_of ?key seen" "aliases \<noteq> []" using c(2) by (metis option.distinct(1) option.inject)+
      then have "entity_of entry \<in> inputs seen" using same aliases_empty [of ?key seen] by (force simp: inputs_def)
      then have inp: "inputs (seen @ [p]) = inputs seen" using False by (simp add: inputs_snoc p insert_absorb)
      have t: "t = s\<lparr>ad_subscriptions := AList.map_entry ?key (\<lambda>l. l @ [name]) (ad_subscriptions s)\<rparr>"
        using run False Some by (simp add: create_entity_def p writes_def adapter_runs Let_def)
      have "map_of (ad_subscriptions t) k = (if aliases_of k (seen @ [p]) = [] then None else Some (aliases_of k (seen @ [p])))" for k
        using c(2) [of k] Some al False by (simp add: t map_of_map_entry' aliases_snoc p)
      then show ?thesis using c by (simp add: created_def creations_def out inp t)
    next
      case None
      then have none: "aliases_of ?key seen = []" using c(2) by (metis option.distinct(1))
      then have "entity_of entry \<notin> inputs seen" using aliases_empty [of ?key seen] same by (auto simp: inputs_def)
      moreover have t: "t = s\<lparr>ad_subscriptions := AList.update ?key [name] (ad_subscriptions s), ad_log := ad_log s @ [CreateSubscription (entity_of entry)]\<rparr>"
        using run False None by (auto simp: create_entity_def p writes_def adapter_runs Let_def ros_call_run split: sum.splits)
      ultimately have "distinct (ad_log t)" using c(3,4) by (auto simp: creations_def)
      moreover have "set (ad_log t) = creations (seen @ [p])" using c(4) False by (simp add: t creations_def outputs_snoc inputs_snoc p)
      moreover have "map_of (ad_subscriptions t) k = (if aliases_of k (seen @ [p]) = [] then None else Some (aliases_of k (seen @ [p])))" for k
        using c(2) [of k] none False by (simp add: t aliases_snoc p)
      ultimately show ?thesis using c(1) by (simp add: created_def out t)
    qed
  qed
qed

lemma created_all:
  assumes "created seen s" and "\<forall>q \<in> set (seen @ ps). depth_ok (snd q)" and "forE (create_entity a) ps s = (Inr (), t)"
  shows "created (seen @ ps) t \<and> ad_listeners t = ad_listeners s \<and> ad_registrations t = ad_registrations s \<and> ad_state t = ad_state s"
  using assms
proof (induction ps arbitrary: seen s)
  case Nil
  then show ?case by (simp add: prog_run)
next
  case (Cons p ps)
  then obtain u where u: "create_entity a p s = (Inr (), u)" "forE (create_entity a) ps u = (Inr (), t)" by (auto simp: run_Inr)
  have "\<forall>q \<in> set (seen @ [p]). depth_ok (snd q)" "\<forall>q \<in> set ((seen @ [p]) @ ps). depth_ok (snd q)" using Cons.prems(2) by auto
  then show ?case using create_step [OF Cons.prems(1) _ u(1)] Cons.IH [of "seen @ [p]" u, OF _ _ u(2)] by simp
qed

section \<open>Invariant\<close>

definition codec_ok :: "codec \<Rightarrow> bool" where
  "codec_ok c \<longleftrightarrow> codec_options_ok (cd_options c) \<and> field_ok (cd_schema c)"

text \<open>What the registry promises: a codec built from a schema, and a depth that is a safe integer.\<close>

definition registration_ok :: "registration \<Rightarrow> bool" where
  "registration_ok e \<longleftrightarrow> depth_ok e \<and> codec_ok (rg_codec e)"

lemma codec_decodes: "codec_ok c \<Longrightarrow> codec_encode c native = Inr wire \<Longrightarrow> \<exists>v. codec_decode c wire = Inr v"
proof -
  assume ok: "codec_ok c" and enc: "codec_encode c native = Inr wire"
  have opts: "codec_options_ok (cd_options c)" "field_ok (cd_schema c)" using ok by (simp_all add: codec_ok_def)
  show ?thesis using convert_back [OF opts, where encode = True] enc by (auto simp: codec_encode_def codec_decode_def)
qed

definition listening :: "ustring \<Rightarrow> adapter \<Rightarrow> nat set" where
  "listening name s = (case map_of (ad_listeners s) name of None \<Rightarrow> {} | Some l \<Rightarrow> set l)"

definition entities_ready :: "adapter \<Rightarrow> bool" where
  "entities_ready s \<longleftrightarrow>
     (\<forall>key ent. map_of (ad_publishers s) key = Some ent \<longleftrightarrow> (key, ent) \<in> outputs (ad_registrations s))
     \<and> (\<forall>key. map_of (ad_subscriptions s) key =
           (if aliases_of key (ad_registrations s) = [] then None else Some (aliases_of key (ad_registrations s))))"

definition adapter_inv :: "adapter \<Rightarrow> bool" where
  "adapter_inv s \<longleftrightarrow>
     distinct (keys (ad_registrations s)) \<and> (\<forall>p \<in> set (ad_registrations s). registration_ok (snd p))
     \<and> (\<forall>p \<in> set (ad_listeners s). distinct (snd p))
     \<and> (ad_state s = ANew \<longrightarrow> keys (ad_listeners s) = keys (ad_registrations s) \<and> ad_publishers s = [] \<and> ad_subscriptions s = [] \<and> ad_log s = [])
     \<and> (ad_state s = ARunning \<longrightarrow> keys (ad_listeners s) = keys (ad_registrations s) \<and> entities_ready s)
     \<and> (ad_state s = AClosed \<longrightarrow> ad_listeners s = [] \<and> ad_publishers s = [])
     \<and> count_list (ad_log s) BackendClose = (if ad_state s = AClosed then 1 else 0)"

lemma register_entries_table:
  "register_entries es table = Inr t \<Longrightarrow> distinct (keys table) \<Longrightarrow>
     t = table @ map (\<lambda>e. (publicName (rg_binding e), e)) es \<and> distinct (keys t)"
proof (induction es arbitrary: table)
  case (Cons e es)
  then have new: "publicName (rg_binding e) \<notin> set (keys table)" by auto
  then have "AList.update (publicName (rg_binding e)) e table = table @ [(publicName (rg_binding e), e)]" by (induction table) auto
  then have "register_entries es (table @ [(publicName (rg_binding e), e)]) = Inr t" "distinct (keys (table @ [(publicName (rg_binding e), e)]))"
    using Cons.prems new by (auto simp: bindR_eq_Inr)
  note rest = Cons.IH [OF this]
  show ?case by (intro conjI conjunct2 [OF rest]) (simp add: conjunct1 [OF rest])
qed simp

lemma newAdapter_inv:
  assumes "newAdapter registry = Inr s" and "\<forall>e \<in> set registry. registration_ok e"
  shows "adapter_inv s" and "ad_state s = ANew" and "ad_registrations s = map (\<lambda>e. (publicName (rg_binding e), e)) registry"
proof -
  obtain table where table: "register_entries registry [] = Inr table"
    and s: "s = \<lparr>ad_registrations = table, ad_listeners = map (\<lambda>(name, _). (name, [])) table, ad_publishers = [], ad_subscriptions = [],
          ad_state = ANew, ad_log = []\<rparr>" using assms(1) by (auto simp: newAdapter_def bindR_eq_Inr)
  have t: "table = map (\<lambda>e. (publicName (rg_binding e), e)) registry" "distinct (keys table)" using register_entries_table [OF table] by auto
  then show "ad_registrations s = map (\<lambda>e. (publicName (rg_binding e), e)) registry" by (simp add: s)
  show "ad_state s = ANew" by (simp add: s)
  have "keys (map (\<lambda>(name, _). (name, [])) table) = keys table" by (induction table) auto
  then show "adapter_inv s" using t assms(2) by (auto simp: adapter_inv_def s)
qed

section \<open>What the operations do\<close>

lemma adapter_close_run:
  "adapter_close a s = (if ad_state s = AClosed then (Inr (), s)
     else (ra_close a (ad_log s @ [BackendClose]), s\<lparr>ad_state := AClosed, ad_listeners := [], ad_publishers := [], ad_log := ad_log s @ [BackendClose]\<rparr>))"
  by (simp add: adapter_close_def adapter_runs ros_call_run)

definition starting_up :: "adapter \<Rightarrow> adapter \<Rightarrow> bool" where
  "starting_up s t \<longleftrightarrow> ad_registrations t = ad_registrations s \<and> ad_listeners t = ad_listeners s \<and> ad_state t = ad_state s \<and> BackendClose \<notin> set (ad_log t)"

lemma create_opening: "keeps (starting_up s) (create_entity a p)"
  unfolding create_entity_def
  by (auto simp: keeps_def starting_up_def adapter_runs ros_call_run Let_def split: prod.splits option.splits sum.splits)

lemma closed_inv:
  assumes "adapter_inv s" and "ad_registrations t = ad_registrations s" and "count_list (ad_log t) BackendClose = 0" and "ad_state t \<noteq> AClosed"
  shows "adapter_inv (snd (adapter_close a t))" and "ad_state (snd (adapter_close a t)) = AClosed"
  using assms by (simp_all add: adapter_inv_def adapter_close_run)

lemma start_cases:
  assumes "adapter_inv s"
  obtains (used) "ad_state s \<noteq> ANew" "adapter_start a s = (Inl (Err ''ros_adapter_not_new''), s)"
  | (failed) e t where "ad_state s = ANew" "starting_up s t \<or> (\<exists>u. starting_up s u \<and> t = u\<lparr>ad_state := ARunning, ad_log := ad_log u @ [Spin]\<rparr>)"
      "adapter_start a s = (case adapter_close a t of (Inl _, v) \<Rightarrow> (Inl (Err ''ros_start_cleanup_failed''), v) | (Inr _, v) \<Rightarrow> (Inl e, v))"
  | (running) t where "ad_state s = ANew" "created (ad_registrations s) t" "starting_up s t"
      "adapter_start a s = (Inr (), t\<lparr>ad_state := ARunning, ad_log := ad_log t @ [Spin]\<rparr>)"
proof (cases "ad_state s = ANew")
  case False
  then show ?thesis by (intro used) (auto simp: adapter_start_def adapter_runs)
next
  case True
  have "starting_up s s" using assms True by (simp add: starting_up_def adapter_inv_def)
  obtain r t where loop: "forE (create_entity a) (ad_registrations s) s = (r, t)" by fastforce
  have t: "starting_up s t" using keepsD [OF keeps_forE [OF create_opening] \<open>starting_up s s\<close> loop] .
  define u where "u = t\<lparr>ad_state := ARunning, ad_log := ad_log t @ [Spin]\<rparr>"
  have run: "adapter_start a s = (case r of
      Inl e \<Rightarrow> (case adapter_close a t of (Inl _, v) \<Rightarrow> (Inl (Err ''ros_start_cleanup_failed''), v) | (Inr _, v) \<Rightarrow> (Inl e, v))
    | Inr _ \<Rightarrow> (case ra_spin a (ad_log t @ [Spin]) of
        Inl e \<Rightarrow> (case adapter_close a u of (Inl _, v) \<Rightarrow> (Inl (Err ''ros_start_cleanup_failed''), v) | (Inr _, v) \<Rightarrow> (Inl e, v))
      | Inr _ \<Rightarrow> (Inr (), u)))"
    using True loop
    by (simp add: adapter_start_def adapter_runs ros_call_run u_def split: sum.split prod.split)
  show ?thesis
  proof (cases r)
    case (Inl e)
    then show ?thesis using failed [OF True disjI1 [OF t], of e] run by simp
  next
    case (Inr x)
    then have all: "forE (create_entity a) (ad_registrations s) s = (Inr (), t)" using loop by simp
    have none: "created [] s" using assms True by (simp add: created_def adapter_inv_def aliases_of_def outputs_def creations_def inputs_def)
    have depths: "\<forall>q \<in> set ([] @ ad_registrations s). depth_ok (snd q)" using assms by (auto simp: adapter_inv_def registration_ok_def)
    have "created (ad_registrations s) t" using created_all [OF none depths all] by simp
    show ?thesis
    proof (cases "ra_spin a (ad_log t @ [Spin])")
      case (Inl e)
      have "\<exists>v. starting_up s v \<and> u = v\<lparr>ad_state := ARunning, ad_log := ad_log v @ [Spin]\<rparr>" using t u_def by blast
      from failed [OF True disjI2 [OF this], of e] show ?thesis using run Inl \<open>r = Inr x\<close> by simp
    next
      case (Inr y)
      from running [OF True \<open>created _ t\<close> t] show ?thesis using run Inr \<open>r = Inr x\<close> by (simp add: u_def)
    qed
  qed
qed

lemma adapter_start_inv:
  assumes "adapter_inv s"
  shows "adapter_inv (snd (adapter_start a s))"
  using assms
proof (cases rule: start_cases [where a = a])
  case (failed e t)
  have "ad_registrations t = ad_registrations s" "count_list (ad_log t) BackendClose = 0" "ad_state t \<noteq> AClosed"
    using failed(1,2) by (auto simp: starting_up_def count_list_0_iff)
  from closed_inv(1) [OF assms this, of a] show ?thesis using failed(3) by (auto split: prod.splits sum.splits)
next
  case (running t)
  then show ?thesis using assms by (auto simp: adapter_inv_def starting_up_def created_def entities_ready_def count_list_0_iff)
qed (use assms in simp)

lemma registration_run:
  "registration_of name dir s =
     (if ad_state s \<noteq> ARunning then Inl (Err ''ros_adapter_not_running'')
      else case map_of (ad_registrations s) name of
             None \<Rightarrow> Inl (Err ''ros_binding_denied'')
           | Some e \<Rightarrow> if b_direction (rg_binding e) \<noteq> dir then Inl (Err ''ros_binding_denied'') else Inr e, s)"
  by (simp add: registration_of_def adapter_runs split: option.split)

text \<open>In a running adapter the publisher of a binding is always there, and it is the one created for the binding's own topic, type and QoS.\<close>

lemma publisher_found:
  assumes "adapter_inv s" and "ad_state s = ARunning" and "map_of (ad_registrations s) name = Some e" and "b_direction (rg_binding e) = WebToRos"
  shows "map_of (ad_publishers s) (entityKey e) = Some (entity_of e)"
proof -
  have "(name, e) \<in> set (ad_registrations s)" using assms(3) by (rule map_of_SomeD)
  then have "(entityKey e, entity_of e) \<in> outputs (ad_registrations s)" using assms(4) by (force simp: outputs_def writes_def)
  then show ?thesis using assms(1,2) unfolding adapter_inv_def entities_ready_def by blast
qed

lemma adapter_publish_run:
  assumes "adapter_inv s"
  shows "adapter_publish a name native s =
    (if ad_state s \<noteq> ARunning then (Inl (Err ''ros_adapter_not_running''), s)
     else case map_of (ad_registrations s) name of
            None \<Rightarrow> (Inl (Err ''ros_binding_denied''), s)
          | Some e \<Rightarrow>
              if b_direction (rg_binding e) \<noteq> WebToRos then (Inl (Err ''ros_binding_denied''), s)
              else case bindR (codec_encode (rg_codec e) native) (codec_decode (rg_codec e)) of
                     Inl err \<Rightarrow> (Inl err, s)
                   | Inr v \<Rightarrow> (ra_publish a (ad_log s @ [NativePublish (entity_of e) v]), s\<lparr>ad_log := ad_log s @ [NativePublish (entity_of e) v]\<rparr>))"
  using publisher_found [OF assms]
  by (auto simp: adapter_publish_def registration_run adapter_runs ros_call_run split: option.split sum.split)

lemma inv_log:
  "adapter_inv s \<Longrightarrow> ad_state s \<noteq> ANew \<Longrightarrow> BackendClose \<notin> set new \<Longrightarrow> adapter_inv (s\<lparr>ad_log := ad_log s @ new\<rparr>)"
  by (auto simp: adapter_inv_def entities_ready_def count_list_0_iff)

lemma publish_inv: "adapter_inv s \<Longrightarrow> adapter_inv (snd (adapter_publish a name native s))"
  using inv_log [of s] by (auto simp: adapter_publish_run split: option.split sum.split)

lemma inv_listeners:
  assumes "adapter_inv s" and "\<And>l. distinct l \<Longrightarrow> distinct (f l)"
  shows "adapter_inv (s\<lparr>ad_listeners := AList.map_entry name f (ad_listeners s)\<rparr>)"
proof -
  have "distinct (snd p)" if "p \<in> set (AList.map_entry name f (ad_listeners s))" for p
    using set_map_entry [OF that] assms by (force simp: adapter_inv_def)
  then show ?thesis using assms(1) by (auto simp: adapter_inv_def entities_ready_def)
qed

lemma subscribe_inv': "adapter_inv s \<Longrightarrow> adapter_inv (snd (adapter_subscribe name cb s))"
  by (auto simp: adapter_subscribe_def adapter_runs registration_run split: option.split intro!: inv_listeners)

lemma unsubscribe_inv: "adapter_inv s \<Longrightarrow> adapter_inv (snd (adapter_unsubscribe name cb s))"
  by (auto simp: adapter_unsubscribe_def prog_run intro!: inv_listeners distinct_removeAll)

section \<open>Fan-out\<close>

text \<open>During a delivery listeners may leave, and nothing else changes but the log.\<close>

definition leaving :: "adapter \<Rightarrow> adapter \<Rightarrow> bool" where
  "leaving s t \<longleftrightarrow> ad_registrations t = ad_registrations s \<and> ad_publishers t = ad_publishers s \<and> ad_subscriptions t = ad_subscriptions s
     \<and> ad_state t = ad_state s \<and> keys (ad_listeners t) = keys (ad_listeners s) \<and> (\<forall>n. listening n t \<subseteq> listening n s)"

lemma listening_log [simp]: "listening n (s\<lparr>ad_log := l\<rparr>) = listening n s"
  by (simp add: listening_def)

lemma leaving_refl [simp]: "leaving s s"
  by (simp add: leaving_def)

lemma leaving_trans: "leaving s t \<Longrightarrow> leaving t u \<Longrightarrow> leaving s u"
  unfolding leaving_def by (metis order_trans)

lemma leaving_log [simp]: "leaving s (t\<lparr>ad_log := l\<rparr>) = leaving s t"
  by (simp add: leaving_def listening_def)

lemma unsubscribe_leaving: "leaving s (s\<lparr>ad_listeners := AList.map_entry name (removeAll cb) (ad_listeners s)\<rparr>)"
  by (auto simp: leaving_def listening_def map_of_map_entry' split: option.splits if_splits)

lemma unsubscribe_all_leaving:
  "\<exists>t. forE (\<lambda>(n, c). adapter_unsubscribe n c) removed s = (Inr (), t) \<and> leaving s t \<and> ad_log t = ad_log s \<and> (adapter_inv s \<longrightarrow> adapter_inv t)"
proof (induction removed arbitrary: s)
  case (Cons p removed)
  obtain n c where p: "p = (n, c)" by (cases p)
  let ?s = "s\<lparr>ad_listeners := AList.map_entry n (removeAll c) (ad_listeners s)\<rparr>"
  have "adapter_inv s \<longrightarrow> adapter_inv ?s" using unsubscribe_inv [of s n c] by (simp add: adapter_unsubscribe_def prog_run)
  then show ?case using Cons.IH [of ?s] leaving_trans [OF unsubscribe_leaving [of s n c]]
    by (auto simp: p adapter_unsubscribe_def adapter_runs)
qed (simp add: prog_run)

text \<open>One listener: it is called if it is still there, and what it throws is reported.\<close>

lemma deliver_one_run:
  assumes "codec_decode c wire = Inr v" and "adapter_inv s" and "ad_state s = ARunning"
  shows "\<exists>t errors. deliver_one a name c wire cb s = (Inr (), t) \<and> leaving s t \<and> adapter_inv t \<and> set errors \<subseteq> range OnError
    \<and> ad_log t = ad_log s @ (if cb \<in> listening name s then Listener name cb v # errors else [])"
proof (cases "cb \<in> listening name s")
  case False
  then show ?thesis using assms(2) by (auto simp: deliver_one_def adapter_runs listening_def intro!: exI [of _ s] exI [of _ "[]"] split: option.splits)
next
  case True
  define s1 where "s1 = s\<lparr>ad_log := ad_log s @ [Listener name cb v]\<rparr>"
  obtain removed outcome where ans: "ra_listener a (ad_log s1) = (removed, outcome)" by fastforce
  have "adapter_inv s1" using inv_log [OF assms(2), of "[Listener name cb v]"] assms(3) by (simp add: s1_def)
  then obtain t where t: "forE (\<lambda>(n, c). adapter_unsubscribe n c) removed s1 = (Inr (), t)" "leaving s1 t" "ad_log t = ad_log s1" "adapter_inv t"
    using unsubscribe_all_leaving [of removed s1] by blast
  have st: "leaving s t" "ad_state t \<noteq> ANew" using t(2) assms(3) leaving_trans [of s s1 t] by (simp_all add: s1_def leaving_def)
  have call: "call_listener a name cb v s = (outcome, t)"
    using t(1) ans by (cases outcome) (simp_all add: call_listener_def ros_call_run adapter_runs s1_def)
  have has: "(case map_of (ad_listeners s) name of None \<Rightarrow> False | Some l \<Rightarrow> cb \<in> set l)" using True by (auto simp: listening_def split: option.splits)
  show ?thesis
  proof (cases outcome)
    case (Inl e)
    then have "deliver_one a name c wire cb s = (Inr (), t\<lparr>ad_log := ad_log t @ [OnError e]\<rparr>)"
      using has call assms(1) by (simp add: deliver_one_def adapter_runs on_error_def)
    moreover have "adapter_inv (t\<lparr>ad_log := ad_log t @ [OnError e]\<rparr>)" using inv_log [OF t(4) st(2), of "[OnError e]"] by simp
    ultimately show ?thesis using st(1) t(3) True by (intro exI [of _ "t\<lparr>ad_log := ad_log t @ [OnError e]\<rparr>"] exI [of _ "[OnError e]"]) (simp add: s1_def)
  next
    case (Inr x)
    then have "deliver_one a name c wire cb s = (Inr (), t)" using has call assms(1) by (simp add: deliver_one_def adapter_runs)
    then show ?thesis using st(1) t(3,4) True by (intro exI [of _ t] exI [of _ "[]"]) (simp add: s1_def)
  qed
qed

fun is_listener :: "rosEffect \<Rightarrow> bool" where
  "is_listener (Listener n cb v) = True"
| "is_listener _ = False"

lemma errors_quiet: "set errors \<subseteq> range OnError \<Longrightarrow> filter is_listener errors = []"
  by (induction errors) auto

text \<open>All listeners of a name: each that does not leave is called once.\<close>

lemma deliver_all:
  assumes "codec_decode c wire = Inr v" and "adapter_inv s" and "ad_state s = ARunning" and "distinct ls"
  shows "\<exists>t new called. forE (deliver_one a name c wire) ls s = (Inr (), t) \<and> leaving s t \<and> adapter_inv t \<and> ad_log t = ad_log s @ new
    \<and> filter is_listener new = map (\<lambda>cb. Listener name cb v) called \<and> distinct called \<and> set called \<subseteq> set ls \<inter> listening name s
    \<and> set ls \<inter> listening name t \<subseteq> set called"
  using assms(2-)
proof (induction ls arbitrary: s)
  case Nil
  then show ?case by (auto simp: prog_run intro!: exI [of _ s] exI [of _ "[]"])
next
  case (Cons cb ls)
  obtain u errors where u: "deliver_one a name c wire cb s = (Inr (), u)" "leaving s u" "adapter_inv u" "set errors \<subseteq> range OnError"
    "ad_log u = ad_log s @ (if cb \<in> listening name s then Listener name cb v # errors else [])"
    using deliver_one_run [OF assms(1) Cons.prems(1,2)] by blast
  have "ad_state u = ARunning" using u(2) Cons.prems(2) by (simp add: leaving_def)
  then obtain t new called where t: "forE (deliver_one a name c wire) ls u = (Inr (), t)" "leaving u t" "adapter_inv t" "ad_log t = ad_log u @ new"
    "filter is_listener new = map (\<lambda>cb. Listener name cb v) called" "distinct called" "set called \<subseteq> set ls \<inter> listening name u" "set ls \<inter> listening name t \<subseteq> set called"
    using Cons.IH [OF u(3)] Cons.prems(3) by auto
  have sub: "listening name u \<subseteq> listening name s" "listening name t \<subseteq> listening name s" using u(2) leaving_trans [OF u(2) t(2)] by (auto simp: leaving_def)
  have run: "forE (deliver_one a name c wire) (cb # ls) s = (Inr (), t)" using u(1) t(1) by (simp add: adapter_runs)
  show ?case
  proof (cases "cb \<in> listening name s")
    case True
    show ?thesis
      by (rule exI [of _ t], rule exI [of _ "Listener name cb v # errors @ new"], rule exI [of _ "cb # called"])
         (use run u t sub True Cons.prems(3) leaving_trans [OF u(2) t(2)] errors_quiet in auto)
  next
    case False
    show ?thesis
      by (rule exI [of _ t], rule exI [of _ new], rule exI [of _ called])
         (use run u t sub False Cons.prems(3) leaving_trans [OF u(2) t(2)] in auto)
  qed
qed

text \<open>The calls of the listeners of one name in a log.\<close>

definition calls :: "ustring \<Rightarrow> rosEffect list \<Rightarrow> rosEffect list" where
  "calls n l = filter (\<lambda>x. case x of Listener m cb v \<Rightarrow> m = n | _ \<Rightarrow> False) l"

lemma calls_append [simp]: "calls n (xs @ ys) = calls n xs @ calls n ys"
  by (simp add: calls_def)

lemma calls_listeners: "calls n l = calls n (filter is_listener l)"
  unfolding calls_def filter_filter by (rule filter_cong) (auto split: rosEffect.splits)

lemma calls_of: "calls n (map (\<lambda>cb. Listener name cb v) called) = (if n = name then map (\<lambda>cb. Listener name cb v) called else [])"
  by (induction called) (simp_all add: calls_def)

text \<open>From \<open>s\<close> to \<open>t\<close> each listener of \<open>n\<close> that stays is called once with \<open>v\<close>, and no other is called.\<close>

definition fanned :: "jsval \<Rightarrow> ustring \<Rightarrow> adapter \<Rightarrow> adapter \<Rightarrow> rosEffect list \<Rightarrow> bool" where
  "fanned v n s t new \<longleftrightarrow> (\<exists>called. calls n new = map (\<lambda>cb. Listener n cb v) called \<and> distinct called
     \<and> listening n t \<subseteq> set called \<and> set called \<subseteq> listening n s)"

lemma fanned_within:
  "fanned v n s t new \<Longrightarrow> leaving s' s \<Longrightarrow> leaving t t' \<Longrightarrow> calls n before = [] \<Longrightarrow> calls n after = [] \<Longrightarrow> fanned v n s' t' (before @ new @ after)"
  unfolding fanned_def leaving_def by (metis append_Nil append_Nil2 calls_append order_trans)

lemma receive_stopped: "ad_state s \<noteq> ARunning \<Longrightarrow> adapter_receive a name native s = (Inr (), s)"
  by (simp add: adapter_receive_def adapter_runs)

lemma receive_run:
  assumes inv: "adapter_inv s" and run: "ad_state s = ARunning"
  shows "\<exists>t new. adapter_receive a name native s = (Inr (), t) \<and> leaving s t \<and> adapter_inv t \<and> ad_log t = ad_log s @ new
    \<and> (\<forall>n. n \<noteq> name \<longrightarrow> calls n new = [])
    \<and> (\<forall>e v. map_of (ad_registrations s) name = Some e \<longrightarrow> bindR (codec_encode (rg_codec e) native) (codec_decode (rg_codec e)) = Inr v
         \<longrightarrow> fanned v name s t new)"
    (is "\<exists>t new. ?P t new")
proof -
  have report: "\<exists>t new. ?P t new"
    if "adapter_receive a name native s = (Inr (), s\<lparr>ad_log := ad_log s @ [OnError err]\<rparr>)"
      and "\<And>e. map_of (ad_registrations s) name = Some e \<Longrightarrow> codec_encode (rg_codec e) native = Inl err" for err
    by (rule exI [of _ "s\<lparr>ad_log := ad_log s @ [OnError err]\<rparr>"], rule exI [of _ "[OnError err]"])
       (use that inv_log [OF inv, of "[OnError err]"] run in \<open>auto simp: calls_def bindR_eq_Inr\<close>)
  show ?thesis
  proof (cases "map_of (ad_registrations s) name")
    case None
    then have "adapter_receive a name native s = (Inr (), s\<lparr>ad_log := ad_log s @ [OnError (TypeErr ''Cannot read properties of undefined'')]\<rparr>)"
      by (simp add: adapter_receive_def adapter_runs run on_error_def)
    then show ?thesis by (rule report) (simp add: None)
  next
    case (Some e)
    show ?thesis
    proof (cases "codec_encode (rg_codec e) native")
      case (Inl err)
      then have "adapter_receive a name native s = (Inr (), s\<lparr>ad_log := ad_log s @ [OnError err]\<rparr>)"
        using Some by (simp add: adapter_receive_def adapter_runs run on_error_def)
      then show ?thesis by (rule report) (use Some Inl in simp)
    next
      case (Inr wire)
      have entry: "(name, e) \<in> set (ad_registrations s)" using Some by (rule map_of_SomeD)
      then have "codec_ok (rg_codec e)" using inv by (auto simp: adapter_inv_def registration_ok_def)
      then obtain v where v: "codec_decode (rg_codec e) wire = Inr v" using codec_decodes Inr by blast
      have "name \<in> set (keys (ad_listeners s))" using inv run entry by (force simp: adapter_inv_def)
      then obtain ls where ls: "map_of (ad_listeners s) name = Some ls" by (metis map_of_eq_None_iff option.exhaust set_map)
      have "(name, ls) \<in> set (ad_listeners s)" using ls by (rule map_of_SomeD)
      then have lset: "distinct ls" "listening name s = set ls" using inv ls unfolding adapter_inv_def listening_def by fastforce+
      obtain t new called where t: "forE (deliver_one a name (rg_codec e) wire) ls s = (Inr (), t)" "leaving s t" "adapter_inv t" "ad_log t = ad_log s @ new"
        "filter is_listener new = map (\<lambda>cb. Listener name cb v) called" "distinct called" "set called \<subseteq> set ls \<inter> listening name s" "set ls \<inter> listening name t \<subseteq> set called"
        using deliver_all [OF v inv run lset(1)] by blast
      have go: "adapter_receive a name native s = (Inr (), t)" using Some Inr ls t(1) run by (simp add: adapter_receive_def adapter_runs)
      have calls: "calls n new = (if n = name then map (\<lambda>cb. Listener name cb v) called else [])" for n
        using calls_listeners [of n new] calls_of [of n name v called] t(5) by simp
      have "listening name t \<subseteq> set ls" using t(2) lset(2) by (auto simp: leaving_def)
      then have "fanned v name s t new" unfolding fanned_def using calls t(6,7,8) by (intro exI [of _ called]) auto
      then show ?thesis using go t(2-4) calls Some Inr v by (intro exI [of _ t] exI [of _ new]) simp
    qed
  qed
qed

lemma receive_all_run:
  assumes "adapter_inv s" and "ad_state s = ARunning" and "distinct names"
  shows "\<exists>t new. forE (\<lambda>name. adapter_receive a name native) names s = (Inr (), t) \<and> leaving s t \<and> adapter_inv t \<and> ad_log t = ad_log s @ new
    \<and> (\<forall>n. n \<notin> set names \<longrightarrow> calls n new = [])
    \<and> (\<forall>n e v. n \<in> set names \<longrightarrow> map_of (ad_registrations s) n = Some e
         \<longrightarrow> bindR (codec_encode (rg_codec e) native) (codec_decode (rg_codec e)) = Inr v \<longrightarrow> fanned v n s t new)"
  using assms
proof (induction names arbitrary: s)
  case Nil
  then show ?case by (intro exI [of _ s] exI [of _ "[]"]) (simp add: prog_run calls_def)
next
  case (Cons m names)
  obtain u new1 where u: "adapter_receive a m native s = (Inr (), u)" "leaving s u" "adapter_inv u" "ad_log u = ad_log s @ new1"
    "\<And>n. n \<noteq> m \<Longrightarrow> calls n new1 = []"
    "\<And>e v. map_of (ad_registrations s) m = Some e \<Longrightarrow> bindR (codec_encode (rg_codec e) native) (codec_decode (rg_codec e)) = Inr v \<Longrightarrow> fanned v m s u new1"
    using receive_run [OF Cons.prems(1,2), of a m native] by blast
  have same: "ad_state u = ARunning" "ad_registrations u = ad_registrations s" using u(2) Cons.prems(2) by (simp_all add: leaving_def)
  obtain t new2 where t: "forE (\<lambda>name. adapter_receive a name native) names u = (Inr (), t)" "leaving u t" "adapter_inv t" "ad_log t = ad_log u @ new2"
    "\<And>n. n \<notin> set names \<Longrightarrow> calls n new2 = []"
    "\<And>n e v. n \<in> set names \<Longrightarrow> map_of (ad_registrations s) n = Some e \<Longrightarrow> bindR (codec_encode (rg_codec e) native) (codec_decode (rg_codec e)) = Inr v \<Longrightarrow> fanned v n u t new2"
    using Cons.IH [OF u(3) same(1)] Cons.prems(3) same(2) by (metis distinct.simps(2))
  have "fanned v n s t (new1 @ new2)"
    if h: "n \<in> set (m # names)" "map_of (ad_registrations s) n = Some e" "bindR (codec_encode (rg_codec e) native) (codec_decode (rg_codec e)) = Inr v" for n e v
  proof (cases "n = m")
    case True
    then have "calls n new2 = []" using t(5) Cons.prems(3) by simp
    then show ?thesis using fanned_within [OF u(6) leaving_refl t(2), of e v "[]" new2] h True by (simp add: calls_def)
  next
    case False
    then show ?thesis using fanned_within [OF t(6) u(2) leaving_refl, of n e v new1 "[]"] h u(5) by (simp add: calls_def)
  qed
  then show ?case using u t leaving_trans [OF u(2) t(2)]
    by (intro exI [of _ t] exI [of _ "new1 @ new2"]) (simp add: adapter_runs)
qed

lemma sample_stopped: "ad_state s \<noteq> ARunning \<Longrightarrow> native_sample a key native s = (Inr (), s)"
proof -
  assume "ad_state s \<noteq> ARunning"
  then have "forE (\<lambda>name. adapter_receive a name native) names s = (Inr (), s)" for names
    by (induction names) (simp_all add: adapter_runs receive_stopped)
  then show ?thesis by (simp add: native_sample_def adapter_runs split: option.split)
qed

lemma aliases_distinct: "distinct (keys ps) \<Longrightarrow> distinct (aliases_of key ps)"
  unfolding aliases_of_def by (induction ps) auto

lemma sample_run:
  assumes "adapter_inv s" and "ad_state s = ARunning"
  shows "\<exists>t new. native_sample a key native s = (Inr (), t) \<and> leaving s t \<and> adapter_inv t \<and> ad_log t = ad_log s @ new
    \<and> (\<forall>n. n \<notin> set (aliases_of key (ad_registrations s)) \<longrightarrow> calls n new = [])
    \<and> (\<forall>n e v. n \<in> set (aliases_of key (ad_registrations s)) \<longrightarrow> map_of (ad_registrations s) n = Some e
         \<longrightarrow> bindR (codec_encode (rg_codec e) native) (codec_decode (rg_codec e)) = Inr v \<longrightarrow> fanned v n s t new)"
proof -
  have subs: "map_of (ad_subscriptions s) key = (if aliases_of key (ad_registrations s) = [] then None else Some (aliases_of key (ad_registrations s)))"
    and "distinct (aliases_of key (ad_registrations s))"
    using assms aliases_distinct unfolding adapter_inv_def entities_ready_def by blast+
  from receive_all_run [OF assms this(2), of a native] subs show ?thesis
    by (cases "aliases_of key (ad_registrations s) = []") (simp_all add: native_sample_def adapter_runs)
qed

section \<open>Reachable adapters\<close>

inductive adapter_step :: "adapter \<Rightarrow> adapter \<Rightarrow> bool" where
  ad_started: "adapter_step s (snd (adapter_start a s))"
| ad_subscribed: "adapter_step s (snd (adapter_subscribe name cb s))"
| ad_unsubscribed: "adapter_step s (snd (adapter_unsubscribe name cb s))"
| ad_published: "adapter_step s (snd (adapter_publish a name native s))"
| ad_sampled: "adapter_step s (snd (native_sample a key native s))"
| ad_closed: "adapter_step s (snd (adapter_close a s))"

inductive_simps adapter_step_simps: "adapter_step s t"

definition adapter_begin :: "adapter \<Rightarrow> bool" where
  "adapter_begin s \<longleftrightarrow> (\<exists>registry. newAdapter registry = Inr s \<and> (\<forall>e \<in> set registry. registration_ok e))"

lemma sample_inv: "adapter_inv s \<Longrightarrow> adapter_inv (snd (native_sample a key native s))"
  using sample_run [of s a key native] by (cases "ad_state s = ARunning") (auto simp: sample_stopped)

lemma adapter_close_inv: "adapter_inv s \<Longrightarrow> adapter_inv (snd (adapter_close a s))"
  by (cases "ad_state s = AClosed") (simp_all add: adapter_close_run adapter_inv_def count_list_0_iff)

interpretation ros: invariant_system adapter_begin adapter_step adapter_inv
proof unfold_locales
  show "adapter_begin s \<Longrightarrow> adapter_inv s" for s by (auto simp: adapter_begin_def newAdapter_inv(1))
  show "adapter_inv s \<Longrightarrow> adapter_step s t \<Longrightarrow> adapter_inv t" for s t
    by (auto simp: adapter_step_simps intro: adapter_start_inv subscribe_inv' unsubscribe_inv publish_inv sample_inv adapter_close_inv)
qed

lemma adapter_closed_step: "adapter_step s t \<Longrightarrow> ad_state s = AClosed \<Longrightarrow> adapter_inv s \<Longrightarrow> ad_log t = ad_log s \<and> ad_state t = AClosed"
  by (auto simp: adapter_step_simps adapter_start_def adapter_runs adapter_subscribe_def registration_run adapter_unsubscribe_def
      adapter_publish_run sample_stopped adapter_close_run)

section \<open>Properties\<close>

text \<open>
  C21: A start of the ROS adapter is all or nothing. When it returns, the adapter runs, exactly one publisher
  has been created for each topic, type and QoS of the Web-to-ROS bindings and exactly one subscription for
  each of the ROS-to-Web bindings, and then the node has been set spinning, whatever the aliases of the
  configuration. When it throws, the adapter is closed without listeners and publishers and the last thing
  done to the backend is to close it.
\<close>

theorem adapter_start_exact:
  assumes "reachable adapter_begin adapter_step s" and "ad_state s = ANew"
  shows "case adapter_start a s of
      (Inr _, t) \<Rightarrow> ad_state t = ARunning \<and> (\<exists>es. ad_log t = es @ [Spin] \<and> distinct es
         \<and> set es = {CreatePublisher (entity_of e) | name e. (name, e) \<in> set (ad_registrations s) \<and> b_direction (rg_binding e) = WebToRos}
                  \<union> {CreateSubscription (entity_of e) | name e. (name, e) \<in> set (ad_registrations s) \<and> b_direction (rg_binding e) = RosToWeb})
    | (Inl e, t) \<Rightarrow> ad_state t = AClosed \<and> ad_listeners t = [] \<and> ad_publishers t = [] \<and> (\<exists>es. ad_log t = es @ [BackendClose] \<and> BackendClose \<notin> set es)"
proof -
  have inv: "adapter_inv s" using assms(1) by (rule ros.reachable_inv)
  then show ?thesis
  proof (cases rule: start_cases [where a = a])
    case used
    then show ?thesis using assms(2) by simp
  next
    case (failed e t)
    have "ad_state t \<noteq> AClosed" "BackendClose \<notin> set (ad_log t)" using failed(1,2) by (auto simp: starting_up_def)
    then show ?thesis using failed(3) by (auto simp: adapter_close_run split: sum.split)
  next
    case (running t)
    have not_web: "d \<noteq> WebToRos \<longleftrightarrow> d = RosToWeb" for d by (cases d) auto
    have "creations (ad_registrations s) = {CreatePublisher (entity_of e) | name e. (name, e) \<in> set (ad_registrations s) \<and> b_direction (rg_binding e) = WebToRos}
        \<union> {CreateSubscription (entity_of e) | name e. (name, e) \<in> set (ad_registrations s) \<and> b_direction (rg_binding e) = RosToWeb}"
      unfolding creations_def outputs_def inputs_def writes_def not_web image_image set_filter by (rule arg_cong2 [where f = union]) force+
    then show ?thesis using running(2,4) by (simp add: created_def)
  qed
qed

text \<open>
  A command reaches exactly the native publisher of its own binding. In every reachable state \<open>publish\<close>
  refuses an adapter that is not running and a name that is unknown or of the other direction, passes on
  what the codec refuses, and otherwise makes one call, of the publisher created for the binding's topic,
  type and QoS, with the value the codec has rebuilt; it never finds a publisher missing.
\<close>

theorem adapter_publish_exact:
  assumes "reachable adapter_begin adapter_step s"
  shows "adapter_publish a name native s =
    (if ad_state s \<noteq> ARunning then (Inl (Err ''ros_adapter_not_running''), s)
     else case map_of (ad_registrations s) name of
            None \<Rightarrow> (Inl (Err ''ros_binding_denied''), s)
          | Some e \<Rightarrow>
              if b_direction (rg_binding e) \<noteq> WebToRos then (Inl (Err ''ros_binding_denied''), s)
              else case bindR (codec_encode (rg_codec e) native) (codec_decode (rg_codec e)) of
                     Inl err \<Rightarrow> (Inl err, s)
                   | Inr v \<Rightarrow> (ra_publish a (ad_log s @ [NativePublish (entity_of e) v]), s\<lparr>ad_log := ad_log s @ [NativePublish (entity_of e) v]\<rparr>))"
  by (rule adapter_publish_run [OF ros.reachable_inv [OF assms]])

text \<open>
  C17: A ROS sample reaches every session that listens. While the adapter runs, a sample on the subscription
  of a binding, whose codec accepts the sample, calls each listener of the binding that is there before and
  still there afterwards exactly once, and no listener twice or without a subscription, with the value the
  codec has rebuilt; the call returns normally whichever listeners throw, unsubscribe themselves or
  unsubscribe others, and whichever other aliases of the topic refuse the sample.
\<close>

theorem sample_fanout:
  assumes "reachable adapter_begin adapter_step s" and "ad_state s = ARunning"
    and "map_of (ad_registrations s) name = Some e" and "b_direction (rg_binding e) = RosToWeb"
    and "bindR (codec_encode (rg_codec e) native) (codec_decode (rg_codec e)) = Inr v"
  shows "\<exists>t new called. native_sample a (entityKey e) native s = (Inr (), t) \<and> ad_log t = ad_log s @ new
    \<and> calls name new = map (\<lambda>cb. Listener name cb v) called \<and> distinct called
    \<and> listening name t \<subseteq> set called \<and> set called \<subseteq> listening name s"
proof -
  have inv: "adapter_inv s" using assms(1) by (rule ros.reachable_inv)
  have "(name, e) \<in> set (ad_registrations s)" using assms(3) by (rule map_of_SomeD)
  then have "name \<in> set (aliases_of (entityKey e) (ad_registrations s))" using assms(4) by (force simp: aliases_of_def writes_def)
  then show ?thesis using sample_run [OF inv assms(2), of a "entityKey e" native] assms(3,5) unfolding fanned_def by blast
qed

text \<open>
  A closed adapter stays closed and silent: it has closed its backend exactly once, and whatever is
  called on it afterwards, samples of native subscriptions included, makes no call of the backend, of a
  listener or of \<open>onError\<close>.
\<close>

theorem closed_adapter_silent:
  assumes "reachable adapter_begin adapter_step s" and "ad_state s = AClosed" and "adapter_step\<^sup>*\<^sup>* s t"
  shows "ad_state t = AClosed \<and> ad_log t = ad_log s \<and> count_list (ad_log t) BackendClose = 1"
  using assms(3)
proof (induction rule: rtranclp_induct)
  case base
  show ?case using ros.reachable_inv [OF assms(1)] assms(2) by (simp add: adapter_inv_def)
next
  case (step u t)
  have "reachable adapter_begin adapter_step u" using step(1) assms(1) by (induction rule: rtranclp_induct) (blast intro: reach_step)+
  then have "adapter_inv u" by (rule ros.reachable_inv)
  then show ?case using adapter_closed_step [OF step(2)] step.IH by metis
qed

section \<open>Witnesses\<close>

definition example_bool :: codec where
  "example_bool = \<lparr>cd_options = \<lparr>maxDepth = 4, maxArrayLength = 8, maxStringBytes = 64, maxByteLength = 64, maxNodes = 16, allowNonFinite = False\<rparr>,
     cd_schema = FBoolean\<rparr>"

definition example_entry :: "string \<Rightarrow> direction \<Rightarrow> registration" where
  "example_entry name dir = \<lparr>rg_binding = \<lparr>publicName = ustr name, rosTopic = ustr ''/t'', rosType = ustr ''std_msgs/msg/Bool'', b_direction = dir,
     b_qos = \<lparr>q_reliability = QReliable, q_durability = QVolatile, q_depth = 1\<rparr>, b_delivery = DReliable, maxRateHz = NumI 10, b_policy = PLatest,
     b_maxMessages = 1, b_access = None, b_commandGuard = None\<rparr>, rg_codec = example_bool\<rparr>"

text \<open>A backend that works, and listeners that all throw.\<close>

definition example_answers :: rosAnswers where
  "example_answers = \<lparr>ra_create = (\<lambda>_. Inr ()), ra_spin = (\<lambda>_. Inr ()), ra_close = (\<lambda>_. Inr ()), ra_publish = (\<lambda>_. Inr ()),
     ra_listener = (\<lambda>_. ([], Inl (Err ''listener'')))\<rparr>"

definition example_adapter :: adapter where
  "example_adapter = \<lparr>ad_registrations = [(ustr ''/out'', example_entry ''/out'' RosToWeb), (ustr ''/in'', example_entry ''/in'' WebToRos)],
     ad_listeners = [(ustr ''/out'', []), (ustr ''/in'', [])], ad_publishers = [], ad_subscriptions = [], ad_state = ANew, ad_log = []\<rparr>"

lemma example_reach: "reachable adapter_begin adapter_step example_adapter"
proof (rule reach_start, unfold adapter_begin_def, intro exI conjI)
  show "newAdapter [example_entry ''/out'' RosToWeb, example_entry ''/in'' WebToRos] = Inr example_adapter"
    by (simp add: newAdapter_def example_entry_def example_adapter_def)
  show "\<forall>e \<in> set [example_entry ''/out'' RosToWeb, example_entry ''/in'' WebToRos]. registration_ok e"
    by (simp add: registration_ok_def depth_ok_def codec_ok_def codec_options_ok_def example_entry_def example_bool_def isSafeInteger_iff MAX_SAFE_INTEGER_def)
qed

definition example_running :: adapter where
  "example_running = snd (adapter_subscribe (ustr ''/out'') 2 (snd (adapter_subscribe (ustr ''/out'') 1 (snd (adapter_start example_answers example_adapter)))))"

lemma example_running_reach: "reachable adapter_begin adapter_step example_running"
  unfolding example_running_def by (rule reach_step, rule reach_step, rule reach_step, rule example_reach) (rule adapter_step.intros)+

lemma example_start: "adapter_start example_answers example_adapter = (Inr (), example_adapter\<lparr>ad_state := ARunning,
    ad_publishers := [(entityKey (example_entry ''/in'' WebToRos), entity_of (example_entry ''/in'' WebToRos))],
    ad_subscriptions := [(entityKey (example_entry ''/out'' RosToWeb), [ustr ''/out''])],
    ad_log := [CreateSubscription (entity_of (example_entry ''/out'' RosToWeb)), CreatePublisher (entity_of (example_entry ''/in'' WebToRos)), Spin]\<rparr>)"
  by (simp add: adapter_start_def adapter_runs ros_call_run example_answers_def example_adapter_def create_entity_def example_entry_def Let_def)

lemma example_roundtrip: "bindR (codec_encode (rg_codec (example_entry name dir)) (Bool True)) (codec_decode (rg_codec (example_entry name dir))) = Inr (Bool True)"
  by (simp add: codec_encode_def codec_decode_def convert_def example_entry_def example_bool_def numeral_eq_Suc prog_simps count_node_def)

lemma example_state:
  "ad_state example_running = ARunning" "map_of (ad_registrations example_running) (ustr ''/out'') = Some (example_entry ''/out'' RosToWeb)"
  "map_of (ad_registrations example_running) (ustr ''/in'') = Some (example_entry ''/in'' WebToRos)"
  "listening (ustr ''/out'') example_running = {1, 2}"
  unfolding example_running_def example_start
  by (simp_all add: adapter_subscribe_def registration_run adapter_runs example_adapter_def listening_def example_entry_def insert_commute)

theorem adapter_start_exact_witness:
  "\<exists>es. ad_log (snd (adapter_start example_answers example_adapter)) = es @ [Spin] \<and> distinct es \<and> length es = 2"
proof -
  have "ad_state example_adapter = ANew" by (simp add: example_adapter_def)
  from adapter_start_exact [OF example_reach this, of example_answers] show ?thesis by (auto simp: example_start)
qed

theorem adapter_publish_exact_witness:
  "fst (adapter_publish example_answers (ustr ''/in'') (Bool True) example_running) = Inr ()
   \<and> fst (adapter_publish example_answers (ustr ''/out'') (Bool True) example_running) = Inl (Err ''ros_binding_denied'')"
  unfolding adapter_publish_exact [OF example_running_reach]
  by (simp add: example_state example_roundtrip) (simp add: example_entry_def example_answers_def)

theorem sample_fanout_witness:
  "\<exists>t new called. native_sample example_answers (entityKey (example_entry ''/out'' RosToWeb)) (Bool True) example_running = (Inr (), t)
     \<and> ad_log t = ad_log example_running @ new \<and> calls (ustr ''/out'') new = map (\<lambda>cb. Listener (ustr ''/out'') cb (Bool True)) called
     \<and> distinct called \<and> listening (ustr ''/out'') t \<subseteq> set called \<and> set called \<subseteq> {1, 2}"
proof -
  have "b_direction (rg_binding (example_entry ''/out'' RosToWeb)) = RosToWeb" by (simp add: example_entry_def)
  from sample_fanout [OF example_running_reach example_state(1,2) this example_roundtrip] show ?thesis unfolding example_state(4) .
qed

theorem closed_adapter_silent_witness:
  "let s = snd (adapter_close example_answers example_running) in
     ad_log (snd (native_sample example_answers (entityKey (example_entry ''/out'' RosToWeb)) (Bool True) s)) = ad_log s \<and> BackendClose \<in> set (ad_log s)"
proof -
  define s where "s = snd (adapter_close example_answers example_running)"
  have "reachable adapter_begin adapter_step s" unfolding s_def by (rule reach_step [OF example_running_reach]) (rule ad_closed)
  moreover have "ad_state s = AClosed" by (simp add: s_def adapter_close_run example_state)
  ultimately have "ad_log (snd (native_sample example_answers (entityKey (example_entry ''/out'' RosToWeb)) (Bool True) s)) = ad_log s"
    using closed_adapter_silent [of s "snd (native_sample example_answers (entityKey (example_entry ''/out'' RosToWeb)) (Bool True) s)"] ad_sampled by blast
  then show ?thesis by (simp add: Let_def flip: s_def) (simp add: s_def adapter_close_run example_state)
qed

end
