(* ===== verification/Signaling.thy ===== *)
theory Signaling
  imports Router_Wire
begin

text \<open>
  \<open>signaling/handler.ts\<close> and the routing of \<open>signaling/docs.ts\<close>: the HTTPS endpoint that exchanges offers.
  A request is an exchange that goes through the phases of the asynchronous handler: its body is read
  chunk by chunk, the promise of \<open>readBody\<close> settlesHandler, the handler resumes, waits for \<open>accept\<close> and
  replies. Events of different requests interleave freely. The digest SHA-256 is a parameter, what
  \<open>accept\<close> resolves or rejects with arrives as an event, and every call of the response or of \<open>accept\<close>
  is an entry of \<open>sg_log\<close>.
\<close>

section \<open>State\<close>

record httpRequest =
  hr_method :: ustring
  hr_url :: "ustring option"
  hr_authorization :: "ustring option"
  hr_contentType :: "ustring option"

record signalingOptions =
  so_credential :: ustring
  so_maxBodyBytes :: int
  so_requestTimeoutMs :: int
  so_maxPending :: int

text \<open>
  \<open>Reading chunks size\<close>: the listeners of \<open>readBody\<close> are installed. \<open>Settled r\<close>: its promise has settled
  and the handler has not resumed yet. \<open>Finished r\<close>: the promise of the handler has settled.
\<close>

datatype exchangePhase =
    Started
  | Reading "bytes list" int
  | Settled "jsval result"
  | Accepting
  | Finished "unit result"

record exchange =
  ex_request :: httpRequest
  ex_phase :: exchangePhase

datatype httpEffect =
    WriteHead nat int
  | EndBody nat "ustring option"
  | ServeDocs nat ustring ustring
  | AcceptCall nat ustring

record signaling =
  sg_settings :: signalingOptions
  sg_pending :: int
  sg_exchanges :: "(nat \<times> exchange) list"
  sg_log :: "httpEffect list"

section \<open>Operations\<close>

text \<open>The documents served without a credential, with their content types; the bodies are static.\<close>

definition resources :: "(ustring \<times> ustring) list" where
  "resources = map (\<lambda>(u, c). (ustr u, ustr c))
     [(''/openapi.json'', ''application/json''), (''/openapi.yaml'', ''application/yaml''), (''/docs/swagger-ui.css'', ''text/css''),
      (''/docs/swagger-ui-bundle.js'', ''application/javascript''), (''/docs/init.js'', ''application/javascript''),
      (''/docs'', ''text/html''), (''/docs/'', ''text/html'')]"

definition serveSignalingDocs :: "nat \<Rightarrow> httpRequest \<Rightarrow> (signaling, bool) prog" where
  "serveSignalingDocs i rq =
     (if hr_method rq \<noteq> ustr ''GET'' then retE False
      else let url = (case hr_url rq of None \<Rightarrow> [] | Some u \<Rightarrow> u) in
        case map_of resources url of
          None \<Rightarrow> retE False
        | Some ctype \<Rightarrow> seqE (modE (\<lambda>s. s\<lparr>sg_log := sg_log s @ [ServeDocs i url ctype]\<rparr>)) (retE True))"

definition authenticate :: "(bytes \<Rightarrow> bytes) \<Rightarrow> ustring \<Rightarrow> ustring option \<Rightarrow> bool" where
  "authenticate sha256 expected supplied =
     (case supplied of None \<Rightarrow> False
      | Some v \<Rightarrow> sha256 (utf8_encode (ustr ''Bearer '' @ expected)) = sha256 (utf8_encode v))"

definition createSignalingHandler :: "jsval \<Rightarrow> number \<Rightarrow> number \<Rightarrow> number \<Rightarrow> signaling result" where
  "createSignalingHandler credential maxBodyBytes requestTimeoutMs maxPending =
     (case credential of
        Str c \<Rightarrow>
          bindR (failIf (length c < 32) (Err ''invalid_credential'')) (\<lambda>_.
          bindR (mapR (\<lambda>n. failIf (\<not> isSafeInteger n \<or> num_le n (NumI 0)) (Err ''invalid_limit'')) [maxBodyBytes, requestTimeoutMs, maxPending]) (\<lambda>_.
          Inr \<lparr>sg_settings = \<lparr>so_credential = c, so_maxBodyBytes = num_int maxBodyBytes, so_requestTimeoutMs = num_int requestTimeoutMs,
                 so_maxPending = num_int maxPending\<rparr>, sg_pending = 0, sg_exchanges = [], sg_log = []\<rparr>))
      | _ \<Rightarrow> Inl (Err ''invalid_credential''))"

definition setPhase :: "nat \<Rightarrow> exchangePhase \<Rightarrow> (signaling, unit) prog" where
  "setPhase i p = modE (\<lambda>s. s\<lparr>sg_exchanges := AList.map_entry i (\<lambda>x. x\<lparr>ex_phase := p\<rparr>) (sg_exchanges s)\<rparr>)"

text \<open>The promise of the handler settlesHandler with the outcome of its body.\<close>

definition settlesHandler :: "nat \<Rightarrow> (signaling, unit) prog \<Rightarrow> (signaling, unit) prog" where
  "settlesHandler i m = (\<lambda>s. case m s of (r, t) \<Rightarrow> setPhase i (Finished r) t)"

definition writesHead :: "nat \<Rightarrow> httpEffect \<Rightarrow> bool" where
  "writesHead i e = (case e of WriteHead j st \<Rightarrow> j = i | ServeDocs j u c \<Rightarrow> j = i | _ \<Rightarrow> False)"

text \<open>A second \<open>writeHead\<close> on a response throws.\<close>

definition reply :: "nat \<Rightarrow> int \<Rightarrow> jsval \<Rightarrow> (signaling, unit) prog" where
  "reply i status body =
     bindE (getE (\<lambda>s. list_ex (writesHead i) (sg_log s))) (\<lambda>sent.
     seqE (throwIf sent (Err ''ERR_HTTP_HEADERS_SENT''))
    (seqE (modE (\<lambda>s. s\<lparr>sg_log := sg_log s @ [WriteHead i status]\<rparr>))
    (bindE (liftE (stringify body)) (\<lambda>t.
     modE (\<lambda>s. s\<lparr>sg_log := sg_log s @ [EndBody i t]\<rparr>)))))"

definition error_body :: "string \<Rightarrow> jsval" where
  "error_body m = mk_obj [(ustr ''error'', Str (ustr m))]"

text \<open>A request arrives.\<close>

definition signalingRequest :: "(bytes \<Rightarrow> bytes) \<Rightarrow> nat \<Rightarrow> httpRequest \<Rightarrow> (signaling, unit) prog" where
  "signalingRequest sha256 i rq =
     seqE (modE (\<lambda>s. s\<lparr>sg_exchanges := sg_exchanges s @ [(i, \<lparr>ex_request = rq, ex_phase = Started\<rparr>)]\<rparr>))
    (bindE (serveSignalingDocs i rq) (\<lambda>served.
     bindE (getE sg_settings) (\<lambda>st.
     bindE (getE sg_pending) (\<lambda>pending.
     if served then settlesHandler i (retE ())
     else if hr_method rq = ustr ''GET'' \<and> hr_url rq = Some (ustr ''/health'') then
       settlesHandler i (reply i 200 (mk_obj [(ustr ''status'', Str (ustr ''ready''))]))
     else if hr_method rq \<noteq> ustr ''POST'' \<or> hr_url rq \<noteq> Some (ustr ''/offer'') then settlesHandler i (reply i 404 (error_body ''not_found''))
     else if \<not> authenticate sha256 (so_credential st) (hr_authorization rq) then settlesHandler i (reply i 401 (error_body ''unauthorized''))
     else if hr_contentType rq \<noteq> Some (ustr ''application/json'') then settlesHandler i (reply i 415 (error_body ''content_type''))
     else if pending \<ge> so_maxPending st then settlesHandler i (reply i 503 (error_body ''busy''))
     else seqE (modE (\<lambda>s. s\<lparr>sg_pending := sg_pending s + 1\<rparr>)) (setPhase i (Reading [] 0))))))"

text \<open>The listeners of \<open>readBody\<close>; once the promise has settled they are removed or do nothing.\<close>

definition whileReading :: "nat \<Rightarrow> (bytes list \<Rightarrow> int \<Rightarrow> (signaling, unit) prog) \<Rightarrow> (signaling, unit) prog" where
  "whileReading i f =
     bindE (getE (\<lambda>s. map_of (sg_exchanges s) i)) (\<lambda>found.
     case found of Some x \<Rightarrow> (case ex_phase x of Reading chunks n \<Rightarrow> f chunks n | _ \<Rightarrow> retE ()) | None \<Rightarrow> retE ())"

definition body_data :: "nat \<Rightarrow> bytes \<Rightarrow> (signaling, unit) prog" where
  "body_data i chunk =
     whileReading i (\<lambda>chunks n.
     bindE (getE sg_settings) (\<lambda>st.
     let n' = n + int (length chunk) in
     if n' > so_maxBodyBytes st then setPhase i (Settled (Inl (Err ''body_too_large'')))
     else setPhase i (Reading (chunks @ [chunk]) n')))"

definition body_end :: "nat \<Rightarrow> (signaling, unit) prog" where
  "body_end i =
     whileReading i (\<lambda>chunks n.
     setPhase i (Settled (case json_parse (utf8_lossy (concat chunks)) of Inr v \<Rightarrow> Inr v | Inl _ \<Rightarrow> Inl (Err ''bad_request''))))"

definition body_timeout :: "nat \<Rightarrow> (signaling, unit) prog" where
  "body_timeout i = whileReading i (\<lambda>_ _. setPhase i (Settled (Inl (Err ''request_timeout''))))"

definition body_failed :: "nat \<Rightarrow> (signaling, unit) prog" where
  "body_failed i = whileReading i (\<lambda>_ _. setPhase i (Settled (Inl (Err ''bad_request''))))"

fun error_message :: "error \<Rightarrow> ustring" where
  "error_message (Err m) = ustr m"
| "error_message (TypeErr m) = ustr m"
| "error_message (ConfigErr p m) = p @ ustr '': '' @ ustr m"
| "error_message Foreign = []"

text \<open>The \<open>catch\<close> clause and the \<open>finally\<close> clause of the handler.\<close>

definition offer_failed :: "nat \<Rightarrow> error \<Rightarrow> (signaling, unit) prog" where
  "offer_failed i e =
     (let reason = error_message e in
      if reason = ustr ''body_too_large'' then reply i 413 (error_body ''body_too_large'')
      else if reason = ustr ''request_timeout'' then reply i 408 (error_body ''request_timeout'')
      else reply i 400 (error_body ''offer_rejected''))"

definition offer_done :: "nat \<Rightarrow> (signaling, unit) prog \<Rightarrow> (signaling, unit) prog" where
  "offer_done i m =
     settlesHandler i (\<lambda>s. case catchE m (offer_failed i) s of (r, t) \<Rightarrow> (r, t\<lparr>sg_pending := sg_pending t - 1\<rparr>))"

definition offer_sdp :: "jsval \<Rightarrow> ustring result" where
  "offer_sdp offer =
     bindR (failIf (\<not> Router_Protocol.is_object offer) (Err ''bad_request'')) (\<lambda>_.
     if list_ex (\<lambda>k. k \<noteq> ustr ''type'' \<and> k \<noteq> ustr ''sdp'') (object_keys offer) \<or> get_prop offer (ustr ''type'') \<noteq> Str (ustr ''offer'')
     then Inl (Err ''bad_request'')
     else case get_prop offer (ustr ''sdp'') of Str sdp \<Rightarrow> Inr sdp | _ \<Rightarrow> Inl (Err ''bad_request''))"

text \<open>The handler resumes after \<open>readBody\<close>.\<close>

definition offer_resume :: "nat \<Rightarrow> (signaling, unit) prog" where
  "offer_resume i =
     bindE (getE (\<lambda>s. map_of (sg_exchanges s) i)) (\<lambda>found.
     case found of
       Some x \<Rightarrow> (case ex_phase x of
         Settled r \<Rightarrow> (case bindR r offer_sdp of
             Inl e \<Rightarrow> offer_done i (throwE e)
           | Inr sdp \<Rightarrow> seqE (modE (\<lambda>s. s\<lparr>sg_log := sg_log s @ [AcceptCall i sdp]\<rparr>)) (setPhase i Accepting))
       | _ \<Rightarrow> retE ())
     | None \<Rightarrow> retE ())"

text \<open>The promise of \<open>accept\<close> settlesHandler.\<close>

definition offer_accepted :: "nat \<Rightarrow> jsval result \<Rightarrow> (signaling, unit) prog" where
  "offer_accepted i outcome =
     bindE (getE (\<lambda>s. map_of (sg_exchanges s) i)) (\<lambda>found.
     case found of
       Some x \<Rightarrow> (case ex_phase x of
         Accepting \<Rightarrow> offer_done i (bindE (liftE outcome) (reply i 200))
       | _ \<Rightarrow> retE ())
     | None \<Rightarrow> retE ())"

section \<open>Runs\<close>

lemmas sg_runs = bindE_run seqE_run catchE_run prog_run throwIf_run setPhase_def settlesHandler_def

fun effect_id :: "httpEffect \<Rightarrow> nat" where
  "effect_id (WriteHead i st) = i"
| "effect_id (EndBody i t) = i"
| "effect_id (ServeDocs i u c) = i"
| "effect_id (AcceptCall i sdp) = i"

fun is_accept :: "httpEffect \<Rightarrow> bool" where
  "is_accept (AcceptCall i sdp) = True"
| "is_accept _ = False"

definition heads :: "nat \<Rightarrow> signaling \<Rightarrow> httpEffect list" where
  "heads i s = filter (writesHead i) (sg_log s)"

definition accepts :: "nat \<Rightarrow> signaling \<Rightarrow> httpEffect list" where
  "accepts i s = filter (\<lambda>e. is_accept e \<and> effect_id e = i) (sg_log s)"

lemma reply_run:
  "reply i st body s = (if heads i s \<noteq> [] then (Inl (Err ''ERR_HTTP_HEADERS_SENT''), s)
     else case stringify body of
            Inl e \<Rightarrow> (Inl e, s\<lparr>sg_log := sg_log s @ [WriteHead i st]\<rparr>)
          | Inr t \<Rightarrow> (Inr (), s\<lparr>sg_log := sg_log s @ [WriteHead i st, EndBody i t]\<rparr>))"
proof -
  have "list_ex (writesHead i) (sg_log s) \<longleftrightarrow> heads i s \<noteq> []" by (auto simp: heads_def filter_empty_conv list_ex_iff)
  then show ?thesis by (simp add: reply_def sg_runs split: sum.split)
qed

lemma error_text: "\<exists>t. stringify (error_body m) = Inr (Some t)"
  by (simp add: error_body_def mk_obj_def mk_prop_def bindR_def)

section \<open>Invariant\<close>

definition eligible :: "(bytes \<Rightarrow> bytes) \<Rightarrow> signalingOptions \<Rightarrow> httpRequest \<Rightarrow> bool" where
  "eligible sha256 st rq \<longleftrightarrow> hr_method rq = ustr ''POST'' \<and> hr_url rq = Some (ustr ''/offer'')
     \<and> authenticate sha256 (so_credential st) (hr_authorization rq) \<and> hr_contentType rq = Some (ustr ''application/json'')"

fun active :: "exchangePhase \<Rightarrow> bool" where
  "active (Reading c n) = True"
| "active (Settled r) = True"
| "active Accepting = True"
| "active _ = False"

fun buffered :: "exchangePhase \<Rightarrow> int" where
  "buffered (Reading c n) = int (length (concat c))"
| "buffered _ = 0"

text \<open>What is known of one exchange: its phase, its response so far and the calls of \<open>accept\<close> made for it.\<close>

definition exchange_inv :: "(bytes \<Rightarrow> bytes) \<Rightarrow> signalingOptions \<Rightarrow> exchange \<Rightarrow> nat \<Rightarrow> nat \<Rightarrow> bool" where
  "exchange_inv sha256 st x hs as \<longleftrightarrow>
     (case ex_phase x of
        Started \<Rightarrow> False
      | Reading chunks n \<Rightarrow> eligible sha256 st (ex_request x) \<and> n = int (length (concat chunks)) \<and> n \<le> so_maxBodyBytes st \<and> hs = 0 \<and> as = 0
      | Settled r \<Rightarrow> eligible sha256 st (ex_request x) \<and> hs = 0 \<and> as = 0
      | Accepting \<Rightarrow> eligible sha256 st (ex_request x) \<and> hs = 0 \<and> as = 1
      | Finished r \<Rightarrow> hs = 1 \<and> as \<le> 1 \<and> (as = 1 \<longrightarrow> eligible sha256 st (ex_request x)))"

definition actives :: "signaling \<Rightarrow> int" where
  "actives s = (\<Sum>p \<leftarrow> sg_exchanges s. if active (ex_phase (snd p)) then 1 else 0)"

text \<open>Apart from the answers of \<open>accept\<close>, a status determines the body.\<close>

definition classes :: "(int \<times> string) list" where
  "classes = [(404, ''not_found''), (401, ''unauthorized''), (415, ''content_type''), (503, ''busy''),
     (413, ''body_too_large''), (408, ''request_timeout''), (400, ''offer_rejected'')]"

definition classified :: "httpEffect list \<Rightarrow> bool" where
  "classified l \<longleftrightarrow> (\<forall>i t. EndBody i t \<in> set l \<longrightarrow>
     (\<exists>k. WriteHead i k \<in> set l \<and> (k = 200 \<or> (\<exists>m. (k, m) \<in> set classes \<and> stringify (error_body m) = Inr t))))"

lemma classified_reply: "classified l \<Longrightarrow> k = 200 \<or> (\<exists>m. (k, m) \<in> set classes \<and> stringify (error_body m) = Inr t) \<Longrightarrow> classified (l @ [WriteHead i k, EndBody i t])"
  by (fastforce simp: classified_def)

lemma classified_other: "classified l \<Longrightarrow> \<forall>e \<in> set new. \<forall>i t. e \<noteq> EndBody i t \<Longrightarrow> classified (l @ new)"
  by (fastforce simp: classified_def)

definition signaling_inv :: "(bytes \<Rightarrow> bytes) \<Rightarrow> signaling \<Rightarrow> bool" where
  "signaling_inv sha256 s \<longleftrightarrow>
     distinct (keys (sg_exchanges s)) \<and> 0 < so_maxPending (sg_settings s) \<and> 0 < so_maxBodyBytes (sg_settings s)
     \<and> (\<forall>i x. (i, x) \<in> set (sg_exchanges s) \<longrightarrow> exchange_inv sha256 (sg_settings s) x (length (heads i s)) (length (accepts i s)))
     \<and> (\<forall>e \<in> set (sg_log s). effect_id e \<in> set (keys (sg_exchanges s)))
     \<and> classified (sg_log s) \<and> sg_pending s = actives s \<and> sg_pending s \<le> so_maxPending (sg_settings s)"

text \<open>A step of one exchange appends only effects of that exchange.\<close>

lemma sum_map_entry:
  "distinct (keys m) \<Longrightarrow> map_of m i = Some x \<Longrightarrow>
     (\<Sum>p \<leftarrow> AList.map_entry i g m. f (snd p)) = (\<Sum>p \<leftarrow> m. f (snd p)) - f x + f (g x)" for f :: "'b \<Rightarrow> int"
proof (induction m)
  case (Cons p m)
  then show ?case
  proof (cases "fst p = i")
    case True
    then have "i \<notin> set (keys m)" using Cons.prems by (cases p) auto
    then have "AList.map_entry i g m = m" by (induction m) auto
    then show ?thesis using True Cons.prems by (cases p) simp
  qed (cases p, auto)
qed simp

lemma map_entry_others: "j \<noteq> i \<Longrightarrow> (j, y) \<in> set (AList.map_entry i g m) \<longleftrightarrow> (j, y) \<in> set m"
  by (induction m) auto

lemma other_effects:
  "\<forall>e \<in> set new. effect_id e = i \<Longrightarrow> j \<noteq> i \<Longrightarrow> sg_log t = sg_log s @ new \<Longrightarrow> heads j t = heads j s \<and> accepts j t = accepts j s"
  by (auto simp: heads_def accepts_def writesHead_def filter_empty_conv split: httpEffect.splits)

lemma exchange_step_inv:
  assumes inv: "signaling_inv sha256 s" and old: "map_of (sg_exchanges s) i = Some x"
    and t: "sg_exchanges t = AList.map_entry i (\<lambda>x. x\<lparr>ex_phase := p\<rparr>) (sg_exchanges s)" "sg_log t = sg_log s @ new" "sg_settings t = sg_settings s"
      "sg_pending t = sg_pending s - (if active (ex_phase x) then 1 else 0) + (if active p then 1 else 0)"
    and new: "\<forall>e \<in> set new. effect_id e = i" "classified (sg_log t)" and le: "active p \<longrightarrow> active (ex_phase x)"
    and ok: "exchange_inv sha256 (sg_settings s) (x\<lparr>ex_phase := p\<rparr>) (length (heads i t)) (length (accepts i t))"
  shows "signaling_inv sha256 t"
proof -
  have d: "distinct (keys (sg_exchanges s))" and lim: "sg_pending s \<le> so_maxPending (sg_settings s)" "sg_pending s = actives s" using inv by (simp_all add: signaling_inv_def)
  have uniq: "y = x" if "(i, y) \<in> set (sg_exchanges s)" for y using that old d by (metis map_of_is_SomeI option.inject)
  have "exchange_inv sha256 (sg_settings s) y (length (heads j t)) (length (accepts j t))" if m: "(j, y) \<in> set (sg_exchanges t)" for j y
  proof (cases "j = i")
    case True
    have "map_of (sg_exchanges t) i = Some (x\<lparr>ex_phase := p\<rparr>)" using old by (simp add: t map_of_map_entry')
    moreover have "distinct (keys (sg_exchanges t))" using d by (simp add: t)
    ultimately have "y = x\<lparr>ex_phase := p\<rparr>" using m True by (metis map_of_is_SomeI option.inject)
    then show ?thesis using ok True by simp
  next
    case False
    then have "(j, y) \<in> set (sg_exchanges s)" using m by (auto simp: t map_entry_others)
    then show ?thesis using inv other_effects [OF new(1) False t(2)] by (simp add: signaling_inv_def)
  qed
  moreover have "actives t = actives s - (if active (ex_phase x) then 1 else 0) + (if active p then 1 else 0)"
    unfolding actives_def t(1) using sum_map_entry [OF d old, of "\<lambda>x. if active (ex_phase x) then 1 else 0" "\<lambda>x. x\<lparr>ex_phase := p\<rparr>"] by simp
  moreover have "i \<in> set (keys (sg_exchanges s))" using old by (force dest: map_of_SomeD)
  ultimately show ?thesis using inv t new le lim by (auto simp: signaling_inv_def)
qed

section \<open>Every event keeps the invariant\<close>

definition finish_exchange :: "nat \<Rightarrow> unit result \<Rightarrow> httpEffect list \<Rightarrow> signaling \<Rightarrow> signaling" where
  "finish_exchange i r new s = s\<lparr>sg_exchanges := AList.map_entry i (\<lambda>x. x\<lparr>ex_phase := Finished r\<rparr>) (sg_exchanges s),
     sg_log := sg_log s @ new, sg_pending := sg_pending s - 1\<rparr>"

definition replied :: "nat \<Rightarrow> unit result \<Rightarrow> httpEffect list \<Rightarrow> bool" where
  "replied i r new \<longleftrightarrow> (\<exists>k t. new = [WriteHead i k, EndBody i t] \<and> r = Inr () \<and> (k = 200 \<or> (\<exists>m. (k, m) \<in> set classes \<and> stringify (error_body m) = Inr t)))
     \<or> (new = [WriteHead i 200] \<and> r = Inl (Err ''ERR_HTTP_HEADERS_SENT''))"

lemma failed_run:
  assumes "heads i s = []"
  shows "\<exists>k m t. (k, m) \<in> set classes \<and> stringify (error_body m) = Inr (Some t)
    \<and> offer_failed i e s = (Inr (), s\<lparr>sg_log := sg_log s @ [WriteHead i k, EndBody i (Some t)]\<rparr>)"
proof -
  have c: "(413, ''body_too_large'') \<in> set classes" "(408, ''request_timeout'') \<in> set classes" "(400, ''offer_rejected'') \<in> set classes"
    by (simp_all add: classes_def)
  have "offer_failed i e = reply i 413 (error_body ''body_too_large'') \<or> offer_failed i e = reply i 408 (error_body ''request_timeout'')
      \<or> offer_failed i e = reply i 400 (error_body ''offer_rejected'')" unfolding offer_failed_def Let_def by presburger
  then obtain k m where km: "(k, m) \<in> set classes" "offer_failed i e = reply i k (error_body m)" using c by blast
  obtain t where "stringify (error_body m) = Inr (Some t)" using error_text by blast
  then show ?thesis using km assms by (intro exI [of _ k] exI [of _ m] exI [of _ t]) (simp add: reply_run)
qed

lemma done_run:
  assumes "heads i s = []" and "m = throwE e \<or> m = bindE (liftE outcome) (reply i 200)"
  shows "\<exists>r new. offer_done i m s = (Inr (), finish_exchange i r new s) \<and> replied i r new"
proof -
  have settled: "\<exists>r new. offer_done i m s = (Inr (), finish_exchange i r new s) \<and> replied i r new"
    if "catchE m (offer_failed i) s = (r, s\<lparr>sg_log := sg_log s @ new\<rparr>)" "replied i r new" for r new
    by (rule exI [of _ r], rule exI [of _ new]) (simp add: offer_done_def settlesHandler_def setPhase_def that finish_exchange_def prog_run)
  have failed: ?thesis if m: "m s = (Inl e', s)" for e'
  proof -
    obtain k msg t where "(k, msg) \<in> set classes" "stringify (error_body msg) = Inr (Some t)"
      "offer_failed i e' s = (Inr (), s\<lparr>sg_log := sg_log s @ [WriteHead i k, EndBody i (Some t)]\<rparr>)"
      using failed_run [OF assms(1), of e'] by blast
    then show ?thesis by (intro settled) (auto simp: catchE_run m replied_def)
  qed
  from assms(2) show ?thesis
  proof
    assume "m = throwE e"
    then show ?thesis by (intro failed) (simp add: prog_run)
  next
    assume m: "m = bindE (liftE outcome) (reply i 200)"
    show ?thesis
    proof (cases outcome)
      case (Inl e')
      then show ?thesis by (intro failed) (simp add: m sg_runs)
    next
      case (Inr answer)
      have sent: "heads i (s\<lparr>sg_log := sg_log s @ [WriteHead i 200]\<rparr>) \<noteq> []" by (simp add: heads_def writesHead_def)
      have again: "offer_failed i e' (s\<lparr>sg_log := sg_log s @ [WriteHead i 200]\<rparr>) = (Inl (Err ''ERR_HTTP_HEADERS_SENT''), s\<lparr>sg_log := sg_log s @ [WriteHead i 200]\<rparr>)" for e'
        using sent by (simp add: offer_failed_def Let_def reply_run)
      show ?thesis
      proof (cases "stringify answer")
        case (Inl e')
        then show ?thesis by (intro settled) (auto simp: m catchE_run bindE_run prog_run Inr reply_run assms(1) again replied_def)
      next
        case (Inr t)
        then show ?thesis by (intro settled) (auto simp: m catchE_run bindE_run prog_run \<open>outcome = Inr answer\<close> reply_run assms(1) replied_def)
      qed
    qed
  qed
qed

lemma replied_facts:
  "replied i r new \<Longrightarrow> (\<forall>e \<in> set new. effect_id e = i) \<and> length (filter (writesHead i) new) = 1 \<and> filter (\<lambda>e. is_accept e \<and> effect_id e = i) new = []"
  by (auto simp: replied_def writesHead_def)

lemma replied_classified: "classified l \<Longrightarrow> replied i r new \<Longrightarrow> classified (l @ new)"
  unfolding replied_def by (auto intro: classified_reply classified_other)

lemma finish_exchange_inv:
  assumes "signaling_inv sha256 s" and "map_of (sg_exchanges s) i = Some x" and "active (ex_phase x)" and "replied i r new"
  shows "signaling_inv sha256 (finish_exchange i r new s)"
proof (rule exchange_step_inv [OF assms(1,2), where p = "Finished r"])
  have x: "exchange_inv sha256 (sg_settings s) x (length (heads i s)) (length (accepts i s))" and "classified (sg_log s)"
    using assms(1,2) by (auto simp: signaling_inv_def dest: map_of_SomeD)
  then show "classified (sg_log (finish_exchange i r new s))" using replied_classified [OF _ assms(4)] by (simp add: finish_exchange_def)
  have "length (heads i (finish_exchange i r new s)) = length (heads i s) + 1" "accepts i (finish_exchange i r new s) = accepts i s"
    using replied_facts [OF assms(4)] by (simp_all add: finish_exchange_def heads_def accepts_def)
  then show "exchange_inv sha256 (sg_settings s) (x\<lparr>ex_phase := Finished r\<rparr>) (length (heads i (finish_exchange i r new s))) (length (accepts i (finish_exchange i r new s)))"
    using x assms(3) by (auto simp: exchange_inv_def split: exchangePhase.splits)
qed (use assms replied_facts in \<open>auto simp: finish_exchange_def\<close>)

lemma exchange_known:
  assumes "signaling_inv sha256 s" and "map_of (sg_exchanges s) i = Some x"
  shows "exchange_inv sha256 (sg_settings s) x (length (heads i s)) (length (accepts i s))"
  using assms by (auto simp: signaling_inv_def dest: map_of_SomeD)

lemma phase_inv:
  assumes "signaling_inv sha256 s" and "map_of (sg_exchanges s) i = Some x" and "active (ex_phase x)" and "active p"
    and "exchange_inv sha256 (sg_settings s) (x\<lparr>ex_phase := p\<rparr>) (length (heads i s)) (length (accepts i s))"
  shows "signaling_inv sha256 (snd (setPhase i p s))"
  using assms(5) by (intro exchange_step_inv [OF assms(1,2), where p = p and new = "[]"])
    (use assms(1,3,4) in \<open>simp_all add: setPhase_def prog_run signaling_inv_def heads_def accepts_def\<close>)

lemma reading_inv:
  assumes "signaling_inv sha256 s"
    and "\<And>x chunks n. map_of (sg_exchanges s) i = Some x \<Longrightarrow> ex_phase x = Reading chunks n \<Longrightarrow> signaling_inv sha256 (snd (f chunks n s))"
  shows "signaling_inv sha256 (snd (whileReading i f s))"
  using assms by (auto simp: whileReading_def sg_runs split: option.split exchangePhase.split)

lemma settle_body_inv:
  assumes "signaling_inv sha256 s" and "map_of (sg_exchanges s) i = Some x" and "ex_phase x = Reading chunks n"
  shows "signaling_inv sha256 (snd (setPhase i (Settled r) s))"
  using assms exchange_known [OF assms(1,2)] by (intro phase_inv) (auto simp: exchange_inv_def)

lemma data_inv: "signaling_inv sha256 s \<Longrightarrow> signaling_inv sha256 (snd (body_data i chunk s))"
  unfolding body_data_def
proof (rule reading_inv)
  fix x chunks n assume inv: "signaling_inv sha256 s" and x: "map_of (sg_exchanges s) i = Some x" "ex_phase x = Reading chunks n"
  have "signaling_inv sha256 (snd (setPhase i (Reading (chunks @ [chunk]) (n + int (length chunk))) s))" if "n + int (length chunk) \<le> so_maxBodyBytes (sg_settings s)"
    using x that exchange_known [OF inv x(1)] by (intro phase_inv [OF inv x(1)]) (auto simp: exchange_inv_def)
  then show "signaling_inv sha256 (snd (bindE (getE sg_settings) (\<lambda>st. let n' = n + int (length chunk) in
      if so_maxBodyBytes st < n' then setPhase i (Settled (Inl (Err ''body_too_large''))) else setPhase i (Reading (chunks @ [chunk]) n')) s))"
    using settle_body_inv [OF inv x] by (simp add: bindE_run prog_run Let_def)
qed

lemma body_inv:
  assumes "signaling_inv sha256 s"
  shows "signaling_inv sha256 (snd (body_end i s))" "signaling_inv sha256 (snd (body_timeout i s))" "signaling_inv sha256 (snd (body_failed i s))"
  unfolding body_end_def body_timeout_def body_failed_def by (rule reading_inv [OF assms], rule settle_body_inv [OF assms]; assumption)+

lemma accept_inv:
  assumes inv: "signaling_inv sha256 s" and x: "map_of (sg_exchanges s) i = Some x" "ex_phase x = Settled r"
  shows "signaling_inv sha256 (snd (seqE (modE (\<lambda>s. s\<lparr>sg_log := sg_log s @ [AcceptCall i sdp]\<rparr>)) (setPhase i Accepting) s))"
proof (rule exchange_step_inv [OF inv x(1), where p = Accepting and new = "[AcceptCall i sdp]"])
  have "classified (sg_log s)" using inv by (simp add: signaling_inv_def)
  then show "classified (sg_log (snd (seqE (modE (\<lambda>s. s\<lparr>sg_log := sg_log s @ [AcceptCall i sdp]\<rparr>)) (setPhase i Accepting) s)))"
    by (simp add: sg_runs classified_other)
qed (use x exchange_known [OF inv x(1)] in \<open>simp_all add: sg_runs exchange_inv_def heads_def accepts_def writesHead_def\<close>)

lemma resume_inv:
  assumes inv: "signaling_inv sha256 s"
  shows "signaling_inv sha256 (snd (offer_resume i s))"
proof (cases "\<exists>x r. map_of (sg_exchanges s) i = Some x \<and> ex_phase x = Settled r")
  case True
  then obtain x r where x: "map_of (sg_exchanges s) i = Some x" "ex_phase x = Settled r" by blast
  have "heads i s = []" using exchange_known [OF inv x(1)] x(2) by (simp add: exchange_inv_def)
  then have "signaling_inv sha256 (snd (offer_done i (throwE e) s))" for e
    using done_run [of i s "throwE e"] finish_exchange_inv [OF inv x(1)] x(2) by fastforce
  then show ?thesis using x accept_inv [OF inv x] by (simp add: offer_resume_def bindE_run prog_run split: sum.split)
next
  case False
  then show ?thesis using inv by (auto simp: offer_resume_def bindE_run prog_run split: option.split exchangePhase.split)
qed

lemma accepted_inv:
  assumes inv: "signaling_inv sha256 s"
  shows "signaling_inv sha256 (snd (offer_accepted i outcome s))"
proof (cases "\<exists>x. map_of (sg_exchanges s) i = Some x \<and> ex_phase x = Accepting")
  case True
  then obtain x where x: "map_of (sg_exchanges s) i = Some x" "ex_phase x = Accepting" by blast
  have "heads i s = []" using exchange_known [OF inv x(1)] x(2) by (simp add: exchange_inv_def)
  then have "signaling_inv sha256 (snd (offer_done i (bindE (liftE outcome) (reply i 200)) s))"
    using done_run [of i s "bindE (liftE outcome) (reply i 200)"] finish_exchange_inv [OF inv x(1)] x(2) by fastforce
  then show ?thesis using x by (simp add: offer_accepted_def bindE_run prog_run)
next
  case False
  then show ?thesis using inv by (auto simp: offer_accepted_def bindE_run prog_run split: option.split exchangePhase.split)
qed

text \<open>An arriving request is answered at once or starts to be read.\<close>

definition arrive :: "nat \<Rightarrow> httpRequest \<Rightarrow> exchangePhase \<Rightarrow> httpEffect list \<Rightarrow> signaling \<Rightarrow> signaling" where
  "arrive i rq p new s = s\<lparr>sg_exchanges := sg_exchanges s @ [(i, \<lparr>ex_request = rq, ex_phase = p\<rparr>)], sg_log := sg_log s @ new,
     sg_pending := sg_pending s + (if active p then 1 else 0)\<rparr>"

lemma map_entry_snoc: "i \<notin> set (keys m) \<Longrightarrow> AList.map_entry i f (m @ [(i, x)]) = m @ [(i, f x)]"
  by (induction m) auto

lemma request_cases:
  assumes inv: "signaling_inv sha256 s" and new: "i \<notin> set (keys (sg_exchanges s))"
  obtains (docs) url ctype where "signalingRequest sha256 i rq s = (Inr (), arrive i rq (Finished (Inr ())) [ServeDocs i url ctype] s)"
  | (replied) es where "signalingRequest sha256 i rq s = (Inr (), arrive i rq (Finished (Inr ())) es s)" "replied i (Inr ()) es"
  | (reading) "signalingRequest sha256 i rq s = (Inr (), arrive i rq (Reading [] 0) [] s)" "eligible sha256 (sg_settings s) rq"
      "sg_pending s < so_maxPending (sg_settings s)"
proof -
  have quiet: "heads i s = []"
    using inv new by (force simp: signaling_inv_def heads_def filter_empty_conv writesHead_def split: httpEffect.splits)
  define s1 where "s1 = s\<lparr>sg_exchanges := sg_exchanges s @ [(i, \<lparr>ex_request = rq, ex_phase = Started\<rparr>)]\<rparr>"
  have "heads i s1 = []" using quiet by (simp add: s1_def heads_def)
  have ans: "settlesHandler i (reply i k body) s1 = (Inr (), arrive i rq (Finished (Inr ())) [WriteHead i k, EndBody i t] s)" if "stringify body = Inr t" for k body t
    using that \<open>heads i s1 = []\<close> by (simp add: settlesHandler_def setPhase_def reply_run prog_run arrive_def s1_def map_entry_snoc [OF new])
  have refuse: thesis if "signalingRequest sha256 i rq s = settlesHandler i (reply i k (error_body m)) s1" "(k, m) \<in> set classes" for k m
  proof -
    obtain t where "stringify (error_body m) = Inr (Some t)" using error_text by blast
    then show thesis using that ans [of "error_body m" "Some t" k] by (intro replied [of "[WriteHead i k, EndBody i (Some t)]"]) (auto simp: replied_def)
  qed
  have docs_s1: "settlesHandler i (retE ()) (s1\<lparr>sg_log := sg_log s @ [e]\<rparr>) = (Inr (), arrive i rq (Finished (Inr ())) [e] s)" for e
    by (simp add: settlesHandler_def setPhase_def prog_run arrive_def s1_def map_entry_snoc [OF new])
  note run = signalingRequest_def bindE_run seqE_run prog_run serveSignalingDocs_def Let_def
  show thesis
  proof (cases "hr_method rq = ustr ''GET''")
    case get: True
    show thesis
    proof (cases "map_of resources (case hr_url rq of None \<Rightarrow> [] | Some u \<Rightarrow> u)")
      case (Some ctype)
      then show thesis using get docs_s1 by (intro docs) (simp add: run s1_def [symmetric], simp add: s1_def)
    next
      case None
      show thesis
      proof (cases "hr_url rq = Some (ustr ''/health'')")
        case True
        have "stringify (mk_obj [(ustr ''status'', Str (ustr ''ready''))]) = Inr (Some (ustr ''{'' @ json_quote (ustr ''status'') @ ustr '':'' @ json_quote (ustr ''ready'') @ ustr ''}''))"
          by (simp add: mk_obj_def mk_prop_def bindR_def)
        from ans [OF this, of 200] show thesis using get None True
          by (intro replied) (auto simp: run s1_def [symmetric] replied_def)
      next
        case False
        then show thesis using get None by (intro refuse [of 404 "''not_found''"]) (simp_all add: run s1_def classes_def)
      qed
    qed
  next
    case other: False
    show thesis
    proof (cases "hr_method rq = ustr ''POST'' \<and> hr_url rq = Some (ustr ''/offer'')")
      case False
      then show thesis using other by (intro refuse [of 404 "''not_found''"]) (auto simp: run s1_def classes_def)
    next
      case post: True
      show thesis
      proof (cases "authenticate sha256 (so_credential (sg_settings s)) (hr_authorization rq)")
        case False
        then show thesis using post by (intro refuse [of 401 "''unauthorized''"]) (auto simp: run s1_def classes_def)
      next
        case auth: True
        show thesis
        proof (cases "hr_contentType rq = Some (ustr ''application/json'')")
          case False
          then show thesis using post auth by (intro refuse [of 415 "''content_type''"]) (auto simp: run s1_def classes_def)
        next
          case json: True
          show thesis
          proof (cases "sg_pending s < so_maxPending (sg_settings s)")
            case False
            then show thesis using post auth json by (intro refuse [of 503 "''busy''"]) (auto simp: run s1_def classes_def)
          next
            case True
            then show thesis using post auth json
              by (intro reading) (auto simp: run setPhase_def arrive_def map_entry_snoc [OF new] eligible_def)
          qed
        qed
      qed
    qed
  qed
qed

lemma arrive_inv:
  assumes inv: "signaling_inv sha256 s" and new: "i \<notin> set (keys (sg_exchanges s))"
    and es: "\<forall>e \<in> set es. effect_id e = i" "classified (sg_log s @ es)" and lim: "active p \<longrightarrow> sg_pending s < so_maxPending (sg_settings s)"
    and ok: "exchange_inv sha256 (sg_settings s) \<lparr>ex_request = rq, ex_phase = p\<rparr> (length (filter (writesHead i) es)) (length (filter (\<lambda>e. is_accept e \<and> effect_id e = i) es))"
  shows "signaling_inv sha256 (arrive i rq p es s)"
proof -
  let ?t = "arrive i rq p es s"
  have log: "sg_log ?t = sg_log s @ es" by (simp add: arrive_def)
  have quiet: "heads i s = []" "accepts i s = []"
    using inv new by (force simp: signaling_inv_def heads_def accepts_def filter_empty_conv writesHead_def split: httpEffect.splits)+
  then have "heads i ?t = filter (writesHead i) es" "accepts i ?t = filter (\<lambda>e. is_accept e \<and> effect_id e = i) es"
    by (simp_all add: arrive_def heads_def accepts_def)
  moreover have "heads j ?t = heads j s \<and> accepts j ?t = accepts j s" if "j \<noteq> i" for j using other_effects [OF es(1) that log] .
  moreover have "j \<noteq> i" if "(j, y) \<in> set (sg_exchanges s)" for j y using that new by force
  ultimately have "exchange_inv sha256 (sg_settings s) y (length (heads j ?t)) (length (accepts j ?t))" if "(j, y) \<in> set (sg_exchanges ?t)" for j y
    using that inv ok by (auto simp: arrive_def signaling_inv_def)
  moreover have "actives ?t = actives s + (if active p then 1 else 0)" by (simp add: actives_def arrive_def)
  ultimately show ?thesis using inv new es lim by (auto simp: signaling_inv_def arrive_def)
qed

lemma request_inv:
  assumes inv: "signaling_inv sha256 s" and new: "i \<notin> set (keys (sg_exchanges s))"
  shows "signaling_inv sha256 (snd (signalingRequest sha256 i rq s))"
  using inv new
proof (cases rule: request_cases [where rq = rq])
  case (docs url ctype)
  have "classified (sg_log s @ [ServeDocs i url ctype])" using inv by (simp add: signaling_inv_def classified_other)
  then show ?thesis using docs by (auto simp: exchange_inv_def writesHead_def intro!: arrive_inv [OF inv new])
next
  case (replied es)
  have "classified (sg_log s @ es)" using inv replied_classified [OF _ replied(2)] by (simp add: signaling_inv_def)
  then have "signaling_inv sha256 (arrive i rq (Finished (Inr ())) es s)"
    using replied_facts [OF replied(2)] by (intro arrive_inv [OF inv new]) (simp_all add: exchange_inv_def)
  then show ?thesis using replied(1) by simp
next
  case reading
  have "classified (sg_log s @ [])" using inv by (simp add: signaling_inv_def)
  moreover have "0 < so_maxBodyBytes (sg_settings s)" using inv by (simp add: signaling_inv_def)
  ultimately have "signaling_inv sha256 (arrive i rq (Reading [] 0) [] s)"
    using reading by (intro arrive_inv [OF inv new]) (simp_all add: exchange_inv_def)
  then show ?thesis using reading(1) by simp
qed

section \<open>Reachable handlers\<close>

text \<open>Requests arrive under fresh numbers; all other events may come in any order and for any request.\<close>

inductive signaling_step :: "(bytes \<Rightarrow> bytes) \<Rightarrow> signaling \<Rightarrow> signaling \<Rightarrow> bool" for sha256 :: "bytes \<Rightarrow> bytes" where
  sg_arrived: "i \<notin> set (keys (sg_exchanges s)) \<Longrightarrow> signaling_step sha256 s (snd (signalingRequest sha256 i rq s))"
| sg_data: "signaling_step sha256 s (snd (body_data i chunk s))"
| sg_end: "signaling_step sha256 s (snd (body_end i s))"
| sg_timeout: "signaling_step sha256 s (snd (body_timeout i s))"
| sg_failed: "signaling_step sha256 s (snd (body_failed i s))"
| sg_resumed: "signaling_step sha256 s (snd (offer_resume i s))"
| sg_accepted: "signaling_step sha256 s (snd (offer_accepted i outcome s))"

inductive_simps signaling_step_simps: "signaling_step sha256 s t"

definition signaling_start :: "signaling \<Rightarrow> bool" where
  "signaling_start s \<longleftrightarrow> (\<exists>c b r p. createSignalingHandler c b r p = Inr s)"

lemma start_settings:
  assumes "createSignalingHandler c b r p = Inr s"
  shows "sg_exchanges s = [] \<and> sg_log s = [] \<and> sg_pending s = 0 \<and> 0 < so_maxPending (sg_settings s) \<and> 0 < so_maxBodyBytes (sg_settings s)
    \<and> 32 \<le> length (so_credential (sg_settings s))"
proof -
  have "isSafeInteger n \<and> \<not> num_le n (NumI 0) \<Longrightarrow> 0 < num_int n" for n unfolding isSafeInteger_iff by auto
  then show ?thesis using assms by (auto simp: createSignalingHandler_def bindR_eq_Inr failIf_def split: jsval.splits if_splits)
qed

interpretation sg: invariant_system signaling_start "signaling_step sha256" "signaling_inv sha256" for sha256
proof unfold_locales
  show "signaling_start s \<Longrightarrow> signaling_inv sha256 s" for s
    by (auto simp: signaling_start_def signaling_inv_def classified_def actives_def dest!: start_settings)
  show "signaling_inv sha256 s \<Longrightarrow> signaling_step sha256 s t \<Longrightarrow> signaling_inv sha256 t" for s t
    by (auto simp: signaling_step_simps intro: request_inv data_inv body_inv resume_inv accepted_inv)
qed

section \<open>Properties\<close>

text \<open>
  C13: Nothing of an offer is buffered and \<open>accept\<close> is never called before authentication. In every reachable
  state a request whose body is being read, or for which \<open>accept\<close> has been called, is a POST of the path
  \<open>/offer\<close> with the content type \<open>application/json\<close> whose authorization header has the digest of the Bearer
  credential, and \<open>accept\<close> is called at most once for it.
\<close>

theorem offers_authenticated:
  assumes "reachable signaling_start (signaling_step sha256) s" and "(i, x) \<in> set (sg_exchanges s)"
    and "(\<exists>chunks n. ex_phase x = Reading chunks n) \<or> accepts i s \<noteq> []"
  shows "hr_method (ex_request x) = ustr ''POST'' \<and> hr_url (ex_request x) = Some (ustr ''/offer'')
    \<and> hr_contentType (ex_request x) = Some (ustr ''application/json'')
    \<and> (\<exists>v. hr_authorization (ex_request x) = Some v
         \<and> sha256 (utf8_encode v) = sha256 (utf8_encode (ustr ''Bearer '' @ so_credential (sg_settings s))))
    \<and> length (accepts i s) \<le> 1"
proof -
  have inv: "signaling_inv sha256 s" using assms(1) by (rule sg.reachable_inv)
  then have "exchange_inv sha256 (sg_settings s) x (length (heads i s)) (length (accepts i s))" using assms(2) by (simp add: signaling_inv_def)
  then have "eligible sha256 (sg_settings s) (ex_request x) \<and> length (accepts i s) \<le> 1"
    using assms(3) unfolding exchange_inv_def by (cases "accepts i s") (auto split: exchangePhase.splits)
  then show ?thesis by (auto simp: eligible_def authenticate_def split: option.splits)
qed

text \<open>
  C14: The memory of unfinished offers is bounded. In every reachable state \<open>pending\<close> is exactly the number
  of offers between the start of reading and the reply and at most \<open>maxPending\<close>, however requests fail,
  time out or overlap, and the bytes buffered for all of them together are at most \<open>maxPending\<close> times
  \<open>maxBodyBytes\<close>.
\<close>

theorem offers_bounded:
  assumes "reachable signaling_start (signaling_step sha256) s"
  shows "sg_pending s = int (length (filter (\<lambda>p. active (ex_phase (snd p))) (sg_exchanges s)))
    \<and> sg_pending s \<le> so_maxPending (sg_settings s)
    \<and> (\<Sum>p \<leftarrow> sg_exchanges s. buffered (ex_phase (snd p))) \<le> so_maxPending (sg_settings s) * so_maxBodyBytes (sg_settings s)"
proof -
  have inv: "signaling_inv sha256 s" using assms by (rule sg.reachable_inv)
  let ?b = "so_maxBodyBytes (sg_settings s)"
  have n: "sg_pending s = actives s" "sg_pending s \<le> so_maxPending (sg_settings s)" "0 < ?b" using inv by (simp_all add: signaling_inv_def)
  have count: "(\<Sum>p \<leftarrow> xs. if active (ex_phase (snd p)) then 1 else 0) = int (length (filter (\<lambda>p. active (ex_phase (snd p))) xs))" for xs :: "(nat \<times> exchange) list"
    by (induction xs) auto
  have "buffered (ex_phase (snd p)) \<le> (if active (ex_phase (snd p)) then 1 else 0) * ?b" if "p \<in> set (sg_exchanges s)" for p
  proof -
    have "exchange_inv sha256 (sg_settings s) (snd p) (length (heads (fst p) s)) (length (accepts (fst p) s))"
      using inv that by (cases p) (auto simp: signaling_inv_def)
    then show ?thesis using n(3) by (auto simp: exchange_inv_def split: exchangePhase.splits)
  qed
  then have "(\<Sum>p \<leftarrow> sg_exchanges s. buffered (ex_phase (snd p))) \<le> (\<Sum>p \<leftarrow> sg_exchanges s. (if active (ex_phase (snd p)) then 1 else 0) * ?b)"
    by (rule sum_list_mono)
  also have "\<dots> = actives s * ?b" by (simp add: actives_def sum_list_mult_const)
  also have "\<dots> \<le> so_maxPending (sg_settings s) * ?b" using n by (intro mult_right_mono) simp_all
  finally show ?thesis using n count unfolding actives_def by metis
qed

text \<open>
  Every request is answered exactly once and errors are anonymous. In every reachable state a finished
  request has got exactly one response head and an unfinished one none, and a body that was sent is the
  answer of \<open>accept\<close> or the health report, with status 200, or the fixed text that belongs to the status,
  whatever text the error carried.
\<close>

theorem offers_answered:
  assumes "reachable signaling_start (signaling_step sha256) s" and "(i, x) \<in> set (sg_exchanges s)"
  shows "length (heads i s) = (if active (ex_phase x) then 0 else 1)
    \<and> (\<forall>t. EndBody i t \<in> set (sg_log s) \<longrightarrow> (\<exists>k. WriteHead i k \<in> set (sg_log s) \<and>
         (k = 200 \<or> (\<exists>m. (k, m) \<in> set classes \<and> stringify (error_body m) = Inr t))))"
proof -
  have inv: "signaling_inv sha256 s" using assms(1) by (rule sg.reachable_inv)
  then have "exchange_inv sha256 (sg_settings s) x (length (heads i s)) (length (accepts i s))" "classified (sg_log s)"
    using assms(2) by (simp_all add: signaling_inv_def)
  then show ?thesis unfolding classified_def exchange_inv_def by (auto split: exchangePhase.splits)
qed

section \<open>Witnesses\<close>

definition example_credential :: ustring where
  "example_credential = replicate 32 (code_unit (CHR ''a''))"

definition example_handler :: signaling where
  "example_handler = \<lparr>sg_settings = \<lparr>so_credential = example_credential, so_maxBodyBytes = 16, so_requestTimeoutMs = 1000, so_maxPending = 1\<rparr>,
     sg_pending = 0, sg_exchanges = [], sg_log = []\<rparr>"

definition example_offer_request :: httpRequest where
  "example_offer_request = \<lparr>hr_method = ustr ''POST'', hr_url = Some (ustr ''/offer''), hr_authorization = Some (ustr ''Bearer '' @ example_credential),
     hr_contentType = Some (ustr ''application/json'')\<rparr>"

text \<open>One offer is being read when a second one arrives, which is refused as busy.\<close>

definition example_busy :: signaling where
  "example_busy = snd (signalingRequest (\<lambda>b. b) 2 example_offer_request (snd (body_data 1 [123] (snd (signalingRequest (\<lambda>b. b) 1 example_offer_request example_handler)))))"

lemma example_busy_run:
  "\<exists>t. example_busy = \<lparr>sg_settings = sg_settings example_handler, sg_pending = 1,
     sg_exchanges = [(1, \<lparr>ex_request = example_offer_request, ex_phase = Reading [[123]] 1\<rparr>), (2, \<lparr>ex_request = example_offer_request, ex_phase = Finished (Inr ())\<rparr>)],
     sg_log = [WriteHead 2 503, EndBody 2 (Some t)]\<rparr>"
proof -
  obtain t where "stringify (error_body ''busy'') = Inr (Some t)" using error_text by blast
  then show ?thesis
    by (simp add: example_busy_def signalingRequest_def serveSignalingDocs_def authenticate_def example_offer_request_def example_handler_def body_data_def
        whileReading_def reply_run heads_def sg_runs)
qed

lemma example_busy_fields:
  "sg_settings example_busy = sg_settings example_handler" "sg_pending example_busy = 1"
  "sg_exchanges example_busy = [(1, \<lparr>ex_request = example_offer_request, ex_phase = Reading [[123]] 1\<rparr>), (2, \<lparr>ex_request = example_offer_request, ex_phase = Finished (Inr ())\<rparr>)]"
  "\<exists>t. sg_log example_busy = [WriteHead 2 503, EndBody 2 (Some t)]"
  using example_busy_run by (metis signaling.select_convs)+

lemma example_busy_reach: "reachable signaling_start (signaling_step (\<lambda>b. b)) example_busy"
proof -
  have "createSignalingHandler (Str example_credential) (NumI 16) (NumI 1000) (NumI 1) = Inr example_handler"
    by (simp add: createSignalingHandler_def example_handler_def example_credential_def failIf_def bindR_def MAX_SAFE_INTEGER_def)
  then have start: "reachable signaling_start (signaling_step (\<lambda>b. b)) example_handler" by (intro reach_start) (auto simp: signaling_start_def)
  have "keys (sg_exchanges (snd (body_data 1 [123] (snd (signalingRequest (\<lambda>b. b) 1 example_offer_request example_handler))))) = [1]"
    by (simp add: signalingRequest_def serveSignalingDocs_def authenticate_def example_offer_request_def example_handler_def body_data_def whileReading_def sg_runs)
  then have fresh: "2 \<notin> set (keys (sg_exchanges (snd (body_data 1 [123] (snd (signalingRequest (\<lambda>b. b) 1 example_offer_request example_handler))))))" by simp
  have "1 \<notin> set (keys (sg_exchanges example_handler))" by (simp add: example_handler_def)
  from reach_step [OF start sg_arrived [OF this]] show ?thesis
    unfolding example_busy_def using sg_arrived [OF fresh, of "\<lambda>b. b" example_offer_request] sg_data by (blast intro: reach_step)
qed

theorem offers_authenticated_witness:
  "\<exists>v. hr_authorization example_offer_request = Some v
     \<and> utf8_encode v = utf8_encode (ustr ''Bearer '' @ so_credential (sg_settings example_busy)) \<and> length (accepts 1 example_busy) \<le> 1"
proof -
  have "(1, \<lparr>ex_request = example_offer_request, ex_phase = Reading [[123]] 1\<rparr>) \<in> set (sg_exchanges example_busy)" by (simp add: example_busy_fields)
  from offers_authenticated [OF example_busy_reach this] show ?thesis by simp
qed

theorem offers_bounded_witness:
  "sg_pending example_busy = 1 \<and> (\<Sum>p \<leftarrow> sg_exchanges example_busy. buffered (ex_phase (snd p))) \<le> 16"
  using offers_bounded [OF example_busy_reach] by (simp add: example_busy_fields example_handler_def)

theorem offers_answered_witness:
  "length (heads 2 example_busy) = 1 \<and> (\<exists>t. EndBody 2 t \<in> set (sg_log example_busy))"
proof -
  have "(2, \<lparr>ex_request = example_offer_request, ex_phase = Finished (Inr ())\<rparr>) \<in> set (sg_exchanges example_busy)" by (simp add: example_busy_fields)
  from offers_answered [OF example_busy_reach this] show ?thesis using example_busy_fields(4) by auto
qed

end
