(* ===== verification/Endpoint.thy ===== *)
theory Endpoint
  imports Sdp Session_Validation
begin

text \<open>
  \<open>transport/endpoint.ts\<close>: one peer connection from its offer to its release. The peer, the data channels,
  the video slots, the router and the callbacks are outside; every call of them is an entry of \<open>en_log\<close>
  and what they answer is a function of the log up to and including the call. A call of the router may
  call \<open>send\<close> any number of times and ask for the peer to be closed before it returns or throws. Events
  of the transport reach the endpoint only through a eventSubscription it still holds. Promises are kept as
  the phase they are in: \<open>en_stage\<close> is the peer operation \<open>negotiate\<close> waits for, \<open>en_answer\<close> the race
  with the deadline, \<open>en_closing\<close> the promise of \<open>close\<close>. \<open>onError\<close> and \<open>onClosed\<close> do not throw.
\<close>

section \<open>State\<close>

record dataChannelObject =
  dc_label :: ustring
  dc_ordered :: bool
  dc_negotiated :: bool
  dc_maxRetransmits :: "int option"
  dc_maxPacketLifeTime :: "int option"
  dc_readyState :: ustring
  dc_bufferedAmount :: int
  dc_bufferedAmountLowThreshold :: int

datatype eventSubscription = OnDataChannel | OnConnectionState | OnBufferedAmountLow nat | OnStateChanged nat | OnMessage nat

datatype answerPhase = Unused | Racing | AnswerFailed error | Answered ustring ustring | Rejected error

datatype closePhase = NotClosing | CloseScheduled | PeerClosing | CloseDone

datatype endpointEffect =
    ChannelSend nat bytes
  | AddSlot offeredVideo
  | SlotStop nat
  | MakeRouter int
  | RouterReceive ustring bytes
  | RouterFlush
  | RouterClose
  | PeerCall nat
  | PeerClose
  | EndpointError
  | EndpointClosed

text \<open>What the router does while it is called.\<close>

record routerReaction =
  rr_sends :: "(ustring \<times> bytes) list"
  rr_onClosed :: bool
  rr_outcome :: "unit result"

record endpointAnswers =
  ea_addSlot :: "endpointEffect list \<Rightarrow> unit result"
  ea_makeRouter :: "endpointEffect list \<Rightarrow> unit result"
  ea_router :: "endpointEffect list \<Rightarrow> routerReaction"
  ea_isClosed :: "endpointEffect list \<Rightarrow> bool"
  ea_slotStop :: "endpointEffect list \<Rightarrow> unit result"
  ea_send :: "endpointEffect list \<Rightarrow> unit result"

record endpoint =
  en_maxBufferedBytes :: int
  en_maxSdpBytes :: int
  en_timeoutMs :: int
  en_video :: "nat option"
  en_maxMessageBytes :: int
  en_channels :: "(ustring \<times> nat) list"
  en_objects :: "nat \<Rightarrow> dataChannelObject"
  en_subscriptions :: "eventSubscription list"
  en_router :: bool
  en_closed :: bool
  en_used :: bool
  en_closing :: closePhase
  en_timer :: bool
  en_slots :: "nat list"
  en_answer :: answerPhase
  en_stage :: "nat option"
  en_microtasks :: nat
  en_log :: "endpointEffect list"

section \<open>Operations\<close>

definition channelLabels :: "ustring list" where
  "channelLabels = map ustr [''ros.control.v1'', ''ros.reliable.v1'', ''ros.realtime.v1'']"

definition newEndpoint :: "number \<Rightarrow> number \<Rightarrow> number \<Rightarrow> number \<Rightarrow> nat option \<Rightarrow> (nat \<Rightarrow> dataChannelObject) \<Rightarrow> endpoint result" where
  "newEndpoint nMessage nBuffered nSdp nTimeout video objects =
     bindR (mapR positiveLimit [nMessage, nBuffered, nSdp, nTimeout]) (\<lambda>_.
     let limit = min 16384 (num_int nMessage) in
     bindR (failIf (num_int nBuffered < limit) (Err ''invalid_limit'')) (\<lambda>_.
     Inr \<lparr>en_maxBufferedBytes = num_int nBuffered, en_maxSdpBytes = num_int nSdp, en_timeoutMs = num_int nTimeout, en_video = video,
       en_maxMessageBytes = limit, en_channels = [], en_objects = objects, en_subscriptions = [OnDataChannel, OnConnectionState], en_router = False,
       en_closed = False, en_used = False, en_closing = NotClosing, en_timer = False, en_slots = [], en_answer = Unused, en_stage = None,
       en_microtasks = 0, en_log = []\<rparr>))"

definition emitE :: "endpointEffect \<Rightarrow> (endpoint, unit) prog" where
  "emitE x = modE (\<lambda>s. s\<lparr>en_log := en_log s @ [x]\<rparr>)"

definition outside :: "(endpointEffect list \<Rightarrow> 'a) \<Rightarrow> endpointEffect \<Rightarrow> (endpoint, 'a) prog" where
  "outside f x = seqE (emitE x) (getE (\<lambda>s. f (en_log s)))"

text \<open>The transport accounts a sent message as buffered.\<close>

definition endpoint_send :: "endpointAnswers \<Rightarrow> ustring \<Rightarrow> bytes \<Rightarrow> (endpoint, bool) prog" where
  "endpoint_send a label bs =
     bindE (getE en_closed) (\<lambda>closed.
     if closed then retE False
     else bindE (getE (\<lambda>s. map_of (en_channels s) label)) (\<lambda>found.
       case found of
         None \<Rightarrow> retE False
       | Some c \<Rightarrow>
           bindE (getE (\<lambda>s. en_objects s c)) (\<lambda>d.
           if dc_readyState d \<noteq> ustr ''open'' then retE False
           else bindE (getE en_maxMessageBytes) (\<lambda>limit.
             seqE (throwIf (int (length bs) > limit) (Err ''message_size''))
            (bindE (getE en_maxBufferedBytes) (\<lambda>capacity.
             if int (length bs) > capacity - dc_bufferedAmount d then retE False
             else seqE (modE (\<lambda>s. s\<lparr>en_objects := (en_objects s)(c := d\<lparr>dc_bufferedAmount := dc_bufferedAmount d + int (length bs)\<rparr>)\<rparr>))
                 (bindE (outside (ea_send a) (ChannelSend c bs)) (\<lambda>r.
                  seqE (liftE r) (retE True)))))))))"

text \<open>A call of the router; what \<open>send\<close> throws goes to the router.\<close>

definition router_call :: "endpointAnswers \<Rightarrow> endpointEffect \<Rightarrow> (endpoint, unit) prog" where
  "router_call a x =
     bindE (outside (ea_router a) x) (\<lambda>r.
     seqE (forE (\<lambda>(label, bs). catchE (seqE (endpoint_send a label bs) (retE ())) (\<lambda>_. retE ())) (rr_sends r))
    (seqE (modE (\<lambda>s. if rr_onClosed r then s\<lparr>en_microtasks := en_microtasks s + 1\<rparr> else s))
          (liftE (rr_outcome r))))"

definition reject_race :: "error \<Rightarrow> (endpoint, unit) prog" where
  "reject_race e = modE (\<lambda>s. if en_answer s = Racing then s\<lparr>en_answer := AnswerFailed e\<rparr> else s)"

definition stop_slot :: "endpointAnswers \<Rightarrow> nat \<Rightarrow> (endpoint, unit) prog" where
  "stop_slot a i = catchE (bindE (outside (ea_slotStop a) (SlotStop i)) liftE) (\<lambda>_. emitE EndpointError)"

definition endpoint_close :: "endpointAnswers \<Rightarrow> (endpoint, unit) prog" where
  "endpoint_close a =
     bindE (getE en_closing) (\<lambda>c.
     if c \<noteq> NotClosing then retE ()
     else seqE (modE (\<lambda>s. s\<lparr>en_closed := True, en_timer := False\<rparr>))
         (seqE (reject_race (Err ''endpoint_closed''))
         (seqE (modE (\<lambda>s. s\<lparr>en_subscriptions := []\<rparr>))
         (bindE (getE en_router) (\<lambda>router.
          seqE (if router then catchE (router_call a RouterClose) (\<lambda>_. emitE EndpointError) else retE ())
         (bindE (getE en_slots) (\<lambda>slots.
          seqE (modE (\<lambda>s. s\<lparr>en_slots := []\<rparr>))
         (seqE (forE (stop_slot a) slots)
               (modE (\<lambda>s. s\<lparr>en_channels := [], en_closing := CloseScheduled\<rparr>))))))))))"

text \<open>The continuation of \<open>close\<close>: the peer is asked to close, and the promise or its deadline settles.\<close>

definition close_peer :: "(endpoint, unit) prog" where
  "close_peer =
     bindE (getE en_closing) (\<lambda>c.
     if c = CloseScheduled then seqE (modE (\<lambda>s. s\<lparr>en_closing := PeerClosing\<rparr>)) (emitE PeerClose) else retE ())"

definition close_settled :: "bool \<Rightarrow> (endpoint, unit) prog" where
  "close_settled ok =
     bindE (getE en_closing) (\<lambda>c.
     if c = PeerClosing then
       seqE (if ok then retE () else emitE EndpointError) (seqE (emitE EndpointClosed) (modE (\<lambda>s. s\<lparr>en_closing := CloseDone\<rparr>)))
     else retE ())"

definition endpoint_flush :: "endpointAnswers \<Rightarrow> (endpoint, unit) prog" where
  "endpoint_flush a =
     bindE (getE en_router) (\<lambda>router.
     if \<not> router then retE ()
     else seqE (router_call a RouterFlush)
         (bindE (getE (\<lambda>s. ea_isClosed a (en_log s))) (\<lambda>closed. if closed then endpoint_close a else retE ())))"

definition endpoint_opened :: "endpointAnswers \<Rightarrow> (endpoint, unit) prog" where
  "endpoint_opened a =
     bindE (getE (\<lambda>s. length (en_channels s) \<noteq> 3 \<or> list_ex (\<lambda>(_, c). dc_readyState (en_objects s c) \<noteq> ustr ''open'') (en_channels s))) (\<lambda>waiting.
     if waiting then retE ()
     else seqE (modE (\<lambda>s. s\<lparr>en_timer := False\<rparr>)) (endpoint_flush a))"

definition channel_refused :: "endpoint \<Rightarrow> dataChannelObject \<Rightarrow> bool" where
  "channel_refused s d =
     (let realtime = (dc_label d = ustr ''ros.realtime.v1'') in
      en_closed s \<or> dc_label d \<notin> set channelLabels \<or> dc_label d \<in> set (keys (en_channels s)) \<or> dc_negotiated d
      \<or> dc_ordered d = realtime \<or> dc_maxPacketLifeTime d \<noteq> None \<or> dc_maxRetransmits d \<noteq> (if realtime then Some 0 else None))"

definition endpoint_channel :: "endpointAnswers \<Rightarrow> nat \<Rightarrow> (endpoint, unit) prog" where
  "endpoint_channel a c =
     bindE (getE (\<lambda>s. channel_refused s (en_objects s c))) (\<lambda>refused.
     if refused then endpoint_close a
     else seqE (modE (\<lambda>s. let d = en_objects s c in
                 s\<lparr>en_channels := AList.update (dc_label d) c (en_channels s),
                   en_objects := (en_objects s)(c := d\<lparr>dc_bufferedAmountLowThreshold := en_maxBufferedBytes s div 2\<rparr>),
                   en_subscriptions := en_subscriptions s @ [OnBufferedAmountLow c, OnStateChanged c, OnMessage c]\<rparr>))
              (endpoint_opened a))"

text \<open>The events of the transport.\<close>

definition subscribedE :: "eventSubscription \<Rightarrow> (endpoint, unit) prog \<Rightarrow> (endpoint, unit) prog" where
  "subscribedE x m = bindE (getE (\<lambda>s. x \<in> set (en_subscriptions s))) (\<lambda>held. if held then m else retE ())"

definition on_dataChannel :: "endpointAnswers \<Rightarrow> nat \<Rightarrow> (endpoint, unit) prog" where
  "on_dataChannel a c = subscribedE OnDataChannel (endpoint_channel a c)"

definition on_connectionState :: "endpointAnswers \<Rightarrow> ustring \<Rightarrow> (endpoint, unit) prog" where
  "on_connectionState a st =
     subscribedE OnConnectionState (if st \<in> set (map ustr [''failed'', ''closed'', ''disconnected'']) then endpoint_close a else retE ())"

definition on_bufferedAmountLow :: "endpointAnswers \<Rightarrow> nat \<Rightarrow> (endpoint, unit) prog" where
  "on_bufferedAmountLow a c = subscribedE (OnBufferedAmountLow c) (endpoint_flush a)"

definition on_stateChanged :: "endpointAnswers \<Rightarrow> nat \<Rightarrow> ustring \<Rightarrow> (endpoint, unit) prog" where
  "on_stateChanged a c st = subscribedE (OnStateChanged c) (if st = ustr ''closed'' then endpoint_close a else endpoint_opened a)"

text \<open>A message is text (\<open>Inl\<close>) or bytes.\<close>

definition on_message :: "endpointAnswers \<Rightarrow> nat \<Rightarrow> ustring + bytes \<Rightarrow> (endpoint, unit) prog" where
  "on_message a c msg =
     subscribedE (OnMessage c)
      (bindE (getE (\<lambda>s. length (en_channels s) \<noteq> 3 \<or> \<not> en_router s)) (\<lambda>early.
       if early then endpoint_close a
       else let bs = (case msg of Inl t \<Rightarrow> utf8_encode t | Inr b \<Rightarrow> b) in
         bindE (getE en_maxMessageBytes) (\<lambda>limit.
         if int (length bs) > limit then endpoint_close a
         else bindE (getE (\<lambda>s. dc_label (en_objects s c))) (\<lambda>label.
           seqE (router_call a (RouterReceive label bs))
          (bindE (getE (\<lambda>s. ea_isClosed a (en_log s))) (\<lambda>closed. if closed then endpoint_close a else retE ())))))) "

text \<open>The \<open>catch\<close> clause of \<open>answer\<close>: the error is rethrown once \<open>close\<close> has completed.\<close>

definition answer_failed :: "endpointAnswers \<Rightarrow> error \<Rightarrow> (endpoint, unit) prog" where
  "answer_failed a e = seqE (modE (\<lambda>s. s\<lparr>en_answer := AnswerFailed e\<rparr>)) (endpoint_close a)"

definition offer_text :: "jsval \<Rightarrow> jsval \<Rightarrow> int \<Rightarrow> ustring result" where
  "offer_text type sdp maxSdp =
     (case sdp of
        Str t \<Rightarrow> if type \<noteq> Str (ustr ''offer'') \<or> int (utf8_length t) > maxSdp then Inl (Err ''invalid_offer'') else Inr t
      | _ \<Rightarrow> Inl (Err ''invalid_offer''))"

text \<open>An omitted limit means 65536, zero means unlimited.\<close>

definition apply_limit :: "offerShape \<Rightarrow> (endpoint, unit) prog" where
  "apply_limit shape =
     (let advertised = (case maxMessageBytes shape of Some n \<Rightarrow> num_int n | None \<Rightarrow> 65536) in
      modE (\<lambda>s. if advertised \<noteq> 0 then s\<lparr>en_maxMessageBytes := min (en_maxMessageBytes s) advertised\<rparr> else s))"

definition add_slots :: "endpointAnswers \<Rightarrow> offeredVideo list \<Rightarrow> (endpoint, unit) prog" where
  "add_slots a = forE (\<lambda>offered.
     bindE (outside (ea_addSlot a) (AddSlot offered)) (\<lambda>r.
     seqE (liftE r) (modE (\<lambda>s. s\<lparr>en_slots := en_slots s @ [length (en_log s)]\<rparr>))))"

definition begin_race :: "endpointAnswers \<Rightarrow> (endpoint, unit) prog" where
  "begin_race a =
     bindE (getE en_maxMessageBytes) (\<lambda>limit.
     bindE (outside (ea_makeRouter a) (MakeRouter limit)) (\<lambda>r.
     seqE (liftE r)
    (seqE (modE (\<lambda>s. s\<lparr>en_router := True, en_timer := True, en_answer := Racing, en_stage := Some 0\<rparr>))
          (emitE (PeerCall 0)))))"

definition answer_begin :: "endpointAnswers \<Rightarrow> jsval \<Rightarrow> jsval \<Rightarrow> (endpoint, unit) prog" where
  "answer_begin a type sdp =
     bindE (getE (\<lambda>s. en_used s \<or> en_closed s)) (\<lambda>taken.
     seqE (throwIf taken (Err ''endpoint_unavailable''))
    (seqE (modE (\<lambda>s. s\<lparr>en_used := True\<rparr>))
    (catchE
      (bindE (getE en_maxSdpBytes) (\<lambda>maxSdp.
       bindE (liftE (offer_text type sdp maxSdp)) (\<lambda>t.
       bindE (getE en_video) (\<lambda>video.
       bindE (liftE (parseOffer t (case video of Some n \<Rightarrow> n | None \<Rightarrow> 0))) (\<lambda>shape.
       seqE (apply_limit shape)
      (seqE (if video \<noteq> None then add_slots a (offer_video shape) else retE ())
            (begin_race a)))))))
      (answer_failed a))))"

text \<open>
  The pending operation of the peer settles; for the last one, \<open>local\<close> is the local description.
  \<open>negotiate\<close> goes on even when the race is lost, but its outcome is then ignored.
\<close>

definition race_settles :: "endpointAnswers \<Rightarrow> (ustring \<times> ustring) result \<Rightarrow> (endpoint, unit) prog" where
  "race_settles a outcome =
     bindE (getE (\<lambda>s. en_answer s = Racing)) (\<lambda>racing.
     if \<not> racing then retE ()
     else case outcome of Inl e \<Rightarrow> answer_failed a e | Inr (type, sdp) \<Rightarrow> modE (\<lambda>s. s\<lparr>en_answer := Answered type sdp\<rparr>))"

definition negotiate :: "endpointAnswers \<Rightarrow> unit result \<Rightarrow> (ustring \<times> ustring) option \<Rightarrow> (endpoint, unit) prog" where
  "negotiate a outcome local =
     bindE (getE en_stage) (\<lambda>stage.
     case stage of
       None \<Rightarrow> retE ()
     | Some n \<Rightarrow>
         (case outcome of
            Inl e \<Rightarrow> seqE (modE (\<lambda>s. s\<lparr>en_stage := None\<rparr>)) (race_settles a (Inl e))
          | Inr _ \<Rightarrow>
              if n < 2 then seqE (modE (\<lambda>s. s\<lparr>en_stage := Some (n + 1)\<rparr>)) (emitE (PeerCall (n + 1)))
              else seqE (modE (\<lambda>s. s\<lparr>en_stage := None\<rparr>))
                  (bindE (getE (\<lambda>s. if en_closed s then Inl (Err ''endpoint_closed'')
                     else case local of
                       None \<Rightarrow> Inl (Err ''invalid_answer'')
                     | Some (type, sdp) \<Rightarrow> if int (utf8_length sdp) > en_maxSdpBytes s then Inl (Err ''invalid_answer'') else Inr (type, sdp)))
                  (race_settles a))))"

text \<open>The deadline of the negotiation.\<close>

definition negotiation_timer :: "endpointAnswers \<Rightarrow> (endpoint, unit) prog" where
  "negotiation_timer a =
     bindE (getE en_timer) (\<lambda>armed.
     if \<not> armed then retE ()
     else seqE (modE (\<lambda>s. s\<lparr>en_timer := False\<rparr>)) (seqE (endpoint_close a) (reject_race (Err ''negotiation_timeout''))))"

definition answer_rethrows :: "(endpoint, unit) prog" where
  "answer_rethrows =
     modE (\<lambda>s. case en_answer s of AnswerFailed e \<Rightarrow> if en_closing s = CloseDone then s\<lparr>en_answer := Rejected e\<rparr> else s | _ \<Rightarrow> s)"

text \<open>The microtask queued by the router's \<open>onClosed\<close>.\<close>

definition run_microtask :: "endpointAnswers \<Rightarrow> (endpoint, unit) prog" where
  "run_microtask a =
     bindE (getE en_microtasks) (\<lambda>n.
     if n = 0 then retE () else seqE (modE (\<lambda>s. s\<lparr>en_microtasks := n - 1\<rparr>)) (endpoint_close a))"

section \<open>Closing\<close>

lemmas en_runs = bindE_run seqE_run catchE_run prog_run throwIf_run emitE_def outside_def

lemma outside_run: "outside f x s = (Inr (f (en_log s @ [x])), s\<lparr>en_log := en_log s @ [x]\<rparr>)"
  by (simp add: en_runs)

lemma closed_send: "en_closed s \<Longrightarrow> endpoint_send a label bs s = (Inr False, s)"
  by (simp add: endpoint_send_def en_runs)

lemma closed_router_call:
  assumes "en_closed s"
  shows "\<exists>k r. router_call a x s = (r, s\<lparr>en_log := en_log s @ [x], en_microtasks := k\<rparr>)"
proof -
  let ?s = "s\<lparr>en_log := en_log s @ [x]\<rparr>" and ?r = "ea_router a (en_log s @ [x])"
  have "forE (\<lambda>(label, bs). catchE (seqE (endpoint_send a label bs) (retE ())) (\<lambda>_. retE ())) xs ?s = (Inr (), ?s)" for xs
    using assms by (induction xs) (auto simp: en_runs closed_send)
  then show ?thesis
    by (intro exI [of _ "if rr_onClosed ?r then en_microtasks s + 1 else en_microtasks s"] exI [of _ "rr_outcome ?r"])
       (simp add: router_call_def outside_run bindE_run seqE_run prog_run)
qed

fun is_stop :: "endpointEffect \<Rightarrow> bool" where
  "is_stop (SlotStop i) = True"
| "is_stop _ = False"

lemma stop_slots:
  "\<exists>new. forE (stop_slot a) slots s = (Inr (), s\<lparr>en_log := en_log s @ new\<rparr>)
     \<and> filter is_stop new = map SlotStop slots \<and> set new \<subseteq> insert EndpointError (range SlotStop)"
proof (induction slots arbitrary: s)
  case Nil
  show ?case by (intro exI [of _ "[]"]) (simp add: prog_run)
next
  case (Cons i slots)
  define one where "one = (case ea_slotStop a (en_log s @ [SlotStop i]) of Inl e \<Rightarrow> [SlotStop i, EndpointError] | Inr _ \<Rightarrow> [SlotStop i])"
  obtain new where new: "forE (stop_slot a) slots (s\<lparr>en_log := en_log s @ one\<rparr>)
      = (Inr (), s\<lparr>en_log := en_log s @ one @ new\<rparr>)" "filter is_stop new = map SlotStop slots" "set new \<subseteq> insert EndpointError (range SlotStop)"
    using Cons.IH [of "s\<lparr>en_log := en_log s @ one\<rparr>"] by auto
  moreover have "stop_slot a i s = (Inr (), s\<lparr>en_log := en_log s @ one\<rparr>)" by (auto simp: stop_slot_def one_def en_runs split: sum.splits)
  ultimately show ?case by (intro exI [of _ "one @ new"]) (auto simp: seqE_run one_def split: sum.splits)
qed

definition lose_race :: "error \<Rightarrow> answerPhase \<Rightarrow> answerPhase" where
  "lose_race e p = (if p = Racing then AnswerFailed e else p)"

lemma endpoint_close_run:
  assumes "en_closing s = NotClosing"
  shows "\<exists>new k. endpoint_close a s = (Inr (), s\<lparr>en_closed := True, en_timer := False, en_answer := lose_race (Err ''endpoint_closed'') (en_answer s),
      en_subscriptions := [], en_slots := [], en_channels := [], en_closing := CloseScheduled, en_log := en_log s @ new, en_microtasks := k\<rparr>)
    \<and> filter is_stop new = map SlotStop (en_slots s) \<and> count_list new RouterClose = (if en_router s then 1 else 0)
    \<and> (en_router s \<longrightarrow> hd new = RouterClose) \<and> set new \<subseteq> {RouterClose, EndpointError} \<union> range SlotStop"
proof -
  define s1 where "s1 = s\<lparr>en_closed := True, en_timer := False, en_answer := lose_race (Err ''endpoint_closed'') (en_answer s), en_subscriptions := []\<rparr>"
  obtain k new1 where r: "(if en_router s then catchE (router_call a RouterClose) (\<lambda>_. emitE EndpointError) else retE ()) s1
      = (Inr (), s1\<lparr>en_log := en_log s @ new1, en_microtasks := k\<rparr>)" "new1 = (if en_router s then [RouterClose] else []) \<or> en_router s \<and> new1 = [RouterClose, EndpointError]"
  proof (cases "en_router s")
    case False
    then show thesis by (intro that [of "en_microtasks s" "[]"]) (simp_all add: prog_run s1_def)
  next
    case True
    have "en_closed s1" by (simp add: s1_def)
    then obtain k o1 where call: "router_call a RouterClose s1 = (o1, s1\<lparr>en_log := en_log s1 @ [RouterClose], en_microtasks := k\<rparr>)" using closed_router_call by blast
    then show thesis using True
      by (cases o1) (rule that [of k "[RouterClose, EndpointError]"], simp_all add: en_runs s1_def, rule that [of k "[RouterClose]"], simp_all add: en_runs s1_def)
  qed
  define s2 where "s2 = s1\<lparr>en_log := en_log s @ new1, en_microtasks := k, en_slots := []\<rparr>"
  obtain new2 where st: "forE (stop_slot a) (en_slots s) s2 = (Inr (), s2\<lparr>en_log := en_log s2 @ new2\<rparr>)"
    "filter is_stop new2 = map SlotStop (en_slots s)" "set new2 \<subseteq> insert EndpointError (range SlotStop)"
    using stop_slots by blast
  have "RouterClose \<notin> set new2" using st(3) by auto
  moreover have "reject_race (Err ''endpoint_closed'') (s\<lparr>en_closed := True, en_timer := False\<rparr>)
      = (Inr (), s\<lparr>en_closed := True, en_timer := False, en_answer := lose_race (Err ''endpoint_closed'') (en_answer s)\<rparr>)"
    by (simp add: reject_race_def lose_race_def prog_run)
  ultimately show ?thesis using r st(2,3) assms
    by (intro exI [of _ "new1 @ new2"] exI [of _ k])
       (auto simp: endpoint_close_def bindE_run seqE_run prog_run st(1) [unfolded s2_def s1_def] r(1) [unfolded s1_def] count_list_0_iff)
qed

section \<open>Invariant\<close>

definition accepted :: "dataChannelObject \<Rightarrow> bool" where
  "accepted d \<longleftrightarrow> dc_label d \<in> set channelLabels \<and> \<not> dc_negotiated d \<and> dc_maxPacketLifeTime d = None
     \<and> (if dc_label d = ustr ''ros.realtime.v1'' then \<not> dc_ordered d \<and> dc_maxRetransmits d = Some 0 else dc_ordered d \<and> dc_maxRetransmits d = None)"

definition sent_ok :: "endpoint \<Rightarrow> bool" where
  "sent_ok s \<longleftrightarrow> (\<forall>c bs. ChannelSend c bs \<in> set (en_log s) \<longrightarrow> en_router s \<and> accepted (en_objects s c) \<and> int (length bs) \<le> en_maxMessageBytes s)"

definition buffers_ok :: "endpoint \<Rightarrow> bool" where
  "buffers_ok s \<longleftrightarrow> (\<forall>c. 0 \<le> dc_bufferedAmount (en_objects s c) \<and> dc_bufferedAmount (en_objects s c) \<le> en_maxBufferedBytes s)"

definition channels_ok :: "endpoint \<Rightarrow> bool" where
  "channels_ok s \<longleftrightarrow> distinct (keys (en_channels s)) \<and> (\<forall>(l, c) \<in> set (en_channels s). l = dc_label (en_objects s c) \<and> accepted (en_objects s c))"

definition closing_ok :: "endpoint \<Rightarrow> bool" where
  "closing_ok s \<longleftrightarrow>
     (en_closed s \<longleftrightarrow> en_closing s \<noteq> NotClosing)
     \<and> (en_closed s \<longrightarrow> en_subscriptions s = [] \<and> en_channels s = [] \<and> en_slots s = [] \<and> \<not> en_timer s \<and> en_answer s \<noteq> Racing)
     \<and> count_list (en_log s) RouterClose = (if en_closed s \<and> en_router s then 1 else 0)
     \<and> count_list (en_log s) PeerClose = (if en_closing s = PeerClosing \<or> en_closing s = CloseDone then 1 else 0)
     \<and> count_list (en_log s) EndpointClosed = (if en_closing s = CloseDone then 1 else 0)"

definition endpoint_core :: "endpoint \<Rightarrow> bool" where
  "endpoint_core s \<longleftrightarrow> sent_ok s \<and> buffers_ok s \<and> channels_ok s \<and> closing_ok s \<and> en_maxMessageBytes s \<le> 16384"

text \<open>An endpoint in use that is neither closed nor complete has a deadline.\<close>

definition deadline_ok :: "endpoint \<Rightarrow> bool" where
  "deadline_ok s \<longleftrightarrow>
     (if en_used s then en_closed s \<or> en_timer s \<or> length (en_channels s) = 3
      else \<not> en_router s \<and> \<not> en_timer s \<and> en_answer s = Unused \<and> en_stage s = None)"

definition endpoint_inv :: "endpoint \<Rightarrow> bool" where
  "endpoint_inv s \<longleftrightarrow> endpoint_core s \<and> deadline_ok s"

lemmas core_defs = endpoint_core_def sent_ok_def buffers_ok_def channels_ok_def closing_ok_def

text \<open>Effects that no clause of the invariant counts.\<close>

definition plain_effect :: "endpointEffect \<Rightarrow> bool" where
  "plain_effect x \<longleftrightarrow> x \<notin> {RouterClose, PeerClose, EndpointClosed} \<and> (\<forall>c bs. x \<noteq> ChannelSend c bs)"

lemma core_emit: "endpoint_core s \<Longrightarrow> plain_effect x \<Longrightarrow> endpoint_core (s\<lparr>en_log := en_log s @ [x]\<rparr>)"
  by (auto simp: core_defs plain_effect_def)

lemma core_fields [simp]:
  "endpoint_core (s\<lparr>en_microtasks := k\<rparr>) = endpoint_core s" "endpoint_core (s\<lparr>en_stage := st\<rparr>) = endpoint_core s" "endpoint_core (s\<lparr>en_used := u\<rparr>) = endpoint_core s"
  by (simp_all add: core_defs)

lemma close_closed:
  assumes "endpoint_core s"
  shows "\<exists>t. endpoint_close a s = (Inr (), t) \<and> endpoint_core t \<and> en_closed t \<and> en_used t = en_used s \<and> en_router t = en_router s \<and> en_stage t = en_stage s
    \<and> en_answer t = lose_race (Err ''endpoint_closed'') (en_answer s)"
proof (cases "en_closing s = NotClosing")
  case False
  then have "endpoint_close a s = (Inr (), s)" by (simp add: endpoint_close_def en_runs)
  then show ?thesis using assms False by (auto simp: core_defs lose_race_def)
next
  case True
  then obtain new k where c: "endpoint_close a s = (Inr (), s\<lparr>en_closed := True, en_timer := False, en_answer := lose_race (Err ''endpoint_closed'') (en_answer s),
      en_subscriptions := [], en_slots := [], en_channels := [], en_closing := CloseScheduled, en_log := en_log s @ new, en_microtasks := k\<rparr>)"
    "count_list new RouterClose = (if en_router s then 1 else 0)" "set new \<subseteq> {RouterClose, EndpointError} \<union> range SlotStop"
    using endpoint_close_run [OF True] by blast
  have "count_list new PeerClose = 0" "count_list new EndpointClosed = 0" "\<And>ch bs. ChannelSend ch bs \<notin> set new" using c(3) by (auto simp: count_list_0_iff)
  then show ?thesis using assms True c(1,2) by (auto simp: core_defs lose_race_def)
qed

lemma send_core: "keeps (\<lambda>s. endpoint_core s \<and> en_router s) (endpoint_send a label bs)"
proof (rule keepsI)
  fix s r t assume s: "endpoint_core s \<and> en_router s" and run: "endpoint_send a label bs s = (r, t)"
  show "endpoint_core t \<and> en_router t"
  proof (cases "t = s")
    case False
    then obtain c where c: "map_of (en_channels s) label = Some c" "int (length bs) \<le> en_maxMessageBytes s"
        "int (length bs) \<le> en_maxBufferedBytes s - dc_bufferedAmount (en_objects s c)"
      and t: "t = s\<lparr>en_objects := (en_objects s)(c := (en_objects s c)\<lparr>dc_bufferedAmount := dc_bufferedAmount (en_objects s c) + int (length bs)\<rparr>),
        en_log := en_log s @ [ChannelSend c bs]\<rparr>"
      using run by (auto simp: endpoint_send_def en_runs split: if_splits option.splits sum.splits)
    have "accepted (en_objects s c)" using s map_of_SomeD [OF c(1)] by (auto simp: core_defs)
    then have acc: "accepted (en_objects t x) \<longleftrightarrow> accepted (en_objects s x)" "dc_label (en_objects t x) = dc_label (en_objects s x)" for x by (auto simp: t accepted_def)
    have "sent_ok t" using s c \<open>accepted (en_objects s c)\<close> unfolding sent_ok_def acc by (auto simp: t core_defs)
    moreover have "buffers_ok t" using s c(3) by (auto simp: t core_defs)
    moreover have "channels_ok t" using s unfolding channels_ok_def acc by (auto simp: t core_defs)
    moreover have "closing_ok t" using s by (simp add: t core_defs)
    ultimately show ?thesis using s by (simp add: endpoint_core_def t)
  qed (use s in simp)
qed

lemma send_frame: "endpoint_send a label bs s = (r, t) \<Longrightarrow> t = s\<lparr>en_objects := en_objects t, en_log := en_log t\<rparr>"
  by (auto simp: endpoint_send_def en_runs split: if_splits option.splits sum.splits)

definition routed_inv :: "endpoint \<Rightarrow> bool" where
  "routed_inv s \<longleftrightarrow> endpoint_inv s \<and> en_router s"

lemma send_inv: "keeps routed_inv (endpoint_send a label bs)"
proof (rule keepsI)
  fix s r t assume s: "routed_inv s" and run: "endpoint_send a label bs s = (r, t)"
  have "endpoint_core t \<and> en_router t" using keepsD [OF send_core _ run] s by (simp add: routed_inv_def endpoint_inv_def)
  moreover have "deadline_ok t" using s by (subst send_frame [OF run]) (auto simp: routed_inv_def endpoint_inv_def deadline_ok_def split: if_splits)
  ultimately show "routed_inv t" by (simp add: routed_inv_def endpoint_inv_def)
qed

lemma inv_emit: "endpoint_inv s \<Longrightarrow> plain_effect x \<Longrightarrow> endpoint_inv (s\<lparr>en_log := en_log s @ [x]\<rparr>)"
  by (simp add: endpoint_inv_def core_emit deadline_ok_def)

lemma inv_microtasks [simp]: "endpoint_inv (s\<lparr>en_microtasks := k\<rparr>) = endpoint_inv s"
  by (simp add: endpoint_inv_def deadline_ok_def)

lemma router_call_inv:
  assumes "plain_effect x"
  shows "keeps routed_inv (router_call a x)"
  unfolding router_call_def outside_def emitE_def
  by (intro keeps_rules, auto simp: routed_inv_def inv_emit assms intro!: keeps_rules send_inv split: prod.split)

lemma endpoint_close_inv: "keeps endpoint_inv (endpoint_close a)"
proof (rule keepsI)
  fix s r t assume s: "endpoint_inv s" and run: "endpoint_close a s = (r, t)"
  then have t: "endpoint_core t" "en_closed t" "en_used t = en_used s" "en_router t = en_router s" "en_stage t = en_stage s"
    "en_answer t = lose_race (Err ''endpoint_closed'') (en_answer s)" using close_closed [of s a] by (auto simp: endpoint_inv_def)
  then show "endpoint_inv t" using s by (auto simp: endpoint_inv_def deadline_ok_def lose_race_def core_defs)
qed

text \<open>A call of the router followed by the check whether it has closed.\<close>

lemma call_then_close:
  assumes "endpoint_inv s" and "en_router s" and "plain_effect x"
  shows "endpoint_inv (snd (seqE (router_call a x) (bindE (getE (\<lambda>s. ea_isClosed a (en_log s))) (\<lambda>closed. if closed then endpoint_close a else retE ())) s))"
proof -
  obtain r t where rt: "router_call a x s = (r, t)" by fastforce
  then have "routed_inv t" using keepsD [OF router_call_inv [OF assms(3)] _ rt] assms by (simp add: routed_inv_def)
  then show ?thesis using rt endpoint_close_inv [of a] by (cases r) (auto simp: en_runs keeps_def routed_inv_def)
qed

lemma flush_inv: "endpoint_inv s \<Longrightarrow> endpoint_inv (snd (endpoint_flush a s))"
  using call_then_close [of s RouterFlush a] by (auto simp: endpoint_flush_def bindE_run prog_run plain_effect_def)

lemma opened_inv:
  assumes "endpoint_inv s"
  shows "endpoint_inv (snd (endpoint_opened a s))"
proof (cases "length (en_channels s) = 3")
  case True
  then have "endpoint_inv (s\<lparr>en_timer := False\<rparr>)" using assms by (auto simp: endpoint_inv_def core_defs deadline_ok_def)
  then show ?thesis using assms flush_inv by (auto simp: endpoint_opened_def bindE_run seqE_run prog_run)
next
  case False
  then show ?thesis using assms by (simp add: endpoint_opened_def bindE_run prog_run)
qed

lemma labels_length: "distinct ks \<Longrightarrow> set ks \<subseteq> set channelLabels \<Longrightarrow> length ks \<le> 3"
  using card_mono [of "set channelLabels" "set ks"] distinct_card [of ks] card_length [of channelLabels] by (simp add: channelLabels_def)

lemma channel_inv:
  assumes inv: "endpoint_inv s"
  shows "endpoint_inv (snd (endpoint_channel a c s))"
proof (cases "channel_refused s (en_objects s c)")
  case True
  then show ?thesis using endpoint_close_inv [of a] inv by (simp add: endpoint_channel_def bindE_run prog_run keeps_def)
next
  case False
  let ?d = "en_objects s c"
  define t where "t = s\<lparr>en_channels := AList.update (dc_label ?d) c (en_channels s),
      en_objects := (en_objects s)(c := ?d\<lparr>dc_bufferedAmountLowThreshold := en_maxBufferedBytes s div 2\<rparr>),
      en_subscriptions := en_subscriptions s @ [OnBufferedAmountLow c, OnStateChanged c, OnMessage c]\<rparr>"
  have new: "accepted ?d" "dc_label ?d \<notin> set (keys (en_channels s))" "\<not> en_closed s" using False by (auto simp: channel_refused_def accepted_def Let_def)
  have upd: "AList.update (dc_label ?d) c (en_channels s) = en_channels s @ [(dc_label ?d, c)]" using new(2) by (intro update_new) (simp add: map_of_eq_None_iff)
  have acc: "accepted (en_objects t x) \<longleftrightarrow> accepted (en_objects s x)" "dc_label (en_objects t x) = dc_label (en_objects s x)" for x by (auto simp: t_def accepted_def)
  have core: "endpoint_core s" using inv by (simp add: endpoint_inv_def)
  have "sent_ok t" using core unfolding sent_ok_def acc by (simp add: t_def core_defs)
  moreover have "channels_ok t" using core new unfolding channels_ok_def acc by (auto simp: t_def upd core_defs)
  moreover have "buffers_ok t" using core by (simp add: t_def core_defs)
  moreover have "closing_ok t" using core new(3) by (simp add: t_def core_defs)
  ultimately have t: "endpoint_core t" using core by (simp add: endpoint_core_def t_def)
  then have "distinct (keys (en_channels t))" "set (keys (en_channels t)) \<subseteq> set channelLabels" by (auto simp: core_defs accepted_def)
  then have "length (en_channels t) \<le> 3" using labels_length by fastforce
  then have "length (en_channels s) \<le> 2" by (simp add: t_def upd)
  then have "endpoint_inv t" using t inv by (auto simp: endpoint_inv_def deadline_ok_def t_def)
  then show ?thesis using opened_inv [of t a] False by (simp add: endpoint_channel_def bindE_run seqE_run prog_run t_def Let_def)
qed

section \<open>Negotiation\<close>

lemma failed_inv: "endpoint_core s \<Longrightarrow> en_used s \<Longrightarrow> endpoint_inv (snd (answer_failed a e s))"
proof -
  assume s: "endpoint_core s" "en_used s"
  then have "endpoint_core (s\<lparr>en_answer := AnswerFailed e\<rparr>)" by (auto simp: core_defs)
  from close_closed [OF this, of a] s(2) show ?thesis by (auto simp: answer_failed_def seqE_run prog_run endpoint_inv_def deadline_ok_def)
qed

text \<open>Before the router exists nothing has been sent, and the endpoint is not closed.\<close>

definition preparing :: "endpoint \<Rightarrow> bool" where
  "preparing s \<longleftrightarrow> endpoint_core s \<and> en_used s \<and> \<not> en_router s \<and> \<not> en_closed s"

lemma preparing_emit: "preparing s \<Longrightarrow> plain_effect x \<Longrightarrow> preparing (s\<lparr>en_log := en_log s @ [x]\<rparr>)"
  by (simp add: preparing_def core_emit)

lemma preparing_slots: "preparing s \<Longrightarrow> preparing (s\<lparr>en_slots := l\<rparr>)"
  by (auto simp add: preparing_def core_defs)

lemma preparing_limit: "preparing s \<Longrightarrow> n \<le> en_maxMessageBytes s \<Longrightarrow> preparing (s\<lparr>en_maxMessageBytes := n\<rparr>)"
  by (auto simp: preparing_def core_defs)

lemma preparing_outside: "plain_effect x \<Longrightarrow> keeps preparing (outside f x)"
  unfolding outside_def emitE_def by (intro keeps_rules) (rule preparing_emit)

lemma preparing_addSlots:
  "keeps preparing (add_slots a xs)"
  unfolding add_slots_def by (intro keeps_rules preparing_outside preparing_slots) (simp_all add: plain_effect_def)

text \<open>The body of \<open>answer\<close> ends with the deadline set, or throws with nothing sent.\<close>

lemma begin_router:
  assumes "preparing s"
  shows "wp (begin_race a) (\<lambda>_. endpoint_inv) (\<lambda>_. preparing) s"
proof -
  let ?t = "s\<lparr>en_log := en_log s @ [MakeRouter (en_maxMessageBytes s)]\<rparr>"
  have t: "preparing ?t" using assms by (rule preparing_emit) (simp add: plain_effect_def)
  then have "endpoint_inv (?t\<lparr>en_router := True, en_timer := True, en_answer := Racing, en_stage := Some 0\<rparr>)"
    by (auto simp: preparing_def endpoint_inv_def core_defs deadline_ok_def)
  from inv_emit [OF this, of "PeerCall 0"] t show ?thesis
    by (auto simp: begin_race_def wp_def bindE_run seqE_run prog_run emitE_def outside_run plain_effect_def split: sum.split)
qed

lemma wp_inv: "wp m (\<lambda>_. P) (\<lambda>_. P) s \<longleftrightarrow> P (snd (m s))"
  by (auto simp: wp_def split: prod.split sum.split)

lemma answer_begin_inv:
  assumes inv: "endpoint_inv s"
  shows "endpoint_inv (snd (answer_begin a type sdp s))"
proof (cases "en_used s \<or> en_closed s")
  case True
  then show ?thesis using inv by (simp add: answer_begin_def bindE_run seqE_run prog_run throwIf_run)
next
  case False
  define s1 where "s1 = s\<lparr>en_used := True\<rparr>"
  have p: "preparing s1" using inv False by (auto simp: s1_def preparing_def endpoint_inv_def deadline_ok_def)
  have fail: "wp (answer_failed a e) (\<lambda>_. endpoint_inv) (\<lambda>_. endpoint_inv) t" if "preparing t" for e t
    using failed_inv [of t a e] that by (simp add: wp_inv preparing_def)
  have rest: "wp (seqE (apply_limit shape) (seqE (if video \<noteq> None then add_slots a (offer_video shape) else retE ()) (begin_race a)))
      (\<lambda>_. endpoint_inv) (\<lambda>_. preparing) s1" for video shape
  proof -
    obtain t where t: "apply_limit shape s1 = (Inr (), t)" "preparing t"
      using preparing_limit [OF p] p by (auto simp: apply_limit_def prog_run Let_def)
    then have "wp (if video \<noteq> None then add_slots a (offer_video shape) else retE ()) (\<lambda>_. preparing) (\<lambda>_. preparing) t"
      using wp_keeps [OF preparing_addSlots, of t] by (auto simp: wp_prims)
    then have "wp (seqE (if video \<noteq> None then add_slots a (offer_video shape) else retE ()) (begin_race a)) (\<lambda>_. endpoint_inv) (\<lambda>_. preparing) t"
      unfolding wp_seqE by (rule wp_mono) (rule begin_router)
    then show ?thesis unfolding wp_seqE [of "apply_limit shape"] wp_def [of "apply_limit shape"] t(1) prod.case sum.case .
  qed
  have "wp (bindE (getE en_maxSdpBytes) (\<lambda>maxSdp.
       bindE (liftE (offer_text type sdp maxSdp)) (\<lambda>t.
       bindE (getE en_video) (\<lambda>video.
       bindE (liftE (parseOffer t (case video of Some n \<Rightarrow> n | None \<Rightarrow> 0))) (\<lambda>shape.
       seqE (apply_limit shape)
      (seqE (if video \<noteq> None then add_slots a (offer_video shape) else retE ())
            (begin_race a))))))) (\<lambda>_. endpoint_inv) (\<lambda>_. preparing) s1"
    unfolding wp_bindE wp_prims wp_liftE using p rest [of _ "en_video s1"] by (simp add: wp_prims wp_liftE split: sum.split split del: if_split)
  then have "wp (answer_begin a type sdp) (\<lambda>_. endpoint_inv) (\<lambda>_. endpoint_inv) s"
    using False fail unfolding answer_begin_def wp_bindE [of "getE (\<lambda>s. en_used s \<or> en_closed s)"] wp_prims wp_seqE wp_catchE wp_unit_prims
    by (auto simp: s1_def [symmetric] elim: wp_mono)
  then show ?thesis by (simp add: wp_inv)
qed

lemma settles_inv:
  assumes "endpoint_inv s"
  shows "endpoint_inv (snd (race_settles a outcome s))"
proof (cases "en_answer s = Racing")
  case True
  then have "en_used s" using assms by (auto simp: endpoint_inv_def deadline_ok_def split: if_splits)
  then have "endpoint_inv (snd (answer_failed a e s))" for e using assms failed_inv by (simp add: endpoint_inv_def)
  moreover have "endpoint_inv (s\<lparr>en_answer := Answered ty sd\<rparr>)" for ty sd
    using assms \<open>en_used s\<close> by (auto simp: endpoint_inv_def core_defs deadline_ok_def)
  ultimately show ?thesis using True by (auto simp: race_settles_def bindE_run prog_run split: sum.split)
qed (use assms in \<open>simp add: race_settles_def bindE_run prog_run\<close>)

lemma negotiate_inv:
  assumes inv: "endpoint_inv s"
  shows "endpoint_inv (snd (negotiate a outcome local s))"
proof (cases "en_stage s")
  case (Some n)
  then have "en_used s" using assms by (auto simp: endpoint_inv_def deadline_ok_def split: if_splits)
  then have st: "endpoint_inv (s\<lparr>en_stage := k\<rparr>)" for k using inv by (simp add: endpoint_inv_def deadline_ok_def)
  show ?thesis using Some settles_inv [OF st] inv_emit [OF st, of "PeerCall m" for m]
    by (auto simp: negotiate_def bindE_run seqE_run prog_run emitE_def plain_effect_def split: sum.split)
qed (use inv in \<open>simp add: negotiate_def bindE_run prog_run\<close>)

lemma timer_inv:
  assumes "endpoint_inv s"
  shows "endpoint_inv (snd (negotiation_timer a s))"
proof (cases "en_timer s")
  case True
  have used: "en_used s" using assms True by (auto simp: endpoint_inv_def deadline_ok_def split: if_splits)
  have "endpoint_core (s\<lparr>en_timer := False\<rparr>)" using assms by (auto simp: endpoint_inv_def core_defs)
  from close_closed [OF this, of a] obtain t where t: "endpoint_close a (s\<lparr>en_timer := False\<rparr>) = (Inr (), t)" "endpoint_core t" "en_closed t" "en_used t"
    using used by auto
  have "en_answer t \<noteq> Racing" using t(2,3) by (simp add: core_defs)
  then show ?thesis using True t by (simp add: negotiation_timer_def bindE_run seqE_run prog_run reject_race_def endpoint_inv_def deadline_ok_def)
qed (use assms in \<open>simp add: negotiation_timer_def bindE_run prog_run\<close>)

lemma rethrows_inv: "endpoint_inv s \<Longrightarrow> endpoint_inv (snd (answer_rethrows s))"
proof (cases "\<exists>e. en_answer s = AnswerFailed e \<and> en_closing s = CloseDone")
  case True
  assume inv: "endpoint_inv s"
  obtain e where e: "en_answer s = AnswerFailed e" "en_closing s = CloseDone" using True by blast
  have "en_used s" using inv e(1) by (auto simp: endpoint_inv_def deadline_ok_def split: if_splits)
  moreover have "closing_ok (s\<lparr>en_answer := Rejected e\<rparr>)" using inv by (simp add: endpoint_inv_def endpoint_core_def closing_ok_def)
  ultimately have "endpoint_inv (s\<lparr>en_answer := Rejected e\<rparr>)"
    using inv by (simp add: endpoint_inv_def endpoint_core_def sent_ok_def buffers_ok_def channels_ok_def deadline_ok_def)
  then show ?thesis using e by (simp add: answer_rethrows_def prog_run)
qed (auto simp: answer_rethrows_def prog_run split: answerPhase.split)

lemma microtask_inv: "endpoint_inv s \<Longrightarrow> endpoint_inv (snd (run_microtask a s))"
  using endpoint_close_inv [of a] by (simp add: run_microtask_def bindE_run seqE_run prog_run keeps_def)

lemma peer_inv:
  assumes "endpoint_inv s"
  shows "endpoint_inv (snd (close_peer s))" "endpoint_inv (snd (close_settled ok s))"
  using assms by (auto simp: close_peer_def close_settled_def bindE_run seqE_run prog_run emitE_def endpoint_inv_def core_defs deadline_ok_def)

lemma subscribed_inv: "endpoint_inv s \<Longrightarrow> endpoint_inv (snd (m s)) \<Longrightarrow> endpoint_inv (snd (subscribedE x m s))"
  by (simp add: subscribedE_def bindE_run prog_run)

lemma endpoint_close_inv': "endpoint_inv s \<Longrightarrow> endpoint_inv (snd (endpoint_close a s))"
  using endpoint_close_inv [of a] by (simp add: keeps_def)

lemma message_inv:
  assumes "endpoint_inv s"
  shows "endpoint_inv (snd (on_message a c msg s))"
  unfolding on_message_def
proof (rule subscribed_inv [OF assms])
  have "plain_effect (RouterReceive l b)" for l b by (simp add: plain_effect_def)
  from call_then_close [OF assms _ this] show "endpoint_inv (snd (bindE (getE (\<lambda>s. length (en_channels s) \<noteq> 3 \<or> \<not> en_router s)) (\<lambda>early.
       if early then endpoint_close a
       else let bs = (case msg of Inl t \<Rightarrow> utf8_encode t | Inr b \<Rightarrow> b) in
         bindE (getE en_maxMessageBytes) (\<lambda>limit.
         if int (length bs) > limit then endpoint_close a
         else bindE (getE (\<lambda>s. dc_label (en_objects s c))) (\<lambda>label.
           seqE (router_call a (RouterReceive label bs))
          (bindE (getE (\<lambda>s. ea_isClosed a (en_log s))) (\<lambda>closed. if closed then endpoint_close a else retE ()))))) s))"
    using endpoint_close_inv' [OF assms, of a] by (auto simp: bindE_run [of "getE f" for f] prog_run Let_def)
qed

lemma events_inv:
  assumes "endpoint_inv s"
  shows "endpoint_inv (snd (on_dataChannel a c s))" "endpoint_inv (snd (on_connectionState a st s))"
    "endpoint_inv (snd (on_bufferedAmountLow a c s))" "endpoint_inv (snd (on_stateChanged a c st s))"
  unfolding on_dataChannel_def on_connectionState_def on_bufferedAmountLow_def on_stateChanged_def
  using assms channel_inv endpoint_close_inv' flush_inv opened_inv by (auto intro!: subscribed_inv simp: prog_run)

section \<open>Reachable endpoints\<close>

text \<open>
  The transport changes the state of its channels and drains their buffers at any time; all other steps
  are the calls and callbacks of the code.
\<close>

inductive endpoint_step :: "endpointAnswers \<Rightarrow> endpoint \<Rightarrow> endpoint \<Rightarrow> bool" for a :: endpointAnswers where
  en_ready: "endpoint_step a s (s\<lparr>en_objects := (en_objects s)(c := (en_objects s c)\<lparr>dc_readyState := st\<rparr>)\<rparr>)"
| en_drain: "0 \<le> n \<Longrightarrow> n \<le> dc_bufferedAmount (en_objects s c) \<Longrightarrow>
    endpoint_step a s (s\<lparr>en_objects := (en_objects s)(c := (en_objects s c)\<lparr>dc_bufferedAmount := n\<rparr>)\<rparr>)"
| en_answered: "endpoint_step a s (snd (answer_begin a type sdp s))"
| en_negotiated: "endpoint_step a s (snd (negotiate a outcome local s))"
| en_timed: "endpoint_step a s (snd (negotiation_timer a s))"
| en_rethrown: "endpoint_step a s (snd (answer_rethrows s))"
| en_microtask: "endpoint_step a s (snd (run_microtask a s))"
| en_channel: "endpoint_step a s (snd (on_dataChannel a c s))"
| en_connection: "endpoint_step a s (snd (on_connectionState a st s))"
| en_low: "endpoint_step a s (snd (on_bufferedAmountLow a c s))"
| en_changed: "endpoint_step a s (snd (on_stateChanged a c st s))"
| en_message: "endpoint_step a s (snd (on_message a c msg s))"
| en_close: "endpoint_step a s (snd (endpoint_close a s))"
| en_peer: "endpoint_step a s (snd (close_peer s))"
| en_settled: "endpoint_step a s (snd (close_settled ok s))"

inductive_simps endpoint_step_simps: "endpoint_step a s t"

definition endpoint_start :: "endpoint \<Rightarrow> bool" where
  "endpoint_start s \<longleftrightarrow> (\<exists>m b d t v objects. newEndpoint m b d t v objects = Inr s \<and> (\<forall>c. dc_bufferedAmount (objects c) = 0))"

lemma object_inv:
  assumes "endpoint_inv s" and "accepted d = accepted (en_objects s c)" and "dc_label d = dc_label (en_objects s c)"
    and "0 \<le> dc_bufferedAmount d" and "dc_bufferedAmount d \<le> en_maxBufferedBytes s"
  shows "endpoint_inv (s\<lparr>en_objects := (en_objects s)(c := d)\<rparr>)"
proof -
  define ob where "ob = (en_objects s)(c := d)"
  have acc: "accepted (ob x) \<longleftrightarrow> accepted (en_objects s x)" "dc_label (ob x) = dc_label (en_objects s x)" for x using assms(2,3) by (auto simp: ob_def)
  have core: "endpoint_core s" using assms(1) by (simp add: endpoint_inv_def)
  have "buffers_ok (s\<lparr>en_objects := ob\<rparr>)" using core assms(4,5) by (simp add: core_defs ob_def)
  moreover have "sent_ok (s\<lparr>en_objects := ob\<rparr>)" "channels_ok (s\<lparr>en_objects := ob\<rparr>)"
    using core by (simp_all add: endpoint_core_def sent_ok_def channels_ok_def acc)
  ultimately have "endpoint_inv (s\<lparr>en_objects := ob\<rparr>)" using assms(1) by (auto simp: endpoint_inv_def endpoint_core_def closing_ok_def deadline_ok_def split: if_splits)
  then show ?thesis by (simp add: ob_def)
qed

lemma endpoint_step_inv: "endpoint_step a s t \<Longrightarrow> endpoint_inv s \<Longrightarrow> endpoint_inv t"
proof (induction rule: endpoint_step.induct)
  case (en_ready s c st)
  then show ?case by (intro object_inv) (auto simp: accepted_def endpoint_inv_def core_defs)
next
  case (en_drain n s c)
  then show ?case by (intro object_inv) (auto simp: accepted_def endpoint_inv_def core_defs intro: order_trans)
qed (simp_all add: answer_begin_inv negotiate_inv timer_inv rethrows_inv microtask_inv events_inv message_inv endpoint_close_inv' peer_inv)

lemma endpoint_start_inv:
  assumes "newEndpoint m b d t v objects = Inr s" and "\<forall>c. dc_bufferedAmount (objects c) = 0"
  shows "endpoint_inv s"
proof -
  have s: "s = \<lparr>en_maxBufferedBytes = num_int b, en_maxSdpBytes = num_int d, en_timeoutMs = num_int t, en_video = v,
       en_maxMessageBytes = min 16384 (num_int m), en_channels = [], en_objects = objects, en_subscriptions = [OnDataChannel, OnConnectionState], en_router = False,
       en_closed = False, en_used = False, en_closing = NotClosing, en_timer = False, en_slots = [], en_answer = Unused, en_stage = None,
       en_microtasks = 0, en_log = []\<rparr>" and "positiveLimit b = Inr ()"
    using assms(1) by (simp_all add: newEndpoint_def bindR_eq_Inr Let_def del: positiveLimit_Inr)
  then have "0 \<le> num_int b" by auto
  then show ?thesis using assms(2) by (simp add: s endpoint_inv_def core_defs deadline_ok_def)
qed

interpretation peer: invariant_system endpoint_start "endpoint_step a" endpoint_inv for a
proof unfold_locales
  show "endpoint_start s \<Longrightarrow> endpoint_inv s" for s
    by (auto simp: endpoint_start_def intro: endpoint_start_inv)
  show "endpoint_inv s \<Longrightarrow> endpoint_step a s t \<Longrightarrow> endpoint_inv t" for s t by (rule endpoint_step_inv)
qed

text \<open>What a closed endpoint may still do to the outside.\<close>

definition aftermath :: "endpointEffect set" where
  "aftermath = {PeerClose, EndpointError, EndpointClosed} \<union> range PeerCall"

lemma endpoint_closed_step:
  assumes "endpoint_step a s t" and "endpoint_inv s" and "en_closed s"
  shows "en_closed t \<and> (\<exists>new. en_log t = en_log s @ new \<and> set new \<subseteq> aftermath)"
proof -
  have c: "en_closing s \<noteq> NotClosing" "en_subscriptions s = []" "\<not> en_timer s" "en_answer s \<noteq> Racing" using assms(2,3) by (simp_all add: endpoint_inv_def core_defs)
  have cl: "endpoint_close a s' = (Inr (), s')" if "en_closing s' \<noteq> NotClosing" for s' using that by (simp add: endpoint_close_def en_runs)
  note closed = c assms(3)
  from assms(1) show ?thesis
  proof (induction rule: endpoint_step.cases)
    case (en_negotiated outcome local)
    have "race_settles a r (s\<lparr>en_stage := k\<rparr>) = (Inr (), s\<lparr>en_stage := k\<rparr>)" for r k using c(4) by (simp add: race_settles_def en_runs)
    then show ?case using en_negotiated assms(3)
      by (cases "en_stage s") (auto simp: negotiate_def en_runs aftermath_def split: sum.split)
  next
    case (en_peer)
    then show ?case using assms(3) by (auto simp: close_peer_def en_runs aftermath_def)
  next
    case (en_settled ok)
    then show ?case using assms(3) by (auto simp: close_settled_def en_runs aftermath_def)
  qed (use closed cl in \<open>auto simp: answer_begin_def negotiation_timer_def answer_rethrows_def run_microtask_def on_dataChannel_def on_connectionState_def
      on_bufferedAmountLow_def on_stateChanged_def on_message_def subscribedE_def en_runs split: answerPhase.split\<close>)
qed

section \<open>Properties\<close>


text \<open>
  C18: No peer is left half open. In every reachable state an endpoint that has taken an offer is closed, or
  has its three channels, or has a running deadline, which closes it; a closed endpoint holds no
  eventSubscription, channel, video slot or deadline and has closed its router exactly once, and from there its
  closing runs to the end: the peer is closed and \<open>onClosed\<close> is called exactly once, whether the peer closes
  in time or not.
\<close>

theorem endpoint_released:
  assumes "reachable endpoint_start (endpoint_step a) s" and "en_used s"
  shows "(en_closed s \<or> length (en_channels s) = 3 \<or> (en_timer s \<and> en_closed (snd (negotiation_timer a s))))
    \<and> (en_closed s \<longrightarrow> en_subscriptions s = [] \<and> en_channels s = [] \<and> en_slots s = [] \<and> \<not> en_timer s
         \<and> count_list (en_log s) RouterClose = (if en_router s then 1 else 0)
         \<and> (let t = snd (close_settled ok (snd (close_peer s))) in
              en_closing t = CloseDone \<and> count_list (en_log t) PeerClose = 1 \<and> count_list (en_log t) EndpointClosed = 1))"
proof -
  have inv: "endpoint_inv s" using assms(1) by (rule peer.reachable_inv)
  have "en_closed (snd (negotiation_timer a s))" if "en_timer s"
  proof -
    have "endpoint_core (s\<lparr>en_timer := False\<rparr>)" using inv by (auto simp: endpoint_inv_def core_defs)
    from close_closed [OF this, of a] that show ?thesis by (auto simp: negotiation_timer_def en_runs reject_race_def)
  qed
  then have dl: "en_closed s \<or> length (en_channels s) = 3 \<or> (en_timer s \<and> en_closed (snd (negotiation_timer a s)))"
    using inv assms(2) by (auto simp: endpoint_inv_def deadline_ok_def)
  define t where "t = snd (close_settled ok (snd (close_peer s)))"
  have "endpoint_inv t" unfolding t_def by (intro peer_inv inv)
  moreover have "en_closing t = CloseDone" if "en_closed s"
    using that inv by (cases "en_closing s") (auto simp: t_def close_settled_def close_peer_def en_runs endpoint_inv_def core_defs)
  ultimately show ?thesis using inv dl unfolding endpoint_inv_def endpoint_core_def closing_ok_def t_def [symmetric] Let_def by auto
qed

text \<open>
  A closed endpoint is silent: whatever happens afterwards, no message is sent, and the router is not
  called again; only the pending negotiation of the peer and the closing of the peer go on.
\<close>

theorem closed_endpoint_silent:
  assumes "reachable endpoint_start (endpoint_step a) s" and "en_closed s" and "(endpoint_step a)\<^sup>*\<^sup>* s t"
  shows "en_closed t \<and> (\<exists>new. en_log t = en_log s @ new \<and> set new \<subseteq> {PeerClose, EndpointError, EndpointClosed} \<union> range PeerCall)"
  using assms(3)
proof (induction rule: rtranclp_induct)
  case base
  then show ?case using assms(2) by simp
next
  case (step u t)
  have "reachable endpoint_start (endpoint_step a) u" using step(1) assms(1) by (induction rule: rtranclp_induct) (blast intro: reach_step)+
  then have "endpoint_inv u" by (rule peer.reachable_inv)
  then show ?case using endpoint_closed_step [OF step(2)] step.IH by (force simp: aftermath_def)
qed

text \<open>
  A negotiation that runs into its deadline does not report \<open>negotiation_timeout\<close>: closing the endpoint
  has already rejected the answer with \<open>endpoint_closed\<close>.
\<close>

theorem timeout_masked:
  assumes "reachable endpoint_start (endpoint_step a) s" and "en_timer s" and "en_answer s = Racing"
  shows "en_answer (snd (negotiation_timer a s)) = AnswerFailed (Err ''endpoint_closed'')"
proof -
  have "endpoint_inv s" using assms(1) by (rule peer.reachable_inv)
  then have "endpoint_core (s\<lparr>en_timer := False\<rparr>)" by (auto simp: endpoint_inv_def core_defs)
  from close_closed [OF this, of a] assms(2,3) show ?thesis by (auto simp: negotiation_timer_def en_runs reject_race_def lose_race_def)
qed

section \<open>Witnesses\<close>

definition example_channel :: "nat \<Rightarrow> dataChannelObject" where
  "example_channel c = \<lparr>dc_label = (if c = 0 then ustr ''ros.control.v1'' else if c = 1 then ustr ''ros.reliable.v1'' else ustr ''ros.realtime.v1''),
     dc_ordered = (c < 2), dc_negotiated = False, dc_maxRetransmits = (if c < 2 then None else Some 0), dc_maxPacketLifeTime = None,
     dc_readyState = ustr ''open'', dc_bufferedAmount = 0, dc_bufferedAmountLowThreshold = 0\<rparr>"

text \<open>A router that sends one byte whenever it is called.\<close>

definition example_reactions :: endpointAnswers where
  "example_reactions = \<lparr>ea_addSlot = (\<lambda>_. Inr ()), ea_makeRouter = (\<lambda>_. Inr ()),
     ea_router = (\<lambda>_. \<lparr>rr_sends = [(ustr ''ros.control.v1'', [7])], rr_onClosed = False, rr_outcome = Inr ()\<rparr>),
     ea_isClosed = (\<lambda>_. False), ea_slotStop = (\<lambda>_. Inr ()), ea_send = (\<lambda>_. Inr ())\<rparr>"

definition example_endpoint :: endpoint where
  "example_endpoint = \<lparr>en_maxBufferedBytes = 65536, en_maxSdpBytes = 262144, en_timeoutMs = 30000, en_video = Some 1,
       en_maxMessageBytes = 16384, en_channels = [], en_objects = example_channel, en_subscriptions = [OnDataChannel, OnConnectionState], en_router = False,
       en_closed = False, en_used = False, en_closing = NotClosing, en_timer = False, en_slots = [], en_answer = Unused, en_stage = None,
       en_microtasks = 0, en_log = []\<rparr>"

lemma example_endpoint_start: "reachable endpoint_start (endpoint_step a) example_endpoint"
proof -
  have "newEndpoint (NumI 16384) (NumI 65536) (NumI 262144) (NumI 30000) (Some 1) example_channel = Inr example_endpoint"
    by (simp add: newEndpoint_def positiveLimit_def MAX_SAFE_INTEGER_def failIf_def bindR_def example_endpoint_def)
  moreover have "\<forall>c. dc_bufferedAmount (example_channel c) = 0" by (simp add: example_channel_def)
  ultimately show ?thesis by (intro reach_start) (unfold endpoint_start_def, blast)
qed

definition example_racing :: endpoint where
  "example_racing = snd (answer_begin example_reactions (Str (ustr ''offer'')) (Str Sdp.example_offer) example_endpoint)"

lemma utf8_bytes_size: "length (utf8_bytes p) \<le> 4" "p < 0x10000 \<Longrightarrow> length (utf8_bytes p) \<le> 3"
  by (simp_all add: utf8_bytes_def)

lemma code_points_size: "(\<Sum>p \<leftarrow> code_points s. length (utf8_bytes p)) \<le> 3 * length s"
proof (induction s rule: code_points.induct)
  case (2 c s)
  have unit: "length (utf8_bytes (unat c)) \<le> 3" "length (utf8_bytes 0xFFFD) \<le> 3"
    using unsigned_less [of c, where ?'a = nat] by (simp_all add: utf8_bytes_size)
  show ?case
  proof (cases "high_surrogate c")
    case True
    show ?thesis
    proof (cases s)
      case (Cons d t)
      show ?thesis using 2(1) [OF True Cons] 2(2) [OF True Cons] unit
        utf8_bytes_size(1) [of "0x10000 + (unat c - 0xD800) * 0x400 + (unat d - 0xDC00)"]
        by (cases "low_surrogate d") (simp_all add: True Cons)
    qed (use True unit in simp)
  next
    case False
    then show ?thesis using 2(3,4) unit by (cases "low_surrogate c") simp_all
  qed
qed simp

lemma example_offer_size: "utf8_length Sdp.example_offer \<le> 3 * 1000"
proof -
  have "length Sdp.example_offer \<le> 1000" by code_simp
  then show ?thesis using code_points_size [of Sdp.example_offer] by (simp add: utf8_length_def utf8_encode_def length_concat comp_def)
qed

lemma example_racing_state:
  "example_racing = example_endpoint\<lparr>en_used := True, en_router := True, en_timer := True, en_answer := Racing, en_stage := Some 0, en_maxMessageBytes := 64,
     en_slots := [1], en_log := [AddSlot \<lparr>payloadType = NumI 96, profileLevelId = ustr ''42e01f''\<rparr>, MakeRouter 64, PeerCall 0]\<rparr>"
proof -
  have "int (utf8_length Sdp.example_offer) \<le> 262144" using example_offer_size by simp
  then show ?thesis using Sdp.example_parse
    by (simp add: example_racing_def answer_begin_def en_runs example_endpoint_def offer_text_def apply_limit_def add_slots_def begin_race_def example_reactions_def)
qed

lemma example_racing_reach: "reachable endpoint_start (endpoint_step example_reactions) example_racing"
  unfolding example_racing_def by (rule reach_step [OF example_endpoint_start]) (rule en_answered)

definition example_open :: endpoint where
  "example_open = snd (on_dataChannel example_reactions 2 (snd (on_dataChannel example_reactions 1 (snd (on_dataChannel example_reactions 0 example_racing)))))"

lemma example_open_reach: "reachable endpoint_start (endpoint_step example_reactions) example_open"
  unfolding example_open_def by (rule reach_step, rule reach_step, rule reach_step, rule example_racing_reach) (rule en_channel)+

lemma example_open_sent: "ChannelSend 0 [7] \<in> set (en_log example_open)"
  by (simp add: example_open_def example_racing_state example_endpoint_def on_dataChannel_def subscribedE_def endpoint_channel_def channel_refused_def
      example_channel_def channelLabels_def endpoint_opened_def endpoint_flush_def router_call_def endpoint_send_def example_reactions_def en_runs)


theorem endpoint_released_witness:
  "en_closed example_racing \<or> length (en_channels example_racing) = 3
     \<or> (en_timer example_racing \<and> en_closed (snd (negotiation_timer example_reactions example_racing)))"
  using endpoint_released [OF example_racing_reach] by (simp add: example_racing_state example_endpoint_def)

theorem closed_endpoint_silent_witness:
  "\<exists>new. en_log (snd (on_message example_reactions 0 (Inr [1]) (snd (endpoint_close example_reactions example_racing))))
      = en_log (snd (endpoint_close example_reactions example_racing)) @ new \<and> set new \<subseteq> {PeerClose, EndpointError, EndpointClosed} \<union> range PeerCall"
proof -
  let ?s = "snd (endpoint_close example_reactions example_racing)"
  have "reachable endpoint_start (endpoint_step example_reactions) ?s" by (rule reach_step [OF example_racing_reach]) (rule en_close)
  moreover have "en_closed ?s" using endpoint_close_run [of example_racing example_reactions] by (auto simp: example_racing_state example_endpoint_def)
  moreover have "(endpoint_step example_reactions)\<^sup>*\<^sup>* ?s (snd (on_message example_reactions 0 (Inr [1]) ?s))" by (rule r_into_rtranclp) (rule en_message)
  ultimately show ?thesis using closed_endpoint_silent by blast
qed

theorem timeout_masked_witness:
  "en_answer (snd (negotiation_timer example_reactions example_racing)) = AnswerFailed (Err ''endpoint_closed'')"
  using timeout_masked [OF example_racing_reach] by (simp add: example_racing_state example_endpoint_def)

end
