(* ===== verification/Ros_Schema.thy ===== *)
theory Ros_Schema
  imports Ros_Adapter Router "HOL-Library.Multiset"
begin

text \<open>
  \<open>ros/descriptor.ts\<close> and \<open>app/registry.ts\<close>: from the definitions of the native type loader to codec
  descriptors, and from an accepted configuration to the registry of bindings that the adapter and the
  sessions share. The type loader, the YAML parser and SHA-256 are parameters.
\<close>

section \<open>\<open>descriptor.ts\<close>\<close>

record rosField =
  rf_name :: ustring
  rf_type :: ustring
  rf_pkgName :: "ustring option"
  rf_isPrimitiveType :: bool
  rf_isArray :: bool
  rf_isFixedSizeArray :: "bool option"
  rf_arraySize :: "number option"
  rf_isUpperBound :: bool
  rf_stringUpperBound :: "number option"

definition or_null :: "number option \<Rightarrow> jsval" where
  "or_null n = (case n of None \<Rightarrow> Null | Some x \<Rightarrow> Number x)"

text \<open>The texts of \<open>/^(u?)int(8|16|32|64)$/\<close>, with signedness and width.\<close>

definition integer_types :: "(ustring \<times> bool \<times> int) list" where
  "integer_types = map (\<lambda>(t, s, b). (ustr t, s, b))
     [(''int8'', True, 8), (''int16'', True, 16), (''int32'', True, 32), (''int64'', True, 64),
      (''uint8'', False, 8), (''uint16'', False, 16), (''uint32'', False, 32), (''uint64'', False, 64)]"

definition kind_obj :: "string \<Rightarrow> (string \<times> jsval) list \<Rightarrow> jsval" where
  "kind_obj k ps = mk_obj ((ustr ''kind'', Str (ustr k)) # map (\<lambda>(n, v). (ustr n, v)) ps)"

definition primitive :: "ustring \<Rightarrow> number option \<Rightarrow> jsval result" where
  "primitive type upper =
     (if type = ustr ''bool'' then Inr (kind_obj ''boolean'' [])
      else if type = ustr ''string'' then
        Inr (case upper of None \<Rightarrow> kind_obj ''string'' [] | Some n \<Rightarrow> kind_obj ''string'' [(''maxLength'', Number n)])
      else if type = ustr ''float32'' \<or> type = ustr ''float64'' then
        Inr (kind_obj ''float'' [(''bits'', Number (NumI (if type = ustr ''float32'' then 32 else 64)))])
      else case map_of integer_types type of
             None \<Rightarrow> Inl (TypeErr ''unsupported_ros_primitive'')
           | Some (sgnd, bits) \<Rightarrow> Inr (kind_obj ''integer'' [(''signed'', Bool sgnd), (''bits'', Number (NumI bits))]))"

definition array_value :: "rosField \<Rightarrow> jsval \<Rightarrow> jsval" where
  "array_value f v =
     (if \<not> rf_isArray f then v
      else let bounds = (if rf_isFixedSizeArray f = Some True then [(''length'', or_null (rf_arraySize f))]
                         else if rf_isUpperBound f then [(''maxLength'', or_null (rf_arraySize f))] else []) in
        if rf_type f = ustr ''uint8'' then kind_obj ''bytes'' bounds else kind_obj ''array'' ((''element'', v) # bounds))"

definition nested_type :: "rosField \<Rightarrow> ustring" where
  "nested_type f = (case rf_pkgName f of None \<Rightarrow> ustr ''null'' | Some p \<Rightarrow> p) @ ustr ''/msg/'' @ rf_type f"

text \<open>A loop over a list that carries a value and may throw.\<close>

fun foldE :: "('a \<Rightarrow> 'b \<Rightarrow> ('s, 'b) prog) \<Rightarrow> 'a list \<Rightarrow> 'b \<Rightarrow> ('s, 'b) prog" where
  "foldE f [] b = retE b"
| "foldE f (x # xs) b = bindE (f x b) (foldE f xs)"

text \<open>
  \<open>message\<close>; the state is the set \<open>active\<close>, the first argument the number of levels \<open>depth <= maxDepth\<close>
  still allows.
\<close>

definition field_visit :: "(ustring \<Rightarrow> (ustring list, jsval) prog) \<Rightarrow> rosField \<Rightarrow> (ustring \<times> jsval) list \<Rightarrow> (ustring list, (ustring \<times> jsval) list) prog" where
  "field_visit message f props =
     seqE (throwIf (rf_name f \<in> set (keys props)) (TypeErr ''duplicate_ros_field''))
    (bindE (if rf_isPrimitiveType f then liftE (primitive (rf_type f) (rf_stringUpperBound f)) else message (nested_type f)) (\<lambda>v.
     retE (obj_put (rf_name f) (array_value f v) props)))"

primrec message_visit :: "nat \<Rightarrow> (ustring \<Rightarrow> rosField list result) \<Rightarrow> ustring \<Rightarrow> (ustring list, jsval) prog" where
  "message_visit 0 lookup name = throwE (TypeErr ''recursive_ros_schema'')"
| "message_visit (Suc d) lookup name =
     bindE (getE (\<lambda>active. name \<in> set active)) (\<lambda>again.
     seqE (throwIf again (TypeErr ''recursive_ros_schema''))
    (seqE (modE (\<lambda>active. active @ [name]))
    (bindE (liftE (lookup name)) (\<lambda>fs.
     bindE (foldE (field_visit (message_visit d lookup)) fs []) (\<lambda>props.
     seqE (modE (removeAll name))
          (retE (kind_obj ''object'' [(''fields'', mk_obj props)])))))))"

definition descriptorFromRos :: "ustring \<Rightarrow> (ustring \<Rightarrow> rosField list result) \<Rightarrow> number \<Rightarrow> jsval result" where
  "descriptorFromRos type lookup depth =
     bindR (failIf (\<not> isSafeInteger depth \<or> num_le depth (NumI 0)) (TypeErr ''invalid_schema_depth'')) (\<lambda>_.
     bindR (fst (message_visit (nat (num_int depth + 1)) lookup type [])) (\<lambda>descriptor.
     bindR (createCodec descriptor (mk_obj [(ustr ''maxDepth'', Number depth)])) (\<lambda>_.
     Inr descriptor)))"

section \<open>\<open>registry.ts\<close>\<close>

text \<open>
  The YAML parser: \<open>parses\<close> tells whether it reports no error or warning, \<open>toJS\<close> what the document stands for.
\<close>

definition yaml_of :: "(ustring \<Rightarrow> bool) \<Rightarrow> (ustring \<Rightarrow> jsval result) \<Rightarrow> ustring \<Rightarrow> jsval result" where
  "yaml_of parses toJS source = (if parses source then toJS source else Inl (Err ''invalid YAML''))"

definition inspectConfig :: "(ustring \<Rightarrow> bool) \<Rightarrow> (ustring \<Rightarrow> jsval result) \<Rightarrow> ustring \<Rightarrow> number \<Rightarrow> bridgeConfig result" where
  "inspectConfig parses toJS source byteLimit =
     bindR (failIf (num_less byteLimit (NumI (int (utf8_length source)))) (Err ''config_too_large'')) (\<lambda>_.
     bindR (failIf (\<not> parses source) (Err ''invalid_config'')) (\<lambda>_.
     bindR (toJS source) (\<lambda>document.
     bindR (record_c document (map ustr [''version'', ''robot_id'', ''limits'', ''topics'', ''video'', ''video_tracks'']) (ustr ''$'')) (\<lambda>root.
     bindR (record_c (get_prop root (ustr ''topics'')) (enum_keys (get_prop root (ustr ''topics''))) (ustr ''topics'')) (\<lambda>topics.
     bindR (mapR (\<lambda>k. bindR (record_c (get_prop topics k) (enum_keys (get_prop topics k)) (ustr ''topic'')) (\<lambda>entry.
              string_c (get_prop entry (ustr ''ros_type'')) rosType_rx (ustr ''ros_type''))) (enum_keys topics)) (\<lambda>types.
     parseBridgeConfig (yaml_of parses toJS) source
       \<lparr>availableTypes = types, o_maxConfigBytes = Number byteLimit, o_maxTopics = Undefined, resolveTopic = None\<rparr>))))))"

text \<open>The order of strings by their code units, and sorting by it.\<close>

fun text_le :: "ustring \<Rightarrow> ustring \<Rightarrow> bool" where
  "text_le [] t = True"
| "text_le (a # s) [] = False"
| "text_le (a # s) (b # t) = (a < b \<or> a = b \<and> text_le s t)"

fun insert_text :: "ustring \<times> 'v \<Rightarrow> (ustring \<times> 'v) list \<Rightarrow> (ustring \<times> 'v) list" where
  "insert_text p [] = [p]"
| "insert_text p (q # qs) = (if text_le (fst p) (fst q) then p # q # qs else q # insert_text p qs)"

definition sort_texts :: "(ustring \<times> 'v) list \<Rightarrow> (ustring \<times> 'v) list" where
  "sort_texts ps = foldr insert_text ps []"

fun field_entry :: "okey \<times> jsval oprop \<Rightarrow> (ustring \<times> jsval) option" where
  "field_entry (Key k, OData True v) = Some (k, v)"
| "field_entry (Key k, OAccessor True) = Some (k, Undefined)"
| "field_entry _ = None"

definition from_entries :: "(ustring \<times> jsval) list \<Rightarrow> jsval" where
  "from_entries ps = mk_obj (fold (\<lambda>(k, v). obj_put k v) ps [])"

primrec canonical :: "jsval \<Rightarrow> jsval" where
  "canonical (Arr slots extra) = Arr (map (map_slot canonical) slots) 0"
| "canonical (Obj p ps) = from_entries (sort_texts (List.map_filter field_entry (map (map_prod id (map_oprop canonical)) ps)))"
| "canonical (Bytes bs) = from_entries (sort_texts (map (\<lambda>i. (ustr (show_nat i), Number (NumI (uint (bs ! i))))) [0..<length bs]))"
| "canonical Undefined = Undefined"
| "canonical Null = Null"
| "canonical (Bool b) = Bool b"
| "canonical (Number n) = Number n"
| "canonical (BigInt i) = BigInt i"
| "canonical (Str s) = Str s"
| "canonical Func = Func"

definition hex_text :: "bytes \<Rightarrow> ustring" where
  "hex_text bs = concat (map (\<lambda>b. map code_unit [hex_digit (unat b div 16), hex_digit (unat b mod 16)]) bs)"

definition schema_value :: "jsval \<Rightarrow> bool \<Rightarrow> jsval" where
  "schema_value descriptor nonFinite =
     mk_obj [(ustr ''codec'', Str (ustr ''ros-json-v1'')), (ustr ''descriptor'', descriptor), (ustr ''allowNonFinite'', Bool nonFinite)]"

definition registry_entry :: "(bytes \<Rightarrow> bytes) \<Rightarrow> (ustring \<Rightarrow> rosField list result) \<Rightarrow> topicBinding \<Rightarrow> routerBinding result" where
  "registry_entry sha256 describe b =
     bindR (descriptorFromRos (rosType b) describe (NumI 32)) (\<lambda>descriptor.
     let nonFinite = (b_commandGuard b = None) in
     bindR (stringify (canonical (schema_value descriptor nonFinite))) (\<lambda>schema.
     bindR (createCodec descriptor (mk_obj [(ustr ''allowNonFinite'', Bool nonFinite)])) (\<lambda>c.
     Inr \<lparr>rb_binding = b, rb_codec = c,
          rb_schemaId = ustr ''sha256:'' @ hex_text (sha256 (utf8_encode (case schema of Some t \<Rightarrow> t | None \<Rightarrow> [])))\<rparr>)))"

definition createRegistry :: "(bytes \<Rightarrow> bytes) \<Rightarrow> (ustring \<Rightarrow> rosField list result) \<Rightarrow> bridgeConfig \<Rightarrow> routerBinding list result" where
  "createRegistry sha256 describe config = mapR (registry_entry sha256 describe) (cfg_topics config)"

section \<open>Recursive messages\<close>

text \<open>\<open>uses lookup a b\<close>: the definition of \<open>a\<close> has a field of the message type \<open>b\<close>.\<close>

definition uses :: "(ustring \<Rightarrow> rosField list result) \<Rightarrow> ustring \<Rightarrow> ustring \<Rightarrow> bool" where
  "uses lookup a b \<longleftrightarrow> (\<exists>fs f. lookup a = Inr fs \<and> f \<in> set fs \<and> \<not> rf_isPrimitiveType f \<and> nested_type f = b)"

lemma foldE_run:
  assumes "\<And>x b c u. f x b A = (Inr c, u) \<Longrightarrow> u = A" and "foldE f xs b A = (Inr c, t)"
  shows "t = A \<and> (\<forall>x \<in> set xs. \<exists>b' c'. f x b' A = (Inr c', A))"
  using assms(2)
proof (induction xs arbitrary: b)
  case (Cons x xs)
  obtain c' u where u: "f x b A = (Inr c', u)" "foldE f xs c' u = (Inr c, t)" using Cons.prems by (auto simp: bindE_run split: prod.splits sum.splits)
  then have "u = A" using assms(1) by blast
  then show ?case using Cons.IH [of c'] u by auto
qed (simp add: prog_run)

lemma visit_state: "message_visit d lookup name A = (Inr v, t) \<Longrightarrow> t = A"
proof (induction d arbitrary: name A v t)
  case (Suc d)
  have new: "name \<notin> set A" using Suc.prems by (auto simp: prog_simps split: if_splits)
  then obtain fs props u where fs: "lookup name = Inr fs" and run: "foldE (field_visit (message_visit d lookup)) fs [] (A @ [name]) = (Inr props, u)"
    and t: "t = removeAll name u"
    using Suc.prems by (auto simp: prog_simps split: prod.splits sum.splits)
  have "u = A @ [name]"
    using foldE_run [OF _ run] Suc.IH by (fastforce simp: field_visit_def prog_simps split: prod.splits sum.splits if_splits)
  then show ?case using t new by (simp add: removeAll_id)
qed (simp add: prog_run)

lemma visit_step:
  assumes "message_visit d lookup name A = (Inr v, t)"
  shows "name \<notin> set A \<and> (\<exists>e. d = Suc e \<and> (\<exists>fs. lookup name = Inr fs) \<and>
    (\<forall>b. uses lookup name b \<longrightarrow> (\<exists>w. message_visit e lookup b (A @ [name]) = (Inr w, A @ [name]))))"
proof (cases d)
  case 0
  then show ?thesis using assms by (simp add: prog_run)
next
  case (Suc e)
  have new: "name \<notin> set A" using assms Suc by (auto simp: prog_simps split: if_splits)
  then obtain fs props u where fs: "lookup name = Inr fs" and run: "foldE (field_visit (message_visit e lookup)) fs [] (A @ [name]) = (Inr props, u)"
    using assms Suc by (auto simp: prog_simps split: prod.splits sum.splits)
  have keep: "field_visit (message_visit e lookup) x b B = (Inr c, u) \<Longrightarrow> u = B" for x b B c u
    using visit_state [of e lookup] by (fastforce simp: field_visit_def prog_simps split: prod.splits sum.splits if_splits)
  have "\<exists>w. message_visit e lookup b (A @ [name]) = (Inr w, A @ [name])" if used: "uses lookup name b" for b
  proof -
    obtain f where f: "f \<in> set fs" "\<not> rf_isPrimitiveType f" "nested_type f = b" using used fs by (auto simp: uses_def)
    have "\<forall>x \<in> set fs. \<exists>b' c'. field_visit (message_visit e lookup) x b' (A @ [name]) = (Inr c', A @ [name])"
      using foldE_run [OF _ run] keep by blast
    then obtain b' c' where "field_visit (message_visit e lookup) f b' (A @ [name]) = (Inr c', A @ [name])" using f(1) by blast
    then obtain w u' where "message_visit e lookup b (A @ [name]) = (Inr w, u')"
      using f by (auto simp: field_visit_def prog_simps split: prod.splits sum.splits if_splits)
    then show ?thesis using visit_state by blast
  qed
  then show ?thesis using new fs Suc by blast
qed

lemma visit_reaches:
  assumes "message_visit d lookup name A = (Inr v, t)" and "(uses lookup)\<^sup>*\<^sup>* name x"
  shows "\<exists>e B w. message_visit e lookup x B = (Inr w, B)"
proof -
  have "\<exists>e B w. message_visit e lookup x B = (Inr w, B)" if "message_visit d lookup name A = (Inr v, A)" for d A v
    using assms(2) that
  proof (induction arbitrary: d A v rule: converse_rtranclp_induct)
    case (step y z)
    then show ?case using visit_step [OF step.prems] by blast
  qed blast
  then show ?thesis using assms(1) visit_state by blast
qed

lemma visit_avoids:
  assumes "message_visit d lookup name A = (Inr v, A)" and "(uses lookup)\<^sup>*\<^sup>* name x"
  shows "x \<notin> set A"
  using assms(2,1)
proof (induction arbitrary: d A v rule: converse_rtranclp_induct)
  case base
  then show ?case using visit_step by blast
next
  case (step y z)
  obtain e w where "message_visit e lookup z (A @ [y]) = (Inr w, A @ [y])" using visit_step [OF step.prems] step.hyps(1) by blast
  then have "x \<notin> set (A @ [y])" by (rule step.IH)
  then show ?case by simp
qed

lemma visit_acyclic:
  assumes "message_visit d lookup name A = (Inr v, t)" and "(uses lookup)\<^sup>*\<^sup>* name x"
  shows "\<not> (uses lookup)\<^sup>+\<^sup>+ x x" and "\<exists>fs. lookup x = Inr fs"
proof -
  obtain e B w where x: "message_visit e lookup x B = (Inr w, B)" using visit_reaches [OF assms] by blast
  then show "\<exists>fs. lookup x = Inr fs" using visit_step by blast
  show "\<not> (uses lookup)\<^sup>+\<^sup>+ x x"
  proof
    assume "(uses lookup)\<^sup>+\<^sup>+ x x"
    then obtain y where y: "uses lookup x y" "(uses lookup)\<^sup>*\<^sup>* y x" by (meson tranclpD)
    obtain e' w' where "message_visit e' lookup y (B @ [x]) = (Inr w', B @ [x])" using visit_step [OF x] y(1) by blast
    from visit_avoids [OF this y(2)] show False by simp
  qed
qed

section \<open>Canonical order\<close>

lemma text_le_refl [simp]: "text_le s s"
  by (induction s) auto

lemma text_le_trans: "text_le s t \<Longrightarrow> text_le t u \<Longrightarrow> text_le s u"
proof (induction s t arbitrary: u rule: text_le.induct)
  case (3 a s b t)
  then show ?case by (cases u) auto
qed auto

lemma text_le_antisym: "text_le s t \<Longrightarrow> text_le t s \<Longrightarrow> s = t"
proof (induction s t rule: text_le.induct)
  case (1 t)
  then show ?case by (cases t) auto
qed auto

lemma text_le_total: "text_le s t \<or> text_le t s"
  by (induction s t rule: text_le.induct) auto

definition ordered_texts :: "(ustring \<times> 'v) list \<Rightarrow> bool" where
  "ordered_texts ps = sorted_wrt (\<lambda>p q. text_le (fst p) (fst q)) ps"

lemma mset_insert_text [simp]: "mset (insert_text p ps) = add_mset p (mset ps)"
  by (induction ps) auto

lemma mset_sort_texts [simp]: "mset (sort_texts ps) = mset ps"
  by (induction ps) (simp_all add: sort_texts_def)

lemma insert_text_ordered: "ordered_texts ps \<Longrightarrow> ordered_texts (insert_text p ps)"
proof (induction ps)
  case (Cons q qs)
  have "set (insert_text p qs) = insert p (set qs)" using mset_insert_text [of p qs] by (metis set_mset_add_mset_insert set_mset_mset)
  then show ?case using Cons text_le_total [of "fst p" "fst q"] by (auto simp: ordered_texts_def intro: text_le_trans)
qed (simp add: ordered_texts_def)

lemma sort_texts_ordered: "ordered_texts (sort_texts ps)"
  by (induction ps) (simp_all add: sort_texts_def ordered_texts_def [of "[]"] insert_text_ordered)

lemma ordered_unique: "ordered_texts ps \<Longrightarrow> ordered_texts qs \<Longrightarrow> mset ps = mset qs \<Longrightarrow> distinct (keys ps) \<Longrightarrow> ps = qs"
proof (induction ps arbitrary: qs)
  case (Cons p ps)
  then obtain q rest where qs: "qs = q # rest" by (cases qs) auto
  have sets: "set qs = set (p # ps)" using Cons.prems(3) by (metis set_mset_mset)
  have mem: "q \<in> insert p (set ps)" "p \<in> insert q (set rest)" using sets qs by auto
  have "text_le (fst p) (fst q)" using Cons.prems(1) mem(1) by (auto simp: ordered_texts_def)
  moreover have "text_le (fst q) (fst p)" using Cons.prems(2) mem(2) qs by (auto simp: ordered_texts_def)
  ultimately have "fst p = fst q" by (rule text_le_antisym)
  moreover have "q \<in> set (p # ps)" using mem by auto
  ultimately have "p = q" using Cons.prems(4) by (auto simp: rev_image_eqI)
  then show ?case using Cons qs by (auto simp: ordered_texts_def)
qed simp

lemma sort_texts_perm: "mset ps = mset qs \<Longrightarrow> distinct (keys ps) \<Longrightarrow> sort_texts ps = sort_texts qs"
proof (rule ordered_unique)
  assume "mset ps = mset qs" "distinct (keys ps)"
  then show "mset (sort_texts ps) = mset (sort_texts qs)" by simp
  have "mset (keys (sort_texts ps)) = mset (keys ps)" by simp
  then show "distinct (keys (sort_texts ps))" using \<open>distinct (keys ps)\<close> mset_eq_imp_distinct_iff by blast
qed (rule sort_texts_ordered)+

lemma mset_map_filter: "mset (List.map_filter f xs) = image_mset the (filter_mset (\<lambda>x. x \<noteq> None) (image_mset f (mset xs)))"
  by (induction xs) (auto simp: map_filter_simps split: option.split)

lemma entry_keys: "distinct (map fst ps) \<Longrightarrow> distinct (keys (List.map_filter field_entry ps))"
proof (induction ps)
  case (Cons p ps)
  have key: "field_entry q = Some e \<Longrightarrow> fst q = Key (fst e)" for q e by (cases q rule: field_entry.cases) auto
  have "k \<notin> set (keys (List.map_filter field_entry ps))" if "field_entry p = Some (k, v)" for k v
    using Cons.prems key [OF that] key by (fastforce simp: List.map_filter_def image_iff)
  then show ?case using Cons by (auto simp: map_filter_simps split: option.split)
qed (simp add: map_filter_simps)

section \<open>The registry\<close>

lemma js_ok_mk_obj: "distinct (keys kvs) \<Longrightarrow> list_all (\<lambda>p. js_ok (snd p)) kvs \<Longrightarrow> js_ok (mk_obj kvs)"
  by (auto simp: mk_obj_def mk_prop_def list_all_iff distinct_map inj_on_def comp_def)

lemma js_ok_kind: "distinct (''kind'' # map fst ps) \<Longrightarrow> list_all (\<lambda>p. js_ok (snd p)) ps \<Longrightarrow> js_ok (kind_obj k ps)"
  unfolding kind_obj_def by (rule js_ok_mk_obj) (auto simp: list_all_iff distinct_map inj_on_def comp_def case_prod_unfold image_iff)

lemma js_ok_primitive: "primitive t u = Inr v \<Longrightarrow> js_ok v"
  by (auto simp: primitive_def intro!: js_ok_kind split: if_splits option.splits)

lemma js_ok_array: "js_ok v \<Longrightarrow> js_ok (array_value f v)"
  by (auto simp: array_value_def Let_def or_null_def intro!: js_ok_kind split: option.split)

lemma obj_put_ok: "distinct (keys ps) \<Longrightarrow> list_all (\<lambda>p. js_ok (snd p)) ps \<Longrightarrow> js_ok v \<Longrightarrow> k \<notin> set (keys ps) \<Longrightarrow>
    distinct (keys (obj_put k v ps)) \<and> list_all (\<lambda>p. js_ok (snd p)) (obj_put k v ps)"
proof -
  have ins: "set (insert_index k v ps) = insert (k, v) (set ps) \<and> (distinct (keys ps) \<longrightarrow> k \<notin> set (keys ps) \<longrightarrow> distinct (keys (insert_index k v ps)))" for ps :: "(ustring \<times> jsval) list"
    by (induction ps rule: insert_index.induct) auto
  assume "distinct (keys ps)" "list_all (\<lambda>p. js_ok (snd p)) ps" "js_ok v" "k \<notin> set (keys ps)"
  then show ?thesis using ins [of ps] by (auto simp: obj_put_def list_all_iff)
qed

lemma js_ok_message: "message_visit d lookup name A = (Inr v, t) \<Longrightarrow> js_ok v"
proof (induction d arbitrary: name A v t)
  case (Suc d)
  have loop: "distinct (keys c) \<and> list_all (\<lambda>p. js_ok (snd p)) c"
    if "foldE (field_visit (message_visit d lookup)) fs b B = (Inr c, u)" "distinct (keys b)" "list_all (\<lambda>p. js_ok (snd p)) b" for fs b B c u
    using that
  proof (induction fs arbitrary: b B)
    case (Cons f fs)
    obtain b' B' where b': "field_visit (message_visit d lookup) f b B = (Inr b', B')" "foldE (field_visit (message_visit d lookup)) fs b' B' = (Inr c, u)"
      using Cons.prems(1) by (auto simp: bindE_run split: prod.splits sum.splits)
    obtain w where w: "rf_name f \<notin> set (keys b)" "js_ok w" "b' = obj_put (rf_name f) (array_value f w) b"
      using b'(1) Suc.IH js_ok_primitive by (fastforce simp: field_visit_def prog_simps split: prod.splits sum.splits if_splits)
    then have "distinct (keys b') \<and> list_all (\<lambda>p. js_ok (snd p)) b'" using obj_put_ok Cons.prems(2,3) js_ok_array by simp
    then show ?case using Cons.IH [OF b'(2)] by blast
  qed (auto simp: prog_run)
  obtain fs props u where "foldE (field_visit (message_visit d lookup)) fs [] (A @ [name]) = (Inr props, u)" "v = kind_obj ''object'' [(''fields'', mk_obj props)]"
    using Suc.prems by (auto simp: prog_simps split: prod.splits sum.splits if_splits)
  then show ?case using loop [of fs "[]"] by (auto intro!: js_ok_kind js_ok_mk_obj)
qed (simp add: prog_run)

lemma descriptor_cases:
  assumes "descriptorFromRos type lookup depth = Inr v"
  obtains n t c where "message_visit n lookup type [] = (Inr v, t)" "n = nat (num_int depth + 1)"
    "createCodec v (mk_obj [(ustr ''maxDepth'', Number depth)]) = Inr c" "js_ok v"
proof -
  obtain t where "message_visit (nat (num_int depth + 1)) lookup type [] = (Inr v, t)"
    "\<exists>c. createCodec v (mk_obj [(ustr ''maxDepth'', Number depth)]) = Inr c"
    using assms by (auto simp: descriptorFromRos_def bindR_eq_Inr failIf_def prod_eq_iff)
  then show thesis using that js_ok_message by blast
qed

lemma registry_entry_ok:
  assumes "registry_entry sha256 describe b = Inr rb" and "isSafeInteger (NumI (q_depth (b_qos b)))"
  shows "rb_binding rb = b \<and> registration_ok \<lparr>rg_binding = rb_binding rb, rg_codec = rb_codec rb\<rparr>
    \<and> codecOptions.allowNonFinite (cd_options (rb_codec rb)) = (b_commandGuard b = None)"
proof -
  obtain d where d: "descriptorFromRos (rosType b) describe (NumI 32) = Inr d"
    and c: "createCodec d (mk_obj [(ustr ''allowNonFinite'', Bool (b_commandGuard b = None))]) = Inr (rb_codec rb)" and b: "rb_binding rb = b"
    using assms(1) by (auto simp: registry_entry_def bindR_eq_Inr Let_def)
  have "js_ok d" using d by (rule descriptor_cases)
  then have ok: "codec_ok (rb_codec rb)" using createCodec_ok [OF c] by (simp add: codec_ok_def)
  have flag: "codecOptions_v (mk_obj [(ustr ''allowNonFinite'', Bool x)]) = Inr opt \<Longrightarrow> codecOptions.allowNonFinite opt = x" for x opt
    by (auto simp: codecOptions_v_def bindR_eq_Inr mk_obj_def mk_prop_def)
  obtain opt sch where opt: "codecOptions_v (mk_obj [(ustr ''allowNonFinite'', Bool (b_commandGuard b = None))]) = Inr opt"
    "\<lparr>cd_options = opt, cd_schema = sch\<rparr> = rb_codec rb" using c by (auto simp: createCodec_def bindR_eq_Inr)
  have "codecOptions.allowNonFinite (cd_options (rb_codec rb)) = (b_commandGuard b = None)"
    unfolding opt(2) [symmetric] codec.select_convs by (rule flag [OF opt(1)])
  then show ?thesis using ok b assms(2) by (simp add: registration_ok_def depth_ok_def)
qed

lemma register_entries_distinct:
  "distinct (keys table @ map (\<lambda>e. publicName (rg_binding e)) es) \<Longrightarrow> \<exists>t. register_entries es table = Inr t"
proof (induction es arbitrary: table)
  case (Cons e es)
  let ?n = "publicName (rg_binding e)"
  have new: "?n \<notin> set (keys table)" using Cons.prems by auto
  then have "AList.update ?n e table = table @ [(?n, e)]" by (intro update_new) (simp add: map_of_eq_None_iff)
  then have "distinct (keys (AList.update ?n e table) @ map (\<lambda>e. publicName (rg_binding e)) es)" using Cons.prems by auto
  from Cons.IH [OF this] show ?case using new by (simp add: failIf_def)
qed simp

lemma registry_starts:
  assumes "parseBridgeConfig yaml source opt = Inr c" and "\<And>v. yaml source = Inr v \<Longrightarrow> js_ok v" and "createRegistry sha256 describe c = Inr regs"
  shows "map rb_binding regs = cfg_topics c
    \<and> (\<forall>rb \<in> set regs. codecOptions.allowNonFinite (cd_options (rb_codec rb)) = (b_commandGuard (rb_binding rb) = None))
    \<and> (\<exists>s. newAdapter (map (\<lambda>rb. \<lparr>rg_binding = rb_binding rb, rg_codec = rb_codec rb\<rparr>) regs) = Inr s \<and> adapter_begin s \<and> ad_state s = ANew)"
proof -
  let ?reg = "\<lambda>rb. \<lparr>rg_binding = rb_binding rb, rg_codec = rb_codec rb\<rparr>"
  have cfg: "distinct (map publicName (cfg_topics c))" "list_all (binding_ok opt) (cfg_topics c)" using parsed_config_ok [OF assms(1,2)] by simp_all
  have each: "list_all2 (\<lambda>b rb. registry_entry sha256 describe b = Inr rb) (cfg_topics c) regs" using assms(3) by (simp add: createRegistry_def mapR_eq_Inr)
  have depth: "isSafeInteger (NumI (q_depth (b_qos b)))" if "b \<in> set (cfg_topics c)" for b
    using cfg(2) that by (auto simp: list_all_iff binding_ok_def limit_ok_def isSafeInteger_iff)
  have good: "rb_binding rb = b \<and> registration_ok (?reg rb) \<and> codecOptions.allowNonFinite (cd_options (rb_codec rb)) = (b_commandGuard b = None)"
    if "registry_entry sha256 describe b = Inr rb" "b \<in> set (cfg_topics c)" for b rb using registry_entry_ok [OF that(1) depth [OF that(2)]] .
  have bindings: "map rb_binding regs = cfg_topics c"
    using each good by (auto simp: list_all2_conv_all_nth intro!: nth_equalityI)
  have all: "registration_ok (?reg rb) \<and> codecOptions.allowNonFinite (cd_options (rb_codec rb)) = (b_commandGuard (rb_binding rb) = None)" if "rb \<in> set regs" for rb
    using each good that by (fastforce simp: list_all2_conv_all_nth in_set_conv_nth)
  have "map (\<lambda>e. publicName (rg_binding e)) (map ?reg regs) = map publicName (cfg_topics c)" by (simp add: comp_def flip: bindings)
  then obtain t where "register_entries (map ?reg regs) [] = Inr t" using register_entries_distinct [of "[]" "map ?reg regs"] cfg(1) by (auto simp del: map_map)
  then obtain s where s: "newAdapter (map ?reg regs) = Inr s" by (simp add: newAdapter_def)
  moreover have "\<forall>e \<in> set (map ?reg regs). registration_ok e" using all by simp
  ultimately show ?thesis using bindings all newAdapter_inv(2) unfolding adapter_begin_def by blast
qed

section \<open>Properties\<close>

text \<open>
  C27: An accepted configuration yields a registry the adapter can be started with. When the configuration
  is accepted and every type resolves, the registry has one entry per binding in their order, the adapter
  can be constructed from it and begins in the state its theorems start from, every codec is well formed,
  and nonfinite numbers are refused exactly for the bindings with a command guard.
\<close>

theorem registry_accepted:
  assumes "parseBridgeConfig yaml source opt = Inr c" and "\<And>v. yaml source = Inr v \<Longrightarrow> js_ok v" and "createRegistry sha256 describe c = Inr regs"
  shows "map rb_binding regs = cfg_topics c
    \<and> (\<forall>rb \<in> set regs. codecOptions.allowNonFinite (cd_options (rb_codec rb)) = (b_commandGuard (rb_binding rb) = None))
    \<and> (\<exists>s. newAdapter (map (\<lambda>rb. \<lparr>rg_binding = rb_binding rb, rg_codec = rb_codec rb\<rparr>) regs) = Inr s \<and> adapter_begin s \<and> ad_state s = ANew)"
  by (rule registry_starts [OF assms])

text \<open>
  Recursive message types are refused. When a descriptor is produced for a type, every message type that
  can be reached from it through fields is defined, and none of them contains itself, directly or through
  others.
\<close>

theorem descriptor_acyclic:
  assumes "descriptorFromRos type lookup depth = Inr v" and "(uses lookup)\<^sup>*\<^sup>* type x"
  shows "(\<exists>fs. lookup x = Inr fs) \<and> \<not> (uses lookup)\<^sup>+\<^sup>+ x x"
  using assms(1)
proof (rule descriptor_cases)
  fix n t
  assume "message_visit n lookup type [] = (Inr v, t)"
  from visit_acyclic [OF this assms(2)] show ?thesis by blast
qed

text \<open>
  The schema that is hashed does not depend on the order of fields. Two objects whose properties are the
  same up to their order, each value itself up to the order of its properties, have the same canonical form
  and so the same schema text, whatever order the type loader lists fields in.
\<close>

theorem canonical_order:
  assumes "distinct (map fst ps)"
    and "mset (map (map_prod id (map_oprop canonical)) ps) = mset (map (map_prod id (map_oprop canonical)) qs)"
  shows "canonical (Obj p ps) = canonical (Obj q qs) \<and> stringify (canonical (Obj p ps)) = stringify (canonical (Obj q qs))"
proof -
  let ?f = "map_prod id (map_oprop canonical)"
  have "distinct (map fst (map ?f ps))" using assms(1) by (simp add: comp_def)
  then have "distinct (keys (List.map_filter field_entry (map ?f ps)))" by (rule entry_keys)
  moreover have "mset (List.map_filter field_entry (map ?f ps)) = mset (List.map_filter field_entry (map ?f qs))"
    using assms(2) by (simp only: mset_map_filter)
  ultimately show ?thesis using sort_texts_perm by (metis canonical.simps(2))
qed

section \<open>Witnesses\<close>

definition example_fields :: "rosField list" where
  "example_fields = [\<lparr>rf_name = ustr ''data'', rf_type = ustr ''bool'', rf_pkgName = None, rf_isPrimitiveType = True, rf_isArray = False,
     rf_isFixedSizeArray = None, rf_arraySize = None, rf_isUpperBound = False, rf_stringUpperBound = None\<rparr>]"

definition example_descriptor :: jsval where
  "example_descriptor = kind_obj ''object'' [(''fields'', mk_obj [(ustr ''data'', kind_obj ''boolean'' [])])]"

lemma example_created:
  "\<exists>c. createCodec example_descriptor (mk_obj [(ustr ''maxDepth'', Number (NumI 32))]) = Inr c"
  "\<exists>c. createCodec example_descriptor (mk_obj [(ustr ''allowNonFinite'', Bool False)]) = Inr c"
  by (simp_all add: createCodec_def codecOptions_v_def limit_option_def snapshotSchema_def example_descriptor_def kind_obj_def
      numeral_eq_Suc prog_simps count_node_def MAX_SAFE_INTEGER_def plain_key is_digit_def unat_code_unit option_names_def)

lemma example_described: "descriptorFromRos type (\<lambda>_. Inr example_fields) (NumI 32) = Inr example_descriptor"
proof -
  have "fst (message_visit (nat (num_int (NumI 32) + 1)) (\<lambda>_. Inr example_fields) type []) = Inr example_descriptor"
    by (simp add: numeral_eq_Suc prog_simps example_fields_def field_visit_def primitive_def array_value_def obj_put_def example_descriptor_def
        plain_key is_digit_def unat_code_unit)
  moreover obtain c where "createCodec example_descriptor (mk_obj [(ustr ''maxDepth'', Number (NumI 32))]) = Inr c" using example_created(1) by blast
  ultimately show ?thesis by (simp add: descriptorFromRos_def failIf_def MAX_SAFE_INTEGER_def bindR_def)
qed

lemma obj_put_values: "p \<in> set (obj_put k v ps) \<Longrightarrow> snd p = v \<or> p \<in> set ps"
proof -
  have "p \<in> set (insert_index k v ps) \<Longrightarrow> snd p = v \<or> p \<in> set ps" for ps by (induction ps rule: insert_index.induct) (auto split: if_splits)
  moreover have "p \<in> set (AList.update k v ps) \<Longrightarrow> snd p = v \<or> p \<in> set ps" for ps by (induction ps) (auto split: if_splits)
  ultimately show "p \<in> set (obj_put k v ps) \<Longrightarrow> ?thesis" by (auto simp: obj_put_def split: if_splits)
qed

definition printable :: "jsval \<Rightarrow> bool" where
  "printable v \<longleftrightarrow> (\<exists>t. stringify v = Inr t)"

lemma printable_mk_obj: "\<forall>p \<in> set kvs. printable (snd p) \<Longrightarrow> printable (mk_obj kvs)"
proof -
  assume all: "\<forall>p \<in> set kvs. printable (snd p)"
  have "\<exists>xs. mapR (\<lambda>q. case q of (Key k, OData True v) \<Rightarrow>
           bindR (stringify v) (\<lambda>t. Inr (case t of Some x \<Rightarrow> [json_quote k @ ustr '':'' @ x] | None \<Rightarrow> []))
       | _ \<Rightarrow> Inr []) (map mk_prop kvs) = Inr xs"
    using all by (induction kvs) (fastforce simp: mk_prop_def printable_def bindR_def)+
  then show ?thesis by (auto simp: printable_def mk_obj_def bindR_def)
qed

lemma printable_entries: "\<forall>p \<in> set ps. printable (snd p) \<Longrightarrow> printable (from_entries (sort_texts ps))"
proof -
  assume all: "\<forall>p \<in> set ps. printable (snd p)"
  have "\<forall>p \<in> set (fold (\<lambda>(k, v). obj_put k v) xs acc). printable (snd p)"
    if "\<forall>p \<in> set xs. printable (snd p)" "\<forall>p \<in> set acc. printable (snd p)" for xs acc
    using that
  proof (induction xs arbitrary: acc)
    case (Cons x xs)
    have "\<forall>p \<in> set (obj_put (fst x) (snd x) acc). printable (snd p)" using Cons.prems obj_put_values by fastforce
    then show ?case using Cons.IH [of "obj_put (fst x) (snd x) acc"] Cons.prems(1) by (simp add: case_prod_unfold)
  qed simp
  from this [of "sort_texts ps" "[]"] show ?thesis
    using all mset_sort_texts [of ps] unfolding from_entries_def by (intro printable_mk_obj) (metis empty_iff list.set(1) set_mset_mset)
qed

lemma example_schema_text: "printable (canonical (schema_value example_descriptor False))"
  by (simp add: schema_value_def example_descriptor_def kind_obj_def mk_obj_def mk_prop_def map_filter_simps)
     (auto intro!: printable_entries simp: printable_def [of "Str s" for s] printable_def [of "Bool b" for b])

lemma example_registry: "\<exists>regs. createRegistry (\<lambda>b. b) (\<lambda>_. Inr example_fields) Config.example_config = Inr regs"
proof -
  obtain t where "stringify (canonical (schema_value example_descriptor False)) = Inr t" using example_schema_text by (auto simp: printable_def)
  moreover obtain c where "createCodec example_descriptor (mk_obj [(ustr ''allowNonFinite'', Bool False)]) = Inr c" using example_created(2) by blast
  ultimately show ?thesis
    by (simp add: createRegistry_def Config.example_config_def registry_entry_def example_described [simplified] Config.example_binding_def Let_def bindR_def)
qed

theorem registry_accepted_witness:
  "\<exists>regs s. createRegistry (\<lambda>b. b) (\<lambda>_. Inr example_fields) Config.example_config = Inr regs \<and> map rb_binding regs = [Config.example_binding]
     \<and> newAdapter (map (\<lambda>rb. \<lparr>rg_binding = rb_binding rb, rg_codec = rb_codec rb\<rparr>) regs) = Inr s \<and> adapter_begin s"
proof -
  obtain regs where regs: "createRegistry (\<lambda>b. b) (\<lambda>_. Inr example_fields) Config.example_config = Inr regs" using example_registry by blast
  have "\<And>v. Inr Config.example_document = Inr v \<Longrightarrow> js_ok v" using Config.example_document_ok by simp
  from registry_accepted [OF Config.example_config_parsed this regs] regs show ?thesis by (auto simp: Config.example_config_def)
qed

theorem descriptor_acyclic_witness:
  "descriptorFromRos (ustr ''p/msg/T'') (\<lambda>_. Inr example_fields) (NumI 32) = Inr example_descriptor
     \<and> \<not> (uses (\<lambda>_. Inr example_fields))\<^sup>+\<^sup>+ (ustr ''p/msg/T'') (ustr ''p/msg/T'')"
  using descriptor_acyclic [OF example_described rtranclp.rtrancl_refl] example_described by blast

theorem canonical_order_witness:
  "canonical (mk_obj [(ustr ''b'', Null), (ustr ''a'', Bool True)]) = canonical (mk_obj [(ustr ''a'', Bool True), (ustr ''b'', Null)])"
  using canonical_order [of "map mk_prop [(ustr ''b'', Null), (ustr ''a'', Bool True)]" "map mk_prop [(ustr ''a'', Bool True), (ustr ''b'', Null)]" ObjectPrototype ObjectPrototype]
  by (simp add: mk_obj_def mk_prop_def)

end
