(* ===== verification/App_Runtime.thy ===== *)
theory App_Runtime
  imports Ros_Schema Config_Video Command_Guard Signaling
begin

text \<open>
  \<open>app/runtime.ts\<close>: assembling the process, admitting peers and tearing everything down. The parts are
  the models of their own theories: the configuration is inspected and parsed, the registry created, the
  command guard and the ROS adapter constructed and the adapter started as there. Outside are the native
  backend, the media plane, the peers and the server: what they return is a parameter (\<open>appWorld\<close>) or the
  outcome of an event, and every call of them is an entry of \<open>ap_log\<close>. \<open>onError\<close> does not throw.
\<close>

section \<open>State\<close>

record appSettings =
  as_credential :: jsval
  as_configSource :: ustring
  as_maxConfigBytes :: number
  as_subscribeTopics :: "ustring list"
  as_publishScopes :: "ustring list"
  as_videoScopes :: "ustring list"
  as_timeoutMs :: number
  as_maxSdpBytes :: number
  as_requestTimeoutMs :: number
  as_maxHandles :: number
  as_maxRequests :: number
  as_requestTtlMs :: number
  as_maxControlRateHz :: number

datatype appEffect =
    Initialize
  | NewMedia
  | ProbeMedia
  | Listen
  | MakePeer nat
  | PeerCloses nat
  | GuardClosed
  | MediaCloses
  | AdapterCloses
  | BackendCloses
  | ServerCloses
  | AppError

record appWorld =
  aw_parses :: "ustring \<Rightarrow> bool"
  aw_toJS :: "ustring \<Rightarrow> jsval result"
  aw_resolveTopic :: "ustring \<Rightarrow> ustring"
  aw_describe :: "ustring \<Rightarrow> rosField list result"
  aw_sha256 :: "bytes \<Rightarrow> bytes"
  aw_prefix :: ustring
  aw_clock :: number
  aw_ros :: rosAnswers
  aw_newMedia :: "unit result"
  aw_backendClose :: "unit result"
  aw_makePeer :: "appEffect list \<Rightarrow> unit result"

text \<open>Where \<open>startApp\<close> waits, and where \<open>close\<close> waits; the flag records a rejected close of a peer.\<close>

datatype startPhase = AwaitBackend | AwaitProbe bridgeConfig "routerBinding list" | AwaitServer | AppRunning | StartFailed error | AppRejected error

datatype teardown = NotClosed | ClosingPeers | ClosingMedia bool | ClosingServer bool | AppClosed | CloseRejected error

record app =
  ap_settings :: appSettings
  ap_config :: bridgeConfig
  ap_types :: "ustring list"
  ap_start :: startPhase
  ap_adapter :: "adapter option"
  ap_guard :: "guard option"
  ap_media :: bool
  ap_server :: bool
  ap_peers :: "nat list"
  ap_nextPeer :: nat
  ap_closing :: teardown
  ap_stopped :: bool
  ap_log :: "appEffect list"

section \<open>Operations\<close>

definition app_emit :: "appEffect \<Rightarrow> (app, unit) prog" where
  "app_emit x = modE (\<lambda>s. s\<lparr>ap_log := ap_log s @ [x]\<rparr>)"

text \<open>What is checked before the backend is initialized.\<close>

definition app_begin :: "appWorld \<Rightarrow> appSettings \<Rightarrow> app result" where
  "app_begin w st =
     bindR (inspectConfig (aw_parses w) (aw_toJS w) (as_configSource st) (as_maxConfigBytes st)) (\<lambda>preliminary.
     bindR (mapR positiveLimit [as_timeoutMs st, as_maxSdpBytes st, as_requestTimeoutMs st,
              as_maxHandles st, as_maxRequests st, as_requestTtlMs st, as_maxControlRateHz st]) (\<lambda>_.
     bindR (case as_credential st of Str c \<Rightarrow> failIf (length c < 32) (Err ''invalid_credential'') | _ \<Rightarrow> Inl (Err ''invalid_credential'')) (\<lambda>_.
     Inr \<lparr>ap_settings = st, ap_config = preliminary, ap_types = map rosType (cfg_topics preliminary), ap_start = AwaitBackend, ap_adapter = None, ap_guard = None,
       ap_media = False, ap_server = False, ap_peers = [], ap_nextPeer = 0, ap_closing = NotClosed, ap_stopped = False, ap_log = [Initialize]\<rparr>)))"

text \<open>\<open>close\<close> up to its first \<open>await\<close>.\<close>

definition app_close :: "(app, unit) prog" where
  "app_close =
     bindE (getE ap_closing) (\<lambda>c.
     if c \<noteq> NotClosed then retE ()
     else seqE (modE (\<lambda>s. s\<lparr>ap_stopped := True\<rparr>))
         (seqE (bindE (getE ap_peers) (forE (\<lambda>p. app_emit (PeerCloses p))))
               (modE (\<lambda>s. s\<lparr>ap_closing := ClosingPeers\<rparr>))))"

text \<open>The ROS context is released last but for the server.\<close>

definition release_ros :: "appWorld \<Rightarrow> (app, unit) prog" where
  "release_ros w =
     bindE (getE ap_adapter) (\<lambda>found.
     catchE
      (case found of
         Some ad \<Rightarrow> seqE (app_emit AdapterCloses)
                  (case adapter_close (aw_ros w) ad of (r, ad') \<Rightarrow> seqE (modE (\<lambda>s. s\<lparr>ap_adapter := Some ad'\<rparr>)) (liftE r))
       | None \<Rightarrow> seqE (app_emit BackendCloses) (liftE (aw_backendClose w)))
      (\<lambda>_. app_emit AppError))"

definition report_rejected :: "bool \<Rightarrow> (app, unit) prog" where
  "report_rejected rejected =
     seqE (if rejected then app_emit AppError else retE ()) (modE (\<lambda>s. s\<lparr>ap_closing := AppClosed\<rparr>))"

definition close_rest :: "appWorld \<Rightarrow> bool \<Rightarrow> (app, unit) prog" where
  "close_rest w rejected =
     seqE (release_ros w)
    (bindE (getE ap_server) (\<lambda>server.
     if server then seqE (app_emit ServerCloses) (modE (\<lambda>s. s\<lparr>ap_closing := ClosingServer rejected\<rparr>))
     else report_rejected rejected))"

text \<open>All peers have settled.\<close>

definition app_peers_settled :: "appWorld \<Rightarrow> bool \<Rightarrow> (app, unit) prog" where
  "app_peers_settled w rejected =
     bindE (getE ap_closing) (\<lambda>c.
     if c \<noteq> ClosingPeers then retE ()
     else bindE (getE ap_guard) (\<lambda>found.
       seqE (case found of
               Some g \<Rightarrow> seqE (app_emit GuardClosed) (modE (\<lambda>s. s\<lparr>ap_guard := Some (snd (guard_close g))\<rparr>))
             | None \<Rightarrow> retE ())
      (bindE (getE ap_media) (\<lambda>media.
       if media then seqE (app_emit MediaCloses) (modE (\<lambda>s. s\<lparr>ap_closing := ClosingMedia rejected\<rparr>))
       else close_rest w rejected))))"

text \<open>\<open>media.close()\<close> is awaited outside a \<open>try\<close>.\<close>

definition app_media_closed :: "appWorld \<Rightarrow> unit result \<Rightarrow> (app, unit) prog" where
  "app_media_closed w outcome =
     bindE (getE ap_closing) (\<lambda>c.
     case c of
       ClosingMedia rejected \<Rightarrow>
         (case outcome of
            Inl e \<Rightarrow> modE (\<lambda>s. s\<lparr>ap_closing := CloseRejected e\<rparr>)
          | Inr _ \<Rightarrow> close_rest w rejected)
     | _ \<Rightarrow> retE ())"

definition app_server_closed :: "unit result \<Rightarrow> (app, unit) prog" where
  "app_server_closed outcome =
     bindE (getE ap_closing) (\<lambda>c.
     case c of
       ClosingServer rejected \<Rightarrow>
         seqE (case outcome of Inl _ \<Rightarrow> app_emit AppError | Inr _ \<Rightarrow> retE ()) (report_rejected rejected)
     | _ \<Rightarrow> retE ())"

text \<open>The \<open>catch\<close> clause of \<open>startApp\<close>: the error is rethrown once everything is closed.\<close>

definition start_failed :: "error \<Rightarrow> (app, unit) prog" where
  "start_failed e = seqE (modE (\<lambda>s. s\<lparr>ap_start := StartFailed e\<rparr>)) app_close"

definition app_rethrows :: "(app, unit) prog" where
  "app_rethrows =
     modE (\<lambda>s. case ap_start s of
         StartFailed e \<Rightarrow> (case ap_closing s of
             AppClosed \<Rightarrow> s\<lparr>ap_start := AppRejected e\<rparr>
           | CloseRejected e' \<Rightarrow> s\<lparr>ap_start := AppRejected e'\<rparr>
           | _ \<Rightarrow> s)
       | _ \<Rightarrow> s)"

text \<open>From the command guard to the listener.\<close>

definition app_assemble :: "appWorld \<Rightarrow> bridgeConfig \<Rightarrow> routerBinding list \<Rightarrow> (app, unit) prog" where
  "app_assemble w config registry =
     bindE (getE ap_settings) (\<lambda>st.
     let maxPeers = limits.maxPeers (cfg_limits config) in
     bindE (liftE (newCommandGuard (NumI maxPeers) (NumI (num_int (as_maxHandles st) * maxPeers)) (NumI 250) True True (aw_prefix w) (aw_clock w))) (\<lambda>g.
     seqE (modE (\<lambda>s. s\<lparr>ap_guard := Some g\<rparr>))
    (bindE (liftE (newAdapter (map (\<lambda>rb. \<lparr>rg_binding = rb_binding rb, rg_codec = rb_codec rb\<rparr>) registry))) (\<lambda>ad.
     case adapter_start (aw_ros w) ad of (started, ad') \<Rightarrow>
     seqE (modE (\<lambda>s. s\<lparr>ap_adapter := Some ad'\<rparr>))
    (seqE (liftE started)
    (bindE (liftE (createSignalingHandler (as_credential st) (as_maxSdpBytes st) (as_requestTimeoutMs st) (NumI maxPeers))) (\<lambda>_.
     seqE (app_emit Listen) (modE (\<lambda>s. s\<lparr>ap_config := config, ap_start := AwaitServer\<rparr>)))))))))"

definition app_initialized :: "appWorld \<Rightarrow> unit result \<Rightarrow> (app, unit) prog" where
  "app_initialized w outcome =
     bindE (getE ap_start) (\<lambda>phase.
     if phase \<noteq> AwaitBackend then retE ()
     else case outcome of
       Inl e \<Rightarrow> modE (\<lambda>s. s\<lparr>ap_start := AppRejected e\<rparr>)
     | Inr _ \<Rightarrow>
         bindE (getE (\<lambda>s. (ap_settings s, ap_types s))) (\<lambda>(st, types).
         catchE
          (bindE (liftE (parseBridgeConfig (yaml_of (aw_parses w) (aw_toJS w)) (as_configSource st)
              \<lparr>availableTypes = types, o_maxConfigBytes = Number (as_maxConfigBytes st), o_maxTopics = Undefined, resolveTopic = Some (aw_resolveTopic w)\<rparr>)) (\<lambda>config.
           bindE (liftE (createRegistry (aw_sha256 w) (aw_describe w) config)) (\<lambda>registry.
           bindE (liftE (parseVideoConfig (yaml_of (aw_parses w) (aw_toJS w)) (as_configSource st) (cfg_topics config) (num_int (as_maxConfigBytes st)))) (\<lambda>video.
           case video of
             None \<Rightarrow> app_assemble w config registry
           | Some _ \<Rightarrow>
               seqE (app_emit NewMedia)
              (seqE (liftE (aw_newMedia w))
              (seqE (modE (\<lambda>s. s\<lparr>ap_media := True\<rparr>))
              (seqE (app_emit ProbeMedia) (modE (\<lambda>s. s\<lparr>ap_config := config, ap_start := AwaitProbe config registry\<rparr>)))))))))
          start_failed))"

definition app_probed :: "appWorld \<Rightarrow> unit result \<Rightarrow> (app, unit) prog" where
  "app_probed w outcome =
     bindE (getE ap_start) (\<lambda>phase.
     case phase of
       AwaitProbe config registry \<Rightarrow> catchE (seqE (liftE outcome) (app_assemble w config registry)) start_failed
     | _ \<Rightarrow> retE ())"

definition app_listening :: "unit result \<Rightarrow> (app, unit) prog" where
  "app_listening outcome =
     bindE (getE ap_start) (\<lambda>phase.
     if phase \<noteq> AwaitServer then retE ()
     else case outcome of
       Inl e \<Rightarrow> start_failed e
     | Inr _ \<Rightarrow> modE (\<lambda>s. s\<lparr>ap_server := True, ap_start := AppRunning\<rparr>))"

text \<open>
  \<open>accept\<close>: capacity is reserved before the negotiation starts. \<open>made\<close> is the outcome of constructing the
  endpoint; the endpoint itself is the subject of its own theory.
\<close>

definition app_accept :: "appWorld \<Rightarrow> unit result \<Rightarrow> (app, nat) prog" where
  "app_accept w made =
     bindE (getE (\<lambda>s. ap_stopped s \<or> int (length (ap_peers s)) \<ge> limits.maxPeers (cfg_limits (ap_config s)))) (\<lambda>full.
     seqE (throwIf full (Err ''peer_limit''))
    (bindE (getE ap_nextPeer) (\<lambda>p.
     seqE (modE (\<lambda>s. s\<lparr>ap_nextPeer := p + 1\<rparr>))
    (seqE (app_emit (MakePeer p))
    (bindE (getE (\<lambda>s. aw_makePeer w (ap_log s))) (\<lambda>r.
     seqE (liftE r)
    (seqE (liftE made)
    (seqE (modE (\<lambda>s. s\<lparr>ap_peers := ap_peers s @ [p]\<rparr>)) (retE p)))))))))"

text \<open>\<open>onClosed\<close> of an endpoint.\<close>

definition peer_gone :: "nat \<Rightarrow> (app, unit) prog" where
  "peer_gone p = modE (\<lambda>s. s\<lparr>ap_peers := removeAll p (ap_peers s)\<rparr>)"

text \<open>What the credential permits.\<close>

definition app_allowed :: "appSettings \<Rightarrow> topicBinding \<Rightarrow> bool \<Rightarrow> bool" where
  "app_allowed st b publish =
     (if \<not> publish then publicName b \<in> set (as_subscribeTopics st)
      else case b_access b of None \<Rightarrow> False | Some acc \<Rightarrow> a_publishScope acc \<in> set (as_publishScopes st))"

definition app_watchable :: "appSettings \<Rightarrow> videoBinding \<Rightarrow> bool" where
  "app_watchable st b = (v_scope b \<in> set (as_videoScopes st))"

definition guard_authorize :: "app \<Rightarrow> commandIdentity \<Rightarrow> bool" where
  "guard_authorize s ident =
     (\<not> ap_stopped s \<and> list_ex (\<lambda>t. rosTopic t = c_topic ident \<and> app_allowed (ap_settings s) t True) (cfg_topics (ap_config s)))"

section \<open>Invariant\<close>

text \<open>The order in which resources are released.\<close>

fun release_rank :: "appEffect \<Rightarrow> nat option" where
  "release_rank (PeerCloses p) = Some 0"
| "release_rank GuardClosed = Some 1"
| "release_rank MediaCloses = Some 2"
| "release_rank AdapterCloses = Some 3"
| "release_rank BackendCloses = Some 3"
| "release_rank ServerCloses = Some 4"
| "release_rank _ = None"

definition releases :: "app \<Rightarrow> nat list" where
  "releases s = List.map_filter release_rank (ap_log s)"

fun peers_done :: "teardown \<Rightarrow> bool" where
  "peers_done NotClosed = False" | "peers_done ClosingPeers = False" | "peers_done _ = True"

fun ros_done :: "teardown \<Rightarrow> bool" where
  "ros_done (ClosingServer r) = True" | "ros_done AppClosed = True" | "ros_done _ = False"

text \<open>The highest rank that may have been reached.\<close>

fun stage_rank :: "teardown \<Rightarrow> nat" where
  "stage_rank NotClosed = 0" | "stage_rank ClosingPeers = 0" | "stage_rank (ClosingMedia r) = 2" | "stage_rank (CloseRejected e) = 2" | "stage_rank _ = 4"

definition released_ok :: "app \<Rightarrow> bool" where
  "released_ok s \<longleftrightarrow>
     count_list (ap_log s) GuardClosed = (if peers_done (ap_closing s) \<and> ap_guard s \<noteq> None then 1 else 0)
     \<and> count_list (ap_log s) MediaCloses = (if peers_done (ap_closing s) \<and> ap_media s then 1 else 0)
     \<and> count_list (ap_log s) AdapterCloses = (if ros_done (ap_closing s) \<and> ap_adapter s \<noteq> None then 1 else 0)
     \<and> count_list (ap_log s) BackendCloses = (if ros_done (ap_closing s) \<and> ap_adapter s = None then 1 else 0)
     \<and> count_list (ap_log s) ServerCloses = (if ros_done (ap_closing s) \<and> ap_server s then 1 else 0)
     \<and> (ap_closing s = NotClosed \<longrightarrow> releases s = []) \<and> sorted (releases s) \<and> (\<forall>r \<in> set (releases s). r \<le> stage_rank (ap_closing s))
     \<and> (peers_done (ap_closing s) \<longrightarrow> (\<forall>g. ap_guard s = Some g \<longrightarrow> g_closed g))
     \<and> (ros_done (ap_closing s) \<longrightarrow> (\<forall>ad. ap_adapter s = Some ad \<longrightarrow> ad_state ad = AClosed))"

definition peers_ok :: "app \<Rightarrow> bool" where
  "peers_ok s \<longleftrightarrow> distinct (ap_peers s) \<and> (\<forall>p \<in> set (ap_peers s). p < ap_nextPeer s)
     \<and> (ap_peers s \<noteq> [] \<longrightarrow> Listen \<in> set (ap_log s) \<and> int (length (ap_peers s)) \<le> limits.maxPeers (cfg_limits (ap_config s)))"

definition start_ok :: "app \<Rightarrow> bool" where
  "start_ok s \<longleftrightarrow>
     (case ap_start s of
        AwaitBackend \<Rightarrow> ap_closing s = NotClosed \<and> Listen \<notin> set (ap_log s) \<and> ap_guard s = None \<and> ap_adapter s = None \<and> \<not> ap_server s \<and> \<not> ap_media s
      | AwaitProbe c r \<Rightarrow> ap_closing s = NotClosed \<and> Listen \<notin> set (ap_log s) \<and> ap_guard s = None \<and> ap_adapter s = None \<and> \<not> ap_server s
      | AwaitServer \<Rightarrow> ap_closing s = NotClosed \<and> \<not> ap_server s
      | AppRunning \<Rightarrow> True
      | StartFailed e \<Rightarrow> ap_closing s \<noteq> NotClosed
      | AppRejected e \<Rightarrow> ap_closing s = AppClosed \<or> (\<exists>e'. ap_closing s = CloseRejected e')
          \<or> ap_closing s = NotClosed \<and> ap_guard s = None \<and> ap_adapter s = None \<and> \<not> ap_server s \<and> \<not> ap_media s)"

definition app_inv :: "app \<Rightarrow> bool" where
  "app_inv s \<longleftrightarrow> released_ok s \<and> peers_ok s \<and> start_ok s \<and> (ap_stopped s \<longleftrightarrow> ap_closing s \<noteq> NotClosed)"

lemmas app_defs = app_inv_def released_ok_def peers_ok_def start_ok_def releases_def

lemmas app_runs = bindE_run seqE_run catchE_run prog_run throwIf_run app_emit_def

section \<open>Tearing down\<close>

lemma close_peers_run: "forE (\<lambda>p. app_emit (PeerCloses p)) ps s = (Inr (), s\<lparr>ap_log := ap_log s @ map PeerCloses ps\<rparr>)"
  by (induction ps arbitrary: s) (simp_all add: app_runs)

lemma app_close_run:
  "app_close s = (Inr (), if ap_closing s \<noteq> NotClosed then s
     else s\<lparr>ap_stopped := True, ap_log := ap_log s @ map PeerCloses (ap_peers s), ap_closing := ClosingPeers\<rparr>)"
  by (simp add: app_close_def bindE_run seqE_run prog_run close_peers_run)

lemma peer_releases: "List.map_filter release_rank (map PeerCloses ps) = replicate (length ps) 0"
  by (induction ps) (simp_all add: map_filter_simps)

lemma peer_counts: "x \<notin> range PeerCloses \<Longrightarrow> count_list (map PeerCloses ps) x = 0"
  by (auto simp: count_list_0_iff)

lemma close_started:
  assumes "released_ok s" and "peers_ok s" and "ap_closing s = NotClosed" and "ap_start s = AppRunning \<or> (\<exists>e. ap_start s = StartFailed e)"
  shows "app_inv (snd (app_close s))"
proof -
  define t where "t = s\<lparr>ap_stopped := True, ap_log := ap_log s @ map PeerCloses (ap_peers s), ap_closing := ClosingPeers\<rparr>"
  have "releases t = releases s @ replicate (length (ap_peers s)) 0" by (simp add: releases_def t_def map_filter_append peer_releases)
  moreover have "releases s = []" using assms(1,3) by (simp add: released_ok_def)
  ultimately have "sorted (releases t) \<and> (\<forall>r \<in> set (releases t). r \<le> 0)" by (simp add: sorted_replicate)
  then have "released_ok t" using assms(1,3) by (simp add: released_ok_def t_def peer_counts image_iff)
  moreover have "peers_ok t" using assms(2) by (auto simp: peers_ok_def t_def)
  moreover have "start_ok t" using assms(4) by (auto simp: start_ok_def t_def)
  ultimately show ?thesis using assms(3) by (simp add: app_inv_def app_close_run t_def)
qed

lemma release_run:
  "\<exists>errors ad. release_ros w s = (Inr (), s\<lparr>ap_adapter := ad, ap_log := ap_log s @ (if ap_adapter s = None then BackendCloses else AdapterCloses) # errors\<rparr>)
     \<and> set errors \<subseteq> {AppError} \<and> (ad = None \<longleftrightarrow> ap_adapter s = None) \<and> (\<forall>a. ad = Some a \<longrightarrow> ad_state a = AClosed)"
proof (cases "ap_adapter s")
  case None
  then have "s\<lparr>ap_adapter := None\<rparr> = s" by simp
  then show ?thesis using None
    by (intro exI [of _ "case aw_backendClose w of Inl _ \<Rightarrow> [AppError] | Inr _ \<Rightarrow> []"] exI [of _ None])
       (auto simp: release_ros_def app_runs split: sum.split)
next
  case (Some a)
  obtain r a' where a': "adapter_close (aw_ros w) a = (r, a')" by fastforce
  have "ad_state a' = AClosed" using a' by (auto simp: adapter_close_run split: if_splits)
  then show ?thesis using Some a'
    by (intro exI [of _ "case r of Inl _ \<Rightarrow> [AppError] | Inr _ \<Rightarrow> []"] exI [of _ "Some a'"])
       (auto simp: release_ros_def app_runs split: sum.split)
qed

text \<open>Guard and media plane are released, the ROS context is not.\<close>

definition before_ros :: "app \<Rightarrow> bool" where
  "before_ros s \<longleftrightarrow> peers_ok s \<and> ap_stopped s \<and> (ap_start s = AppRunning \<or> (\<exists>e. ap_start s = StartFailed e))
     \<and> count_list (ap_log s) GuardClosed = (if ap_guard s \<noteq> None then 1 else 0) \<and> count_list (ap_log s) MediaCloses = (if ap_media s then 1 else 0)
     \<and> count_list (ap_log s) AdapterCloses = 0 \<and> count_list (ap_log s) BackendCloses = 0 \<and> count_list (ap_log s) ServerCloses = 0
     \<and> sorted (releases s) \<and> (\<forall>r \<in> set (releases s). r \<le> 2) \<and> (\<forall>g. ap_guard s = Some g \<longrightarrow> g_closed g)"

lemma errors_unranked: "set es \<subseteq> {AppError} \<Longrightarrow> List.map_filter release_rank es = [] \<and> (\<forall>x. x \<noteq> AppError \<longrightarrow> count_list es x = 0)"
  by (induction es) (auto simp: map_filter_simps)

lemma close_rest_inv:
  assumes "before_ros s"
  shows "app_inv (snd (close_rest w rejected s)) \<and> ros_done (ap_closing (snd (close_rest w rejected s)))"
proof -
  obtain errors ad where r: "release_ros w s = (Inr (), s\<lparr>ap_adapter := ad, ap_log := ap_log s @ (if ap_adapter s = None then BackendCloses else AdapterCloses) # errors\<rparr>)"
    "set errors \<subseteq> {AppError}" "ad = None \<longleftrightarrow> ap_adapter s = None" "\<forall>a. ad = Some a \<longrightarrow> ad_state a = AClosed"
    using release_run by blast
  define X where "X = (if ap_adapter s = None then BackendCloses else AdapterCloses)"
  define rest where "rest = (if ap_server s then [ServerCloses] else if rejected then [AppError] else [])"
  define t where "t = s\<lparr>ap_adapter := ad, ap_log := ap_log s @ X # errors @ rest, ap_closing := (if ap_server s then ClosingServer rejected else AppClosed)\<rparr>"
  have t: "close_rest w rejected s = (Inr (), t)"
    using r(1) by (simp add: close_rest_def report_rejected_def app_runs t_def rest_def X_def)
  have "releases t = releases s @ 3 # (if ap_server s then [4] else [])"
    using errors_unranked [OF r(2)] by (simp add: releases_def t_def rest_def X_def map_filter_append map_filter_simps)
  then have "sorted (releases t) \<and> (\<forall>r \<in> set (releases t). r \<le> 4)" using assms by (fastforce simp: before_ros_def sorted_append)
  moreover have "count_list (ap_log t) x = count_list (ap_log s) x + (if x = X then 1 else 0) + (if x = ServerCloses \<and> ap_server s then 1 else 0)"
    if "x \<noteq> AppError" for x using errors_unranked [OF r(2)] that by (simp add: t_def rest_def)
  moreover have "ros_done (ap_closing t)" "peers_done (ap_closing t)" "stage_rank (ap_closing t) = 4" "ap_closing t \<noteq> NotClosed" "ap_guard t = ap_guard s" "ap_media t = ap_media s" "ap_adapter t = ad" "ap_server t = ap_server s"
    by (simp_all add: t_def)
  ultimately have "released_ok t" using assms r(3,4)
    by (simp add: released_ok_def before_ros_def X_def)
  moreover have "peers_ok t" using assms by (auto simp: before_ros_def peers_ok_def t_def)
  moreover have "start_ok t" using assms by (auto simp: before_ros_def start_ok_def t_def)
  ultimately show ?thesis using assms t by (simp add: app_inv_def before_ros_def t_def)
qed

lemma closing_started: "app_inv s \<Longrightarrow> ap_closing s \<noteq> NotClosed \<Longrightarrow> ap_closing s \<noteq> AppClosed \<Longrightarrow> (\<forall>e. ap_closing s \<noteq> CloseRejected e) \<Longrightarrow>
    ap_start s = AppRunning \<or> (\<exists>e. ap_start s = StartFailed e)"
  by (auto simp: app_inv_def start_ok_def split: startPhase.splits)

lemma settled_inv:
  assumes inv: "app_inv s"
  shows "app_inv (snd (app_peers_settled w rejected s))"
proof (cases "ap_closing s = ClosingPeers")
  case True
  have st: "ap_start s = AppRunning \<or> (\<exists>e. ap_start s = StartFailed e)" using closing_started [OF inv] True by simp
  define t where "t = (case ap_guard s of Some g \<Rightarrow> s\<lparr>ap_log := ap_log s @ [GuardClosed], ap_guard := Some (snd (guard_close g))\<rparr> | None \<Rightarrow> s)"
  have rel: "released_ok s" "peers_ok s" "ap_stopped s" using inv True by (simp_all add: app_inv_def)
  have t_releases: "releases t = releases s @ (if ap_guard s = None then [] else [1])"
    by (simp add: releases_def t_def map_filter_append map_filter_simps split: option.split)
  have t_fields: "ap_peers t = ap_peers s" "ap_media t = ap_media s" "ap_start t = ap_start s" "ap_stopped t = ap_stopped s" "ap_nextPeer t = ap_nextPeer s" "ap_config t = ap_config s"
    "ap_adapter t = ap_adapter s" "ap_server t = ap_server s" "ap_guard t = None \<longleftrightarrow> ap_guard s = None" "\<forall>g. ap_guard t = Some g \<longrightarrow> g_closed g"
    by (auto simp: t_def guard_close_def prog_run split: option.splits)
  have t_counts: "count_list (ap_log t) x = count_list (ap_log s) x + (if x = GuardClosed \<and> ap_guard s \<noteq> None then 1 else 0)" for x
    by (simp add: t_def split: option.split)
  have "sorted (releases s)" "\<forall>r \<in> set (releases s). r \<le> 0" using rel(1) True by (simp_all add: released_ok_def)
  then have sorted: "sorted (releases t)" "\<forall>r \<in> set (releases t). r \<le> 1" unfolding t_releases by (auto simp: sorted_append)
  have peers: "peers_ok t" using rel(2) t_fields by (auto simp: peers_ok_def t_def split: option.splits)
  have run: "snd (app_peers_settled w rejected s) = snd (if ap_media s
      then (Inr (), t\<lparr>ap_log := ap_log t @ [MediaCloses], ap_closing := ClosingMedia rejected\<rparr>) else close_rest w rejected t)"
    using True by (auto simp: app_peers_settled_def app_runs t_def split: option.split)
  show ?thesis
  proof (cases "ap_media s")
    case False
    have "before_ros t" using rel st False True sorted peers t_fields unfolding before_ros_def t_counts by (auto simp: released_ok_def)
    then show ?thesis using close_rest_inv False run by simp
  next
    case media: True
    define u where "u = t\<lparr>ap_log := ap_log t @ [MediaCloses], ap_closing := ClosingMedia rejected\<rparr>"
    have "releases u = releases t @ [2]" by (simp add: releases_def u_def map_filter_append map_filter_simps)
    then have "sorted (releases u) \<and> (\<forall>r \<in> set (releases u). r \<le> 2)" using sorted by (force simp: sorted_append)
    moreover have "count_list (ap_log u) x = count_list (ap_log t) x + (if x = MediaCloses then 1 else 0)" for x by (simp add: u_def)
    ultimately have "released_ok u" using rel(1) True media t_fields t_counts by (simp add: released_ok_def u_def)
    moreover have "peers_ok u" using peers by (auto simp: peers_ok_def u_def)
    moreover have "start_ok u" using st t_fields by (auto simp: start_ok_def u_def)
    ultimately show ?thesis using run media rel t_fields by (simp add: app_inv_def u_def)
  qed
next
  case False
  then show ?thesis using inv by (simp add: app_peers_settled_def app_runs)
qed

lemma media_closed_inv:
  assumes inv: "app_inv s"
  shows "app_inv (snd (app_media_closed w outcome s))"
proof (cases "\<exists>r. ap_closing s = ClosingMedia r")
  case True
  then obtain r where r: "ap_closing s = ClosingMedia r" by blast
  have st: "ap_start s = AppRunning \<or> (\<exists>e. ap_start s = StartFailed e)" using closing_started [OF inv] r by simp
  show ?thesis
  proof (cases outcome)
    case (Inl e)
    have "released_ok (s\<lparr>ap_closing := CloseRejected e\<rparr>)" using inv r by (simp add: app_inv_def released_ok_def releases_def)
    moreover have "start_ok (s\<lparr>ap_closing := CloseRejected e\<rparr>)" using st by (auto simp: start_ok_def)
    ultimately show ?thesis using inv r Inl by (simp add: app_media_closed_def app_runs app_inv_def peers_ok_def)
  next
    case (Inr x)
    have "before_ros s" using inv st r by (simp add: app_inv_def released_ok_def before_ros_def)
    then show ?thesis using close_rest_inv r Inr by (simp add: app_media_closed_def app_runs)
  qed
next
  case False
  then show ?thesis using inv by (simp add: app_media_closed_def app_runs split: teardown.split)
qed

lemma server_inv:
  assumes inv: "app_inv s"
  shows "app_inv (snd (app_server_closed outcome s))"
proof (cases "\<exists>r. ap_closing s = ClosingServer r")
  case True
  then obtain r where r: "ap_closing s = ClosingServer r" by blast
  have st: "ap_start s = AppRunning \<or> (\<exists>e. ap_start s = StartFailed e)" using closing_started [OF inv] r by simp
  define es where "es = (case outcome of Inl _ \<Rightarrow> [AppError] | Inr _ \<Rightarrow> []) @ (if r then [AppError] else [])"
  define t where "t = s\<lparr>ap_log := ap_log s @ es, ap_closing := AppClosed\<rparr>"
  have es: "set es \<subseteq> {AppError}" by (auto simp: es_def split: sum.splits)
  have "releases t = releases s" using errors_unranked [OF es] by (simp add: releases_def t_def map_filter_append)
  then have "released_ok t" using inv r errors_unranked [OF es] by (simp add: app_inv_def released_ok_def t_def)
  moreover have "peers_ok t" using inv by (auto simp: app_inv_def peers_ok_def t_def)
  moreover have "start_ok t" using st by (auto simp: start_ok_def t_def)
  ultimately have "app_inv t" using inv r by (simp add: app_inv_def t_def)
  moreover have "snd (app_server_closed outcome s) = t"
    using r by (cases outcome) (simp_all add: app_server_closed_def report_rejected_def app_runs t_def es_def)
  ultimately show ?thesis by simp
next
  case False
  then show ?thesis using inv by (simp add: app_server_closed_def app_runs split: teardown.split)
qed

section \<open>Starting\<close>

text \<open>While the parts are assembled nothing is released and no peer exists.\<close>

definition assembling :: "app \<Rightarrow> bool" where
  "assembling s \<longleftrightarrow> ap_closing s = NotClosed \<and> \<not> ap_stopped s \<and> ap_peers s = [] \<and> \<not> ap_server s \<and> Listen \<notin> set (ap_log s)
     \<and> releases s = [] \<and> (\<forall>x \<in> {GuardClosed, MediaCloses, AdapterCloses, BackendCloses, ServerCloses}. count_list (ap_log s) x = 0)"

lemma assembling_fields [simp]:
  "assembling (s\<lparr>ap_guard := g\<rparr>) = assembling s" "assembling (s\<lparr>ap_adapter := a\<rparr>) = assembling s" "assembling (s\<lparr>ap_media := m\<rparr>) = assembling s"
  "assembling (s\<lparr>ap_config := c\<rparr>) = assembling s" "assembling (s\<lparr>ap_start := st\<rparr>) = assembling s"
  by (simp_all add: assembling_def releases_def)

lemma assembling_emit: "x \<in> {NewMedia, ProbeMedia} \<Longrightarrow> assembling s \<Longrightarrow> assembling (s\<lparr>ap_log := ap_log s @ [x]\<rparr>)"
  by (auto simp: assembling_def releases_def map_filter_append map_filter_simps)

lemma assembling_ok: "assembling s \<Longrightarrow> released_ok s \<and> peers_ok s"
  by (simp add: assembling_def released_ok_def peers_ok_def)

lemma failed_start_inv: "assembling s \<Longrightarrow> app_inv (snd (start_failed e s))"
proof -
  assume "assembling s"
  then have "assembling (s\<lparr>ap_start := StartFailed e\<rparr>)" by simp
  from close_started [OF conjunct1 [OF assembling_ok [OF this]] conjunct2 [OF assembling_ok [OF this]]] show ?thesis
    using \<open>assembling s\<close> by (simp add: start_failed_def app_runs assembling_def)
qed

lemma listen_inv: "assembling s \<Longrightarrow> app_inv (s\<lparr>ap_guard := g, ap_adapter := ad, ap_log := ap_log s @ [Listen], ap_config := c, ap_start := AwaitServer\<rparr>)"
  by (simp add: assembling_def app_defs map_filter_append map_filter_simps)

lemma wp_inv_runtime: "wp m (\<lambda>_. P) (\<lambda>_. P) s \<longleftrightarrow> P (snd (m s))"
  by (auto simp: wp_def split: prod.split sum.split)

lemma assemble_wp: "assembling s \<Longrightarrow> wp (app_assemble w config registry) (\<lambda>_. app_inv) (\<lambda>_. assembling) s"
  unfolding app_assemble_def Let_def
  by (auto simp: wp_simps app_emit_def listen_inv split: sum.split prod.split)

lemma assembled_inv: "wp m (\<lambda>_. app_inv) (\<lambda>_. assembling) s \<Longrightarrow> app_inv (snd (catchE m start_failed s))"
  unfolding wp_inv_runtime [symmetric] wp_catchE by (erule wp_mono) (auto simp: wp_inv_runtime failed_start_inv)

lemma starting: "app_inv s \<Longrightarrow> ap_start s = AwaitBackend \<or> (\<exists>c r. ap_start s = AwaitProbe c r) \<Longrightarrow> assembling s"
proof -
  assume inv: "app_inv s" and "ap_start s = AwaitBackend \<or> (\<exists>c r. ap_start s = AwaitProbe c r)"
  then have "ap_closing s = NotClosed" "Listen \<notin> set (ap_log s)" "\<not> ap_server s" by (auto simp: app_inv_def start_ok_def)
  then show ?thesis using inv by (auto simp: app_inv_def released_ok_def peers_ok_def assembling_def)
qed

lemma initialized_inv:
  assumes inv: "app_inv s"
  shows "app_inv (snd (app_initialized w outcome s))"
proof (cases "ap_start s = AwaitBackend")
  case True
  have fresh: "assembling s" using starting [OF inv] True by blast
  show ?thesis
  proof (cases outcome)
    case (Inl e)
    have "ap_guard s = None \<and> ap_adapter s = None \<and> \<not> ap_media s" using inv True by (simp add: app_inv_def start_ok_def)
    moreover have "assembling (s\<lparr>ap_start := AppRejected e\<rparr>)" using fresh by simp
    ultimately have "app_inv (s\<lparr>ap_start := AppRejected e\<rparr>)" using fresh assembling_ok [of "s\<lparr>ap_start := AppRejected e\<rparr>"]
      unfolding app_inv_def start_ok_def assembling_def [of s] by simp
    then show ?thesis using True Inl by (simp add: app_initialized_def app_runs)
  next
    case (Inr x)
    have probing: "app_inv (t\<lparr>ap_media := True, ap_log := ap_log t @ [NewMedia, ProbeMedia], ap_config := c, ap_start := AwaitProbe c r\<rparr>)"
      if "assembling t" "ap_guard t = None" "ap_adapter t = None" for t c r
      using that by (simp add: assembling_def app_defs map_filter_append map_filter_simps)
    have empty: "ap_guard s = None" "ap_adapter s = None" using inv True by (simp_all add: app_inv_def start_ok_def)
    have "assembling (s\<lparr>ap_log := ap_log s @ [NewMedia]\<rparr>)" by (rule assembling_emit) (simp_all add: fresh)
    then show ?thesis using True Inr fresh probing [OF fresh empty] assemble_wp [OF fresh]
      by (auto simp: app_initialized_def bindE_run [of "getE f" for f] prog_run wp_simps app_emit_def intro!: assembled_inv split: sum.split option.split)
  qed
next
  case False
  then show ?thesis using inv by (simp add: app_initialized_def app_runs)
qed

lemma probed_inv:
  assumes inv: "app_inv s"
  shows "app_inv (snd (app_probed w outcome s))"
proof (cases "\<exists>c r. ap_start s = AwaitProbe c r")
  case True
  then obtain c r where cr: "ap_start s = AwaitProbe c r" by blast
  have fresh: "assembling s" using starting [OF inv] True by blast
  have "app_inv (snd (catchE (seqE (liftE outcome) (app_assemble w c r)) start_failed s))"
    by (rule assembled_inv) (use fresh assemble_wp [OF fresh] in \<open>auto simp: wp_simps split: sum.split\<close>)
  then show ?thesis using cr by (simp add: app_probed_def bindE_run prog_run)
next
  case False
  then show ?thesis using inv by (simp add: app_probed_def app_runs split: startPhase.split)
qed

lemma listening_inv:
  assumes inv: "app_inv s"
  shows "app_inv (snd (app_listening outcome s))"
proof (cases "ap_start s = AwaitServer")
  case True
  have st: "ap_closing s = NotClosed" "\<not> ap_server s" using inv True by (simp_all add: app_inv_def start_ok_def)
  have "app_inv (s\<lparr>ap_server := True, ap_start := AppRunning\<rparr>)" using inv st
    by (simp add: app_inv_def released_ok_def releases_def peers_ok_def start_ok_def)
  moreover have "app_inv (snd (start_failed e s))" for e
  proof -
    have "released_ok (s\<lparr>ap_start := StartFailed e\<rparr>)" "peers_ok (s\<lparr>ap_start := StartFailed e\<rparr>)"
      using inv by (simp_all add: app_inv_def released_ok_def releases_def peers_ok_def)
    from close_started [OF this] st show ?thesis by (simp add: start_failed_def app_runs)
  qed
  ultimately show ?thesis using True by (auto simp: app_listening_def app_runs split: sum.split)
next
  case False
  then show ?thesis using inv by (simp add: app_listening_def app_runs)
qed

lemma accept_run:
  obtains (full) "ap_stopped s \<or> int (length (ap_peers s)) \<ge> limits.maxPeers (cfg_limits (ap_config s))" "app_accept w made s = (Inl (Err ''peer_limit''), s)"
  | (failed) e where "\<not> ap_stopped s" "app_accept w made s = (Inl e, s\<lparr>ap_nextPeer := ap_nextPeer s + 1, ap_log := ap_log s @ [MakePeer (ap_nextPeer s)]\<rparr>)"
  | (added) "\<not> ap_stopped s" "int (length (ap_peers s)) < limits.maxPeers (cfg_limits (ap_config s))"
      "app_accept w made s = (Inr (ap_nextPeer s), s\<lparr>ap_nextPeer := ap_nextPeer s + 1, ap_log := ap_log s @ [MakePeer (ap_nextPeer s)], ap_peers := ap_peers s @ [ap_nextPeer s]\<rparr>)"
proof (cases "ap_stopped s \<or> int (length (ap_peers s)) \<ge> limits.maxPeers (cfg_limits (ap_config s))")
  case True
  then show thesis by (intro full) (auto simp: app_accept_def app_runs)
next
  case False
  show thesis
  proof (cases "aw_makePeer w (ap_log s @ [MakePeer (ap_nextPeer s)])")
    case (Inl e)
    then show thesis using False by (intro failed [of e]) (auto simp: app_accept_def app_runs)
  next
    case (Inr u)
    then show thesis using False
    proof (cases made)
      case (Inl e)
      then show thesis using False Inr by (intro failed [of e]) (simp_all add: app_accept_def app_runs not_le)
    next
      case made: (Inr y)
      then show thesis using False Inr by (intro added) (simp_all add: app_accept_def app_runs not_le)
    qed
  qed
qed

lemma log_inv: "app_inv s \<Longrightarrow> release_rank x = None \<Longrightarrow> x \<noteq> Listen \<Longrightarrow> app_inv (s\<lparr>ap_nextPeer := ap_nextPeer s + 1, ap_log := ap_log s @ [x]\<rparr>)"
proof -
  assume inv: "app_inv s" and x: "release_rank x = None" "x \<noteq> Listen"
  let ?t = "s\<lparr>ap_nextPeer := ap_nextPeer s + 1, ap_log := ap_log s @ [x]\<rparr>"
  have "releases ?t = releases s" using x by (simp add: releases_def map_filter_append map_filter_simps)
  moreover have "count_list (ap_log ?t) y = count_list (ap_log s) y" if "release_rank y \<noteq> None" for y using that x by auto
  ultimately have "released_ok ?t" using inv by (simp add: app_inv_def released_ok_def)
  moreover have "peers_ok ?t" using inv by (auto simp: app_inv_def peers_ok_def)
  moreover have "start_ok ?t" using inv x by (auto simp: app_inv_def start_ok_def split: startPhase.splits)
  ultimately show ?thesis using inv by (simp add: app_inv_def)
qed

lemma accept_app_inv:
  assumes inv: "app_inv s" and "Listen \<in> set (ap_log s)"
  shows "app_inv (snd (app_accept w made s))"
proof (cases rule: accept_run [of s w made])
  case (failed e)
  then show ?thesis using log_inv [OF inv, of "MakePeer (ap_nextPeer s)"] by simp
next
  case added
  let ?t = "s\<lparr>ap_nextPeer := ap_nextPeer s + 1, ap_log := ap_log s @ [MakePeer (ap_nextPeer s)]\<rparr>"
  have "app_inv ?t" using log_inv [OF inv, of "MakePeer (ap_nextPeer s)"] by simp
  moreover have "peers_ok (?t\<lparr>ap_peers := ap_peers s @ [ap_nextPeer s]\<rparr>)"
    using inv added(2) assms(2) by (auto simp: app_inv_def peers_ok_def)
  ultimately have "app_inv (?t\<lparr>ap_peers := ap_peers s @ [ap_nextPeer s]\<rparr>)"
    by (auto simp: app_inv_def released_ok_def releases_def start_ok_def split: startPhase.splits)
  then show ?thesis using added(3) by simp
qed (use inv in simp)

lemma gone_inv: "app_inv s \<Longrightarrow> app_inv (snd (peer_gone p s))"
proof -
  assume inv: "app_inv s"
  have le: "int (length (removeAll p (ap_peers s))) \<le> int (length (ap_peers s))" by (simp add: removeAll_filter_not_eq)
  have "removeAll p (ap_peers s) \<noteq> [] \<Longrightarrow> ap_peers s \<noteq> []" by auto
  then have "peers_ok (s\<lparr>ap_peers := removeAll p (ap_peers s)\<rparr>)"
    using inv by (auto simp: app_inv_def peers_ok_def distinct_removeAll intro: order_trans [OF le])
  then show ?thesis using inv by (auto simp: peer_gone_def prog_run app_inv_def released_ok_def releases_def start_ok_def split: startPhase.splits)
qed

lemma rethrows_app_inv:
  assumes inv: "app_inv s"
  shows "app_inv (snd (app_rethrows s))"
proof -
  have "app_inv (s\<lparr>ap_start := AppRejected e\<rparr>)" if "ap_closing s = AppClosed \<or> (\<exists>e. ap_closing s = CloseRejected e)" for e
    using inv that unfolding app_inv_def released_ok_def releases_def peers_ok_def start_ok_def by (auto simp del: split_paired_All)
  then show ?thesis using inv by (simp add: app_rethrows_def prog_run split: startPhase.split teardown.split)
qed

section \<open>Reachable processes\<close>

text \<open>\<open>close\<close> is returned to the caller once the process runs; requests arrive once it listens.\<close>

inductive app_step :: "appWorld \<Rightarrow> app \<Rightarrow> app \<Rightarrow> bool" for w :: appWorld where
  ap_initialized: "app_step w s (snd (app_initialized w outcome s))"
| ap_probed: "app_step w s (snd (app_probed w outcome s))"
| ap_listening: "app_step w s (snd (app_listening outcome s))"
| ap_accepted: "Listen \<in> set (ap_log s) \<Longrightarrow> app_step w s (snd (app_accept w made s))"
| ap_gone: "app_step w s (snd (peer_gone p s))"
| ap_close: "ap_start s = AppRunning \<Longrightarrow> app_step w s (snd (app_close s))"
| ap_settled: "app_step w s (snd (app_peers_settled w rejected s))"
| ap_media_closed: "app_step w s (snd (app_media_closed w outcome s))"
| ap_server_closed: "app_step w s (snd (app_server_closed outcome s))"
| ap_rethrown: "app_step w s (snd (app_rethrows s))"

inductive_simps app_step_simps: "app_step w s t"

definition app_start :: "appWorld \<Rightarrow> app \<Rightarrow> bool" where
  "app_start w s \<longleftrightarrow> (\<exists>st. app_begin w st = Inr s)"

lemma app_begin_inv: "app_begin w st = Inr s \<Longrightarrow> app_inv s"
proof -
  assume "app_begin w st = Inr s"
  then have "ap_log s = [Initialize]" "ap_closing s = NotClosed" "ap_start s = AwaitBackend" "ap_guard s = None" "ap_adapter s = None" "\<not> ap_media s"
    "\<not> ap_server s" "ap_peers s = []" "\<not> ap_stopped s"
    by (simp_all add: app_begin_def bindR_eq_Inr del: positiveLimit_Inr mapR.simps, auto)
  then show ?thesis by (simp add: app_defs map_filter_simps)
qed

lemma app_close_inv: "app_inv s \<Longrightarrow> ap_start s = AppRunning \<Longrightarrow> app_inv (snd (app_close s))"
  by (cases "ap_closing s = NotClosed") (simp_all add: close_started app_inv_def [of s], simp_all add: app_close_run app_inv_def)

lemma app_step_inv: "app_step w s t \<Longrightarrow> app_inv s \<Longrightarrow> app_inv t"
  by (induction rule: app_step.induct)
     (simp_all add: initialized_inv probed_inv listening_inv accept_app_inv gone_inv app_close_inv settled_inv media_closed_inv server_inv rethrows_app_inv)

interpretation process: invariant_system "app_start w" "app_step w" app_inv for w
proof unfold_locales
  show "app_start w s \<Longrightarrow> app_inv s" for s by (auto simp: app_start_def intro: app_begin_inv)
  show "app_inv s \<Longrightarrow> app_step w s t \<Longrightarrow> app_inv t" for s t by (rule app_step_inv)
qed

text \<open>A process that is closing makes no peer and is not started further.\<close>

lemma stopped_step:
  assumes "app_step w s t" and "app_inv s" and "ap_stopped s"
  shows "ap_stopped t \<and> filter (\<lambda>x. \<exists>p. x = MakePeer p) (ap_log t) = filter (\<lambda>x. \<exists>p. x = MakePeer p) (ap_log s)"
proof -
  have c: "ap_closing s \<noteq> NotClosed" using assms(2,3) by (simp add: app_inv_def)
  then have st: "ap_start s = AppRunning \<or> (\<exists>e. ap_start s = StartFailed e) \<or> (\<exists>e. ap_start s = AppRejected e)"
    using assms(2) by (auto simp: app_inv_def start_ok_def split: startPhase.splits)
  have rest: "ap_stopped (snd (close_rest w r u)) \<and> filter (\<lambda>x. \<exists>p. x = MakePeer p) (ap_log (snd (close_rest w r u))) = filter (\<lambda>x. \<exists>p. x = MakePeer p) (ap_log u)"
    if "ap_stopped u" for r u
  proof -
    obtain errors ad where e: "release_ros w u = (Inr (), u\<lparr>ap_adapter := ad, ap_log := ap_log u @ (if ap_adapter u = None then BackendCloses else AdapterCloses) # errors\<rparr>)"
      "set errors \<subseteq> {AppError}" using release_run by blast
    have "filter (\<lambda>x. \<exists>p. x = MakePeer p) errors = []" using e(2) by (auto simp: filter_empty_conv)
    then show ?thesis using that e(1) by (simp add: close_rest_def report_rejected_def app_runs)
  qed
  from assms(1) show ?thesis
  proof (induction rule: app_step.cases)
    case (ap_accepted s' made)
    then show ?case using assms(3) by (auto simp: app_accept_def app_runs)
  next
    case (ap_settled s' rejected)
    then show ?case using assms(3) rest
      by (cases "ap_guard s") (auto simp: app_peers_settled_def app_runs)
  next
    case (ap_media_closed s' outcome)
    then show ?case using assms(3) rest by (cases outcome) (auto simp: app_media_closed_def app_runs split: teardown.split)
  next
    case (ap_server_closed s' outcome)
    then show ?case using assms(3) by (cases outcome) (auto simp: app_server_closed_def report_rejected_def app_runs split: teardown.split)
  qed (use assms(3) c st in \<open>auto simp: app_initialized_def app_probed_def app_listening_def peer_gone_def app_close_run app_rethrows_def app_runs split: teardown.split\<close>)
qed

section \<open>Properties\<close>

text \<open>
  C15: The process never serves more peers than configured. In every reachable state there are at most
  \<open>maxPeers\<close> endpoints, all different; \<open>accept\<close> reserves the place before the negotiation starts, so that
  concurrent offers cannot exceed the limit, and only the closing of an endpoint frees it.
\<close>

theorem peers_limited:
  assumes "reachable (app_start w) (app_step w) s"
  shows "distinct (ap_peers s) \<and> (ap_peers s \<noteq> [] \<longrightarrow> int (length (ap_peers s)) \<le> limits.maxPeers (cfg_limits (ap_config s)))
    \<and> (case app_accept w made s of
         (Inr p, t) \<Rightarrow> \<not> ap_stopped s \<and> p \<notin> set (ap_peers s) \<and> ap_peers t = ap_peers s @ [p]
           \<and> int (length (ap_peers t)) \<le> limits.maxPeers (cfg_limits (ap_config s))
       | (Inl e, t) \<Rightarrow> ap_peers t = ap_peers s)"
proof -
  have inv: "app_inv s" using assms by (rule process.reachable_inv)
  then have "ap_nextPeer s \<notin> set (ap_peers s)" by (auto simp: app_inv_def peers_ok_def)
  then show ?thesis using inv by (cases rule: accept_run [of s w made]) (auto simp: app_inv_def peers_ok_def)
qed


text \<open>
  A start that fails leaves nothing behind. When \<open>startApp\<close> has rejected, either the backend could not be
  initialized and neither guard, adapter, media plane nor server was made, or \<open>close\<close> has completed or was
  itself rejected by the media plane; it is never rejected while something still waits to be closed.
\<close>

theorem failed_start_released:
  assumes "reachable (app_start w) (app_step w) s" and "ap_start s = AppRejected e"
  shows "ap_closing s = AppClosed \<or> (\<exists>e'. ap_closing s = CloseRejected e')
    \<or> (ap_guard s = None \<and> ap_adapter s = None \<and> \<not> ap_media s \<and> \<not> ap_server s)"
proof -
  have "start_ok s" using process.reachable_inv [OF assms(1)] by (simp add: app_inv_def)
  then show ?thesis using assms(2) by (auto simp: start_ok_def)
qed

text \<open>
  Closing is final: from a process that is closing, no step makes another peer, whatever requests still
  arrive.
\<close>

theorem stopped_makes_no_peer:
  assumes "reachable (app_start w) (app_step w) s" and "ap_stopped s" and "(app_step w)\<^sup>*\<^sup>* s t"
  shows "ap_stopped t \<and> filter (\<lambda>x. \<exists>p. x = MakePeer p) (ap_log t) = filter (\<lambda>x. \<exists>p. x = MakePeer p) (ap_log s)"
  using assms(3)
proof (induction rule: rtranclp_induct)
  case (step u t)
  have "reachable (app_start w) (app_step w) u" using step(1) assms(1) by (induction rule: rtranclp_induct) (blast intro: reach_step)+
  then have "app_inv u" by (rule process.reachable_inv)
  then show ?case using stopped_step [OF step(2)] step.IH by simp
qed (use assms(2) in simp)

text \<open>
  The one await of \<open>close\<close> outside a \<open>try\<close>: were the close of the media plane rejected, the ROS context and the
  server would stay open. The teardown relies on the sources, which catch the failures of their encoders.
\<close>

lemma media_failure_skips_ros:
  assumes "reachable (app_start w) (app_step w) s" and "ap_closing s = ClosingMedia rejected"
  shows "let t = snd (app_media_closed w (Inl e) s) in
     ap_closing t = CloseRejected e \<and> count_list (ap_log t) AdapterCloses = 0 \<and> count_list (ap_log t) BackendCloses = 0
     \<and> count_list (ap_log t) ServerCloses = 0 \<and> (\<forall>r x. snd (app_peers_settled w r t) = t \<and> snd (app_media_closed w x t) = t \<and> snd (app_close t) = t)"
proof -
  have "released_ok s" using process.reachable_inv [OF assms(1)] by (simp add: app_inv_def)
  then show ?thesis using assms(2)
    by (simp add: Let_def app_media_closed_def app_peers_settled_def app_close_run app_runs released_ok_def)
qed

section \<open>Witnesses\<close>

definition example_settings :: appSettings where
  "example_settings = \<lparr>as_credential = Str example_credential, as_configSource = [], as_maxConfigBytes = NumI 1000, as_subscribeTopics = [],
     as_publishScopes = [ustr ''s''], as_videoScopes = [], as_timeoutMs = NumI 1000, as_maxSdpBytes = NumI 1000, as_requestTimeoutMs = NumI 1000,
     as_maxHandles = NumI 4, as_maxRequests = NumI 4, as_requestTtlMs = NumI 1000, as_maxControlRateHz = NumI 10\<rparr>"

definition example_surface :: appWorld where
  "example_surface = \<lparr>aw_parses = (\<lambda>_. True), aw_toJS = (\<lambda>_. Inr Config.example_document), aw_resolveTopic = (\<lambda>t. t), aw_describe = (\<lambda>_. Inr example_fields),
     aw_sha256 = (\<lambda>b. b), aw_prefix = [], aw_clock = NumI 0, aw_ros = example_answers, aw_newMedia = Inr (), aw_backendClose = Inr (), aw_makePeer = (\<lambda>_. Inr ())\<rparr>"

lemma example_parsed:
  assumes "r = None \<or> r = Some (\<lambda>t. t)"
  shows "parseBridgeConfig (yaml_of (\<lambda>_. True) (\<lambda>_. Inr Config.example_document)) []
      \<lparr>availableTypes = [ustr ''p/msg/T''], o_maxConfigBytes = Number (NumI 1000), o_maxTopics = Undefined, resolveTopic = r\<rparr> = Inr Config.example_config"
proof -
  have "binding (ustr ''/a'') example_topic_entry \<lparr>availableTypes = [ustr ''p/msg/T''], o_maxConfigBytes = Number (NumI 1000), o_maxTopics = Undefined, resolveTopic = r\<rparr>
      = Inr Config.example_binding"
    using assms by (auto simp: binding_def Let_def example_topic_entry_def record_c_def is_object_def
      Config.example_binding_def string_c_def topicName_def example_names choice_def rosQos_def positive_int_def
      positive_def MAX_SAFE_INTEGER_def parseAccess_def parseGuard_def exclusive_def boolean_c_def failIf_def
      mk_obj_def mk_prop_def map_filter_def)
  then show ?thesis
    by (simp add: parseBridgeConfig_def Let_def Config.example_document_def record_c_def is_object_def Config.example_config_def
      string_c_def example_names positive_int_def positive_def MAX_SAFE_INTEGER_def parseLimits_def orDefault_def yaml_of_def
      readDocument_def utf8_length_def utf8_encode_def checkOutputs_def failIf_def mk_obj_def mk_prop_def map_filter_def)
qed

lemma example_inspected: "inspectConfig (\<lambda>_. True) (\<lambda>_. Inr Config.example_document) [] (NumI 1000) = Inr Config.example_config"
  using example_parsed [of None]
  by (simp add: inspectConfig_def failIf_def utf8_length_def utf8_encode_def Config.example_document_def record_c_def is_object_def example_topic_entry_def
      string_c_def example_names mk_obj_def mk_prop_def map_filter_def)

lemma example_begun: "\<exists>s. app_begin example_surface example_settings = Inr s \<and> ap_settings s = example_settings \<and> ap_types s = [ustr ''p/msg/T''] \<and> ap_start s = AwaitBackend
    \<and> ap_peers s = [] \<and> ap_nextPeer s = 0 \<and> ap_closing s = NotClosed \<and> \<not> ap_stopped s \<and> \<not> ap_media s \<and> \<not> ap_server s"
  using example_inspected
  by (simp add: app_begin_def example_surface_def example_settings_def positiveLimit_def MAX_SAFE_INTEGER_def example_credential_def failIf_def bindR_def
      Config.example_config_def Config.example_binding_def)

lemma answered_start:
  assumes "\<And>h. ra_create a h = Inr ()" and "\<And>h. ra_spin a h = Inr ()" and "ad_state s = ANew"
  shows "fst (adapter_start a s) = Inr ()"
proof -
  have one: "\<exists>t. create_entity a p u = (Inr (), t)" for p u
    by (cases p) (auto simp: create_entity_def Let_def adapter_runs ros_call_run assms(1) split: option.split)
  have "\<exists>t. forE (create_entity a) ps u = (Inr (), t)" for ps u
  proof (induction ps arbitrary: u)
    case (Cons p ps)
    obtain t where "create_entity a p u = (Inr (), t)" using one by blast
    then show ?case using Cons.IH [of t] by (simp add: adapter_runs)
  qed (simp add: prog_run)
  then obtain t where "forE (create_entity a) (ad_registrations s) s = (Inr (), t)" by blast
  then show ?thesis by (simp add: adapter_start_def adapter_runs ros_call_run assms)
qed

definition example_process :: app where
  "example_process = (case app_begin example_surface example_settings of Inr s \<Rightarrow> s)"

definition example_listening :: app where
  "example_listening = snd (app_initialized example_surface (Inr ()) example_process)"

lemma example_process_reach: "reachable (app_start example_surface) (app_step example_surface) example_process"
  using example_begun by (intro reach_start) (auto simp: app_start_def example_process_def)

lemma example_listening_reach: "reachable (app_start example_surface) (app_step example_surface) example_listening"
  unfolding example_listening_def by (rule reach_step [OF example_process_reach]) (rule ap_initialized)

lemma example_listening_state:
  "ap_start example_listening = AwaitServer \<and> Listen \<in> set (ap_log example_listening) \<and> ap_config example_listening = Config.example_config
   \<and> ap_closing example_listening = NotClosed \<and> ap_peers example_listening = [] \<and> \<not> ap_stopped example_listening \<and> ap_nextPeer example_listening = 0
   \<and> \<not> ap_media example_listening"
proof -
  obtain s where s: "example_process = s" "ap_settings s = example_settings" "ap_types s = [ustr ''p/msg/T'']" "ap_start s = AwaitBackend"
    "ap_peers s = []" "ap_nextPeer s = 0" "ap_closing s = NotClosed" "\<not> ap_stopped s" "\<not> ap_media s" "\<not> ap_server s" using example_begun by (auto simp: example_process_def)
  obtain regs where regs: "createRegistry (\<lambda>b. b) (\<lambda>_. Inr example_fields) Config.example_config = Inr regs" using example_registry by blast
  have js: "\<And>v. yaml_of (\<lambda>_. True) (\<lambda>_. Inr Config.example_document) [] = Inr v \<Longrightarrow> js_ok v" using Config.example_document_ok by (simp add: yaml_of_def)
  obtain ad where ad: "newAdapter (map (\<lambda>rb. \<lparr>rg_binding = rb_binding rb, rg_codec = rb_codec rb\<rparr>) regs) = Inr ad" "ad_state ad = ANew"
    using registry_starts [OF example_parsed js regs, of None] by auto
  obtain ad' where started: "adapter_start example_answers ad = (Inr (), ad')"
    using answered_start [OF _ _ ad(2), of example_answers] by (cases "adapter_start example_answers ad") (auto simp: example_answers_def)
  have video: "parseVideoConfig (yaml_of (\<lambda>_. True) (\<lambda>_. Inr Config.example_document)) [] topics 1000 = Inr None" for topics
    by (simp add: parseVideoConfig_def Let_def readDocument_def yaml_of_def utf8_length_def utf8_encode_def Config.example_document_def config_evals)
  obtain g where g: "newCommandGuard (NumI 2) (NumI 8) (NumI 250) True True [] (NumI 0) = Inr g"
    by (simp add: newCommandGuard_def positiveLimit_def MAX_SAFE_INTEGER_def failIf_def guard_now_def prog_simps bindR_def)
  obtain h where h: "createSignalingHandler (Str example_credential) (NumI 1000) (NumI 1000) (NumI 2) = Inr h"
    by (simp add: createSignalingHandler_def example_credential_def failIf_def bindR_def MAX_SAFE_INTEGER_def)
  show ?thesis
    using s regs ad started g h video example_parsed [of "Some (\<lambda>t. t)"]
    by (simp add: example_listening_def app_initialized_def app_assemble_def app_runs example_surface_def example_settings_def Config.example_config_def Let_def)
qed

definition example_serving :: app where
  "example_serving = snd (app_accept example_surface (Inr ()) (snd (app_listening (Inr ()) example_listening)))"

lemma example_serving_state: "ap_start example_serving = AppRunning \<and> ap_peers example_serving = [0] \<and> ap_closing example_serving = NotClosed \<and> ap_server example_serving \<and> \<not> ap_media example_serving"
  using example_listening_state
  by (simp add: example_serving_def app_listening_def app_accept_def app_runs example_surface_def Config.example_config_def)

lemma example_serving_reach: "reachable (app_start example_surface) (app_step example_surface) example_serving"
proof -
  have "Listen \<in> set (ap_log (snd (app_listening (Inr ()) example_listening)))" using example_listening_state by (simp add: app_listening_def app_runs)
  note listen = this
  have r: "reachable (app_start example_surface) (app_step example_surface) (snd (app_listening (Inr ()) example_listening))"
    by (rule reach_step [OF example_listening_reach]) (rule ap_listening)
  show ?thesis unfolding example_serving_def by (rule reach_step [OF r]) (rule ap_accepted [OF listen])
qed

definition example_closed :: app where
  "example_closed = snd (app_server_closed (Inr ()) (snd (app_peers_settled example_surface False (snd (app_close example_serving)))))"

lemma example_closed_reach: "reachable (app_start example_surface) (app_step example_surface) example_closed"
proof -
  have st: "ap_start example_serving = AppRunning" using example_serving_state by simp
  have "reachable (app_start example_surface) (app_step example_surface) (snd (app_peers_settled example_surface False (snd (app_close example_serving))))"
    by (rule reach_step [OF reach_step [OF example_serving_reach ap_close [OF st]]]) (rule ap_settled)
  then show ?thesis unfolding example_closed_def by (rule reach_step) (rule ap_server_closed)
qed

lemma example_closed_state: "ap_closing example_closed = AppClosed"
proof -
  define u where "u = snd (app_close example_serving)"
  have u: "ap_closing u = ClosingPeers" "\<not> ap_media u" "ap_server u" using example_serving_state by (simp_all add: u_def app_close_run)
  have "app_inv u" unfolding u_def using process.reachable_inv [OF example_serving_reach] example_serving_state by (intro app_close_inv) simp_all
  define v where "v = (case ap_guard u of Some g \<Rightarrow> u\<lparr>ap_log := ap_log u @ [GuardClosed], ap_guard := Some (snd (guard_close g))\<rparr> | None \<Rightarrow> u)"
  obtain errors ad where r: "release_ros example_surface v = (Inr (), v\<lparr>ap_adapter := ad, ap_log := ap_log v @ (if ap_adapter v = None then BackendCloses else AdapterCloses) # errors\<rparr>)"
    using release_run by blast
  have "ap_server v" using u(3) by (simp add: v_def split: option.split)
  moreover have "snd (app_peers_settled example_surface False u) = snd (close_rest example_surface False v)"
    using u by (auto simp: app_peers_settled_def app_runs v_def split: option.split)
  ultimately have "ap_closing (snd (app_peers_settled example_surface False u)) = ClosingServer False"
    using r by (simp add: close_rest_def app_runs)
  then show ?thesis by (simp add: example_closed_def u_def [symmetric] app_server_closed_def report_rejected_def app_runs)
qed

theorem peers_limited_witness:
  "distinct (ap_peers example_serving) \<and> int (length (ap_peers example_serving)) \<le> limits.maxPeers (cfg_limits (ap_config example_serving))"
  using peers_limited [OF example_serving_reach] example_serving_state by simp


theorem failed_start_released_witness:
  "let s = snd (app_initialized example_surface (Inl Foreign) example_process) in
     ap_start s = AppRejected Foreign \<and> (ap_closing s = AppClosed \<or> (\<exists>e'. ap_closing s = CloseRejected e') \<or> (ap_guard s = None \<and> ap_adapter s = None \<and> \<not> ap_media s \<and> \<not> ap_server s))"
proof -
  let ?s = "snd (app_initialized example_surface (Inl Foreign) example_process)"
  have "ap_start example_process = AwaitBackend" using example_begun by (auto simp: example_process_def)
  then have "ap_start ?s = AppRejected Foreign" by (simp add: app_initialized_def app_runs)
  moreover have "reachable (app_start example_surface) (app_step example_surface) ?s" by (rule reach_step [OF example_process_reach]) (rule ap_initialized)
  ultimately show ?thesis using failed_start_released [of example_surface ?s Foreign] by (simp add: Let_def)
qed

theorem stopped_makes_no_peer_witness:
  "let s = snd (app_close example_serving) in
     filter (\<lambda>x. \<exists>p. x = MakePeer p) (ap_log (snd (app_accept example_surface (Inr ()) s))) = filter (\<lambda>x. \<exists>p. x = MakePeer p) (ap_log s)"
proof -
  define s where "s = snd (app_close example_serving)"
  have st: "ap_start example_serving = AppRunning" using example_serving_state by simp
  have s: "reachable (app_start example_surface) (app_step example_surface) s" unfolding s_def by (rule reach_step [OF example_serving_reach ap_close [OF st]])
  have stop: "ap_stopped s" using example_serving_state by (simp add: s_def app_close_run)
  have "Listen \<in> set (ap_log example_serving)" using process.reachable_inv [OF example_serving_reach] example_serving_state by (simp add: app_inv_def peers_ok_def)
  then have "Listen \<in> set (ap_log s)" using example_serving_state by (simp add: s_def app_close_run)
  then have "(app_step example_surface)\<^sup>*\<^sup>* s (snd (app_accept example_surface (Inr ()) s))" by (intro r_into_rtranclp ap_accepted)
  from stopped_makes_no_peer [OF s stop this] show ?thesis by (simp add: Let_def s_def)
qed

end
