(* ===== verification/Representation.thy ===== *)
theory Representation
  imports Codec
begin

text \<open>
  \<open>ros/representation.ts\<close>: between the values of the native addon (64-bit integers as numbers, \<open>bigint\<close>s or
  decimal strings, bytes as arrays of numbers) and those of the codec. A representation is its codec: the
  limits read from the overrides are those the codec has accepted. The descriptor is walked as the snapshot
  of the codec, the counter \<open>visited\<close> is the state.
\<close>

section \<open>Conversion\<close>

definition visit_native :: "codecOptions \<Rightarrow> (int, unit) prog" where
  "visit_native opt =
     seqE (modE (\<lambda>n. n + 1)) (bindE (getE (\<lambda>n. n)) (\<lambda>n. throwIf (n > maxNodes opt) (TypeErr ''native_node_limit'')))"

text \<open>The codecs made on the way, with the options that are not overridden.\<close>

definition default_options :: codecOptions where
  "default_options =
     \<lparr>maxDepth = 32, maxArrayLength = 4096, maxStringBytes = 16384, maxByteLength = 16384, maxNodes = 32768, allowNonFinite = True\<rparr>"

definition scalar_codec :: "bool \<Rightarrow> codec" where
  "scalar_codec sgnd = \<lparr>cd_options = default_options, cd_schema = FInteger 64 sgnd\<rparr>"

definition bytes_codec :: "lengthBounds \<Rightarrow> codecOptions \<Rightarrow> codec" where
  "bytes_codec b opt =
     \<lparr>cd_options = default_options\<lparr>maxArrayLength := maxByteLength opt\<rparr>, cd_schema = FArray b (FInteger 8 False)\<rparr>"

definition int64_from :: "bool \<Rightarrow> jsval \<Rightarrow> jsval result" where
  "int64_from sgnd v =
     (case v of
        Number n \<Rightarrow> if isSafeInteger n then Inr (BigInt (num_int n)) else Inl (TypeErr ''unsafe_native_int64'')
      | BigInt i \<Rightarrow> bindR (codec_encode (scalar_codec sgnd) (BigInt i)) (codec_decode (scalar_codec sgnd))
      | _ \<Rightarrow> codec_decode (scalar_codec sgnd) v)"

text \<open>\<open>Array.from\<close> of a \<open>Uint8Array\<close>; no other value gets here from the codec.\<close>

definition byte_number :: "8 word \<Rightarrow> jsval" where
  "byte_number x = Number (NumI (uint x))"

fun bytes_to :: "jsval \<Rightarrow> jsval result" where
  "bytes_to (Bytes bs) = Inr (mk_arr (map byte_number bs))"
| "bytes_to _ = Inl (TypeErr ''not a byte array'')"

text \<open>\<open>Uint8Array.from\<close> of an array of numbers\<close>

fun number_byte :: "jsval slot \<Rightarrow> 8 word" where
  "number_byte (Data (Number n)) = of_int (num_int n)"
| "number_byte _ = 0"

definition bytes_from :: "lengthBounds \<Rightarrow> codecOptions \<Rightarrow> jsval \<Rightarrow> jsval result" where
  "bytes_from b opt v =
     bindR (codec_encode (bytes_codec b opt) v) (\<lambda>w.
     case w of Arr slots _ \<Rightarrow> Inr (Bytes (map number_byte slots)) | _ \<Rightarrow> Inr (Bytes []))"

fun own_data :: "jsval slot \<Rightarrow> jsval result" where
  "own_data (Data v) = Inr v"
| "own_data _ = Inl (TypeErr ''invalid_native_array_property'')"

definition native_array :: "codecOptions \<Rightarrow> (jsval \<Rightarrow> (int, jsval) prog) \<Rightarrow> jsval \<Rightarrow> (int, jsval) prog" where
  "native_array opt f v =
     (case v of
        Arr slots extra \<Rightarrow>
          if int (length slots) > maxArrayLength opt then throwE (TypeErr ''invalid_native_array'')
          else if array_own_keys slots extra \<noteq> length slots then throwE (TypeErr ''invalid_native_array_keys'')
          else bindE (mapE (\<lambda>s. bindE (liftE (own_data s)) f) slots) (\<lambda>vs. retE (mk_arr vs))
      | _ \<Rightarrow> throwE (TypeErr ''invalid_native_array''))"

text \<open>A field the descriptor does not have is kept, for the codec to refuse it.\<close>

definition native_object :: "(ustring \<times> (jsval \<Rightarrow> (int, jsval) prog)) list \<Rightarrow> jsval \<Rightarrow> (int, jsval) prog" where
  "native_object fs v =
     bindE (liftE (record_v v)) (\<lambda>object.
     bindE (mapE (\<lambda>k. case map_of fs k of
                         Some f \<Rightarrow> bindE (f (get_prop object k)) (\<lambda>w. retE (k, w))
                       | None \<Rightarrow> retE (k, get_prop object k)) (object_keys object)) (\<lambda>kvs.
     retE (mk_obj kvs)))"

primrec native_convert :: "codecOptions \<Rightarrow> bool \<Rightarrow> field \<Rightarrow> jsval \<Rightarrow> (int, jsval) prog" where
  "native_convert opt from_ros (FInteger bits sgnd) =
     (\<lambda>v. seqE (visit_native opt) (if bits = 64 \<and> from_ros then liftE (int64_from sgnd v) else retE v))"
| "native_convert opt from_ros (FBytes b) =
     (\<lambda>v. seqE (visit_native opt) (liftE (if from_ros then bytes_from b opt v else bytes_to v)))"
| "native_convert opt from_ros (FArray b el) =
     (\<lambda>v. seqE (visit_native opt) (native_array opt (native_convert opt from_ros el) v))"
| "native_convert opt from_ros (FObject fs) =
     (\<lambda>v. seqE (visit_native opt) (native_object (map (map_prod id (native_convert opt from_ros)) fs) v))"
| "native_convert opt from_ros FBoolean = (\<lambda>v. seqE (visit_native opt) (retE v))"
| "native_convert opt from_ros (FString b) = (\<lambda>v. seqE (visit_native opt) (retE v))"
| "native_convert opt from_ros (FFloat bits) = (\<lambda>v. seqE (visit_native opt) (retE v))"

definition rosRepresentation :: "jsval \<Rightarrow> jsval \<Rightarrow> codec result" where
  "rosRepresentation descriptor overrides = createCodec descriptor overrides"

definition from_native :: "codec \<Rightarrow> jsval \<Rightarrow> jsval result" where
  "from_native c native =
     bindR (fst (native_convert (cd_options c) True (cd_schema c) native 0)) (\<lambda>v.
     bindR (codec_encode c v) (codec_decode c))"

definition to_native :: "codec \<Rightarrow> jsval \<Rightarrow> jsval result" where
  "to_native c native =
     bindR (bindR (codec_encode c native) (codec_decode c)) (\<lambda>v.
     fst (native_convert (cd_options c) False (cd_schema c) v 0))"

section \<open>The codecs made on the way\<close>

definition bound_prop :: "int option \<Rightarrow> jsval" where
  "bound_prop l = (case l of None \<Rightarrow> Undefined | Some i \<Rightarrow> Number (NumI i))"

lemma option_name: "\<not> array_index (ustr ''maxArrayLength'')" "ustr ''maxArrayLength'' \<in> set option_names"
  by (simp_all add: array_index_def rx_match_iff index_rx_def rx_simps ustr_Cons range_cls_def unat_code_unit option_names_def)

lemma bytes_codec_created:
  assumes "bounds_ok b" and "codec_options_ok opt"
    and "\<And>l. lb_length b = Some l \<Longrightarrow> l \<le> MAX_SAFE_INTEGER" and "\<And>m. lb_maxLength b = Some m \<Longrightarrow> m \<le> MAX_SAFE_INTEGER"
  shows "createCodec
     (mk_obj [(ustr ''kind'', Str (ustr ''array'')),
        (ustr ''element'', mk_obj [(ustr ''kind'', Str (ustr ''integer'')), (ustr ''bits'', Number (NumI 8)), (ustr ''signed'', Bool False)]),
        (ustr ''length'', bound_prop (lb_length b)), (ustr ''maxLength'', bound_prop (lb_maxLength b))])
     (mk_obj [(ustr ''maxArrayLength'', Number (NumI (maxByteLength opt)))]) = Inr (bytes_codec b opt)"
  using assms
  by (cases b; cases "lb_length b"; cases "lb_maxLength b")
     (simp_all add: createCodec_def codecOptions_v_def limit_option_def snapshotSchema_def numeral_eq_Suc prog_simps count_node_def
      is_number_def lengths_def length_option_def MAX_SAFE_INTEGER_def bytes_codec_def default_options_def bound_prop_def bounds_ok_def
      codec_options_ok_def option_name)


section \<open>The way back\<close>

lemma visit_native_run: "visit_native opt n = (if n + 1 \<le> maxNodes opt then (Inr (), n + 1) else (Inl (TypeErr ''native_node_limit''), n + 1))"
  by (simp add: visit_native_def prog_simps)

lemma count_node_run: "count_node limit reason n = (if n + 1 \<le> limit then (Inr (), n + 1) else (Inl (invalid reason), n + 1))"
  by (simp add: count_node_def prog_simps)

lemma byte_scalar: "integer_v 8 False (byte_number x) True = Inr (byte_number x)"
proof -
  have small: "integer_v 8 False (Number (NumI i)) True = Inr (Number (NumI i))" if "0 \<le> i" "i < 256" for i
    using that by (simp add: integer_v_def parse_integer_def int_min_def int_max_def)
  have "uint x < 256" using uint_lt2p [of x] by simp
  then show ?thesis unfolding byte_number_def by (intro small) simp_all
qed

lemma number_byte_number: "number_byte (Data (byte_number x)) = x"
proof -
  have i: "num_int (NumI i) = i" for i by simp
  show ?thesis unfolding byte_number_def number_byte.simps i by simp
qed

lemma bytes_visited:
  "n + int (length bs) \<le> maxNodes o' \<Longrightarrow>
     mapE (\<lambda>s. bindE (liftE (slot_data s)) (convert_visit (Suc k) o' True (FInteger 8 False))) (map (\<lambda>x. Data (byte_number x)) bs) n
       = (Inr (map byte_number bs), n + int (length bs))"
  by (induction bs arbitrary: n) (simp_all add: prog_simps count_node_run byte_scalar)

lemma bytes_encoded:
  assumes "fits (int (length bs)) b (maxByteLength opt)" and "length bs < 32768"
  shows "codec_encode (bytes_codec b opt) (mk_arr (map byte_number bs)) = Inr (mk_arr (map byte_number bs))"
proof -
  define o' where "o' = default_options\<lparr>maxArrayLength := maxByteLength opt\<rparr>"
  have o': "maxNodes o' = 32768" "maxArrayLength o' = maxByteLength opt" "maxDepth o' = 32" by (simp_all add: o'_def default_options_def)
  obtain k where k: "nat (maxDepth o' + 1) = Suc (Suc k)" using o'(3) that [of 31] by simp
  have run: "mapE (\<lambda>s. bindE (liftE (slot_data s)) (convert_visit (Suc k) o' True (FInteger 8 False))) (map (\<lambda>x. Data (byte_number x)) bs) 1
       = (Inr (map byte_number bs), 1 + int (length bs))"
    using assms(2) o'(1) by (intro bytes_visited) simp
  have len: "array_own_keys (map (\<lambda>x. Data (byte_number x)) bs) 0 = length bs"
    using array_own_keys_Data [of "map byte_number bs"] by (simp add: comp_def)
  have "checkLength (int (length bs)) b (maxByteLength opt) = Inr ()" using assms(1) by simp
  then show ?thesis
    using run len o'(1,2)
    by (simp add: codec_encode_def convert_def bytes_codec_def o'_def [symmetric] k prog_simps count_node_run mk_arr_def comp_def del: checkLength_within)
qed

lemma bytes_back:
  assumes "fits (int (length bs)) b (maxByteLength opt)" and "maxByteLength opt < 32768"
  shows "bytes_from b opt (mk_arr (map byte_number bs)) = Inr (Bytes bs)"
proof -
  have "length bs < 32768" using assms by (simp add: fits_def)
  then show ?thesis
    using bytes_encoded [OF assms(1)] by (simp add: bytes_from_def mk_arr_def comp_def number_byte_number)
qed

lemma int64_back:
  assumes "int_min 64 sgnd \<le> i" and "i \<le> int_max 64 sgnd"
  shows "int64_from sgnd (BigInt i) = Inr (BigInt i)"
proof -
  have e: "integer_v 64 sgnd (BigInt i) True = Inr (Str (ustr (show_int i)))" using assms by (simp add: integer_v_def parse_integer_def)
  then obtain v' where v': "integer_v 64 sgnd (Str (ustr (show_int i))) False = Inr v'" "integer_v 64 sgnd v' True = Inr (Str (ustr (show_int i)))"
    using integer_roundtrip [of 64 sgnd "BigInt i" True] by auto
  then obtain j where "v' = BigInt j" "show_int j = show_int i" by (cases v') (auto simp: integer_v_def parse_integer_def)
  then have "v' = BigInt i" by (metis read_int_show)
  then show ?thesis
    using e v'(1) by (simp add: int64_from_def codec_encode_def codec_decode_def convert_def scalar_codec_def default_options_def
        numeral_eq_Suc prog_simps count_node_run)
qed

text \<open>A value the codec has decoded is turned into a native one, from which it is recovered.\<close>

definition recovers :: "codecOptions \<Rightarrow> field \<Rightarrow> jsval \<Rightarrow> int \<Rightarrow> int \<Rightarrow> bool" where
  "recovers opt f v n n' \<longleftrightarrow>
     (\<exists>r. native_convert opt False f v n = (Inr r, n') \<and> native_convert opt True f r n = (Inr v, n'))"

abbreviation native_fields ::
    "(ustring \<Rightarrow> (jsval \<Rightarrow> (int, jsval) prog) option) \<Rightarrow> jsval \<Rightarrow> ustring list \<Rightarrow> (int, (ustring \<times> jsval) list) prog" where
  "native_fields F object \<equiv> mapE (\<lambda>k. case F k of
       Some f \<Rightarrow> bindE (f (get_prop object k)) (\<lambda>w. retE (k, w)) | None \<Rightarrow> retE (k, get_prop object k))"

definition fields_recover :: "codecOptions \<Rightarrow> (ustring \<times> field) list \<Rightarrow> (ustring \<times> jsval) list \<Rightarrow> int \<Rightarrow> int \<Rightarrow> bool" where
  "fields_recover opt fs kvs n n' \<longleftrightarrow> (\<exists>rs. keys rs = keys fs \<and> keys kvs = keys fs
    \<and> (\<forall>F object'. has_entries object' kvs \<longrightarrow> (\<forall>(k, g) \<in> set fs. F k = Some (native_convert opt False g)) \<longrightarrow>
         native_fields F object' (keys fs) n = (Inr rs, n'))
    \<and> (\<forall>F object'. has_entries object' rs \<longrightarrow> (\<forall>(k, g) \<in> set fs. F k = Some (native_convert opt True g)) \<longrightarrow>
         native_fields F object' (keys fs) n = (Inr kvs, n')))"

lemma native_fields_recover:
  assumes "\<And>name g v w n n'. (name, g) \<in> set fs \<Longrightarrow> convert_visit d opt False g w n = (Inr v, n') \<Longrightarrow> recovers opt g v n n'"
    and "visit_fields d opt False object fs n = (Inr kvs, n')"
  shows "fields_recover opt fs kvs n n'"
  using assms
  unfolding fields_recover_def
proof (induction fs arbitrary: n kvs)
  case Nil
  then show ?case by (intro exI [of _ "[]"]) (auto simp: run_Inr)
next
  case (Cons p fs)
  obtain name g where p: "p = (name, g)" by fastforce
  from Cons.prems(2) obtain w m rest where w: "convert_visit d opt False g (get_prop object name) n = (Inr w, m)"
    and rest: "visit_fields d opt False object fs m = (Inr rest, n')" and kvs: "kvs = (name, w) # rest"
    unfolding p visit_fields_Cons by blast
  from Cons.prems(1) [of name g, OF _ w] obtain r where
    r: "native_convert opt False g w n = (Inr r, m)" "native_convert opt True g r n = (Inr w, m)"
    using p by (auto simp: recovers_def)
  obtain rs where k: "keys rs = keys fs" "keys rest = keys fs"
    "\<And>F object'. has_entries object' rest \<Longrightarrow> \<forall>(k, g) \<in> set fs. F k = Some (native_convert opt False g) \<Longrightarrow>
       native_fields F object' (keys fs) m = (Inr rs, n')"
    "\<And>F object'. has_entries object' rs \<Longrightarrow> \<forall>(k, g) \<in> set fs. F k = Some (native_convert opt True g) \<Longrightarrow>
       native_fields F object' (keys fs) m = (Inr rest, n')"
    using Cons.IH [OF _ rest] Cons.prems(1) [OF list.set_intros(2)] by blast
  show ?case
  proof (intro exI [of _ "(name, r) # rs"] conjI allI impI)
    show "keys ((name, r) # rs) = keys (p # fs)" "keys kvs = keys (p # fs)" using k(1,2) by (simp_all add: p kvs)
    fix F object'
    {
      assume "has_entries object' kvs" and "\<forall>(k, g) \<in> set (p # fs). F k = Some (native_convert opt False g)"
      then have "F name = Some (native_convert opt False g)" "get_prop object' name = w" "native_fields F object' (keys fs) m = (Inr rs, n')"
        using k(3) [of object' F] by (simp_all add: p kvs has_entries_def)
      then show "native_fields F object' (keys (p # fs)) n = (Inr ((name, r) # rs), n')"
        using r(1) by (simp add: p mapE_Cons_Inr run_Inr del: mapE.simps)
    next
      assume "has_entries object' ((name, r) # rs)" and "\<forall>(k, g) \<in> set (p # fs). F k = Some (native_convert opt True g)"
      then have "F name = Some (native_convert opt True g)" "get_prop object' name = r" "native_fields F object' (keys fs) m = (Inr rest, n')"
        using k(4) [of object' F] by (simp_all add: p has_entries_def)
      then show "native_fields F object' (keys (p # fs)) n = (Inr kvs, n')"
        using r(2) by (simp add: p kvs mapE_Cons_Inr run_Inr del: mapE.simps)
    }
  qed
qed


lemma map_of_convert: "map_of (map (map_prod id h) fs) k = map_option h (map_of fs k)"
  by (induction fs) auto

lemma convert_recovers:
  assumes "maxByteLength opt < 32768" and "field_ok f" and "convert_visit d opt False f w n = (Inr v, n')"
  shows "recovers opt f v n n'"
  using assms(2,3)
proof (induction d arbitrary: f w v n n')
  case 0
  then show ?case by (simp add: run_Inr)
next
  case (Suc d)
  have n: "n + 1 \<le> maxNodes opt" using Suc.prems(2) by (auto simp: run_Inr count_node_run split: if_splits simp del: mapE.simps)
  then have visit: "visit_native opt n = (Inr (), n + 1)" and cnt: "count_node (maxNodes opt) ''payload complexity'' n = (Inr (), n + 1)"
    by (simp_all add: visit_native_run count_node_run)
  show ?case
  proof (cases f)
    case (FArray b el)
    with Suc.prems cnt obtain slots extra vs where v: "v = mk_arr vs" and len: "fits (int (length slots)) b (maxArrayLength opt)"
      and run: "mapE (\<lambda>s. bindE (liftE (slot_data s)) (convert_visit d opt False el)) slots (n + 1) = (Inr vs, n')"
      by (cases w) (auto simp: run_Inr simp del: mapE.simps)
    have "\<exists>xs. mapE (native_convert opt False el) vs (n + 1) = (Inr xs, n') \<and> mapE (native_convert opt True el) xs (n + 1) = (Inr vs, n')"
      using Suc.prems(1) FArray
      by (intro mapE_roundtrip [OF _ run]) (auto simp: run_Inr recovers_def [symmetric] intro: Suc.IH)
    then obtain xs where xs: "mapE (native_convert opt False el) vs (n + 1) = (Inr xs, n')"
        "mapE (native_convert opt True el) xs (n + 1) = (Inr vs, n')" by blast
    have "length vs = length slots" "length xs = length slots" using mapE_length [OF run] mapE_length [OF xs(1)] by simp_all
    then have "int (length vs) \<le> maxArrayLength opt" "int (length xs) \<le> maxArrayLength opt" using len by (simp_all add: fits_def)
    then show ?thesis
      using xs visit unfolding recovers_def
      by (intro exI [of _ "mk_arr xs"]) (simp add: FArray v native_array_def mk_arr_def prog_simps mapE_map)
  next
    case (FObject fs)
    with Suc.prems cnt obtain object kvs where v: "v = mk_obj kvs" and run: "visit_fields d opt False object fs (n + 1) = (Inr kvs, n')"
      by (auto simp: run_Inr simp del: mapE.simps)
    have rec: "recovers opt g v n n'" if "(name, g) \<in> set fs" "convert_visit d opt False g w n = (Inr v, n')" for name g v w n n'
      using Suc.prems(1) FObject that by (intro Suc.IH) (auto simp: list_all_iff)
    have recov: "fields_recover opt fs kvs (n + 1) n'" by (rule native_fields_recover [OF _ run]) (rule rec)
    obtain rs where k: "keys rs = keys fs" "keys kvs = keys fs"
      and fwd: "\<And>F object'. has_entries object' kvs \<Longrightarrow> \<forall>(k, g) \<in> set fs. F k = Some (native_convert opt False g) \<Longrightarrow>
         native_fields F object' (keys fs) (n + 1) = (Inr rs, n')"
      and bwd: "\<And>F object'. has_entries object' rs \<Longrightarrow> \<forall>(k, g) \<in> set fs. F k = Some (native_convert opt True g) \<Longrightarrow>
         native_fields F object' (keys fs) (n + 1) = (Inr kvs, n')"
      using recov unfolding fields_recover_def by blast
    have dist: "distinct (keys fs)" using Suc.prems(1) FObject by simp
    have F: "\<forall>(k, g) \<in> set fs. map_of (map (map_prod id (native_convert opt x)) fs) k = Some (native_convert opt x g)" for x
      using dist by (auto simp: map_of_convert)
    have "has_entries (mk_obj kvs) kvs" "has_entries (mk_obj rs) rs" using dist k by (simp_all add: has_entries_mk_obj)
    note go = fwd [OF this(1) F] bwd [OF this(2) F]
    show ?thesis
      using go visit k unfolding recovers_def
      by (intro exI [of _ "mk_obj rs"]) (simp add: FObject v native_object_def prog_simps)
  next
    case (FInteger bits sgnd)
    then have "typed opt False f v" using visit_typed [OF Suc.prems(2)] by simp
    moreover have "n' = n + 1" using Suc.prems(2) cnt FInteger by (auto simp: run_Inr)
    ultimately show ?thesis
      using visit int64_back [of sgnd] unfolding recovers_def FInteger
      by (intro exI [of _ v]) (auto elim!: typed.cases simp: prog_simps)
  next
    case (FBytes b)
    then have "typed opt False (FBytes b) v" using visit_typed [OF Suc.prems(2)] by simp
    then obtain bs where bs: "v = Bytes bs" "fits (int (length bs)) b (maxByteLength opt)" by (auto elim: typed.cases)
    moreover have "n' = n + 1" using Suc.prems(2) cnt FBytes by (auto simp: run_Inr)
    ultimately show ?thesis
      using visit bytes_back [OF bs(2) assms(1)] unfolding recovers_def FBytes
      by (intro exI [of _ "mk_arr (map byte_number bs)"]) (simp add: prog_simps)
  qed (use Suc.prems(2) cnt visit in \<open>auto simp: run_Inr recovers_def prog_simps\<close>)
qed


section \<open>Beyond the default limits\<close>

lemma bytes_overflow:
  assumes "n \<le> maxNodes o'" and "maxNodes o' < n + int (length bs)"
  shows "fst (mapE (\<lambda>s. bindE (liftE (slot_data s)) (convert_visit (Suc k) o' True (FInteger 8 False))) (map (\<lambda>x. Data (byte_number x)) bs) n)
    = Inl (invalid ''payload complexity'')"
  using assms
proof (induction bs arbitrary: n)
  case (Cons x bs)
  then show ?case
    by (cases "n + 1 \<le> maxNodes o'") (simp_all add: prog_simps count_node_run byte_scalar split: prod.split sum.split, fastforce)
qed simp

lemma bytes_refused:
  assumes "fits (int (length bs)) b (maxByteLength opt)" and "32768 \<le> length bs"
  shows "bytes_from b opt (mk_arr (map byte_number bs)) = Inl (invalid ''payload complexity'')"
proof -
  define o' where "o' = default_options\<lparr>maxArrayLength := maxByteLength opt\<rparr>"
  have o': "maxNodes o' = 32768" "maxArrayLength o' = maxByteLength opt" "maxDepth o' = 32" by (simp_all add: o'_def default_options_def)
  obtain k where k: "nat (maxDepth o' + 1) = Suc (Suc k)" using o'(3) that [of 31] by simp
  let ?m = "mapE (\<lambda>s. bindE (liftE (slot_data s)) (convert_visit (Suc k) o' True (FInteger 8 False))) (map (\<lambda>x. Data (byte_number x)) bs) 1"
  have run: "fst ?m = Inl (invalid ''payload complexity'')" using assms(2) o'(1) by (intro bytes_overflow) simp_all
  then obtain m where m: "?m = (Inl (invalid ''payload complexity''), m)" by (metis prod.collapse)
  have len: "array_own_keys (map (\<lambda>x. Data (byte_number x)) bs) 0 = length bs"
    using array_own_keys_Data [of "map byte_number bs"] by (simp add: comp_def)
  have "checkLength (int (length bs)) b (maxByteLength opt) = Inr ()" using assms(1) by simp
  then have "codec_encode (bytes_codec b opt) (mk_arr (map byte_number bs)) = Inl (invalid ''payload complexity'')"
    using m len o'(1,2)
    by (simp add: codec_encode_def convert_def bytes_codec_def o'_def [symmetric] k prog_simps count_node_run mk_arr_def comp_def del: checkLength_within)
  then show ?thesis by (simp add: bytes_from_def)
qed

section \<open>The codec of the router and the representation of the backend\<close>

lemma mapE_mono:
  "mapE f xs n = (Inr ys, n') \<Longrightarrow> (\<And>x y m m'. x \<in> set xs \<Longrightarrow> f x m = (Inr y, m') \<Longrightarrow> g x m = (Inr y, m')) \<Longrightarrow> mapE g xs n = (Inr ys, n')"
proof (induction xs arbitrary: n ys)
  case (Cons x xs)
  from Cons.prems(1) obtain y zs m where "f x n = (Inr y, m)" "mapE f xs m = (Inr zs, n')" "ys = y # zs" unfolding mapE_Cons_Inr by blast
  moreover from this have "mapE g xs m = (Inr zs, n')" using Cons.prems(2) by (intro Cons.IH) simp_all
  ultimately show ?case unfolding mapE_Cons_Inr using Cons.prems(2) by (metis list.set_intros(1))
qed (simp add: mapE_Nil_Inr)

definition permissive :: "codecOptions \<Rightarrow> codecOptions" where
  "permissive opt = opt\<lparr>allowNonFinite := True\<rparr>"

lemma permissive_simps [simp]:
  "maxNodes (permissive opt) = maxNodes opt" "maxArrayLength (permissive opt) = maxArrayLength opt" "maxDepth (permissive opt) = maxDepth opt"
  "maxStringBytes (permissive opt) = maxStringBytes opt" "maxByteLength (permissive opt) = maxByteLength opt" "allowNonFinite (permissive opt)"
  by (simp_all add: permissive_def)

lemma scalar_permissive: "scalar f v encode opt = Inr w \<Longrightarrow> scalar f v encode (permissive opt) = Inr w"
  by (cases f) (auto simp: floating_v_def Let_def split: jsval.splits if_splits)

lemma visit_permissive: "convert_visit d opt encode f v n = (Inr w, n') \<Longrightarrow> convert_visit d (permissive opt) encode f v n = (Inr w, n')"
proof (induction d arbitrary: f v w n n')
  case (Suc d)
  show ?case
  proof (cases f)
    case (FArray b el)
    with Suc.prems obtain slots extra vs m where v: "v = Arr slots extra" "array_own_keys slots extra = length slots" "w = mk_arr vs"
      "count_node (maxNodes opt) ''payload complexity'' n = (Inr (), m)" "fits (int (length slots)) b (maxArrayLength opt)"
      and run: "mapE (\<lambda>s. bindE (liftE (slot_data s)) (convert_visit d opt encode el)) slots m = (Inr vs, n')"
      by (cases v) (auto simp: run_Inr simp del: mapE.simps)
    have "mapE (\<lambda>s. bindE (liftE (slot_data s)) (convert_visit d (permissive opt) encode el)) slots m = (Inr vs, n')"
      by (rule mapE_mono [OF run]) (auto simp: run_Inr intro: Suc.IH)
    with v show ?thesis by (simp add: FArray run_Inr del: mapE.simps)
  next
    case (FObject fs)
    with Suc.prems obtain object kvs m where v: "record_v v = Inr object" "length (object_keys object) = length fs" "w = mk_obj kvs"
      "count_node (maxNodes opt) ''payload complexity'' n = (Inr (), m)" and run: "visit_fields d opt encode object fs m = (Inr kvs, n')"
      by (auto simp: run_Inr simp del: mapE.simps)
    have "visit_fields d (permissive opt) encode object fs m = (Inr kvs, n')"
      by (rule mapE_mono [OF run]) (auto simp: run_Inr intro: Suc.IH)
    with v show ?thesis by (simp add: FObject run_Inr del: mapE.simps)
  qed (use Suc.prems scalar_permissive in \<open>auto simp: run_Inr simp del: scalar.simps\<close>)
qed (simp add: run_Inr)

lemma convert_permissive: "convert opt f v encode = Inr w \<Longrightarrow> convert (permissive opt) f v encode = Inr w"
  unfolding convert_def using visit_permissive by (metis fst_conv permissive_simps(3) prod.collapse)

lemma snapshot_permissive: "snapshot_visit d (permissive opt) f = snapshot_visit d opt f"
  by (induction d arbitrary: f) (simp_all add: Let_def)

lemma option_name_nonfinite: "\<not> array_index (ustr ''allowNonFinite'')" "ustr ''allowNonFinite'' \<in> set option_names"
  by (simp_all add: array_index_def rx_match_iff index_rx_def rx_simps ustr_Cons range_cls_def unat_code_unit option_names_def)

lemma plain_codec:
  assumes "createCodec descriptor (mk_obj [(ustr ''allowNonFinite'', Bool x)]) = Inr c" and "rosRepresentation descriptor (mk_obj []) = Inr r"
  shows "cd_schema r = cd_schema c \<and> cd_options r = permissive (cd_options c) \<and> maxByteLength (cd_options r) = 16384"
proof -
  have o0: "codecOptions_v (mk_obj []) = Inr default_options"
    by (simp add: codecOptions_v_def limit_option_def default_options_def)
  have o1: "codecOptions_v (mk_obj [(ustr ''allowNonFinite'', Bool x)]) = Inr (default_options\<lparr>allowNonFinite := x\<rparr>)"
    by (simp add: codecOptions_v_def limit_option_def default_options_def option_name_nonfinite)
  have p: "permissive (default_options\<lparr>allowNonFinite := x\<rparr>) = default_options" by (simp add: permissive_def default_options_def)
  have "snapshotSchema descriptor default_options = snapshotSchema descriptor (default_options\<lparr>allowNonFinite := x\<rparr>)"
    using snapshot_permissive [of _ "default_options\<lparr>allowNonFinite := x\<rparr>" descriptor] unfolding p by (simp add: snapshotSchema_def default_options_def)
  then show ?thesis using assms o0 o1 p by (auto simp: rosRepresentation_def createCodec_def default_options_def)
qed

section \<open>Properties\<close>

text \<open>
  What is published to ROS can be received again. When the codec accepts a value, \<open>to\<close> succeeds, and
  \<open>from\<close> turns the native message it returns back into the value the codec has rebuilt, at every depth and
  size the limits of the codec admit, for byte limits below the default node limit; a value that \<open>from\<close>
  returns always has the type of the schema.
\<close>

theorem representation_roundtrip:
  assumes "rosRepresentation descriptor overrides = Inr c" and "js_ok descriptor" and "maxByteLength (cd_options c) < 32768"
    and "codec_encode c native = Inr wire"
  shows "\<exists>v r. codec_decode c wire = Inr v \<and> to_native c native = Inr r \<and> from_native c r = Inr v
    \<and> typed (cd_options c) False (cd_schema c) v"
proof -
  have created: "createCodec descriptor overrides = Inr c" using assms(1) by (simp add: rosRepresentation_def)
  then have ok: "codec_options_ok (cd_options c)" "field_ok (cd_schema c)" using createCodec_ok assms(2) by blast+
  obtain v where v: "codec_decode c wire = Inr v"
    using convert_back [OF ok, where encode = True] assms(4) by (auto simp: codec_encode_def codec_decode_def)
  then obtain n' where run: "convert_visit (nat (maxDepth (cd_options c) + 1)) (cd_options c) False (cd_schema c) wire 0 = (Inr v, n')"
    unfolding codec_decode_def convert_def by (metis prod.collapse)
  obtain r where r: "native_convert (cd_options c) False (cd_schema c) v 0 = (Inr r, n')"
      "native_convert (cd_options c) True (cd_schema c) r 0 = (Inr v, n')"
    using convert_recovers [OF assms(3) ok(2) run] unfolding recovers_def by blast
  have "typed (cd_options c) False (cd_schema c) v" using visit_typed [OF run] by simp
  moreover have "\<exists>w. codec_encode c v = Inr w \<and> codec_decode c w = Inr v" 
    using convert_back [OF ok, where encode = False] v by (auto simp: codec_encode_def codec_decode_def)
  ultimately show ?thesis
    using v r assms(4) by (auto simp: to_native_def from_native_def)
qed


text \<open>
  C25: A command that the router has accepted is never refused by the native backend. The value that the codec
  of a registry entry has rebuilt, whatever the entry says about nonfinite numbers, is turned into a native
  message by the representation the backend makes for the same descriptor, and the same value is recovered
  from this message.
\<close>

theorem command_reaches_backend:
  assumes "createCodec descriptor (mk_obj [(ustr ''allowNonFinite'', Bool x)]) = Inr c" and "rosRepresentation descriptor (mk_obj []) = Inr r"
    and "js_ok descriptor" and "bindR (codec_encode c native) (codec_decode c) = Inr v"
  shows "\<exists>m. to_native r v = Inr m \<and> from_native r m = Inr v"
proof -
  have r: "cd_schema r = cd_schema c" "cd_options r = permissive (cd_options c)" "maxByteLength (cd_options r) = 16384"
    using plain_codec [OF assms(1,2)] by blast+
  have small: "maxByteLength (cd_options r) < 32768" unfolding r(3) by simp
  have ok: "codec_options_ok (cd_options c)" "field_ok (cd_schema c)" using createCodec_ok [OF assms(1,3)] by blast+
  obtain w where "codec_decode c w = Inr v" using assms(4) by auto
  then obtain w' where "codec_encode c v = Inr w'" "codec_decode c w' = Inr v"
    using convert_back [OF ok, where encode = False] by (auto simp: codec_encode_def codec_decode_def)
  then have w': "codec_encode r v = Inr w'" "codec_decode r w' = Inr v"
    using r(1,2) by (simp_all add: codec_encode_def codec_decode_def convert_permissive)
  have okr: "field_ok (cd_schema r)" using ok(2) r(1) by simp
  obtain n' where run: "convert_visit (nat (maxDepth (cd_options r) + 1)) (cd_options r) False (cd_schema r) w' 0 = (Inr v, n')"
    using w'(2) unfolding codec_decode_def convert_def by (metis prod.collapse)
  show ?thesis
    using convert_recovers [OF small okr run] w' unfolding recovers_def by (auto simp: to_native_def from_native_def)
qed

text \<open>
  A long byte array goes out but does not come back. When the byte limit of a representation exceeds the
  default node limit, a byte array of 32768 bytes or more that the codec accepts is published, but the same
  message is refused on receipt, because its elements are counted by a codec that is made without the node
  limit.
\<close>

theorem long_bytes_one_way:
  assumes "rosRepresentation descriptor overrides = Inr c" and "js_ok descriptor" and "cd_schema c = FBytes b"
    and "fits (int (length bs)) b (maxByteLength (cd_options c))" and "32768 \<le> length bs"
  shows "\<exists>m. to_native c (Bytes bs) = Inr m \<and> from_native c m = Inl (invalid ''payload complexity'')"
proof -
  have created: "createCodec descriptor overrides = Inr c" using assms(1) by (simp add: rosRepresentation_def)
  then have ok: "codec_options_ok (cd_options c)" "field_ok (cd_schema c)" using createCodec_ok assms(2) by blast+
  have "0 < maxDepth (cd_options c)" using ok(1) by (simp add: codec_options_ok_def)
  then have "nat (maxDepth (cd_options c) + 1) = Suc (nat (maxDepth (cd_options c)))" by simp
  then obtain k where k: "nat (maxDepth (cd_options c) + 1) = Suc k" by blast
  have nodes: "1 \<le> maxNodes (cd_options c)" using ok(1) by (simp add: codec_options_ok_def)
  have "checkLength (int (length bs)) b (maxByteLength (cd_options c)) = Inr ()" using assms(4) by simp
  then have enc: "codec_encode c (Bytes bs) = Inr (Str (b64_encode bs))"
    using nodes by (simp add: codec_encode_def convert_def k assms(3) prog_simps count_node_run bytes_v_def del: checkLength_within)
  then obtain v where v: "codec_decode c (Str (b64_encode bs)) = Inr v" "codec_encode c v = Inr (Str (b64_encode bs))"
    using convert_back [OF ok, where encode = True] by (auto simp: codec_encode_def codec_decode_def)
  have "typed (cd_options c) False (FBytes b) v"
    using v(1) visit_typed unfolding codec_decode_def convert_def assms(3) [symmetric] by (metis prod.collapse)
  then obtain bs' where bs': "v = Bytes bs'" by (auto elim: typed.cases)
  then have "b64_encode bs' = b64_encode bs"
    using v(2) nodes by (auto simp: codec_encode_def convert_def k assms(3) prog_simps count_node_run bytes_v_def split: sum.splits)
  then have "bs' = bs" by (metis b64_roundtrip)
  then have dec: "bindR (codec_encode c (Bytes bs)) (codec_decode c) = Inr (Bytes bs)" using enc v(1) bs' by simp
  have "to_native c (Bytes bs) = Inr (mk_arr (map byte_number bs))"
    using nodes by (simp add: to_native_def dec assms(3) prog_simps visit_native_run)
  moreover have "from_native c (mk_arr (map byte_number bs)) = Inl (invalid ''payload complexity'')"
    using nodes bytes_refused [OF assms(4,5)] by (simp add: from_native_def assms(3) prog_simps visit_native_run)
  ultimately show ?thesis by blast
qed

section \<open>Witnesses\<close>

theorem representation_roundtrip_witness:
  "\<exists>wire v r. codec_encode example_codec example_native = Inr wire \<and> codec_decode example_codec wire = Inr v
     \<and> to_native example_codec example_native = Inr r \<and> from_native example_codec r = Inr v"
proof -
  have r: "rosRepresentation example_schema (mk_obj []) = Inr example_codec" by (simp add: rosRepresentation_def example_codec_created)
  have m: "maxByteLength (cd_options example_codec) < 32768" by (simp add: example_codec_def)
  from representation_roundtrip [OF r example_schema_ok m example_encode] show ?thesis using example_encode by blast
qed

theorem command_reaches_backend_witness:
  "\<exists>c v m. createCodec example_schema (mk_obj [(ustr ''allowNonFinite'', Bool True)]) = Inr c
     \<and> bindR (codec_encode c example_native) (codec_decode c) = Inr v \<and> to_native example_codec v = Inr m \<and> from_native example_codec m = Inr v"
proof -
  have c: "createCodec example_schema (mk_obj [(ustr ''allowNonFinite'', Bool True)]) = Inr example_codec"
    using example_codec_created by (simp add: createCodec_def codecOptions_v_def limit_option_def option_name_nonfinite)
  have r: "rosRepresentation example_schema (mk_obj []) = Inr example_codec" by (simp add: rosRepresentation_def example_codec_created)
  obtain v where v: "bindR (codec_encode example_codec example_native) (codec_decode example_codec) = Inr v"
    using convert_back [where encode = True and opt = "cd_options example_codec" and f = "cd_schema example_codec"] example_encode
      createCodec_ok [OF example_codec_created example_schema_ok] by (auto simp: codec_encode_def codec_decode_def)
  from command_reaches_backend [OF c r example_schema_ok v] show ?thesis using c v by blast
qed

definition example_long :: codec where
  "example_long = \<lparr>cd_options = default_options\<lparr>maxByteLength := 40000\<rparr>, cd_schema = FBytes \<lparr>lb_length = None, lb_maxLength = None\<rparr>\<rparr>"

lemma option_name_bytes: "\<not> array_index (ustr ''maxByteLength'')" "ustr ''maxByteLength'' \<in> set option_names"
  by (simp_all add: array_index_def rx_match_iff index_rx_def rx_simps ustr_Cons range_cls_def unat_code_unit option_names_def)

theorem long_bytes_one_way_witness:
  "\<exists>m. to_native example_long (Bytes (replicate 32768 0)) = Inr m \<and> from_native example_long m = Inl (invalid ''payload complexity'')"
proof (rule long_bytes_one_way)
  show "rosRepresentation (mk_obj [(ustr ''kind'', Str (ustr ''bytes''))]) (mk_obj [(ustr ''maxByteLength'', Number (NumI 40000))]) = Inr example_long"
    by (simp add: rosRepresentation_def createCodec_def codecOptions_v_def limit_option_def snapshotSchema_def numeral_eq_Suc prog_simps count_node_def
        lengths_def length_option_def MAX_SAFE_INTEGER_def example_long_def default_options_def option_name_bytes)
  show "js_ok (mk_obj [(ustr ''kind'', Str (ustr ''bytes''))])" by (simp add: mk_obj_def mk_prop_def)
  show "cd_schema example_long = FBytes \<lparr>lb_length = None, lb_maxLength = None\<rparr>" by (simp add: example_long_def)
qed (simp_all add: example_long_def default_options_def fits_def)

end
