(* ===== verification/Ros_Backend.thy ===== *)
theory Ros_Backend
  imports Ros_Schema Representation
begin

text \<open>
  \<open>ros/rclnodejs.ts\<close>: the dedicated ROS context behind the adapter. The native module is outside: every call
  of it is an entry of \<open>rb_log\<close>, what it answers is a function of the log. A publisher is identified by its
  number, the callback of a subscription by a number too. \<open>onError\<close> does not throw.
\<close>

section \<open>State\<close>

datatype rclEffect =
    NewContext
  | InitContext
  | NewNode
  | ResolveName ustring
  | NewPublisher ustring ustring "int \<times> int \<times> int \<times> int"
  | NewSubscription ustring ustring "int \<times> int \<times> int \<times> int"
  | PublishNative nat jsval
  | NodeSpins
  | ContextShutdown
  | Callback nat jsval
  | RclError error

record rclAnswers =
  rc_context :: "rclEffect list \<Rightarrow> unit result"
  rc_node :: "rclEffect list \<Rightarrow> unit result"
  rc_resolve :: "rclEffect list \<Rightarrow> ustring result"
  rc_create :: "rclEffect list \<Rightarrow> ustring result"
  rc_publish :: "rclEffect list \<Rightarrow> unit result"
  rc_spin :: "rclEffect list \<Rightarrow> unit result"
  rc_shutdown :: "rclEffect list \<Rightarrow> unit result"
  rc_callback :: "rclEffect list \<Rightarrow> unit result"

datatype backendPhase = Unstarted | Initializing | Ready | Rejected error

record rclBackend =
  rb_phase :: backendPhase
  rb_names :: "(ustring \<times> ustring) list"
  rb_publishers :: "(ustring \<times> codec) list"
  rb_subscriptions :: "(nat \<times> codec) list"
  rb_log :: "rclEffect list"

section \<open>Operations\<close>

definition rcl_call :: "(rclEffect list \<Rightarrow> 'a result) \<Rightarrow> rclEffect \<Rightarrow> (rclBackend, 'a) prog" where
  "rcl_call f x = seqE (modE (\<lambda>s. s\<lparr>rb_log := rb_log s @ [x]\<rparr>)) (bindE (getE rb_log) (\<lambda>h. liftE (f h)))"

text \<open>\<open>createRclnodejsBackend\<close> up to its \<open>await\<close>; the outcome of \<open>rcl.init\<close> is an event.\<close>

definition backend_begin :: "rclAnswers \<Rightarrow> number \<Rightarrow> (rclBackend, unit) prog" where
  "backend_begin a spinTimeoutMs =
     catchE
      (seqE (throwIf (\<not> isSafeInteger spinTimeoutMs \<or> num_le spinTimeoutMs (NumI 0)) (TypeErr ''invalid_spin_timeout''))
      (seqE (rcl_call (rc_context a) NewContext)
      (modE (\<lambda>s. s\<lparr>rb_log := rb_log s @ [InitContext], rb_phase := Initializing\<rparr>))))
      (\<lambda>e. modE (\<lambda>s. s\<lparr>rb_phase := Rejected e\<rparr>))"

definition init_failed :: "rclAnswers \<Rightarrow> error \<Rightarrow> (rclBackend, unit) prog" where
  "init_failed a e =
     catchE
      (seqE (catchE (rcl_call (rc_shutdown a) ContextShutdown) (\<lambda>_. throwE (Err ''ros_init_cleanup_failed''))) (throwE e))
      (\<lambda>e'. modE (\<lambda>s. s\<lparr>rb_phase := Rejected e'\<rparr>))"

definition backend_initialized :: "rclAnswers \<Rightarrow> unit result \<Rightarrow> (rclBackend, unit) prog" where
  "backend_initialized a outcome =
     bindE (getE rb_phase) (\<lambda>phase.
     if phase \<noteq> Initializing then retE ()
     else catchE (seqE (liftE outcome) (seqE (rcl_call (rc_node a) NewNode) (modE (\<lambda>s. s\<lparr>rb_phase := Ready\<rparr>)))) (init_failed a))"

text \<open>The original name that corresponds to a resolved one.\<close>

definition original_name :: "ustring \<Rightarrow> (rclBackend, ustring) prog" where
  "original_name topic =
     bindE (getE (\<lambda>s. map_of (rb_names s) topic)) (\<lambda>found.
     case found of None \<Rightarrow> throwE (Err ''ros_topic_not_resolved'') | Some name \<Rightarrow> retE name)"

definition rb_resolveTopic :: "rclAnswers \<Rightarrow> ustring \<Rightarrow> (rclBackend, ustring) prog" where
  "rb_resolveTopic a name =
     bindE (rcl_call (rc_resolve a) (ResolveName name)) (\<lambda>resolved.
     seqE (modE (\<lambda>s. s\<lparr>rb_names := AList.update resolved name (rb_names s)\<rparr>)) (retE resolved))"

text \<open>The arguments of \<open>new rcl.QoS\<close>, enumerations of the RMW.\<close>

definition rb_qos :: "qos \<Rightarrow> int \<times> int \<times> int \<times> int" where
  "rb_qos q = (1, q_depth q, if q_reliability q = QReliable then 1 else 2, if q_durability q = QVolatile then 2 else 1)"

text \<open>\<open>describe\<close> is what the type generator says of a type.\<close>

definition representation_of :: "(ustring \<Rightarrow> rosField list result) \<Rightarrow> jsval \<Rightarrow> ustring \<Rightarrow> codec result" where
  "representation_of describe codecOptions type =
     bindR (descriptorFromRos type describe (NumI 32)) (\<lambda>descriptor. rosRepresentation descriptor codecOptions)"


definition rb_createPublisher ::
    "rclAnswers \<Rightarrow> (ustring \<Rightarrow> rosField list result) \<Rightarrow> jsval \<Rightarrow> ustring \<Rightarrow> ustring \<Rightarrow> qos \<Rightarrow> (rclBackend, nat) prog" where
  "rb_createPublisher a describe codecOptions type topic q =
     bindE (liftE (representation_of describe codecOptions type)) (\<lambda>r.
     bindE (original_name topic) (\<lambda>name.
     bindE (rcl_call (rc_create a) (NewPublisher type name (rb_qos q))) (\<lambda>actual.
     seqE (throwIf (actual \<noteq> topic) (Err ''ros_publisher_topic_mismatch''))
    (bindE (getE (\<lambda>s. length (rb_publishers s))) (\<lambda>i.
     seqE (modE (\<lambda>s. s\<lparr>rb_publishers := rb_publishers s @ [(topic, r)]\<rparr>)) (retE i))))))"

text \<open>\<open>publish\<close> of the publisher that has been returned as the \<open>i\<close>-th.\<close>

definition rb_publish :: "rclAnswers \<Rightarrow> nat \<Rightarrow> jsval \<Rightarrow> (rclBackend, unit) prog" where
  "rb_publish a i native =
     bindE (getE (\<lambda>s. snd (rb_publishers s ! i))) (\<lambda>r.
     bindE (liftE (to_native r native)) (\<lambda>m. rcl_call (rc_publish a) (PublishNative i m)))"

text \<open>The native subscription exists, and can deliver, before its topic is compared.\<close>

definition rb_createSubscription ::
    "rclAnswers \<Rightarrow> (ustring \<Rightarrow> rosField list result) \<Rightarrow> jsval \<Rightarrow> ustring \<Rightarrow> ustring \<Rightarrow> qos \<Rightarrow> nat \<Rightarrow> (rclBackend, unit) prog" where
  "rb_createSubscription a describe codecOptions type topic q callback =
     bindE (liftE (representation_of describe codecOptions type)) (\<lambda>r.
     bindE (original_name topic) (\<lambda>name.
     bindE (rcl_call (rc_create a) (NewSubscription type name (rb_qos q))) (\<lambda>actual.
     seqE (modE (\<lambda>s. s\<lparr>rb_subscriptions := rb_subscriptions s @ [(callback, r)]\<rparr>))
          (throwIf (actual \<noteq> topic) (Err ''ros_subscription_topic_mismatch'')))))"

text \<open>A message of the \<open>j\<close>-th native subscription.\<close>

definition rb_message :: "rclAnswers \<Rightarrow> nat \<Rightarrow> jsval \<Rightarrow> (rclBackend, unit) prog" where
  "rb_message a j native =
     bindE (getE (\<lambda>s. rb_subscriptions s ! j)) (\<lambda>(callback, r).
     catchE (bindE (liftE (from_native r native)) (\<lambda>v. rcl_call (rc_callback a) (Callback callback v)))
            (\<lambda>e. modE (\<lambda>s. s\<lparr>rb_log := rb_log s @ [RclError e]\<rparr>)))"

definition rb_spin :: "rclAnswers \<Rightarrow> (rclBackend, unit) prog" where
  "rb_spin a = rcl_call (rc_spin a) NodeSpins"

definition rb_close :: "rclAnswers \<Rightarrow> (rclBackend, unit) prog" where
  "rb_close a = seqE (modE (\<lambda>s. s\<lparr>rb_names := []\<rparr>)) (rcl_call (rc_shutdown a) ContextShutdown)"

section \<open>Reachable backends\<close>

inductive backend_step ::
    "rclAnswers \<Rightarrow> (ustring \<Rightarrow> rosField list result) \<Rightarrow> jsval \<Rightarrow> rclBackend \<Rightarrow> rclBackend \<Rightarrow> bool"
  for a :: rclAnswers and describe :: "ustring \<Rightarrow> rosField list result" and codecOptions :: jsval where
  rb_begins: "rb_phase s = Unstarted \<Longrightarrow> backend_step a describe codecOptions s (snd (backend_begin a ms s))"
| rb_inits: "backend_step a describe codecOptions s (snd (backend_initialized a outcome s))"
| rb_resolves: "rb_phase s = Ready \<Longrightarrow> backend_step a describe codecOptions s (snd (rb_resolveTopic a name s))"
| rb_publisher: "rb_phase s = Ready \<Longrightarrow> backend_step a describe codecOptions s (snd (rb_createPublisher a describe codecOptions type topic q s))"
| rb_subscription: "rb_phase s = Ready \<Longrightarrow> backend_step a describe codecOptions s (snd (rb_createSubscription a describe codecOptions type topic q cb s))"
| rb_publishes: "i < length (rb_publishers s) \<Longrightarrow> backend_step a describe codecOptions s (snd (rb_publish a i native s))"
| rb_delivers: "j < length (rb_subscriptions s) \<Longrightarrow> backend_step a describe codecOptions s (snd (rb_message a j native s))"
| rb_spins: "rb_phase s = Ready \<Longrightarrow> backend_step a describe codecOptions s (snd (rb_spin a s))"
| rb_closes: "rb_phase s = Ready \<Longrightarrow> backend_step a describe codecOptions s (snd (rb_close a s))"

definition backend_start :: "rclBackend \<Rightarrow> bool" where
  "backend_start s \<longleftrightarrow> s = \<lparr>rb_phase = Unstarted, rb_names = [], rb_publishers = [], rb_subscriptions = [], rb_log = []\<rparr>"

text \<open>A name is remembered for the topic it was resolved to.\<close>

definition resolved_in :: "rclAnswers \<Rightarrow> rclEffect list \<Rightarrow> ustring \<Rightarrow> ustring \<Rightarrow> bool" where
  "resolved_in a h topic name \<longleftrightarrow> (\<exists>h1 h2. h = h1 @ [ResolveName name] @ h2 \<and> rc_resolve a (h1 @ [ResolveName name]) = Inr topic)"

definition created_in :: "rclAnswers \<Rightarrow> rclEffect list \<Rightarrow> ustring \<Rightarrow> bool" where
  "created_in a h topic \<longleftrightarrow> (\<exists>h1 h2 type name q. h = h1 @ [NewPublisher type name q] @ h2
     \<and> rc_create a (h1 @ [NewPublisher type name q]) = Inr topic \<and> resolved_in a h1 topic name)"

definition backend_inv :: "rclAnswers \<Rightarrow> rclBackend \<Rightarrow> bool" where
  "backend_inv a s \<longleftrightarrow>
     (\<forall>(topic, name) \<in> set (rb_names s). resolved_in a (rb_log s) topic name)
     \<and> (\<forall>(topic, r) \<in> set (rb_publishers s). created_in a (rb_log s) topic)
     \<and> (rb_phase s \<noteq> Ready \<longrightarrow> rb_names s = [] \<and> rb_publishers s = [] \<and> rb_subscriptions s = [])
     \<and> (case rb_phase s of
          Unstarted \<Rightarrow> rb_log s = []
        | Initializing \<Rightarrow> rb_log s = [NewContext, InitContext]
        | Ready \<Rightarrow> True
        | Rejected e \<Rightarrow> rb_log s = [] \<or> rb_log s = [NewContext] \<or> (\<exists>h. rb_log s = NewContext # InitContext # h @ [ContextShutdown] \<and> set h \<subseteq> {NewNode}))"

lemmas backend_runs = rcl_call_def bindE_run seqE_run catchE_run prog_run throwIf_run

lemma resolved_later: "resolved_in a h topic name \<Longrightarrow> resolved_in a (h @ h') topic name"
  unfolding resolved_in_def by (metis append.assoc)

lemma created_later: "created_in a h topic \<Longrightarrow> created_in a (h @ h') topic"
  unfolding created_in_def by (metis append.assoc)

lemma inv_grows:
  "backend_inv a s \<Longrightarrow> rb_phase s = Ready \<Longrightarrow> rb_phase t = Ready \<Longrightarrow> set (rb_names t) \<subseteq> set (rb_names s) \<Longrightarrow> rb_publishers t = rb_publishers s
     \<Longrightarrow> (\<exists>h. rb_log t = rb_log s @ h) \<Longrightarrow> backend_inv a t"
  unfolding backend_inv_def by (fastforce intro: resolved_later created_later)


lemma begins_inv: "backend_inv a s \<Longrightarrow> rb_phase s = Unstarted \<Longrightarrow> backend_inv a (snd (backend_begin a ms s))"
  by (cases "rc_context a [NewContext]") (auto simp: backend_inv_def backend_begin_def backend_runs)

lemma inits_inv:
  assumes "backend_inv a s"
  shows "backend_inv a (snd (backend_initialized a outcome s))"
proof (cases "rb_phase s = Initializing")
  case True
  then have s: "rb_log s = [NewContext, InitContext]" "rb_names s = []" "rb_publishers s = []" "rb_subscriptions s = []"
    using assms by (simp_all add: backend_inv_def)
  show ?thesis
  proof (cases outcome)
    case (Inl e)
    then show ?thesis
      using True s by (cases "rc_shutdown a [NewContext, InitContext, ContextShutdown]")
        (auto simp: backend_initialized_def init_failed_def backend_inv_def backend_runs)
  next
    case (Inr u)
    show ?thesis
    proof (cases "rc_node a [NewContext, InitContext, NewNode]")
      case (Inl e)
      have "\<exists>h. [NewNode, ContextShutdown] = h @ [ContextShutdown] \<and> set h \<subseteq> {NewNode}" by (intro exI [of _ "[NewNode]"]) simp
      then show ?thesis
        using True s Inr Inl by (cases "rc_shutdown a [NewContext, InitContext, NewNode, ContextShutdown]")
          (auto simp: backend_initialized_def init_failed_def backend_inv_def backend_runs)
    qed (use True s Inr in \<open>auto simp: backend_initialized_def backend_inv_def backend_runs\<close>)
  qed
qed (use assms in \<open>simp add: backend_initialized_def backend_runs\<close>)

lemma resolve_inv:
  assumes "backend_inv a s" and "rb_phase s = Ready"
  shows "backend_inv a (snd (rb_resolveTopic a name s))"
proof (cases "rc_resolve a (rb_log s @ [ResolveName name])")
  case (Inl e)
  then show ?thesis using assms by (intro inv_grows [OF assms]) (auto simp: rb_resolveTopic_def backend_runs)
next
  case (Inr topic)
  let ?log = "rb_log s @ [ResolveName name]"
  have new: "resolved_in a ?log topic name" using Inr unfolding resolved_in_def by (metis append_Nil2)
  have "resolved_in a ?log t n" if "(t, n) \<in> set (AList.update topic name (rb_names s))" for t n
    using set_update_cases [OF that] new assms(1) by (fastforce simp: backend_inv_def intro: resolved_later)
  moreover have "\<forall>(t, r) \<in> set (rb_publishers s). created_in a ?log t"
    using assms(1) by (fastforce simp: backend_inv_def intro: created_later)
  ultimately show ?thesis using assms(2) Inr by (simp add: rb_resolveTopic_def backend_runs backend_inv_def split_def)
qed

text \<open>What \<open>createPublisher\<close> does.\<close>

lemma createPublisher_cases:
  obtains (refused) e where "rb_createPublisher a describe codecOptions type topic q s = (Inl e, s)"
  | (failed) e name where "map_of (rb_names s) topic = Some name"
      "rb_createPublisher a describe codecOptions type topic q s = (Inl e, s\<lparr>rb_log := rb_log s @ [NewPublisher type name (rb_qos q)]\<rparr>)"
  | (made) name r where "map_of (rb_names s) topic = Some name" "representation_of describe codecOptions type = Inr r"
      "rc_create a (rb_log s @ [NewPublisher type name (rb_qos q)]) = Inr topic"
      "rb_createPublisher a describe codecOptions type topic q s = (Inr (length (rb_publishers s)),
         s\<lparr>rb_publishers := rb_publishers s @ [(topic, r)], rb_log := rb_log s @ [NewPublisher type name (rb_qos q)]\<rparr>)"
proof (cases "representation_of describe codecOptions type")
  case (Inl e)
  then show thesis using refused by (simp add: rb_createPublisher_def backend_runs)
next
  case (Inr r)
  show thesis
  proof (cases "map_of (rb_names s) topic")
    case None
    then show thesis using Inr refused by (simp add: rb_createPublisher_def original_name_def backend_runs)
  next
    case (Some name)
    let ?h = "rb_log s @ [NewPublisher type name (rb_qos q)]"
    show thesis
    proof (cases "rc_create a ?h = Inr topic")
      case True
      then show thesis using made [OF Some Inr] Inr Some by (simp add: rb_createPublisher_def original_name_def backend_runs)
    next
      case False
      then show thesis using failed [OF Some] Inr Some
        by (cases "rc_create a ?h") (simp_all add: rb_createPublisher_def original_name_def backend_runs)
    qed
  qed
qed

lemma publisher_made:
  assumes "backend_inv a s" and "map_of (rb_names s) topic = Some name" and "rc_create a (rb_log s @ [NewPublisher type name q]) = Inr topic"
  shows "resolved_in a (rb_log s) topic name" and "created_in a (rb_log s @ [NewPublisher type name q]) topic"
proof -
  show r: "resolved_in a (rb_log s) topic name" using assms(1) map_of_SomeD [OF assms(2)] by (auto simp: backend_inv_def)
  show "created_in a (rb_log s @ [NewPublisher type name q]) topic" unfolding created_in_def using r assms(3) by (metis append_Nil2)
qed

lemma createPublisher_inv:
  assumes "backend_inv a s" and "rb_phase s = Ready"
  shows "backend_inv a (snd (rb_createPublisher a describe codecOptions type topic q s))"
proof (cases rule: createPublisher_cases [of a describe codecOptions type topic q s])
  case (refused e)
  then show ?thesis using assms by simp
next
  case (failed e name)
  then show ?thesis by (intro inv_grows [OF assms]) (use assms(2) in auto)
next
  case (made name r)
  have "\<forall>(t, n) \<in> set (rb_names s). resolved_in a (rb_log s @ [NewPublisher type name (rb_qos q)]) t n"
    using assms(1) by (fastforce simp: backend_inv_def intro: resolved_later)
  moreover have "\<forall>(t, r) \<in> set (rb_publishers s). created_in a (rb_log s @ [NewPublisher type name (rb_qos q)]) t"
    using assms(1) by (fastforce simp: backend_inv_def intro: created_later)
  ultimately show ?thesis
    using publisher_made(2) [OF assms(1) made(1,3)] assms(2) made(4) by (auto simp: backend_inv_def)
qed

lemma backend_step_inv: "backend_step a describe codecOptions s t \<Longrightarrow> backend_inv a s \<Longrightarrow> backend_inv a t"
proof (induction rule: backend_step.induct)
  case (rb_subscription s type topic q cb)
  show ?case
    by (rule inv_grows [OF rb_subscription(2,1)])
       (use rb_subscription in \<open>auto simp: rb_createSubscription_def original_name_def backend_runs split: sum.split option.split\<close>)
next
  case (rb_publishes i s native)
  then have ready: "rb_phase s = Ready" by (auto simp: backend_inv_def)
  show ?case by (rule inv_grows [OF rb_publishes(2) ready]) (use ready in \<open>auto simp: rb_publish_def backend_runs split: sum.split\<close>)
next
  case (rb_delivers j s native)
  then have ready: "rb_phase s = Ready" by (auto simp: backend_inv_def)
  show ?case by (rule inv_grows [OF rb_delivers(2) ready])
      (use ready in \<open>auto simp: rb_message_def backend_runs split: sum.split prod.split\<close>)
next
  case (rb_spins s)
  show ?case by (rule inv_grows [OF rb_spins(2,1)]) (use rb_spins in \<open>auto simp: rb_spin_def backend_runs\<close>)
next
  case (rb_closes s)
  show ?case by (rule inv_grows [OF rb_closes(2,1)]) (use rb_closes in \<open>auto simp: rb_close_def backend_runs\<close>)
qed (simp_all add: begins_inv inits_inv resolve_inv createPublisher_inv)

interpretation native: invariant_system backend_start "backend_step a describe codecOptions" "backend_inv a" for a describe codecOptions
proof unfold_locales
  show "backend_start s \<Longrightarrow> backend_inv a s" for s by (simp add: backend_start_def backend_inv_def)
  show "backend_inv a s \<Longrightarrow> backend_step a describe codecOptions s t \<Longrightarrow> backend_inv a t" for s t by (rule backend_step_inv)
qed

section \<open>Properties\<close>

text \<open>
  Remapping is applied exactly once. In every reachable state a publisher that is returned for a topic has
  been created, with the QoS of the binding, under a name that the node resolves to this very topic, and the
  native publisher answers to that topic; a topic that was never resolved, or a native topic that differs, is
  refused.
\<close>

theorem publisher_remapped:
  assumes "reachable backend_start (backend_step a describe codecOptions) s"
    and "rb_createPublisher a describe codecOptions type topic q s = (Inr i, t)"
  shows "\<exists>name. resolved_in a (rb_log s) topic name \<and> rb_log t = rb_log s @ [NewPublisher type name (rb_qos q)]
    \<and> rc_create a (rb_log t) = Inr topic \<and> i = length (rb_publishers s) \<and> fst (rb_publishers t ! i) = topic
    \<and> representation_of describe codecOptions type = Inr (snd (rb_publishers t ! i))"
proof -
  have inv: "backend_inv a s" using assms(1) by (rule native.reachable_inv)
  show ?thesis
  proof (cases rule: createPublisher_cases [of a describe codecOptions type topic q s])
    case (made name r)
    then show ?thesis using assms(2) publisher_made(1) [OF inv made(1,3)] by (intro exI [of _ name]) (auto simp: nth_append)
  qed (use assms(2) in auto)
qed

text \<open>
  A start that fails leaves no context. When the backend has been rejected, either the context was never
  made, or its construction failed, or it has been shut down exactly once and nothing was done after that.
\<close>

theorem rejected_backend_released:
  assumes "reachable backend_start (backend_step a describe codecOptions) s" and "rb_phase s = Rejected e"
  shows "InitContext \<in> set (rb_log s) \<longrightarrow> last (rb_log s) = ContextShutdown \<and> count_list (rb_log s) ContextShutdown = 1"
proof -
  have "backend_inv a s" using assms(1) by (rule native.reachable_inv)
  then have "rb_log s = [] \<or> rb_log s = [NewContext] \<or> (\<exists>h. rb_log s = NewContext # InitContext # h @ [ContextShutdown] \<and> set h \<subseteq> {NewNode})"
    using assms(2) by (simp add: backend_inv_def)
  then show ?thesis by (auto simp: count_list_append count_list_0_iff)
qed

text \<open>
  A native message never breaks the spinning node: it reaches the callback at most once, with a value of
  the type of the subscription, and whatever is wrong with it, or whatever the callback throws, is reported.
\<close>

theorem message_contained:
  assumes "rb_subscriptions s ! j = (callback, r)"
  shows "fst (rb_message a j native s) = Inr ()
    \<and> (case from_native r native of
         Inl e \<Rightarrow> rb_log (snd (rb_message a j native s)) = rb_log s @ [RclError e]
       | Inr v \<Rightarrow> typed (cd_options r) False (cd_schema r) v
           \<and> (\<exists>errors. rb_log (snd (rb_message a j native s)) = rb_log s @ Callback callback v # errors \<and> length errors \<le> 1))"
proof -
  have "typed (cd_options r) False (cd_schema r) v" if "from_native r native = Inr v" for v
    using that codec_result_typed [of r] by (auto simp: from_native_def)
  then show ?thesis using assms by (auto simp: rb_message_def backend_runs split: sum.split)
qed

end
