(* ===== verification/Worker_Port.thy ===== *)
theory Worker_Port
  imports Bridge_Prelude
begin

text \<open>
  \<open>workerPort\<close> of \<open>app/cli.ts\<close>: one worker process as the supervision sees it. The child process, its streams
  and the platform timer are outside: writing, ending the input and killing are entries of \<open>ch_log\<close>, and the
  events of the child are steps. Killing may fail, which the child reports by \<open>error\<close> at once. Callbacks do not
  throw; what they do to the process afterwards are further steps.
\<close>

section \<open>State\<close>

datatype portEffect =
    Watched nat
  | Exited nat
  | WriteLine ustring
  | EndInput ustring
  | KillTerm
  | KillKill

datatype exitListener = ExitCallback nat | ResolveStop nat

text \<open>A call of \<open>stop\<close>: whether its timer is armed and whether \<open>ended\<close> has resolved, until it returns.\<close>

datatype stopPhase = Stopping bool bool | StopDone

record child =
  ch_gone :: bool
  ch_listeners :: "exitListener list"
  ch_stops :: "(nat \<times> stopPhase) list"
  ch_log :: "portEffect list"

section \<open>Operations\<close>

definition child_emit :: "portEffect \<Rightarrow> (child, unit) prog" where
  "child_emit x = modE (\<lambda>s. s\<lparr>ch_log := ch_log s @ [x]\<rparr>)"

definition set_stop :: "nat \<Rightarrow> stopPhase \<Rightarrow> (child, unit) prog" where
  "set_stop k p = modE (\<lambda>s. s\<lparr>ch_stops := AList.update k p (ch_stops s)\<rparr>)"

definition run_listener :: "exitListener \<Rightarrow> (child, unit) prog" where
  "run_listener l =
     (case l of
        ExitCallback i \<Rightarrow> child_emit (Exited i)
      | ResolveStop k \<Rightarrow>
          bindE (getE (\<lambda>s. map_of (ch_stops s) k)) (\<lambda>found.
          case found of Some (Stopping armed _) \<Rightarrow> set_stop k (Stopping armed True) | _ \<Rightarrow> retE ()))"

definition depart :: "(child, unit) prog" where
  "depart =
     seqE (modE (\<lambda>s. s\<lparr>ch_gone := True\<rparr>))
    (bindE (getE ch_listeners) (\<lambda>ls.
     seqE (modE (\<lambda>s. s\<lparr>ch_listeners := []\<rparr>)) (forE run_listener ls)))"

definition child_kill :: "portEffect \<Rightarrow> bool \<Rightarrow> (child, unit) prog" where
  "child_kill signal failed = seqE (child_emit signal) (if failed then depart else retE ())"

definition input_error :: "bool \<Rightarrow> (child, unit) prog" where
  "input_error failed = child_kill KillTerm failed"

definition child_send :: "ustring \<Rightarrow> (child, unit) prog" where
  "child_send line = child_emit (WriteLine line)"

definition child_onExit :: "nat \<Rightarrow> (child, unit) prog" where
  "child_onExit i =
     seqE (child_emit (Watched i))
    (bindE (getE ch_gone) (\<lambda>gone.
     if gone then child_emit (Exited i) else modE (\<lambda>s. s\<lparr>ch_listeners := ch_listeners s @ [ExitCallback i]\<rparr>)))"

text \<open>\<open>stop\<close> up to its \<open>await\<close>.\<close>

definition child_stop :: "nat \<Rightarrow> ustring \<Rightarrow> (child, unit) prog" where
  "child_stop k line =
     bindE (getE ch_gone) (\<lambda>gone.
     if gone then set_stop k StopDone
     else seqE (modE (\<lambda>s. s\<lparr>ch_listeners := ch_listeners s @ [ResolveStop k]\<rparr>))
         (seqE (child_emit (EndInput line)) (set_stop k (Stopping True False))))"

text \<open>
  The timer of a call, and its continuation once \<open>ended\<close> has resolved, which clears the timer. Continuations
  run before the next timer.
\<close>

definition kill_timer :: "nat \<Rightarrow> bool \<Rightarrow> (child, unit) prog" where
  "kill_timer k failed =
     bindE (getE (\<lambda>s. map_of (ch_stops s) k)) (\<lambda>found.
     case found of
       Some (Stopping True False) \<Rightarrow> seqE (set_stop k (Stopping False False)) (child_kill KillKill failed)
     | _ \<Rightarrow> retE ())"

definition stop_resumes :: "nat \<Rightarrow> (child, unit) prog" where
  "stop_resumes k =
     bindE (getE (\<lambda>s. map_of (ch_stops s) k)) (\<lambda>found.
     case found of Some (Stopping armed True) \<Rightarrow> set_stop k StopDone | _ \<Rightarrow> retE ())"

section \<open>Reachable processes\<close>

inductive child_step :: "child \<Rightarrow> child \<Rightarrow> bool" where
  ch_departs: "child_step s (snd (depart s))"
| ch_input: "child_step s (snd (input_error failed s))"
| ch_sends: "child_step s (snd (child_send line s))"
| ch_watches: "child_step s (snd (child_onExit i s))"
| ch_stop: "k \<notin> set (keys (ch_stops s)) \<Longrightarrow> child_step s (snd (child_stop k line s))"
| ch_timer: "child_step s (snd (kill_timer k failed s))"
| ch_resumes: "child_step s (snd (stop_resumes k s))"

definition child_start :: "child \<Rightarrow> bool" where
  "child_start s \<longleftrightarrow> s = \<lparr>ch_gone = False, ch_listeners = [], ch_stops = [], ch_log = []\<rparr>"

definition stop_ok :: "child \<Rightarrow> nat \<times> stopPhase \<Rightarrow> bool" where
  "stop_ok s p =
     (case p of
        (k, Stopping armed ended) \<Rightarrow> (ended \<longleftrightarrow> ch_gone s) \<and> (\<not> ch_gone s \<longrightarrow> ResolveStop k \<in> set (ch_listeners s)) \<and> (\<not> armed \<longrightarrow> KillKill \<in> set (ch_log s))
      | (k, StopDone) \<Rightarrow> ch_gone s)"

definition child_inv :: "child \<Rightarrow> bool" where
  "child_inv s \<longleftrightarrow>
     (ch_gone s \<longrightarrow> ch_listeners s = []) \<and> distinct (keys (ch_stops s)) \<and> (\<forall>p \<in> set (ch_stops s). stop_ok s p)
     \<and> (\<forall>k. ResolveStop k \<in> set (ch_listeners s) \<longrightarrow> k \<in> set (keys (ch_stops s)))
     \<and> (\<forall>i. count_list (ch_log s) (Exited i) = (if ch_gone s then count_list (ch_log s) (Watched i) else 0))
     \<and> (\<forall>i. \<not> ch_gone s \<longrightarrow> count_list (ch_listeners s) (ExitCallback i) = count_list (ch_log s) (Watched i))"

lemmas child_runs = bindE_run seqE_run prog_run child_emit_def set_stop_def

text \<open>What running the listeners does.\<close>

fun exit_calls :: "exitListener list \<Rightarrow> portEffect list" where
  "exit_calls [] = []"
| "exit_calls (ExitCallback i # ls) = Exited i # exit_calls ls"
| "exit_calls (ResolveStop k # ls) = exit_calls ls"

definition resolved :: "exitListener list \<Rightarrow> nat \<times> stopPhase \<Rightarrow> nat \<times> stopPhase" where
  "resolved ls p =
     (case p of (k, Stopping armed ended) \<Rightarrow> (k, Stopping armed (ended \<or> ResolveStop k \<in> set ls)) | _ \<Rightarrow> p)"

lemma keys_resolved [simp]: "fst \<circ> resolved ls = fst"
  by (auto simp: fun_eq_iff resolved_def split: stopPhase.split)

lemma listener_run:
  "distinct (keys (ch_stops s)) \<Longrightarrow>
   run_listener l s = (Inr (), s\<lparr>ch_stops := map (resolved [l]) (ch_stops s), ch_log := ch_log s @ exit_calls [l]\<rparr>)"
proof (cases l)
  case (ExitCallback i)
  have "map (resolved [l]) ps = ps" for ps by (induction ps) (auto simp: resolved_def ExitCallback split: stopPhase.split)
  then show ?thesis by (simp add: run_listener_def ExitCallback child_runs)
next
  case (ResolveStop k)
  assume d: "distinct (keys (ch_stops s))"
  have none: "k \<notin> set (keys ps) \<Longrightarrow> map (resolved [l]) ps = ps" for ps
    by (induction ps) (auto simp: resolved_def ResolveStop split: stopPhase.split)
  have done': "map_of ps k = Some StopDone \<Longrightarrow> distinct (keys ps) \<Longrightarrow> map (resolved [l]) ps = ps" for ps
    using none by (induction ps) (auto simp: resolved_def ResolveStop split: stopPhase.split if_splits)
  have upd: "map_of ps k = Some (Stopping a b) \<Longrightarrow> distinct (keys ps) \<Longrightarrow> AList.update k (Stopping a True) ps = map (resolved [l]) ps" for ps a b
  proof (induction ps)
    case (Cons p ps)
    have hit: "resolved [l] (k, Stopping a b) = (k, Stopping a True)" for a b by (simp add: resolved_def ResolveStop)
    have miss: "j \<noteq> k \<Longrightarrow> resolved [l] (j, x) = (j, x)" for j x by (simp add: resolved_def ResolveStop split: stopPhase.split)
    obtain j x where p: "p = (j, x)" by fastforce
    show ?case
    proof (cases "j = k")
      case True
      then have "k \<notin> set (keys ps)" using Cons.prems p by auto
      then show ?thesis using True Cons.prems(1) p none [of ps] hit by simp
    next
      case False
      then show ?thesis using Cons p miss by simp
    qed
  qed simp
  show ?thesis
  proof (cases "map_of (ch_stops s) k")
    case None
    then have "map (resolved [l]) (ch_stops s) = ch_stops s" by (intro none) (simp add: map_of_eq_None_iff)
    then show ?thesis using None by (simp add: run_listener_def ResolveStop child_runs)
  next
    case (Some p)
    then show ?thesis using done' [OF _ d] upd [OF _ d] by (cases p) (simp_all add: run_listener_def ResolveStop child_runs)
  qed
qed

lemma resolved_Cons: "map (resolved (l # ls)) ps = map (resolved ls) (map (resolved [l]) ps)"
  by (auto simp: resolved_def split: prod.split stopPhase.split)

lemma exit_calls_Cons: "exit_calls (l # ls) = exit_calls [l] @ exit_calls ls"
  by (cases l) simp_all

lemma listeners_run:
  "distinct (keys (ch_stops s)) \<Longrightarrow>
   forE run_listener ls s = (Inr (), s\<lparr>ch_stops := map (resolved ls) (ch_stops s), ch_log := ch_log s @ exit_calls ls\<rparr>)"
proof (induction ls arbitrary: s)
  case Nil
  have "map (resolved []) ps = ps" for ps by (induction ps) (auto simp: resolved_def split: stopPhase.split)
  then show ?case by (simp add: prog_run)
next
  case (Cons l ls)
  show ?case using Cons.IH [of "s\<lparr>ch_stops := map (resolved [l]) (ch_stops s), ch_log := ch_log s @ exit_calls [l]\<rparr>"] Cons.prems
    by (simp add: seqE_run listener_run keys_resolved resolved_Cons [of l ls] exit_calls_Cons [of l ls] del: exit_calls.simps)
qed

lemma depart_run:
  "distinct (keys (ch_stops s)) \<Longrightarrow>
   depart s = (Inr (), s\<lparr>ch_gone := True, ch_listeners := [], ch_stops := map (resolved (ch_listeners s)) (ch_stops s), ch_log := ch_log s @ exit_calls (ch_listeners s)\<rparr>)"
  by (simp add: depart_def bindE_run seqE_run prog_run listeners_run)

lemma count_exit_calls: "count_list (exit_calls ls) (Exited i) = count_list ls (ExitCallback i)"
  by (induction ls rule: exit_calls.induct) auto

lemma exit_calls_only: "count_list (exit_calls ls) (Watched i) = 0" "KillKill \<notin> set (exit_calls ls)"
  by (induction ls rule: exit_calls.induct) auto

lemma depart_inv:
  assumes "child_inv s"
  shows "child_inv (snd (depart s))"
proof -
  have d: "distinct (keys (ch_stops s))" using assms by (simp add: child_inv_def)
  let ?t = "s\<lparr>ch_gone := True, ch_listeners := [], ch_stops := map (resolved (ch_listeners s)) (ch_stops s), ch_log := ch_log s @ exit_calls (ch_listeners s)\<rparr>"
  have "stop_ok ?t (resolved (ch_listeners s) p)" if "p \<in> set (ch_stops s)" for p
  proof -
    have "stop_ok s p" using assms that by (simp add: child_inv_def)
    then show ?thesis by (auto simp: stop_ok_def resolved_def split: prod.splits stopPhase.splits)
  qed
  moreover have "count_list (ch_log s) (Exited i) + count_list (ch_listeners s) (ExitCallback i) = count_list (ch_log s) (Watched i)" for i
    using assms by (cases "ch_gone s") (auto simp: child_inv_def)
  ultimately have "child_inv ?t"
    using d by (simp add: child_inv_def keys_resolved count_list_append count_exit_calls exit_calls_only)
  then show ?thesis by (simp add: depart_run [OF d])
qed


lemma stop_ok_frame:
  "stop_ok s p \<Longrightarrow> ch_gone t = ch_gone s \<Longrightarrow> ch_log t = ch_log s @ h
     \<Longrightarrow> (\<And>k. ResolveStop k \<in> set (ch_listeners s) \<Longrightarrow> ResolveStop k \<in> set (ch_listeners t)) \<Longrightarrow> stop_ok t p"
  by (cases p; cases "snd p") (auto simp: stop_ok_def)

lemma child_frame:
  assumes "child_inv s" and "ch_gone t = ch_gone s" and "ch_log t = ch_log s @ h" and "ch_stops t = ch_stops s"
    and "\<And>k. ResolveStop k \<in> set (ch_listeners t) \<longleftrightarrow> ResolveStop k \<in> set (ch_listeners s)" and "ch_gone s \<Longrightarrow> ch_listeners t = []"
    and "\<And>i. count_list h (Exited i) = (if ch_gone s then count_list h (Watched i) else 0)"
    and "\<And>i. \<not> ch_gone s \<Longrightarrow> count_list (ch_listeners t) (ExitCallback i) = count_list (ch_listeners s) (ExitCallback i) + count_list h (Watched i)"
  shows "child_inv t"
proof -
  have "\<forall>p \<in> set (ch_stops t). stop_ok t p"
    using assms(1,4,5) stop_ok_frame [OF _ assms(2,3)] by (auto simp: child_inv_def)
  then show ?thesis using assms by (simp add: child_inv_def count_list_append)
qed

lemma child_emit_inv:
  assumes "child_inv s" and "\<forall>i. x \<noteq> Exited i \<and> x \<noteq> Watched i"
  shows "child_inv (s\<lparr>ch_log := ch_log s @ [x]\<rparr>)"
  using assms(1) by (intro child_frame [OF assms(1), of _ "[x]"]) (use assms in \<open>auto simp: child_inv_def\<close>)

lemma kill_inv:
  assumes "child_inv s" and "\<forall>i. x \<noteq> Exited i \<and> x \<noteq> Watched i"
  shows "child_inv (snd (child_kill x failed s))"
  using child_emit_inv [OF assms] depart_inv [OF child_emit_inv [OF assms]] by (simp add: child_kill_def child_runs)

lemma watch_inv:
  assumes "child_inv s"
  shows "child_inv (snd (child_onExit i s))"
proof (cases "ch_gone s")
  case True
  then show ?thesis
    by (intro child_frame [OF assms, of _ "[Watched i, Exited i]"]) (use assms in \<open>auto simp: child_onExit_def child_runs child_inv_def\<close>)
next
  case False
  then show ?thesis
    by (intro child_frame [OF assms, of _ "[Watched i]"]) (auto simp: child_onExit_def child_runs count_list_append)
qed

lemma stop_entry:
  assumes "child_inv s" and "\<forall>p \<in> set (ch_stops s). stop_ok t p" and "stop_ok t (k, x)"
    and "ch_gone t = ch_gone s" and "ch_log t = ch_log s @ h" and "\<forall>i. Exited i \<notin> set h \<and> Watched i \<notin> set h"
    and "ch_listeners t = ch_listeners s \<or> (\<not> ch_gone s \<and> ch_listeners t = ch_listeners s @ [ResolveStop k])"
    and "ch_stops t = AList.update k x (ch_stops s)"
  shows "child_inv t"
proof -
  have "count_list h (Exited i) = 0" "count_list h (Watched i) = 0" for i using assms(6) by (simp_all add: count_list_0_iff)
  moreover have "\<forall>p \<in> set (ch_stops t). stop_ok t p"
    using assms(2,3,8) set_update_cases [of _ k x "ch_stops s"] by fastforce
  moreover have "distinct (keys (ch_stops t))" using assms(1,8) by (simp add: child_inv_def distinct_update)
  moreover have "set (keys (ch_stops t)) = insert k (set (keys (ch_stops s)))" unfolding assms(8) keys_update by auto
  ultimately show ?thesis using assms(1,4,5,7) by (auto simp: child_inv_def count_list_append)
qed


lemma child_stop_inv:
  assumes "child_inv s" and "k \<notin> set (keys (ch_stops s))"
  shows "child_inv (snd (child_stop k line s))"
proof (cases "ch_gone s")
  case True
  then show ?thesis
    by (intro stop_entry [OF assms(1), of _ k StopDone "[]"])
       (use assms in \<open>auto simp: child_stop_def child_runs child_inv_def intro: stop_ok_frame [where h = "[]"]\<close>, simp add: stop_ok_def)
next
  case False
  then show ?thesis
    by (intro stop_entry [OF assms(1), of _ k "Stopping True False" "[EndInput line]"])
       (use assms in \<open>auto simp: child_stop_def child_runs child_inv_def intro: stop_ok_frame [where h = "[EndInput line]"]\<close>, simp add: stop_ok_def)
qed


lemma kill_timer_inv:
  assumes "child_inv s"
  shows "child_inv (snd (kill_timer k failed s))"
proof (cases "map_of (ch_stops s) k = Some (Stopping True False)")
  case True
  define t where "t = s\<lparr>ch_stops := AList.update k (Stopping False False) (ch_stops s), ch_log := ch_log s @ [KillKill]\<rparr>"
  have entry: "stop_ok s (k, Stopping True False)" using map_of_SomeD [OF True] assms by (simp add: child_inv_def)
  have old: "\<forall>p \<in> set (ch_stops s). stop_ok t p"
    using assms stop_ok_frame [of s _ t "[KillKill]"] by (simp add: child_inv_def t_def)
  have new: "stop_ok t (k, Stopping False False)" using entry by (simp add: stop_ok_def t_def)
  have "child_inv t" by (rule stop_entry [OF assms old new, where h = "[KillKill]"]) (simp_all add: t_def)
  moreover have "kill_timer k failed s = (if failed then depart t else (Inr (), t))"
    by (simp add: kill_timer_def True child_kill_def child_runs t_def)
  ultimately show ?thesis using depart_inv by simp
qed (use assms in \<open>auto simp: kill_timer_def child_runs split: option.splits stopPhase.splits bool.splits\<close>)

lemma child_resume_inv:
  assumes "child_inv s"
  shows "child_inv (snd (stop_resumes k s))"
proof (cases "\<exists>armed. map_of (ch_stops s) k = Some (Stopping armed True)")
  case True
  then obtain armed where m: "map_of (ch_stops s) k = Some (Stopping armed True)" by blast
  have gone: "ch_gone s" using map_of_SomeD [OF m] assms by (auto simp: child_inv_def stop_ok_def)
  show ?thesis
    by (intro stop_entry [OF assms, of _ k StopDone "[]"])
       (use gone assms in \<open>auto simp: stop_resumes_def m child_runs child_inv_def intro: stop_ok_frame [where h = "[]"]\<close>, simp add: stop_ok_def)
qed (use assms in \<open>auto simp: stop_resumes_def child_runs split: option.splits stopPhase.splits bool.splits\<close>)

lemma child_step_inv: "child_step s t \<Longrightarrow> child_inv s \<Longrightarrow> child_inv t"
proof (induction rule: child_step.induct)
  case (ch_sends s line)
  then show ?case using child_emit_inv [of s "WriteLine line"] by (simp add: child_send_def child_runs)
qed (simp_all add: depart_inv kill_inv input_error_def watch_inv child_stop_inv kill_timer_inv child_resume_inv)

interpretation worker: invariant_system child_start child_step child_inv
proof unfold_locales
  show "child_start s \<Longrightarrow> child_inv s" for s by (simp add: child_start_def child_inv_def)
  show "child_inv s \<Longrightarrow> child_step s t \<Longrightarrow> child_inv t" for s t by (rule child_step_inv)
qed

section \<open>Properties\<close>

text \<open>
  The end of a worker is reported exactly once to everyone who asked, before or after it happened, whether
  the child exits, cannot be spawned or cannot be killed, and never while it runs.
\<close>

theorem exit_reported_once:
  assumes "reachable child_start child_step s"
  shows "count_list (ch_log s) (Exited i) = (if ch_gone s then count_list (ch_log s) (Watched i) else 0)"
  using worker.reachable_inv [OF assms] by (simp add: child_inv_def)

text \<open>
  Stopping a worker is neither early nor stuck. A call of \<open>stop\<close> has returned only when the worker is gone;
  while it waits, the worker either still has its timer armed, which kills it, or has been killed, and as soon
  as the child departs the call returns; a worker that is gone is never sent SIGKILL any more.
\<close>

theorem stop_waits_for_exit:
  assumes "reachable child_start child_step s" and "map_of (ch_stops s) k = Some p"
  shows "(p = StopDone \<longrightarrow> ch_gone s)
    \<and> (p \<noteq> StopDone \<and> \<not> ch_gone s \<longrightarrow> ((\<exists>ended. p = Stopping True ended) \<or> KillKill \<in> set (ch_log s))
         \<and> map_of (ch_stops (snd (stop_resumes k (snd (depart s))))) k = Some StopDone)
    \<and> (ch_gone s \<longrightarrow> snd (kill_timer k failed s) = s \<and> (p \<noteq> StopDone \<longrightarrow> map_of (ch_stops (snd (stop_resumes k s))) k = Some StopDone))"
proof -
  have inv: "child_inv s" using assms(1) by (rule worker.reachable_inv)
  then have ok: "stop_ok s (k, p)" and d: "distinct (keys (ch_stops s))" using map_of_SomeD [OF assms(2)] by (simp_all add: child_inv_def)
  have at_end: "map_of (map (resolved ls) ps) k = map_option (\<lambda>x. snd (resolved ls (k, x))) (map_of ps k)" for ls ps
    by (induction ps) (auto simp: resolved_def split: stopPhase.split)
  show ?thesis
  proof (cases p)
    case (Stopping armed ended)
    have resumes: "map_of (ch_stops (snd (stop_resumes k t))) k = Some StopDone" if "map_of (ch_stops t) k = Some (Stopping a True)" for t a
      using that by (simp add: stop_resumes_def child_runs)
    have "\<not> ch_gone s \<Longrightarrow> map_of (ch_stops (snd (depart s))) k = Some (Stopping armed True)"
      using ok assms(2) Stopping by (simp add: depart_run [OF d] at_end stop_ok_def resolved_def)
    moreover have "ch_gone s \<Longrightarrow> snd (kill_timer k failed s) = s"
      using ok assms(2) Stopping by (auto simp: kill_timer_def child_runs stop_ok_def split: bool.splits)
    ultimately show ?thesis using ok assms(2) Stopping resumes by (auto simp: stop_ok_def)
  next
    case StopDone
    then show ?thesis using ok assms(2) by (simp add: stop_ok_def kill_timer_def child_runs)
  qed
qed

end
