(* ===== verification/Cli_Options.thy ===== *)
theory Cli_Options
  imports JS_JSON Session_Validation
begin

text \<open>
  The environment options of \<open>app/cli.ts\<close>: numbers, the STUN URL and the ICE port range. Of the standard
  library this uses \<open>Number(text)\<close>, modelled from its grammar with exact rounding, and \<open>net.isIP\<close>, the
  textual forms of IPv4 and IPv6 addresses.
\<close>

section \<open>\<open>Number(text)\<close>\<close>

definition read_radix :: "nat \<Rightarrow> ustring \<Rightarrow> number" where
  "read_radix r s =
     (if s \<noteq> [] \<and> list_all (\<lambda>c. case hex_value c of Some d \<Rightarrow> d < r | None \<Rightarrow> False) s
      then to_double (of_nat (foldl (\<lambda>n c. r * n + the (hex_value c)) 0 s)) else NaN)"

text \<open>An unsigned decimal literal; one of the digits before and after the point may be missing.\<close>

definition read_decimal :: "ustring \<Rightarrow> number" where
  "read_decimal s =
     (if s = ustr ''Infinity'' then Infinity
      else let whole = takeWhile is_digit s; r = dropWhile is_digit s;
               (fracs, w) = (case r of c # t \<Rightarrow> if c = code_unit (CHR ''.'') then (takeWhile is_digit t, dropWhile is_digit t) else ([], r) | [] \<Rightarrow> ([], r))
           in if whole = [] \<and> fracs = [] then NaN
              else case read_exponent w of
                     Some (e, []) \<Rightarrow> to_double (of_nat (read_nat (whole @ fracs)) * 10 powi (e - int (length fracs)))
                   | _ \<Rightarrow> NaN)"

definition radix_of :: "16 word \<Rightarrow> nat option" where
  "radix_of c =
     (if one_of ''xX'' c then Some 16 else if one_of ''oO'' c then Some 8 else if one_of ''bB'' c then Some 2 else None)"

definition to_number :: "ustring \<Rightarrow> number" where
  "to_number text =
     (case trim text of
        [] \<Rightarrow> NumI 0
      | c # s \<Rightarrow>
          (case (if c = code_unit (CHR ''0'') \<and> s \<noteq> [] then radix_of (hd s) else None) of
             Some r \<Rightarrow> read_radix r (tl s)
           | None \<Rightarrow>
               if c = code_unit (CHR ''-'') then num_neg (read_decimal s)
               else if c = code_unit (CHR ''+'') then read_decimal s
               else read_decimal (c # s)))"

section \<open>Options\<close>

definition numberOption :: "ustring option \<Rightarrow> int \<Rightarrow> number result" where
  "numberOption value fallback =
     (let number = (case value of None \<Rightarrow> NumI fallback | Some text \<Rightarrow> to_number text) in
      if \<not> isSafeInteger number \<or> num_le number (NumI 0) then Inl (Err ''invalid_numeric_option'') else Inr number)"

text \<open>A missing value and an empty one are the same error.\<close>

definition required_option :: "(string \<Rightarrow> ustring option) \<Rightarrow> string \<Rightarrow> ustring result" where
  "required_option env name =
     (case env name of
        Some (c # s) \<Rightarrow> Inr (c # s)
      | _ \<Rightarrow> Inl (Err (''missing_environment:'' @ name)))"

text \<open>\<open>isIP(host) === 4\<close> and \<open>isIP(host) === 6\<close>\<close>

definition rchar :: "char \<Rightarrow> 16 word rx" where
  "rchar d = RSet (char_cls d)"

definition v4_seg :: "16 word rx" where
  "v4_seg =
     RAlt (RSeq (rlit ''25'') (RSet (range_cls 48 53)))
    (RAlt (RSeq (rchar (CHR ''2'')) (RSeq (RSet (range_cls 48 52)) (RSet digit_cls)))
    (RAlt (RSeq (rchar (CHR ''1'')) (RRep 2 2 (RSet digit_cls)))
    (RAlt (RSeq (RSet (range_cls 49 57)) (RSet digit_cls)) (RSet digit_cls))))"

definition v4_rx :: "16 word rx" where
  "v4_rx = RSeq (RRep 3 3 (RSeq v4_seg (rchar (CHR ''.'')))) v4_seg"

definition xdigit_cls :: "16 word \<Rightarrow> bool" where
  "xdigit_cls c \<longleftrightarrow> digit_cls c \<or> range_cls 65 70 c \<or> range_cls 97 102 c"

definition v6_seg :: "16 word rx" where
  "v6_seg = RRep 1 4 (RSet xdigit_cls)"

definition seg_colon :: "16 word rx" where
  "seg_colon = RSeq v6_seg (rchar (CHR '':''))"

definition colon_seg :: "16 word rx" where
  "colon_seg = RSeq (rchar (CHR '':'')) v6_seg"

text \<open>What may follow \<open>n\<close> leading groups.\<close>

definition v6_rest :: "nat \<Rightarrow> 16 word rx" where
  "v6_rest n =
     (if n = 7 then RAlt v6_seg (rchar (CHR '':''))
      else if n = 6 then RAlt v4_rx (RAlt colon_seg (rchar (CHR '':'')))
      else RAlt (RSeq (RRep 0 (5 - n) colon_seg) (RSeq (rchar (CHR '':'')) v4_rx))
          (RAlt (RRep 1 (7 - n) colon_seg) (rchar (CHR '':''))))"

definition v6_rx :: "nat \<Rightarrow> 16 word rx" where
  "v6_rx n = (if n = 0 then RSeq (rchar (CHR '':'')) (v6_rest 0) else RSeq (RRep n n seg_colon) (v6_rest n))"

text \<open>The zone of a scoped address, which the caller excludes.\<close>

definition zone_rx :: "16 word rx" where
  "zone_rx = ropt (RSeq (rchar (CHR ''%'')) (rplus (RSet (\<lambda>c. alnum_cls c \<or> one_of ''-.:'' c))))"

definition isIPv4 :: "ustring \<Rightarrow> bool" where
  "isIPv4 host = rx_match v4_rx host"

definition isIPv6 :: "ustring \<Rightarrow> bool" where
  "isIPv6 host = list_ex (\<lambda>n. rx_match (RSeq (v6_rx n) zone_rx) host) [0..<8]"

text \<open>The two expressions that split the authority; \<open>None\<close> when neither matches. The flag is \<open>ipv6\<close>.\<close>

definition port_part :: "ustring \<Rightarrow> ustring option option" where
  "port_part r =
     (case r of
        [] \<Rightarrow> Some None
      | c # port \<Rightarrow> if c = code_unit (CHR '':'') \<and> port \<noteq> [] \<and> code_unit (CHR '':'') \<notin> set port then Some (Some port) else None)"

definition bracketed :: "ustring \<Rightarrow> (ustring \<times> ustring option) option" where
  "bracketed authority =
     (case authority of
        c # s \<Rightarrow>
          if c = code_unit (CHR ''['')
          then (let host = takeWhile (\<lambda>d. d \<noteq> code_unit (CHR '']'')) s; r = dropWhile (\<lambda>d. d \<noteq> code_unit (CHR '']'')) s in
                if host = [] \<or> r = [] then None else map_option (\<lambda>port. (host, port)) (port_part (tl r)))
          else None
      | [] \<Rightarrow> None)"

definition plain_host :: "ustring \<Rightarrow> (ustring \<times> ustring option) option" where
  "plain_host authority =
     (let host = takeWhile (\<lambda>d. d \<noteq> code_unit (CHR '':'')) authority; r = dropWhile (\<lambda>d. d \<noteq> code_unit (CHR '':'')) authority in
      if host = [] then None else map_option (\<lambda>port. (host, port)) (port_part r))"

definition label_rx :: "16 word rx" where
  "label_rx = RSeq (RSet alnum_cls) (ropt (RSeq (RRep 0 61 (RSet (\<lambda>c. alnum_cls c \<or> one_of ''-'' c))) (RSet alnum_cls)))"

definition port_ok :: "ustring option \<Rightarrow> bool" where
  "port_ok port =
     (case port of
        None \<Rightarrow> True
      | Some p \<Rightarrow> rx_match (rplus (RSet digit_cls)) p \<and> \<not> num_less (to_number p) (NumI 1) \<and> \<not> num_less (NumI 65535) (to_number p))"

definition dns_ok :: "ustring \<Rightarrow> bool" where
  "dns_ok host =
     (let dnsHost = (if host \<noteq> [] \<and> last host = code_unit (CHR ''.'') then butlast host else host) in
      dnsHost \<noteq> [] \<and> length dnsHost \<le> 253 \<and> \<not> list_all (\<lambda>c. digit_cls c \<or> one_of ''.'' c) dnsHost
      \<and> list_all (rx_match label_rx) (split_on (ustr ''.'') dnsHost))"

definition validStunUrl :: "ustring \<Rightarrow> bool" where
  "validStunUrl url =
     (if length url > 2048 \<or> \<not> starts_with (ustr ''stun:'') url then False
      else let authority = drop 5 url; ipv6 = bracketed authority in
           case (if ipv6 \<noteq> None then ipv6 else plain_host authority) of
             None \<Rightarrow> False
           | Some (host, port) \<Rightarrow>
               if \<not> port_ok port then False
               else if ipv6 \<noteq> None then code_unit (CHR ''%'') \<notin> set host \<and> isIPv6 host \<and> \<not> isIPv4 host
               else if isIPv4 host then True else dns_ok host)"

record iceSettings =
  ice_servers :: "ustring list"
  ice_portRange :: "(number \<times> number) option"

definition iceOptions :: "(string \<Rightarrow> ustring option) \<Rightarrow> iceSettings result" where
  "iceOptions env =
     (let stunUrl = env ''BRIDGE_ICE_STUN_URL''; servers = (case stunUrl of None \<Rightarrow> [] | Some url \<Rightarrow> [url]) in
      bindR (failIf (case stunUrl of None \<Rightarrow> False | Some url \<Rightarrow> \<not> validStunUrl url) (Err ''invalid_ice_stun_url'')) (\<lambda>_.
      case (env ''BRIDGE_ICE_PORT_MIN'', env ''BRIDGE_ICE_PORT_MAX'') of
        (None, None) \<Rightarrow> Inr \<lparr>ice_servers = servers, ice_portRange = None\<rparr>
      | (Some minimum, Some maximum) \<Rightarrow>
          bindR (numberOption (Some minimum) 1) (\<lambda>lo.
          bindR (numberOption (Some maximum) 1) (\<lambda>hi.
          bindR (failIf (num_less (NumI 65535) hi \<or> num_le hi lo) (Err ''invalid_ice_port_range'')) (\<lambda>_.
          Inr \<lparr>ice_servers = servers, ice_portRange = Some (lo, hi)\<rparr>)))
      | _ \<Rightarrow> Inl (Err ''invalid_ice_port_range'')))"


section \<open>Numbers\<close>

lemma numberOption_range: "numberOption v fallback = Inr n \<Longrightarrow> \<exists>i. n = NumI i \<and> 1 \<le> i \<and> i \<le> MAX_SAFE_INTEGER"
  by (auto simp: numberOption_def Let_def isSafeInteger_iff split: if_splits)

lemma trim_digits: "list_all is_digit s \<Longrightarrow> trim s = s"
proof -
  assume d: "list_all is_digit s"
  have no: "\<not> js_space c" if "is_digit c" for c
    using that by (auto simp: js_space_def is_digit_def word_le_nat_alt)
  have "dropWhile js_space t = t" if "list_all is_digit t" for t using that no by (cases t) auto
  moreover have "list_all is_digit (rev s)" using d by simp
  ultimately show ?thesis using d by (simp add: trim_def)
qed

lemma digit_not:
  "is_digit c \<Longrightarrow> \<not> is_digit (code_unit d) \<Longrightarrow> c \<noteq> code_unit d"
  by auto

lemma not_digits: "\<not> is_digit (code_unit (CHR ''-''))" "\<not> is_digit (code_unit (CHR ''+''))" "\<not> is_digit (code_unit (CHR ''I''))"
  "\<not> is_digit (code_unit (CHR ''x''))" "\<not> is_digit (code_unit (CHR ''X''))" "\<not> is_digit (code_unit (CHR ''o''))" "\<not> is_digit (code_unit (CHR ''O''))"
  "\<not> is_digit (code_unit (CHR ''b''))" "\<not> is_digit (code_unit (CHR ''B''))" "\<not> is_digit (code_unit (CHR ''.''))" "\<not> is_digit (code_unit (CHR '':''))"
  by (simp_all add: is_digit_def unat_code_unit)

lemma radix_digit: "is_digit c \<Longrightarrow> radix_of c = None"
  using not_digits by (auto simp: radix_of_def one_of_def char_cls_def)

lemma read_decimal_digits:
  assumes "s \<noteq> []" and "list_all is_digit s"
  shows "read_decimal s = to_double (of_nat (read_nat s))"
proof -
  have "s \<noteq> ustr ''Infinity''" using assms not_digits(3) by (auto simp: ustr_Cons)
  moreover have t: "takeWhile is_digit s = s" "dropWhile is_digit s = []" using assms(2) by (auto simp: list_all_iff)
  ultimately show ?thesis unfolding read_decimal_def t using assms(1) by (simp add: read_exponent_def)
qed

lemma to_number_digits:
  assumes "s \<noteq> []" and "list_all is_digit s"
  shows "to_number s = to_double (of_nat (read_nat s))"
proof -
  obtain c t where s: "s = c # t" using assms(1) by (cases s) auto
  then have "c \<noteq> code_unit (CHR ''-'')" "c \<noteq> code_unit (CHR ''+'')" using assms(2) not_digits by auto
  moreover have "t \<noteq> [] \<Longrightarrow> radix_of (hd t) = None" using assms(2) s by (cases t) (auto intro: radix_digit)
  ultimately show ?thesis
    using read_decimal_digits [OF assms] s trim_digits [OF assms(2)] by (auto simp: to_number_def)
qed

lemma numberOption_decimal:
  assumes "1 \<le> n" and "int n \<le> MAX_SAFE_INTEGER"
  shows "numberOption (Some (ustr (show_nat n))) fallback = Inr (NumI (int n))"
proof -
  have "to_double (of_int (int n)) = NumI (int n)" using assms by (intro to_double_int) (simp add: MAX_SAFE_INTEGER_def)
  moreover have "ustr (show_nat n) \<noteq> []" by (simp add: ustr_def)
  ultimately have "to_number (ustr (show_nat n)) = NumI (int n)"
    using to_number_digits [of "ustr (show_nat n)"] show_nat_digits [of n] by simp
  then show ?thesis using assms by (simp add: numberOption_def)
qed

lemma port_number:
  assumes "p \<noteq> []" and "list_all is_digit p"
  shows "(\<not> num_less (to_number p) (NumI 1) \<and> \<not> num_less (NumI 65535) (to_number p)) \<longleftrightarrow> 1 \<le> read_nat p \<and> read_nat p \<le> 65535"
proof (cases "read_nat p \<le> 65535")
  case True
  have "to_double (of_int (int (read_nat p))) = NumI (int (read_nat p))" using True by (intro to_double_int) simp
  then show ?thesis using to_number_digits [OF assms] True by auto
next
  case False
  have "num_le (to_double (of_int 65536)) (to_double (of_nat (read_nat p)))" using False by (intro to_double_mono) simp
  moreover have "to_double (of_int 65536) = NumI 65536" by (rule to_double_int) simp
  ultimately have "num_le (NumI 65536) (to_number p)" using to_number_digits [OF assms] by simp
  then have "num_less (NumI 65535) (to_number p)" by (cases "to_number p") auto
  then show ?thesis using False by simp
qed

lemma port_ok_Some: "port_ok (Some p) \<longleftrightarrow> p \<noteq> [] \<and> list_all is_digit p \<and> 1 \<le> read_nat p \<and> read_nat p \<le> 65535"
  using port_number [of p] by (auto simp: port_ok_def rx_match_iff match_plus_set digit_cls_is_digit)

section \<open>URLs\<close>

text \<open>The characters an expression can match.\<close>

fun rx_over :: "('a \<Rightarrow> bool) \<Rightarrow> 'a rx \<Rightarrow> bool" where
  "rx_over P RNone = True"
| "rx_over P REps = True"
| "rx_over P (RSet p) = (\<forall>c. p c \<longrightarrow> P c)"
| "rx_over P (RSeq a b) = (rx_over P a \<and> rx_over P b)"
| "rx_over P (RAlt a b) = (rx_over P a \<and> rx_over P b)"
| "rx_over P (RStar a) = rx_over P a"
| "rx_over P (RRep m n a) = rx_over P a"

lemma rx_over_in: "rx_in s r \<Longrightarrow> rx_over P r \<Longrightarrow> list_all P s"
  by (induction rule: rx_in.induct) auto

lemma rx_over_rlit: "list_all (\<lambda>d. P (code_unit d)) ds \<Longrightarrow> rx_over P (rlit ds)"
  by (induction ds) (simp_all add: rlit.simps char_cls_def)

definition host_char :: "16 word \<Rightarrow> bool" where
  "host_char c \<longleftrightarrow> alnum_cls c \<or> one_of ''.-:'' c"

lemma v4_over: "rx_over host_char v4_rx"
  by (auto simp: v4_rx_def v4_seg_def rchar_def host_char_def one_of_def char_cls_def alnum_cls_def digit_cls_def range_cls_def unat_code_unit
      intro!: rx_over_rlit)

lemma v6_over: "rx_over host_char (v6_rx n)"
  using v4_over
  by (auto simp: v6_rx_def v6_rest_def seg_colon_def colon_seg_def v6_seg_def rchar_def host_char_def one_of_def char_cls_def alnum_cls_def
      xdigit_cls_def alpha_cls_def range_cls_def)

lemma isIPv6_chars: "isIPv6 host \<Longrightarrow> code_unit (CHR ''%'') \<notin> set host \<Longrightarrow> list_all host_char host"
proof -
  assume "isIPv6 host" and no: "code_unit (CHR ''%'') \<notin> set host"
  then obtain n where "rx_in host (RSeq (v6_rx n) zone_rx)" by (auto simp: isIPv6_def list_ex_iff rx_match_iff)
  then obtain x y where h: "host = x @ y" "rx_in x (v6_rx n)" "rx_in y zone_rx" unfolding match_seq by blast
  have "y = []" using h(3) no h(1) by (auto simp: zone_rx_def match_opt rchar_def match_seq_set char_cls_def)
  then show ?thesis using h(1) rx_over_in [OF h(2) v6_over] by simp
qed

lemma label_chars: "rx_match label_rx l \<Longrightarrow> list_all host_char l"
  by (rule rx_over_in [of l label_rx]) (auto simp: rx_match_iff label_rx_def ropt_def host_char_def one_of_def)

lemma join_chars: "list_all P sep \<Longrightarrow> list_all (list_all P) ls \<Longrightarrow> list_all P (join sep ls)"
  by (induction sep ls rule: join.induct) auto

lemma dns_chars: "dns_ok host \<Longrightarrow> list_all host_char host"
proof -
  assume ok: "dns_ok host"
  define d where "d = (if host \<noteq> [] \<and> last host = code_unit (CHR ''.'') then butlast host else host)"
  have dot: "host_char (code_unit (CHR ''.''))" by (simp add: host_char_def one_of_def char_cls_def)
  have "list_all (rx_match label_rx) (split_on (ustr ''.'') d)" using ok by (simp add: dns_ok_def Let_def d_def)
  then have "list_all (list_all host_char) (split_on (ustr ''.'') d)" by (auto simp: list_all_iff intro: label_chars [unfolded list_all_iff, rule_format])
  then have "list_all host_char (join (ustr ''.'') (split_on (ustr ''.'') d))" by (intro join_chars) (simp_all add: ustr_Cons dot)
  then have "list_all host_char d" by (simp add: join_split_on ustr_Cons)
  moreover have "host = d \<or> host = d @ [code_unit (CHR ''.'')]" by (auto simp: d_def) (metis append_butlast_last_id)
  ultimately show ?thesis using dot by auto
qed

definition port_text :: "ustring option \<Rightarrow> ustring" where
  "port_text port = (case port of None \<Rightarrow> [] | Some p \<Rightarrow> code_unit (CHR '':'') # p)"

lemma port_part_text: "port_part r = Some port \<Longrightarrow> r = port_text port"
  by (auto simp: port_part_def port_text_def split: list.splits if_splits)

lemma bracketed_text: "bracketed a = Some (host, port) \<Longrightarrow> a = [code_unit (CHR ''['')] @ host @ [code_unit (CHR '']'')] @ port_text port"
proof -
  assume "bracketed a = Some (host, port)"
  then obtain s where a: "a = code_unit (CHR ''['') # s" and host: "host = takeWhile (\<lambda>d. d \<noteq> code_unit (CHR '']'')) s"
    and r: "dropWhile (\<lambda>d. d \<noteq> code_unit (CHR '']'')) s \<noteq> []" "port_part (tl (dropWhile (\<lambda>d. d \<noteq> code_unit (CHR '']'')) s)) = Some port"
    by (auto simp: bracketed_def Let_def split: list.splits if_splits)
  have "hd (dropWhile (\<lambda>d. d \<noteq> code_unit (CHR '']'')) s) = code_unit (CHR '']'')" using hd_dropWhile [OF r(1)] by simp
  then have "dropWhile (\<lambda>d. d \<noteq> code_unit (CHR '']'')) s = code_unit (CHR '']'') # port_text port"
    using r port_part_text by (metis list.collapse)
  then have "s = host @ code_unit (CHR '']'') # port_text port" unfolding host by (metis takeWhile_dropWhile_id)
  then show ?thesis using a by simp
qed

lemma plain_text: "plain_host a = Some (host, port) \<Longrightarrow> a = host @ port_text port"
  using port_part_text by (auto simp: plain_host_def Let_def split: if_splits)

lemma stun_url:
  assumes "validStunUrl url"
  shows "length url \<le> 2048 \<and> (\<exists>host port. (url = ustr ''stun:'' @ host @ port_text port \<or> url = ustr ''stun:'' @ ustr ''['' @ host @ ustr '']'' @ port_text port)
    \<and> host \<noteq> [] \<and> list_all host_char host \<and> (\<forall>p. port = Some p \<longrightarrow> list_all is_digit p \<and> 1 \<le> read_nat p \<and> read_nat p \<le> 65535))"
proof -
  have len: "length url \<le> 2048" and st: "starts_with (ustr ''stun:'') url" using assms by (auto simp: validStunUrl_def split: if_splits)
  have "length (ustr ''stun:'') = 5" by simp
  then have url: "url = ustr ''stun:'' @ drop 5 url" using st unfolding starts_with_iff by (metis append_eq_conv_conj)
  have ports: "port_ok port \<Longrightarrow> port = Some p \<Longrightarrow> list_all is_digit p \<and> 1 \<le> read_nat p \<and> read_nat p \<le> 65535" for port p
    using port_ok_Some by simp
  show ?thesis
  proof (cases "bracketed (drop 5 url)")
    case (Some hp)
    obtain host port where hp: "hp = (host, port)" by fastforce
    then have "port_ok port" "list_all host_char host"
      using assms Some len st isIPv6_chars by (auto simp: validStunUrl_def Let_def split: if_splits)
    moreover have "host \<noteq> []" using Some hp by (auto simp: bracketed_def Let_def split: list.splits if_splits)
    moreover have "drop 5 url = ustr ''['' @ host @ ustr '']'' @ port_text port" using bracketed_text Some hp by (simp add: ustr_Cons)
    ultimately show ?thesis using len url ports by (intro conjI exI [of _ host] exI [of _ port]) auto
  next
    case None
    then obtain host port where hp: "plain_host (drop 5 url) = Some (host, port)"
      using assms len st by (auto simp: validStunUrl_def Let_def split: option.splits)
    then have "port_ok port" and ok: "isIPv4 host \<or> dns_ok host"
      using assms None len st by (auto simp: validStunUrl_def Let_def split: if_splits)
    moreover have "list_all host_char host" using ok dns_chars rx_over_in [OF _ v4_over] by (auto simp: isIPv4_def rx_match_iff)
    moreover have "host \<noteq> []" using hp by (auto simp: plain_host_def Let_def split: if_splits)
    moreover have "drop 5 url = host @ port_text port" by (rule plain_text [OF hp])
    ultimately show ?thesis using len url ports by (intro conjI exI [of _ host] exI [of _ port]) auto
  qed
qed


section \<open>Properties\<close>

text \<open>
  C40: Accepted ICE settings are safe to hand to the peer implementation. The port range is given by both
  bounds or by none, and then 1 <= min < max <= 65535; there is a STUN server exactly when its URL is set, and
  the URL is at most 2048 characters: \<open>stun:\<close>, a host of letters, digits, dots, hyphens and colons, in brackets
  for IPv6, and at most one port in 1 to 65535, so no user, path, query, zone or white space gets through.
\<close>

theorem ice_sound:
  assumes "iceOptions env = Inr o'"
  shows "(case ice_portRange o' of
       None \<Rightarrow> env ''BRIDGE_ICE_PORT_MIN'' = None \<and> env ''BRIDGE_ICE_PORT_MAX'' = None
     | Some (lo, hi) \<Rightarrow> env ''BRIDGE_ICE_PORT_MIN'' \<noteq> None \<and> env ''BRIDGE_ICE_PORT_MAX'' \<noteq> None
         \<and> (\<exists>i j. lo = NumI i \<and> hi = NumI j \<and> 1 \<le> i \<and> i < j \<and> j \<le> 65535))
    \<and> (case env ''BRIDGE_ICE_STUN_URL'' of
         None \<Rightarrow> ice_servers o' = []
       | Some url \<Rightarrow> ice_servers o' = [url] \<and> length url \<le> 2048
           \<and> (\<exists>host port. (url = ustr ''stun:'' @ host @ port_text port \<or> url = ustr ''stun:'' @ ustr ''['' @ host @ ustr '']'' @ port_text port)
              \<and> host \<noteq> [] \<and> list_all host_char host
              \<and> (\<forall>p. port = Some p \<longrightarrow> list_all is_digit p \<and> 1 \<le> read_nat p \<and> read_nat p \<le> 65535)))"
proof
  note accepted = assms [unfolded iceOptions_def Let_def]
  show "case ice_portRange o' of
       None \<Rightarrow> env ''BRIDGE_ICE_PORT_MIN'' = None \<and> env ''BRIDGE_ICE_PORT_MAX'' = None
     | Some (lo, hi) \<Rightarrow> env ''BRIDGE_ICE_PORT_MIN'' \<noteq> None \<and> env ''BRIDGE_ICE_PORT_MAX'' \<noteq> None
         \<and> (\<exists>i j. lo = NumI i \<and> hi = NumI j \<and> 1 \<le> i \<and> i < j \<and> j \<le> 65535)"
  proof (cases "env ''BRIDGE_ICE_PORT_MIN''")
    case None
    then show ?thesis using accepted by (cases "env ''BRIDGE_ICE_PORT_MAX''") (auto split: option.splits)
  next
    case (Some lo)
    obtain hi where hi: "env ''BRIDGE_ICE_PORT_MAX'' = Some hi" using accepted Some by (cases "env ''BRIDGE_ICE_PORT_MAX''") auto
    obtain x y where xy: "numberOption (Some lo) 1 = Inr x" "numberOption (Some hi) 1 = Inr y"
      "\<not> num_less (NumI 65535) y" "\<not> num_le y x" "ice_portRange o' = Some (x, y)"
      using accepted Some hi by auto
    obtain i j where "x = NumI i" "y = NumI j" "1 \<le> i" using numberOption_range [OF xy(1)] numberOption_range [OF xy(2)] by blast
    then show ?thesis using xy(3-5) Some hi by auto
  qed
  show "case env ''BRIDGE_ICE_STUN_URL'' of
         None \<Rightarrow> ice_servers o' = []
       | Some url \<Rightarrow> ice_servers o' = [url] \<and> length url \<le> 2048
           \<and> (\<exists>host port. (url = ustr ''stun:'' @ host @ port_text port \<or> url = ustr ''stun:'' @ ustr ''['' @ host @ ustr '']'' @ port_text port)
              \<and> host \<noteq> [] \<and> list_all host_char host
              \<and> (\<forall>p. port = Some p \<longrightarrow> list_all is_digit p \<and> 1 \<le> read_nat p \<and> read_nat p \<le> 65535))"
  proof (cases "env ''BRIDGE_ICE_STUN_URL''")
    case None
    then show ?thesis using accepted by (auto split: option.splits)
  next
    case (Some url)
    have "validStunUrl url" "ice_servers o' = [url]" using accepted Some by (auto split: option.splits)
    then show ?thesis unfolding Some option.case using stun_url by blast
  qed
qed

section \<open>Witnesses\<close>

definition example_environment :: "string \<Rightarrow> ustring option" where
  "example_environment = map_of [(''BRIDGE_ICE_STUN_URL'', ustr ''stun:a:3478''), (''BRIDGE_ICE_PORT_MIN'', ustr (show_nat 50000)), (''BRIDGE_ICE_PORT_MAX'', ustr (show_nat 50019))]"

lemma example_stun: "validStunUrl (ustr ''stun:a:3478'')"
proof -
  have port: "port_ok (Some (ustr ''3478''))"
    by (simp add: port_ok_Some ustr_Cons is_digit_def unat_code_unit read_nat_def digit_value_def)
  have "dns_ok (ustr ''a'')"
    by (simp add: dns_ok_def ustr_Cons digit_cls_def range_cls_def unat_code_unit one_of_def char_cls_def split_on_def starts_with_def
        rx_match_iff label_rx_def rx_simps alnum_cls_def alpha_cls_def)
  moreover have "bracketed (ustr ''a:3478'') = None" by (simp add: bracketed_def ustr_Cons)
  moreover have "plain_host (ustr ''a:3478'') = Some (ustr ''a'', Some (ustr ''3478''))"
    by (simp add: plain_host_def port_part_def ustr_Cons)
  moreover have "starts_with (ustr ''stun:'') (ustr ''stun:a:3478'')" "drop 5 (ustr ''stun:a:3478'') = ustr ''a:3478''"
    by (simp_all add: starts_with_def ustr_Cons)
  ultimately show ?thesis using port by (simp add: validStunUrl_def)
qed

lemma example_ice:
  "iceOptions example_environment = Inr \<lparr>ice_servers = [ustr ''stun:a:3478''], ice_portRange = Some (NumI 50000, NumI 50019)\<rparr>"
  using numberOption_decimal [of 50000 1] numberOption_decimal [of 50019 1]
  by (simp add: iceOptions_def example_environment_def example_stun MAX_SAFE_INTEGER_def)

theorem ice_sound_witness:
  "\<exists>i j. ice_portRange \<lparr>ice_servers = [ustr ''stun:a:3478''], ice_portRange = Some (NumI 50000, NumI 50019)\<rparr> = Some (NumI i, NumI j)
     \<and> 1 \<le> i \<and> i < j \<and> j \<le> 65535"
  using ice_sound [OF example_ice] by simp

end
