(* ===== verification/Launch.thy ===== *)
theory Launch
  imports Cli_Options App_Runtime
begin

text \<open>
  \<open>launch\<close> and \<open>main\<close> of \<open>app/cli.ts\<close>: from the environment to the settings of the application, and the
  lifetime of the process around it. Files, TLS, native modules and the console are outside; every access is
  an effect in its order, and what it returns is a parameter. Reading the three files is one suspension.
\<close>

section \<open>Launching\<close>

datatype launchEffect =
    ReadFiles ustring ustring ustring
  | SecureContext
  | ReadFixture ustring
  | LoadModule string
  | StartApp

record launchWorld =
  lw_readFiles :: "ustring \<Rightarrow> ustring \<Rightarrow> ustring \<Rightarrow> ustring result"
  lw_secureContext :: "unit result"
  lw_parses :: "ustring \<Rightarrow> bool"
  lw_toJS :: "ustring \<Rightarrow> jsval result"
  lw_readFixture :: "ustring \<Rightarrow> unit result"
  lw_loader :: "string \<Rightarrow> unit result"

record launchPlan =
  lp_settings :: appSettings
  lp_host :: ustring
  lp_port :: number
  lp_args :: "ustring list"
  lp_nodeName :: ustring
  lp_backends :: "string list"
  lp_ice :: iceSettings
  lp_spinTimeoutMs :: number

type_synonym environment = "string \<Rightarrow> ustring option"

definition launch_emit :: "launchEffect \<Rightarrow> (launchEffect list, unit) prog" where
  "launch_emit x = modE (\<lambda>h. h @ [x])"

text \<open>\<open>(env.X ?? '').split(',').filter(Boolean)\<close>\<close>

definition name_list :: "environment \<Rightarrow> string \<Rightarrow> ustring list" where
  "name_list env name =
     filter (\<lambda>s. s \<noteq> []) (split_on (ustr '','') (case env name of None \<Rightarrow> [] | Some s \<Rightarrow> s))"

definition env_default :: "environment \<Rightarrow> string \<Rightarrow> string \<Rightarrow> ustring" where
  "env_default env name dflt = (case env name of None \<Rightarrow> ustr dflt | Some s \<Rightarrow> s)"

fun text_of :: "jsval slot \<Rightarrow> ustring option" where
  "text_of (Data (Str s)) = Some s"
| "text_of _ = None"

definition ros_args :: "environment \<Rightarrow> ustring list result" where
  "ros_args env =
     bindR (json_parse (env_default env ''BRIDGE_ROS_ARGS'' ''[]'')) (\<lambda>args.
     case args of
       Arr slots _ \<Rightarrow> if list_ex (\<lambda>v. text_of v = None) slots then Inl (Err ''invalid_ros_args'') else Inr (List.map_filter text_of slots)
     | _ \<Rightarrow> Inl (Err ''invalid_ros_args''))"

definition option_number :: "environment \<Rightarrow> string \<Rightarrow> int \<Rightarrow> (launchEffect list, number) prog" where
  "option_number env name dflt = liftE (numberOption (env name) dflt)"

text \<open>The credential, the files and the inspection of the configuration.\<close>

definition launch_source :: "launchWorld \<Rightarrow> environment \<Rightarrow> (launchEffect list, ustring \<times> ustring \<times> number) prog" where
  "launch_source w env =
     bindE (liftE (required_option env ''BRIDGE_CREDENTIAL'')) (\<lambda>credential.
     seqE (throwIf (length credential < 32) (Err ''invalid_credential''))
    (bindE (liftE (required_option env ''BRIDGE_CONFIG'')) (\<lambda>configPath.
     bindE (liftE (required_option env ''BRIDGE_TLS_KEY'')) (\<lambda>keyPath.
     bindE (liftE (required_option env ''BRIDGE_TLS_CERT'')) (\<lambda>certPath.
     seqE (launch_emit (ReadFiles configPath keyPath certPath))
    (bindE (liftE (lw_readFiles w configPath keyPath certPath)) (\<lambda>configSource.
     seqE (launch_emit SecureContext)
    (seqE (liftE (lw_secureContext w))
    (bindE (option_number env ''BRIDGE_MAX_CONFIG_BYTES'' 1048576) (\<lambda>maxConfigBytes.
     bindE (liftE (inspectConfig (lw_parses w) (lw_toJS w) configSource maxConfigBytes)) (\<lambda>_.
     retE (credential, configSource, maxConfigBytes))))))))))))"

definition launch_address :: "environment \<Rightarrow> (launchEffect list, number \<times> ustring) prog" where
  "launch_address env =
     bindE (option_number env ''BRIDGE_PORT'' 7443) (\<lambda>port.
     seqE (throwIf (num_less (NumI 65535) port) (Err ''invalid_port''))
    (seqE (throwIf (env_default env ''BRIDGE_HOST'' ''127.0.0.1'' = []) (Err ''invalid_host''))
     (retE (port, env_default env ''BRIDGE_HOST'' ''127.0.0.1''))))"

definition launch_fixture :: "launchWorld \<Rightarrow> environment \<Rightarrow> (launchEffect list, unit) prog" where
  "launch_fixture w env =
     (case env ''BRIDGE_VIDEO_FIXTURE'' of
        None \<Rightarrow> retE ()
      | Some path \<Rightarrow> seqE (launch_emit (ReadFixture path)) (liftE (lw_readFixture w path)))"

text \<open>The settings of \<open>startApp\<close>.\<close>

definition launch_settings :: "environment \<Rightarrow> ustring \<times> ustring \<times> number \<Rightarrow> (launchEffect list, appSettings) prog" where
  "launch_settings env source =
     (case source of (credential, configSource, maxConfigBytes) \<Rightarrow>
     bindE (option_number env ''BRIDGE_NEGOTIATION_TIMEOUT_MS'' 30000) (\<lambda>timeoutMs.
     bindE (option_number env ''BRIDGE_MAX_SDP_BYTES'' 262144) (\<lambda>maxSdpBytes.
     bindE (option_number env ''BRIDGE_REQUEST_TIMEOUT_MS'' 10000) (\<lambda>requestTimeoutMs.
     bindE (option_number env ''BRIDGE_MAX_HANDLES'' 64) (\<lambda>maxHandles.
     bindE (option_number env ''BRIDGE_MAX_REQUESTS'' 64) (\<lambda>maxRequests.
     bindE (option_number env ''BRIDGE_REQUEST_TTL_MS'' 30000) (\<lambda>requestTtlMs.
     bindE (option_number env ''BRIDGE_MAX_CONTROL_RATE_HZ'' 100) (\<lambda>maxControlRateHz.
     retE \<lparr>as_credential = Str credential, as_configSource = configSource, as_maxConfigBytes = maxConfigBytes,
       as_subscribeTopics = name_list env ''BRIDGE_SUBSCRIBE_TOPICS'', as_publishScopes = name_list env ''BRIDGE_PUBLISH_SCOPES'',
       as_videoScopes = name_list env ''BRIDGE_VIDEO_SCOPES'', as_timeoutMs = timeoutMs, as_maxSdpBytes = maxSdpBytes,
       as_requestTimeoutMs = requestTimeoutMs, as_maxHandles = maxHandles, as_maxRequests = maxRequests,
       as_requestTtlMs = requestTtlMs, as_maxControlRateHz = maxControlRateHz\<rparr>))))))))"

text \<open>Everything up to the native modules.\<close>

definition launch_checks :: "launchWorld \<Rightarrow> environment \<Rightarrow> (launchEffect list, launchPlan) prog" where
  "launch_checks w env =
     bindE (launch_source w env) (\<lambda>source.
     bindE (launch_address env) (\<lambda>(port, host).
     seqE (launch_fixture w env)
    (bindE (liftE (ros_args env)) (\<lambda>args.
     bindE (liftE (iceOptions env)) (\<lambda>ice.
     bindE (launch_settings env source) (\<lambda>settings.
     bindE (option_number env ''BRIDGE_SPIN_TIMEOUT_MS'' 10) (\<lambda>spinTimeoutMs.
     retE \<lparr>lp_settings = settings, lp_host = host, lp_port = port, lp_args = args,
       lp_nodeName = env_default env ''BRIDGE_NODE_NAME'' ''ros_webrtc_gateway'',
       lp_backends = (if env ''BRIDGE_VIDEO_FIXTURE'' = None then [] else [''fixture''])
         @ (if env ''BRIDGE_VIDEO_WORKER'' = None then [] else [''l4t_v4l2'', ''openh264'']),
       lp_ice = ice, lp_spinTimeoutMs = spinTimeoutMs\<rparr>)))))))"

definition launch :: "launchWorld \<Rightarrow> environment \<Rightarrow> (launchEffect list, launchPlan) prog" where
  "launch w env =
     bindE (launch_checks w env) (\<lambda>plan.
     seqE (launch_emit (LoadModule ''rclnodejs''))
    (seqE (liftE (lw_loader w ''rclnodejs''))
    (seqE (launch_emit (LoadModule ''@ros-webrtc/werift-datachannel''))
    (seqE (liftE (lw_loader w ''@ros-webrtc/werift-datachannel''))
    (seqE (launch_emit StartApp) (retE plan))))))"


section \<open>What a launch guarantees\<close>

definition plan_ok :: "environment \<Rightarrow> launchPlan \<Rightarrow> bool" where
  "plan_ok env plan \<longleftrightarrow>
     (\<exists>i. lp_port plan = NumI i \<and> 1 \<le> i \<and> i \<le> 65535) \<and> lp_host plan \<noteq> [] \<and> iceOptions env = Inr (lp_ice plan)
     \<and> (\<exists>i. lp_spinTimeoutMs plan = NumI i \<and> 1 \<le> i \<and> i \<le> MAX_SAFE_INTEGER)
     \<and> [] \<notin> set (as_subscribeTopics (lp_settings plan)) \<and> [] \<notin> set (as_publishScopes (lp_settings plan)) \<and> [] \<notin> set (as_videoScopes (lp_settings plan))"

lemma option_number_Inr: "option_number env name dflt h = (Inr n, h') \<longleftrightarrow> numberOption (env name) dflt = Inr n \<and> h' = h"
  by (auto simp: option_number_def run_Inr)

lemma source_accepted:
  assumes "launch_source w env h = (Inr (credential, source, n), h')"
  shows "32 \<le> length credential \<and> (\<exists>c. inspectConfig (lw_parses w) (lw_toJS w) source n = Inr c)"
  using assms by (auto simp: launch_source_def run_Inr option_number_Inr)

lemma address_ok:
  assumes "launch_address env h = (Inr (port, host), h')"
  shows "host \<noteq> [] \<and> (\<exists>i. port = NumI i \<and> 1 \<le> i \<and> i \<le> 65535)"
proof -
  have "numberOption (env ''BRIDGE_PORT'') 7443 = Inr port" "\<not> num_less (NumI 65535) port" "host \<noteq> []"
    using assms by (auto simp: launch_address_def run_Inr option_number_Inr)
  then show ?thesis using numberOption_range by fastforce
qed

lemma number_positive: "numberOption v d = Inr n \<Longrightarrow> positiveLimit n = Inr ()"
  using numberOption_range [of v d n] by auto

lemma settings_limits:
  assumes "launch_settings env (credential, source, n) h = (Inr st, h')"
  shows "as_credential st = Str credential \<and> as_configSource st = source \<and> as_maxConfigBytes st = n
    \<and> mapR positiveLimit [as_timeoutMs st, as_maxSdpBytes st, as_requestTimeoutMs st, as_maxHandles st, as_maxRequests st, as_requestTtlMs st,
        as_maxControlRateHz st] = Inr [(), (), (), (), (), (), ()]
    \<and> as_subscribeTopics st = name_list env ''BRIDGE_SUBSCRIBE_TOPICS'' \<and> as_publishScopes st = name_list env ''BRIDGE_PUBLISH_SCOPES''
    \<and> as_videoScopes st = name_list env ''BRIDGE_VIDEO_SCOPES''"
  using assms by (auto simp: launch_settings_def run_Inr option_number_Inr number_positive simp del: positiveLimit_Inr)

lemma checks_plan:
  assumes "launch_checks w env h = (Inr plan, h')" and "aw_parses aw = lw_parses w" and "aw_toJS aw = lw_toJS w"
  shows "plan_ok env plan \<and> (\<exists>s. app_begin aw (lp_settings plan) = Inr s)"
proof -
  obtain credential source n h1 port host h2 h3 ice st h4 h5 spin where
    src: "launch_source w env h = (Inr (credential, source, n), h1)" and addr: "launch_address env h1 = (Inr (port, host), h2)"
    and ice: "iceOptions env = Inr ice" and st: "launch_settings env (credential, source, n) h3 = (Inr st, h4)"
    and spin: "numberOption (env ''BRIDGE_SPIN_TIMEOUT_MS'') 10 = Inr spin"
    and plan: "lp_settings plan = st" "lp_port plan = port" "lp_host plan = host" "lp_ice plan = ice" "lp_spinTimeoutMs plan = spin"
    using assms(1) by (auto simp: launch_checks_def run_Inr option_number_Inr)
  note limits = settings_limits [OF st]
  obtain c where "inspectConfig (lw_parses w) (lw_toJS w) source n = Inr c" "\<not> length credential < 32"
    using source_accepted [OF src] by auto
  then have "\<exists>s. app_begin aw st = Inr s"
    using limits assms(2,3) by (simp add: app_begin_def failIf_def del: mapR.simps)
  then show ?thesis
    using address_ok [OF addr] ice numberOption_range [OF spin] limits plan by (simp add: plan_ok_def name_list_def)
qed


text \<open>No effect of the checks loads a module.\<close>

definition unloaded :: "launchEffect list \<Rightarrow> bool" where
  "unloaded h \<longleftrightarrow> (\<forall>x \<in> set h. (\<forall>m. x \<noteq> LoadModule m) \<and> x \<noteq> StartApp)"

lemma checks_unloaded: "keeps unloaded (launch_checks w env)"
proof -
  have emits: "(\<forall>m. x \<noteq> LoadModule m) \<Longrightarrow> x \<noteq> StartApp \<Longrightarrow> keeps unloaded (launch_emit x)" for x
    unfolding launch_emit_def by (rule keeps_modE) (simp add: unloaded_def)
  have number: "keeps unloaded (option_number env name d)" for name d by (simp add: option_number_def keeps_pure)
  have "keeps unloaded (launch_source w env)" "keeps unloaded (launch_address env)" "keeps unloaded (launch_fixture w env)"
    "keeps unloaded (launch_settings env source)" for source
    unfolding launch_source_def launch_address_def launch_fixture_def launch_settings_def
    by (auto simp: keeps_pure number emits intro!: keeps_bindE keeps_seqE split: option.split prod.split)
  then show ?thesis unfolding launch_checks_def by (auto simp: keeps_pure number intro!: keeps_bindE keeps_seqE split: prod.split)
qed

section \<open>The process\<close>

text \<open>\<open>main\<close>: the heartbeat timer and the handlers of the two signals; the flag of a signal is its registration.\<close>

datatype mainPhase = Launching | Serving | MainRejected error

datatype signal = SIGINT | SIGTERM

record mainProcess =
  mp_phase :: mainPhase
  mp_heartbeat :: bool
  mp_handlers :: "signal set"
  mp_closes :: nat

definition main_begin :: mainProcess where
  "main_begin = \<lparr>mp_phase = Launching, mp_heartbeat = True, mp_handlers = {}, mp_closes = 0\<rparr>"

definition main_launched :: "unit result \<Rightarrow> mainProcess \<Rightarrow> mainProcess" where
  "main_launched outcome s =
     (if mp_phase s \<noteq> Launching then s
      else case outcome of
        Inl e \<Rightarrow> s\<lparr>mp_phase := MainRejected e, mp_heartbeat := False\<rparr>
      | Inr _ \<Rightarrow> s\<lparr>mp_phase := Serving, mp_handlers := {SIGINT, SIGTERM}\<rparr>)"

definition main_stop :: "mainProcess \<Rightarrow> mainProcess" where
  "main_stop s = s\<lparr>mp_heartbeat := False, mp_handlers := {}, mp_closes := mp_closes s + 1\<rparr>"

text \<open>A handler registered by \<open>once\<close> is removed before it runs.\<close>

definition main_signal :: "signal \<Rightarrow> mainProcess \<Rightarrow> mainProcess" where
  "main_signal x s = (if x \<in> mp_handlers s then main_stop (s\<lparr>mp_handlers := mp_handlers s - {x}\<rparr>) else s)"

inductive main_step :: "mainProcess \<Rightarrow> mainProcess \<Rightarrow> bool" where
  main_launches: "main_step s (main_launched outcome s)"
| main_signals: "main_step s (main_signal x s)"
| main_stops: "mp_phase s = Serving \<Longrightarrow> main_step s (main_stop s)"

definition main_inv :: "mainProcess \<Rightarrow> bool" where
  "main_inv s \<longleftrightarrow>
     (mp_heartbeat s \<longleftrightarrow> mp_phase s = Launching \<or> (mp_phase s = Serving \<and> mp_closes s = 0))
     \<and> mp_handlers s = (if mp_phase s = Serving \<and> mp_closes s = 0 then {SIGINT, SIGTERM} else {})
     \<and> (mp_phase s \<noteq> Serving \<longrightarrow> mp_closes s = 0)"

interpretation process_main: invariant_system "\<lambda>s. s = main_begin" main_step main_inv
proof unfold_locales
  show "s = main_begin \<Longrightarrow> main_inv s" for s by (simp add: main_begin_def main_inv_def)
  show "main_inv s \<Longrightarrow> main_step s t \<Longrightarrow> main_inv t" for s t
    by (erule main_step.cases)
       (auto simp: main_inv_def main_launched_def main_stop_def main_signal_def split: sum.split if_splits)
qed

text \<open>
  The heartbeat and the signal handlers live exactly as long as the process has something to stop, and
  signals alone close the application at most once.
\<close>

theorem main_released:
  assumes "reachable (\<lambda>s. s = main_begin) main_step s"
  shows "(mp_heartbeat s \<longleftrightarrow> mp_phase s = Launching \<or> (mp_phase s = Serving \<and> mp_closes s = 0))
    \<and> (mp_closes s > 0 \<longrightarrow> main_signal x s = s) \<and> ((\<exists>e. mp_phase s = MainRejected e) \<longrightarrow> \<not> mp_heartbeat s \<and> main_signal x s = s)"
  using process_main.reachable_inv [OF assms] by (auto simp: main_inv_def main_signal_def split: if_splits)

section \<open>Properties\<close>

text \<open>
  C28: Nothing native is loaded before everything is validated. Whatever the environment holds, a launch that
  loads a native module has accepted it completely: the port, the host, the ICE settings and every number are
  in range, no allowlist holds an empty name, and the settings pass the checks \<open>startApp\<close> makes itself before
  it initializes ROS; the application is started exactly when the launch returns.
\<close>

theorem launch_validates:
  assumes "launch w env [] = (r, h)" and "aw_parses aw = lw_parses w" and "aw_toJS aw = lw_toJS w"
  shows "(\<not> unloaded h \<longrightarrow> (\<exists>plan. fst (launch_checks w env []) = Inr plan \<and> plan_ok env plan \<and> (\<exists>s. app_begin aw (lp_settings plan) = Inr s)))
    \<and> (StartApp \<in> set h \<longleftrightarrow> (\<exists>plan. r = Inr plan))"
proof -
  obtain c h' where c: "launch_checks w env [] = (c, h')" by fastforce
  have h': "unloaded h'" using keepsD [OF checks_unloaded _ c] by (simp add: unloaded_def)
  then have quiet: "StartApp \<notin> set h'" by (auto simp: unloaded_def)
  show ?thesis
  proof (cases c)
    case (Inl e)
    then have "r = Inl e" "h = h'" using assms(1) c by (simp_all add: launch_def bindE_run)
    then show ?thesis using h' quiet by simp
  next
    case (Inr plan)
    then have "plan_ok env plan \<and> (\<exists>s. app_begin aw (lp_settings plan) = Inr s)" using checks_plan [OF _ assms(2,3)] c by blast
    moreover have "StartApp \<in> set h \<longleftrightarrow> (\<exists>plan. r = Inr plan)"
      using assms(1) c Inr quiet
      by (cases "lw_loader w ''rclnodejs''"; cases "lw_loader w ''@ros-webrtc/werift-datachannel''")
         (auto simp: launch_def launch_emit_def bindE_run seqE_run prog_run)
    ultimately show ?thesis using c Inr by simp
  qed
qed

section \<open>Witnesses\<close>

definition example_env :: environment where
  "example_env = map_of [(''BRIDGE_CREDENTIAL'', example_credential), (''BRIDGE_CONFIG'', [1]), (''BRIDGE_TLS_KEY'', [2]), (''BRIDGE_TLS_CERT'', [3]),
     (''BRIDGE_MAX_CONFIG_BYTES'', ustr (show_nat 1000))]"

definition example_host :: launchWorld where
  "example_host = \<lparr>lw_readFiles = (\<lambda>_ _ _. Inr []), lw_secureContext = Inr (), lw_parses = (\<lambda>_. True), lw_toJS = (\<lambda>_. Inr Config.example_document),
     lw_readFixture = (\<lambda>_. Inr ()), lw_loader = (\<lambda>_. Inr ())\<rparr>"

lemma example_args: "ros_args example_env = Inr []"
proof -
  have space: "\<not> json_space (code_unit (CHR ''[''))" "\<not> json_space (code_unit (CHR '']''))" by (simp_all add: json_space_def code_unit_def)
  have "parse_value (Suc n) (ustr ''[]'') = Some (mk_arr [], [])" for n
    by (simp add: skip_ws_def space ustr_Cons starts_def)
  from this [of 5] have "parse_value 6 (ustr ''[]'') = Some (mk_arr [], [])" by simp
  then show ?thesis by (simp add: ros_args_def example_env_def env_default_def json_parse_def skip_ws_def mk_arr_def map_filter_simps)
qed

lemma example_launch: "\<exists>plan h. launch example_host example_env [] = (Inr plan, h) \<and> \<not> unloaded h"
proof -
  have m: "numberOption (Some (ustr (show_nat 1000))) 1048576 = Inr (NumI 1000)" using numberOption_decimal [of 1000] by (simp add: MAX_SAFE_INTEGER_def)
  have d: "numberOption None i = Inr (NumI i)" if "1 \<le> i" "i \<le> 1000000" for i using that by (simp add: numberOption_def MAX_SAFE_INTEGER_def)
  have "length example_credential = 32" "example_credential \<noteq> []" by (simp_all add: example_credential_def)
  have ice: "iceOptions example_env = Inr \<lparr>ice_servers = [], ice_portRange = None\<rparr>" by (simp add: iceOptions_def example_env_def)
  have opt: "option_number example_env ''BRIDGE_MAX_CONFIG_BYTES'' 1048576 h = (Inr (NumI 1000), h)" for h
    using m by (simp add: option_number_def example_env_def prog_run)
  have unset: "option_number example_env name i h = (Inr (NumI i), h)" if "example_env name = None" "1 \<le> i" "i \<le> 1000000" for name i h
    using d [OF that(2,3)] that(1) by (simp add: option_number_def prog_run)
  have none: "example_env ''BRIDGE_NEGOTIATION_TIMEOUT_MS'' = None" "example_env ''BRIDGE_MAX_SDP_BYTES'' = None" "example_env ''BRIDGE_REQUEST_TIMEOUT_MS'' = None"
    "example_env ''BRIDGE_MAX_HANDLES'' = None" "example_env ''BRIDGE_MAX_REQUESTS'' = None" "example_env ''BRIDGE_REQUEST_TTL_MS'' = None"
    "example_env ''BRIDGE_MAX_CONTROL_RATE_HZ'' = None"
    by (simp_all add: example_env_def)
  have lookups: "required_option example_env ''BRIDGE_CREDENTIAL'' = Inr example_credential" "required_option example_env ''BRIDGE_CONFIG'' = Inr [1]"
    "required_option example_env ''BRIDGE_TLS_KEY'' = Inr [2]" "required_option example_env ''BRIDGE_TLS_CERT'' = Inr [3]"
    using \<open>example_credential \<noteq> []\<close> by (auto simp: required_option_def example_env_def split: list.split)
  have src: "launch_source example_host example_env [] = (Inr (example_credential, [], NumI 1000), [ReadFiles [1] [2] [3], SecureContext])"
    using \<open>length example_credential = 32\<close>
    by (simp add: launch_source_def bindE_run seqE_run prog_run throwIf_run lookups opt launch_emit_def example_host_def example_inspected [simplified])
  have addr: "launch_address example_env h = (Inr (NumI 7443, ustr ''127.0.0.1''), h)" for h
    using unset [of "''BRIDGE_PORT''" 7443] by (simp add: launch_address_def bindE_run seqE_run prog_run throwIf_run env_default_def example_env_def ustr_Cons)
  have fixt: "launch_fixture example_host example_env h = (Inr (), h)" for h by (simp add: launch_fixture_def example_env_def prog_run)
  have st: "\<exists>st. launch_settings example_env x h = (Inr st, h)" for x h
    by (cases x) (simp add: launch_settings_def bindE_run prog_run unset none)
  have spin: "option_number example_env ''BRIDGE_SPIN_TIMEOUT_MS'' 10 h = (Inr (NumI 10), h)" for h by (rule unset) (simp_all add: example_env_def)
  obtain plan h where "launch_checks example_host example_env [] = (Inr plan, h)"
    using src addr fixt example_args ice spin st [of "(example_credential, [], NumI 1000)" "[ReadFiles [1] [2] [3], SecureContext]"]
    by (auto simp: launch_checks_def bindE_run seqE_run prog_run)
  then show ?thesis by (simp add: launch_def bindE_run seqE_run prog_run launch_emit_def example_host_def unloaded_def)
qed

theorem launch_validates_witness:
  "\<exists>plan. plan_ok example_env plan \<and> (\<exists>s. app_begin example_surface (lp_settings plan) = Inr s)"
proof -
  obtain plan h where l: "launch example_host example_env [] = (Inr plan, h)" "\<not> unloaded h" using example_launch by blast
  from launch_validates [OF l(1), of example_surface] l(2) show ?thesis by (auto simp: example_surface_def example_host_def)
qed

end
